(* ===== verification/Slurm_Prelude.thy ===== *)
theory Slurm_Prelude
  imports Main "HOL-Library.Word" "HOL-Library.Monad_Syntax"
begin

text \<open>
  Shared vocabulary of the development.

  C code that may stop the process is modelled in the option monad: \<open>None\<close> is an
  \<open>xassert\<close> that fails, a \<open>fatal\<close> or \<open>fatal_abort\<close> call, or an access outside the
  memory a pointer owns; \<open>Some r\<close> is a normal return with value and new state \<open>r\<close>.
  Error codes that the C functions return (\<open>-1\<close>, \<open>SLURM_ERROR\<close>, \<open>NULL\<close>) are ordinary
  values. A theorem that says an operation equals \<open>Some r\<close> therefore says that no assertion
  fails and that no word or byte outside the object is read or written.

  Loops are recursive functions. The two counted loop shapes of the sources are shared here
  with the invariant rules that the component proofs use: \<open>for_upto\<close> steps by one,
  \<open>for_words\<close> steps by one 64-bit word.
\<close>

unbundle bit_operations_syntax

named_theorems c_sem \<open>evaluation of the C memory and assertion primitives\<close>
named_theorems bits64 \<open>bit-level characterisations of the 64-bit masks\<close>

type_synonym u8 = "8 word"
type_synonym u16 = "16 word"
type_synonym u32 = "32 word"
type_synonym u64 = "64 word"

subsection \<open>Assertions and memory\<close>

text \<open>\<open>xassert\<close> of a development build (src/common/xassert.h): abort when the condition fails.\<close>

definition xassert :: "bool \<Rightarrow> unit option" where
  "xassert e = (if e then Some () else None)"

text \<open>Reading and writing one element of an owned array.\<close>

definition mem_get :: "'a list \<Rightarrow> nat \<Rightarrow> 'a option" where
  "mem_get m i = (if i < length m then Some (m ! i) else None)"

definition mem_set :: "'a list \<Rightarrow> nat \<Rightarrow> 'a \<Rightarrow> 'a list option" where
  "mem_set m i v = (if i < length m then Some (m[i := v]) else None)"

lemma xassert_bind [simp]: "xassert e \<bind> f = (if e then f () else None)"
  by (simp add: xassert_def)

lemma xassert_True [simp]: "xassert True = Some ()"
  by (simp add: xassert_def)

lemma xassert_eq_Some [simp]: "xassert e = Some u \<longleftrightarrow> e"
  by (simp add: xassert_def)

lemma mem_get_in [c_sem]: "i < length m \<Longrightarrow> mem_get m i = Some (m ! i)"
  by (simp add: mem_get_def)

lemma mem_set_in [c_sem]: "i < length m \<Longrightarrow> mem_set m i v = Some (m[i := v])"
  by (simp add: mem_set_def)

subsection \<open>Signed arithmetic\<close>

text \<open>C's division truncates and is undefined for the divisor zero; the result of an \<open>int\<close> operation is
  undefined when it does not fit 32 bits. Code that relies on either is modelled with these.\<close>

definition c_div :: "int \<Rightarrow> int \<Rightarrow> int option" where
  "c_div a b = (if b = 0 then None else Some (sgn a * sgn b * (\<bar>a\<bar> div \<bar>b\<bar>)))"

definition i32 :: "int \<Rightarrow> int option" where
  "i32 a = (if - (2 ^ 31) \<le> a \<and> a < 2 ^ 31 then Some a else None)"

lemma c_div_pos: "0 \<le> a \<Longrightarrow> 0 < b \<Longrightarrow> c_div a b = Some (a div b)"
  by (cases "a = 0") (simp_all add: c_div_def)

lemma i32_in [c_sem]: "0 \<le> a \<Longrightarrow> a < 2 ^ 31 \<Longrightarrow> i32 a = Some a"
  by (simp add: i32_def)

subsection \<open>Counted loops\<close>

text \<open>\<^verbatim>\<open>for (i = lo; i < hi; i++) s = f(i, s);\<close>\<close>

function for_upto :: "(nat \<Rightarrow> 's \<Rightarrow> 's option) \<Rightarrow> nat \<Rightarrow> nat \<Rightarrow> 's \<Rightarrow> 's option" where
  "for_upto f lo hi s = (if lo < hi then f lo s \<bind> for_upto f (Suc lo) hi else Some s)"
  by pat_completeness auto
termination
  by (relation "measure (\<lambda>(f, lo, hi, s). hi - lo)") auto

declare for_upto.simps [simp del]

lemma for_upto_done [simp]: "hi \<le> lo \<Longrightarrow> for_upto f lo hi s = Some s"
  by (simp add: for_upto.simps)

lemma for_upto_step: "lo < hi \<Longrightarrow> for_upto f lo hi s = f lo s \<bind> for_upto f (Suc lo) hi"
  by (simp add: for_upto.simps)

lemma for_upto_rule:
  assumes "lo \<le> hi" and "I lo s"
    and "\<And>i t. lo \<le> i \<Longrightarrow> i < hi \<Longrightarrow> I i t \<Longrightarrow> \<exists>t'. f i t = Some t' \<and> I (Suc i) t'"
  shows "\<exists>t. for_upto f lo hi s = Some t \<and> I hi t"
  using assms
proof (induction f lo hi s rule: for_upto.induct)
  case (1 f lo hi s)
  show ?case
  proof (cases "lo < hi")
    case True
    from "1.prems"(3) [OF order_refl True "1.prems"(2)]
    obtain t where t: "f lo s = Some t" "I (Suc lo) t" by blast
    have "\<exists>t'. for_upto f (Suc lo) hi t = Some t' \<and> I hi t'"
      using True t "1.prems"(3) by (intro "1.IH") auto
    with True t show ?thesis by (simp add: for_upto_step)
  next
    case False
    with "1.prems" show ?thesis by auto
  qed
qed

text \<open>\<^verbatim>\<open>for (bit = k; bit + 64 <= cnt; bit += 64) s = f(bit, s);\<close> with the final
  \<open>bit\<close> returned beside the state.\<close>

function for_words :: "(nat \<Rightarrow> 's \<Rightarrow> 's option) \<Rightarrow> nat \<Rightarrow> nat \<Rightarrow> 's \<Rightarrow> (nat \<times> 's) option" where
  "for_words f cnt k s =
     (if k + 64 \<le> cnt then f k s \<bind> for_words f cnt (k + 64) else Some (k, s))"
  by pat_completeness auto
termination
  by (relation "measure (\<lambda>(f, cnt, k, s). cnt - k)") auto

declare for_words.simps [simp del]

lemma for_words_rule:
  assumes "I k s"
    and "\<And>j t. k \<le> j \<Longrightarrow> j + 64 \<le> cnt \<Longrightarrow> (j - k) mod 64 = 0 \<Longrightarrow> I j t
           \<Longrightarrow> \<exists>t'. f j t = Some t' \<and> I (j + 64) t'"
  shows "\<exists>e t. for_words f cnt k s = Some (e, t) \<and> I e t \<and> k \<le> e \<and> cnt < e + 64
           \<and> (e - k) mod 64 = 0 \<and> (e \<le> cnt \<or> e = k)"
  using assms
proof (induction f cnt k s rule: for_words.induct)
  case (1 f cnt k s)
  show ?case
  proof (cases "k + 64 \<le> cnt")
    case True
    from "1.prems"(2) [OF order_refl True _ "1.prems"(1)]
    obtain t where t: "f k s = Some t" "I (k + 64) t" by auto
    have step: "\<exists>t'. f j u = Some t' \<and> I (j + 64) t'"
      if "k + 64 \<le> j" "j + 64 \<le> cnt" "(j - (k + 64)) mod 64 = 0" "I j u" for j u
    proof (rule "1.prems"(2))
      have "j - k = (j - (k + 64)) + 64" using that(1) by simp
      then show "(j - k) mod 64 = 0" using that(3) by (metis mod_add_self2)
    qed (use that in auto)
    have "\<exists>e u. for_words f cnt (k + 64) t = Some (e, u) \<and> I e u \<and> k + 64 \<le> e \<and> cnt < e + 64
        \<and> (e - (k + 64)) mod 64 = 0 \<and> (e \<le> cnt \<or> e = k + 64)"
      by (rule "1.IH" [OF True t]) (rule step)
    then obtain e u where eu: "for_words f cnt (k + 64) t = Some (e, u)" "I e u" "k + 64 \<le> e"
      "cnt < e + 64" "(e - (k + 64)) mod 64 = 0" "e \<le> cnt \<or> e = k + 64"
      by (elim exE conjE)
    have "(e - k) mod 64 = 0"
    proof -
      have "e - k = (e - (k + 64)) + 64" using eu(3) by simp
      then show ?thesis using eu(5) by (metis mod_add_self2)
    qed
    with True t eu show ?thesis by (auto simp: for_words.simps [of f cnt k s])
  next
    case False
    with "1.prems" show ?thesis by (auto simp: for_words.simps [of f cnt k s])
  qed
qed

text \<open>Loops from position 0, the common case: the final position is the last word boundary.\<close>

lemma for_words_from_0:
  assumes "I 0 s"
    and "\<And>j t. j + 64 \<le> cnt \<Longrightarrow> j mod 64 = 0 \<Longrightarrow> I j t \<Longrightarrow> \<exists>t'. f j t = Some t' \<and> I (j + 64) t'"
  shows "\<exists>t. for_words f cnt 0 s = Some (cnt - cnt mod 64, t) \<and> I (cnt - cnt mod 64) t"
proof -
  obtain e t where e: "for_words f cnt 0 s = Some (e, t)" "I e t" "cnt < e + 64"
    "e mod 64 = 0" "e \<le> cnt \<or> e = 0"
    using for_words_rule [of I 0 s cnt f] assms by auto
  obtain q where q: "e = 64 * q" using e(4) by (auto elim: dvdE simp: mod_eq_0_iff_dvd)
  have "cnt div 64 = q"
    using e(3,5) q by (intro div_nat_eqI) auto
  then have "e = cnt - cnt mod 64"
    using q by (simp add: minus_mod_eq_mult_div)
  with e(1,2) show ?thesis by metis
qed

subsection \<open>Masks and shifts on 64-bit words\<close>

lemma and_63_mod [simp]: "(i::nat) AND 63 = i mod 64"
  using take_bit_eq_mask [of 6 i] by (simp add: take_bit_eq_mod mask_eq_exp_minus_1)

lemma drop_bit_6_div [simp]: "drop_bit 6 (i::nat) = i div 64"
  by (simp add: drop_bit_eq_div)

lemma drop_bit_3_div [simp]: "drop_bit 3 (i::nat) = i div 8"
  by (simp add: drop_bit_eq_div)

lemma bit_u64_bound: "bit (w::u64) k \<Longrightarrow> k < 64"
  using bit_imp_le_length [of w k] by simp

lemma bit_one_shift [bits64]: "k < 64 \<Longrightarrow> bit (push_bit k (1::u64)) j \<longleftrightarrow> j = k"
  by (auto simp: bit_simps)

lemma bit_low_mask [bits64]: "n < 64 \<Longrightarrow> bit (push_bit n (1::u64) - 1) j \<longleftrightarrow> j < n"
  by (auto simp: push_bit_eq_mult bit_simps simp flip: mask_eq_exp_minus_1)

lemma u64_eqI: "(\<And>k. k < 64 \<Longrightarrow> bit (a::u64) k \<longleftrightarrow> bit b k) \<Longrightarrow> a = b"
  by (rule bit_eqI) (auto dest: bit_imp_le_length)

lemma u64_eq_iff: "(a::u64) = b \<longleftrightarrow> (\<forall>k<64. bit a k \<longleftrightarrow> bit b k)"
  by (auto intro: u64_eqI)

lemma u64_all_ones_iff: "(w::u64) = - 1 \<longleftrightarrow> (\<forall>k<64. bit w k)"
  by (auto intro: u64_eqI)

lemma u64_zero_iff: "(w::u64) = 0 \<longleftrightarrow> (\<forall>k<64. \<not> bit w k)"
  by (auto intro: u64_eqI)

lemma all_split_at:
  "k \<le> m \<Longrightarrow> (\<forall>j. k \<le> j \<longrightarrow> Q j) \<longleftrightarrow> (\<forall>j. k \<le> j \<longrightarrow> j < m \<longrightarrow> Q j) \<and> (\<forall>j. m \<le> (j::nat) \<longrightarrow> Q j)"
  by (meson le_trans linorder_not_le)

subsection \<open>First and last positions with a property\<close>

text \<open>The contract of the search operations: \<open>v\<close> is the least position of \<open>[lo, hi)\<close>
  where \<open>P\<close> holds, or \<open>-1\<close> when there is none; and the same for the greatest.\<close>

definition is_first :: "(nat \<Rightarrow> bool) \<Rightarrow> nat \<Rightarrow> nat \<Rightarrow> int \<Rightarrow> bool" where
  "is_first P lo hi v \<longleftrightarrow>
     (if \<exists>i. lo \<le> i \<and> i < hi \<and> P i
      then \<exists>i. v = int i \<and> lo \<le> i \<and> i < hi \<and> P i \<and> (\<forall>j. lo \<le> j \<and> j < i \<longrightarrow> \<not> P j)
      else v = -1)"

definition is_last :: "(nat \<Rightarrow> bool) \<Rightarrow> nat \<Rightarrow> int \<Rightarrow> bool" where
  "is_last P hi v \<longleftrightarrow>
     (if \<exists>i<hi. P i
      then \<exists>i. v = int i \<and> i < hi \<and> P i \<and> (\<forall>j. i < j \<and> j < hi \<longrightarrow> \<not> P j)
      else v = -1)"

lemma is_first_found [intro]:
  "lo \<le> i \<Longrightarrow> i < hi \<Longrightarrow> P i \<Longrightarrow> (\<And>j. lo \<le> j \<Longrightarrow> j < i \<Longrightarrow> \<not> P j) \<Longrightarrow> is_first P lo hi (int i)"
  by (auto simp: is_first_def)

lemma is_first_none [intro]:
  "(\<And>i. lo \<le> i \<Longrightarrow> i < hi \<Longrightarrow> \<not> P i) \<Longrightarrow> is_first P lo hi (-1)"
  by (auto simp: is_first_def)

lemma is_first_skip:
  "is_first P m hi v \<Longrightarrow> lo \<le> m \<Longrightarrow> (\<And>i. lo \<le> i \<Longrightarrow> i < m \<Longrightarrow> i < hi \<Longrightarrow> \<not> P i)
     \<Longrightarrow> is_first P lo hi v"
  unfolding is_first_def by (auto split: if_splits) (meson le_trans linorder_not_le)+

lemma is_first_unique: "is_first P lo hi v \<Longrightarrow> is_first P lo hi w \<Longrightarrow> v = w"
  unfolding is_first_def by (auto split: if_splits) (metis linorder_neqE_nat)

lemma is_last_found [intro]:
  "i < hi \<Longrightarrow> P i \<Longrightarrow> (\<And>j. i < j \<Longrightarrow> j < hi \<Longrightarrow> \<not> P j) \<Longrightarrow> is_last P hi (int i)"
  by (auto simp: is_last_def)

lemma is_last_none [intro]: "(\<And>i. i < hi \<Longrightarrow> \<not> P i) \<Longrightarrow> is_last P hi (-1)"
  by (auto simp: is_last_def)

lemma is_last_skip:
  "is_last P m v \<Longrightarrow> m \<le> hi \<Longrightarrow> (\<And>i. m \<le> i \<Longrightarrow> i < hi \<Longrightarrow> \<not> P i) \<Longrightarrow> is_last P hi v"
  unfolding is_last_def by (auto split: if_splits) (meson linorder_not_le order_less_le_trans)+

end
