(* ===== verification/Bitstring.thy ===== *)
theory Bitstring
  imports Slurm_Prelude
begin

text \<open>
  src/common/bitstring.c, first part: the representation, allocation and its buffer cache, and
  the operations that test, write, combine and copy bits.

  A bit string is an array of 64-bit words whose first two words hold a magic cookie and the
  number of bits; \<open>bitstr\<close> is that array with the two overhead words named. Positions
  (\<open>bitoff_t\<close>) are \<open>int\<close> where a caller passes them, because the assertions reject negative
  ones, and \<open>nat\<close> once they are known to be in range. Sizes are at most \<open>0x40000000\<close> (the code
  asserts it), so no position or count computed from them leaves its 32 or 64 bit type. The
  host is little-endian (\<open>SLURM_BIGENDIAN\<close> not defined).

  \<open>bs_of b P\<close> is the reference form the lemmas rewrite to: the bit string of the shape of
  \<open>b\<close> whose stored bits are given by \<open>P\<close>, the bits beyond \<open>bs_bits\<close> included.
\<close>

subsection \<open>Representation\<close>

definition BITSTR_MAGIC :: u64 where
  "BITSTR_MAGIC = 0x42434445"

record bitstr =
  bs_magic :: u64
  bs_bits :: nat
  bs_words :: "u64 list"

text \<open>\<open>_bit_word\<close>, \<open>_bit_mask\<close>, \<open>_bit_nmask\<close>, \<open>_bitstr_words\<close>, \<open>_bit_byteaddr\<close>.\<close>

definition bit_word :: "nat \<Rightarrow> nat" where
  "bit_word i = drop_bit 6 i + 2"

definition bit_byteaddr :: "nat \<Rightarrow> nat" where
  "bit_byteaddr i = drop_bit 3 i"

definition bit_mask :: "nat \<Rightarrow> u64" where
  "bit_mask i = push_bit (i AND 63) 1"

definition bit_nmask :: "nat \<Rightarrow> u64" where
  "bit_nmask n = push_bit (n AND 63) 1 - 1"

definition bitstr_words :: "nat \<Rightarrow> nat" where
  "bitstr_words nbits = drop_bit 6 (nbits + 63) + 2"

text \<open>The C expressions \<open>b[w]\<close> and \<open>b[w] = v\<close> on a data word.\<close>

definition bs_get :: "bitstr \<Rightarrow> nat \<Rightarrow> u64 option" where
  "bs_get b w = (if w < 2 then None else mem_get (bs_words b) (w - 2))"

definition bs_put :: "bitstr \<Rightarrow> nat \<Rightarrow> u64 \<Rightarrow> bitstr option" where
  "bs_put b w v =
     (if w < 2 then None
      else do { ws \<leftarrow> mem_set (bs_words b) (w - 2) v; Some (b\<lparr>bs_words := ws\<rparr>) })"

definition bit_test :: "bitstr \<Rightarrow> nat \<Rightarrow> bool option" where
  "bit_test b i = do { w \<leftarrow> bs_get b (bit_word i); Some (w AND bit_mask i \<noteq> 0) }"

definition assert_bitstr_valid :: "bitstr \<Rightarrow> unit option" where
  "assert_bitstr_valid b = xassert (bs_magic b = BITSTR_MAGIC)"

definition assert_bit_valid :: "bitstr \<Rightarrow> int \<Rightarrow> unit option" where
  "assert_bit_valid b i = xassert (0 \<le> i \<and> i < int (bs_bits b))"

definition assert_valid_size :: "int \<Rightarrow> unit option" where
  "assert_valid_size n = xassert (0 < n \<and> n \<le> 0x40000000)"

subsection \<open>Allocation and the buffer cache\<close>

definition bit_alloc :: "int \<Rightarrow> bitstr option" where
  "bit_alloc nbits = do {
     assert_valid_size nbits;
     Some \<lparr>bs_magic = BITSTR_MAGIC, bs_bits = nat nbits,
           bs_words = replicate (bitstr_words (nat nbits) - 2) 0\<rparr> }"

text \<open>\<open>bit_alloc_nz\<close> leaves the data words as the allocator returns them: \<open>junk\<close> is what
  that memory holds.\<close>

definition bit_alloc_nz :: "(nat \<Rightarrow> u64) \<Rightarrow> int \<Rightarrow> bitstr option" where
  "bit_alloc_nz junk nbits = do {
     assert_valid_size nbits;
     Some \<lparr>bs_magic = BITSTR_MAGIC, bs_bits = nat nbits,
           bs_words = map junk [0..<bitstr_words (nat nbits) - 2]\<rparr> }"

text \<open>The cache of freed buffers of one size: \<open>cached_bitstr_len\<close> and the stack that the
  freed arrays form through their first word. A cached array keeps its length and whatever
  its words hold.\<close>

record bit_cache =
  cached_bitstr_len :: nat
  cached_bitstr :: "u64 list list"

definition cache_pop :: "bit_cache \<Rightarrow> u64 list option \<times> bit_cache" where
  "cache_pop c = (case cached_bitstr c of
     [] \<Rightarrow> (None, c)
   | a # rest \<Rightarrow> (Some a, c\<lparr>cached_bitstr := rest\<rparr>))"

definition cache_push :: "u64 list \<Rightarrow> bit_cache \<Rightarrow> bit_cache" where
  "cache_push a c = c\<lparr>cached_bitstr := a # cached_bitstr c\<rparr>"

definition bit_cache_init :: "nat \<Rightarrow> bit_cache \<Rightarrow> bit_cache option" where
  "bit_cache_init nbits c =
     (if cached_bitstr_len c \<noteq> 0 \<and> cached_bitstr_len c \<noteq> nbits then None
      else Some (c\<lparr>cached_bitstr_len := nbits\<rparr>))"

fun cache_drain :: "u64 list list \<Rightarrow> u64 list list" where
  "cache_drain [] = []"
| "cache_drain (a # rest) = cache_drain rest"

definition bit_cache_fini :: "bit_cache \<Rightarrow> bit_cache" where
  "bit_cache_fini c = c\<lparr>cached_bitstr := cache_drain (cached_bitstr c)\<rparr>"

text \<open>\<open>bit_alloc\<close> and \<open>slurm_bit_free\<close> with the cache they share. An array is its overhead
  words followed by its data words; \<open>memset\<close> clears \<open>_bitstr_words(nbits)\<close> words of it.\<close>

definition arr_memset0 :: "u64 list \<Rightarrow> nat \<Rightarrow> u64 list option" where
  "arr_memset0 a n = (if n \<le> length a then Some (replicate n 0 @ drop n a) else None)"

definition bit_alloc_cached :: "int \<Rightarrow> bit_cache \<Rightarrow> (bitstr \<times> bit_cache) option" where
  "bit_alloc_cached nbits c = do {
     assert_valid_size nbits;
     let (new, c') = (if nbits = int (cached_bitstr_len c) then cache_pop c else (None, c));
     a \<leftarrow> (case new of
            Some a \<Rightarrow> arr_memset0 a (bitstr_words (nat nbits))
          | None \<Rightarrow> Some (replicate (bitstr_words (nat nbits)) 0));
     Some (\<lparr>bs_magic = BITSTR_MAGIC, bs_bits = nat nbits, bs_words = drop 2 a\<rparr>, c') }"

definition slurm_bit_free :: "bitstr \<Rightarrow> bit_cache \<Rightarrow> bit_cache option" where
  "slurm_bit_free b c = do {
     xassert (bs_magic b = BITSTR_MAGIC);
     Some (if bs_bits b = cached_bitstr_len c
           then cache_push (0 # of_nat (bs_bits b) # bs_words b) c else c) }"

text \<open>\<open>slurm_bit_realloc\<close>: \<open>xrecalloc\<close> keeps the common prefix and zeroes what is added.\<close>

definition slurm_bit_realloc :: "bitstr \<Rightarrow> int \<Rightarrow> bitstr option" where
  "slurm_bit_realloc b nbits = do {
     assert_bitstr_valid b;
     assert_valid_size nbits;
     let n = bitstr_words (nat nbits) - 2;
     let b' = b\<lparr>bs_words := take n (bs_words b) @ replicate (n - length (bs_words b)) 0\<rparr>;
     assert_bitstr_valid b';
     Some (b'\<lparr>bs_bits := nat nbits\<rparr>) }"

subsection \<open>Testing and writing bits\<close>

definition bit_size :: "bitstr \<Rightarrow> nat option" where
  "bit_size b = do { assert_bitstr_valid b; Some (bs_bits b) }"

definition slurm_bit_test :: "bitstr \<Rightarrow> int \<Rightarrow> bool option" where
  "slurm_bit_test b i = do {
     assert_bitstr_valid b; assert_bit_valid b i; bit_test b (nat i) }"

definition bit_set :: "bitstr \<Rightarrow> int \<Rightarrow> bitstr option" where
  "bit_set b i = do {
     assert_bitstr_valid b; assert_bit_valid b i;
     w \<leftarrow> bs_get b (bit_word (nat i));
     bs_put b (bit_word (nat i)) (w OR bit_mask (nat i)) }"

definition bit_clear :: "bitstr \<Rightarrow> int \<Rightarrow> bitstr option" where
  "bit_clear b i = do {
     assert_bitstr_valid b; assert_bit_valid b i;
     w \<leftarrow> bs_get b (bit_word (nat i));
     bs_put b (bit_word (nat i)) (w AND NOT (bit_mask (nat i))) }"

text \<open>Writing byte \<open>k\<close> of the data words, and \<open>memset\<close> over \<open>n\<close> bytes from byte \<open>k\<close>.\<close>

definition put_byte :: "u8 \<Rightarrow> nat \<Rightarrow> bitstr \<Rightarrow> bitstr option" where
  "put_byte v k b = do {
     w \<leftarrow> mem_get (bs_words b) (k div 8);
     ws \<leftarrow> mem_set (bs_words b) (k div 8)
            ((w AND NOT (push_bit (8 * (k mod 8)) 255)) OR push_bit (8 * (k mod 8)) (ucast v));
     Some (b\<lparr>bs_words := ws\<rparr>) }"

definition bs_memset :: "bitstr \<Rightarrow> nat \<Rightarrow> u8 \<Rightarrow> nat \<Rightarrow> bitstr option" where
  "bs_memset b k v n = for_upto (put_byte v) k (k + n) b"

text \<open>The two byte-alignment loops of \<open>bit_nset\<close> and \<open>bit_nclear\<close>; \<open>wr\<close> is \<open>bit_set\<close> or
  \<open>bit_clear\<close>.\<close>

function nrange_first :: "(bitstr \<Rightarrow> int \<Rightarrow> bitstr option) \<Rightarrow> bitstr \<Rightarrow> int \<Rightarrow> int
    \<Rightarrow> (bitstr \<times> int) option" where
  "nrange_first wr b start stop =
     (if start \<le> stop \<and> start mod 8 > 0
      then do { b' \<leftarrow> wr b start; nrange_first wr b' (start + 1) stop }
      else Some (b, start))"
  by pat_completeness auto
termination
  by (relation "measure (\<lambda>(wr, b, start, stop). nat (stop + 1 - start))") auto

function nrange_last :: "(bitstr \<Rightarrow> int \<Rightarrow> bitstr option) \<Rightarrow> bitstr \<Rightarrow> int \<Rightarrow> int
    \<Rightarrow> (bitstr \<times> int) option" where
  "nrange_last wr b start stop =
     (if stop \<ge> start \<and> (stop + 1) mod 8 > 0
      then do { b' \<leftarrow> wr b stop; nrange_last wr b' start (stop - 1) }
      else Some (b, stop))"
  by pat_completeness auto
termination
  by (relation "measure (\<lambda>(wr, b, start, stop). nat (stop + 1 - start))") auto

declare nrange_first.simps [simp del] nrange_last.simps [simp del]

definition bit_nset :: "bitstr \<Rightarrow> int \<Rightarrow> int \<Rightarrow> bitstr option" where
  "bit_nset b start stop = do {
     assert_bitstr_valid b; assert_bit_valid b start; assert_bit_valid b stop;
     (b1, start1) \<leftarrow> nrange_first bit_set b start stop;
     (b2, stop1) \<leftarrow> nrange_last bit_set b1 start1 stop;
     if stop1 > start1 then do {
       xassert ((stop1 - start1 + 1) mod 8 = 0);
       bs_memset b2 (bit_byteaddr (nat start1)) 255 (nat ((stop1 - start1 + 1) div 8)) }
     else Some b2 }"

definition bit_nclear :: "bitstr \<Rightarrow> int \<Rightarrow> int \<Rightarrow> bitstr option" where
  "bit_nclear b start stop = do {
     assert_bitstr_valid b; assert_bit_valid b start; assert_bit_valid b stop;
     (b1, start1) \<leftarrow> nrange_first bit_clear b start stop;
     (b2, stop1) \<leftarrow> nrange_last bit_clear b1 start1 stop;
     if stop1 > start1 then do {
       xassert ((stop1 - start1 + 1) mod 8 = 0);
       bs_memset b2 (bit_byteaddr (nat start1)) 0 (nat ((stop1 - start1 + 1) div 8)) }
     else Some b2 }"

definition bit_set_all :: "bitstr \<Rightarrow> bitstr option" where
  "bit_set_all b = do { n \<leftarrow> bit_size b; bit_nset b 0 (int n - 1) }"

definition bit_clear_all :: "bitstr \<Rightarrow> bitstr option" where
  "bit_clear_all b = do { n \<leftarrow> bit_size b; bit_nclear b 0 (int n - 1) }"

subsection \<open>Whole-string operations\<close>

text \<open>The word loop of the binary operations: \<open>b1[w] = f(b1[w], b2[w])\<close> on every word that
  lies completely below \<open>cnt\<close>.\<close>

definition word_op2 :: "(u64 \<Rightarrow> u64 \<Rightarrow> u64) \<Rightarrow> bitstr \<Rightarrow> nat \<Rightarrow> bitstr \<Rightarrow> bitstr option" where
  "word_op2 f b2 k b = do {
     x \<leftarrow> bs_get b (bit_word k);
     y \<leftarrow> bs_get b2 (bit_word k);
     bs_put b (bit_word k) (f x y) }"

definition bit_and :: "bitstr \<Rightarrow> bitstr \<Rightarrow> bitstr option" where
  "bit_and b1 b2 = do {
     assert_bitstr_valid b1; assert_bitstr_valid b2;
     let bit_cnt = min (bs_bits b1) (bs_bits b2);
     (k, b) \<leftarrow> for_words (word_op2 (\<lambda>x y. x AND y) b2) bit_cnt 0 b1;
     if k < bit_cnt
     then word_op2 (\<lambda>x y. x AND (y OR NOT (bit_nmask bit_cnt))) b2 k b
     else Some b }"

definition bit_and_not :: "bitstr \<Rightarrow> bitstr \<Rightarrow> bitstr option" where
  "bit_and_not b1 b2 = do {
     assert_bitstr_valid b1; assert_bitstr_valid b2;
     let bit_cnt = min (bs_bits b1) (bs_bits b2);
     (k, b) \<leftarrow> for_words (word_op2 (\<lambda>x y. x AND NOT y) b2) bit_cnt 0 b1;
     if k < bit_cnt
     then word_op2 (\<lambda>x y. x AND NOT (y AND bit_nmask bit_cnt)) b2 k b
     else Some b }"

definition bit_or :: "bitstr \<Rightarrow> bitstr \<Rightarrow> bitstr option" where
  "bit_or b1 b2 = do {
     assert_bitstr_valid b1; assert_bitstr_valid b2;
     let bit_cnt = min (bs_bits b1) (bs_bits b2);
     (k, b) \<leftarrow> for_words (word_op2 (\<lambda>x y. x OR y) b2) bit_cnt 0 b1;
     if k < bit_cnt
     then word_op2 (\<lambda>x y. x OR (y AND bit_nmask bit_cnt)) b2 k b
     else Some b }"

definition bit_or_not :: "bitstr \<Rightarrow> bitstr \<Rightarrow> bitstr option" where
  "bit_or_not b1 b2 = do {
     assert_bitstr_valid b1; assert_bitstr_valid b2;
     let bit_cnt = min (bs_bits b1) (bs_bits b2);
     (k, b) \<leftarrow> for_words (word_op2 (\<lambda>x y. x OR NOT y) b2) bit_cnt 0 b1;
     if k < bit_cnt
     then word_op2 (\<lambda>x y. x OR NOT (y OR NOT (bit_nmask bit_cnt))) b2 k b
     else Some b }"

text \<open>\<^verbatim>\<open>for (bit = 0; bit < bits; bit += 64) b[w] = ~b[w];\<close> runs over the last word as well,
  whatever part of it is in use.\<close>

function bit_not_loop :: "nat \<Rightarrow> bitstr \<Rightarrow> bitstr option" where
  "bit_not_loop k b =
     (if k < bs_bits b
      then do { w \<leftarrow> bs_get b (bit_word k); b' \<leftarrow> bs_put b (bit_word k) (NOT w);
                bit_not_loop (k + 64) b' }
      else Some b)"
  by pat_completeness auto
termination
  by (relation "measure (\<lambda>(k, b). bs_bits b - k)") (auto simp: bs_put_def mem_set_def split: if_splits)

declare bit_not_loop.simps [simp del]

definition bit_not :: "bitstr \<Rightarrow> bitstr option" where
  "bit_not b = do { assert_bitstr_valid b; bit_not_loop 0 b }"

text \<open>\<open>memcpy\<close> of \<open>n\<close> data words from \<open>src\<close> to \<open>dst\<close>.\<close>

definition bs_memcpy :: "bitstr \<Rightarrow> bitstr \<Rightarrow> nat \<Rightarrow> bitstr option" where
  "bs_memcpy dst src n =
     (if n \<le> length (bs_words dst) \<and> n \<le> length (bs_words src)
      then Some (dst\<lparr>bs_words := take n (bs_words src) @ drop n (bs_words dst)\<rparr>) else None)"

definition bit_copy :: "(nat \<Rightarrow> u64) \<Rightarrow> bitstr \<Rightarrow> bitstr option" where
  "bit_copy junk b = do {
     assert_bitstr_valid b;
     newsize_bits \<leftarrow> bit_size b;
     new \<leftarrow> bit_alloc_nz junk (int newsize_bits);
     bs_memcpy new b (bitstr_words newsize_bits - 2) }"

definition bit_copybits :: "bitstr \<Rightarrow> bitstr \<Rightarrow> bitstr option" where
  "bit_copybits dest src = do {
     assert_bitstr_valid dest; assert_bitstr_valid src;
     ns \<leftarrow> bit_size src; nd \<leftarrow> bit_size dest;
     xassert (ns = nd);
     bs_memcpy dest src (bitstr_words ns - 2) }"

function bit_super_set_loop :: "bitstr \<Rightarrow> bitstr \<Rightarrow> nat \<Rightarrow> bool option" where
  "bit_super_set_loop b1 b2 k =
     (if k < bs_bits b1
      then do {
        x \<leftarrow> bs_get b1 (bit_word k);
        y \<leftarrow> bs_get b2 (bit_word k);
        if x \<noteq> x AND y
        then if k + 64 \<le> bs_bits b1 then Some False
             else let mask = bit_nmask (bs_bits b1)
                  in if x AND mask \<noteq> x AND y AND mask then Some False
                     else bit_super_set_loop b1 b2 (k + 64)
        else bit_super_set_loop b1 b2 (k + 64) }
      else Some True)"
  by pat_completeness auto
termination
  by (relation "measure (\<lambda>(b1, b2, k). bs_bits b1 - k)") auto

declare bit_super_set_loop.simps [simp del]

definition bit_super_set :: "bitstr \<Rightarrow> bitstr \<Rightarrow> bool option" where
  "bit_super_set b1 b2 = do {
     assert_bitstr_valid b1; assert_bitstr_valid b2;
     xassert (bs_bits b1 = bs_bits b2);
     bit_super_set_loop b1 b2 0 }"

text \<open>\<open>bit_equal\<close>: the loop over the whole words stops at the first difference.\<close>

function bit_equal_loop :: "bitstr \<Rightarrow> bitstr \<Rightarrow> nat \<Rightarrow> nat \<Rightarrow> (bool \<times> nat) option" where
  "bit_equal_loop b1 b2 bit_cnt k =
     (if k + 64 \<le> bit_cnt
      then do {
        x \<leftarrow> bs_get b1 (bit_word k);
        y \<leftarrow> bs_get b2 (bit_word k);
        if x \<noteq> y then Some (False, k) else bit_equal_loop b1 b2 bit_cnt (k + 64) }
      else Some (True, k))"
  by pat_completeness auto
termination
  by (relation "measure (\<lambda>(b1, b2, bit_cnt, k). bit_cnt - k)") auto

declare bit_equal_loop.simps [simp del]

definition bit_equal :: "bitstr \<Rightarrow> bitstr \<Rightarrow> bool option" where
  "bit_equal b1 b2 = do {
     assert_bitstr_valid b1; assert_bitstr_valid b2;
     if bs_bits b1 \<noteq> bs_bits b2 then Some False
     else do {
       let bit_cnt = bs_bits b1;
       (same, k) \<leftarrow> bit_equal_loop b1 b2 bit_cnt 0;
       if \<not> same then Some False
       else if k < bit_cnt then do {
         x \<leftarrow> bs_get b1 (bit_word k);
         y \<leftarrow> bs_get b2 (bit_word k);
         Some ((x XOR y) AND bit_nmask bit_cnt = 0) }
       else Some True } }"

subsection \<open>Abstraction: the stored bits and the set of positions\<close>

definition word_of_bits :: "(nat \<Rightarrow> bool) \<Rightarrow> u64" where
  "word_of_bits P = horner_sum of_bool 2 (map P [0..<64])"

definition bs_bit :: "bitstr \<Rightarrow> nat \<Rightarrow> bool" where
  "bs_bit b i \<longleftrightarrow> i div 64 < length (bs_words b) \<and> bit (bs_words b ! (i div 64)) (i mod 64)"

definition bs_of :: "bitstr \<Rightarrow> (nat \<Rightarrow> bool) \<Rightarrow> bitstr" where
  "bs_of b P =
     b\<lparr>bs_words := map (\<lambda>w. word_of_bits (\<lambda>k. P (64 * w + k))) [0..<length (bs_words b)]\<rparr>"

text \<open>The invariant every operation keeps, and the set a bit string stands for.\<close>

definition bs_valid :: "bitstr \<Rightarrow> bool" where
  "bs_valid b \<longleftrightarrow> bs_magic b = BITSTR_MAGIC \<and> 0 < bs_bits b \<and> bs_bits b \<le> 0x40000000
     \<and> length (bs_words b) = bitstr_words (bs_bits b) - 2"

definition bs_set :: "bitstr \<Rightarrow> nat set" where
  "bs_set b = {i. i < bs_bits b \<and> bs_bit b i}"

lemma bit_word_of_bits [bits64]: "bit (word_of_bits P) k \<longleftrightarrow> k < 64 \<and> P k"
  by (auto simp: word_of_bits_def bit_horner_sum_bit_word_iff)

lemma bit_word_eq: "bit_word i = i div 64 + 2"
  by (simp add: bit_word_def)

lemma bitstr_words_eq [simp]: "bitstr_words n = (n + 63) div 64 + 2"
  by (simp add: bitstr_words_def)

lemma bit_bit_mask [bits64]: "bit (bit_mask i) k \<longleftrightarrow> k = i mod 64"
  unfolding bit_mask_def and_63_mod by (rule bit_one_shift) simp

lemma bit_bit_nmask [bits64]: "bit (bit_nmask n) k \<longleftrightarrow> k < n mod 64"
  unfolding bit_nmask_def and_63_mod by (rule bit_low_mask) simp

lemma and_bit_mask_eq_0: "w AND bit_mask i = 0 \<longleftrightarrow> \<not> bit w (i mod 64)"
  by (auto simp: u64_zero_iff bit_and_iff bits64 dest: spec [of _ "i mod 64"])

lemma words_cover: "(i::nat) < n \<Longrightarrow> i div 64 < (n + 63) div 64"
proof -
  assume "i < n"
  then have "i + 64 \<le> n + 63" by simp
  then have "(i + 64) div 64 \<le> (n + 63) div 64" by (rule div_le_mono)
  then show ?thesis by simp
qed

lemma bs_valid_word [simp, intro]: "bs_valid b \<Longrightarrow> i < bs_bits b \<Longrightarrow> i div 64 < length (bs_words b)"
  by (simp add: bs_valid_def words_cover)

lemma bs_valid_asserts [simp]: "bs_valid b \<Longrightarrow> assert_bitstr_valid b = Some ()"
  by (simp add: bs_valid_def assert_bitstr_valid_def)

lemma bs_valid_pos [simp, intro]: "bs_valid b \<Longrightarrow> 0 < bs_bits b"
  by (simp add: bs_valid_def)

lemma assert_bit_valid_in [simp]: "i < bs_bits b \<Longrightarrow> assert_bit_valid b (int i) = Some ()"
  by (simp add: assert_bit_valid_def)

subsubsection \<open>The reference form\<close>

lemma bs_of_fields [simp]:
  "bs_magic (bs_of b P) = bs_magic b" "bs_bits (bs_of b P) = bs_bits b"
  "length (bs_words (bs_of b P)) = length (bs_words b)"
  by (simp_all add: bs_of_def)

lemma bs_valid_bs_of [simp]: "bs_valid (bs_of b P) \<longleftrightarrow> bs_valid b"
  by (simp add: bs_valid_def)

lemma bs_bit_bs_of [simp]: "bs_bit (bs_of b P) i \<longleftrightarrow> i div 64 < length (bs_words b) \<and> P i"
  by (auto simp: bs_bit_def bs_of_def bits64)

lemma bs_eqI:
  assumes "bs_magic a = bs_magic b" "bs_bits a = bs_bits b"
    "length (bs_words a) = length (bs_words b)"
    and "\<And>i. i div 64 < length (bs_words b) \<Longrightarrow> bs_bit a i \<longleftrightarrow> bs_bit b i"
  shows "a = (b::bitstr)"
proof -
  have "bs_words a = bs_words b"
  proof (rule nth_equalityI)
    fix w assume w: "w < length (bs_words a)"
    show "bs_words a ! w = bs_words b ! w"
    proof (rule u64_eqI)
      fix k :: nat assume "k < 64"
      then show "bit (bs_words a ! w) k = bit (bs_words b ! w) k"
        using assms(3) assms(4) [of "64 * w + k"] w by (simp add: bs_bit_def)
    qed
  qed (rule assms)
  with assms show ?thesis by simp
qed

lemma bs_of_bs_bit [simp]: "bs_of b (bs_bit b) = b"
  by (rule bs_eqI) auto

lemma bs_of_bs_of [simp]: "bs_of (bs_of b P) Q = bs_of b Q"
  by (simp add: bs_of_def)

lemma bs_of_cong: "(\<And>i. i div 64 < length (bs_words b) \<Longrightarrow> P i \<longleftrightarrow> Q i) \<Longrightarrow> bs_of b P = bs_of b Q"
  by (rule bs_eqI) auto

lemma bs_of_id: "(\<And>i. i div 64 < length (bs_words b) \<Longrightarrow> P i \<longleftrightarrow> bs_bit b i) \<Longrightarrow> bs_of b P = b"
  by (rule bs_eqI) auto

lemma bs_set_bs_of: "bs_valid b \<Longrightarrow> bs_set (bs_of b P) = {i. i < bs_bits b \<and> P i}"
  by (auto simp: bs_set_def)

lemma bs_set_less: "i \<in> bs_set b \<Longrightarrow> i < bs_bits b"
  by (simp add: bs_set_def)

lemma bs_set_finite [simp, intro]: "finite (bs_set b)"
  by (simp add: bs_set_def)

subsubsection \<open>Word and byte accesses\<close>

lemma bs_get_word [c_sem]:
  "i div 64 < length (bs_words b) \<Longrightarrow> bs_get b (bit_word i) = Some (bs_words b ! (i div 64))"
  by (simp add: bs_get_def mem_get_def bit_word_eq)

lemma bs_put_word [c_sem]:
  assumes "i div 64 < length (bs_words b)"
  shows "bs_put b (bit_word i) v =
    Some (bs_of b (\<lambda>j. if j div 64 = i div 64 then bit v (j mod 64) else bs_bit b j))"
proof -
  have "b\<lparr>bs_words := (bs_words b)[i div 64 := v]\<rparr> =
      bs_of b (\<lambda>j. if j div 64 = i div 64 then bit v (j mod 64) else bs_bit b j)"
    using assms by (intro bs_eqI) (auto simp: bs_bit_def [of "b\<lparr>bs_words := _\<rparr>"] bs_bit_def [of b] nth_list_update)
  with assms show ?thesis by (simp add: bs_put_def mem_set_def bit_word_eq)
qed

lemma bit_test_eq [c_sem]: "i div 64 < length (bs_words b) \<Longrightarrow> bit_test b i = Some (bs_bit b i)"
  by (simp add: bit_test_def bs_get_word and_bit_mask_eq_0 bs_bit_def)

lemma slurm_bit_test_eq [c_sem]:
  "bs_valid b \<Longrightarrow> i < bs_bits b \<Longrightarrow> slurm_bit_test b (int i) = Some (bs_bit b i)"
  by (simp add: slurm_bit_test_def bit_test_eq)

lemma bit_size_eq [c_sem]: "bs_valid b \<Longrightarrow> bit_size b = Some (bs_bits b)"
  by (simp add: bit_size_def)

lemma same_word: "(j::nat) div 64 = i div 64 \<and> j mod 64 = i mod 64 \<longleftrightarrow> j = i"
  by (metis div_mult_mod_eq)

lemma bit_set_eq [c_sem]:
  assumes "bs_valid b" "i < bs_bits b"
  shows "bit_set b (int i) = Some (bs_of b (\<lambda>j. j = i \<or> bs_bit b j))"
proof -
  have "bit_set b (int i) = Some (bs_of b (\<lambda>j. if j div 64 = i div 64
          then bit (bs_words b ! (i div 64) OR bit_mask i) (j mod 64) else bs_bit b j))"
    using assms by (simp add: bit_set_def bs_get_word bs_put_word)
  also have "\<dots> = Some (bs_of b (\<lambda>j. j = i \<or> bs_bit b j))"
    using assms same_word by (auto intro!: bs_of_cong simp: bit_or_iff bits64 bs_bit_def)
  finally show ?thesis .
qed

lemma bit_clear_eq [c_sem]:
  assumes "bs_valid b" "i < bs_bits b"
  shows "bit_clear b (int i) = Some (bs_of b (\<lambda>j. j \<noteq> i \<and> bs_bit b j))"
proof -
  have "bit_clear b (int i) = Some (bs_of b (\<lambda>j. if j div 64 = i div 64
          then bit (bs_words b ! (i div 64) AND NOT (bit_mask i)) (j mod 64) else bs_bit b j))"
    using assms by (simp add: bit_clear_def bs_get_word bs_put_word)
  also have "\<dots> = Some (bs_of b (\<lambda>j. j \<noteq> i \<and> bs_bit b j))"
    using assms same_word by (auto intro!: bs_of_cong simp: bit_and_iff bit_not_iff bits64 bs_bit_def)
  finally show ?thesis .
qed

subsubsection \<open>Byte writes and ranges\<close>

lemma bit_255_int: "bit (255::int) n \<longleftrightarrow> n < 8"
proof -
  have "bit (mask m :: int) n \<longleftrightarrow> n < m" for m
    by (simp add: bit_mask_iff)
  from this [of 8] show ?thesis by (simp add: mask_eq_exp_minus_1)
qed

lemma byte_in_word: "(j::nat) div 8 = k \<longleftrightarrow> j div 64 = k div 8 \<and> j mod 64 div 8 = k mod 8"
proof -
  have "j div 64 = j div 8 div 8" by (simp flip: div_mult2_eq)
  moreover have "j mod 64 div 8 = j div 8 mod 8"
    using mod_mult2_eq [of j 8 8] by simp
  ultimately show ?thesis by (metis div_mult_mod_eq)
qed

lemma bit_byte_write:
  fixes w :: u64 and v :: u8
  assumes "q < 8" "m < 64"
  shows "bit ((w AND NOT (push_bit (8 * q) 255)) OR push_bit (8 * q) (ucast v)) m \<longleftrightarrow>
           (if m div 8 = q then bit v (m mod 8) else bit w m)"
proof -
  have "(8 * q \<le> m \<and> m - 8 * q < 8) \<longleftrightarrow> m div 8 = q"
    by (auto simp: div_nat_eqI)
  moreover have "m div 8 = q \<Longrightarrow> m - 8 * q = m mod 8"
    by (metis minus_mult_div_eq_mod)
  moreover have "bit (ucast v :: u64) n \<Longrightarrow> n < 8" for n
    by (auto simp: bit_ucast_iff dest: bit_imp_le_length)
  ultimately show ?thesis
    using assms by (auto simp: bit_or_iff bit_and_iff bit_not_iff bit_push_bit_iff bit_255_int bit_ucast_iff)
qed

lemma put_byte_eq [c_sem]:
  assumes "k div 8 < length (bs_words b)"
  shows "put_byte v k b = Some (bs_of b (\<lambda>j. if j div 8 = k then bit v (j mod 8) else bs_bit b j))"
proof -
  let ?w = "bs_words b ! (k div 8)"
  let ?v = "(?w AND NOT (push_bit (8 * (k mod 8)) 255)) OR push_bit (8 * (k mod 8)) (ucast v)"
  have "b\<lparr>bs_words := (bs_words b)[k div 8 := ?v]\<rparr> =
      bs_of b (\<lambda>j. if j div 8 = k then bit v (j mod 8) else bs_bit b j)"
  proof (rule bs_eqI)
    fix j assume "j div 64 < length (bs_words (bs_of b
      (\<lambda>j. if j div 8 = k then bit v (j mod 8) else bs_bit b j)))"
    then have j: "j div 64 < length (bs_words b)" by simp
    have m: "j mod 64 mod 8 = j mod 8" by (simp add: mod_mod_cancel)
    have w: "bit ?v (j mod 64) \<longleftrightarrow> (if j mod 64 div 8 = k mod 8 then bit v (j mod 8) else bit ?w (j mod 64))"
      using bit_byte_write [of "k mod 8" "j mod 64" ?w v] m by simp
    show "bs_bit (b\<lparr>bs_words := (bs_words b)[k div 8 := ?v]\<rparr>) j \<longleftrightarrow>
        bs_bit (bs_of b (\<lambda>j. if j div 8 = k then bit v (j mod 8) else bs_bit b j)) j"
    proof (cases "j div 64 = k div 8")
      case True
      then show ?thesis using j w
        by (simp only: bs_bit_bs_of byte_in_word [of j k]) (simp add: bs_bit_def)
    next
      case False
      then show ?thesis using j
        by (simp only: bs_bit_bs_of byte_in_word [of j k]) (simp add: bs_bit_def)
    qed
  qed auto
  with assms show ?thesis by (simp add: put_byte_def mem_get_def mem_set_def)
qed

lemma bs_memset_eq:
  assumes "8 * (k + n) \<le> 64 * length (bs_words b)"
  shows "bs_memset b k v n =
    Some (bs_of b (\<lambda>j. if k \<le> j div 8 \<and> j div 8 < k + n then bit v (j mod 8) else bs_bit b j))"
proof -
  let ?I = "\<lambda>m t. t = bs_of b (\<lambda>j. if k \<le> j div 8 \<and> j div 8 < m then bit v (j mod 8) else bs_bit b j)"
  have "\<exists>t. for_upto (put_byte v) k (k + n) b = Some t \<and> ?I (k + n) t"
  proof (rule for_upto_rule)
    show "?I k b" by (rule sym, rule bs_of_id) auto
    fix m t assume m: "k \<le> m" "m < k + n" and t: "?I m t"
    have "m div 8 < length (bs_words b)" using m assms by (simp add: less_mult_imp_div_less)
    then show "\<exists>t'. put_byte v m t = Some t' \<and> ?I (Suc m) t'"
      using t m by (auto simp: put_byte_eq intro!: bs_of_cong)
  qed simp
  then show ?thesis by (simp add: bs_memset_def)
qed

text \<open>The contract of one bit write, shared by \<open>bit_set\<close> (\<open>v = True\<close>) and \<open>bit_clear\<close>.\<close>

definition writes_bit :: "(bitstr \<Rightarrow> int \<Rightarrow> bitstr option) \<Rightarrow> bool \<Rightarrow> bool" where
  "writes_bit wr v \<longleftrightarrow> (\<forall>b i. bs_valid b \<longrightarrow> i < bs_bits b \<longrightarrow>
     wr b (int i) = Some (bs_of b (\<lambda>j. if j = i then v else bs_bit b j)))"

lemma writes_bit_set: "writes_bit bit_set True"
  by (auto simp: writes_bit_def bit_set_eq intro!: bs_of_cong)

lemma writes_bit_clear: "writes_bit bit_clear False"
  by (auto simp: writes_bit_def bit_clear_eq intro!: bs_of_cong)

definition bs_fill :: "bitstr \<Rightarrow> int \<Rightarrow> int \<Rightarrow> bool \<Rightarrow> bitstr" where
  "bs_fill b lo hi v = bs_of b (\<lambda>j. if lo \<le> int j \<and> int j < hi then v else bs_bit b j)"

lemma bs_fill_fields [simp]:
  "bs_bits (bs_fill b lo hi v) = bs_bits b" "bs_valid (bs_fill b lo hi v) = bs_valid b"
  "length (bs_words (bs_fill b lo hi v)) = length (bs_words b)"
  by (simp_all add: bs_fill_def)

lemma bs_fill_empty [simp]: "hi \<le> lo \<Longrightarrow> bs_fill b lo hi v = b"
  unfolding bs_fill_def by (rule bs_of_id) auto

lemma bs_fill_fill:
  "lo \<le> m \<Longrightarrow> m \<le> hi \<Longrightarrow> bs_fill (bs_fill b lo m v) m hi v = bs_fill b lo hi v"
  "lo \<le> m \<Longrightarrow> m \<le> hi \<Longrightarrow> bs_fill (bs_fill b m hi v) lo m v = bs_fill b lo hi v"
  by (auto simp: bs_fill_def intro!: bs_of_cong)

lemma writes_bit_fill:
  assumes "writes_bit wr v" "bs_valid b" "0 \<le> i" "i < int (bs_bits b)"
  shows "wr b i = Some (bs_fill b i (i + 1) v)"
proof -
  have "wr b (int (nat i)) = Some (bs_of b (\<lambda>j. if j = nat i then v else bs_bit b j))"
    using assms(1) [unfolded writes_bit_def, rule_format, of b "nat i"] assms(2-)
    by (simp only: nat_less_iff)
  moreover have "bs_of b (\<lambda>j. if j = nat i then v else bs_bit b j) = bs_fill b i (i + 1) v"
    unfolding bs_fill_def using assms(3) by (intro bs_of_cong) auto
  ultimately show ?thesis using assms(3) by simp
qed

lemma nrange_first_eq:
  assumes "writes_bit wr v" "bs_valid b" "0 \<le> start" "stop < int (bs_bits b)"
  shows "\<exists>s. nrange_first wr b start stop = Some (bs_fill b start s v, s)
           \<and> start \<le> s \<and> s \<le> max start (stop + 1) \<and> (s mod 8 = 0 \<or> stop < s)"
  using assms
proof (induction wr b start stop rule: nrange_first.induct)
  case (1 wr b start stop)
  show ?case
  proof (cases "start \<le> stop \<and> start mod 8 > 0")
    case True
    let ?b = "bs_fill b start (start + 1) v"
    have wr: "wr b start = Some ?b"
      using 1(2-) True by (intro writes_bit_fill) auto
    have "\<exists>s. nrange_first wr ?b (start + 1) stop = Some (bs_fill ?b (start + 1) s v, s)
           \<and> start + 1 \<le> s \<and> s \<le> max (start + 1) (stop + 1) \<and> (s mod 8 = 0 \<or> stop < s)"
      using 1(2-) True wr by (intro "1.IH") auto
    then show ?thesis
      using True wr by (auto simp: nrange_first.simps [of wr b] bs_fill_fill)
  next
    case False
    then show ?thesis
      using "1.prems" by (auto simp: nrange_first.simps [of wr b] intro!: exI [of _ start])
  qed
qed

lemma nrange_last_eq:
  assumes "writes_bit wr v" "bs_valid b" "0 \<le> start" "stop < int (bs_bits b)"
  shows "\<exists>s. nrange_last wr b start stop = Some (bs_fill b (s + 1) (stop + 1) v, s)
           \<and> s \<le> stop \<and> min (start - 1) stop \<le> s \<and> ((s + 1) mod 8 = 0 \<or> s < start)"
  using assms
proof (induction wr b start stop rule: nrange_last.induct)
  case (1 wr b start stop)
  show ?case
  proof (cases "stop \<ge> start \<and> (stop + 1) mod 8 > 0")
    case True
    let ?b = "bs_fill b stop (stop + 1) v"
    have wr: "wr b stop = Some ?b"
      using 1(2-) True by (intro writes_bit_fill) auto
    have "\<exists>s. nrange_last wr ?b start (stop - 1) = Some (bs_fill ?b (s + 1) (stop - 1 + 1) v, s)
           \<and> s \<le> stop - 1 \<and> min (start - 1) (stop - 1) \<le> s \<and> ((s + 1) mod 8 = 0 \<or> s < start)"
      using 1(2-) True wr by (intro "1.IH") auto
    then show ?thesis
      using True wr by (auto simp: nrange_last.simps [of wr b] bs_fill_fill)
  next
    case False
    then show ?thesis
      using "1.prems" by (auto simp: nrange_last.simps [of wr b] intro!: exI [of _ stop])
  qed
qed

lemma nrange_eq:
  assumes "writes_bit wr v" "bs_valid b" "0 \<le> start" "start \<le> stop" "stop < int (bs_bits b)"
    and fill: "\<And>m. bit fb m \<longleftrightarrow> (v \<and> m < 8)"
  shows "do { (b1, start1) \<leftarrow> nrange_first wr b start stop;
              (b2, stop1) \<leftarrow> nrange_last wr b1 start1 stop;
              if stop1 > start1 then do {
                xassert ((stop1 - start1 + 1) mod 8 = 0);
                bs_memset b2 (bit_byteaddr (nat start1)) fb (nat ((stop1 - start1 + 1) div 8)) }
              else Some b2 } = Some (bs_fill b start (stop + 1) v)"
proof -
  obtain s where s: "nrange_first wr b start stop = Some (bs_fill b start s v, s)"
    "start \<le> s" "s \<le> stop + 1" "s mod 8 = 0 \<or> stop < s"
    using nrange_first_eq [OF assms(1,2,3,5)] assms(4) by auto
  let ?b1 = "bs_fill b start s v"
  obtain e where e: "nrange_last wr ?b1 s stop = Some (bs_fill ?b1 (e + 1) (stop + 1) v, e)"
    "e \<le> stop" "min (s - 1) stop \<le> e" "(e + 1) mod 8 = 0 \<or> e < s"
    using nrange_last_eq [OF assms(1), of ?b1 s stop] assms(2,3,5) s(2) by auto
  let ?b2 = "bs_fill ?b1 (e + 1) (stop + 1) v"
  show ?thesis
  proof (cases "e > s")
    case False
    have "e = s - 1"
    proof (rule ccontr)
      assume "e \<noteq> s - 1"
      with False e(2,3) s(3) have "e = s" by auto
      with e(4) have "(s + 1) mod 8 = 0" by simp
      moreover have "s mod 8 = 0" using s(4) \<open>e = s\<close> e(2) by auto
      ultimately show False by presburger
    qed
    then show ?thesis using s e False by (simp add: bs_fill_fill)
  next
    case True
    then have al: "s mod 8 = 0" "(e + 1) mod 8 = 0" using s e by auto
    define p where "p = nat s div 8"
    define q where "q = nat (e + 1) div 8"
    have sp: "s = int (8 * p)" and eq: "e + 1 = int (8 * q)"
      unfolding p_def q_def using al True assms(3) s(2) by auto
    have pq: "p < q" "8 * q \<le> bs_bits b"
      using True sp eq e(2) assms(5) by auto
    have "bs_bits b \<le> 64 * length (bs_words b)"
      using assms(2) by (simp add: bs_valid_def)
    then have room: "8 * (p + (q - p)) \<le> 64 * length (bs_words ?b2)"
      using pq by simp
    have n: "nat ((e - s + 1) div 8) = q - p" "(e - s + 1) mod 8 = 0"
      using sp eq pq by (auto simp: of_nat_diff algebra_simps)
    have "bs_memset ?b2 p fb (q - p) = Some (bs_fill b start (stop + 1) v)"
      unfolding bs_memset_eq [OF room] using pq s(2) e(2) sp eq
      by (auto simp: bs_fill_def fill intro!: bs_of_cong)
    moreover have "bit_byteaddr (nat s) = p" by (simp add: bit_byteaddr_def p_def)
    ultimately show ?thesis
      using True n by (simp add: s(1) e(1) del: of_nat_mult)
  qed
qed

lemma nrange_empty:
  "stop < start \<Longrightarrow> nrange_first wr b start stop = Some (b, start)"
  "stop < start \<Longrightarrow> nrange_last wr b start stop = Some (b, stop)"
  by (simp_all add: nrange_first.simps [of wr b] nrange_last.simps [of wr b])

lemma bit_nset_eq [c_sem]:
  assumes "bs_valid b" "0 \<le> start" "start < int (bs_bits b)" "0 \<le> stop" "stop < int (bs_bits b)"
  shows "bit_nset b start stop = Some (bs_fill b start (stop + 1) True)"
proof (cases "start \<le> stop")
  case True
  have "bit (255::u8) m \<longleftrightarrow> True \<and> m < 8" for m
    by (auto simp: bit_255_int)
  from nrange_eq [OF writes_bit_set assms(1,2) True assms(5) this] assms show ?thesis
    by (simp add: bit_nset_def assert_bit_valid_def)
next
  case False
  with assms show ?thesis by (simp add: bit_nset_def assert_bit_valid_def nrange_empty)
qed

lemma bit_nclear_eq [c_sem]:
  assumes "bs_valid b" "0 \<le> start" "start < int (bs_bits b)" "0 \<le> stop" "stop < int (bs_bits b)"
  shows "bit_nclear b start stop = Some (bs_fill b start (stop + 1) False)"
proof (cases "start \<le> stop")
  case True
  have "bit (0::u8) m \<longleftrightarrow> False \<and> m < 8" for m by simp
  from nrange_eq [OF writes_bit_clear assms(1,2) True assms(5) this] assms show ?thesis
    by (simp add: bit_nclear_def assert_bit_valid_def)
next
  case False
  with assms show ?thesis by (simp add: bit_nclear_def assert_bit_valid_def nrange_empty)
qed

lemma bit_set_all_eq [c_sem]:
  "bs_valid b \<Longrightarrow> bit_set_all b = Some (bs_fill b 0 (int (bs_bits b)) True)"
  by (simp add: bit_set_all_def bit_size_eq bit_nset_eq)

lemma bit_clear_all_eq [c_sem]:
  "bs_valid b \<Longrightarrow> bit_clear_all b = Some (bs_fill b 0 (int (bs_bits b)) False)"
  by (simp add: bit_clear_all_def bit_size_eq bit_nclear_eq)

lemma bs_set_fill:
  "bs_valid b \<Longrightarrow> bs_set (bs_fill b lo hi v) =
     (if v then bs_set b \<union> {i. i < bs_bits b \<and> lo \<le> int i \<and> int i < hi}
      else bs_set b - {i. lo \<le> int i \<and> int i < hi})"
  by (auto simp: bs_fill_def bs_set_bs_of) (auto simp: bs_set_def)

subsubsection \<open>Allocation\<close>

lemma bit_alloc_eq [c_sem]:
  assumes "0 < n" "n \<le> 0x40000000"
  shows "\<exists>b. bit_alloc (int n) = Some b \<and> bs_valid b \<and> bs_bits b = n \<and> (\<forall>i. \<not> bs_bit b i)"
  using assms by (auto simp: bit_alloc_def assert_valid_size_def bs_valid_def bs_bit_def)

lemma bit_alloc_valid: "bit_alloc n = Some b \<Longrightarrow> bs_valid b \<and> bs_bits b = nat n \<and> bs_set b = {}"
  by (auto simp: bit_alloc_def assert_valid_size_def bs_valid_def bs_bit_def bs_set_def split: if_splits)

text \<open>Every array in the cache was freed by a bit string of the cached size.\<close>

definition cache_ok :: "bit_cache \<Rightarrow> bool" where
  "cache_ok c \<longleftrightarrow> (\<forall>a \<in> set (cached_bitstr c). length a = bitstr_words (cached_bitstr_len c))"

lemma bit_alloc_cached_eq:
  assumes "cache_ok c"
  shows "map_option fst (bit_alloc_cached n c) = bit_alloc n"
  using assms by (auto simp: bit_alloc_cached_def bit_alloc_def assert_valid_size_def cache_pop_def
      cache_ok_def arr_memset0_def split: list.splits)

lemma cache_ok_steps:
  "cache_ok c \<Longrightarrow> bit_alloc_cached n c = Some (b, c') \<Longrightarrow> cache_ok c'"
  "cache_ok c \<Longrightarrow> bs_valid b \<Longrightarrow> slurm_bit_free b c = Some c' \<Longrightarrow> cache_ok c'"
  "cache_ok c \<Longrightarrow> cache_ok (bit_cache_fini c)"
  "cached_bitstr c = [] \<Longrightarrow> bit_cache_init m c = Some c' \<Longrightarrow> cache_ok c'"
proof -
  show "cache_ok c \<Longrightarrow> bit_alloc_cached n c = Some (b, c') \<Longrightarrow> cache_ok c'"
    by (auto simp: bit_alloc_cached_def assert_valid_size_def cache_pop_def cache_ok_def
        Option.bind_eq_Some_conv split: list.splits if_splits)
  show "cache_ok c \<Longrightarrow> bs_valid b \<Longrightarrow> slurm_bit_free b c = Some c' \<Longrightarrow> cache_ok c'"
    by (auto simp: slurm_bit_free_def cache_push_def cache_ok_def bs_valid_def split: if_splits)
  have "cache_drain xs = []" for xs by (induction xs) auto
  then show "cache_ok c \<Longrightarrow> cache_ok (bit_cache_fini c)"
    by (simp add: bit_cache_fini_def cache_ok_def)
  show "cached_bitstr c = [] \<Longrightarrow> bit_cache_init m c = Some c' \<Longrightarrow> cache_ok c'"
    by (auto simp: bit_cache_init_def cache_ok_def split: if_splits)
qed

subsubsection \<open>Binary operations\<close>

lemma div_64_iff: "(k::nat) mod 64 = 0 \<Longrightarrow> j div 64 = k div 64 \<longleftrightarrow> k \<le> j \<and> j < k + 64"
  using div_mult_mod_eq [of k 64] div_mult_mod_eq [of j 64] mod_less_divisor [of 64 j]
  by (auto intro!: div_nat_eqI)

lemma mod_64_diff: "(k::nat) mod 64 = 0 \<Longrightarrow> k \<le> j \<Longrightarrow> j < k + 64 \<Longrightarrow> j mod 64 = j - k"
  using div_64_iff [of k j] div_mult_mod_eq [of k 64] div_mult_mod_eq [of j 64] by auto

lemma word_op2_eq:
  assumes "k div 64 < length (bs_words b)" "k div 64 < length (bs_words b2)"
  shows "word_op2 f b2 k b = Some (bs_of b (\<lambda>j. if j div 64 = k div 64
     then bit (f (bs_words b ! (k div 64)) (bs_words b2 ! (k div 64))) (j mod 64) else bs_bit b j))"
  using assms by (simp add: word_op2_def bs_get_word bs_put_word)

text \<open>A word operation that acts as \<open>g\<close> on the bits below \<open>n\<close> of each word and keeps the
  others of the first operand.\<close>

definition bitwise_upto :: "nat \<Rightarrow> (bool \<Rightarrow> bool \<Rightarrow> bool) \<Rightarrow> (u64 \<Rightarrow> u64 \<Rightarrow> u64) \<Rightarrow> bool" where
  "bitwise_upto n g f \<longleftrightarrow>
     (\<forall>x y k. k < 64 \<longrightarrow> (bit (f x y) k \<longleftrightarrow> (if k < n then g (bit x k) (bit y k) else bit x k)))"

lemma word_op2_bits:
  assumes "bitwise_upto n g f" "k mod 64 = 0"
    and "k div 64 < length (bs_words b)" "k div 64 < length (bs_words b2)"
  shows "word_op2 f b2 k b = Some (bs_of b (\<lambda>j. if k \<le> j \<and> j < k + 64 \<and> j < k + n
     then g (bs_bit b j) (bs_bit b2 j) else bs_bit b j))"
proof -
  have "bit (f (bs_words b ! (k div 64)) (bs_words b2 ! (k div 64))) (j mod 64) \<longleftrightarrow>
      (if j < k + n then g (bs_bit b j) (bs_bit b2 j) else bs_bit b j)" if j: "j div 64 = k div 64" for j
  proof -
    have "j mod 64 < n \<longleftrightarrow> j < k + n"
      using j div_64_iff [OF assms(2), of j] mod_64_diff [OF assms(2), of j] by auto
    then show ?thesis
      using assms j by (simp add: bitwise_upto_def bs_bit_def)
  qed
  then show ?thesis
    unfolding word_op2_eq [OF assms(3,4)] using div_64_iff [OF assms(2)]
    by (auto intro!: bs_of_cong)
qed

lemma bin_loop_eq:
  assumes v: "bs_valid b1" "bs_valid b2" and f: "bitwise_upto 64 g f"
    and t: "bitwise_upto (min (bs_bits b1) (bs_bits b2) mod 64) g ft"
  shows "do { (k, b) \<leftarrow> for_words (word_op2 f b2) (min (bs_bits b1) (bs_bits b2)) 0 b1;
              if k < min (bs_bits b1) (bs_bits b2) then word_op2 ft b2 k b else Some b } =
     Some (bs_of b1 (\<lambda>j. if j < min (bs_bits b1) (bs_bits b2)
                          then g (bs_bit b1 j) (bs_bit b2 j) else bs_bit b1 j))"
proof -
  define n where "n = min (bs_bits b1) (bs_bits b2)"
  have inw: "k < n \<Longrightarrow> k div 64 < length (bs_words b1) \<and> k div 64 < length (bs_words b2)" for k
    using v by (simp add: n_def)
  note n_def [symmetric, simp]
  let ?st = "\<lambda>m. bs_of b1 (\<lambda>j. if j < m then g (bs_bit b1 j) (bs_bit b2 j) else bs_bit b1 j)"
  have "\<exists>t. for_words (word_op2 f b2) n 0 b1 = Some (n - n mod 64, t) \<and> t = ?st (n - n mod 64)"
  proof (rule for_words_from_0)
    show "b1 = ?st 0" by (rule sym, rule bs_of_id) simp
    fix j t assume j: "j + 64 \<le> n" "j mod 64 = 0" and t: "t = ?st j"
    show "\<exists>t'. word_op2 f b2 j t = Some t' \<and> t' = ?st (j + 64)"
      using word_op2_bits [OF f j(2), of t b2] inw [of j] j t
      by (auto intro!: bs_of_cong)
  qed
  then have loop: "for_words (word_op2 f b2) n 0 b1 = Some (n - n mod 64, ?st (n - n mod 64))" by simp
  show ?thesis
  proof (cases "n mod 64 = 0")
    case True
    with loop show ?thesis by simp
  next
    case False
    then have lt: "n - n mod 64 < n" by (metis diff_less gr0I mod_less_eq_dividend not_gr_zero order_less_le_trans)
    have "word_op2 ft b2 (n - n mod 64) (?st (n - n mod 64)) = Some (?st n)"
      using word_op2_bits [OF t [folded n_def], of "n - n mod 64" "?st (n - n mod 64)" b2] inw [OF lt]
      by (auto intro!: bs_of_cong simp: minus_mod_eq_mult_div)
    with loop lt show ?thesis by simp
  qed
qed

lemmas word_op_bits = bitwise_upto_def bit_and_iff bit_or_iff bit_not_iff bits64

lemmas bind_simps = Option.bind.simps

lemma bit_and_eq [c_sem]:
  assumes "bs_valid b1" "bs_valid b2"
  shows "bit_and b1 b2 = Some (bs_of b1 (\<lambda>j. if j < min (bs_bits b1) (bs_bits b2)
     then bs_bit b1 j \<and> bs_bit b2 j else bs_bit b1 j))"
  unfolding bit_and_def Let_def bs_valid_asserts [OF assms(1)] bs_valid_asserts [OF assms(2)] bind_simps
  by (rule bin_loop_eq [OF assms, where g = "(\<and>)"]) (simp_all add: word_op_bits)

lemma bit_and_not_eq [c_sem]:
  assumes "bs_valid b1" "bs_valid b2"
  shows "bit_and_not b1 b2 = Some (bs_of b1 (\<lambda>j. if j < min (bs_bits b1) (bs_bits b2)
     then bs_bit b1 j \<and> \<not> bs_bit b2 j else bs_bit b1 j))"
  unfolding bit_and_not_def Let_def bs_valid_asserts [OF assms(1)] bs_valid_asserts [OF assms(2)] bind_simps
  by (rule bin_loop_eq [OF assms, where g = "\<lambda>x y. x \<and> \<not> y"]) (simp_all add: word_op_bits)

lemma bit_or_eq [c_sem]:
  assumes "bs_valid b1" "bs_valid b2"
  shows "bit_or b1 b2 = Some (bs_of b1 (\<lambda>j. if j < min (bs_bits b1) (bs_bits b2)
     then bs_bit b1 j \<or> bs_bit b2 j else bs_bit b1 j))"
  unfolding bit_or_def Let_def bs_valid_asserts [OF assms(1)] bs_valid_asserts [OF assms(2)] bind_simps
  by (rule bin_loop_eq [OF assms, where g = "(\<or>)"]) (simp_all add: word_op_bits)

lemma bit_or_not_eq [c_sem]:
  assumes "bs_valid b1" "bs_valid b2"
  shows "bit_or_not b1 b2 = Some (bs_of b1 (\<lambda>j. if j < min (bs_bits b1) (bs_bits b2)
     then bs_bit b1 j \<or> \<not> bs_bit b2 j else bs_bit b1 j))"
  unfolding bit_or_not_def Let_def bs_valid_asserts [OF assms(1)] bs_valid_asserts [OF assms(2)] bind_simps
  by (rule bin_loop_eq [OF assms, where g = "\<lambda>x y. x \<or> \<not> y"]) (simp_all add: word_op_bits)

subsubsection \<open>Complement, copies, comparisons\<close>

lemma block_word:
  assumes "k mod 64 = 0" "k div 64 < length (bs_words b)" "m < 64"
  shows "bit (bs_words b ! (k div 64)) m \<longleftrightarrow> bs_bit b (k + m)"
proof -
  have "(k + m) div 64 = k div 64" using div_64_iff [OF assms(1), of "k + m"] assms(3) by simp
  moreover have "(k + m) mod 64 = m" using mod_64_diff [OF assms(1), of "k + m"] assms(3) by simp
  ultimately show ?thesis using assms(2) by (simp add: bs_bit_def)
qed

lemma block_all: "(\<forall>m<64. P (k + m)) \<longleftrightarrow> (\<forall>j. k \<le> j \<longrightarrow> j < k + 64 \<longrightarrow> P (j::nat))"
  by (metis add_diff_cancel_left' le_add1 le_add_diff_inverse nat_add_left_cancel_less)

lemma bit_not_loop_eq:
  assumes "bs_valid b" "k mod 64 = 0"
  shows "bit_not_loop k b = Some (bs_of b (\<lambda>j. if k \<le> j then \<not> bs_bit b j else bs_bit b j))"
  using assms
proof (induction k b rule: bit_not_loop.induct)
  case (1 k b)
  show ?case
  proof (cases "k < bs_bits b")
    case True
    with 1 have w: "k div 64 < length (bs_words b)" by simp
    let ?b = "bs_of b (\<lambda>j. if k \<le> j \<and> j < k + 64 then \<not> bs_bit b j else bs_bit b j)"
    have "(if j div 64 = k div 64 then bit (NOT (bs_words b ! (k div 64))) (j mod 64) else bs_bit b j)
        \<longleftrightarrow> (if k \<le> j \<and> j < k + 64 then \<not> bs_bit b j else bs_bit b j)" for j
    proof (cases "j div 64 = k div 64")
      case True
      with w show ?thesis unfolding div_64_iff [OF "1.prems"(2), symmetric]
        by (simp add: bit_not_iff bs_bit_def)
    next
      case False
      then show ?thesis unfolding div_64_iff [OF "1.prems"(2), symmetric] by simp
    qed
    then have put: "bs_put b (bit_word k) (NOT (bs_words b ! (k div 64))) = Some ?b"
      unfolding bs_put_word [OF w] by simp
    have "bit_not_loop (k + 64) ?b = Some (bs_of ?b (\<lambda>j. if k + 64 \<le> j then \<not> bs_bit ?b j else bs_bit ?b j))"
      using "1.IH" [OF True bs_get_word [OF w] put] "1.prems" by simp
    then show ?thesis
      using True w put by (auto simp: bit_not_loop.simps [of k b] bs_get_word intro!: bs_of_cong)
  next
    case False
    have "j div 64 < length (bs_words b) \<Longrightarrow> \<not> k \<le> j" for j
    proof
      assume j: "j div 64 < length (bs_words b)" "k \<le> j"
      then have "k div 64 < (bs_bits b + 63) div 64"
        using "1.prems"(1) div_le_mono [OF j(2), of 64] by (simp add: bs_valid_def)
      moreover have "64 * (k div 64) = k" using "1.prems"(2) by auto
      ultimately have "k + 64 \<le> 64 * ((bs_bits b + 63) div 64)" by linarith
      also have "\<dots> \<le> bs_bits b + 63" by (rule times_div_less_eq_dividend)
      finally have "k + 64 \<le> bs_bits b + 63" .
      with False show False by simp
    qed
    then show ?thesis
      using False by (auto simp: bit_not_loop.simps [of k b] intro!: bs_of_id [symmetric])
  qed
qed

lemma bit_not_eq [c_sem]: "bs_valid b \<Longrightarrow> bit_not b = Some (bs_of b (\<lambda>j. \<not> bs_bit b j))"
  by (simp add: bit_not_def bit_not_loop_eq)

lemma bit_copy_eq [c_sem]: "bs_valid b \<Longrightarrow> bit_copy junk b = Some b"
  by (cases b) (auto simp: bit_copy_def bit_size_eq bit_alloc_nz_def assert_valid_size_def bs_memcpy_def bs_valid_def
      bit_size_def assert_bitstr_valid_def)

lemma bit_copybits_eq [c_sem]:
  "bs_valid d \<Longrightarrow> bs_valid b \<Longrightarrow> bs_bits d = bs_bits b \<Longrightarrow> bit_copybits d b = Some b"
  by (cases b; cases d) (auto simp: bit_copybits_def bit_size_def assert_bitstr_valid_def bs_memcpy_def bs_valid_def)

lemma bit_realloc_eq:
  assumes "bs_valid b" "0 < n" "n \<le> 0x40000000"
  shows "\<exists>b'. slurm_bit_realloc b (int n) = Some b' \<and> bs_valid b' \<and> bs_bits b' = n
     \<and> (\<forall>i < n. bs_bit b' i \<longleftrightarrow> bs_bit b i)"
proof -
  let ?n = "(n + 63) div 64"
  let ?ws = "take ?n (bs_words b) @ replicate (?n - length (bs_words b)) 0"
  let ?b = "b\<lparr>bs_words := ?ws, bs_bits := n\<rparr>"
  have "slurm_bit_realloc b (int n) = Some ?b"
    using assms by (simp add: slurm_bit_realloc_def assert_valid_size_def assert_bitstr_valid_def bs_valid_def Let_def)
  moreover have "bs_valid ?b" using assms by (simp add: bs_valid_def)
  moreover have "bs_bit ?b i \<longleftrightarrow> bs_bit b i" if "i < n" for i
    using words_cover [OF that] by (auto simp: bs_bit_def nth_append)
  ultimately show ?thesis by auto
qed

lemma bit_super_set_loop_eq:
  assumes "bs_valid b1" "bs_valid b2" "bs_bits b1 = bs_bits b2" "k mod 64 = 0"
  shows "bit_super_set_loop b1 b2 k =
     Some (\<forall>j. k \<le> j \<longrightarrow> j < bs_bits b1 \<longrightarrow> bs_bit b1 j \<longrightarrow> bs_bit b2 j)"
  using assms
proof (induction b1 b2 k rule: bit_super_set_loop.induct)
  case (1 b1 b2 k)
  show ?case
  proof (cases "k < bs_bits b1")
    case True
    let ?x = "bs_words b1 ! (k div 64)" let ?y = "bs_words b2 ! (k div 64)"
    have w: "k div 64 < length (bs_words b1)" "k div 64 < length (bs_words b2)"
      using "1.prems"(1-3) True by (auto simp del: bs_valid_word intro: bs_valid_word)
    note get = bs_get_word [OF w(1)] bs_get_word [OF w(2)]
    note blk = block_word [OF "1.prems"(4) w(1)] block_word [OF "1.prems"(4) w(2)]
    let ?P = "\<lambda>j. bs_bit b1 j \<longrightarrow> bs_bit b2 j"
    have full: "?x = ?x AND ?y \<longleftrightarrow> (\<forall>j. k \<le> j \<longrightarrow> j < k + 64 \<longrightarrow> ?P j)"
      unfolding block_all [symmetric] by (auto simp: u64_eq_iff bit_and_iff blk)
    have part: "?x AND bit_nmask (bs_bits b1) = ?x AND ?y AND bit_nmask (bs_bits b1) \<longleftrightarrow>
        (\<forall>j. k \<le> j \<longrightarrow> j < bs_bits b1 \<longrightarrow> ?P j)" if last: "\<not> k + 64 \<le> bs_bits b1"
    proof -
      have m: "bs_bits b1 mod 64 = bs_bits b1 - k"
        using mod_64_diff [OF "1.prems"(4), of "bs_bits b1"] True last by simp
      have "?x AND bit_nmask (bs_bits b1) = ?x AND ?y AND bit_nmask (bs_bits b1) \<longleftrightarrow>
          (\<forall>m<64. k + m < bs_bits b1 \<longrightarrow> ?P (k + m))"
        by (auto simp: u64_eq_iff bit_and_iff bits64 blk m less_diff_conv add.commute)
      then show ?thesis using last unfolding block_all [where P = "\<lambda>j. j < bs_bits b1 \<longrightarrow> ?P j"] by auto
    qed
    have rest: "bit_super_set_loop b1 b2 (k + 64) = Some (\<forall>j. k + 64 \<le> j \<longrightarrow> j < bs_bits b1 \<longrightarrow> ?P j)"
      if "?x = ?x AND ?y \<or> (\<not> k + 64 \<le> bs_bits b1 \<and>
          ?x AND bit_nmask (bs_bits b1) = ?x AND ?y AND bit_nmask (bs_bits b1))"
      using that "1.IH" [OF True get] "1.prems" by (cases "?x = ?x AND ?y") simp_all
    have split: "(\<forall>j. k \<le> j \<longrightarrow> j < bs_bits b1 \<longrightarrow> ?P j) \<longleftrightarrow>
        (\<forall>j. k \<le> j \<longrightarrow> j < k + 64 \<longrightarrow> j < bs_bits b1 \<longrightarrow> ?P j) \<and> (\<forall>j. k + 64 \<le> j \<longrightarrow> j < bs_bits b1 \<longrightarrow> ?P j)"
      by (rule all_split_at) simp
    show ?thesis
    proof (cases "?x = ?x AND ?y")
      case eq: True
      with full have "\<forall>j. k \<le> j \<longrightarrow> j < k + 64 \<longrightarrow> j < bs_bits b1 \<longrightarrow> ?P j" by blast
      with eq True get rest split show ?thesis
        by (simp add: bit_super_set_loop.simps [of b1 b2 k])
    next
      case ne: False
      show ?thesis
      proof (cases "k + 64 \<le> bs_bits b1")
        case inside: True
        with ne full have "\<not> (\<forall>j. k \<le> j \<longrightarrow> j < bs_bits b1 \<longrightarrow> ?P j)"
          by (meson order_less_le_trans)
        with ne inside True get show ?thesis by (simp add: bit_super_set_loop.simps [of b1 b2 k])
      next
        case last: False
        then have "(\<forall>j. k + 64 \<le> j \<longrightarrow> j < bs_bits b1 \<longrightarrow> ?P j) = True" by auto
        with ne last True get part [OF last] rest show ?thesis
          by (simp add: bit_super_set_loop.simps [of b1 b2 k] Let_def)
      qed
    qed
  next
    case False
    then show ?thesis by (auto simp: bit_super_set_loop.simps [of b1 b2 k])
  qed
qed

lemma bit_super_set_eq [c_sem]:
  assumes "bs_valid b1" "bs_valid b2" "bs_bits b1 = bs_bits b2"
  shows "bit_super_set b1 b2 = Some (bs_set b1 \<subseteq> bs_set b2)"
  using assms bit_super_set_loop_eq [OF assms, of 0]
  by (auto simp: bit_super_set_def bs_set_def)

lemma bit_equal_loop_eq:
  assumes "\<And>j. j < n \<Longrightarrow> j div 64 < length (bs_words b1) \<and> j div 64 < length (bs_words b2)"
    and "k mod 64 = 0" "k \<le> n"
  shows "\<exists>same e. bit_equal_loop b1 b2 n k = Some (same, e)
     \<and> (same \<longleftrightarrow> (\<forall>j. k \<le> j \<longrightarrow> j < n - n mod 64 \<longrightarrow> bs_bit b1 j = bs_bit b2 j))
     \<and> (same \<longrightarrow> e = n - n mod 64)"
  using assms
proof (induction b1 b2 n k rule: bit_equal_loop.induct)
  case (1 b1 b2 n k)
  let ?P = "\<lambda>j. bs_bit b1 j = bs_bit b2 j"
  have below: "k + 64 \<le> n - n mod 64 \<longleftrightarrow> k + 64 \<le> n"
  proof
    assume "k + 64 \<le> n"
    then have "(k + 64) div 64 \<le> n div 64" by (rule div_le_mono)
    then have "64 * ((k + 64) div 64) \<le> 64 * (n div 64)" by simp
    then show "k + 64 \<le> n - n mod 64"
      using "1.prems"(2) by (simp add: minus_mod_eq_mult_div mult_div_mod_eq) auto
  qed simp
  show ?case
  proof (cases "k + 64 \<le> n")
    case True
    have w: "k div 64 < length (bs_words b1)" "k div 64 < length (bs_words b2)"
      using "1.prems"(1) [of k] True by auto
    note get = bs_get_word [OF w(1)] bs_get_word [OF w(2)]
    have blk: "bs_words b1 ! (k div 64) = bs_words b2 ! (k div 64) \<longleftrightarrow> (\<forall>j. k \<le> j \<longrightarrow> j < k + 64 \<longrightarrow> ?P j)"
      unfolding block_all [symmetric]
      by (auto simp: u64_eq_iff block_word [OF "1.prems"(2) w(1)] block_word [OF "1.prems"(2) w(2)])
    have split: "(\<forall>j. k \<le> j \<longrightarrow> j < n - n mod 64 \<longrightarrow> ?P j) \<longleftrightarrow>
        (\<forall>j. k \<le> j \<longrightarrow> j < k + 64 \<longrightarrow> j < n - n mod 64 \<longrightarrow> ?P j)
          \<and> (\<forall>j. k + 64 \<le> j \<longrightarrow> j < n - n mod 64 \<longrightarrow> ?P j)"
      by (rule all_split_at) simp
    have inner: "(\<forall>j. k \<le> j \<longrightarrow> j < k + 64 \<longrightarrow> j < n - n mod 64 \<longrightarrow> ?P j) \<longleftrightarrow>
        (\<forall>j. k \<le> j \<longrightarrow> j < k + 64 \<longrightarrow> ?P j)"
      using below True by (meson order_less_le_trans)
    show ?thesis
    proof (cases "bs_words b1 ! (k div 64) = bs_words b2 ! (k div 64)")
      case same: True
      have m: "(k + 64) mod 64 = 0" using "1.prems"(2) by simp
      from "1.IH" [OF True get _ "1.prems"(1) m True] same
      obtain s e where se: "bit_equal_loop b1 b2 n (k + 64) = Some (s, e)"
        "s \<longleftrightarrow> (\<forall>j. k + 64 \<le> j \<longrightarrow> j < n - n mod 64 \<longrightarrow> ?P j)" "s \<longrightarrow> e = n - n mod 64" by blast
      then show ?thesis
        unfolding split inner blk [symmetric] using True get same
        by (simp add: bit_equal_loop.simps [of b1 b2 n k])
    next
      case False
      then show ?thesis
        unfolding split inner blk [symmetric] using True get
        by (auto simp: bit_equal_loop.simps [of b1 b2 n k])
    qed
  next
    case False
    have "n - n mod 64 = k"
      using False "1.prems"(2,3) mod_64_diff [of k n] by simp
    then show ?thesis using False by (auto simp: bit_equal_loop.simps [of b1 b2 n k])
  qed
qed

lemma bit_equal_eq [c_sem]:
  assumes v: "bs_valid b1" "bs_valid b2"
  shows "bit_equal b1 b2 = Some (bs_bits b1 = bs_bits b2 \<and> bs_set b1 = bs_set b2)"
proof (cases "bs_bits b1 = bs_bits b2")
  case False
  with v show ?thesis by (simp add: bit_equal_def)
next
  case eq: True
  define n where "n = bs_bits b1"
  let ?P = "\<lambda>j. bs_bit b1 j = bs_bit b2 j"
  let ?e = "n - n mod 64"
  have inw: "j div 64 < length (bs_words b1) \<and> j div 64 < length (bs_words b2)" if "j < n" for j
    using v eq that bs_valid_word [of b1 j] bs_valid_word [of b2 j] by (simp add: n_def)
  obtain s e where se: "bit_equal_loop b1 b2 n 0 = Some (s, e)"
    "s \<longleftrightarrow> (\<forall>j. j < ?e \<longrightarrow> ?P j)" "s \<longrightarrow> e = ?e"
    using bit_equal_loop_eq [of n b1 b2 0, OF inw] by auto
  have all: "bs_set b1 = bs_set b2 \<longleftrightarrow> (\<forall>j<n. ?P j)"
    using eq by (auto simp: bs_set_def n_def)
  show ?thesis
  proof (cases "?e < n")
    case True
    have m0: "?e mod 64 = 0" by (simp add: minus_mod_eq_mult_div)
    note w = inw [OF True, THEN conjunct1] inw [OF True, THEN conjunct2]
    have "((bs_words b1 ! (?e div 64)) XOR (bs_words b2 ! (?e div 64))) AND bit_nmask n = 0 \<longleftrightarrow>
        (\<forall>m<64. ?e + m < n \<longrightarrow> ?P (?e + m))"
      by (auto simp: u64_zero_iff bit_and_iff bit_xor_iff bits64 block_word [OF m0 w(1)] block_word [OF m0 w(2)])
    also have "\<dots> \<longleftrightarrow> (\<forall>j. ?e \<le> j \<longrightarrow> j < n \<longrightarrow> ?P j)"
      unfolding block_all [where P = "\<lambda>j. j < n \<longrightarrow> ?P j"] using mod_less_divisor [of 64 n] by auto
    finally have tail: "((bs_words b1 ! (?e div 64)) XOR (bs_words b2 ! (?e div 64))) AND bit_nmask n = 0 \<longleftrightarrow>
        (\<forall>j. ?e \<le> j \<longrightarrow> j < n \<longrightarrow> ?P j)" .
    have "bit_equal b1 b2 = Some (s \<and> (\<forall>j. ?e \<le> j \<longrightarrow> j < n \<longrightarrow> ?P j))"
      using v eq se True bs_get_word [OF w(1)] bs_get_word [OF w(2)] tail
      by (cases s) (simp_all add: bit_equal_def Let_def flip: n_def)
    moreover have "s \<and> (\<forall>j. ?e \<le> j \<longrightarrow> j < n \<longrightarrow> ?P j) \<longleftrightarrow> (\<forall>j<n. ?P j)"
      unfolding se(2) using all_split_at [of 0 ?e "\<lambda>j. j < n \<longrightarrow> ?P j"] True by auto
    ultimately show ?thesis using all eq by simp
  next
    case False
    then have "?e = n" by simp
    then show ?thesis using v eq se all
      by (cases s) (simp_all add: bit_equal_def Let_def flip: n_def)
  qed
qed

end
