(* ===== verification/Hweight.thy ===== *)
theory Hweight
  imports Slurm_Prelude
begin

text \<open>
  The word population count of src/common/bitstring.c (\<open>hweight\<close>, the branch compiled without
  \<open>__builtin_popcountll\<close>): the SWAR computation at 64 bits, and the proof that it counts the
  set bits. The proof works on the digits of the word: the first two steps leave the count of
  each nibble in that nibble, the third the count of each byte in that byte, and the
  multiplication adds the bytes into the top one without a carry.
\<close>

definition hweight :: "u64 \<Rightarrow> u64" where
  "hweight w0 =
     (let w1 = w0 - (drop_bit 1 w0 AND 0x5555555555555555);
          w2 = (w1 AND 0x3333333333333333) + (drop_bit 2 w1 AND 0x3333333333333333);
          w3 = (w2 + drop_bit 4 w2) AND 0x0f0f0f0f0f0f0f0f
      in drop_bit 56 (w3 * 0x0101010101010101))"

primrec rep_digit :: "nat \<Rightarrow> nat \<Rightarrow> nat \<Rightarrow> nat" where
  "rep_digit e 0 c = 0"
| "rep_digit e (Suc k) c = c + 2 ^ e * rep_digit e k c"

lemma bit_digit_split:
  assumes "x < 2 ^ e"
  shows "bit (x + 2 ^ e * y) n \<longleftrightarrow> (if n < e then bit x n else bit (y::nat) (n - e))"
proof -
  have t: "take_bit e (x + 2 ^ e * y) = x" using assms by (simp add: take_bit_eq_mod)
  have d: "drop_bit e (x + 2 ^ e * y) = y" using assms by (simp add: drop_bit_eq_div)
  show ?thesis
    using t d by (metis bit_drop_bit_eq bit_take_bit_iff comp_apply le_add_diff_inverse linorder_not_le)
qed

lemma and_nat_le1: "(x AND c :: nat) \<le> x"
  using AND_upper1 [of "int x" "int c"] by (simp flip: of_nat_and_eq)

lemma and_nat_less: "x < 2 ^ e \<Longrightarrow> (x AND c :: nat) < 2 ^ e"
  by (rule le_less_trans [OF and_nat_le1])

lemma and_digit:
  assumes "x < 2 ^ e" "c < 2 ^ e"
  shows "(x + 2 ^ e * y) AND (c + 2 ^ e * m) = (x AND c) + 2 ^ e * (y AND (m::nat))"
  by (rule bit_eqI) (simp add: bit_and_iff bit_digit_split assms and_nat_less)

lemma and_digit_shift:
  assumes "x < 2 ^ e" "c < 2 ^ (e - s)" "s \<le> e"
  shows "(x + 2 ^ e * y) div 2 ^ s AND (c + 2 ^ e * m) = (x div 2 ^ s AND c) + 2 ^ e * (y div 2 ^ s AND (m::nat))"
proof (rule bit_eqI)
  fix n
  have c: "c < 2 ^ e" using assms by (meson diff_le_self less_le_trans one_le_numeral power_increasing)
  have cb: "\<not> bit c n" if "e - s \<le> n"
    using assms(2) that by (metis bit_take_bit_iff linorder_not_less take_bit_nat_eq_self)
  have x: "x div 2 ^ s < 2 ^ e" using assms(1) by (meson div_le_dividend le_less_trans)
  show "bit ((x + 2 ^ e * y) div 2 ^ s AND (c + 2 ^ e * m)) n =
        bit ((x div 2 ^ s AND c) + 2 ^ e * (y div 2 ^ s AND m)) n"
    using assms c cb x
    by (auto simp: bit_and_iff bit_digit_split and_nat_less bit_drop_bit_eq simp flip: drop_bit_eq_div)
qed

text \<open>The three steps on natural numbers, for \<open>k\<close> digits.\<close>

definition swar1 :: "nat \<Rightarrow> nat \<Rightarrow> nat" where
  "swar1 k n = n - (n div 2 AND rep_digit 4 k 5)"
definition swar2 :: "nat \<Rightarrow> nat \<Rightarrow> nat" where
  "swar2 k n = (n AND rep_digit 4 k 3) + (n div 4 AND rep_digit 4 k 3)"
definition swar3 :: "nat \<Rightarrow> nat \<Rightarrow> nat" where
  "swar3 k n = (n + n div 16) AND rep_digit 8 k 15"

definition bitcount :: "nat \<Rightarrow> nat \<Rightarrow> nat" where
  "bitcount k n = (\<Sum>i<k. of_bool (bit n i))"

lemma swar1_digit:
  assumes "x < 16" shows "swar1 (Suc k) (x + 16 * y) = (x - (x div 2 AND 5)) + 16 * swar1 k y"
proof -
  have "(x + 16 * y) div 2 AND (5 + 16 * rep_digit 4 k 5) = (x div 2 AND 5) + 16 * (y div 2 AND rep_digit 4 k 5)"
    using and_digit_shift [of x 4 5 1 y "rep_digit 4 k 5"] assms by simp
  moreover have "x div 2 AND 5 \<le> x" "y div 2 AND rep_digit 4 k 5 \<le> y"
    by (meson and_nat_le1 div_le_dividend le_trans)+
  moreover have "x + 16 * y - (a + 16 * b) = x - a + 16 * (y - b)" if "a \<le> x" "b \<le> y" for a b :: nat
    using that by (auto simp: le_iff_add algebra_simps)
  ultimately show ?thesis by (simp add: swar1_def)
qed

lemma swar2_digit:
  assumes "x < 16" shows "swar2 (Suc k) (x + 16 * y) = (x AND 3) + (x div 4 AND 3) + 16 * swar2 k y"
  using and_digit_shift [of x 4 3 2 y "rep_digit 4 k 3"] and_digit [of x 4 3 y "rep_digit 4 k 3"] assms
  by (simp add: swar2_def)

lemma nibble_count:
  assumes "x < 16"
  shows "((x - (x div 2 AND 5)) AND 3) + ((x - (x div 2 AND 5)) div 4 AND 3) = bitcount 4 x"
proof -
  have "\<forall>x \<in> set [0..<16]. ((x - (x div 2 AND 5)) AND 3) + ((x - (x div 2 AND 5)) div 4 AND 3)
      = (of_bool (bit x 0) + of_bool (bit x 1) + of_bool (bit x 2) + of_bool (bit x 3) :: nat)"
    by code_simp
  moreover have "{..<4} = {0,1,2,3::nat}" by auto
  ultimately show ?thesis using assms by (simp add: bitcount_def)
qed

lemma bitcount_add: "bitcount (m + k) n = bitcount m n + bitcount k (drop_bit m n)"
  by (induction k) (simp_all add: bitcount_def bit_drop_bit_eq)

lemma bitcount_cong: "(\<And>i. i < k \<Longrightarrow> bit a i = bit b i) \<Longrightarrow> bitcount k a = bitcount k b"
  by (simp add: bitcount_def)

fun nibbles :: "nat \<Rightarrow> nat \<Rightarrow> nat list" where
  "nibbles 0 n = []"
| "nibbles (Suc k) n = bitcount 4 (n mod 16) # nibbles k (n div 16)"

fun digits_val :: "nat \<Rightarrow> nat list \<Rightarrow> nat" where
  "digits_val B [] = 0"
| "digits_val B (d # ds) = d + B * digits_val B ds"

fun pair_sums :: "nat list \<Rightarrow> nat list" where
  "pair_sums (a # b # ds) = (a + b) # pair_sums ds"
| "pair_sums _ = []"

lemma bitcount_le: "bitcount k n \<le> k"
  by (induction k) (auto simp: bitcount_def)

lemma nibbles_le: "d \<in> set (nibbles k n) \<Longrightarrow> d \<le> 4"
  by (induction k arbitrary: n) (auto simp: bitcount_le)

lemma length_nibbles [simp]: "length (nibbles k n) = k"
  by (induction k arbitrary: n) auto

lemma swar12: "n < 16 ^ k \<Longrightarrow> swar2 k (swar1 k n) = digits_val 16 (nibbles k n)"
proof (induction k arbitrary: n)
  case 0
  then show ?case by (simp add: swar1_def swar2_def)
next
  case (Suc k)
  let ?x = "n mod 16" let ?y = "n div 16"
  have n: "n = ?x + 16 * ?y" by simp
  have "?x - (?x div 2 AND 5) < 16" by (rule le_less_trans [of _ ?x]) auto
  then have "swar2 (Suc k) (swar1 (Suc k) (?x + 16 * ?y)) = bitcount 4 ?x + 16 * swar2 k (swar1 k ?y)"
    by (simp only: swar1_digit swar2_digit nibble_count mod_less_divisor zero_less_numeral)
  moreover have "?y < 16 ^ k" using Suc.prems by (simp add: less_mult_imp_div_less mult.commute)
  ultimately show ?case using Suc.IH [of ?y] n by simp
qed

lemma sum_nibbles: "n < 16 ^ k \<Longrightarrow> sum_list (nibbles k n) = bitcount (4 * k) n"
proof (induction k arbitrary: n)
  case 0
  then show ?case by (simp add: bitcount_def)
next
  case (Suc k)
  have "n div 16 < 16 ^ k" using Suc.prems by (simp add: less_mult_imp_div_less mult.commute)
  moreover have "bitcount 4 (n mod 16) = bitcount 4 n"
  proof (rule bitcount_cong)
    fix i :: nat assume "i < 4"
    then have "bit (take_bit 4 n) i = bit n i" by (simp add: bit_take_bit_iff)
    then show "bit (n mod 16) i = bit n i" by (simp add: take_bit_eq_mod)
  qed
  ultimately show ?case
    using Suc.IH [of "n div 16"] bitcount_add [of 4 "4 * k" n] by (simp add: drop_bit_eq_div)
qed

lemma swar3_pair:
  assumes "a \<le> 4" "b \<le> 4" "V mod 16 \<le> 4"
  shows "swar3 (Suc k) (a + 16 * (b + 16 * V)) = (a + b) + 256 * swar3 k V"
proof -
  let ?N = "a + 16 * (b + 16 * V)"
  let ?r = "(a + b) + 16 * (b + V mod 16)"
  have "?N div 16 = b + 16 * V" using assms(1) by simp
  moreover have "16 * V = 256 * (V div 16) + 16 * (V mod 16)"
    using mult_div_mod_eq [of 16 V] by linarith
  ultimately have sum: "?N + ?N div 16 = ?r + 2 ^ 8 * (V + V div 16)" by simp
  have "?r AND 15 = ?r mod 16"
    using take_bit_eq_mask [of 4 ?r] by (simp add: take_bit_eq_mod mask_eq_exp_minus_1)
  also have "\<dots> = (a + b) mod 16" by (rule mod_mult_self2)
  also have "\<dots> = a + b" using assms by simp
  finally have low: "?r AND 15 = a + b" .
  have "swar3 (Suc k) ?N = (?r + 2 ^ 8 * (V + V div 16)) AND (15 + 2 ^ 8 * rep_digit 8 k 15)"
    unfolding swar3_def rep_digit.simps sum ..
  also have "\<dots> = (?r AND 15) + 2 ^ 8 * (V + V div 16 AND rep_digit 8 k 15)"
    using assms by (intro and_digit) simp_all
  finally show ?thesis unfolding low swar3_def by simp
qed

lemma digits_val_mod: "d \<le> 4 \<Longrightarrow> digits_val 16 (d # ds) mod 16 = d"
  by simp

lemma swar3_digits:
  assumes "\<forall>d\<in>set ds. d \<le> 4" "length ds = 2 * k"
  shows "swar3 k (digits_val 16 ds) = digits_val 256 (pair_sums ds)"
  using assms
proof (induction ds arbitrary: k rule: pair_sums.induct)
  case (1 a b ds)
  then obtain j where k: "k = Suc j" by (cases k) auto
  have "digits_val 16 ds mod 16 \<le> 4"
    using 1(2) by (cases ds) auto
  then show ?case using 1 k swar3_pair [of a b "digits_val 16 ds" j] by simp
qed (auto simp: swar3_def)

lemma pair_sums_le: "\<forall>d\<in>set ds. d \<le> 4 \<Longrightarrow> d \<in> set (pair_sums ds) \<Longrightarrow> d \<le> 8"
  by (induction ds rule: pair_sums.induct) auto

lemma sum_pair_sums: "even (length ds) \<Longrightarrow> sum_list (pair_sums ds) = sum_list ds"
  by (induction ds rule: pair_sums.induct) auto

lemma length_pair_sums: "length (pair_sums ds) = length ds div 2"
  by (induction ds rule: pair_sums.induct) auto

lemma top_byte:
  assumes "lo < 2 ^ 56" "s < 256"
  shows "(lo + 2 ^ 56 * s + 2 ^ 64 * hi) mod 2 ^ 64 div 2 ^ 56 = (s::nat)"
proof -
  have "2 ^ 56 * s \<le> 2 ^ 56 * 255" using assms(2) by (intro mult_le_mono) auto
  then have "lo + 2 ^ 56 * s < 2 ^ 64" using assms(1) by simp
  then have "(lo + 2 ^ 56 * s + 2 ^ 64 * hi) mod 2 ^ 64 = lo + 2 ^ 56 * s"
    by (simp only: mod_mult_self2 mod_less)
  moreover have "(lo + 2 ^ 56 * s) div 2 ^ 56 = s" using assms(1) by simp
  ultimately show ?thesis by simp
qed

lemma mul_bytes:
  assumes "length ps = 8" "\<forall>p\<in>set ps. p \<le> 8"
  shows "(digits_val 256 ps * 0x0101010101010101) mod 2 ^ 64 div 2 ^ 56 = sum_list ps"
proof -
  obtain a b c d e f g h where ps: "ps = [a, b, c, d, e, f, g, h]"
    using assms(1) by (auto simp: numeral_eq_Suc length_Suc_conv)
  let ?lo = "a + 256 * (a + b) + 256 ^ 2 * (a + b + c) + 256 ^ 3 * (a + b + c + d)
    + 256 ^ 4 * (a + b + c + d + e) + 256 ^ 5 * (a + b + c + d + e + f)
    + 256 ^ 6 * (a + b + c + d + e + f + g)"
  let ?s = "a + b + c + d + e + f + g + h"
  let ?hi = "(b + c + d + e + f + g + h) + 256 * (c + d + e + f + g + h) + 256 ^ 2 * (d + e + f + g + h)
    + 256 ^ 3 * (e + f + g + h) + 256 ^ 4 * (f + g + h) + 256 ^ 5 * (g + h) + 256 ^ 6 * h"
  have "digits_val 256 ps * 0x0101010101010101 = ?lo + 2 ^ 56 * ?s + 2 ^ 64 * ?hi"
    by (simp add: ps algebra_simps)
  moreover have "?lo < 2 ^ 56" and "?s < 256" using assms(2) by (simp_all add: ps)
  ultimately show ?thesis using top_byte [of ?lo ?s ?hi] by (simp only: ps sum_list.Cons sum_list.Nil add_0_right ac_simps)
qed


lemma digits_val_bound:
  "\<forall>d\<in>set ds. d \<le> 4 \<Longrightarrow> 15 * digits_val 16 ds + 4 \<le> 4 * 16 ^ length ds"
  by (induction ds) auto

lemma rep_digit_numeral: "rep_digit e (numeral v) c = c + 2 ^ e * rep_digit e (pred_numeral v) c"
  by (simp only: numeral_eq_Suc rep_digit.simps)

lemma swar_masks:
  "rep_digit 4 16 5 = 0x5555555555555555" "rep_digit 4 16 3 = 0x3333333333333333"
  "rep_digit 8 8 15 = 0x0f0f0f0f0f0f0f0f"
  by (simp_all add: rep_digit_numeral)

lemma hweight_bitcount: "unat (hweight w) = bitcount 64 (unat w)"
proof -
  let ?n = "unat w"
  let ?ds = "nibbles 16 ?n"
  have n: "?n < 16 ^ 16" using unsigned_less [of w, where 'a = nat] by simp
  define w1 where "w1 = w - (drop_bit 1 w AND 0x5555555555555555)"
  define w2 where "w2 = (w1 AND 0x3333333333333333) + (drop_bit 2 w1 AND 0x3333333333333333)"
  define w3 where "w3 = (w2 + drop_bit 4 w2) AND 0x0f0f0f0f0f0f0f0f"
  have ds: "\<forall>d\<in>set ?ds. d \<le> 4" using nibbles_le by blast
  have N: "15 * digits_val 16 ?ds + 4 \<le> 4 * 2 ^ 64" using digits_val_bound [OF ds] by simp
  have sub: "unat (drop_bit 1 w AND 0x5555555555555555) = ?n div 2 AND rep_digit 4 16 5"
    by (simp add: unsigned_and_eq drop_bit_eq_div unat_div_distrib swar_masks)
  then have "drop_bit 1 w AND 0x5555555555555555 \<le> w"
    unfolding word_le_nat_alt by (metis and_nat_le1 div_le_dividend le_trans)
  then have u1: "unat w1 = swar1 16 ?n"
    unfolding w1_def swar1_def by (simp only: unat_sub sub)
  have "unat (w1 AND 0x3333333333333333) + unat (drop_bit 2 w1 AND 0x3333333333333333) = swar2 16 (unat w1)"
    by (simp add: unsigned_and_eq drop_bit_eq_div unat_div_distrib swar_masks swar2_def)
  then have s2: "unat (w1 AND 0x3333333333333333) + unat (drop_bit 2 w1 AND 0x3333333333333333) = digits_val 16 ?ds"
    using u1 swar12 [OF n] by simp
  then have u2: "unat w2 = digits_val 16 ?ds"
    unfolding w2_def using N by (subst unat_add_lem [THEN iffD1]) simp_all
  have "unat w2 + unat (drop_bit 4 w2) < 2 ^ 64"
    using u2 N by (simp add: drop_bit_eq_div unat_div_distrib)
  then have "unat (w2 + drop_bit 4 w2) = unat w2 + unat w2 div 16"
    by (subst unat_add_lem [THEN iffD1]) (simp_all add: drop_bit_eq_div unat_div_distrib)
  then have "unat w3 = swar3 8 (digits_val 16 ?ds)"
    unfolding w3_def swar3_def u2 [symmetric] swar_masks by (simp add: unsigned_and_eq)
  also have "\<dots> = digits_val 256 (pair_sums ?ds)"
    using ds by (intro swar3_digits) simp_all
  finally have u3: "unat w3 = digits_val 256 (pair_sums ?ds)" .
  have "hweight w = drop_bit 56 (w3 * 0x0101010101010101)"
    unfolding hweight_def Let_def w1_def w2_def w3_def ..
  then have "unat (hweight w) = (unat w3 * 0x0101010101010101) mod 2 ^ 64 div 2 ^ 56"
    by (simp add: drop_bit_eq_div unat_div_distrib unat_word_ariths)
  also have "\<dots> = sum_list (pair_sums ?ds)"
    unfolding u3 using ds pair_sums_le by (intro mul_bytes) (auto simp: length_pair_sums)
  also have "\<dots> = bitcount 64 ?n"
    using sum_nibbles [OF n] by (simp add: sum_pair_sums)
  finally show ?thesis .
qed

lemma bitcount_card: "bitcount k n = card {i. i < k \<and> bit n i}"
proof -
  have "{i. i < k \<and> bit n i} = {..<k} \<inter> {i. bit n i}" by auto
  then show ?thesis by (simp add: bitcount_def)
qed

lemma hweight_card: "unat (hweight w) = card {i. i < 64 \<and> bit w i}"
  by (simp add: hweight_bitcount bitcount_card bit_unsigned_iff cong: conj_cong)

end
