(* ===== verification/Bitstring_Count.thy ===== *)
theory Bitstring_Count
  imports Bitstring Hweight
begin

text \<open>
  src/common/bitstring.c, second part: the operations that count set bits (whole string, range,
  overlap of two strings, longest run), rotation, and the operations that select the n-th or the
  first n set bits. Counts are natural numbers: they are bounded by the size, at most
  \<open>0x40000000\<close>, so the \<open>int32_t\<close> accumulators of the code do not overflow.
\<close>

subsection \<open>Counting\<close>

definition count_word :: "bitstr \<Rightarrow> nat \<Rightarrow> nat \<Rightarrow> nat option" where
  "count_word b k count = do {
     w \<leftarrow> bs_get b (bit_word k); Some (count + unat (hweight w)) }"

definition bit_set_count :: "bitstr \<Rightarrow> nat option" where
  "bit_set_count b = do {
     assert_bitstr_valid b;
     let bit_cnt = bs_bits b;
     (k, count) \<leftarrow> for_words (count_word b) bit_cnt 0 0;
     if k < bit_cnt then do {
       w \<leftarrow> bs_get b (bit_word k);
       Some (count + unat (hweight (w AND bit_nmask bit_cnt))) }
     else Some count }"

text \<open>\<open>bit_set_count_range\<close>: \<open>end\<close> is a signed 32-bit value, \<open>bit + BITSTR_WORD_SIZE\<close> an
  unsigned 64-bit one, so in the loop test a negative \<open>end\<close> becomes a huge unsigned number
  (\<open>to_u64\<close>); in \<open>bit < end\<close> both sides are signed.\<close>

definition to_u64 :: "int \<Rightarrow> nat" where
  "to_u64 i = nat (i mod 2 ^ 64)"

definition bit_set_count_range :: "bitstr \<Rightarrow> int \<Rightarrow> int \<Rightarrow> nat option" where
  "bit_set_count_range b start end0 = do {
     assert_bitstr_valid b; assert_bit_valid b start;
     let end' = min end0 (int (bs_bits b));
     let s = nat start;
     let eow = push_bit 6 (drop_bit 6 (s + 63));
     (k0, c0) \<leftarrow>
       (if s < eow \<and> int eow \<le> end' then do {
          w \<leftarrow> bs_get b (bit_word s);
          Some (eow, unat (hweight (w AND NOT (bit_nmask s)))) }
        else if eow > s then do {
          w \<leftarrow> bs_get b (bit_word s);
          Some (eow, unat (hweight (w AND (NOT (bit_nmask s) AND bit_nmask (to_u64 end'))))) }
        else Some (s, 0));
     (k, count) \<leftarrow> for_words (count_word b) (to_u64 end') k0 c0;
     if int k < end' then do {
       w \<leftarrow> bs_get b (bit_word k);
       Some (count + unat (hweight (w AND bit_nmask (to_u64 end')))) }
     else Some count }"

text \<open>\<open>_bit_overlap_internal\<close>: \<open>Inl r\<close> is an early return from the loop.\<close>

function overlap_loop :: "bitstr \<Rightarrow> bitstr \<Rightarrow> bool \<Rightarrow> nat \<Rightarrow> nat \<Rightarrow> nat \<Rightarrow> (nat + nat \<times> nat) option" where
  "overlap_loop b1 b2 count_it bit_cnt k count =
     (if k < bit_cnt then
        if k + 64 - 1 \<ge> bit_cnt then Some (Inr (k, count))
        else do {
          x \<leftarrow> bs_get b1 (bit_word k);
          y \<leftarrow> bs_get b2 (bit_word k);
          if count_it then overlap_loop b1 b2 count_it bit_cnt (k + 64) (count + unat (hweight (x AND y)))
          else if x AND y \<noteq> 0 then Some (Inl 1)
          else overlap_loop b1 b2 count_it bit_cnt (k + 64) count }
      else Some (Inr (k, count)))"
  by pat_completeness auto
termination
  by (relation "measure (\<lambda>(b1, b2, count_it, bit_cnt, k, count). bit_cnt - k)") auto

declare overlap_loop.simps [simp del]

definition bit_overlap_internal :: "bitstr \<Rightarrow> bitstr \<Rightarrow> bool \<Rightarrow> nat option" where
  "bit_overlap_internal b1 b2 count_it = do {
     assert_bitstr_valid b1; assert_bitstr_valid b2;
     xassert (bs_bits b1 = bs_bits b2);
     let bit_cnt = bs_bits b1;
     r \<leftarrow> overlap_loop b1 b2 count_it bit_cnt 0 0;
     case r of
       Inl v \<Rightarrow> Some v
     | Inr (k, count) \<Rightarrow>
         if k < bit_cnt then do {
           x \<leftarrow> bs_get b1 (bit_word k);
           y \<leftarrow> bs_get b2 (bit_word k);
           let anded = x AND y AND bit_nmask bit_cnt;
           if count_it then Some (count + unat (hweight anded))
           else if anded \<noteq> 0 then Some 1
           else Some count }
         else Some count }"

definition bit_overlap :: "bitstr \<Rightarrow> bitstr \<Rightarrow> nat option" where
  "bit_overlap b1 b2 = bit_overlap_internal b1 b2 True"

definition bit_overlap_any :: "bitstr \<Rightarrow> bitstr \<Rightarrow> nat option" where
  "bit_overlap_any b1 b2 = bit_overlap_internal b1 b2 False"

definition bit_clear_count :: "bitstr \<Rightarrow> nat option" where
  "bit_clear_count b = do {
     assert_bitstr_valid b; c \<leftarrow> bit_set_count b; Some (bs_bits b - c) }"

text \<open>\<open>bit_nset_max_count\<close>: \<open>bitsize - bit\<close> is compared with the longest run found so far.\<close>

function nset_max_loop :: "bitstr \<Rightarrow> nat \<Rightarrow> nat \<Rightarrow> nat \<Rightarrow> nat \<Rightarrow> nat option" where
  "nset_max_loop b bitsize k cnt maxcnt =
     (if k < bitsize then do {
        t \<leftarrow> bit_test b k;
        let (cnt', maxcnt') =
          (if \<not> t then (0, maxcnt)
           else (cnt + 1, if cnt + 1 > maxcnt then cnt + 1 else maxcnt));
        if cnt' = 0 \<and> bitsize - k < maxcnt' then Some maxcnt'
        else nset_max_loop b bitsize (k + 1) cnt' maxcnt' }
      else Some maxcnt)"
  by pat_completeness auto
termination
  by (relation "measure (\<lambda>(b, bitsize, k, cnt, maxcnt). bitsize - k)") auto

declare nset_max_loop.simps [simp del]

definition bit_nset_max_count :: "bitstr \<Rightarrow> nat option" where
  "bit_nset_max_count b = do { assert_bitstr_valid b; nset_max_loop b (bs_bits b) 0 0 0 }"

subsection \<open>Rotation\<close>

text \<open>C's \<open>%\<close> truncates towards zero.\<close>

definition c_rem :: "int \<Rightarrow> int \<Rightarrow> int" where
  "c_rem a m = sgn a * (\<bar>a\<bar> mod \<bar>m\<bar>)"

definition rotate_bit :: "bitstr \<Rightarrow> (nat \<Rightarrow> int) \<Rightarrow> nat \<Rightarrow> bitstr \<Rightarrow> bitstr option" where
  "rotate_bit b1 dst i new = do {
     t \<leftarrow> bit_test b1 i;
     if t then bit_set new (dst i) else Some new }"

definition bit_rotate_copy :: "bitstr \<Rightarrow> int \<Rightarrow> int \<Rightarrow> bitstr option" where
  "bit_rotate_copy b1 n0 nbits = do {
     assert_bitstr_valid b1;
     bitsize \<leftarrow> bit_size b1;
     xassert (nbits \<ge> int bitsize);
     let deltasize = nbits - int bitsize;
     let n1 = c_rem n0 nbits;
     let n = (if n1 < 0 then n1 + nbits else n1);
     let wrapbits = (if n > deltasize then n - deltasize else 0);
     new \<leftarrow> bit_alloc nbits;
     let m = nat (int bitsize - wrapbits);
     new1 \<leftarrow> for_upto (rotate_bit b1 (\<lambda>i. int i + n)) 0 m new;
     for_upto (rotate_bit b1 (\<lambda>i. int (i - m))) m bitsize new1 }"

definition bit_rotate :: "bitstr \<Rightarrow> int \<Rightarrow> bitstr option" where
  "bit_rotate b1 n =
     (if n = 0 then Some b1
      else do {
        assert_bitstr_valid b1;
        bitsize \<leftarrow> bit_size b1;
        new \<leftarrow> bit_rotate_copy b1 n (int bitsize);
        bit_copybits b1 new })"

subsection \<open>Selecting set bits\<close>

text \<open>\<open>_ffsn\<close>: binary search for the position of the n-th set bit of a word.\<close>

function ffsn_loop :: "u64 \<Rightarrow> nat \<Rightarrow> nat \<Rightarrow> u64 \<Rightarrow> nat \<Rightarrow> nat" where
  "ffsn_loop b n sz msk base =
     (if sz > 0 then
        if n > unat (hweight (b AND msk))
        then ffsn_loop b n (sz div 2) (msk OR push_bit (sz div 2) msk) (base + sz)
        else ffsn_loop b n (sz div 2) (drop_bit (sz div 2) msk) base
      else base)"
  by pat_completeness auto
termination
  by (relation "measure (\<lambda>(b, n, sz, msk, base). sz)") auto

declare ffsn_loop.simps [simp del]

definition ffsn :: "u64 \<Rightarrow> nat \<Rightarrow> nat" where
  "ffsn b n = ffsn_loop b n 32 0xFFFFFFFF 0"

text \<open>The loop of \<open>bit_nth_set\<close>; \<open>lst\<close> is \<open>(last_bit, last_count)\<close> once a non-empty word was
  seen. It returns the position it stopped at, what is left of \<open>n\<close> there, and \<open>lst\<close>.\<close>

function nth_loop :: "bitstr \<Rightarrow> nat \<Rightarrow> nat \<Rightarrow> (nat \<times> nat) option
    \<Rightarrow> (nat \<times> nat \<times> (nat \<times> nat) option) option" where
  "nth_loop b n k lst =
     (if k < bs_bits b then do {
        w \<leftarrow> bs_get b (bit_word k);
        let mask = (if bit_word k = bit_word (bs_bits b) then bit_nmask (bs_bits b) else -1);
        let count = unat (hweight (w AND mask));
        let lst' = (if count > 0 then Some (k, count) else lst);
        if n \<le> count then Some (k, n, lst')
        else nth_loop b (n - count) (k + 64) lst' }
      else Some (k, n, lst))"
  by pat_completeness auto
termination
  by (relation "measure (\<lambda>(b, n, k, lst). bs_bits b - k)") auto

declare nth_loop.simps [simp del]

definition bit_nth_set :: "bitstr \<Rightarrow> int \<Rightarrow> int option" where
  "bit_nth_set b n = do {
     assert_bitstr_valid b;
     if n \<le> 0 then Some (-1)
     else do {
       (k, m, lst) \<leftarrow> nth_loop b (nat n) 0 None;
       case lst of
         None \<Rightarrow> Some (-1)
       | Some (last_bit, last_count) \<Rightarrow> do {
           w \<leftarrow> bs_get b (bit_word last_bit);
           let last_mask =
             (if bit_word last_bit = bit_word (bs_bits b) then bit_nmask (bs_bits b) else -1);
           Some (int (last_bit + ffsn (w AND last_mask)
                        (if last_bit = k then m else last_count))) } } }"

definition bit_pick_firstn :: "bitstr \<Rightarrow> int \<Rightarrow> bitstr option" where
  "bit_pick_firstn b n = do {
     assert_bitstr_valid b;
     nth_bit \<leftarrow> bit_nth_set b n;
     if nth_bit + 1 = int (bs_bits b) \<or> nth_bit < 0 then Some b
     else bit_nclear b (nth_bit + 1) (int (bs_bits b) - 1) }"

text \<open>The inner loop of \<open>bit_pick_cnt\<close> copies bits one by one until \<open>nbits\<close> are copied or the
  string ends; the outer loop copies or skips whole words.\<close>

function pick_bits :: "bitstr \<Rightarrow> nat \<Rightarrow> nat \<Rightarrow> nat \<Rightarrow> bitstr \<Rightarrow> (nat \<times> nat \<times> bitstr) option" where
  "pick_bits b nbits k count new =
     (if k < bs_bits b \<and> count < nbits then do {
        t \<leftarrow> bit_test b k;
        if t then do { new' \<leftarrow> bit_set new (int k); pick_bits b nbits (k + 1) (count + 1) new' }
        else pick_bits b nbits (k + 1) count new }
      else Some (k, count, new))"
  by pat_completeness auto
termination
  by (relation "measure (\<lambda>(b, nbits, k, count, new). bs_bits b - k)") auto

declare pick_bits.simps [simp del]

text \<open>After the inner loop the outer condition is false, so the loop ends there.\<close>

function pick_loop :: "bitstr \<Rightarrow> nat \<Rightarrow> nat \<Rightarrow> nat \<Rightarrow> bitstr \<Rightarrow> (nat \<times> nat \<times> bitstr) option" where
  "pick_loop b nbits k count new =
     (if k < bs_bits b \<and> count < nbits then do {
        w \<leftarrow> bs_get b (bit_word k);
        if w = 0 then pick_loop b nbits (k + 64) count new
        else do {
          let new_bits = unat (hweight w);
          if count + new_bits \<le> nbits \<and> k + 64 - 1 < bs_bits b then do {
            new' \<leftarrow> bs_put new (bit_word k) w;
            pick_loop b nbits (k + 64) (count + new_bits) new' }
          else pick_bits b nbits k count new } }
      else Some (k, count, new))"
  by pat_completeness auto
termination
  by (relation "measure (\<lambda>(b, nbits, k, count, new). bs_bits b - k)") auto

declare pick_loop.simps [simp del]

definition bit_pick_cnt :: "bitstr \<Rightarrow> nat \<Rightarrow> bitstr option option" where
  "bit_pick_cnt b nbits = do {
     assert_bitstr_valid b;
     if bs_bits b < nbits then Some None
     else do {
       n \<leftarrow> bit_size b;
       new \<leftarrow> bit_alloc (int n);
       (k, count, new') \<leftarrow> pick_loop b nbits 0 0 new;
       Some (if count < nbits then None else Some new') } }"

function get_bit_num_loop :: "bitstr \<Rightarrow> int \<Rightarrow> nat \<Rightarrow> nat \<Rightarrow> nat option" where
  "get_bit_num_loop b pos k cnt =
     (if k < bs_bits b then do {
        t \<leftarrow> bit_test b k;
        if t then if int cnt = pos then Some k else get_bit_num_loop b pos (k + 1) (cnt + 1)
        else get_bit_num_loop b pos (k + 1) cnt }
      else Some k)"
  by pat_completeness auto
termination
  by (relation "measure (\<lambda>(b, pos, k, cnt). bs_bits b - k)") auto

declare get_bit_num_loop.simps [simp del]

definition bit_get_bit_num :: "bitstr \<Rightarrow> int \<Rightarrow> int option" where
  "bit_get_bit_num b pos = do {
     assert_bitstr_valid b;
     xassert (pos \<le> int (bs_bits b));
     k \<leftarrow> get_bit_num_loop b pos 0 0;
     Some (if k \<ge> bs_bits b then -1 else int k) }"

definition bit_consolidate :: "bitstr \<Rightarrow> bitstr option" where
  "bit_consolidate b = do {
     set_count \<leftarrow> bit_set_count b;
     n \<leftarrow> bit_size b;
     if set_count \<noteq> 0 \<and> set_count < n then do {
       b' \<leftarrow> bit_nclear b (int set_count) (int n - 1);
       bit_nset b' 0 (int set_count - 1) }
     else Some b }"

subsection \<open>Counting is cardinality\<close>

definition bs_cnt :: "bitstr \<Rightarrow> nat \<Rightarrow> nat \<Rightarrow> nat" where
  "bs_cnt b lo hi = card {i. lo \<le> i \<and> i < hi \<and> bs_bit b i}"

lemma bs_cnt_empty [simp]: "hi \<le> lo \<Longrightarrow> bs_cnt b lo hi = 0"
  by (simp add: bs_cnt_def)

lemma finite_range [simp]: "finite {i. lo \<le> i \<and> i < (hi::nat) \<and> P i}"
  by (rule finite_subset [of _ "{..<hi}"]) auto

lemma card_range_split:
  assumes "lo \<le> m" "m \<le> (hi::nat)"
  shows "card {i. lo \<le> i \<and> i < m \<and> P i} + card {i. m \<le> i \<and> i < hi \<and> P i}
       = card {i. lo \<le> i \<and> i < hi \<and> P i}"
proof -
  have "card ({i. lo \<le> i \<and> i < m \<and> P i} \<union> {i. m \<le> i \<and> i < hi \<and> P i})
      = card {i. lo \<le> i \<and> i < m \<and> P i} + card {i. m \<le> i \<and> i < hi \<and> P i}"
    by (rule card_Un_disjoint) auto
  moreover have "{i. lo \<le> i \<and> i < m \<and> P i} \<union> {i. m \<le> i \<and> i < hi \<and> P i} = {i. lo \<le> i \<and> i < hi \<and> P i}"
    using assms by auto
  ultimately show ?thesis by simp
qed

lemma bs_cnt_split: "lo \<le> m \<Longrightarrow> m \<le> hi \<Longrightarrow> bs_cnt b lo m + bs_cnt b m hi = bs_cnt b lo hi"
  unfolding bs_cnt_def by (rule card_range_split)

lemma bs_cnt_Suc: "lo \<le> k \<Longrightarrow> bs_cnt b lo (Suc k) = bs_cnt b lo k + (if bs_bit b k then 1 else 0)"
proof -
  assume "lo \<le> k"
  then have "bs_cnt b lo (Suc k) = bs_cnt b lo k + bs_cnt b k (Suc k)"
    using bs_cnt_split [of lo k "Suc k" b] by simp
  moreover have "{i. k \<le> i \<and> i < Suc k \<and> bs_bit b i} = (if bs_bit b k then {k} else {})"
    by (auto simp: less_Suc_eq_le dest: order_antisym)
  ultimately show ?thesis by (simp add: bs_cnt_def)
qed

lemma bs_cnt_mono: "hi \<le> hi' \<Longrightarrow> bs_cnt b lo hi \<le> bs_cnt b lo hi'"
  unfolding bs_cnt_def by (rule card_mono) auto

lemma bs_cnt_le: "bs_cnt b lo hi \<le> hi - lo"
proof -
  have "bs_cnt b lo hi \<le> card {lo..<hi}" unfolding bs_cnt_def by (rule card_mono) auto
  then show ?thesis by simp
qed

lemma card_bs_set: "card (bs_set b) = bs_cnt b 0 (bs_bits b)"
  by (simp add: bs_set_def bs_cnt_def)

lemma hweight_block:
  assumes "\<And>m. m < 64 \<Longrightarrow> bit w m \<longleftrightarrow> Q (k + m)"
  shows "unat (hweight w) = card {i. k \<le> i \<and> i < k + 64 \<and> Q i}"
proof -
  have "card ((+) k ` {i. i < 64 \<and> bit w i}) = card {i. i < 64 \<and> bit w i}"
    by (rule card_image) simp
  moreover have "(+) k ` {i. i < 64 \<and> bit w i} = {i. k \<le> i \<and> i < k + 64 \<and> Q i}"
    using assms by (auto simp: image_iff) (metis add_diff_cancel_left' le_add_diff_inverse nat_add_left_cancel_less)
  ultimately show ?thesis by (simp add: hweight_card)
qed

lemma count_word_eq:
  assumes "k mod 64 = 0" "k div 64 < length (bs_words b)"
  shows "count_word b k c = Some (c + bs_cnt b k (k + 64))"
  using hweight_block [of "bs_words b ! (k div 64)" "bs_bit b" k] block_word [OF assms] assms(2)
  by (simp add: count_word_def bs_get_word bs_cnt_def)

text \<open>A masked word counts the bits of its block that the mask keeps.\<close>

lemma hweight_masked:
  assumes "k mod 64 = 0" "k div 64 < length (bs_words b)"
    and "\<And>m. m < 64 \<Longrightarrow> bit msk m \<longleftrightarrow> lo \<le> k + m \<and> k + m < hi"
  shows "unat (hweight (bs_words b ! (k div 64) AND msk)) = bs_cnt b (max lo k) (min hi (k + 64))"
proof -
  have "unat (hweight (bs_words b ! (k div 64) AND msk)) =
      card {i. k \<le> i \<and> i < k + 64 \<and> (lo \<le> i \<and> i < hi \<and> bs_bit b i)}"
    by (rule hweight_block) (auto simp: bit_and_iff block_word [OF assms(1,2)] assms(3))
  also have "{i. k \<le> i \<and> i < k + 64 \<and> (lo \<le> i \<and> i < hi \<and> bs_bit b i)}
      = {i. max lo k \<le> i \<and> i < min hi (k + 64) \<and> bs_bit b i}" by auto
  finally show ?thesis by (simp add: bs_cnt_def)
qed

lemma mod_floor: "(n::nat) - n mod 64 < n \<longleftrightarrow> n mod 64 \<noteq> 0" "(n - n mod 64) mod 64 = 0" "(n - n mod 64) div 64 = n div 64"
proof -
  show "n - n mod 64 < n \<longleftrightarrow> n mod 64 \<noteq> 0"
    using mod_less_eq_dividend [of n 64] by linarith
  show "(n - n mod 64) mod 64 = 0" by (simp add: minus_mod_eq_mult_div)
  show "(n - n mod 64) div 64 = n div 64" by (simp add: minus_mod_eq_mult_div)
qed

lemma nmask_tail:
  "m < 64 \<Longrightarrow> bit (bit_nmask n) m \<longleftrightarrow> 0 \<le> n - n mod 64 + m \<and> n - n mod 64 + m < n"
  using mod_less_eq_dividend [of n 64] by (auto simp: bits64)

lemma bit_set_count_eq [c_sem]:
  assumes "bs_valid b"
  shows "bit_set_count b = Some (card (bs_set b))"
proof -
  let ?n = "bs_bits b" let ?e = "bs_bits b - bs_bits b mod 64"
  have "\<exists>t. for_words (count_word b) ?n 0 0 = Some (?e, t) \<and> t = bs_cnt b 0 ?e"
  proof (rule for_words_from_0)
    fix j t assume j: "j + 64 \<le> ?n" "j mod 64 = 0" and t: "t = bs_cnt b 0 j"
    have "j div 64 < length (bs_words b)" using assms j by simp
    with j t show "\<exists>t'. count_word b j t = Some t' \<and> t' = bs_cnt b 0 (j + 64)"
      by (simp add: count_word_eq bs_cnt_split)
  qed simp
  then have loop: "for_words (count_word b) ?n 0 0 = Some (?e, bs_cnt b 0 ?e)" by simp
  show ?thesis
  proof (cases "?e < ?n")
    case True
    then have w: "?e div 64 < length (bs_words b)" using assms by simp
    have "unat (hweight (bs_words b ! (?e div 64) AND bit_nmask ?n)) = bs_cnt b (max 0 ?e) (min ?n (?e + 64))"
      by (rule hweight_masked [OF mod_floor(2) w]) (rule nmask_tail)
    then have "unat (hweight (bs_words b ! (?e div 64) AND bit_nmask ?n)) = bs_cnt b ?e ?n"
      using mod_less_divisor [of 64 ?n] by (simp add: min_absorb1)
    with True loop w assms show ?thesis
      by (simp add: bit_set_count_def bs_get_word card_bs_set bs_cnt_split)
  next
    case False
    then have "?e = ?n" by simp
    with loop assms show ?thesis by (simp add: bit_set_count_def card_bs_set)
  qed
qed

lemma bs_set_subset: "bs_set b \<subseteq> {..<bs_bits b}"
  by (auto simp: bs_set_def)

lemma card_bs_set_le: "card (bs_set b) \<le> bs_bits b"
  using card_mono [OF _ bs_set_subset, of b] by simp

lemma bit_clear_count_eq [c_sem]:
  "bs_valid b \<Longrightarrow> bit_clear_count b = Some (card ({..<bs_bits b} - bs_set b))"
  by (simp add: bit_clear_count_def bit_set_count_eq card_Diff_subset bs_set_subset)

subsubsection \<open>Counting a range\<close>

lemma to_u64_nat [simp]: "int n < 2 ^ 64 \<Longrightarrow> to_u64 (int n) = n"
  by (simp add: to_u64_def)

lemma count_from_boundary:
  assumes "bs_valid b" "s \<le> k0" "k0 mod 64 = 0 \<or> e \<le> k0" "e \<le> bs_bits b"
  shows "do { (k, count) \<leftarrow> for_words (count_word b) e k0 (bs_cnt b s (min e k0));
              if k < e then do {
                w \<leftarrow> bs_get b (bit_word k);
                Some (count + unat (hweight (w AND bit_nmask e))) }
              else Some count } = Some (bs_cnt b s (max s e))"
proof (cases "e \<le> k0")
  case True
  then show ?thesis
    using assms(2) by (cases "s \<le> e") (simp_all add: for_words.simps [of _ e k0] max_def min_def)
next
  case False
  then have k0: "k0 mod 64 = 0" "k0 < e" using assms(3) by auto
  let ?I = "\<lambda>k c. c = bs_cnt b s k \<and> k mod 64 = 0"
  have "\<exists>k c. for_words (count_word b) e k0 (bs_cnt b s (min e k0)) = Some (k, c) \<and> ?I k c \<and> k0 \<le> k
      \<and> e < k + 64 \<and> (k - k0) mod 64 = 0 \<and> (k \<le> e \<or> k = k0)"
  proof (rule for_words_rule)
    show "?I k0 (bs_cnt b s (min e k0))" using k0 by simp
    fix j c assume j: "k0 \<le> j" "j + 64 \<le> e" "?I j c"
    have "j div 64 < length (bs_words b)" using assms(1,4) j by simp
    with j assms(2) show "\<exists>c'. count_word b j c = Some c' \<and> ?I (j + 64) c'"
      by (simp add: count_word_eq bs_cnt_split)
  qed
  then obtain k where k: "for_words (count_word b) e k0 (bs_cnt b s (min e k0)) = Some (k, bs_cnt b s k)"
    "k mod 64 = 0" "k0 \<le> k" "e < k + 64" "k \<le> e" using k0 by auto
  show ?thesis
  proof (cases "k < e")
    case True
    have w: "k div 64 < length (bs_words b)" using assms(1,4) True by simp
    have e: "e - e mod 64 = k" using mod_64_diff [OF k(2), of e] k(4,5) by simp
    have "unat (hweight (bs_words b ! (k div 64) AND bit_nmask e)) = bs_cnt b (max 0 k) (min e (k + 64))"
      by (rule hweight_masked [OF k(2) w]) (use nmask_tail [of _ e] e in simp)
    then show ?thesis
      using k True w assms(2) k0(2) by (simp add: bs_get_word bs_cnt_split max_def)
  next
    case False
    with k k0 assms(2) show ?thesis by (simp add: max_def)
  qed
qed

lemma eow_facts:
  fixes s :: nat
  assumes "eow = push_bit 6 (drop_bit 6 (s + 63))"
  shows "eow mod 64 = 0" "s \<le> eow" "eow < s + 64" "s < eow \<Longrightarrow> s - s mod 64 = eow - 64"
    "s < eow \<Longrightarrow> 64 \<le> eow"
proof -
  have e: "eow = (s + 63) div 64 * 64" using assms by (simp add: push_bit_eq_mult)
  show "eow mod 64 = 0" by (simp add: e)
  show "s \<le> eow" "eow < s + 64"
    using div_mult_mod_eq [of "s + 63" 64] mod_less_divisor [of 64 "s + 63"] unfolding e by linarith+
  show ge: "64 \<le> eow" if "s < eow"
    using that \<open>eow mod 64 = 0\<close> by (intro dvd_imp_le) auto
  show "s - s mod 64 = eow - 64" if "s < eow"
    using mod_64_diff [of "eow - 64" s] \<open>eow mod 64 = 0\<close> \<open>eow < s + 64\<close> ge [OF that] that
    by (simp add: le_mod_geq [symmetric])
qed

lemma window_iff:
  "f = s - r \<Longrightarrow> r \<le> (s::nat) \<Longrightarrow> f \<le> e \<Longrightarrow> \<not> m < r \<and> m < e - f \<longleftrightarrow> s \<le> f + m \<and> f + m < e"
  by auto

lemma bit_set_count_range_eq [c_sem]:
  assumes "bs_valid b" "0 \<le> start" "start < int (bs_bits b)" "start \<le> stop"
  shows "bit_set_count_range b start stop = Some (card {i \<in> bs_set b. start \<le> int i \<and> int i < stop})"
proof -
  define s where "s = nat start"
  define e where "e = nat (min stop (int (bs_bits b)))"
  define eow where "eow = push_bit 6 (drop_bit 6 (s + 63))"
  have ints: "start = int s" "min stop (int (bs_bits b)) = int e" and se: "s \<le> e" "e \<le> bs_bits b" "s < bs_bits b"
    using assms(2-4) by (auto simp: s_def e_def)
  note eow = eow_facts [OF eow_def]
  have big: "to_u64 (int e) = e"
    using assms(1) se(2) by (intro to_u64_nat) (auto simp: bs_valid_def)
  have w: "s div 64 < length (bs_words b)" using assms(1) se(3) by simp
  let ?f = "s - s mod 64"
  have f: "?f mod 64 = 0" "?f div 64 = s div 64" by (rule mod_floor)+
  note hm = hweight_masked [OF f(1), of b, unfolded f(2), OF w]
  have mod_le: "s mod 64 \<le> s" by simp
  have full: "unat (hweight (bs_words b ! (s div 64) AND NOT (bit_nmask s))) = bs_cnt b s (min e eow)"
    if "s < eow" "eow \<le> e"
  proof -
    have "bit (NOT (bit_nmask s)) m \<longleftrightarrow> s \<le> ?f + m \<and> ?f + m < eow" if "m < 64" for m
      using that eow(4,5) \<open>s < eow\<close> mod_le by (auto simp: bit_not_iff bits64)
    from hm [OF this] show ?thesis
      using eow(4,5) that by (simp add: max_absorb1 min_absorb1)
  qed
  have part: "unat (hweight (bs_words b ! (s div 64) AND (NOT (bit_nmask s) AND bit_nmask e))) = bs_cnt b s (min e eow)"
    if "s < eow" "\<not> eow \<le> e"
  proof -
    have "e - e mod 64 = ?f"
      using mod_64_diff [OF f(1), of e] eow(4) [OF that(1)] that se(1) mod_le by simp
    then have e: "e mod 64 = e - ?f" using mod_less_eq_dividend [of e 64] by linarith
    have "?f \<le> e" using se(1) by simp
    have "bit (NOT (bit_nmask s) AND bit_nmask e) m \<longleftrightarrow> s \<le> ?f + m \<and> ?f + m < e" if "m < 64" for m
    proof -
      have "bit (NOT (bit_nmask s) AND bit_nmask e) m \<longleftrightarrow> \<not> m < s mod 64 \<and> m < e mod 64"
        using that by (simp add: bit_not_iff bit_and_iff bits64)
      then show ?thesis unfolding e using window_iff [OF refl mod_le \<open>?f \<le> e\<close>] by simp
    qed
    from hm [OF this] show ?thesis
      using eow(4,5) that se(1) by (simp add: max_absorb1 min_absorb1)
  qed
  have first: "(if s < eow \<and> int eow \<le> int e then do {
          w \<leftarrow> bs_get b (bit_word s);
          Some (eow, unat (hweight (w AND NOT (bit_nmask s)))) }
        else if eow > s then do {
          w \<leftarrow> bs_get b (bit_word s);
          Some (eow, unat (hweight (w AND (NOT (bit_nmask s) AND bit_nmask e)))) }
        else Some (s, 0)) = Some (eow, bs_cnt b s (min e eow))"
    using full part w eow(2) by (auto simp: bs_get_word)
  have "bit_set_count_range b start stop = Some (bs_cnt b s (max s e))"
    using count_from_boundary [OF assms(1) eow(2) disjI1 [OF eow(1)] se(2)] assms(1) se
    unfolding bit_set_count_range_def Let_def ints nat_int eow_def [symmetric] big first bind_simps
    by (simp add: assert_bit_valid_def)
  also have "bs_cnt b s (max s e) = card {i \<in> bs_set b. start \<le> int i \<and> int i < stop}"
    unfolding bs_cnt_def using assms(2-4)
    by (intro arg_cong [where f = card]) (auto simp: bs_set_def s_def e_def)
  finally show ?thesis .
qed

subsubsection \<open>Overlap\<close>

definition both_cnt :: "bitstr \<Rightarrow> bitstr \<Rightarrow> nat \<Rightarrow> nat \<Rightarrow> nat" where
  "both_cnt b1 b2 lo hi = card {i. lo \<le> i \<and> i < hi \<and> bs_bit b1 i \<and> bs_bit b2 i}"

lemma both_cnt_split:
  "lo \<le> m \<Longrightarrow> m \<le> hi \<Longrightarrow> both_cnt b1 b2 lo m + both_cnt b1 b2 m hi = both_cnt b1 b2 lo hi"
  unfolding both_cnt_def by (rule card_range_split)

lemma both_word:
  assumes "k mod 64 = 0" "k div 64 < length (bs_words b1)" "k div 64 < length (bs_words b2)"
  shows "unat (hweight (bs_words b1 ! (k div 64) AND bs_words b2 ! (k div 64))) = both_cnt b1 b2 k (k + 64)"
    and "bs_words b1 ! (k div 64) AND bs_words b2 ! (k div 64) = 0 \<longleftrightarrow> both_cnt b1 b2 k (k + 64) = 0"
proof -
  show c: "unat (hweight (bs_words b1 ! (k div 64) AND bs_words b2 ! (k div 64))) = both_cnt b1 b2 k (k + 64)"
    unfolding both_cnt_def
    by (rule hweight_block) (simp add: bit_and_iff block_word [OF assms(1,2)] block_word [OF assms(1,3)])
  show "bs_words b1 ! (k div 64) AND bs_words b2 ! (k div 64) = 0 \<longleftrightarrow> both_cnt b1 b2 k (k + 64) = 0"
    unfolding c [symmetric] hweight_card by (auto simp: u64_zero_iff)
qed

lemma overlap_loop_eq:
  assumes "bs_valid b1" "bs_valid b2" "bs_bits b1 = bs_bits b2" "n = bs_bits b1"
    and "k mod 64 = 0" "k \<le> n" "count_it \<or> c = 0"
  shows "overlap_loop b1 b2 count_it n k c =
     (if count_it then Some (Inr (n - n mod 64, c + both_cnt b1 b2 k (n - n mod 64)))
      else if both_cnt b1 b2 k (n - n mod 64) = 0 then Some (Inr (n - n mod 64, 0)) else Some (Inl 1))"
  using assms
proof (induction b1 b2 count_it n k c rule: overlap_loop.induct)
  case (1 b1 b2 count_it n k c)
  note prems = "1.prems"
  show ?case
  proof (cases "k + 64 \<le> n")
    case True
    have w: "k div 64 < length (bs_words b1)" "k div 64 < length (bs_words b2)"
      using prems(1-4) True by (auto simp del: bs_valid_word intro!: bs_valid_word)
    note get = bs_get_word [OF w(1)] bs_get_word [OF w(2)]
    note bw = both_word [OF prems(5) w]
    have go: "k < n" "\<not> k + 64 - 1 \<ge> n" using True by auto
    have le: "k + 64 \<le> n - n mod 64"
    proof -
      have "(k + 64) div 64 \<le> n div 64" using True by (rule div_le_mono)
      then have "64 * ((k + 64) div 64) \<le> 64 * (n div 64)" by simp
      then show ?thesis using prems(5) by (simp add: minus_mod_eq_mult_div mult_div_mod_eq) auto
    qed
    have sp: "both_cnt b1 b2 k (n - n mod 64) = both_cnt b1 b2 k (k + 64) + both_cnt b1 b2 (k + 64) (n - n mod 64)"
      using le by (simp add: both_cnt_split)
    have m: "(k + 64) mod 64 = 0" using prems(5) by simp
    show ?thesis
    proof (cases count_it)
      case ci: True
      then show ?thesis
        using "1.IH"(1) [OF go get ci prems(1-4) m True disjI1 [OF ci]] go get bw(1) sp
        by (simp add: overlap_loop.simps [of b1 b2 _ n k])
    next
      case ci: False
      show ?thesis
        using "1.IH"(2) [OF go get ci _ prems(1-4) m True] go get bw(2) sp ci prems(7)
        by (auto simp: overlap_loop.simps [of b1 b2 _ n k])
    qed
  next
    case False
    have "n - n mod 64 = k"
      using False prems(5,6) mod_64_diff [of k n] by simp
    then show ?thesis using False prems(7)
      by (auto simp: overlap_loop.simps [of b1 b2 count_it n k] both_cnt_def)
  qed
qed

lemma bit_overlap_internal_eq:
  assumes "bs_valid b1" "bs_valid b2" "bs_bits b1 = bs_bits b2"
  shows "bit_overlap_internal b1 b2 count_it =
     Some (if count_it then card (bs_set b1 \<inter> bs_set b2)
           else if bs_set b1 \<inter> bs_set b2 = {} then 0 else 1)"
proof -
  define n where "n = bs_bits b1"
  define e where "e = n - n mod 64"
  have bits: "bs_bits b1 = n" "bs_bits b2 = n" using assms(3) by (simp_all add: n_def)
  have card: "card (bs_set b1 \<inter> bs_set b2) = both_cnt b1 b2 0 n"
    unfolding both_cnt_def by (rule arg_cong [where f = card]) (auto simp: bs_set_def n_def assms(3))
  have empty: "bs_set b1 \<inter> bs_set b2 = {} \<longleftrightarrow> both_cnt b1 b2 0 n = 0"
    unfolding card [symmetric] by simp
  note loop = overlap_loop_eq [OF assms n_def, of 0 count_it 0, folded e_def]
  show ?thesis
  proof (cases "e < n")
    case True
    have m: "e mod 64 = 0" unfolding e_def by (rule mod_floor)
    have w: "e div 64 < length (bs_words b1)" "e div 64 < length (bs_words b2)"
      using assms(1,2) True bits by (auto simp del: bs_valid_word intro!: bs_valid_word)
    let ?x = "bs_words b1 ! (e div 64)" let ?y = "bs_words b2 ! (e div 64)"
    have hw: "unat (hweight (?x AND ?y AND bit_nmask n)) = both_cnt b1 b2 e n"
    proof -
      have "unat (hweight (?x AND ?y AND bit_nmask n)) =
          card {i. e \<le> i \<and> i < e + 64 \<and> (bs_bit b1 i \<and> bs_bit b2 i \<and> i < n)}"
        by (rule hweight_block)
          (use nmask_tail [of _ n, folded e_def] in \<open>auto simp: bit_and_iff block_word [OF m w(1)] block_word [OF m w(2)]\<close>)
      also have "{i. e \<le> i \<and> i < e + 64 \<and> (bs_bit b1 i \<and> bs_bit b2 i \<and> i < n)} =
          {i. e \<le> i \<and> i < n \<and> bs_bit b1 i \<and> bs_bit b2 i}"
        using mod_less_divisor [of 64 n] by (auto simp: e_def)
      finally show ?thesis by (simp add: both_cnt_def)
    qed
    have z: "?x AND ?y AND bit_nmask n = 0 \<longleftrightarrow> both_cnt b1 b2 e n = 0"
      unfolding hw [symmetric] hweight_card by (auto simp: u64_zero_iff)
    have sp: "both_cnt b1 b2 0 n = both_cnt b1 b2 0 e + both_cnt b1 b2 e n"
      using True by (simp add: both_cnt_split)
    show ?thesis
      unfolding card empty bit_overlap_internal_def Let_def bits sp loop [OF mod_0 le0 disjI2 [OF refl]]
      using True assms(1,2) hw z by (simp add: bs_get_word [OF w(1)] bs_get_word [OF w(2)])
  next
    case False
    then have "e = n" by (simp add: e_def)
    then show ?thesis
      unfolding card empty bit_overlap_internal_def Let_def bits loop [OF mod_0 le0 disjI2 [OF refl]]
      using assms(1,2) by simp
  qed
qed

lemma bit_overlap_eq [c_sem]:
  "bs_valid b1 \<Longrightarrow> bs_valid b2 \<Longrightarrow> bs_bits b1 = bs_bits b2
     \<Longrightarrow> bit_overlap b1 b2 = Some (card (bs_set b1 \<inter> bs_set b2))"
  by (simp add: bit_overlap_def bit_overlap_internal_eq)

lemma bit_overlap_any_eq [c_sem]:
  "bs_valid b1 \<Longrightarrow> bs_valid b2 \<Longrightarrow> bs_bits b1 = bs_bits b2
     \<Longrightarrow> bit_overlap_any b1 b2 = Some (if bs_set b1 \<inter> bs_set b2 = {} then 0 else 1)"
  by (simp add: bit_overlap_any_def bit_overlap_internal_eq)

subsubsection \<open>The longest run\<close>

definition set_run :: "bitstr \<Rightarrow> nat \<Rightarrow> nat \<Rightarrow> bool" where
  "set_run b s m \<longleftrightarrow> (\<forall>i. s \<le> i \<longrightarrow> i < s + m \<longrightarrow> bs_bit b i)"

definition longest_run :: "bitstr \<Rightarrow> nat \<Rightarrow> nat \<Rightarrow> bool" where
  "longest_run b n m \<longleftrightarrow> (\<exists>s. s + m \<le> n \<and> set_run b s m) \<and> (\<forall>s l. s + l \<le> n \<longrightarrow> set_run b s l \<longrightarrow> l \<le> m)"

lemma longest_run_clear: "longest_run b k m \<Longrightarrow> \<not> bs_bit b k \<Longrightarrow> longest_run b (Suc k) m"
  unfolding longest_run_def
proof (elim conjE, intro conjI allI impI)
  fix s l assume h: "\<not> bs_bit b k" "\<forall>s l. s + l \<le> k \<longrightarrow> set_run b s l \<longrightarrow> l \<le> m" "s + l \<le> Suc k" "set_run b s l"
  show "l \<le> m"
  proof (cases "s + l \<le> k \<or> l = 0")
    case False
    then have "bs_bit b k" using h(3,4) by (auto simp: set_run_def)
    with h(1) show ?thesis by simp
  qed (use h in auto)
qed (auto intro: le_SucI)

lemma longest_run_set:
  assumes "longest_run b k m" "bs_bit b k" "cnt \<le> k" "set_run b (k - cnt) cnt"
    "cnt < k \<longrightarrow> \<not> bs_bit b (k - cnt - 1)"
  shows "longest_run b (Suc k) (max m (Suc cnt))"
proof -
  have "l \<le> max m (Suc cnt)" if l: "s + l \<le> Suc k" "set_run b s l" for s l
  proof (cases "s + l \<le> k \<or> l \<le> Suc cnt")
    case True
    with l assms(1) show ?thesis by (auto simp: longest_run_def le_max_iff_disj)
  next
    case False
    then have "s \<le> k - cnt - 1" "k - cnt - 1 < s + l" "cnt < k" using l(1) assms(3) by auto
    with l(2) assms(5) show ?thesis by (auto simp: set_run_def)
  qed
  moreover have "\<exists>s. s + max m (Suc cnt) \<le> Suc k \<and> set_run b s (max m (Suc cnt))"
  proof (cases "Suc cnt \<le> m")
    case True
    with assms(1) show ?thesis by (auto simp: longest_run_def max_def intro: le_SucI)
  next
    case False
    have "set_run b (k - cnt) (Suc cnt)"
      using assms(2,3,4) by (auto simp: set_run_def less_Suc_eq)
    with False assms(3) show ?thesis by (auto simp: max_def intro!: exI [of _ "k - cnt"])
  qed
  ultimately show ?thesis by (auto simp: longest_run_def)
qed

lemma longest_run_stop:
  assumes "longest_run b (Suc k) m" "\<not> bs_bit b k" "n - k < m" "k < n"
  shows "longest_run b n m"
proof -
  have "l \<le> m" if l: "s + l \<le> n" "set_run b s l" for s l
  proof (cases "s + l \<le> Suc k")
    case True
    with l assms(1) show ?thesis by (auto simp: longest_run_def)
  next
    case False
    then have "k < s" using l(2) [unfolded set_run_def, rule_format, of k] assms(2) by linarith
    with l(1) assms(3) show ?thesis by simp
  qed
  moreover have "\<exists>s. s + m \<le> n \<and> set_run b s m"
    using assms(1,4) unfolding longest_run_def by (meson Suc_leI order_trans)
  ultimately show ?thesis by (auto simp: longest_run_def)
qed

lemma nset_max_loop_eq:
  assumes "bs_valid b" "n = bs_bits b" "k \<le> n" "longest_run b k m" "cnt \<le> k"
    "set_run b (k - cnt) cnt" "cnt < k \<longrightarrow> \<not> bs_bit b (k - cnt - 1)"
  shows "\<exists>r. nset_max_loop b n k cnt m = Some r \<and> longest_run b n r"
  using assms
proof (induction b n k cnt m rule: nset_max_loop.induct)
  case (1 b n k cnt m)
  note prems = "1.prems"
  show ?case
  proof (cases "k < n")
    case True
    have t: "bit_test b k = Some (bs_bit b k)" using prems(1,2) True by (simp add: bit_test_eq)
    show ?thesis
    proof (cases "bs_bit b k")
      case set: True
      have max: "(if cnt + 1 > m then cnt + 1 else m) = max m (Suc cnt)" by (simp add: max_def)
      have "\<exists>r. nset_max_loop b n (k + 1) (cnt + 1) (max m (Suc cnt)) = Some r \<and> longest_run b n r"
      proof (rule "1.IH" [OF True t refl, of "cnt + 1" "max m (Suc cnt)"])
        show "longest_run b (k + 1) (max m (Suc cnt))"
          using longest_run_set [OF prems(4) set prems(5,6,7)] by simp
        show "set_run b (k + 1 - (cnt + 1)) (cnt + 1)"
          using prems(5,6) set by (auto simp: set_run_def less_Suc_eq)
      qed (use True set prems max in auto)
      with True t set max show ?thesis by (simp add: nset_max_loop.simps [of b n k])
    next
      case clear: False
      show ?thesis
      proof (cases "n - k < m")
        case stop: True
        with True t clear longest_run_stop [OF longest_run_clear [OF prems(4) clear] clear stop True]
        show ?thesis by (simp add: nset_max_loop.simps [of b n k])
      next
        case False
        have "\<exists>r. nset_max_loop b n (k + 1) 0 m = Some r \<and> longest_run b n r"
          using longest_run_clear [OF prems(4) clear] False True clear prems(1-3)
          by (intro "1.IH" [OF True t refl, of 0 m]) (auto simp: set_run_def)
        with False True t clear show ?thesis by (simp add: nset_max_loop.simps [of b n k])
      qed
    qed
  next
    case False
    with prems(3,4) have "k = n" "longest_run b n m" by auto
    then show ?thesis by (simp add: nset_max_loop.simps [of b n n])
  qed
qed

lemma bit_nset_max_count_eq:
  assumes "bs_valid b"
  shows "\<exists>r. bit_nset_max_count b = Some r \<and> longest_run b (bs_bits b) r"
proof -
  have "longest_run b 0 0" "set_run b (0 - 0) 0" by (auto simp: longest_run_def set_run_def)
  with nset_max_loop_eq [OF assms refl, of 0 0 0] assms show ?thesis
    by (simp add: bit_nset_max_count_def)
qed

subsubsection \<open>Rotation moves every bit\<close>

lemma bit_set_insert:
  assumes "bs_valid b" "i < bs_bits b"
  obtains b' where "bit_set b (int i) = Some b'" "bs_valid b'" "bs_bits b' = bs_bits b"
    "bs_set b' = insert i (bs_set b)"
  using assms by (force simp: bit_set_eq bs_set_bs_of bs_set_def)

lemma rotate_loop_eq:
  assumes "bs_valid b1" "lo \<le> hi" "hi \<le> bs_bits b1" "bs_valid new"
    and "\<And>i. lo \<le> i \<Longrightarrow> i < hi \<Longrightarrow> 0 \<le> dst i \<and> dst i < int (bs_bits new)"
  shows "\<exists>t. for_upto (rotate_bit b1 dst) lo hi new = Some t \<and> bs_valid t \<and> bs_bits t = bs_bits new
     \<and> bs_set t = bs_set new \<union> (\<lambda>i. nat (dst i)) ` {i \<in> bs_set b1. lo \<le> i \<and> i < hi}"
proof -
  let ?S = "\<lambda>k. bs_set new \<union> (\<lambda>i. nat (dst i)) ` {i \<in> bs_set b1. lo \<le> i \<and> i < k}"
  let ?I = "\<lambda>k t. bs_valid t \<and> bs_bits t = bs_bits new \<and> bs_set t = ?S k"
  have "\<exists>t. for_upto (rotate_bit b1 dst) lo hi new = Some t \<and> ?I hi t"
  proof (rule for_upto_rule [OF assms(2)])
    show "?I lo new" using assms(4) by auto
    fix i t assume i: "lo \<le> i" "i < hi" and t: "?I i t"
    have bt: "bit_test b1 i = Some (bs_bit b1 i)" using i assms(1,3) by (simp add: bit_test_eq)
    show "\<exists>t'. rotate_bit b1 dst i t = Some t' \<and> ?I (Suc i) t'"
    proof (cases "bs_bit b1 i")
      case True
      have d: "dst i = int (nat (dst i))" "nat (dst i) < bs_bits t" using assms(5) [OF i] t by auto
      obtain t' where t': "bit_set t (int (nat (dst i))) = Some t'" "bs_valid t'" "bs_bits t' = bs_bits t"
        "bs_set t' = insert (nat (dst i)) (bs_set t)"
        using t d(2) by (blast elim: bit_set_insert)
      moreover have "i \<in> bs_set b1" using True i assms(3) by (simp add: bs_set_def)
      ultimately show ?thesis using True bt t d(1) i by (auto simp: rotate_bit_def less_Suc_eq)
    next
      case False
      then have "i \<notin> bs_set b1" by (simp add: bs_set_def)
      then have "{j \<in> bs_set b1. lo \<le> j \<and> j < Suc i} = {j \<in> bs_set b1. lo \<le> j \<and> j < i}"
        by (auto simp: less_Suc_eq)
      with False bt t show ?thesis by (simp add: rotate_bit_def)
    qed
  qed
  then show ?thesis .
qed

lemma c_rem_norm:
  assumes "0 < m"
  shows "(if c_rem a m < 0 then c_rem a m + m else c_rem a m) = a mod m"
proof (cases "0 \<le> a")
  case True
  then show ?thesis using assms by (cases "a = 0") (simp_all add: c_rem_def not_less)
next
  case False
  then have r: "c_rem a m = - ((- a) mod m)" using assms by (simp add: c_rem_def)
  show ?thesis
  proof (cases "(- a) mod m = 0")
    case True
    then have "a mod m = 0" by (metis mod_0_imp_dvd dvd_minus_iff dvd_imp_mod_0)
    with True r show ?thesis by simp
  next
    case nz: False
    then have "0 < (- a) mod m" using assms by (simp add: order_less_le)
    moreover have "a mod m = m - (- a) mod m"
      using zmod_zminus1_eq_if [of "- a" m] nz by simp
    ultimately show ?thesis using r by simp
  qed
qed

lemma bit_rotate_copy_eq:
  assumes "bs_valid b" "int (bs_bits b) \<le> nbits" "nbits \<le> 0x40000000"
  shows "\<exists>b'. bit_rotate_copy b n nbits = Some b' \<and> bs_valid b' \<and> int (bs_bits b') = nbits
     \<and> bs_set b' = (\<lambda>i. nat ((int i + n) mod nbits)) ` bs_set b"
proof -
  define n1 where "n1 = n mod nbits"
  define sz where "sz = bs_bits b"
  have pos: "0 < sz" "0 < nbits" using assms(2) bs_valid_pos [OF assms(1)] unfolding sz_def by linarith+
  have n1: "0 \<le> n1" "n1 < nbits" using pos by (auto simp: n1_def)
  define wrap where "wrap = (if n1 > nbits - int sz then n1 - (nbits - int sz) else 0)"
  have wrap: "0 \<le> wrap" "wrap \<le> int sz" using n1 assms(2) by (auto simp: wrap_def sz_def)
  define m where "m = nat (int sz - wrap)"
  have m: "m \<le> sz" "int m = int sz - wrap" using wrap by (auto simp: m_def)
  obtain new where new: "bit_alloc nbits = Some new" "bs_valid new" "int (bs_bits new) = nbits" "bs_set new = {}"
    using bit_alloc_eq [of "nat nbits"] pos assms(3) by (fastforce simp: bs_set_def)
  have lo: "0 \<le> int i + n1 \<and> int i + n1 < int (bs_bits new) \<and> (int i + n) mod nbits = int i + n1"
    if "i < m" for i
  proof -
    have "int i + n1 < nbits" using that m n1 wrap by (auto simp: wrap_def split: if_splits)
    moreover have "(int i + n) mod nbits = (int i + n1) mod nbits" by (simp add: n1_def mod_simps)
    ultimately show ?thesis using n1 new(3) by simp
  qed
  have hi: "int (i - m) < int (bs_bits new) \<and> (int i + n) mod nbits = int (i - m)"
    if "m \<le> i" "i < sz" for i
  proof -
    have w: "n1 = wrap + nbits - int sz" using that m wrap by (auto simp: wrap_def split: if_splits)
    have "(int i + n) mod nbits = (int i + n1) mod nbits" by (simp add: n1_def mod_simps)
    also have "int i + n1 = int (i - m) + nbits" using w m that by simp
    also have "(int (i - m) + nbits) mod nbits = int (i - m)"
      using that assms(2) by (simp add: sz_def mod_pos_pos_trivial)
    finally show ?thesis using that assms(2) new(3) by (simp add: sz_def)
  qed
  obtain t1 where t1: "for_upto (rotate_bit b (\<lambda>i. int i + n1)) 0 m new = Some t1" "bs_valid t1"
    "bs_bits t1 = bs_bits new" "bs_set t1 = (\<lambda>i. nat (int i + n1)) ` {i \<in> bs_set b. i < m}"
    using rotate_loop_eq [OF assms(1) _ _ new(2), of 0 m "\<lambda>i. int i + n1"] lo m new(4) by (auto simp: sz_def)
  obtain t2 where t2: "for_upto (rotate_bit b (\<lambda>i. int (i - m))) m sz t1 = Some t2" "bs_valid t2"
    "bs_bits t2 = bs_bits t1" "bs_set t2 = bs_set t1 \<union> (\<lambda>i. nat (int (i - m))) ` {i \<in> bs_set b. m \<le> i \<and> i < sz}"
    using rotate_loop_eq [OF assms(1) m(1) _ t1(2), of "\<lambda>i. int (i - m)"] hi t1(3) by (auto simp: sz_def)
  have "(\<lambda>i. nat ((int i + n) mod nbits)) ` bs_set b =
      (\<lambda>i. nat ((int i + n) mod nbits)) ` {i \<in> bs_set b. i < m}
      \<union> (\<lambda>i. nat ((int i + n) mod nbits)) ` {i \<in> bs_set b. m \<le> i \<and> i < sz}"
    unfolding image_Un [symmetric] by (rule arg_cong [where f = "image _"]) (auto simp: bs_set_def sz_def)
  also have "\<dots> = bs_set t2"
    unfolding t2(4) t1(4) using lo hi by (intro arg_cong2 [where f = "(\<union>)"] image_cong) auto
  finally have set: "bs_set t2 = (\<lambda>i. nat ((int i + n) mod nbits)) ` bs_set b" by simp
  have "bit_rotate_copy b n nbits = Some t2"
    using t1(1) t2(1) new(1) assms(1,2)
    unfolding bit_rotate_copy_def Let_def bit_size_eq [OF assms(1)] bs_valid_asserts [OF assms(1)] bind_simps
      c_rem_norm [OF pos(2)] n1_def [symmetric] sz_def [symmetric] wrap_def [symmetric] m_def [symmetric]
    by (simp add: sz_def)
  with t2 t1(3) new(3) set show ?thesis by auto
qed

lemma bit_rotate_eq:
  assumes "bs_valid b"
  shows "\<exists>b'. bit_rotate b n = Some b' \<and> bs_valid b' \<and> bs_bits b' = bs_bits b
     \<and> bs_set b' = (\<lambda>i. nat ((int i + n) mod int (bs_bits b))) ` bs_set b"
proof (cases "n = 0")
  case True
  have "(\<lambda>i. nat ((int i + n) mod int (bs_bits b))) ` bs_set b = id ` bs_set b"
    using True by (intro image_cong) (auto simp: bs_set_def)
  with True assms show ?thesis by (simp add: bit_rotate_def)
next
  case False
  have "int (bs_bits b) \<le> 0x40000000" using assms by (auto simp: bs_valid_def)
  from bit_rotate_copy_eq [OF assms order_refl this, of n] obtain b' where b':
    "bit_rotate_copy b n (int (bs_bits b)) = Some b'" "bs_valid b'" "bs_bits b' = bs_bits b"
    "bs_set b' = (\<lambda>i. nat ((int i + n) mod int (bs_bits b))) ` bs_set b" by auto
  then have "bit_rotate b n = Some b'"
    using False assms by (simp add: bit_rotate_def bit_size_eq bit_copybits_eq)
  with b' show ?thesis by auto
qed

subsubsection \<open>The n-th set bit of a word\<close>

definition wrank :: "u64 \<Rightarrow> nat \<Rightarrow> nat" where
  "wrank w k = card {i. i < k \<and> bit w i}"

lemma wrank_0 [simp]: "wrank w 0 = 0"
  by (simp add: wrank_def)

lemma wrank_Suc: "wrank w (Suc k) = wrank w k + (if bit w k then 1 else 0)"
proof -
  have "{i. i < Suc k \<and> bit w i} = (if bit w k then insert k {i. i < k \<and> bit w i} else {i. i < k \<and> bit w i})"
    by (auto simp: less_Suc_eq)
  then show ?thesis by (simp add: wrank_def)
qed

lemma wrank_mask:
  assumes "\<And>m. bit msk m \<longleftrightarrow> m < k" "k \<le> 64"
  shows "unat (hweight (w AND msk)) = wrank w k"
proof -
  have "{i. i < 64 \<and> bit (w AND msk) i} = {i. i < k \<and> bit w i}"
    using assms(2) by (auto simp: bit_and_iff assms(1))
  then show ?thesis by (simp add: hweight_card wrank_def)
qed

lemma ffsn_loop_eq:
  assumes "\<And>m. bit msk m \<longleftrightarrow> m < base + 2 ^ j" "base + 2 * 2 ^ j \<le> 64"
    and "wrank w base < n" "n \<le> wrank w (base + 2 * 2 ^ j)"
  shows "\<exists>p. ffsn_loop w n (2 ^ j) msk base = p \<and> p < 64 \<and> bit w p \<and> wrank w p + 1 = n"
  using assms
proof (induction j arbitrary: msk base)
  case 0
  have r: "unat (hweight (w AND msk)) = wrank w (Suc base)"
    using wrank_mask [of msk "Suc base" w] 0 by simp
  have e: "ffsn_loop w n 0 m' b' = b'" for m' b' by (simp add: ffsn_loop.simps)
  have l: "ffsn_loop w n 1 msk base = (if n > wrank w (Suc base) then base + 1 else base)"
    by (subst ffsn_loop.simps) (simp add: r e)
  show ?case
  proof (cases "n > wrank w (Suc base)")
    case True
    with 0 l show ?thesis
      using wrank_Suc [of w "Suc base"] by (auto split: if_splits)
  next
    case False
    with 0 l show ?thesis
      using wrank_Suc [of w base] by (auto split: if_splits)
  qed
next
  case (Suc j)
  have r: "unat (hweight (w AND msk)) = wrank w (base + 2 ^ Suc j)"
    using wrank_mask [of msk "base + 2 ^ Suc j" w] Suc.prems by simp
  have half: "2 ^ Suc j div 2 = (2 ^ j :: nat)" "(2::nat) ^ Suc j = 2 ^ j + 2 ^ j" by simp_all
  show ?case
  proof (cases "n > wrank w (base + 2 ^ Suc j)")
    case True
    have "bit (msk OR push_bit (2 ^ j) msk) m \<longleftrightarrow> m < base + 2 ^ Suc j + 2 ^ j" for m
    proof -
      have "bit (msk OR push_bit (2 ^ j) msk) m \<longleftrightarrow>
          m < base + (h + h) \<or> h \<le> m \<and> m < 64 \<and> m - h < base + (h + h)" if "h = 2 ^ j" for h
        using that by (simp add: bit_or_iff bit_push_bit_iff Suc.prems(1) conj_commute mult_2)
      from this [OF refl] show ?thesis using Suc.prems(2) unfolding half(2) by (cases "2 ^ j \<le> m") auto
    qed
    then have "\<exists>p. ffsn_loop w n (2 ^ j) (msk OR push_bit (2 ^ j) msk) (base + 2 ^ Suc j) = p
        \<and> p < 64 \<and> bit w p \<and> wrank w p + 1 = n"
      using Suc.prems True by (intro Suc.IH) (auto simp: half(2) algebra_simps)
    with True r show ?thesis unfolding ffsn_loop.simps [of w n "2 ^ Suc j"] half(1) by simp
  next
    case False
    have "bit (drop_bit (2 ^ j) msk) m \<longleftrightarrow> m < base + 2 ^ j" for m
      by (simp add: bit_drop_bit_eq Suc.prems(1)) (simp add: add.commute)
    then have "\<exists>p. ffsn_loop w n (2 ^ j) (drop_bit (2 ^ j) msk) base = p
        \<and> p < 64 \<and> bit w p \<and> wrank w p + 1 = n"
      using Suc.prems False by (intro Suc.IH) (auto simp: half(2) algebra_simps)
    with False r show ?thesis unfolding ffsn_loop.simps [of w n "2 ^ Suc j"] half(1) by simp
  qed
qed

lemma ffsn_eq:
  assumes "0 < n" "n \<le> wrank w 64"
  obtains p where "ffsn w n = p" "p < 64" "bit w p" "wrank w p + 1 = n"
proof -
  have "bit (0xFFFFFFFF :: u64) m \<longleftrightarrow> m < 32" for m
  proof -
    have "(0xFFFFFFFF :: u64) = push_bit 32 1 - 1" by (simp add: push_bit_eq_mult)
    then show ?thesis using bit_low_mask [of 32 m] by simp
  qed
  with ffsn_loop_eq [of "0xFFFFFFFF" 0 5 w n] assms that show ?thesis by (auto simp: ffsn_def)
qed

subsubsection \<open>Ranks\<close>

text \<open>\<open>below b k\<close>: the set bits before position \<open>k\<close>; \<open>bs_rank\<close> their number. The set bit \<open>p\<close> is
  the n-th one when \<open>bs_rank b p + 1 = n\<close>.\<close>

definition below :: "bitstr \<Rightarrow> nat \<Rightarrow> nat set" where
  "below b k = {i \<in> bs_set b. i < k}"

definition bs_rank :: "bitstr \<Rightarrow> nat \<Rightarrow> nat" where
  "bs_rank b k = card (below b k)"

definition is_nth_set :: "bitstr \<Rightarrow> nat \<Rightarrow> nat \<Rightarrow> bool" where
  "is_nth_set b n p \<longleftrightarrow> p \<in> bs_set b \<and> bs_rank b p + 1 = n"

definition first_set :: "bitstr \<Rightarrow> nat \<Rightarrow> nat set" where
  "first_set b n = {i \<in> bs_set b. bs_rank b i < n}"

lemma finite_below [simp]: "finite (below b k)"
  by (simp add: below_def)

lemma below_all: "bs_bits b \<le> k \<Longrightarrow> below b k = bs_set b"
  by (auto simp: below_def bs_set_def)

lemma rank_all: "bs_bits b \<le> k \<Longrightarrow> bs_rank b k = card (bs_set b)"
  by (simp add: bs_rank_def below_all)

lemma rank_0 [simp]: "bs_rank b 0 = 0"
  by (simp add: bs_rank_def below_def)

lemma rank_mono: "i \<le> k \<Longrightarrow> bs_rank b i \<le> bs_rank b k"
  unfolding bs_rank_def by (rule card_mono) (auto simp: below_def)

lemma rank_le_card: "bs_rank b k \<le> card (bs_set b)"
  unfolding bs_rank_def by (rule card_mono) (auto simp: below_def)

lemma rank_Suc: "bs_rank b (Suc k) = bs_rank b k + (if k \<in> bs_set b then 1 else 0)"
proof -
  have "below b (Suc k) = (if k \<in> bs_set b then insert k (below b k) else below b k)"
    by (auto simp: below_def less_Suc_eq)
  moreover have "k \<notin> below b k" by (simp add: below_def)
  ultimately show ?thesis by (simp add: bs_rank_def)
qed

lemma rank_less: "i \<in> bs_set b \<Longrightarrow> i < k \<Longrightarrow> bs_rank b i < bs_rank b k"
  using rank_mono [of "Suc i" k b] rank_Suc [of b i] by auto

lemma is_nth_unique: "is_nth_set b n p \<Longrightarrow> is_nth_set b n q \<Longrightarrow> p = q"
  unfolding is_nth_set_def using rank_less [of p b q] rank_less [of q b p]
  by (metis linorder_neqE_nat less_irrefl add_right_cancel)

lemma first_set_all: "card (bs_set b) \<le> n \<Longrightarrow> first_set b n = bs_set b"
  using rank_less [of _ b "bs_bits b"] rank_all [of b "bs_bits b"]
  by (fastforce simp: first_set_def bs_set_def)

lemma first_set_below:
  assumes "bs_rank b k = n"
  shows "first_set b n = below b k"
proof (rule set_eqI)
  fix i
  show "i \<in> first_set b n \<longleftrightarrow> i \<in> below b k"
    using assms rank_less [of i b k] rank_mono [of k i b]
    by (cases "i < k") (auto simp: first_set_def below_def)
qed

lemma card_first_set: "n \<le> card (bs_set b) \<Longrightarrow> card (first_set b n) = n"
proof -
  assume n: "n \<le> card (bs_set b)"
  have "\<exists>k. bs_rank b k = n" if "n \<le> bs_rank b m" for m
    using that
  proof (induction m)
    case (Suc m)
    show ?case
    proof (cases "n \<le> bs_rank b m")
      case False
      then have "bs_rank b (Suc m) = n" using Suc.prems rank_Suc [of b m] by (auto split: if_splits)
      then show ?thesis by blast
    qed (rule Suc.IH)
  qed (auto intro: exI [of _ 0])
  then obtain k where "bs_rank b k = n" using n rank_all [of b "bs_bits b"] by (metis order_refl)
  then show ?thesis by (simp add: first_set_below bs_rank_def [symmetric])
qed

text \<open>The bits of one block, as \<open>bit_nth_set\<close> masks them.\<close>

definition blk_mask :: "bitstr \<Rightarrow> nat \<Rightarrow> u64" where
  "blk_mask b k = (if bit_word k = bit_word (bs_bits b) then bit_nmask (bs_bits b) else -1)"

lemma blk_word:
  assumes "bs_valid b" "k mod 64 = 0" "k < bs_bits b"
  shows "bit (bs_words b ! (k div 64) AND blk_mask b k) m \<longleftrightarrow> m < 64 \<and> k + m \<in> bs_set b"
proof (cases "m < 64")
  case False
  then show ?thesis using bit_u64_bound by blast
next
  case True
  have w: "k div 64 < length (bs_words b)" using assms by simp
  have "bit (blk_mask b k) m \<longleftrightarrow> k + m < bs_bits b"
  proof (cases "k div 64 = bs_bits b div 64")
    case same: True
    then have "bs_bits b - bs_bits b mod 64 = k"
      using assms(2) by (simp add: minus_mod_eq_mult_div) auto
    with same True show ?thesis using nmask_tail [of m "bs_bits b"] by (simp add: blk_mask_def bit_word_eq)
  next
    case False
    then have "k + 64 \<le> bs_bits b" using div_64_iff [OF assms(2), of "bs_bits b"] assms(3) by auto
    with False True show ?thesis by (simp add: blk_mask_def bit_word_eq)
  qed
  then show ?thesis using block_word [OF assms(2) w True] True by (auto simp: bit_and_iff bs_set_def)
qed

lemma rank_blk:
  assumes "bs_valid b" "k mod 64 = 0" "k < bs_bits b" "m \<le> 64"
  shows "bs_rank b k + wrank (bs_words b ! (k div 64) AND blk_mask b k) m = bs_rank b (k + m)"
  using assms(4)
proof (induction m)
  case (Suc m)
  then show ?case using blk_word [OF assms(1-3), of m] rank_Suc [of b "k + m"] by (simp add: wrank_Suc)
qed simp

lemma hweight_wrank: "unat (hweight w) = wrank w 64"
  by (simp add: hweight_card wrank_def)

subsubsection \<open>The n-th set bit\<close>

definition lst_ok :: "bitstr \<Rightarrow> nat \<Rightarrow> (nat \<times> nat) option \<Rightarrow> bool" where
  "lst_ok b k l \<longleftrightarrow> (case l of None \<Rightarrow> bs_rank b k = 0
     | Some (lb, lc) \<Rightarrow> lb mod 64 = 0 \<and> lb < k \<and> lb < bs_bits b \<and> 0 < lc \<and> bs_rank b lb + lc = bs_rank b (lb + 64)
         \<and> bs_rank b (lb + 64) = bs_rank b k)"

lemma nth_loop_eq:
  assumes "bs_valid b" "k mod 64 = 0" "0 < n" "lst_ok b k l"
  shows "\<exists>k' m l'. nth_loop b n k l = Some (k', m, l') \<and> 0 < m \<and>
     (if n + bs_rank b k \<le> card (bs_set b)
      then k' mod 64 = 0 \<and> k' < bs_bits b \<and> m + bs_rank b k' = n + bs_rank b k
           \<and> m + bs_rank b k' \<le> bs_rank b (k' + 64) \<and> (\<exists>c. l' = Some (k', c))
      else bs_bits b \<le> k' \<and> lst_ok b k' l')"
  using assms
proof (induction b n k l rule: nth_loop.induct)
  case (1 b n k l)
  note prems = "1.prems"
  show ?case
  proof (cases "k < bs_bits b")
    case True
    let ?w = "bs_words b ! (k div 64)"
    have get: "bs_get b (bit_word k) = Some ?w" using prems(1) True by (simp add: bs_get_word)
    define c where "c = unat (hweight (?w AND blk_mask b k))"
    have c: "bs_rank b k + c = bs_rank b (k + 64)"
      using rank_blk [OF prems(1,2) True, of 64] by (simp add: c_def hweight_wrank)
    let ?l = "if c > 0 then Some (k, c) else l"
    have ok: "lst_ok b (k + 64) ?l"
      using prems(2,4) c True by (auto simp: lst_ok_def split: option.splits)
    have unf: "nth_loop b n k l = (if n \<le> c then Some (k, n, ?l) else nth_loop b (n - c) (k + 64) ?l)"
      using True get by (simp add: nth_loop.simps [of b n k l] c_def blk_mask_def Let_def)
    show ?thesis
    proof (cases "n \<le> c")
      case le: True
      have "n + bs_rank b k \<le> card (bs_set b)" using le c rank_le_card [of b "k + 64"] by simp
      with le unf c prems(2,3) True show ?thesis by simp
    next
      case False
      have eq: "n - c + bs_rank b (k + 64) = n + bs_rank b k" using c False by simp
      have "\<exists>k' m l'. nth_loop b (n - c) (k + 64) ?l = Some (k', m, l') \<and> 0 < m \<and>
       (if n - c + bs_rank b (k + 64) \<le> card (bs_set b)
        then k' mod 64 = 0 \<and> k' < bs_bits b \<and> m + bs_rank b k' = n - c + bs_rank b (k + 64)
           \<and> m + bs_rank b k' \<le> bs_rank b (k' + 64) \<and> (\<exists>c. l' = Some (k', c))
        else bs_bits b \<le> k' \<and> lst_ok b k' l')"
        by (rule "1.IH" [OF True get refl c_def [unfolded blk_mask_def] refl False])
          (use prems ok False in auto)
      then show ?thesis unfolding eq using unf False by simp
    qed
  next
    case False
    then have "bs_rank b k = card (bs_set b)" by (simp add: rank_all)
    with False prems show ?thesis by (simp add: nth_loop.simps [of b n k l])
  qed
qed

lemma ffsn_blk:
  assumes "bs_valid b" "k mod 64 = 0" "k < bs_bits b" "0 < m" "m + bs_rank b k \<le> bs_rank b (k + 64)"
  shows "is_nth_set b (m + bs_rank b k) (k + ffsn (bs_words b ! (k div 64) AND blk_mask b k) m)"
proof -
  let ?w = "bs_words b ! (k div 64) AND blk_mask b k"
  have "m \<le> wrank ?w 64" using rank_blk [OF assms(1-3), of 64] assms(5) by simp
  with assms(4) obtain p where p: "ffsn ?w m = p" "p < 64" "bit ?w p" "wrank ?w p + 1 = m"
    by (rule ffsn_eq)
  moreover have "bs_rank b k + wrank ?w p = bs_rank b (k + p)"
    using rank_blk [OF assms(1-3), of p] p(2) by simp
  ultimately show ?thesis using blk_word [OF assms(1-3), of p] by (auto simp: is_nth_set_def)
qed

lemma bit_nth_set_eq:
  assumes "bs_valid b" "0 < n"
  shows "\<exists>v. bit_nth_set b n = Some v \<and>
     (if bs_set b = {} then v = -1
      else \<exists>p. v = int p \<and> is_nth_set b (min (nat n) (card (bs_set b))) p)"
proof -
  have "lst_ok b 0 None" by (simp add: lst_ok_def)
  from nth_loop_eq [OF assms(1) _ _ this, of "nat n"] assms(2)
  obtain k m l where loop: "nth_loop b (nat n) 0 None = Some (k, m, l)" "0 < m"
    "if nat n \<le> card (bs_set b) then k mod 64 = 0 \<and> k < bs_bits b \<and> m + bs_rank b k = nat n
       \<and> m + bs_rank b k \<le> bs_rank b (k + 64) \<and> (\<exists>c. l = Some (k, c))
     else bs_bits b \<le> k \<and> lst_ok b k l" by (auto simp only: rank_0 add_0_right mod_0 zero_less_nat_eq)
  show ?thesis
  proof (cases "nat n \<le> card (bs_set b)")
    case True
    then have k: "k mod 64 = 0" "k < bs_bits b" "m + bs_rank b k = nat n" "m + bs_rank b k \<le> bs_rank b (k + 64)"
      "\<exists>c. l = Some (k, c)" using loop(3) by auto
    have "bs_set b \<noteq> {}" using True assms(2) by auto
    with ffsn_blk [OF assms(1) k(1,2) loop(2) k(4)] k True loop(1) assms show ?thesis
      by (auto simp: bit_nth_set_def bs_get_word blk_mask_def Let_def min_absorb1)
  next
    case False
    then have k: "bs_bits b \<le> k" "lst_ok b k l" using loop(3) by auto
    then have all: "bs_rank b k = card (bs_set b)" by (simp add: rank_all)
    show ?thesis
    proof (cases l)
      case None
      with k(2) all have "bs_set b = {}" by (simp add: lst_ok_def)
      with None loop(1) assms show ?thesis by (simp add: bit_nth_set_def)
    next
      case (Some x)
      obtain lb lc where x: "x = (lb, lc)" by fastforce
      have lb: "lb mod 64 = 0" "lb < bs_bits b" "0 < lc" "bs_rank b lb + lc = card (bs_set b)"
        "bs_rank b (lb + 64) = card (bs_set b)" "lb \<noteq> k"
        using k Some x all by (auto simp: lst_ok_def)
      then have "lc + bs_rank b lb \<le> bs_rank b (lb + 64)" by simp
      from ffsn_blk [OF assms(1) lb(1,2,3) this] lb have
        "is_nth_set b (min (nat n) (card (bs_set b))) (lb + ffsn (bs_words b ! (lb div 64) AND blk_mask b lb) lc)"
        using False by (simp add: min_absorb2 add.commute)
      moreover have "bs_set b \<noteq> {}" using lb(3,4) by auto
      moreover have "bit_nth_set b n =
          Some (int (lb + ffsn (bs_words b ! (lb div 64) AND blk_mask b lb) lc))"
        using Some x lb(2,6) loop(1) assms
        by (simp add: bit_nth_set_def bs_get_word Let_def flip: blk_mask_def)
      ultimately show ?thesis by (simp only: if_False) blast
    qed
  qed
qed

subsubsection \<open>The first n set bits\<close>

lemma first_set_nth: "is_nth_set b n p \<Longrightarrow> first_set b n = below b (Suc p)"
  using rank_Suc [of b p] by (intro first_set_below) (auto simp: is_nth_set_def)

lemma bit_pick_firstn_eq:
  assumes "bs_valid b" "0 < n"
  shows "\<exists>b'. bit_pick_firstn b n = Some b' \<and> bs_valid b' \<and> bs_bits b' = bs_bits b
     \<and> bs_set b' = first_set b (nat n)"
proof -
  obtain v where v: "bit_nth_set b n = Some v" "if bs_set b = {} then v = -1
      else \<exists>p. v = int p \<and> is_nth_set b (min (nat n) (card (bs_set b))) p"
    using bit_nth_set_eq [OF assms] by auto
  show ?thesis
  proof (cases "bs_set b = {}")
    case True
    with v assms show ?thesis by (auto simp: bit_pick_firstn_def first_set_def)
  next
    case False
    then obtain p where p: "v = int p" "is_nth_set b (min (nat n) (card (bs_set b))) p" using v by auto
    then have pin: "p \<in> bs_set b" "p < bs_bits b" by (auto simp: is_nth_set_def bs_set_def)
    have first: "first_set b (nat n) = below b (Suc p)"
      using first_set_nth [OF p(2)] first_set_all [of b "nat n"] first_set_all [of b "card (bs_set b)"]
      by (cases "nat n \<le> card (bs_set b)") (auto simp: min_def)
    show ?thesis
    proof (cases "Suc p = bs_bits b")
      case True
      then have "below b (Suc p) = bs_set b" by (simp add: below_all)
      with True v(1) p(1) assms first show ?thesis by (auto simp: bit_pick_firstn_def)
    next
      case last: False
      let ?b = "bs_fill b (int p + 1) (int (bs_bits b) - 1 + 1) False"
      have "bit_nclear b (int p + 1) (int (bs_bits b) - 1) = Some ?b"
        using assms(1) pin(2) last by (intro bit_nclear_eq) auto
      moreover have "bs_set ?b = below b (Suc p)"
        using assms(1) by (subst bs_set_fill) (auto simp: below_def bs_set_def)
      ultimately show ?thesis
        using last v(1) p(1) assms(1) first by (auto simp: bit_pick_firstn_def)
    qed
  qed
qed

lemma pick_bits_eq:
  assumes "bs_valid b" "bs_valid new" "bs_bits new = bs_bits b" "bs_set new = below b k"
    "count = bs_rank b k" "count \<le> nbits"
  shows "\<exists>k' c' new'. pick_bits b nbits k count new = Some (k', c', new') \<and> bs_valid new'
     \<and> bs_bits new' = bs_bits b \<and> bs_set new' = below b k' \<and> c' = bs_rank b k' \<and> c' \<le> nbits
     \<and> (bs_bits b \<le> k' \<or> c' = nbits)"
  using assms
proof (induction b nbits k count new rule: pick_bits.induct)
  case (1 b nbits k count new)
  note prems = "1.prems"
  show ?case
  proof (cases "k < bs_bits b \<and> count < nbits")
    case True
    have t: "bit_test b k = Some (bs_bit b k)" using prems(1) True by (simp add: bit_test_eq)
    have mem: "k \<in> bs_set b \<longleftrightarrow> bs_bit b k" using True by (simp add: bs_set_def)
    have bel: "below b (k + 1) = (if bs_bit b k then insert k (below b k) else below b k)"
      using mem by (auto simp: below_def less_Suc_eq)
    have rk: "bs_rank b (k + 1) = bs_rank b k + (if bs_bit b k then 1 else 0)"
      using rank_Suc [of b k] mem by simp
    show ?thesis
    proof (cases "bs_bit b k")
      case set: True
      obtain n' where n': "bit_set new (int k) = Some n'" "bs_valid n'" "bs_bits n' = bs_bits new"
        "bs_set n' = insert k (bs_set new)"
        using bit_set_insert [of new k] prems(2,3) True by auto
      from "1.IH"(1) [OF True t set n'(1)] show ?thesis
        using n' prems bel rk set True t by (simp add: pick_bits.simps [of b nbits k])
    next
      case False
      from "1.IH"(2) [OF True t False] show ?thesis
        using prems bel rk False True t by (simp add: pick_bits.simps [of b nbits k])
    qed
  next
    case False
    with prems show ?thesis by (auto simp: pick_bits.simps [of b nbits k])
  qed
qed

lemma pick_loop_eq:
  assumes "bs_valid b" "bs_valid new" "bs_bits new = bs_bits b" "bs_set new = below b k"
    "count = bs_rank b k" "count \<le> nbits" "k mod 64 = 0"
  shows "\<exists>k' c' new'. pick_loop b nbits k count new = Some (k', c', new') \<and> bs_valid new'
     \<and> bs_bits new' = bs_bits b \<and> bs_set new' = below b k' \<and> c' = bs_rank b k' \<and> c' \<le> nbits
     \<and> (bs_bits b \<le> k' \<or> c' = nbits)"
  using assms
proof (induction b nbits k count new rule: pick_loop.induct)
  case (1 b nbits k count new)
  note prems = "1.prems"
  show ?case
  proof (cases "k < bs_bits b \<and> count < nbits")
    case True
    let ?w = "bs_words b ! (k div 64)"
    have wl: "k div 64 < length (bs_words b)" "k div 64 < length (bs_words new)"
      using prems(1-3) True by (auto simp del: bs_valid_word intro!: bs_valid_word)
    note get = bs_get_word [OF wl(1)]
    have m: "(k + 64) mod 64 = 0" using prems(7) by simp
    note bw = block_word [OF prems(7) wl(1)]
    show ?thesis
    proof (cases "?w = 0")
      case z: True
      then have "\<not> bs_bit b j" if "k \<le> j" "j < k + 64" for j
        using bw [of "j - k"] that by simp
      then have "i < k" if "bs_bit b i" "i < k + 64" for i
        using that not_le by blast
      then have bel: "below b (k + 64) = below b k" by (auto simp: below_def bs_set_def)
      from "1.IH"(1) [OF True get z] show ?thesis
        using z True get prems m bel by (simp add: pick_loop.simps [of b nbits k] bs_rank_def)
    next
      case nz: False
      show ?thesis
      proof (cases "count + unat (hweight ?w) \<le> nbits \<and> k + 64 - 1 < bs_bits b")
        case whole: True
        let ?new = "bs_of new (\<lambda>j. if j div 64 = k div 64 then bit ?w (j mod 64) else bs_bit new j)"
        have put: "bs_put new (bit_word k) ?w = Some ?new" by (rule bs_put_word [OF wl(2)])
        have blk: "(if j div 64 = k div 64 then bit ?w (j mod 64) else bs_bit new j)
            \<longleftrightarrow> bs_bit b j \<and> j < k + 64" if "j < bs_bits b" for j
        proof (cases "j div 64 = k div 64")
          case same: True
          then have j: "k \<le> j" "j < k + 64" using div_64_iff [OF prems(7)] by auto
          then show ?thesis using same bw [of "j - k"] mod_64_diff [OF prems(7) j] by simp
        next
          case other: False
          have "bs_bit new j \<longleftrightarrow> j \<in> below b k"
            using prems(4) that prems(3) by (auto simp: bs_set_def)
          then show ?thesis using other that div_64_iff [OF prems(7), of j] by (auto simp: below_def bs_set_def)
        qed
        have set: "bs_set ?new = below b (k + 64)"
          unfolding bs_set_bs_of [OF prems(2)] prems(3) using blk by (simp add: below_def bs_set_def cong: conj_cong)
        have hw: "unat (hweight ?w) = card {i. k \<le> i \<and> i < k + 64 \<and> i \<in> bs_set b}"
          by (rule hweight_block) (use whole bw in \<open>auto simp: bs_set_def\<close>)
        have bel: "below b (k + 64) = below b k \<union> {i. k \<le> i \<and> i < k + 64 \<and> i \<in> bs_set b}"
          by (auto simp: below_def)
        have rk: "bs_rank b (k + 64) = count + unat (hweight ?w)"
          unfolding bs_rank_def bel prems(5) hw
          by (rule card_Un_disjoint) (auto simp: below_def)
        from "1.IH"(2) [OF True get nz refl whole put] show ?thesis
          using nz True get put prems m set rk whole by (simp add: pick_loop.simps [of b nbits k] Let_def)
      next
        case False
        then have "pick_loop b nbits k count new = pick_bits b nbits k count new"
          using nz True get by (auto simp: pick_loop.simps [of b nbits k] Let_def)
        with pick_bits_eq [OF prems(1-6)] show ?thesis by simp
      qed
    qed
  next
    case False
    with prems show ?thesis by (auto simp: pick_loop.simps [of b nbits k])
  qed
qed

lemma bit_pick_cnt_eq:
  assumes "bs_valid b"
  shows "if nbits \<le> card (bs_set b)
     then \<exists>b'. bit_pick_cnt b nbits = Some (Some b') \<and> bs_valid b' \<and> bs_bits b' = bs_bits b
            \<and> bs_set b' = first_set b nbits
     else bit_pick_cnt b nbits = Some None"
proof (cases "bs_bits b < nbits")
  case True
  then show ?thesis using assms card_bs_set_le [of b] by (simp add: bit_pick_cnt_def)
next
  case False
  have "bs_bits b \<le> 0x40000000" using assms by (simp add: bs_valid_def)
  then obtain new where new: "bit_alloc (int (bs_bits b)) = Some new" "bs_valid new"
    "bs_bits new = bs_bits b" "bs_set new = {}"
    using bit_alloc_eq [OF bs_valid_pos [OF assms]] by (fastforce simp: bs_set_def)
  have b0: "below b 0 = {}" by (simp add: below_def)
  obtain k c t where t: "pick_loop b nbits 0 0 new = Some (k, c, t)" "bs_valid t" "bs_bits t = bs_bits b"
    "bs_set t = below b k" "c = bs_rank b k" "c \<le> nbits" "bs_bits b \<le> k \<or> c = nbits"
    using pick_loop_eq [OF assms new(2,3), of 0 0 nbits] b0 new(4) by auto
  have run: "bit_pick_cnt b nbits = Some (if c < nbits then None else Some t)"
    using False new t(1) assms by (simp add: bit_pick_cnt_def bit_size_eq)
  show ?thesis
  proof (cases "nbits \<le> card (bs_set b)")
    case True
    then have "c = nbits" using t(5,6,7) rank_all [of b k] by auto
    with True run t first_set_below [of b k nbits] show ?thesis by auto
  next
    case less: False
    then have "c < nbits" using t(5) rank_le_card [of b k] by simp
    with less run show ?thesis by simp
  qed
qed

subsubsection \<open>Position of a set bit, consolidation\<close>

lemma get_bit_num_loop_eq:
  assumes "bs_valid b" "cnt = bs_rank b k" "\<And>i. i \<in> bs_set b \<Longrightarrow> i < k \<Longrightarrow> int (bs_rank b i) \<noteq> pos"
  shows "\<exists>p. get_bit_num_loop b pos k cnt = Some p \<and>
    (if p < bs_bits b then p \<in> bs_set b \<and> int (bs_rank b p) = pos
     else \<forall>i \<in> bs_set b. int (bs_rank b i) \<noteq> pos)"
  using assms
proof (induction b pos k cnt rule: get_bit_num_loop.induct)
  case (1 b pos k cnt)
  note prems = "1.prems"
  show ?case
  proof (cases "k < bs_bits b")
    case True
    have t: "bit_test b k = Some (bs_bit b k)" using prems(1) True by (simp add: bit_test_eq)
    have mem: "k \<in> bs_set b \<longleftrightarrow> bs_bit b k" using True by (simp add: bs_set_def)
    note rk = rank_Suc [of b k, unfolded mem]
    show ?thesis
    proof (cases "bs_bit b k")
      case set: True
      show ?thesis
      proof (cases "int cnt = pos")
        case True
        with \<open>k < bs_bits b\<close> set t prems(2) mem show ?thesis
          by (simp add: get_bit_num_loop.simps [of b pos k])
      next
        case False
        have "i < k + 1 \<Longrightarrow> i \<in> bs_set b \<Longrightarrow> int (bs_rank b i) \<noteq> pos" for i
          using prems(2,3) False by (cases "i = k") auto
        with "1.IH"(1) [OF True t set False] True t set False prems rk show ?thesis
          by (simp add: get_bit_num_loop.simps [of b pos k])
      qed
    next
      case False
      have "i < k + 1 \<Longrightarrow> i \<in> bs_set b \<Longrightarrow> int (bs_rank b i) \<noteq> pos" for i
        using prems(3) False mem by (cases "i = k") auto
      with "1.IH"(2) [OF True t False] True t False prems rk show ?thesis
        by (simp add: get_bit_num_loop.simps [of b pos k])
    qed
  next
    case False
    with prems(3) show ?thesis by (force simp: get_bit_num_loop.simps [of b pos k] bs_set_def)
  qed
qed

lemma bit_get_bit_num_eq:
  assumes "bs_valid b" "pos \<le> int (bs_bits b)"
  shows "\<exists>v. bit_get_bit_num b pos = Some v \<and>
    (if 0 \<le> pos \<and> nat pos < card (bs_set b) then \<exists>p. v = int p \<and> is_nth_set b (nat pos + 1) p else v = -1)"
proof -
  obtain p where p: "get_bit_num_loop b pos 0 0 = Some p"
    "if p < bs_bits b then p \<in> bs_set b \<and> int (bs_rank b p) = pos
     else \<forall>i \<in> bs_set b. int (bs_rank b i) \<noteq> pos"
    using get_bit_num_loop_eq [OF assms(1), of 0 0 pos] by auto
  show ?thesis
  proof (cases "p < bs_bits b")
    case True
    then have "nat pos < card (bs_set b)"
      using p(2) rank_less [of p b "bs_bits b"] rank_all [of b "bs_bits b"] by auto
    with True p assms show ?thesis by (auto simp: bit_get_bit_num_def is_nth_set_def)
  next
    case False
    have "\<not> (0 \<le> pos \<and> nat pos < card (bs_set b))"
    proof
      assume h: "0 \<le> pos \<and> nat pos < card (bs_set b)"
      then have "card (first_set b (nat pos)) \<noteq> card (first_set b (Suc (nat pos)))"
        by (simp add: card_first_set)
      then have "first_set b (nat pos) \<noteq> first_set b (Suc (nat pos))" by metis
      then obtain i where "i \<in> bs_set b" "bs_rank b i = nat pos"
        by (auto simp: first_set_def less_Suc_eq)
      with False p(2) h show False by auto
    qed
    with False p assms show ?thesis by (auto simp: bit_get_bit_num_def)
  qed
qed

lemma bit_consolidate_eq:
  assumes "bs_valid b"
  shows "\<exists>b'. bit_consolidate b = Some b' \<and> bs_valid b' \<and> bs_bits b' = bs_bits b
     \<and> bs_set b' = {..<card (bs_set b)}"
proof -
  define c where "c = card (bs_set b)"
  have cle: "c \<le> bs_bits b" by (simp add: c_def card_bs_set_le)
  show ?thesis
  proof (cases "c \<noteq> 0 \<and> c < bs_bits b")
    case True
    let ?b = "bs_fill b (int c) (int (bs_bits b) - 1 + 1) False"
    let ?b2 = "bs_fill ?b 0 (int c - 1 + 1) True"
    have 1: "bit_nclear b (int c) (int (bs_bits b) - 1) = Some ?b"
      using assms True by (intro bit_nclear_eq) auto
    have 2: "bit_nset ?b 0 (int c - 1) = Some ?b2"
      using assms True by (intro bit_nset_eq) auto
    have "bs_set ?b2 = {..<c}"
      using assms True by (subst bs_set_fill, simp, subst bs_set_fill, simp) (auto simp: bs_set_def)
    moreover have "bit_consolidate b = Some ?b2"
      using assms True 1 2 by (simp add: bit_consolidate_def bit_set_count_eq bit_size_eq flip: c_def)
    ultimately show ?thesis using assms by (simp add: c_def)
  next
    case False
    then have "bs_set b = {..<c}"
    proof (cases "c = 0")
      case False
      with \<open>\<not> (c \<noteq> 0 \<and> c < bs_bits b)\<close> cle have "card (bs_set b) = card {..<bs_bits b}" by (simp add: c_def)
      then have "bs_set b = {..<bs_bits b}" by (intro card_subset_eq bs_set_subset) auto
      with \<open>\<not> (c \<noteq> 0 \<and> c < bs_bits b)\<close> False cle show ?thesis by simp
    qed (simp add: c_def)
    moreover have "bit_consolidate b = Some b"
      using False assms by (auto simp: bit_consolidate_def bit_set_count_eq bit_size_eq simp flip: c_def)
    ultimately show ?thesis using assms by (simp add: c_def)
  qed
qed

end
