(* ===== verification/Bitstring_Search.thy ===== *)
theory Bitstring_Search
  imports Bitstring
begin

text \<open>
  src/common/bitstring.c, third part: the searches for the first or last set or clear bit and for
  runs of set or clear bits. The word searches are those of a little-endian build with
  \<^verbatim>\<open>__builtin_ctzll\<close> and \<^verbatim>\<open>__builtin_clzll\<close>. Every search returns a position or \<open>-1\<close>; the contracts
  are \<open>is_first\<close> and \<open>is_last\<close> of the prelude.
\<close>

subsection \<open>Word searches\<close>

text \<open>\<^verbatim>\<open>__builtin_ctzll\<close> and \<^verbatim>\<open>__builtin_clzll\<close>, defined for non-zero words.\<close>

function ctz_from :: "u64 \<Rightarrow> nat \<Rightarrow> nat" where
  "ctz_from w i = (if i < 64 \<and> \<not> bit w i then ctz_from w (i + 1) else i)"
  by pat_completeness auto
termination
  by (relation "measure (\<lambda>(w, i). 64 - i)") auto

declare ctz_from.simps [simp del]

definition ctzll :: "u64 \<Rightarrow> nat" where
  "ctzll w = ctz_from w 0"

fun clz_from :: "u64 \<Rightarrow> nat \<Rightarrow> nat" where
  "clz_from w 0 = 64"
| "clz_from w (Suc i) = (if bit w i then 63 - i else clz_from w i)"

definition clzll :: "u64 \<Rightarrow> nat" where
  "clzll w = clz_from w 64"

lemma ctz_from_eq:
  assumes "i \<le> j" "bit w j" "j < 64" "\<And>m. i \<le> m \<Longrightarrow> m < j \<Longrightarrow> \<not> bit w m"
  shows "ctz_from w i = j"
  using assms
proof (induction w i rule: ctz_from.induct)
  case (1 w i)
  show ?case
  proof (cases "i = j")
    case True
    with 1 show ?thesis by (simp add: ctz_from.simps [of w j])
  next
    case False
    with 1 show ?thesis by (simp add: ctz_from.simps [of w i])
  qed
qed

lemma ctzll_eq: "bit w j \<Longrightarrow> (\<And>m. m < j \<Longrightarrow> \<not> bit w m) \<Longrightarrow> ctzll w = j"
  unfolding ctzll_def by (rule ctz_from_eq) (auto dest: bit_u64_bound)

lemma clz_from_eq:
  "j < i \<Longrightarrow> i \<le> 64 \<Longrightarrow> bit w j \<Longrightarrow> (\<And>m. j < m \<Longrightarrow> m < i \<Longrightarrow> \<not> bit w m) \<Longrightarrow> clz_from w i = 63 - j"
  by (induction i) (auto simp: less_Suc_eq)

lemma clzll_eq: "bit w j \<Longrightarrow> (\<And>m. j < m \<Longrightarrow> m < 64 \<Longrightarrow> \<not> bit w m) \<Longrightarrow> clzll w = 63 - j"
  unfolding clzll_def by (rule clz_from_eq) (auto dest: bit_u64_bound)

lemma least_bit:
  assumes "(w::u64) \<noteq> 0"
  obtains j where "j < 64" "bit w j" "\<And>m. m < j \<Longrightarrow> \<not> bit w m" "ctzll w = j"
proof -
  from assms have ex: "\<exists>j. bit w j" by (auto simp: u64_zero_iff)
  define j where "j = (LEAST j. bit w j)"
  have j: "bit w j" unfolding j_def using ex by (rule LeastI_ex)
  have less: "m < j \<Longrightarrow> \<not> bit w m" for m unfolding j_def by (rule not_less_Least)
  show ?thesis using that [OF bit_u64_bound [OF j] j less ctzll_eq [OF j less]] by blast
qed

lemma greatest_bit:
  assumes "(w::u64) \<noteq> 0"
  obtains j where "j < 64" "bit w j" "\<And>m. j < m \<Longrightarrow> m < 64 \<Longrightarrow> \<not> bit w m" "clzll w = 63 - j"
proof -
  from assms have ex: "\<exists>j. bit w j" by (auto simp: u64_zero_iff)
  define j where "j = (GREATEST j. bit w j)"
  have bound: "bit w m \<Longrightarrow> m \<le> 64" for m using bit_u64_bound [of w m] by simp
  have j: "bit w j" unfolding j_def using ex bound by (rule GreatestI_ex_nat)
  have less: "\<not> bit w m" if "j < m" for m
    using that Greatest_le_nat [of "bit w" m 64] bound unfolding j_def by auto
  show ?thesis using that [OF bit_u64_bound [OF j] j less clzll_eq [OF j less]] by blast
qed

subsection \<open>First clear bit\<close>

text \<open>The inner loop of \<open>bit_ffc\<close>: the bits of one word, with the final position and value.\<close>

function ffc_bits :: "bitstr \<Rightarrow> nat \<Rightarrow> nat \<Rightarrow> (nat \<times> int) option" where
  "ffc_bits b word k =
     (if k < bs_bits b \<and> bit_word k = word then do {
        t \<leftarrow> bit_test b k;
        if \<not> t then Some (k, int k) else ffc_bits b word (k + 1) }
      else Some (k, -1))"
  by pat_completeness auto
termination
  by (relation "measure (\<lambda>(b, word, k). bs_bits b - k)") auto

declare ffc_bits.simps [simp del]

lemma ffc_bits_progress:
  "ffc_bits b word k = Some (k', v) \<Longrightarrow>
     k \<le> k' \<and> (v = -1 \<longrightarrow> k < bs_bits b \<longrightarrow> bit_word k = word \<longrightarrow> k < k')"
proof (induction b word k rule: ffc_bits.induct)
  case (1 b word k)
  show ?case
  proof (cases "k < bs_bits b \<and> bit_word k = word")
    case True
    with "1.prems" obtain t where t: "bit_test b k = Some t"
      "(if \<not> t then Some (k, int k) else ffc_bits b word (k + 1)) = Some (k', v)"
      by (auto simp: ffc_bits.simps [of b word k] Option.bind_eq_Some_conv)
    then show ?thesis using "1.IH" [OF True t(1)] by (cases t) auto
  next
    case False
    with "1.prems" show ?thesis by (auto simp: ffc_bits.simps [of b word k])
  qed
qed

function ffc_loop :: "bitstr \<Rightarrow> nat \<Rightarrow> int \<Rightarrow> int option" where
  "ffc_loop b k v =
     (if k < bs_bits b \<and> v = -1 then do {
        let word = bit_word k;
        w \<leftarrow> bs_get b word;
        if w = -1 then ffc_loop b (k + 64) v
        else do {
          (k', v') \<leftarrow> ffc_bits b word k;
          ffc_loop b k' v' } }
      else Some v)"
  by pat_completeness auto
termination
proof (relation "measures [\<lambda>(b, k, v). if v = -1 then 1 else 0, \<lambda>(b, k, v). bs_bits b - k]", goal_cases)
  case (3 b k v word w kv k' v')
  then show ?case using ffc_bits_progress [of b word k k' v'] by (cases "v' = -1") auto
qed auto

declare ffc_loop.simps [simp del]

definition bit_ffc :: "bitstr \<Rightarrow> int option" where
  "bit_ffc b = do { assert_bitstr_valid b; ffc_loop b 0 (-1) }"

subsection \<open>Runs\<close>

text \<open>The loop the run searches share: \<^verbatim>\<open>for (bit = k; bit < hi; bit++)\<close>, counting consecutive bits
  equal to \<open>want\<close>; \<open>-1\<close> when the loop ends without a run of \<open>n\<close>.\<close>

function run_loop :: "bitstr \<Rightarrow> bool \<Rightarrow> nat \<Rightarrow> nat \<Rightarrow> nat \<Rightarrow> nat \<Rightarrow> int option" where
  "run_loop b want hi n k cnt =
     (if k < hi then do {
        t \<leftarrow> bit_test b k;
        if t \<noteq> want then run_loop b want hi n (k + 1) 0
        else if cnt + 1 \<ge> n then Some (int k - (int (cnt + 1) - 1))
        else run_loop b want hi n (k + 1) (cnt + 1) }
      else Some (-1))"
  by pat_completeness auto
termination
  by (relation "measure (\<lambda>(b, want, hi, n, k, cnt). hi - k)") auto

declare run_loop.simps [simp del]

definition bit_nffc :: "bitstr \<Rightarrow> int \<Rightarrow> int option" where
  "bit_nffc b n = do {
     assert_bitstr_valid b;
     xassert (n > 0 \<and> n < int (bs_bits b));
     run_loop b False (bs_bits b) (nat n) 0 0 }"

text \<open>The second loop of \<open>bit_noc\<close> gives up at a set bit at or after \<open>seed\<close>.\<close>

function noc_loop :: "bitstr \<Rightarrow> nat \<Rightarrow> nat \<Rightarrow> nat \<Rightarrow> nat \<Rightarrow> int option" where
  "noc_loop b seed n k cnt =
     (if k < bs_bits b then do {
        t \<leftarrow> bit_test b k;
        if t then if k \<ge> seed then Some (-1) else noc_loop b seed n (k + 1) 0
        else if cnt + 1 \<ge> n then Some (int k - (int (cnt + 1) - 1))
        else noc_loop b seed n (k + 1) (cnt + 1) }
      else Some (-1))"
  by pat_completeness auto
termination
  by (relation "measure (\<lambda>(b, seed, n, k, cnt). bs_bits b - k)") auto

declare noc_loop.simps [simp del]

text \<open>A negative \<open>seed\<close> would read before the array. The sum \<open>seed + n\<close> is taken without the limit of \<open>int\<close>: where the C sum leaves it,
  \<open>seed\<close> is beyond the string in any case.\<close>

definition bit_noc :: "bitstr \<Rightarrow> int \<Rightarrow> int \<Rightarrow> int option" where
  "bit_noc b n seed0 = do {
     assert_bitstr_valid b;
     xassert (n > 0 \<and> n \<le> int (bs_bits b));
     let seed = (if seed0 + n \<ge> int (bs_bits b) then int (bs_bits b) else seed0);
     if seed < 0 then None
     else do {
       value1 \<leftarrow> run_loop b False (bs_bits b) (nat n) (nat seed) 0;
       if value1 \<noteq> -1 then Some value1
       else noc_loop b (nat seed) (nat n) 0 0 } }"

definition bit_nffs :: "bitstr \<Rightarrow> int \<Rightarrow> int option" where
  "bit_nffs b n = do {
     assert_bitstr_valid b;
     xassert (n > 0 \<and> n \<le> int (bs_bits b));
     run_loop b True (nat (int (bs_bits b) - n) + 1) (nat n) 0 0 }"

subsection \<open>First and last set bit\<close>

text \<open>The loop of \<open>bit_ffs_from_bit\<close> from the label \<open>test_word\<close>, with the word to test.\<close>

function ffs_words :: "bitstr \<Rightarrow> nat \<Rightarrow> u64 \<Rightarrow> int option" where
  "ffs_words b k w =
     (if w = 0 then
        if k + 64 < bs_bits b then do { w' \<leftarrow> bs_get b (bit_word (k + 64)); ffs_words b (k + 64) w' }
        else Some (-1)
      else Some (int k + int (ctzll w)))"
  by pat_completeness auto
termination
  by (relation "measure (\<lambda>(b, k, w). bs_bits b - k)") auto

declare ffs_words.simps [simp del]

definition bit_ffs_from_bit :: "bitstr \<Rightarrow> nat \<Rightarrow> int option" where
  "bit_ffs_from_bit b k0 = do {
     assert_bitstr_valid b;
     v \<leftarrow> (if k0 mod 64 \<noteq> 0 \<and> k0 < bs_bits b then do {
              let msk = NOT (bit_nmask k0);
              let k = k0 - k0 mod 64;
              w \<leftarrow> bs_get b (bit_word k);
              ffs_words b k (w AND msk) }
            else if k0 < bs_bits b then do { w \<leftarrow> bs_get b (bit_word k0); ffs_words b k0 w }
            else Some (-1));
     Some (if v < int (bs_bits b) then v else -1) }"

definition bit_ffs :: "bitstr \<Rightarrow> int option" where
  "bit_ffs b = bit_ffs_from_bit b 0"

text \<open>The two loops of \<open>bit_fls_from_bit\<close>: single bits down to a word boundary, then words.\<close>

function fls_bits :: "bitstr \<Rightarrow> int \<Rightarrow> (int \<times> int) option" where
  "fls_bits b k =
     (if k \<ge> 0 \<and> bit_word (nat k) = bit_word (nat (k + 1)) then do {
        t \<leftarrow> bit_test b (nat k);
        if t then Some (k, k) else fls_bits b (k - 1) }
      else Some (k, -1))"
  by pat_completeness auto
termination
  by (relation "measure (\<lambda>(b, k). nat (k + 1))") auto

declare fls_bits.simps [simp del]

function fls_words :: "bitstr \<Rightarrow> int \<Rightarrow> int option" where
  "fls_words b k =
     (if k \<ge> 0 then do {
        w \<leftarrow> bs_get b (bit_word (nat k));
        if w = 0 then fls_words b (k - 64)
        else Some (k - int (clzll w)) }
      else Some (-1))"
  by pat_completeness auto
termination
  by (relation "measure (\<lambda>(b, k). nat (k + 1))") auto

declare fls_words.simps [simp del]

definition bit_fls_from_bit :: "bitstr \<Rightarrow> int \<Rightarrow> int option" where
  "bit_fls_from_bit b k0 = do {
     assert_bitstr_valid b; assert_bit_valid b k0;
     if bs_bits b = 0 then Some (-1)
     else do {
       (k, v) \<leftarrow> fls_bits b k0;
       if v = -1 then fls_words b k else Some v } }"

definition bit_fls :: "bitstr \<Rightarrow> int option" where
  "bit_fls b = bit_fls_from_bit b (int (bs_bits b) - 1)"

definition bit_fill_gaps :: "bitstr \<Rightarrow> bitstr option" where
  "bit_fill_gaps b = do {
     assert_bitstr_valid b;
     first \<leftarrow> bit_ffs b;
     if first = -1 then Some b
     else do { lst \<leftarrow> bit_fls b; bit_nset b first lst } }"

subsection \<open>The searches meet their contracts\<close>

lemma next_word: "bit_word (Suc k) \<noteq> bit_word k \<Longrightarrow> Suc k mod 64 = 0"
  by (simp add: bit_word_eq div_Suc split: if_splits)

lemma ffc_bits_eq:
  assumes "bs_valid b" "k < bs_bits b" "bit_word k = word"
  shows "\<exists>k' v. ffc_bits b word k = Some (k', v) \<and> k \<le> k' \<and> (\<forall>j. k \<le> j \<and> j < k' \<longrightarrow> bs_bit b j) \<and>
     (if v = -1 then k' mod 64 = 0 \<or> bs_bits b \<le> k'
      else v = int k' \<and> k' < bs_bits b \<and> \<not> bs_bit b k')"
  using assms
proof (induction b word k rule: ffc_bits.induct)
  case (1 b word k)
  then have t: "bit_test b k = Some (bs_bit b k)" by (simp add: bit_test_eq)
  show ?case
  proof (cases "bs_bit b k")
    case set: True
    then have run: "ffc_bits b word k = ffc_bits b word (k + 1)"
      using 1 t by (simp add: ffc_bits.simps [of b word k])
    have step: "bs_bit b j" if "k \<le> j" "j < k'" "\<forall>j. k + 1 \<le> j \<and> j < k' \<longrightarrow> bs_bit b j" for j k'
      using that set by (cases "j = k") auto
    show ?thesis
    proof (cases "k + 1 < bs_bits b \<and> bit_word (k + 1) = word")
      case True
      with "1.IH" [OF _ t] set "1.prems" obtain k' v where kv: "ffc_bits b word (k + 1) = Some (k', v)" "k + 1 \<le> k'"
        "\<forall>j. k + 1 \<le> j \<and> j < k' \<longrightarrow> bs_bit b j"
        "if v = -1 then k' mod 64 = 0 \<or> bs_bits b \<le> k' else v = int k' \<and> k' < bs_bits b \<and> \<not> bs_bit b k'"
        by auto
      have "\<forall>j. k \<le> j \<and> j < k' \<longrightarrow> bs_bit b j" using step kv(3) by blast
      with run kv show ?thesis by auto
    next
      case False
      then have "ffc_bits b word (k + 1) = Some (k + 1, -1)" by (subst ffc_bits.simps) auto
      moreover have "(k + 1) mod 64 = 0 \<or> bs_bits b \<le> k + 1"
        using False next_word [of k] "1.prems"(3) by auto
      moreover have "\<forall>j. k \<le> j \<and> j < k + 1 \<longrightarrow> bs_bit b j" using step by force
      ultimately show ?thesis using run by auto
    qed
  next
    case False
    then show ?thesis using "1.prems" t by (auto simp: ffc_bits.simps [of b word k])
  qed
qed

lemma ffc_loop_found: "v \<noteq> -1 \<Longrightarrow> ffc_loop b k v = Some v"
  by (simp add: ffc_loop.simps)

lemma ffc_loop_eq:
  assumes "bs_valid b" "v = -1" "k mod 64 = 0 \<or> bs_bits b \<le> k" "\<And>j. j < k \<Longrightarrow> j < bs_bits b \<Longrightarrow> bs_bit b j"
  shows "\<exists>r. ffc_loop b k v = Some r \<and> is_first (\<lambda>i. \<not> bs_bit b i) 0 (bs_bits b) r"
  using assms
proof (induction b k v rule: ffc_loop.induct)
  case (1 b k v)
  note prems = "1.prems"
  show ?case
  proof (cases "k < bs_bits b")
    case True
    let ?w = "bs_words b ! (k div 64)"
    have wl: "k div 64 < length (bs_words b)" using prems(1) True by simp
    have al: "k mod 64 = 0" using prems(3) True by simp
    note get = bs_get_word [OF wl]
    have c: "k < bs_bits b \<and> v = -1" using True prems(2) by simp
    show ?thesis
    proof (cases "?w = -1")
      case full: True
      have "bs_bit b j" if "j < k + 64" "j < bs_bits b" for j
      proof (cases "j < k")
        case False
        then have "bs_bit b (k + (j - k)) \<longleftrightarrow> bit ?w (j - k)"
          using that by (intro block_word [OF al wl, symmetric]) simp
        with full False that show ?thesis by simp
      qed (use prems(4) that in auto)
      then have "\<exists>r. ffc_loop b (k + 64) v = Some r \<and> is_first (\<lambda>i. \<not> bs_bit b i) 0 (bs_bits b) r"
        using al by (intro "1.IH"(1) [OF c refl get full prems(1,2)]) auto
      moreover have "ffc_loop b k v = ffc_loop b (k + 64) v"
        using c get full by (subst ffc_loop.simps) simp
      ultimately show ?thesis by simp
    next
      case False
      obtain k' v' where kv: "ffc_bits b (bit_word k) k = Some (k', v')" "k \<le> k'"
        "\<forall>j. k \<le> j \<and> j < k' \<longrightarrow> bs_bit b j"
        "if v' = -1 then k' mod 64 = 0 \<or> bs_bits b \<le> k' else v' = int k' \<and> k' < bs_bits b \<and> \<not> bs_bit b k'"
        using ffc_bits_eq [OF prems(1) True refl] by blast
      have run: "ffc_loop b k v = ffc_loop b k' v'"
        using c get False kv(1) by (subst ffc_loop.simps) simp
      have pre: "bs_bit b j" if "j < k'" "j < bs_bits b" for j
        using prems(4) [of j] kv(3) that by (cases "j < k") auto
      show ?thesis
      proof (cases "v' = -1")
        case True
        with "1.IH"(2) [OF c refl get False kv(1) refl prems(1)] kv(4) pre run show ?thesis by auto
      next
        case found: False
        with run kv(4) pre show ?thesis by (auto simp: ffc_loop_found intro!: is_first_found)
      qed
    qed
  next
    case False
    then have "ffc_loop b k v = Some (-1)" using prems(2) by (subst ffc_loop.simps) simp
    then show ?thesis using False prems(4) by (auto intro!: is_first_none)
  qed
qed

lemma bit_ffc_eq:
  "bs_valid b \<Longrightarrow> \<exists>r. bit_ffc b = Some r \<and> is_first (\<lambda>i. \<not> bs_bit b i) 0 (bs_bits b) r"
  using ffc_loop_eq [of b "-1" 0] by (simp add: bit_ffc_def)

text \<open>A run of \<open>n\<close> equal bits inside \<open>[0, hi)\<close>.\<close>

definition run_at :: "bitstr \<Rightarrow> bool \<Rightarrow> nat \<Rightarrow> nat \<Rightarrow> nat \<Rightarrow> bool" where
  "run_at b want hi n s \<longleftrightarrow> s + n \<le> hi \<and> (\<forall>i. s \<le> i \<longrightarrow> i < s + n \<longrightarrow> bs_bit b i = want)"

lemma run_atI: "s + n \<le> hi \<Longrightarrow> (\<And>i. s \<le> i \<Longrightarrow> i < s + n \<Longrightarrow> bs_bit b i = want) \<Longrightarrow> run_at b want hi n s"
  by (simp add: run_at_def)

lemma run_loop_eq:
  assumes "hi \<le> 64 * length (bs_words b)" "0 < n" "cnt < n" "lo + cnt \<le> k"
    and "\<And>i. k - cnt \<le> i \<Longrightarrow> i < k \<Longrightarrow> bs_bit b i = want"
    and "\<And>s. lo \<le> s \<Longrightarrow> s < k - cnt \<Longrightarrow> \<not> run_at b want hi n s"
  shows "\<exists>v. run_loop b want hi n k cnt = Some v \<and> is_first (run_at b want hi n) lo hi v"
  using assms
proof (induction b want hi n k cnt rule: run_loop.induct)
  case (1 b want hi n k cnt)
  note prems = "1.prems"
  show ?case
  proof (cases "k < hi")
    case True
    have t: "bit_test b k = Some (bs_bit b k)"
      using True prems(1) by (intro bit_test_eq) (auto simp: less_mult_imp_div_less mult.commute)
    show ?thesis
    proof (cases "bs_bit b k = want")
      case False
      have "\<not> run_at b want hi n s" if "lo \<le> s" "s < k + 1 - 0" for s
      proof (cases "s < k - cnt")
        case ge: False
        with that prems(3) have "s \<le> k" "k < s + n" by auto
        with False show ?thesis by (auto simp: run_at_def)
      qed (use prems(6) that in blast)
      with "1.IH"(1) [OF True t False prems(1)] prems(2-4) True t False show ?thesis
        by (simp add: run_loop.simps [of b want hi n k])
    next
      case w: True
      have all: "bs_bit b i = want" if "k - cnt \<le> i" "i < k + 1" for i
        using prems(5) [of i] that w by (cases "i = k") auto
      show ?thesis
      proof (cases "cnt + 1 \<ge> n")
        case True
        then have n: "n = cnt + 1" using prems(3) by simp
        have v: "int k - (int (cnt + 1) - 1) = int (k - cnt)" using prems(4) by simp
        have "is_first (run_at b want hi n) lo hi (int (k - cnt))"
          using prems(4,6) \<open>k < hi\<close> all n by (intro is_first_found run_atI) auto
        moreover have "run_loop b want hi n k cnt = Some (int k - (int (cnt + 1) - 1))"
          unfolding run_loop.simps [of b want hi n k cnt] t using True w \<open>k < hi\<close> by simp
        ultimately show ?thesis unfolding v by blast
      next
        case False
        have "\<exists>v. run_loop b want hi n (k + 1) (cnt + 1) = Some v \<and> is_first (run_at b want hi n) lo hi v"
          using prems False all w by (intro "1.IH"(2) [OF True t]) auto
        then show ?thesis using True t w False by (simp add: run_loop.simps [of b want hi n k])
      qed
    qed
  next
    case False
    have "\<not> run_at b want hi n s" if "lo \<le> s" "s < hi" for s
    proof (cases "s < k - cnt")
      case ge: False
      with False prems(3) that show ?thesis by (auto simp: run_at_def)
    qed (use prems(6) that in blast)
    with False show ?thesis by (auto simp: run_loop.simps [of b want hi n k] intro!: is_first_none)
  qed
qed

lemma bs_valid_room: "bs_valid b \<Longrightarrow> bs_bits b \<le> 64 * length (bs_words b)"
  by (simp add: bs_valid_def)

lemma bit_nffc_eq:
  assumes "bs_valid b" "0 < n" "n < int (bs_bits b)"
  shows "\<exists>v. bit_nffc b n = Some v \<and> is_first (run_at b False (bs_bits b) (nat n)) 0 (bs_bits b) v"
  using run_loop_eq [OF bs_valid_room [OF assms(1)], of "nat n" 0 0 0 False] assms by (simp add: bit_nffc_def)

text \<open>\<open>bit_nffs\<close> stops testing bits at position \<open>size - n\<close>, so it only sees the runs that end
  there, while its comment promises the first run anywhere.\<close>

lemma bit_nffs_eq:
  assumes "bs_valid b" "0 < n" "n \<le> int (bs_bits b)"
  shows "\<exists>v. bit_nffs b n = Some v \<and>
    is_first (run_at b True (bs_bits b - nat n + 1) (nat n)) 0 (bs_bits b - nat n + 1) v"
proof -
  have hi: "nat (int (bs_bits b) - n) + 1 = bs_bits b - nat n + 1" using assms by (simp add: nat_diff_distrib)
  have "bs_bits b - nat n + 1 \<le> 64 * length (bs_words b)"
    using bs_valid_room [OF assms(1)] assms by linarith
  with run_loop_eq [of "bs_bits b - nat n + 1" b "nat n" 0 0 0 True] assms hi show ?thesis
    by (simp add: bit_nffs_def)
qed

lemma noc_loop_eq:
  assumes "bs_bits b \<le> 64 * length (bs_words b)" "0 < n" "cnt < n" "cnt \<le> k"
    and "\<And>i. k - cnt \<le> i \<Longrightarrow> i < k \<Longrightarrow> \<not> bs_bit b i"
    and "\<And>s. s < k - cnt \<Longrightarrow> \<not> run_at b False (bs_bits b) n s"
    and "\<And>s. seed \<le> s \<Longrightarrow> \<not> run_at b False (bs_bits b) n s"
  shows "\<exists>v. noc_loop b seed n k cnt = Some v \<and> is_first (run_at b False (bs_bits b) n) 0 (bs_bits b) v"
  using assms
proof (induction b seed n k cnt rule: noc_loop.induct)
  case (1 b seed n k cnt)
  note prems = "1.prems"
  let ?R = "run_at b False (bs_bits b) n"
  show ?case
  proof (cases "k < bs_bits b")
    case True
    have t: "bit_test b k = Some (bs_bit b k)"
      using True prems(1) by (intro bit_test_eq) (auto simp: less_mult_imp_div_less mult.commute)
    show ?thesis
    proof (cases "bs_bit b k")
      case set: True
      have none: "\<not> ?R s" if "s < k + 1 - 0" for s
      proof (cases "s < k - cnt")
        case ge: False
        with that prems(3) have "s \<le> k" "k < s + n" by auto
        with set show ?thesis by (auto simp: run_at_def)
      qed (use prems(6) that in blast)
      show ?thesis
      proof (cases "k \<ge> seed")
        case stop: True
        then have "\<not> ?R s" for s using none [of s] prems(7) [of s] by (cases "s \<le> k") auto
        moreover have "noc_loop b seed n k cnt = Some (-1)"
          unfolding noc_loop.simps [of b seed n k cnt] t using True set stop by simp
        ultimately show ?thesis by auto
      next
        case go: False
        have "\<exists>v. noc_loop b seed n (k + 1) 0 = Some v \<and> is_first ?R 0 (bs_bits b) v"
          by (rule "1.IH"(1) [OF True t set go prems(1,2)]) (use prems(2,7) none in auto)
        moreover have "noc_loop b seed n k cnt = noc_loop b seed n (k + 1) 0"
          unfolding noc_loop.simps [of b seed n k cnt] t using True set go by simp
        ultimately show ?thesis by simp
      qed
    next
      case clear: False
      have all: "\<not> bs_bit b i" if "k - cnt \<le> i" "i < k + 1" for i
        using prems(5) [of i] that clear by (cases "i = k") auto
      show ?thesis
      proof (cases "cnt + 1 \<ge> n")
        case found: True
        then have n: "n = cnt + 1" using prems(3) by simp
        have v: "int k - (int (cnt + 1) - 1) = int (k - cnt)" using prems(4) by simp
        have "is_first ?R 0 (bs_bits b) (int (k - cnt))"
          using prems(4,6) True all n by (intro is_first_found run_atI) auto
        moreover have "noc_loop b seed n k cnt = Some (int k - (int (cnt + 1) - 1))"
          unfolding noc_loop.simps [of b seed n k cnt] t using found clear True by simp
        ultimately show ?thesis unfolding v by blast
      next
        case go: False
        have "\<exists>v. noc_loop b seed n (k + 1) (cnt + 1) = Some v \<and> is_first ?R 0 (bs_bits b) v"
          by (rule "1.IH"(2) [OF True t clear go prems(1,2)]) (use prems go all in auto)
        moreover have "noc_loop b seed n k cnt = noc_loop b seed n (k + 1) (cnt + 1)"
          unfolding noc_loop.simps [of b seed n k cnt] t using True clear go by simp
        ultimately show ?thesis by simp
      qed
    qed
  next
    case False
    have "\<not> ?R s" if "s < bs_bits b" for s
    proof (cases "s < k - cnt")
      case ge: False
      with False prems(3) that show ?thesis by (auto simp: run_at_def)
    qed (use prems(6) that in blast)
    moreover have "noc_loop b seed n k cnt = Some (-1)"
      unfolding noc_loop.simps [of b seed n k cnt] using False by simp
    ultimately show ?thesis by auto
  qed
qed

lemma bit_noc_eq:
  assumes "bs_valid b" "0 < n" "n \<le> int (bs_bits b)" "0 \<le> seed"
  defines "R \<equiv> run_at b False (bs_bits b) (nat n)"
  defines "s \<equiv> if seed + n \<ge> int (bs_bits b) then bs_bits b else nat seed"
  shows "\<exists>v. bit_noc b n seed = Some v \<and>
     (if \<exists>i. s \<le> i \<and> R i then is_first R s (bs_bits b) v else is_first R 0 (bs_bits b) v)"
proof -
  have room: "bs_bits b \<le> 64 * length (bs_words b)" by (rule bs_valid_room [OF assms(1)])
  have Rin: "i < bs_bits b" if "R i" for i
    using that assms(2) by (auto simp: R_def run_at_def)
  obtain v where v: "run_loop b False (bs_bits b) (nat n) s 0 = Some v" "is_first R s (bs_bits b) v"
    using run_loop_eq [OF room, of "nat n" 0 s s False] assms(2) by (auto simp: R_def)
  have s: "(if seed + n \<ge> int (bs_bits b) then int (bs_bits b) else seed) = int s"
    using assms(4) by (simp add: s_def)
  have run: "bit_noc b n seed = (if v \<noteq> -1 then Some v else noc_loop b s (nat n) 0 0)"
    unfolding bit_noc_def Let_def s using assms(1-3) v(1) by simp
  show ?thesis
  proof (cases "\<exists>i. s \<le> i \<and> R i")
    case True
    then have "v \<noteq> -1" using v(2) Rin unfolding is_first_def by (auto split: if_splits)
    with True run v(2) show ?thesis by simp
  next
    case False
    then have "v = -1" using v(2) by (auto simp: is_first_def)
    moreover have "\<exists>v. noc_loop b s (nat n) 0 0 = Some v \<and> is_first R 0 (bs_bits b) v"
      unfolding R_def using False assms(2) by (intro noc_loop_eq room) (auto simp: R_def)
    ultimately show ?thesis using False run by auto
  qed
qed

subsubsection \<open>First and last set bit\<close>

lemma ffs_words_eq:
  assumes "bs_valid b" "k mod 64 = 0" "k < bs_bits b" "lo \<le> k + 64"
    and "\<And>m. m < 64 \<Longrightarrow> bit w m \<longleftrightarrow> bs_bit b (k + m) \<and> lo \<le> k + m"
    and "\<And>j. lo \<le> j \<Longrightarrow> j < k \<Longrightarrow> \<not> bs_bit b j"
  shows "\<exists>v. ffs_words b k w = Some v \<and> is_first (bs_bit b) lo (bs_bits b) (if v < int (bs_bits b) then v else -1)"
  using assms
proof (induction b k w rule: ffs_words.induct)
  case (1 b k w)
  note prems = "1.prems"
  show ?case
  proof (cases "w = 0")
    case True
    have none: "\<not> bs_bit b j" if "lo \<le> j" "j < k + 64" for j
      using prems(5) [of "j - k"] prems(6) [of j] that True by (cases "j < k") auto
    show ?thesis
    proof (cases "k + 64 < bs_bits b")
      case in': True
      let ?w = "bs_words b ! ((k + 64) div 64)"
      have m: "(k + 64) mod 64 = 0" using prems(2) by simp
      have wl: "(k + 64) div 64 < length (bs_words b)" by (rule bs_valid_word [OF prems(1) in'])
      note get = bs_get_word [OF wl]
      have "\<exists>v. ffs_words b (k + 64) ?w = Some v \<and>
          is_first (bs_bit b) lo (bs_bits b) (if v < int (bs_bits b) then v else -1)"
        using prems(4) none block_word [OF m wl]
        by (intro "1.IH" [OF True in' get prems(1) m in']) auto
      moreover have "ffs_words b k w = ffs_words b (k + 64) ?w"
        unfolding ffs_words.simps [of b k w] get using True in' by simp
      ultimately show ?thesis by simp
    next
      case False
      then have "ffs_words b k w = Some (-1)"
        unfolding ffs_words.simps [of b k w] using True by simp
      then show ?thesis using none False by auto
    qed
  next
    case False
    obtain j where j: "j < 64" "bit w j" "\<And>m. m < j \<Longrightarrow> \<not> bit w m" "ctzll w = j"
      using least_bit [OF False] by metis
    have before: "\<not> bs_bit b i" if "lo \<le> i" "i < k + j" for i
      using prems(5) [of "i - k"] prems(6) [of i] j(1) j(3) [of "i - k"] that by (cases "i < k") auto
    have "is_first (bs_bit b) lo (bs_bits b) (if k + j < bs_bits b then int (k + j) else -1)"
    proof (cases "k + j < bs_bits b")
      case True
      have "is_first (bs_bit b) lo (bs_bits b) (int (k + j))"
        using prems(5) [OF j(1)] j(2) before True by (intro is_first_found) auto
      with True show ?thesis by simp
    next
      case False
      then show ?thesis using before by auto
    qed
    moreover have "ffs_words b k w = Some (int (k + j))"
      unfolding ffs_words.simps [of b k w] using False j(4) by simp
    moreover have "int (k + j) < int (bs_bits b) \<longleftrightarrow> k + j < bs_bits b" by (rule of_nat_less_iff)
    ultimately show ?thesis by (intro exI [of _ "int (k + j)"]) (simp del: of_nat_add)
  qed
qed

lemma bit_ffs_from_bit_eq:
  assumes "bs_valid b"
  shows "\<exists>v. bit_ffs_from_bit b k = Some v \<and> is_first (bs_bit b) k (bs_bits b) v"
proof (cases "k < bs_bits b")
  case False
  then show ?thesis using assms by (auto simp: bit_ffs_from_bit_def)
next
  case True
  define f where "f = k - k mod 64"
  have f: "f mod 64 = 0" "f div 64 = k div 64"
    by (simp_all add: f_def minus_mod_eq_mult_div)
  have km: "f \<le> k" "k < f + 64" "k mod 64 = k - f"
    using mod_less_divisor [of 64 k] mod_less_eq_dividend [of k 64] unfolding f_def by linarith+
  have wl: "f div 64 < length (bs_words b)" unfolding f(2) using assms True by simp
  let ?w = "bs_words b ! (f div 64) AND NOT (bit_nmask k)"
  have "bit ?w m \<longleftrightarrow> bs_bit b (f + m) \<and> k \<le> f + m" if "m < 64" for m
    using that km block_word [OF f(1) wl that] by (auto simp: bit_and_iff bit_not_iff bits64)
  from ffs_words_eq [OF assms f(1) _ _ this] km True
  obtain v where v: "ffs_words b f ?w = Some v"
    "is_first (bs_bit b) k (bs_bits b) (if v < int (bs_bits b) then v else -1)"
    by (auto simp: less_imp_le)
  show ?thesis
  proof (cases "k mod 64 = 0")
    case al: True
    then have "NOT (bit_nmask k) = -1" by (simp add: bit_nmask_def)
    moreover have "f = k" using al by (simp add: f_def)
    ultimately have "ffs_words b k (bs_words b ! (k div 64)) = Some v" using v(1) by simp
    then have "bit_ffs_from_bit b k = Some (if v < int (bs_bits b) then v else -1)"
      using al True assms by (simp add: bit_ffs_from_bit_def bs_get_word)
    with v(2) show ?thesis by blast
  next
    case False
    then have "bit_ffs_from_bit b k = Some (if v < int (bs_bits b) then v else -1)"
      unfolding bit_ffs_from_bit_def Let_def f_def [symmetric]
      using v(1) True assms by (simp add: bs_get_word [OF wl])
    with v(2) show ?thesis by blast
  qed
qed

lemma bit_ffs_eq:
  "bs_valid b \<Longrightarrow> \<exists>v. bit_ffs b = Some v \<and> is_first (bs_bit b) 0 (bs_bits b) v"
  unfolding bit_ffs_def by (rule bit_ffs_from_bit_eq)

lemma Suc_mod_64: "Suc n mod 64 = 0 \<Longrightarrow> n mod 64 = 63"
  by presburger

lemma word_end:
  fixes k :: int
  assumes "0 \<le> k" "bit_word (nat k) \<noteq> bit_word (nat (k + 1))"
  shows "nat k mod 64 = 63"
proof -
  have "nat (k + 1) = Suc (nat k)" using assms(1) by simp
  then have "Suc (nat k) mod 64 = 0" using next_word [of "nat k"] assms(2) by simp
  then show ?thesis by (rule Suc_mod_64)
qed

lemma fls_bits_eq:
  assumes "bs_valid b" "-1 \<le> k" "k < int (bs_bits b)"
  shows "\<exists>k' v. fls_bits b k = Some (k', v) \<and> -1 \<le> k' \<and> k' \<le> k \<and>
     (\<forall>j. k' < int j \<and> int j \<le> k \<longrightarrow> \<not> bs_bit b j) \<and>
     (if v = -1 then k' = -1 \<or> nat k' mod 64 = 63 else v = k' \<and> 0 \<le> k' \<and> bs_bit b (nat k'))"
  using assms
proof (induction b k rule: fls_bits.induct)
  case (1 b k)
  show ?case
  proof (cases "k \<ge> 0 \<and> bit_word (nat k) = bit_word (nat (k + 1))")
    case True
    with 1 have t: "bit_test b (nat k) = Some (bs_bit b (nat k))" by (simp add: bit_test_eq nat_less_iff)
    show ?thesis
    proof (cases "bs_bit b (nat k)")
      case set: True
      then have "fls_bits b k = Some (k, k)" unfolding fls_bits.simps [of b k] t using True by simp
      then show ?thesis using True set by auto
    next
      case False
      obtain k' v where kv: "fls_bits b (k - 1) = Some (k', v)" "-1 \<le> k'" "k' \<le> k - 1"
        "\<forall>j. k' < int j \<and> int j \<le> k - 1 \<longrightarrow> \<not> bs_bit b j"
        "if v = -1 then k' = -1 \<or> nat k' mod 64 = 63 else v = k' \<and> 0 \<le> k' \<and> bs_bit b (nat k')"
        using "1.IH" [OF True t False "1.prems"(1)] True "1.prems"(3) by auto
      have "\<not> bs_bit b j" if "k' < int j" "int j \<le> k" for j
        using kv(4) that False by (cases "int j = k") auto
      moreover have "fls_bits b k = Some (k', v)"
        unfolding fls_bits.simps [of b k] t using True False kv(1) by simp
      ultimately show ?thesis using kv by auto
    qed
  next
    case False
    have "fls_bits b k = Some (k, -1)" unfolding fls_bits.simps [of b k] using False by auto
    moreover have "k = -1 \<or> nat k mod 64 = 63" using False word_end [of k] "1.prems"(2) by (cases "0 \<le> k") auto
    ultimately show ?thesis using "1.prems"(2) by auto
  qed
qed

lemma fls_words_eq:
  assumes "bs_valid b" "k < int (bs_bits b)" "k = -1 \<or> 0 \<le> k \<and> nat k mod 64 = 63"
  shows "\<exists>v. fls_words b k = Some v \<and> is_last (bs_bit b) (nat (k + 1)) v"
  using assms
proof (induction b k rule: fls_words.induct)
  case (1 b k)
  show ?case
  proof (cases "k \<ge> 0")
    case False
    then have "fls_words b k = Some (-1)" unfolding fls_words.simps [of b k] by simp
    then show ?thesis using False by auto
  next
    case True
    define f where "f = nat k - 63"
    have m: "nat k mod 64 = 63" using True "1.prems"(3) by auto
    obtain q where q: "nat k = 64 * q + 63" using m mult_div_mod_eq [of 64 "nat k"] by metis
    then have f: "nat k = f + 63" "f mod 64 = 0" "f div 64 = nat k div 64" by (simp_all add: f_def)
    have wl: "nat k div 64 < length (bs_words b)" using "1.prems"(1,2) True by (simp add: nat_less_iff)
    let ?w = "bs_words b ! (nat k div 64)"
    note get = bs_get_word [OF wl]
    have blk: "bit ?w i \<longleftrightarrow> bs_bit b (f + i)" if "i < 64" for i
      using block_word [OF f(2), of b i] wl that unfolding f(3) by simp
    show ?thesis
    proof (cases "?w = 0")
      case z: True
      then have none: "\<not> bs_bit b j" if "f \<le> j" "j < f + 64" for j
        using blk [of "j - f"] that by simp
      have "k - 64 = -1 \<or> 0 \<le> k - 64 \<and> nat (k - 64) mod 64 = 63"
      proof (cases "f = 0")
        case False
        then have "64 \<le> f" using f(2) by (auto intro: dvd_imp_le)
        then have "nat (k - 64) = nat k - 64" "64 \<le> nat k" using f(1) by auto
        moreover from this have "64 \<le> k" by linarith
        ultimately show ?thesis using m le_mod_geq [of 64 "nat k"] by simp
      qed (use f(1) True in auto)
      then obtain v where v: "fls_words b (k - 64) = Some v" "is_last (bs_bit b) (nat (k - 64 + 1)) v"
        using "1.IH" [OF True get z "1.prems"(1)] "1.prems"(2) by auto
      have "is_last (bs_bit b) (nat (k + 1)) v"
      proof (rule is_last_skip [OF v(2)])
        fix i assume "nat (k - 64 + 1) \<le> i" "i < nat (k + 1)"
        then show "\<not> bs_bit b i" using f(1) True by (intro none) linarith+
      qed simp
      moreover have "fls_words b k = Some v"
        unfolding fls_words.simps [of b k] get using True z v(1) by simp
      ultimately show ?thesis by blast
    next
      case False
      obtain j where j: "j < 64" "bit ?w j" "\<And>i. j < i \<Longrightarrow> i < 64 \<Longrightarrow> \<not> bit ?w i" "clzll ?w = 63 - j"
        using greatest_bit [OF False] by metis
      have v: "k - int (clzll ?w) = int (f + j)" using j(1,4) f(1) True by simp
      have "is_last (bs_bit b) (nat (k + 1)) (int (f + j))"
      proof (rule is_last_found)
        show "f + j < nat (k + 1)" using f(1) j(1) True by linarith
        show "bs_bit b (f + j)" using blk j by simp
        fix i assume i: "f + j < i" "i < nat (k + 1)"
        then have "i - f < 64" using f(1) True by linarith
        with i show "\<not> bs_bit b i" using j(3) [of "i - f"] blk [of "i - f"] by simp
      qed
      moreover have "fls_words b k = Some (int (f + j))"
        unfolding fls_words.simps [of b k] get v [symmetric] using True False by simp
      ultimately show ?thesis by blast
    qed
  qed
qed

lemma bit_fls_from_bit_eq:
  assumes "bs_valid b" "0 \<le> k" "k < int (bs_bits b)"
  shows "\<exists>v. bit_fls_from_bit b k = Some v \<and> is_last (bs_bit b) (nat k + 1) v"
proof -
  obtain k' v where kv: "fls_bits b k = Some (k', v)" "-1 \<le> k'" "k' \<le> k"
    "\<And>j. k' < int j \<Longrightarrow> int j \<le> k \<Longrightarrow> \<not> bs_bit b j"
    "if v = -1 then k' = -1 \<or> nat k' mod 64 = 63 else v = k' \<and> 0 \<le> k' \<and> bs_bit b (nat k')"
    using fls_bits_eq [of b k] assms by auto
  show ?thesis
  proof (cases "v = -1")
    case True
    then have "k' = -1 \<or> 0 \<le> k' \<and> nat k' mod 64 = 63" using kv(2,5) by auto
    from fls_words_eq [OF assms(1) _ this] kv(3) assms(3) obtain r where
      r: "fls_words b k' = Some r" "is_last (bs_bit b) (nat (k' + 1)) r" by auto
    have "is_last (bs_bit b) (nat k + 1) r"
    proof (rule is_last_skip [OF r(2)])
      show "nat (k' + 1) \<le> nat k + 1" using kv(2,3) assms(2) by linarith
      fix i assume "nat (k' + 1) \<le> i" "i < nat k + 1"
      then show "\<not> bs_bit b i" using kv(2) assms(2) by (intro kv(4)) linarith+
    qed
    with r(1) True kv(1) assms show ?thesis by (auto simp: bit_fls_from_bit_def assert_bit_valid_def)
  next
    case False
    then have v: "v = int (nat k')" "bs_bit b (nat k')" "0 \<le> k'" using kv(5) by auto
    have "is_last (bs_bit b) (nat k + 1) (int (nat k'))"
      using v kv(3) assms(2) by (intro is_last_found kv(4)) auto
    with v False kv(1) assms show ?thesis by (auto simp: bit_fls_from_bit_def assert_bit_valid_def)
  qed
qed

lemma bit_fls_eq:
  assumes "bs_valid b"
  shows "\<exists>v. bit_fls b = Some v \<and> is_last (bs_bit b) (bs_bits b) v"
proof -
  have "0 < bs_bits b" using assms by (rule bs_valid_pos)
  then have "nat (int (bs_bits b) - 1) + 1 = bs_bits b" by simp
  with bit_fls_from_bit_eq [OF assms, of "int (bs_bits b) - 1"] \<open>0 < bs_bits b\<close> show ?thesis
    by (simp add: bit_fls_def)
qed

lemma bit_fill_gaps_eq:
  assumes "bs_valid b"
  shows "\<exists>b'. bit_fill_gaps b = Some b' \<and> bs_valid b' \<and> bs_bits b' = bs_bits b \<and>
     bs_set b' = (if bs_set b = {} then {} else {Min (bs_set b)..Max (bs_set b)})"
proof -
  obtain f l where f: "bit_ffs b = Some f" "is_first (bs_bit b) 0 (bs_bits b) f"
    and l: "bit_fls b = Some l" "is_last (bs_bit b) (bs_bits b) l"
    using bit_ffs_eq [OF assms] bit_fls_eq [OF assms] by auto
  show ?thesis
  proof (cases "bs_set b = {}")
    case True
    then have "f = -1" using f(2) by (auto simp: is_first_def bs_set_def)
    with f(1) True assms show ?thesis by (simp add: bit_fill_gaps_def)
  next
    case False
    have "f = int (Min (bs_set b))"
    proof (rule is_first_unique [OF f(2)], rule is_first_found)
      show "bs_bit b (Min (bs_set b))" "Min (bs_set b) < bs_bits b"
        using Min_in [OF bs_set_finite False] by (auto simp: bs_set_def)
      fix j assume j: "j < Min (bs_set b)"
      then have "j \<notin> bs_set b" by (metis Min_le bs_set_finite not_le)
      with j \<open>Min (bs_set b) < bs_bits b\<close> show "\<not> bs_bit b j" by (simp add: bs_set_def)
    qed simp
    moreover have "l = int (Max (bs_set b))"
    proof -
      obtain i where i: "l = int i" "i \<in> bs_set b" "\<And>j. i < j \<Longrightarrow> j \<notin> bs_set b"
        using l(2) False unfolding is_last_def by (auto simp: bs_set_def split: if_splits)
      have "Max (bs_set b) = i" using i by (intro Max_eqI) (auto simp: not_less [symmetric])
      with i(1) show ?thesis by simp
    qed
    moreover have mm: "Min (bs_set b) \<le> Max (bs_set b)" "Max (bs_set b) < bs_bits b"
      using False Max_in [OF bs_set_finite False] by (auto simp: bs_set_def)
    ultimately have "bit_fill_gaps b = Some (bs_fill b (int (Min (bs_set b))) (int (Max (bs_set b)) + 1) True)"
      using f(1) l(1) assms by (simp add: bit_fill_gaps_def bit_nset_eq)
    moreover have "bs_set (bs_fill b (int (Min (bs_set b))) (int (Max (bs_set b)) + 1) True)
        = {Min (bs_set b)..Max (bs_set b)}"
    proof -
      have "bs_set b \<subseteq> {Min (bs_set b)..Max (bs_set b)}" by auto
      moreover have "i < bs_bits b" if "i \<le> Max (bs_set b)" for i using mm(2) that by (rule le_less_trans [rotated])
      ultimately show ?thesis unfolding bs_set_fill [OF assms] by (auto simp del: Max_less_iff Max_ge_iff Min_le_iff)
    qed
    ultimately show ?thesis using assms False by simp
  qed
qed

end
