(* ===== verification/Bitmap_Spec.thy ===== *)
theory Bitmap_Spec
  imports Bitstring_Count Bitstring_Search
begin

text \<open>
  The abstract data type the rest of the program uses bit strings as: a subset of the positions
  below a fixed size. The locale states the operations' contract; its lemmas are what the clients
  (core arrays, reserved ports) rely on; the interpretation shows that src/common/bitstring.c
  provides it.
\<close>

text \<open>Setting a list of positions one after the other.\<close>

fun set_each :: "('b \<Rightarrow> int \<Rightarrow> 'b option) \<Rightarrow> nat list \<Rightarrow> 'b \<Rightarrow> 'b option" where
  "set_each set_op [] b = Some b"
| "set_each set_op (i # ps) b = set_op b (int i) \<bind> set_each set_op ps"

locale bitmap_set =
  fixes inv :: "'b \<Rightarrow> bool"
    and len :: "'b \<Rightarrow> nat"
    and elems :: "'b \<Rightarrow> nat set"
    and test_op :: "'b \<Rightarrow> int \<Rightarrow> bool option"
    and set_op clear_op :: "'b \<Rightarrow> int \<Rightarrow> 'b option"
    and or_op and_op and_not_op :: "'b \<Rightarrow> 'b \<Rightarrow> 'b option"
    and count_op :: "'b \<Rightarrow> nat option"
  assumes elems_less: "\<And>b. inv b \<Longrightarrow> elems b \<subseteq> {..<len b}"
    and test_law: "\<And>b i. inv b \<Longrightarrow> i < len b \<Longrightarrow> test_op b (int i) = Some (i \<in> elems b)"
    and set_law: "\<And>b i. inv b \<Longrightarrow> i < len b \<Longrightarrow>
      \<exists>b'. set_op b (int i) = Some b' \<and> inv b' \<and> len b' = len b \<and> elems b' = insert i (elems b)"
    and clear_law: "\<And>b i. inv b \<Longrightarrow> i < len b \<Longrightarrow>
      \<exists>b'. clear_op b (int i) = Some b' \<and> inv b' \<and> len b' = len b \<and> elems b' = elems b - {i}"
    and or_law: "\<And>b c. inv b \<Longrightarrow> inv c \<Longrightarrow> len b = len c \<Longrightarrow>
      \<exists>b'. or_op b c = Some b' \<and> inv b' \<and> len b' = len b \<and> elems b' = elems b \<union> elems c"
    and and_law: "\<And>b c. inv b \<Longrightarrow> inv c \<Longrightarrow> len b = len c \<Longrightarrow>
      \<exists>b'. and_op b c = Some b' \<and> inv b' \<and> len b' = len b \<and> elems b' = elems b \<inter> elems c"
    and and_not_law: "\<And>b c. inv b \<Longrightarrow> inv c \<Longrightarrow> len b = len c \<Longrightarrow>
      \<exists>b'. and_not_op b c = Some b' \<and> inv b' \<and> len b' = len b \<and> elems b' = elems b - elems c"
    and count_law: "\<And>b. inv b \<Longrightarrow> count_op b = Some (card (elems b))"
begin

lemma finite_elems: "inv b \<Longrightarrow> finite (elems b)"
  using elems_less finite_subset by blast

text \<open>A resource that is taken and given back: the pool is as before.\<close>

lemma reserve_release:
  assumes "inv pool" "inv want" "len pool = len want" "elems pool \<inter> elems want = {}"
  shows "\<exists>p q. or_op pool want = Some p \<and> and_not_op p want = Some q \<and> inv q \<and> len q = len pool
    \<and> elems q = elems pool"
proof -
  obtain p where p: "or_op pool want = Some p" "inv p" "len p = len pool" "elems p = elems pool \<union> elems want"
    using or_law [OF assms(1-3)] by blast
  obtain q where "and_not_op p want = Some q" "inv q" "len q = len p" "elems q = elems p - elems want"
    using and_not_law [OF p(2) assms(2)] p(3) assms(3) by auto
  with p assms(4) show ?thesis by auto
qed

text \<open>Taking a disjoint set raises the count by its size.\<close>

lemma reserve_count:
  assumes "inv pool" "inv want" "len pool = len want" "elems pool \<inter> elems want = {}"
  shows "\<exists>p. or_op pool want = Some p \<and> count_op p = Some (card (elems pool) + card (elems want))"
proof -
  obtain p where p: "or_op pool want = Some p" "inv p" "elems p = elems pool \<union> elems want"
    using or_law [OF assms(1-3)] by blast
  then show ?thesis using count_law [OF p(2)] finite_elems assms
    by (auto simp: card_Un_disjoint)
qed

lemma set_each_law:
  assumes "inv b" "\<forall>i \<in> set ps. i < len b"
  shows "\<exists>b'. set_each set_op ps b = Some b' \<and> inv b' \<and> len b' = len b \<and> elems b' = elems b \<union> set ps"
  using assms
proof (induction ps arbitrary: b)
  case (Cons i ps)
  obtain b1 where b1: "set_op b (int i) = Some b1" "inv b1" "len b1 = len b" "elems b1 = insert i (elems b)"
    using set_law [of b i] Cons.prems by auto
  obtain b2 where "set_each set_op ps b1 = Some b2" "inv b2" "len b2 = len b1" "elems b2 = elems b1 \<union> set ps"
    using Cons.IH [OF b1(2)] b1(3) Cons.prems(2) by auto
  with b1 show ?case by auto
qed simp

end

interpretation bs: bitmap_set bs_valid bs_bits bs_set slurm_bit_test bit_set bit_clear bit_or bit_and bit_and_not
  bit_set_count
proof
  fix b c :: bitstr and i
  assume b: "bs_valid b"
  show "bs_set b \<subseteq> {..<bs_bits b}" by (rule bs_set_subset)
  show "bit_set_count b = Some (card (bs_set b))" by (rule bit_set_count_eq [OF b])
  show "i < bs_bits b \<Longrightarrow> slurm_bit_test b (int i) = Some (i \<in> bs_set b)"
    using b by (simp add: slurm_bit_test_eq bs_set_def)
  show "i < bs_bits b \<Longrightarrow> \<exists>b'. bit_set b (int i) = Some b' \<and> bs_valid b' \<and> bs_bits b' = bs_bits b
      \<and> bs_set b' = insert i (bs_set b)"
    using b by (auto elim: bit_set_insert)
  show "i < bs_bits b \<Longrightarrow> \<exists>b'. bit_clear b (int i) = Some b' \<and> bs_valid b' \<and> bs_bits b' = bs_bits b
      \<and> bs_set b' = bs_set b - {i}"
    using b by (auto simp: bit_clear_eq bs_set_bs_of) (auto simp: bs_set_def)
  assume c: "bs_valid c" "bs_bits b = bs_bits c"
  show "\<exists>b'. bit_or b c = Some b' \<and> bs_valid b' \<and> bs_bits b' = bs_bits b \<and> bs_set b' = bs_set b \<union> bs_set c"
    using b c by (auto simp: bit_or_eq bs_set_bs_of) (auto simp: bs_set_def)
  show "\<exists>b'. bit_and b c = Some b' \<and> bs_valid b' \<and> bs_bits b' = bs_bits b \<and> bs_set b' = bs_set b \<inter> bs_set c"
    using b c by (auto simp: bit_and_eq bs_set_bs_of) (auto simp: bs_set_def)
  show "\<exists>b'. bit_and_not b c = Some b' \<and> bs_valid b' \<and> bs_bits b' = bs_bits b \<and> bs_set b' = bs_set b - bs_set c"
    using b c by (auto simp: bit_and_not_eq bs_set_bs_of) (auto simp: bs_set_def)
qed

end
