(* ===== verification/Bitstring_Fmt.thy ===== *)
theory Bitstring_Fmt
  imports Bitstring_Search
begin

text \<open>
  src/common/bitstring.c, fourth part: the text and index-array forms of a bit string. Printing
  gives range lists (\<^verbatim>\<open>0-5,42\<close>) or hexadecimal masks; parsing reads both back. C strings are
  character lists without the terminating NUL; \<open>None\<close> as a string value is the null pointer.
\<close>

subsection \<open>Scanning the runs of set bits\<close>

text \<open>The inner loop \<^verbatim>\<open>while (bit + 1 < fini && bit_test(b, bit + 1)) bit++\<close>.\<close>

function run_end :: "bitstr \<Rightarrow> nat \<Rightarrow> nat \<Rightarrow> nat option" where
  "run_end b fini k =
     (if k + 1 < fini then do {
        t \<leftarrow> bit_test b (k + 1);
        if t then run_end b fini (k + 1) else Some k }
      else Some k)"
  by pat_completeness auto
termination
  by (relation "measure (\<lambda>(b, fini, k). fini - k)") auto

declare run_end.simps [simp del]

lemma run_end_ge: "run_end b fini k = Some e \<Longrightarrow> k \<le> e"
proof (induction b fini k rule: run_end.induct)
  case (1 b fini k)
  show ?case
  proof (cases "k + 1 < fini \<and> bit_test b (k + 1) = Some True")
    case True
    then have "run_end b fini (k + 1) = Some e" using "1.prems" by (subst (asm) run_end.simps) simp
    then show ?thesis using "1.IH" [of True] True by simp
  next
    case False
    then show ?thesis using "1.prems"
      by (subst (asm) run_end.simps) (auto simp: Option.bind_eq_Some_conv split: if_splits)
  qed
qed

text \<open>The outer loop of \<open>bit_fmt\<close>, \<open>bit_fmt_full\<close>, \<open>bit_fmt_range\<close> and \<open>bitstr2inx\<close>; \<open>emit start bit\<close>
  is what the body does with a run.\<close>

function scan_loop :: "bitstr \<Rightarrow> nat \<Rightarrow> (nat \<Rightarrow> nat \<Rightarrow> 's \<Rightarrow> 's option) \<Rightarrow> nat \<Rightarrow> 's \<Rightarrow> 's option" where
  "scan_loop b fini emit k s =
     (if k < fini then do {
        w \<leftarrow> bs_get b (bit_word k);
        if w = 0 then scan_loop b fini emit (k + 64) s
        else do {
          t \<leftarrow> bit_test b k;
          if t then do {
            e \<leftarrow> run_end b fini k;
            s' \<leftarrow> emit k e s;
            scan_loop b fini emit (e + 1) s' }
          else scan_loop b fini emit (k + 1) s } }
      else Some s)"
  by pat_completeness auto
termination
  by (relation "measure (\<lambda>(b, fini, emit, k, s). fini - k)") (auto dest: run_end_ge)

declare scan_loop.simps [simp del]

subsection \<open>Printing ranges\<close>

definition digit_char :: "nat \<Rightarrow> char" where
  "digit_char d = char_of (48 + d)"

text \<open>\<^verbatim>\<open>%ld\<close> of a non-negative number.\<close>

function dec :: "nat \<Rightarrow> string" where
  "dec n = (if n < 10 then [digit_char n] else dec (n div 10) @ [digit_char (n mod 10)])"
  by pat_completeness auto
termination
  by (relation "measure (\<lambda>n. n)") auto

declare dec.simps [simp del]

text \<open>One element of the list: \<^verbatim>\<open>%s%ld\<close> or \<^verbatim>\<open>%s%ld-%ld\<close>.\<close>

definition range_str :: "string \<Rightarrow> nat \<Rightarrow> nat \<Rightarrow> string" where
  "range_str comma start fin =
     (if fin = start then comma @ dec start else comma @ dec start @ ''-'' @ dec fin)"

text \<open>\<open>bit_fmt\<close> writes into a buffer of \<open>len\<close> bytes; \<open>snprintf\<close> keeps what fits before the NUL. The
  state is the text so far and \<open>comma\<close>.\<close>

definition fmt_emit :: "nat \<Rightarrow> nat \<Rightarrow> nat \<Rightarrow> string \<times> string \<Rightarrow> (string \<times> string) option" where
  "fmt_emit len start fin s = (case s of (str, comma) \<Rightarrow>
     Some (str @ take (len - length str - 1) (range_str comma start fin), '',''))"

definition bit_fmt :: "int \<Rightarrow> bitstr \<Rightarrow> string option" where
  "bit_fmt len b = do {
     assert_bitstr_valid b;
     xassert (len > 0);
     (str, comma) \<leftarrow> scan_loop b (bs_bits b) (fmt_emit (nat len)) 0 ('''', '''');
     Some str }"

text \<open>\<open>xstrfmtcatat\<close> allocates the string at the first element, so a string with no bits set is
  printed as the null pointer.\<close>

definition fmt_full_emit :: "nat \<Rightarrow> nat \<Rightarrow> nat \<Rightarrow> string option \<times> string \<Rightarrow> (string option \<times> string) option" where
  "fmt_full_emit offset start fin s = (case s of (str, comma) \<Rightarrow>
     Some (Some ((case str of None \<Rightarrow> '''' | Some t \<Rightarrow> t) @ range_str comma (start - offset) (fin - offset)), '',''))"

definition bit_fmt_full :: "bitstr \<Rightarrow> string option option" where
  "bit_fmt_full b = do {
     assert_bitstr_valid b;
     (str, comma) \<leftarrow> scan_loop b (bs_bits b) (fmt_full_emit 0) 0 (None, '''');
     Some str }"

text \<open>\<open>offset\<close> and \<open>len\<close> are not checked by the code; a negative \<open>offset\<close> would read before the array.\<close>

definition bit_fmt_range :: "bitstr \<Rightarrow> nat \<Rightarrow> int \<Rightarrow> string option option" where
  "bit_fmt_range b offset len = do {
     assert_bitstr_valid b;
     let fini_bit = min (int (bs_bits b)) (int offset + len);
     (str, comma) \<leftarrow> scan_loop b (nat fini_bit) (fmt_full_emit offset) offset (None, '''');
     Some str }"

subsection \<open>Index arrays\<close>

text \<open>\<open>bitstr2inx\<close>: the array has room for \<open>bits + 2\<close> values.\<close>

definition inx_emit :: "nat \<Rightarrow> nat \<Rightarrow> nat \<Rightarrow> int list \<Rightarrow> int list option" where
  "inx_emit cap start fin inx =
     (if length inx + 2 \<le> cap then Some (inx @ [int start, int fin]) else None)"

definition bitstr2inx :: "bitstr option \<Rightarrow> int list option" where
  "bitstr2inx bo = (case bo of
     None \<Rightarrow> Some [-1]
   | Some b \<Rightarrow> do {
       let cap = bs_bits b + 2;
       inx \<leftarrow> scan_loop b (bs_bits b) (inx_emit cap) 0 [];
       if length inx < cap then Some (inx @ [-1]) else None })"

fun inx_loop :: "bitstr \<Rightarrow> int \<Rightarrow> int list \<Rightarrow> (bitstr \<times> int) option" where
  "inx_loop b bit_cnt [] = None"
| "inx_loop b bit_cnt [p] = (if p = -1 then Some (b, 0) else if p < 0 \<or> p \<ge> bit_cnt then Some (b, -1) else None)"
| "inx_loop b bit_cnt (p # q # rest) =
     (if p = -1 then Some (b, 0)
      else if p < 0 \<or> p \<ge> bit_cnt \<or> q < 0 \<or> q \<ge> bit_cnt then Some (b, -1)
      else do { b' \<leftarrow> bit_nset b p q; inx_loop b' bit_cnt rest })"

definition inx2bitstr :: "bitstr \<Rightarrow> int list \<Rightarrow> (bitstr \<times> int) option" where
  "inx2bitstr b inx = do {
     let bit_cnt = int (bs_bits b);
     b' \<leftarrow> (if bit_cnt > 0 then bit_nclear b 0 (bit_cnt - 1) else Some b);
     inx_loop b' bit_cnt inx }"

subsection \<open>Parsing ranges\<close>

definition char_code :: "char \<Rightarrow> int" where
  "char_code c = int (of_char c :: nat)"

definition is_digit :: "char \<Rightarrow> bool" where
  "is_digit c \<longleftrightarrow> char_code c \<ge> 48 \<and> char_code c \<le> 57"

text \<open>Values are \<open>int32_t\<close>; \<open>s32\<close> is the conversion to that type.\<close>

definition s32 :: "int \<Rightarrow> int" where
  "s32 x = signed_take_bit 31 x"

text \<open>The values the array has room for: \<^verbatim>\<open>xmalloc(sizeof(int32_t) * (size * 2 + 1))\<close>. The count is computed in \<open>int\<close>;
  a negative one asks for more memory than there is, which ends the process.\<close>

definition array_cap :: "int \<Rightarrow> nat option" where
  "array_cap sz = do {
     d \<leftarrow> i32 (sz * 2);
     c \<leftarrow> i32 (d + 1);
     if c < 0 then None else Some (nat c) }"

text \<open>The loop over the characters and the final NUL; \<open>cap\<close> is the number of values the array has
  room for. A number that leaves the range of \<open>int\<close> is undefined arithmetic.\<close>

fun ranges_loop :: "nat \<Rightarrow> bool \<Rightarrow> string \<Rightarrow> int \<Rightarrow> int \<Rightarrow> int list \<Rightarrow> int list option" where
  "ranges_loop cap first [] sm start_val out = Some out"
| "ranges_loop cap first (c # cs) sm start_val out =
     (if is_digit c then do {
        p \<leftarrow> i32 (sm * 10);
        sm' \<leftarrow> i32 (p + (char_code c - 48));
        ranges_loop cap False cs sm' start_val out }
      else if c = CHR ''-'' then ranges_loop cap False cs 0 sm out
      else if c = CHR '','' \<or> c = CHR 0x00 then
        if first then Some out
        else if length out + 2 \<le> cap
        then ranges_loop cap False cs 0 (-1)
               (out @ [if start_val = -1 then sm else start_val, sm])
        else None
      else ranges_loop cap False cs sm start_val out)"

text \<open>\<open>strtol\<close> in base 10: white space, an optional sign, digits; with no digits the result is 0 and
  the end pointer is the start. The result saturates at the limits of \<open>long\<close>.\<close>

definition is_space :: "char \<Rightarrow> bool" where
  "is_space c \<longleftrightarrow> char_code c = 32 \<or> 9 \<le> char_code c \<and> char_code c \<le> 13"

definition digits_value :: "string \<Rightarrow> int" where
  "digits_value ds = foldl (\<lambda>n c. n * 10 + (char_code c - 48)) 0 ds"

definition strtol :: "string \<Rightarrow> int \<times> string" where
  "strtol str =
     (let s1 = dropWhile is_space str;
          neg = (s1 \<noteq> [] \<and> hd s1 = CHR ''-'');
          s2 = (if s1 \<noteq> [] \<and> (hd s1 = CHR ''-'' \<or> hd s1 = CHR ''+'') then tl s1 else s1);
          ds = takeWhile is_digit s2;
          v = (if neg then - digits_value ds else digits_value ds)
      in if ds = [] then (0, str)
         else (max (- (2 ^ 63)) (min (2 ^ 63 - 1) v), dropWhile is_digit s2))"

function step_loop :: "nat \<Rightarrow> int \<Rightarrow> int \<Rightarrow> int \<Rightarrow> int list \<Rightarrow> int list option" where
  "step_loop cap i end_id step out =
     (if 0 < step \<and> i < end_id then
        if length out + 2 \<le> cap then do { i' \<leftarrow> i32 (i + step); step_loop cap i' end_id step (out @ [i, i]) } else None
      else Some out)"
  by pat_completeness auto
termination
  by (relation "measure (\<lambda>(cap, i, end_id, step, out). nat (end_id - i))") (auto simp: i32_def split: if_splits)

declare step_loop.simps [simp del]

text \<open>The array of the step format, once the three numbers are read.\<close>

definition step_array :: "int \<Rightarrow> int \<Rightarrow> int \<Rightarrow> int list option option" where
  "step_array start_id end_id step = do {
     d \<leftarrow> i32 (end_id - start_id);
     q \<leftarrow> c_div d step;
     sz \<leftarrow> i32 (q + 1);
     cap \<leftarrow> array_cap sz;
     out \<leftarrow> step_loop cap start_id end_id step [];
     if length out < cap then Some (Some (out @ [-1])) else None }"

definition bitfmt2int :: "string option \<Rightarrow> int list option option" where
  "bitfmt2int so = (case so of
     None \<Rightarrow> Some None
   | Some str \<Rightarrow>
       if CHR '':'' \<notin> set str then do {
         let sz = s32 (int (length str) + 1);
         cap \<leftarrow> array_cap sz;
         out \<leftarrow> ranges_loop cap True (take (nat sz) (str @ [CHR 0x00])) 0 (-1) [];
         xassert (length out < cap);
         Some (Some (out @ [-1])) }
       else (case strtol str of (l1, t1) \<Rightarrow>
         let start_id = s32 l1 in
         if t1 = [] \<or> hd t1 \<noteq> CHR ''-'' then Some None
         else (case strtol (tl t1) of (l2, t2) \<Rightarrow>
           let end_id = s32 l2 in
           if t2 = [] \<or> hd t2 \<noteq> CHR '':'' then Some None
           else (case strtol (tl t2) of (l3, t3) \<Rightarrow>
             let step = s32 l3 in
             if t3 \<noteq> [] then Some None
             else if end_id < start_id \<or> step \<le> 0 then Some None
             else step_array start_id end_id step))))"

definition bit_unfmt :: "bitstr \<Rightarrow> string option \<Rightarrow> (bitstr \<times> int) option" where
  "bit_unfmt b so = do {
     assert_bitstr_valid b;
     if so = None \<or> so = Some '''' then Some (b, 0)
     else do {
       r \<leftarrow> bitfmt2int so;
       case r of None \<Rightarrow> Some (b, -1) | Some intvec \<Rightarrow> inx2bitstr b intvec } }"

subsection \<open>Hexadecimal masks\<close>

text \<open>\<open>hexmask_lookup\<close> of a little-endian build holds the two digits of each byte.\<close>

definition hex_char :: "nat \<Rightarrow> char" where
  "hex_char n = (if n \<le> 9 then char_of (48 + n) else char_of (n + 65 - 10))"

definition hexmask_lookup :: "nat \<Rightarrow> char \<times> char" where
  "hexmask_lookup idx = (hex_char (idx div 16), hex_char (idx mod 16))"

text \<open>Characters are written from the end of the buffer backwards; \<open>charsize\<close> of them fit after
  the prefix.\<close>

definition hex_write :: "nat \<Rightarrow> char \<Rightarrow> string \<Rightarrow> string option" where
  "hex_write charsize c acc = (if length acc < charsize then Some (c # acc) else None)"

definition hex_byte :: "nat \<Rightarrow> u64 \<Rightarrow> nat \<Rightarrow> string \<Rightarrow> string option" where
  "hex_byte charsize w j acc = do {
     let idx = unat (drop_bit (8 * j) w AND 255);
     acc1 \<leftarrow> hex_write charsize (snd (hexmask_lookup idx)) acc;
     hex_write charsize (fst (hexmask_lookup idx)) acc1 }"

definition hex_bit :: "bitstr \<Rightarrow> nat \<Rightarrow> nat \<Rightarrow> nat \<Rightarrow> nat option" where
  "hex_bit b bitsize i v =
     (if i < bitsize then do { t \<leftarrow> bit_test b i; Some (if t then v else 0) } else Some 0)"

function hexmask_loop :: "bitstr \<Rightarrow> nat \<Rightarrow> nat \<Rightarrow> nat \<Rightarrow> string \<Rightarrow> string option" where
  "hexmask_loop b bitsize charsize i acc =
     (if i < bitsize then
        if i + 64 \<le> bitsize then do {
          w \<leftarrow> bs_get b (bit_word i);
          acc' \<leftarrow> for_upto (hex_byte charsize w) 0 8 acc;
          hexmask_loop b bitsize charsize (i + 64) acc' }
        else do {
          c0 \<leftarrow> hex_bit b bitsize i 1;
          c1 \<leftarrow> hex_bit b bitsize (i + 1) 2;
          c2 \<leftarrow> hex_bit b bitsize (i + 2) 4;
          c3 \<leftarrow> hex_bit b bitsize (i + 3) 8;
          acc' \<leftarrow> hex_write charsize (hex_char (c0 + c1 + c2 + c3)) acc;
          hexmask_loop b bitsize charsize (i + 4) acc' }
      else Some acc)"
  by pat_completeness auto
termination
  by (relation "measure (\<lambda>(b, bitsize, charsize, i, acc). bitsize - i)") auto

declare hexmask_loop.simps [simp del]

definition bit_fmt_hexmask_gen :: "bitstr \<Rightarrow> bool \<Rightarrow> string option" where
  "bit_fmt_hexmask_gen bitmap trim_output = do {
     bitsize \<leftarrow> (if trim_output then do { l \<leftarrow> bit_fls bitmap; Some (nat (l + 1)) } else bit_size bitmap);
     if bitsize = 0 then Some ''0x0''
     else do {
       let charsize = (bitsize + 3) div 4;
       acc \<leftarrow> hexmask_loop bitmap bitsize charsize 0 [];
       Some (''0x'' @ (if length acc = charsize then acc else [])) } }"

definition bit_fmt_hexmask :: "bitstr \<Rightarrow> string option" where
  "bit_fmt_hexmask bitmap = bit_fmt_hexmask_gen bitmap False"

definition bit_fmt_hexmask_trim :: "bitstr \<Rightarrow> string option" where
  "bit_fmt_hexmask_trim bitmap = bit_fmt_hexmask_gen bitmap True"

definition hex_value :: "char \<Rightarrow> nat option" where
  "hex_value c =
     (let k = nat (char_code c) in
      if 48 \<le> k \<and> k \<le> 57 then Some (k - 48)
      else if 97 \<le> k \<and> k \<le> 102 then Some (k - 32 - (65 - 10))
      else if 65 \<le> k \<and> k \<le> 70 then Some (k - (65 - 10))
      else None)"

text \<open>One bit of a digit that does not fit as a whole: \<open>None\<close> inside is the jump out of the loop
  with \<open>rc = -1\<close>; the bits set before it stay.\<close>

definition unhex_bit :: "nat \<Rightarrow> nat \<Rightarrow> nat \<Rightarrow> nat \<Rightarrow> bitstr \<times> bool \<Rightarrow> (bitstr \<times> bool) option" where
  "unhex_bit bitsize current j bit_index s = (case s of (b, ok) \<Rightarrow>
     if ok \<and> bit current j then
       if bit_index + j < bitsize then do { b' \<leftarrow> bit_set b (int (bit_index + j)); Some (b', True) }
       else Some (b, False)
     else Some (b, ok))"

text \<open>The characters from the last to the first. \<open>bit_index\<close> is an \<open>int32_t\<close>, and so is the length of the text.\<close>

definition next_digit :: "nat \<Rightarrow> nat option" where
  "next_digit bit_index = (if bit_index + 4 < 2 ^ 31 then Some (bit_index + 4) else None)"

fun unhex_loop :: "nat \<Rightarrow> bitstr \<Rightarrow> nat \<Rightarrow> string \<Rightarrow> (bitstr \<times> int) option" where
  "unhex_loop bitsize b bit_index [] = Some (b, 0)"
| "unhex_loop bitsize b bit_index (c # cs) = (case hex_value c of
     None \<Rightarrow> Some (b, -1)
   | Some current \<Rightarrow>
       if bit_index + 3 < bitsize \<and> bit_index mod 4 = 0 then do {
         w \<leftarrow> bs_get b (bit_word bit_index);
         b' \<leftarrow> bs_put b (bit_word bit_index) (w OR push_bit (bit_index AND 63) (of_nat (current AND 15)));
         k \<leftarrow> next_digit bit_index;
         unhex_loop bitsize b' k cs }
       else do {
         s0 \<leftarrow> unhex_bit bitsize current 0 bit_index (b, True);
         s1 \<leftarrow> unhex_bit bitsize current 1 bit_index s0;
         s2 \<leftarrow> unhex_bit bitsize current 2 bit_index s1;
         (b', ok) \<leftarrow> unhex_bit bitsize current 3 bit_index s2;
         if ok then do { k \<leftarrow> next_digit bit_index; unhex_loop bitsize b' k cs } else Some (b', -1) })"

definition bit_unfmt_hexmask :: "bitstr option \<Rightarrow> string option \<Rightarrow> (bitstr option \<times> int) option" where
  "bit_unfmt_hexmask bo so = (case (bo, so) of
     (Some bitmap, Some str) \<Rightarrow> do {
       xassert (length str < 2 ^ 31);
       bitsize \<leftarrow> bit_size bitmap;
       b \<leftarrow> bit_nclear bitmap 0 (int bitsize - 1);
       let digits = (if take 2 str = ''0x'' then drop 2 str else str);
       (b', rc) \<leftarrow> unhex_loop bitsize b 0 (rev digits);
       Some (Some b', rc) }
   | _ \<Rightarrow> Some (bo, -1))"

subsection \<open>The scan emits the maximal runs\<close>

function run_last :: "bitstr \<Rightarrow> nat \<Rightarrow> nat \<Rightarrow> nat" where
  "run_last b n k = (if k + 1 < n \<and> bs_bit b (k + 1) then run_last b n (k + 1) else k)"
  by pat_completeness auto
termination
  by (relation "measure (\<lambda>(b, n, k). n - k)") auto

declare run_last.simps [simp del]

lemma run_last_ge: "k \<le> run_last b n k"
  by (induction b n k rule: run_last.induct) (subst run_last.simps, simp add: Suc_leD)

function runs_from :: "bitstr \<Rightarrow> nat \<Rightarrow> nat \<Rightarrow> (nat \<times> nat) list" where
  "runs_from b n k =
     (if k < n then
        if bs_bit b k then (k, run_last b n k) # runs_from b n (run_last b n k + 1)
        else runs_from b n (k + 1)
      else [])"
  by pat_completeness auto
termination
  using run_last_ge by (relation "measure (\<lambda>(b, n, k). n - k)") (auto simp: le_imp_less_Suc diff_less_mono2 less_le_trans)

declare runs_from.simps [simp del]

fun fold_runs :: "(nat \<Rightarrow> nat \<Rightarrow> 's \<Rightarrow> 's option) \<Rightarrow> (nat \<times> nat) list \<Rightarrow> 's \<Rightarrow> 's option" where
  "fold_runs f [] s = Some s"
| "fold_runs f ((lo, hi) # rs) s = f lo hi s \<bind> fold_runs f rs"

lemma run_end_eq:
  assumes "bs_valid b" "n \<le> bs_bits b"
  shows "run_end b n k = Some (run_last b n k)"
  using assms
proof (induction b n k rule: run_end.induct)
  case (1 b n k)
  show ?case
  proof (cases "k + 1 < n")
    case True
    with 1 have t: "bit_test b (k + 1) = Some (bs_bit b (k + 1))" by (intro bit_test_eq bs_valid_word) auto
    then show ?thesis
      unfolding run_end.simps [of b n k] run_last.simps [of b n k] t
      using True "1.IH" [OF True t _ "1.prems"] by auto
  next
    case False
    then show ?thesis unfolding run_end.simps [of b n k] run_last.simps [of b n k] by auto
  qed
qed

lemma run_last_props:
  assumes "bs_bit b k" "k < n"
  shows "run_last b n k < n" "\<And>i. k \<le> i \<Longrightarrow> i \<le> run_last b n k \<Longrightarrow> bs_bit b i"
    "run_last b n k + 1 < n \<Longrightarrow> \<not> bs_bit b (run_last b n k + 1)"
proof -
  have "run_last b n k < n \<and> (\<forall>i. k \<le> i \<and> i \<le> run_last b n k \<longrightarrow> bs_bit b i)
      \<and> (run_last b n k + 1 < n \<longrightarrow> \<not> bs_bit b (run_last b n k + 1))"
    using assms
  proof (induction b n k rule: run_last.induct)
    case (1 b n k)
    show ?case
    proof (cases "k + 1 < n \<and> bs_bit b (k + 1)")
      case True
      then have e: "run_last b n k = run_last b n (k + 1)" by (subst run_last.simps) simp
      have IH: "run_last b n (k + 1) < n \<and> (\<forall>i. k + 1 \<le> i \<and> i \<le> run_last b n (k + 1) \<longrightarrow> bs_bit b i)
          \<and> (run_last b n (k + 1) + 1 < n \<longrightarrow> \<not> bs_bit b (run_last b n (k + 1) + 1))"
        using "1.IH" [OF True] True by blast
      have "bs_bit b i" if "k \<le> i" "i \<le> run_last b n (k + 1)" for i
        using that IH "1.prems"(1) by (cases "i = k") auto
      with IH show ?thesis unfolding e by blast
    next
      case False
      then have "run_last b n k = k" by (subst run_last.simps) auto
      with False 1 show ?thesis by (auto dest: order_antisym)
    qed
  qed
  then show "run_last b n k < n" "\<And>i. k \<le> i \<Longrightarrow> i \<le> run_last b n k \<Longrightarrow> bs_bit b i"
    "run_last b n k + 1 < n \<Longrightarrow> \<not> bs_bit b (run_last b n k + 1)" by blast+
qed

lemma runs_skip: "k \<le> m \<Longrightarrow> (\<And>j. k \<le> j \<Longrightarrow> j < m \<Longrightarrow> j < n \<Longrightarrow> \<not> bs_bit b j) \<Longrightarrow> runs_from b n k = runs_from b n m"
proof (induction "m - k" arbitrary: k)
  case (Suc d)
  then have km: "k < m" by simp
  have "runs_from b n k = runs_from b n (k + 1)"
  proof (cases "k < n")
    case True
    then have "\<not> bs_bit b k" using Suc.prems km by blast
    with True show ?thesis by (simp add: runs_from.simps [of b n k])
  next
    case False
    then have "runs_from b n k = []" "runs_from b n (k + 1) = []" by (subst runs_from.simps, simp)+
    then show ?thesis by simp
  qed
  also have "\<dots> = runs_from b n m" using Suc km by (intro Suc.hyps) auto
  finally show ?case .
qed simp

text \<open>The word test skips a whole word only from a word boundary: either the position is aligned, or
  some bit before it in its word is set.\<close>

definition scan_ok :: "bitstr \<Rightarrow> nat \<Rightarrow> bool" where
  "scan_ok b k \<longleftrightarrow> k mod 64 = 0 \<or> (\<exists>j. j < k \<and> j div 64 = k div 64 \<and> bs_bit b j) \<or> (\<exists>j. k \<le> j \<and> j div 64 = k div 64 \<and> bs_bit b j)"

lemma scan_ok_Suc:
  assumes "j \<le> k" "j div 64 = k div 64" "bs_bit b j"
  shows "scan_ok b (Suc k)"
proof (cases "Suc k div 64 = k div 64")
  case True
  with assms show ?thesis unfolding scan_ok_def by (metis le_imp_less_Suc)
next
  case False
  then have "Suc k mod 64 = 0" by (simp add: div_Suc split: if_splits)
  then show ?thesis by (simp add: scan_ok_def)
qed

lemma word_nonzero:
  assumes "k div 64 < length (bs_words b)"
  shows "bs_words b ! (k div 64) \<noteq> 0 \<longleftrightarrow> (\<exists>j. j div 64 = k div 64 \<and> bs_bit b j)"
proof
  assume "bs_words b ! (k div 64) \<noteq> 0"
  then obtain m where m: "m < 64" "bit (bs_words b ! (k div 64)) m" by (auto simp: u64_zero_iff)
  then have "bs_bit b (64 * (k div 64) + m)" using assms by (simp add: bs_bit_def)
  with m(1) show "\<exists>j. j div 64 = k div 64 \<and> bs_bit b j" by (intro exI [of _ "64 * (k div 64) + m"]) simp
next
  assume "\<exists>j. j div 64 = k div 64 \<and> bs_bit b j"
  then show "bs_words b ! (k div 64) \<noteq> 0" by (auto simp: bs_bit_def)
qed

lemma scan_loop_eq:
  assumes "bs_valid b" "n \<le> bs_bits b" "scan_ok b k"
  shows "scan_loop b n emit k s = fold_runs emit (runs_from b n k) s"
  using assms
proof (induction b n emit k s rule: scan_loop.induct)
  case (1 b n emit k s)
  note prems = "1.prems"
  show ?case
  proof (cases "k < n")
    case True
    then have kb: "k < bs_bits b" using prems(2) by simp
    have wl: "k div 64 < length (bs_words b)" by (rule bs_valid_word [OF prems(1) kb])
    note get = bs_get_word [OF wl] and nz = word_nonzero [OF wl]
    have t: "bit_test b k = Some (bs_bit b k)" by (rule bit_test_eq [OF wl])
    show ?thesis
    proof (cases "bs_words b ! (k div 64) = 0")
      case z: True
      then have al: "k mod 64 = 0" using prems(3) nz unfolding scan_ok_def by blast
      have "runs_from b n k = runs_from b n (k + 64)"
        using z nz div_64_iff [OF al] by (intro runs_skip) auto
      moreover have "scan_loop b n emit (k + 64) s = fold_runs emit (runs_from b n (k + 64)) s"
        using al by (intro "1.IH"(1) [OF True get z prems(1,2)]) (simp add: scan_ok_def)
      ultimately show ?thesis unfolding scan_loop.simps [of b n emit k] get using True z by simp
    next
      case w: False
      then obtain j where j: "j div 64 = k div 64" "bs_bit b j" using nz by blast
      show ?thesis
      proof (cases "bs_bit b k")
        case set: True
        let ?e = "run_last b n k"
        have "scan_ok b (Suc ?e)"
          using run_last_props(2) [OF set True, of ?e] run_last_ge [of k b n] by (intro scan_ok_Suc [of ?e]) auto
        then have ok: "scan_ok b (?e + 1)" by simp
        show ?thesis
          unfolding scan_loop.simps [of b n emit k] get t runs_from.simps [of b n k] run_end_eq [OF prems(1,2)]
          using True w set "1.IH"(2) [OF True get w t set run_end_eq [OF prems(1,2)] _ prems(1,2) ok]
          by (cases "emit k ?e s") auto
      next
        case clear: False
        have "scan_ok b (k + 1)"
        proof (cases "j < k")
          case True
          then show ?thesis using scan_ok_Suc [of j k b] j by simp
        next
          case False
          then have "k < j" using clear j(2) by (cases "j = k") auto
          then show ?thesis using j(1)
            by (cases "(k + 1) div 64 = k div 64")
              (use j in \<open>auto simp: scan_ok_def div_Suc split: if_splits intro: exI [of _ j]\<close>)
        qed
        with "1.IH"(3) [OF True get w t clear prems(1,2)] show ?thesis
          unfolding scan_loop.simps [of b n emit k] get t runs_from.simps [of b n k] using True w clear by simp
      qed
    qed
  next
    case False
    then show ?thesis by (simp add: scan_loop.simps [of b n emit k] runs_from.simps [of b n k])
  qed
qed

lemma scan_ok_0 [simp]: "scan_ok b 0"
  by (simp add: scan_ok_def)

text \<open>The runs of a string: bounds, coverage, number.\<close>

definition runs_bits :: "(nat \<times> nat) list \<Rightarrow> nat set" where
  "runs_bits rs = (\<Union>(lo, hi) \<in> set rs. {lo..hi})"

lemma runs_bits_simps [simp]: "runs_bits [] = {}" "runs_bits ((lo, hi) # rs) = {lo..hi} \<union> runs_bits rs"
  by (simp_all add: runs_bits_def)

lemma runs_from_end: "n \<le> k \<Longrightarrow> runs_from b n k = []"
  by (subst runs_from.simps) simp

lemma runs_from_facts:
  "(\<forall>(lo, hi) \<in> set (runs_from b n k). k \<le> lo \<and> lo \<le> hi \<and> hi < n)
   \<and> runs_bits (runs_from b n k) = {i. k \<le> i \<and> i < n \<and> bs_bit b i}
   \<and> 2 * length (runs_from b n k) \<le> n - k + (if bs_bit b k then 1 else 0)"
proof (induction b n k rule: runs_from.induct)
  case (1 b n k)
  show ?case
  proof (cases "k < n")
    case True
    show ?thesis
    proof (cases "bs_bit b k")
      case set: True
      let ?e = "run_last b n k"
      note rl = run_last_props [OF set True] run_last_ge [of k b n]
      have u: "runs_from b n k = (k, ?e) # runs_from b n (?e + 1)"
        using True set by (subst runs_from.simps) simp
      note IH = "1.IH"(1) [OF True set]
      have 1: "\<forall>(lo, hi) \<in> set (runs_from b n k). k \<le> lo \<and> lo \<le> hi \<and> hi < n"
        unfolding u using IH rl by auto
      have bits: "runs_bits (runs_from b n (?e + 1)) = {i. ?e + 1 \<le> i \<and> i < n \<and> bs_bit b i}" using IH by blast
      have 2: "runs_bits (runs_from b n k) = {i. k \<le> i \<and> i < n \<and> bs_bit b i}"
      proof (rule set_eqI)
        fix i
        show "i \<in> runs_bits (runs_from b n k) \<longleftrightarrow> i \<in> {i. k \<le> i \<and> i < n \<and> bs_bit b i}"
          unfolding u runs_bits_simps bits using rl by (cases "i \<le> ?e") auto
      qed
      have "2 * length (runs_from b n (?e + 1)) \<le> n - (?e + 1)"
      proof (cases "?e + 1 < n")
        case True
        then show ?thesis using IH rl(3) by auto
      qed (simp add: runs_from_end)
      then have 3: "2 * length (runs_from b n k) \<le> n - k + (if bs_bit b k then 1 else 0)"
        unfolding u using rl(1,4) set by simp
      from 1 2 3 show ?thesis by blast
    next
      case clear: False
      have u: "runs_from b n k = runs_from b n (k + 1)" using True clear by (subst runs_from.simps) simp
      have "{i. k + 1 \<le> i \<and> i < n \<and> bs_bit b i} = {i. k \<le> i \<and> i < n \<and> bs_bit b i}"
        using clear by (auto simp: Suc_le_eq le_less)
      moreover have "2 * length (runs_from b n (k + 1)) \<le> n - k"
        using "1.IH"(2) [OF True clear] True by (auto split: if_splits)
      moreover have "k \<le> lo \<and> lo \<le> hi \<and> hi < n" if "(lo, hi) \<in> set (runs_from b n (k + 1))" for lo hi
        using "1.IH"(2) [OF True clear] that by auto
      ultimately show ?thesis unfolding u using "1.IH"(2) [OF True clear] by auto
    qed
  next
    case False
    then show ?thesis by (auto simp: runs_from_end)
  qed
qed

definition bs_runs :: "bitstr \<Rightarrow> (nat \<times> nat) list" where
  "bs_runs b = runs_from b (bs_bits b) 0"

lemma bs_runs_facts:
  "(lo, hi) \<in> set (bs_runs b) \<Longrightarrow> lo \<le> hi \<and> hi < bs_bits b"
  "runs_bits (bs_runs b) = bs_set b"
  "2 * length (bs_runs b) \<le> bs_bits b + 1"
  using runs_from_facts [of b "bs_bits b" 0] by (auto simp: bs_runs_def bs_set_def split: if_splits)

lemma bs_runs_empty [simp]: "bs_runs b = [] \<longleftrightarrow> bs_set b = {}"
proof
  assume "bs_set b = {}"
  then have "runs_bits (bs_runs b) = {}" by (simp add: bs_runs_facts)
  then show "bs_runs b = []" using bs_runs_facts(1) [of _ _ b] by (cases "bs_runs b") auto
qed (use bs_runs_facts(2) [of b] in auto)

subsection \<open>What is printed\<close>

fun runs_text :: "string \<Rightarrow> (nat \<times> nat) list \<Rightarrow> string" where
  "runs_text comma [] = ''''"
| "runs_text comma ((lo, hi) # rs) = range_str comma lo hi @ runs_text '','' rs"

lemma fold_fmt_full:
  "fold_runs (fmt_full_emit 0) rs (Some t, comma) =
     Some (Some (t @ runs_text comma rs), if rs = [] then comma else '','')"
  by (induction rs arbitrary: t comma) (auto simp: fmt_full_emit_def)

lemma bit_fmt_full_eq [c_sem]:
  assumes "bs_valid b"
  shows "bit_fmt_full b = Some (if bs_set b = {} then None else Some (runs_text '''' (bs_runs b)))"
proof -
  have "scan_loop b (bs_bits b) (fmt_full_emit 0) 0 (None, '''') = fold_runs (fmt_full_emit 0) (bs_runs b) (None, '''')"
    using assms by (simp add: scan_loop_eq bs_runs_def)
  moreover have "fold_runs (fmt_full_emit 0) rs (None, '''') =
      Some (if rs = [] then (None, '''') else (Some (runs_text '''' rs), '',''))" for rs
  proof (cases rs)
    case (Cons r rs')
    then show ?thesis
      using fold_fmt_full [of rs'] by (cases r) (simp add: fmt_full_emit_def [of 0 _ _ "(None, _)"])
  qed simp
  ultimately show ?thesis using assms by (simp add: bit_fmt_full_def)
qed

lemma fold_fmt:
  "length t < len \<Longrightarrow> fold_runs (fmt_emit len) rs (t, comma) =
     Some (take (len - 1) (t @ runs_text comma rs), if rs = [] then comma else '','')"
proof (induction rs arbitrary: t comma)
  case (Cons r rs)
  obtain lo hi where r: "r = (lo, hi)" by fastforce
  let ?t = "t @ take (len - length t - 1) (range_str comma lo hi)"
  have "length ?t < len" using Cons.prems by auto
  from Cons.IH [OF this, of "'',''"] r show ?case
    using Cons.prems by (auto simp: fmt_emit_def take_append min_def)
qed simp

lemma bit_fmt_eq [c_sem]:
  "bs_valid b \<Longrightarrow> 0 < len \<Longrightarrow> bit_fmt len b = Some (take (nat len - 1) (runs_text '''' (bs_runs b)))"
  by (simp add: bit_fmt_def scan_loop_eq fold_fmt flip: bs_runs_def)

fun flat_runs :: "(nat \<times> nat) list \<Rightarrow> int list" where
  "flat_runs [] = []"
| "flat_runs ((lo, hi) # rs) = int lo # int hi # flat_runs rs"

lemma length_flat_runs [simp]: "length (flat_runs rs) = 2 * length rs"
  by (induction rs rule: flat_runs.induct) auto

lemma fold_inx:
  "length inx + 2 * length rs \<le> cap \<Longrightarrow> fold_runs (inx_emit cap) rs inx = Some (inx @ flat_runs rs)"
  by (induction rs arbitrary: inx) (auto simp: inx_emit_def)

lemma bitstr2inx_eq [c_sem]:
  assumes "bs_valid b"
  shows "bitstr2inx (Some b) = Some (flat_runs (bs_runs b) @ [-1])"
  using assms bs_runs_facts(3) [of b] by (simp add: bitstr2inx_def scan_loop_eq fold_inx flip: bs_runs_def)

subsection \<open>What is parsed\<close>

lemma inx_loop_eq:
  assumes "bs_valid b" "\<forall>(lo, hi) \<in> set rs. lo \<le> hi \<and> hi < bs_bits b"
  shows "\<exists>b'. inx_loop b (int (bs_bits b)) (flat_runs rs @ [-1]) = Some (b', 0) \<and> bs_valid b'
    \<and> bs_bits b' = bs_bits b \<and> bs_set b' = bs_set b \<union> runs_bits rs"
  using assms
proof (induction rs arbitrary: b)
  case (Cons r rs)
  obtain lo hi where r: "r = (lo, hi)" by fastforce
  let ?b = "bs_fill b (int lo) (int hi + 1) True"
  have lh: "lo \<le> hi" "hi < bs_bits b" using Cons.prems r by auto
  then have ns: "bit_nset b (int lo) (int hi) = Some ?b" using Cons.prems(1) by (intro bit_nset_eq) auto
  obtain b' where b': "inx_loop ?b (int (bs_bits b)) (flat_runs rs @ [-1]) = Some (b', 0)" "bs_valid b'"
    "bs_bits b' = bs_bits b" "bs_set b' = bs_set ?b \<union> runs_bits rs"
    using Cons.IH [of ?b] Cons.prems by auto
  have "bs_set ?b = bs_set b \<union> {lo..hi}" using Cons.prems(1) lh by (auto simp: bs_set_fill)
  with b' ns lh r show ?case by auto
qed simp

lemma inx2bitstr_eq [c_sem]:
  assumes "bs_valid b" "\<forall>(lo, hi) \<in> set rs. lo \<le> hi \<and> hi < bs_bits b"
  shows "\<exists>b'. inx2bitstr b (flat_runs rs @ [-1]) = Some (b', 0) \<and> bs_valid b'
    \<and> bs_bits b' = bs_bits b \<and> bs_set b' = runs_bits rs"
proof -
  let ?b = "bs_fill b 0 (int (bs_bits b) - 1 + 1) False"
  have pos: "0 < int (bs_bits b)" using bs_valid_pos [OF assms(1)] by simp
  have nc: "bit_nclear b 0 (int (bs_bits b) - 1) = Some ?b" using assms(1) pos by (intro bit_nclear_eq) auto
  have "bs_set ?b = {}" using assms(1) by (auto simp: bs_set_fill dest: bs_set_less)
  with inx_loop_eq [of ?b rs] assms nc pos show ?thesis by (auto simp: inx2bitstr_def)
qed

lemma digit_char_code: "d < 10 \<Longrightarrow> char_code (digit_char d) = 48 + int d"
  by (simp add: char_code_def digit_char_def)

lemma s32_id: "0 \<le> x \<Longrightarrow> x < 2 ^ 31 \<Longrightarrow> s32 x = x"
  by (simp add: s32_def signed_take_bit_int_eq_self)

lemma array_cap_ok: "0 \<le> sz \<Longrightarrow> sz < 2 ^ 30 \<Longrightarrow> array_cap sz = Some (nat (sz * 2 + 1))"
  by (simp add: array_cap_def i32_def)

lemma ranges_loop_dec:
  "n < 2 ^ 31 \<Longrightarrow> ranges_loop cap first (dec n @ cs) 0 sv out = ranges_loop cap False cs (int n) sv out"
proof (induction n arbitrary: first cs rule: dec.induct)
  case (1 n)
  show ?case
  proof (cases "n < 10")
    case True
    then have dg: "is_digit (digit_char n)" "char_code (digit_char n) - 48 = int n"
      by (auto simp: digit_char_code is_digit_def)
    have "dec n = [digit_char n]" using True by (simp add: dec.simps)
    then show ?thesis using dg 1(2) by (simp add: i32_def)
  next
    case False
    have q: "n div 10 < 2 ^ 31" using 1(2) by auto
    have dg: "is_digit (digit_char (n mod 10))" "char_code (digit_char (n mod 10)) - 48 = int (n mod 10)"
      by (auto simp: digit_char_code is_digit_def)
    have "int (n div 10) * 10 + int (n mod 10) = int n"
      using arg_cong [OF div_mult_mod_eq [of n 10], of int] by (simp only: of_nat_add of_nat_mult of_nat_numeral)
    then have v: "i32 (int (n div 10) * 10) = Some (int (n div 10) * 10)" "i32 (int (n div 10) * 10 + int (n mod 10)) = Some (int n)"
      using 1(2) by (simp_all add: i32_def)
    have u: "dec n = dec (n div 10) @ [digit_char (n mod 10)]" using False by (subst dec.simps) simp
    show ?thesis unfolding u using "1.IH" [OF False q, of first "digit_char (n mod 10) # cs"] dg v by simp
  qed
qed

lemma ranges_loop_comma:
  "c = CHR '','' \<or> c = CHR 0x00 \<Longrightarrow> length out + 2 \<le> cap \<Longrightarrow>
   ranges_loop cap False (c # cs) sm sv out =
     ranges_loop cap False cs 0 (-1) (out @ [if sv = -1 then sm else sv, sm])"
  by (auto simp: is_digit_def char_code_def)

text \<open>The parser on the text of runs, from a separator to the next. Each element takes at least one
  character, so the array of \<open>2 * (strlen + 1) + 1\<close> values has room.\<close>

lemma ranges_loop_element:
  assumes "lo < 2 ^ 31" "hi < 2 ^ 31" "length out + 2 \<le> cap" "c = CHR '','' \<or> c = CHR 0x00"
  shows "ranges_loop cap first (range_str '''' lo hi @ c # cs) 0 (-1) out =
     ranges_loop cap False cs 0 (-1) (out @ [int lo, int hi])"
proof (cases "hi = lo")
  case True
  then show ?thesis using assms by (simp add: range_str_def ranges_loop_dec ranges_loop_comma del: ranges_loop.simps)
next
  case False
  have "ranges_loop cap False (CHR ''-'' # dec hi @ c # cs) (int lo) (-1) out =
      ranges_loop cap False (dec hi @ c # cs) 0 (int lo) out"
    by (simp add: is_digit_def char_code_def)
  with False show ?thesis
    using assms by (simp add: range_str_def ranges_loop_dec ranges_loop_comma del: ranges_loop.simps)
qed

lemma range_str_comma: "range_str '','' lo hi = CHR '','' # range_str '''' lo hi"
  by (simp add: range_str_def)

lemma ranges_loop_runs:
  assumes "\<forall>(lo, hi) \<in> set rs. lo < 2 ^ 31 \<and> hi < 2 ^ 31" "length out + 2 * length rs \<le> cap" "rs \<noteq> []"
  shows "ranges_loop cap first (runs_text '''' rs @ [CHR 0x00]) 0 (-1) out = Some (out @ flat_runs rs)"
  using assms
proof (induction rs arbitrary: out first)
  case (Cons r rs)
  note IH = Cons.IH and prems = Cons.prems
  obtain lo hi where r: "r = (lo, hi)" by fastforce
  have b: "lo < 2 ^ 31" "hi < 2 ^ 31" "length out + 2 \<le> cap" using prems r by auto
  show ?case
  proof (cases rs)
    case Nil
    then show ?thesis using ranges_loop_element [OF b, of "CHR 0x00" first "[]"] r by simp
  next
    case (Cons r2 rs2)
    obtain lo2 hi2 where r2: "r2 = (lo2, hi2)" by fastforce
    have tx: "runs_text '','' rs = CHR '','' # runs_text '''' rs"
      using Cons r2 by (simp add: range_str_comma)
    have "ranges_loop cap False (runs_text '''' rs @ [CHR 0x00]) 0 (-1) (out @ [int lo, int hi]) =
        Some ((out @ [int lo, int hi]) @ flat_runs rs)"
      using prems Cons by (intro IH) auto
    then show ?thesis
      using ranges_loop_element [OF b, of "CHR '',''" first "runs_text '''' rs @ [CHR 0x00]"] r tx
      by (simp del: ranges_loop.simps)
  qed
qed simp

lemma dec_nonempty [simp]: "dec n \<noteq> []"
  by (subst dec.simps) simp

lemma dec_chars: "c \<in> set (dec n) \<Longrightarrow> is_digit c"
proof (induction n rule: dec.induct)
  case (1 n)
  have d: "is_digit (digit_char (n mod 10))" "n < 10 \<Longrightarrow> is_digit (digit_char n)"
    by (auto simp: digit_char_code is_digit_def)
  show ?case using 1 d by (subst (asm) (2) dec.simps) (auto split: if_splits)
qed

lemma runs_text_no_colon: "CHR '':'' \<notin> set comma \<Longrightarrow> CHR '':'' \<notin> set (runs_text comma rs)"
proof (induction rs arbitrary: comma)
  case (Cons r rs)
  have "CHR '':'' \<notin> set (dec n)" for n
    using dec_chars [of "CHR '':''" n] by (auto simp: is_digit_def char_code_def)
  with Cons show ?case by (cases r) (auto simp: range_str_def)
qed simp

lemma length_runs_text: "length rs \<le> length (runs_text comma rs)"
proof (induction rs arbitrary: comma)
  case (Cons r rs)
  obtain lo hi where r: "r = (lo, hi)" by fastforce
  have "0 < length (dec lo)" by simp
  then have "0 < length (range_str comma lo hi)" unfolding range_str_def by auto
  then have "1 \<le> length (range_str comma lo hi)" by linarith
  with Cons.IH [of "'',''"] r show ?case by (simp only: runs_text.simps length_append list.size)
qed simp

lemma text_cap:
  assumes "length t < 2 ^ 30 - 1"
  shows "s32 (int (length t) + 1) = int (length t) + 1" "array_cap (int (length t) + 1) = Some ((length t + 1) * 2 + 1)"
  using assms by (simp_all add: s32_id array_cap_ok nat_add_distrib nat_mult_distrib)

lemma length_dec: "n < 10 ^ k \<Longrightarrow> 0 < k \<Longrightarrow> length (dec n) \<le> k"
proof (induction k arbitrary: n)
  case (Suc k)
  show ?case
  proof (cases "n < 10")
    case False
    then have "n div 10 < 10 ^ k" "0 < k" using Suc.prems(1) by (auto simp: less_mult_imp_div_less mult.commute intro: gr0I)
    with Suc.IH [of "n div 10"] False show ?thesis by (subst dec.simps) simp
  qed (simp add: dec.simps)
qed simp

text \<open>A range of positions below one hundred million takes at most 18 characters.\<close>

lemma length_runs_text_le:
  assumes "\<forall>(lo, hi) \<in> set rs. lo < 10 ^ 8 \<and> hi < 10 ^ 8" "length comma \<le> 1"
  shows "length (runs_text comma rs) \<le> 18 * length rs"
  using assms
proof (induction rs arbitrary: comma)
  case (Cons r rs)
  obtain lo hi where r: "r = (lo, hi)" by fastforce
  have "length (dec lo) \<le> 8" "length (dec hi) \<le> 8" using Cons.prems(1) r by (auto intro!: length_dec)
  then have "length (range_str comma lo hi) \<le> 18" using Cons.prems(2) by (auto simp: range_str_def)
  with Cons.IH [of "'',''"] Cons.prems(1) r show ?case by auto
qed simp

lemma bitfmt2int_runs:
  assumes "rs \<noteq> []" "\<forall>(lo, hi) \<in> set rs. lo < 2 ^ 31 \<and> hi < 2 ^ 31" "length (runs_text '''' rs) < 2 ^ 30 - 1"
  shows "bitfmt2int (Some (runs_text '''' rs)) = Some (Some (flat_runs rs @ [-1]))"
proof -
  let ?t = "runs_text '''' rs"
  have "CHR '':'' \<notin> set ?t" by (rule runs_text_no_colon) simp
  moreover have "ranges_loop ((length ?t + 1) * 2 + 1) True (?t @ [CHR 0x00]) 0 (-1) [] = Some (flat_runs rs)"
    using ranges_loop_runs [OF assms(2) _ assms(1), of "[]"] length_runs_text [of rs "''''"] by simp
  ultimately show ?thesis
    using length_runs_text [of rs "''''"] text_cap [OF assms(3)] by (simp add: bitfmt2int_def Let_def del: ranges_loop.simps)
qed

lemma runs_text_nonempty: "rs \<noteq> [] \<Longrightarrow> runs_text comma rs \<noteq> ''''"
  using length_runs_text [of rs comma] by auto

lemma unfmt_fmt:
  assumes "bs_valid b" "bs_valid c" "bs_bits b \<le> bs_bits c" "bs_set b \<noteq> {}"
  shows "\<exists>t. bit_fmt_full b = Some (Some t) \<and> (bs_bits b \<le> 2 ^ 26 \<longrightarrow> length t < 2 ^ 30 - 1)
     \<and> (length t < 2 ^ 30 - 1 \<longrightarrow> (\<exists>c'. bit_unfmt c (Some t) = Some (c', 0) \<and> bs_valid c' \<and> bs_bits c' = bs_bits c \<and> bs_set c' = bs_set b))"
proof -
  have max: "bs_bits b \<le> 0x40000000" using assms(1) by (simp add: bs_valid_def)
  have bnd: "\<forall>(lo, hi) \<in> set (bs_runs b). lo < 2 ^ 31 \<and> hi < 2 ^ 31"
    "\<forall>(lo, hi) \<in> set (bs_runs b). lo \<le> hi \<and> hi < bs_bits c"
    using bs_runs_facts(1) [of _ _ b] max assms(3) by fastforce+
  have ne: "bs_runs b \<noteq> []" using assms(4) by simp
  let ?t = "runs_text '''' (bs_runs b)"
  have "length ?t < 2 ^ 30 - 1" if "bs_bits b \<le> 2 ^ 26"
  proof -
    have "\<forall>(lo, hi) \<in> set (bs_runs b). lo < 10 ^ 8 \<and> hi < 10 ^ 8" using bs_runs_facts(1) [of _ _ b] that by fastforce
    then have "length ?t \<le> 18 * length (bs_runs b)" by (rule length_runs_text_le) simp
    with bs_runs_facts(3) [of b] that show ?thesis by simp
  qed
  moreover have "\<exists>c'. bit_unfmt c (Some ?t) = Some (c', 0) \<and> bs_valid c' \<and> bs_bits c' = bs_bits c \<and> bs_set c' = bs_set b"
    if "length ?t < 2 ^ 30 - 1"
    using inx2bitstr_eq [OF assms(2) bnd(2)] bitfmt2int_runs [OF ne bnd(1) that] runs_text_nonempty [OF ne]
      assms(2) bs_runs_facts(2) [of b] by (auto simp: bit_unfmt_def)
  moreover have "bit_fmt_full b = Some (Some ?t)" using bit_fmt_full_eq [OF assms(1)] assms(4) by simp
  ultimately show ?thesis by blast
qed

subsection \<open>Parsing arbitrary text is safe\<close>

text \<open>Texts whose numbers stay in range: without a colon, every stretch between separators reads as a number below \<open>2 ^ 31\<close> (other
  characters are skipped, they do not end a number); in the step format the size of the array and the last step fit.\<close>

definition numbers_fit :: "string \<Rightarrow> bool" where
  "numbers_fit t \<longleftrightarrow> (\<forall>p w q. t = p @ w @ q \<longrightarrow> CHR ''-'' \<notin> set w \<longrightarrow> CHR '','' \<notin> set w \<longrightarrow> digits_value (filter is_digit w) < 2 ^ 31)"

definition step_fits :: "int \<Rightarrow> int \<Rightarrow> int \<Rightarrow> bool" where
  "step_fits start_id end_id step \<longleftrightarrow> end_id - start_id < 2 ^ 31 \<and> end_id - start_id < (2 ^ 30 - 1) * step \<and> end_id + step \<le> 2 ^ 31"

definition step_text :: "string \<Rightarrow> int \<Rightarrow> int \<Rightarrow> int \<Rightarrow> bool" where
  "step_text t start_id end_id step \<longleftrightarrow> CHR '':'' \<in> set t \<and> (\<exists>l1 t1 l2 t2 l3. strtol t = (l1, CHR ''-'' # t1) \<and> strtol t1 = (l2, CHR '':'' # t2)
     \<and> strtol t2 = (l3, []) \<and> start_id = s32 l1 \<and> end_id = s32 l2 \<and> step = s32 l3) \<and> start_id \<le> end_id \<and> 0 < step"

definition text_fits :: "string \<Rightarrow> bool" where
  "text_fits t \<longleftrightarrow> (if CHR '':'' \<in> set t then \<forall>start_id end_id step. step_text t start_id end_id step \<longrightarrow> step_fits start_id end_id step
     else length t < 2 ^ 30 - 1 \<and> numbers_fit t)"

lemma numbers_fit_tl: "numbers_fit (c # cs) \<Longrightarrow> numbers_fit cs"
  unfolding numbers_fit_def by (metis append_Cons)

lemma numbers_fit_nul:
  assumes "numbers_fit t"
  shows "numbers_fit (t @ [CHR 0x00])"
  unfolding numbers_fit_def
proof (intro allI impI)
  fix p w q assume eq: "t @ [CHR 0x00] = p @ w @ q" and sep: "CHR ''-'' \<notin> set w" "CHR '','' \<notin> set w"
  have nul: "\<not> is_digit (CHR 0x00)" by (simp add: is_digit_def char_code_def)
  consider (q) q' where "q = q' @ [CHR 0x00]" "t = p @ w @ q'" | (w) w' where "w = w' @ [CHR 0x00]" "t = p @ w' @ []" | (p) "w = []"
    using eq by (cases q rule: rev_cases; cases w rule: rev_cases) auto
  then show "digits_value (filter is_digit w) < 2 ^ 31"
  proof cases
    case q
    with assms sep show ?thesis unfolding numbers_fit_def by blast
  next
    case w
    then have "digits_value (filter is_digit w') < 2 ^ 31" using assms sep unfolding numbers_fit_def by (metis UnCI set_append)
    with w(1) nul show ?thesis by simp
  qed (simp add: digits_value_def)
qed

lemma digits_value_snoc: "digits_value (ds @ [c]) = digits_value ds * 10 + (char_code c - 48)"
  by (simp add: digits_value_def)

lemma digits_value_nonneg: "0 \<le> digits_value (filter is_digit w)"
  by (induction w rule: rev_induct) (auto simp: digits_value_snoc is_digit_def, simp add: digits_value_def)

text \<open>\<open>w\<close> is the part of the current number that has been read.\<close>

lemma ranges_loop_room:
  assumes "length out + 2 * length cs \<le> cap" "even (length out)" "sm = digits_value (filter is_digit w)" "numbers_fit cs"
    "\<And>u v. cs = u @ v \<Longrightarrow> CHR ''-'' \<notin> set u \<Longrightarrow> CHR '','' \<notin> set u \<Longrightarrow> digits_value (filter is_digit (w @ u)) < 2 ^ 31"
  shows "\<exists>r. ranges_loop cap first cs sm sv out = Some r \<and> even (length r) \<and> length r \<le> length out + 2 * length cs"
  using assms
proof (induction cs arbitrary: first sm sv out w)
  case (Cons c cs)
  note prems = Cons.prems and fit = numbers_fit_tl [OF Cons.prems(4)]
  have fit0: "digits_value (filter is_digit ([] @ u)) < 2 ^ 31" if "cs = u @ v" "CHR ''-'' \<notin> set u" "CHR '','' \<notin> set u" for u v
    using fit that unfolding numbers_fit_def by (metis append_Nil)
  have reset: "\<exists>r. ranges_loop cap False cs 0 sv' out' = Some r \<and> even (length r) \<and> length r \<le> length out + 2 * length (c # cs)"
    if "length out' \<le> length out + 2" "even (length out')" for sv' out'
  proof -
    have "\<exists>r. ranges_loop cap False cs 0 sv' out' = Some r \<and> even (length r) \<and> length r \<le> length out' + 2 * length cs"
      using that prems(1) fit fit0 by (intro Cons.IH [where w = "[]"]) (simp_all add: digits_value_def)
    with that(1) show ?thesis by auto
  qed
  show ?case
  proof (cases "c = CHR ''-'' \<or> c = CHR '','' \<or> c = CHR 0x00")
    case True
    then have "\<not> is_digit c" by (auto simp: is_digit_def char_code_def)
    with True prems(1,2) reset [of out] reset [of "out @ [if sv = -1 then sm else sv, sm]"] show ?thesis by auto
  next
    case False
    have ext: "digits_value (filter is_digit ((w @ [c]) @ u)) < 2 ^ 31" if "cs = u @ v" "CHR ''-'' \<notin> set u" "CHR '','' \<notin> set u" for u v
      using prems(5) [of "c # u" v] that False by auto
    let ?sm = "digits_value (filter is_digit (w @ [c]))"
    have IH: "\<exists>r. ranges_loop cap False cs ?sm sv out = Some r \<and> even (length r) \<and> length r \<le> length out + 2 * length (c # cs)"
      using Cons.IH [OF _ prems(2) refl fit ext, where first = False and sv = sv] prems(1) by fastforce
    show ?thesis
    proof (cases "is_digit c")
      case True
      then have v: "?sm = sm * 10 + (char_code c - 48)" using prems(3) by (simp add: digits_value_snoc)
      have "48 \<le> char_code c" using True by (simp add: is_digit_def)
      moreover have "?sm < 2 ^ 31" "0 \<le> sm" using ext [of "[]" cs] digits_value_nonneg [of w] prems(3) by auto
      ultimately have "i32 (sm * 10) = Some (sm * 10)" "i32 (sm * 10 + (char_code c - 48)) = Some ?sm" using v by (simp_all add: i32_def)
      with True IH show ?thesis by simp
    next
      case nd: False
      with prems(3) IH False show ?thesis by simp
    qed
  qed
qed simp

lemma step_loop_room:
  assumes "0 < step" "start \<le> i" "(i - start) mod step = 0" "even (length out)"
    "int (length out) = 2 * ((i - start) div step)" "cap = nat ((end_id - start) div step + 1) * 2 + 1"
    and "- (2 ^ 31) \<le> start" "end_id + step \<le> 2 ^ 31"
  shows "\<exists>r. step_loop cap i end_id step out = Some r \<and> even (length r)
    \<and> length r \<le> max (length out) (cap - 1)"
  using assms
proof (induction cap i end_id step out rule: step_loop.induct)
  case (1 cap i end_id step out)
  note prems = "1.prems"
  show ?case
  proof (cases "i < end_id")
    case True
    then have "(i - start) div step \<le> (end_id - start) div step" using prems(1) by (intro zdiv_mono1) auto
    then have room: "length out + 2 \<le> cap" "length out + 2 \<le> cap - 1" using prems(5,6) by linarith+
    have q: "(i + step - start) div step = (i - start) div step + 1" "(i + step - start) mod step = 0"
      using prems(1,3) div_add_self2 [of step "i - start"] mod_add_self2 [of "i - start" step]
      by (simp_all add: algebra_simps)
    have i: "i32 (i + step) = Some (i + step)" using True prems(1,2,7,8) by (simp add: i32_def)
    have "\<exists>r. step_loop cap (i + step) end_id step (out @ [i, i]) = Some r \<and> even (length r)
        \<and> length r \<le> max (length (out @ [i, i])) (cap - 1)"
      using prems True room q i by (intro "1.IH") auto
    moreover have "step_loop cap i end_id step out = step_loop cap (i + step) end_id step (out @ [i, i])"
      using True room(1) prems(1) i by (subst step_loop.simps) simp
    ultimately show ?thesis using room by auto
  next
    case False
    then have "step_loop cap i end_id step out = Some out" by (subst step_loop.simps) simp
    then show ?thesis using prems(4) by simp
  qed
qed

lemma s32_range: "- (2 ^ 31) \<le> s32 x" "s32 x < 2 ^ 31"
  unfolding s32_def by (rule signed_take_bit_int_greater_eq_minus_exp, rule signed_take_bit_int_less_exp)

lemma bitfmt2int_step:
  assumes "CHR '':'' \<in> set t"
  shows "if \<exists>s e p. step_text t s e p then \<exists>s e p. step_text t s e p \<and> bitfmt2int (Some t) = step_array s e p else bitfmt2int (Some t) = Some None"
proof -
  obtain l1 t1 l2 t2 l3 t3 where s: "strtol t = (l1, t1)" "strtol (tl t1) = (l2, t2)" "strtol (tl t2) = (l3, t3)"
    by (metis prod.exhaust)
  have run: "bitfmt2int (Some t) = (if t1 = [] \<or> hd t1 \<noteq> CHR ''-'' \<or> t2 = [] \<or> hd t2 \<noteq> CHR '':'' \<or> t3 \<noteq> [] \<or> s32 l2 < s32 l1 \<or> s32 l3 \<le> 0
      then Some None else step_array (s32 l1) (s32 l2) (s32 l3))"
    using assms s by (simp add: bitfmt2int_def Let_def)
  have "step_text t a e p \<longleftrightarrow> (\<exists>u1 u2. t1 = CHR ''-'' # u1 \<and> t2 = CHR '':'' # u2) \<and> t3 = [] \<and> a = s32 l1 \<and> e = s32 l2 \<and> p = s32 l3
      \<and> s32 l1 \<le> s32 l2 \<and> 0 < s32 l3" for a e p
    using assms s by (auto simp: step_text_def)
  with run show ?thesis by (cases t1; cases t2) auto
qed

lemma step_array_safe:
  assumes "step_fits a e p" "a \<le> e" "0 < p" "- (2 ^ 31) \<le> a"
  shows "\<exists>vs. step_array a e p = Some (Some (vs @ [-1])) \<and> even (length vs)"
proof -
  let ?q = "(e - a) div p"
  have f: "e - a < 2 ^ 31" "e - a < (2 ^ 30 - 1) * p" "e + p \<le> 2 ^ 31" using assms(1) by (auto simp: step_fits_def)
  have "?q * p \<le> e - a" using assms(3) by (metis minus_mod_eq_div_mult pos_mod_sign diff_ge_0_iff_ge diff_diff_eq2 add_diff_cancel_left')
  then have "?q * p < (2 ^ 30 - 1) * p" using f(2) by linarith
  then have q: "0 \<le> ?q" "?q < 2 ^ 30 - 1" using assms(2,3) by (auto simp: pos_imp_zdiv_nonneg_iff mult_less_cancel_right)
  have cap: "array_cap (?q + 1) = Some (nat (?q + 1) * 2 + 1)" using q by (simp add: array_cap_ok nat_add_distrib nat_mult_distrib)
  obtain r where "step_loop (nat (?q + 1) * 2 + 1) a e p [] = Some r" "even (length r)" "length r \<le> nat (?q + 1) * 2"
    using step_loop_room [of p a a "[]" "nat (?q + 1) * 2 + 1" e] assms(3,4) f(3) by auto
  with f(1) q cap assms(2,3) show ?thesis by (simp add: step_array_def i32_def c_div_pos)
qed

text \<open>Without the condition on the size the array is too short for its loop or its size is not computed: the code overflows.\<close>

lemma step_array_overflow:
  assumes "a \<le> e" "0 < p" "e - a \<ge> 2 ^ 31 \<or> e - a \<ge> (2 ^ 30 - 1) * p"
  shows "step_array a e p = None"
proof (cases "e - a < 2 ^ 31")
  case True
  then have "(2 ^ 30 - 1) * p \<le> e - a" using assms(3) by linarith
  from zdiv_mono1 [OF this assms(2)] have "2 ^ 30 - 1 \<le> (e - a) div p" using assms(2) by simp
  then have "array_cap ((e - a) div p + 1) = None" by (simp add: array_cap_def i32_def)
  with True assms(1,2) show ?thesis by (simp add: step_array_def i32_def c_div_pos)
qed (use assms(1) in \<open>simp add: step_array_def i32_def\<close>)

lemma step_text_overflow:
  assumes "step_text t a e p" "e - a \<ge> 2 ^ 31 \<or> e - a \<ge> (2 ^ 30 - 1) * p"
  shows "bitfmt2int (Some t) = None"
proof -
  have "bitfmt2int (Some t) = step_array a e p" using assms(1) by (auto simp: step_text_def bitfmt2int_def Let_def)
  with step_array_overflow [OF _ _ assms(2)] assms(1) show ?thesis by (simp add: step_text_def)
qed

text \<open>Short texts have no number out of range.\<close>

lemma digits_value_less: "\<forall>c\<in>set ds. is_digit c \<Longrightarrow> digits_value ds < 10 ^ length ds"
  by (induction ds rule: rev_induct) (auto simp: digits_value_snoc is_digit_def, simp add: digits_value_def)

lemma numbers_fit_short:
  assumes "length t \<le> 9"
  shows "numbers_fit t"
  unfolding numbers_fit_def
proof (intro allI impI)
  fix p w q assume t: "t = p @ w @ q"
  have "length w \<le> 9" using t assms by simp
  with length_filter_le [of is_digit w] have "length (filter is_digit w) \<le> 9" by (rule le_trans)
  then have "(10::int) ^ length (filter is_digit w) \<le> 10 ^ 9" by (intro power_increasing) auto
  with digits_value_less [of "filter is_digit w"] show "digits_value (filter is_digit w) < 2 ^ 31" by fastforce
qed

lemma bitfmt2int_safe:
  assumes "\<forall>t. so = Some t \<longrightarrow> text_fits t"
  shows "\<exists>r. bitfmt2int so = Some r \<and> (\<forall>v. r = Some v \<longrightarrow> (\<exists>vs. v = vs @ [-1] \<and> even (length vs)))"
proof (cases so)
  case (Some str)
  with assms have fits: "text_fits str" by simp
  show ?thesis
  proof (cases "CHR '':'' \<in> set str")
    case False
    with fits have fit: "length str < 2 ^ 30 - 1" "numbers_fit str" by (simp_all add: text_fits_def)
    let ?cap = "(length str + 1) * 2 + 1" and ?cs = "str @ [CHR 0x00]"
    have nf: "numbers_fit ?cs" by (rule numbers_fit_nul [OF fit(2)])
    have "\<exists>r. ranges_loop ?cap True ?cs 0 (-1) [] = Some r \<and> even (length r) \<and> length r \<le> length ([] :: int list) + 2 * length ?cs"
    proof (rule ranges_loop_room [where w = "[]"])
      show "digits_value (filter is_digit ([] @ u)) < 2 ^ 31" if "?cs = u @ v" "CHR ''-'' \<notin> set u" "CHR '','' \<notin> set u" for u v
        using nf that unfolding numbers_fit_def by (metis append_Nil)
    qed (use nf in \<open>simp_all add: digits_value_def\<close>)
    then show ?thesis using Some False text_cap [OF fit(1)] by (auto simp: bitfmt2int_def Let_def simp del: ranges_loop.simps)
  next
    case True
    show ?thesis
    proof (cases "\<exists>a e p. step_text str a e p")
      case st: True
      then obtain a e p where t: "step_text str a e p" "bitfmt2int (Some str) = step_array a e p" using bitfmt2int_step [OF True] by auto
      then have "step_fits a e p" using fits True by (simp add: text_fits_def)
      then obtain vs where "step_array a e p = Some (Some (vs @ [-1]))" "even (length vs)"
        using step_array_safe [of a e p] t(1) s32_range(1) by (auto simp: step_text_def)
      with t(2) Some show ?thesis by auto
    qed (use bitfmt2int_step [OF True] Some in auto)
  qed
qed (simp add: bitfmt2int_def)

lemma inx_loop_safe:
  assumes "bs_valid b" "even (length vs)" "n = int (bs_bits b)"
  shows "\<exists>b' rc. inx_loop b n (vs @ [-1]) = Some (b', rc) \<and> bs_valid b' \<and> bs_bits b' = bs_bits b \<and> (rc = 0 \<or> rc = -1)"
  using assms
proof (induction b n vs rule: inx_loop.induct)
  case (3 b n p q rest)
  show ?case
  proof (cases "p = -1 \<or> p < 0 \<or> p \<ge> n \<or> q < 0 \<or> q \<ge> n")
    case True
    with 3 show ?thesis by auto
  next
    case False
    then have ns: "bit_nset b p q = Some (bs_fill b p (q + 1) True)"
      using 3(2,4) by (intro bit_nset_eq) auto
    from "3.IH" [OF _ _ ns] False 3(2-4) ns show ?thesis by auto
  qed
qed auto

lemma bit_unfmt_safe:
  assumes "bs_valid b" "\<forall>t. so = Some t \<longrightarrow> text_fits t"
  shows "\<exists>b' rc. bit_unfmt b so = Some (b', rc) \<and> bs_valid b' \<and> bs_bits b' = bs_bits b \<and> (rc = 0 \<or> rc = -1)"
proof -
  obtain r where r: "bitfmt2int so = Some r" "\<And>v. r = Some v \<Longrightarrow> \<exists>vs. v = vs @ [-1] \<and> even (length vs)"
    using bitfmt2int_safe [OF assms(2)] by blast
  let ?b = "bs_fill b 0 (int (bs_bits b) - 1 + 1) False"
  have pos: "0 < int (bs_bits b)" using bs_valid_pos [OF assms(1)] by simp
  have nc: "bit_nclear b 0 (int (bs_bits b) - 1) = Some ?b" using assms(1) pos by (intro bit_nclear_eq) auto
  show ?thesis
  proof (cases r)
    case (Some v)
    then obtain vs where "v = vs @ [-1]" "even (length vs)" using r(2) by blast
    with inx_loop_safe [of ?b vs "int (bs_bits b)"] nc pos assms(1) r(1) Some show ?thesis
      by (auto simp: bit_unfmt_def inx2bitstr_def)
  qed (use assms(1) r(1) in \<open>auto simp: bit_unfmt_def\<close>)
qed

subsection \<open>Hexadecimal round trip\<close>

text \<open>The \<open>m\<close>-th digit of a string of \<open>n\<close> bits.\<close>

definition nib :: "bitstr \<Rightarrow> nat \<Rightarrow> nat \<Rightarrow> nat" where
  "nib b n m = horner_sum of_bool 2 (map (\<lambda>j. 4 * m + j < n \<and> bs_bit b (4 * m + j)) [0..<4])"

lemma bit_nib: "bit (nib b n m) j \<longleftrightarrow> j < 4 \<and> 4 * m + j < n \<and> bs_bit b (4 * m + j)"
  by (auto simp: nib_def bit_horner_sum_bit_iff)

lemma nib_less: "nib b n m < 16"
proof -
  have "take_bit 4 (nib b n m) = nib b n m" by (rule bit_eqI) (auto simp: bit_take_bit_iff bit_nib)
  then show ?thesis using take_bit_nat_less_exp [of 4 "nib b n m"] by simp
qed

lemma hex_value_char: "v < 16 \<Longrightarrow> hex_value (hex_char v) = Some v"
  by (auto simp: hex_value_def hex_char_def char_code_def Let_def)

lemma byte_nibbles:
  fixes w :: u64
  assumes "k mod 64 = 0" "k div 64 < length (bs_words b)" "k + 64 \<le> n" "j < 8"
  defines "idx \<equiv> unat (drop_bit (8 * j) (bs_words b ! (k div 64)) AND 255)"
  shows "idx mod 16 = nib b n (k div 4 + 2 * j)" "idx div 16 = nib b n (k div 4 + 2 * j + 1)"
proof -
  have k4: "4 * (k div 4) = k" using assms(1) by (auto simp: mod_eq_0_iff_dvd elim!: dvdE)
  have ib: "bit idx i \<longleftrightarrow> i < 8 \<and> bs_bit b (k + (8 * j + i))" for i
  proof -
    have "bit (255 :: u64) i \<longleftrightarrow> i < 8"
      using bit_low_mask [of 8 i] by (simp add: push_bit_eq_mult)
    then have "bit idx i \<longleftrightarrow> i < 8 \<and> bit (bs_words b ! (k div 64)) (8 * j + i)"
      by (auto simp: idx_def bit_unsigned_iff bit_and_iff bit_drop_bit_eq dest: bit_u64_bound)
    also have "\<dots> \<longleftrightarrow> i < 8 \<and> bs_bit b (k + (8 * j + i))"
      using block_word [OF assms(1,2), of "8 * j + i"] assms(4) by auto
    finally show ?thesis .
  qed
  have "take_bit 4 idx = nib b n (k div 4 + 2 * j)"
    by (rule bit_eqI) (use assms(3,4) k4 in \<open>auto simp: bit_take_bit_iff bit_nib ib algebra_simps\<close>)
  then show "idx mod 16 = nib b n (k div 4 + 2 * j)" by (simp add: take_bit_eq_mod)
  have "drop_bit 4 idx = nib b n (k div 4 + 2 * j + 1)"
    by (rule bit_eqI) (use assms(3,4) k4 in \<open>auto simp: bit_drop_bit_eq bit_nib ib algebra_simps\<close>)
  then show "idx div 16 = nib b n (k div 4 + 2 * j + 1)" by (simp add: drop_bit_eq_div)
qed

lemma hex_byte_eq:
  assumes "k mod 64 = 0" "k div 64 < length (bs_words b)" "k + 64 \<le> n" "j < 8" "length acc + 2 \<le> cs"
  shows "hex_byte cs (bs_words b ! (k div 64)) j acc =
    Some (hex_char (nib b n (k div 4 + 2 * j + 1)) # hex_char (nib b n (k div 4 + 2 * j)) # acc)"
  using assms(5) byte_nibbles [OF assms(1-4)]
  by (simp add: hex_byte_def hex_write_def hexmask_lookup_def Let_def)

definition hex_digits :: "bitstr \<Rightarrow> nat \<Rightarrow> nat \<Rightarrow> nat \<Rightarrow> string" where
  "hex_digits b n lo hi = map (\<lambda>m. hex_char (nib b n m)) [lo..<hi]"

lemma hex_digits_snoc: "lo \<le> hi \<Longrightarrow> hex_digits b n lo (Suc hi) = hex_digits b n lo hi @ [hex_char (nib b n hi)]"
  by (simp add: hex_digits_def)

lemma hex_word_eq:
  assumes "k mod 64 = 0" "k div 64 < length (bs_words b)" "k + 64 \<le> n" "k div 4 + 16 \<le> cs"
    "acc = rev (hex_digits b n 0 (k div 4))"
  shows "for_upto (hex_byte cs (bs_words b ! (k div 64))) 0 8 acc = Some (rev (hex_digits b n 0 (k div 4 + 16)))"
proof -
  let ?I = "\<lambda>j t. t = rev (hex_digits b n 0 (k div 4 + 2 * j))"
  have "\<exists>t. for_upto (hex_byte cs (bs_words b ! (k div 64))) 0 8 acc = Some t \<and> ?I 8 t"
  proof (rule for_upto_rule)
    show "?I 0 acc" using assms(5) by simp
    fix j t assume j: "0 \<le> j" "j < 8" and t: "?I j t"
    have len: "length t + 2 \<le> cs" using t j assms(4) by (simp add: hex_digits_def)
    have "rev (hex_digits b n 0 (k div 4 + 2 * Suc j)) =
        hex_char (nib b n (k div 4 + 2 * j + 1)) # hex_char (nib b n (k div 4 + 2 * j)) # t"
      using t hex_digits_snoc [of 0 "k div 4 + 2 * j + 1" b n] hex_digits_snoc [of 0 "k div 4 + 2 * j" b n] by simp
    then show "\<exists>t'. hex_byte cs (bs_words b ! (k div 64)) j t = Some t' \<and> ?I (Suc j) t'"
      using hex_byte_eq [OF assms(1-3) j(2) len] by simp
  qed simp
  then show ?thesis by simp
qed

lemma hex_bit_eq:
  assumes "bs_valid b" "n \<le> bs_bits b"
  shows "hex_bit b n j v = Some (if j < n \<and> bs_bit b j then v else 0)"
proof (cases "j < n")
  case True
  then have "j div 64 < length (bs_words b)" using assms by simp
  with True show ?thesis by (simp add: hex_bit_def bit_test_eq)
qed (simp add: hex_bit_def)

lemma nib_sum:
  assumes "i = 4 * m"
  shows "(if i < n \<and> bs_bit b i then 1 else 0) + (if i + 1 < n \<and> bs_bit b (i + 1) then 2 else 0)
     + (if i + 2 < n \<and> bs_bit b (i + 2) then 4 else 0) + (if i + 3 < n \<and> bs_bit b (i + 3) then 8 else 0)
     = nib b n m"
proof -
  have l4: "[0..<4] = [0, 1, 2, 3::nat]" by (simp add: upt_rec)
  show ?thesis unfolding nib_def l4 using assms by (simp add: of_bool_def)
qed

lemma hexmask_loop_eq:
  assumes "bs_valid b" "n \<le> bs_bits b" "cs = (n + 3) div 4" "i mod 4 = 0" "i mod 64 = 0 \<or> n < i + 64"
    "i div 4 \<le> cs" "acc = rev (hex_digits b n 0 (i div 4))"
  shows "hexmask_loop b n cs i acc = Some (rev (hex_digits b n 0 cs))"
  using assms
proof (induction b n cs i acc rule: hexmask_loop.induct)
  case (1 b n cs i acc)
  note prems = "1.prems"
  show ?case
  proof (cases "i < n")
    case True
    show ?thesis
    proof (cases "i + 64 \<le> n")
      case word: True
      then have al: "i mod 64 = 0" using prems(5) by simp
      have wl: "i div 64 < length (bs_words b)" using prems(1,2) True by (intro bs_valid_word) auto
      note get = bs_get_word [OF wl]
      have room: "i div 4 + 16 \<le> cs" using word prems(3) by linarith
      note hw = hex_word_eq [OF al wl word room prems(7)]
      have "hexmask_loop b n cs (i + 64) (rev (hex_digits b n 0 (i div 4 + 16))) = Some (rev (hex_digits b n 0 cs))"
        using prems(1-4) al room by (intro "1.IH"(1) [OF True word get hw]) auto
      then show ?thesis unfolding hexmask_loop.simps [of b n cs i acc] get using True word hw by simp
    next
      case part: False
      have i4: "i = 4 * (i div 4)" using prems(4) by auto
      have len: "length acc < cs" using prems(3,7) True by (simp add: hex_digits_def)
      let ?acc = "hex_char (nib b n (i div 4)) # acc"
      note hb = hex_bit_eq [OF prems(1,2)]
      have wr: "hex_write cs (hex_char (nib b n (i div 4))) acc = Some ?acc" using len by (simp add: hex_write_def)
      have "hexmask_loop b n cs (i + 4) ?acc = Some (rev (hex_digits b n 0 cs))"
      proof (rule "1.IH"(2) [OF True part hb hb hb hb])
        show "hex_write cs (hex_char ((if i < n \<and> bs_bit b i then 1 else 0)
            + (if i + 1 < n \<and> bs_bit b (i + 1) then 2 else 0) + (if i + 2 < n \<and> bs_bit b (i + 2) then 4 else 0)
            + (if i + 3 < n \<and> bs_bit b (i + 3) then 8 else 0))) acc = Some ?acc"
          unfolding nib_sum [OF i4] by (rule wr)
      qed (use prems part len in \<open>auto simp: hex_digits_def\<close>)
      then show ?thesis
        unfolding hexmask_loop.simps [of b n cs i acc] hb bind_simps nib_sum [OF i4] wr using True part by simp
    qed
  next
    case False
    then have "i div 4 = cs" using prems(3,4,6) by (auto simp: mod_eq_0_iff_dvd elim!: dvdE)
    then show ?thesis using False prems(7) by (subst hexmask_loop.simps) simp
  qed
qed

lemma bit_fmt_hexmask_eq [c_sem]:
  assumes "bs_valid b"
  shows "bit_fmt_hexmask b = Some (''0x'' @ rev (hex_digits b (bs_bits b) 0 ((bs_bits b + 3) div 4)))"
proof -
  have "hexmask_loop b (bs_bits b) ((bs_bits b + 3) div 4) 0 [] =
      Some (rev (hex_digits b (bs_bits b) 0 ((bs_bits b + 3) div 4)))"
    using assms by (intro hexmask_loop_eq) (auto simp: hex_digits_def)
  moreover have "bs_bits b \<noteq> 0" using bs_valid_pos [OF assms] by simp
  ultimately show ?thesis
    using assms by (simp add: bit_fmt_hexmask_def bit_fmt_hexmask_gen_def bit_size_eq Let_def) (simp add: hex_digits_def)
qed

lemma unhex_bit_eq:
  assumes "bs_valid b" "bs_bits b = n" "bit v j \<longrightarrow> idx + j < n"
  obtains b' where "unhex_bit n v j idx (b, True) = Some (b', True)" "bs_valid b'" "bs_bits b' = n"
    "bs_set b' = bs_set b \<union> (if bit v j then {idx + j} else {})"
proof (cases "bit v j")
  case True
  then have "bit_set b (int (idx + j)) = Some (bs_of b (\<lambda>i. i = idx + j \<or> bs_bit b i))"
    using assms by (intro bit_set_eq) auto
  with True assms that show ?thesis
    by (auto simp: unhex_bit_def bs_set_bs_of simp del: of_nat_add) (auto simp: bs_set_def)
qed (use assms that in \<open>auto simp: unhex_bit_def\<close>)

lemma unhex_step:
  assumes "bs_valid b" "bs_bits b = n" "idx mod 4 = 0" "idx < n" "hex_value c = Some v" "v < 16"
    "\<And>j. bit v j \<Longrightarrow> idx + j < n"
  obtains b' where "unhex_loop n b idx (c # cs) = unhex_loop n b' (idx + 4) cs" "bs_valid b'" "bs_bits b' = n"
    "bs_set b' = bs_set b \<union> (\<lambda>j. idx + j) ` {j. bit v j}"
proof (cases "idx + 3 < n")
  case True
  have nd: "next_digit idx = Some (idx + 4)" using assms(1,2,4) by (simp add: next_digit_def bs_valid_def)
  have wl: "idx div 64 < length (bs_words b)" using assms(1,2,4) by simp
  let ?w = "bs_words b ! (idx div 64)"
  let ?v = "?w OR push_bit (idx AND 63) (of_nat (v AND 15))"
  let ?b = "bs_of b (\<lambda>j. if j div 64 = idx div 64 then bit ?v (j mod 64) else bs_bit b j)"
  have put: "bs_put b (bit_word idx) ?v = Some ?b" by (rule bs_put_word [OF wl])
  have v15: "v AND 15 = v" using assms(6) take_bit_nat_eq_self [of v 4] by (simp add: take_bit_eq_mask mask_eq_exp_minus_1)
  have v4: "bit v j \<Longrightarrow> j < 4" for j
    using assms(6) take_bit_nat_eq_self [of v 4] bit_take_bit_iff [of 4 v j] by auto
  have r: "idx mod 64 \<le> 60"
  proof -
    have "idx mod 64 mod 4 = 0" using assms(3) by (simp add: mod_mod_cancel)
    moreover have "q mod 4 = 0 \<Longrightarrow> q < 64 \<Longrightarrow> q \<le> 60" for q :: nat by presburger
    ultimately show ?thesis by simp
  qed
  have bits: "(if j div 64 = idx div 64 then bit ?v (j mod 64) else bs_bit b j) \<longleftrightarrow>
      bs_bit b j \<or> (idx \<le> j \<and> bit v (j - idx))" for j
  proof (cases "j div 64 = idx div 64")
    case same: True
    have "idx mod 64 \<le> j mod 64 \<and> bit v (j mod 64 - idx mod 64) \<longleftrightarrow> idx \<le> j \<and> bit v (j - idx)"
    proof -
      have "j = 64 * (idx div 64) + j mod 64" using same by (metis mult_div_mod_eq)
      moreover have "idx = 64 * (idx div 64) + idx mod 64" by simp
      ultimately have "idx mod 64 \<le> j mod 64 \<longleftrightarrow> idx \<le> j" "idx \<le> j \<Longrightarrow> j mod 64 - idx mod 64 = j - idx"
        by linarith+
      then show ?thesis by auto
    qed
    then show ?thesis using same wl
      by (auto simp: bit_or_iff bit_push_bit_iff v15 bit_of_nat_iff bs_bit_def)
  next
    case other: False
    have "\<not> (idx \<le> j \<and> bit v (j - idx))"
    proof
      assume h: "idx \<le> j \<and> bit v (j - idx)"
      then have "j = idx + (j - idx)" "j - idx < 4" using v4 by auto
      then have "j = 64 * (idx div 64) + (idx mod 64 + (j - idx))" "idx mod 64 + (j - idx) < 64"
        using r by auto
      then have "j div 64 = idx div 64" by (metis div_less div_mult_self4 add_0_left add.right_neutral zero_neq_numeral)
      with other show False by simp
    qed
    then show ?thesis using other by auto
  qed
  have "bs_set ?b = bs_set b \<union> (\<lambda>j. idx + j) ` {j. bit v j}"
    unfolding bs_set_bs_of [OF assms(1)] bits using assms(2,7)
    by (auto simp: bs_set_def image_iff) (metis le_add_diff_inverse)
  moreover have "unhex_loop n b idx (c # cs) = unhex_loop n ?b (idx + 4) cs"
    using True assms(3,5) put nd by (simp add: bs_get_word [OF wl])
  ultimately show ?thesis using that assms(1,2) by simp
next
  case False
  obtain b0 where b0: "unhex_bit n v 0 idx (b, True) = Some (b0, True)" "bs_valid b0" "bs_bits b0 = n"
    "bs_set b0 = bs_set b \<union> (if bit v 0 then {idx + 0} else {})"
    using unhex_bit_eq [OF assms(1,2), of v 0 idx] assms(7) by metis
  obtain b1 where b1: "unhex_bit n v 1 idx (b0, True) = Some (b1, True)" "bs_valid b1" "bs_bits b1 = n"
    "bs_set b1 = bs_set b0 \<union> (if bit v 1 then {idx + 1} else {})"
    using unhex_bit_eq [OF b0(2,3), of v 1 idx] assms(7) by metis
  obtain b2 where b2: "unhex_bit n v 2 idx (b1, True) = Some (b2, True)" "bs_valid b2" "bs_bits b2 = n"
    "bs_set b2 = bs_set b1 \<union> (if bit v 2 then {idx + 2} else {})"
    using unhex_bit_eq [OF b1(2,3), of v 2 idx] assms(7) by metis
  obtain b3 where b3: "unhex_bit n v 3 idx (b2, True) = Some (b3, True)" "bs_valid b3" "bs_bits b3 = n"
    "bs_set b3 = bs_set b2 \<union> (if bit v 3 then {idx + 3} else {})"
    using unhex_bit_eq [OF b2(2,3), of v 3 idx] assms(7) by metis
  have v4: "bit v j \<Longrightarrow> j = 0 \<or> j = 1 \<or> j = 2 \<or> j = 3" for j
    using assms(6) take_bit_nat_eq_self [of v 4] bit_take_bit_iff [of 4 v j] by auto
  have J: "{j. bit v j} = (if bit v 0 then {0} else {}) \<union> (if bit v 1 then {1} else {})
      \<union> (if bit v 2 then {2} else {}) \<union> (if bit v 3 then {3} else {})"
  proof (rule set_eqI)
    fix j show "j \<in> {j. bit v j} \<longleftrightarrow> j \<in> (if bit v 0 then {0} else {}) \<union> (if bit v 1 then {1} else {})
      \<union> (if bit v 2 then {2} else {}) \<union> (if bit v 3 then {3} else {})" using v4 [of j] by auto
  qed
  have "bs_set b3 = bs_set b \<union> (\<lambda>j. idx + j) ` {j. bit v j}"
    unfolding b3(4) b2(4) b1(4) b0(4) J image_Un by (simp add: Un_assoc)
  moreover have "unhex_loop n b idx (c # cs) = unhex_loop n b3 (idx + 4) cs"
    using False assms(1,2,4,5) b0(1) b1(1) b2(1) b3(1) by (simp add: next_digit_def bs_valid_def)
  ultimately show ?thesis using that b3(2,3) by simp
qed

text \<open>Any text of hexadecimal digits and other characters is read inside the string.\<close>

lemma unhex_bit_safe:
  assumes "bs_valid b" "bs_bits b = n"
  shows "\<exists>b' ok'. unhex_bit n v j idx (b, ok) = Some (b', ok') \<and> bs_valid b' \<and> bs_bits b' = n"
proof (cases "ok \<and> bit v j \<and> idx + j < n")
  case True
  then have "bit_set b (int (idx + j)) = Some (bs_of b (\<lambda>i. i = idx + j \<or> bs_bit b i))"
    using assms by (intro bit_set_eq) auto
  with True assms show ?thesis by (auto simp: unhex_bit_def simp del: of_nat_add)
qed (use assms in \<open>auto simp: unhex_bit_def\<close>)

lemma unhex_loop_safe:
  assumes "bs_valid b" "bs_bits b = n" "idx + 4 * length cs < 2 ^ 31"
  shows "\<exists>b' rc. unhex_loop n b idx cs = Some (b', rc) \<and> bs_valid b' \<and> bs_bits b' = n"
  using assms
proof (induction cs arbitrary: b idx)
  case (Cons c cs)
  have nd: "next_digit idx = Some (idx + 4)" using Cons.prems(3) by (simp add: next_digit_def)
  show ?case
  proof (cases "hex_value c")
    case (Some v)
    show ?thesis
    proof (cases "idx + 3 < n \<and> idx mod 4 = 0")
      case True
      then have wl: "idx div 64 < length (bs_words b)" using Cons.prems(1,2) by simp
      note put = bs_put_word [OF wl, of "bs_words b ! (idx div 64) OR push_bit (idx AND 63) (of_nat (v AND 15))"]
      show ?thesis using Cons.IH [of "the (bs_put b (bit_word idx) (bs_words b ! (idx div 64) OR push_bit (idx AND 63) (of_nat (v AND 15))))" "idx + 4"]
        Cons.prems Some True nd put by (simp add: bs_get_word [OF wl])
    next
      case False
      obtain b0 k0 where b0: "unhex_bit n v 0 idx (b, True) = Some (b0, k0)" "bs_valid b0" "bs_bits b0 = n"
        using unhex_bit_safe [OF Cons.prems(1,2)] by blast
      obtain b1 k1 where b1: "unhex_bit n v 1 idx (b0, k0) = Some (b1, k1)" "bs_valid b1" "bs_bits b1 = n"
        using unhex_bit_safe [OF b0(2,3)] by blast
      obtain b2 k2 where b2: "unhex_bit n v 2 idx (b1, k1) = Some (b2, k2)" "bs_valid b2" "bs_bits b2 = n"
        using unhex_bit_safe [OF b1(2,3)] by blast
      obtain b3 k3 where b3: "unhex_bit n v 3 idx (b2, k2) = Some (b3, k3)" "bs_valid b3" "bs_bits b3 = n"
        using unhex_bit_safe [OF b2(2,3)] by blast
      have "unhex_loop n b idx (c # cs) = (if k3 then unhex_loop n b3 (idx + 4) cs else Some (b3, -1))"
        unfolding unhex_loop.simps Some option.case if_not_P [OF False] using b0(1) b1(1) b2(1) b3(1) nd by simp
      then show ?thesis using Cons.IH [of b3 "idx + 4"] b3(2,3) Cons.prems(3) by auto
    qed
  qed (use Cons.prems in auto)
qed auto

lemma bit_unfmt_hexmask_safe:
  assumes "bs_valid b" "\<forall>t. so = Some t \<longrightarrow> length t < 2 ^ 29"
  shows "\<exists>bo rc. bit_unfmt_hexmask (Some b) so = Some (bo, rc)"
proof (cases so)
  case (Some t)
  let ?n = "bs_bits b" and ?ds = "rev (if take 2 t = ''0x'' then drop 2 t else t)"
  let ?b = "bs_fill b 0 (int ?n - 1 + 1) False"
  have "0 < int ?n" using bs_valid_pos [OF assms(1)] by simp
  then have nc: "bit_nclear b 0 (int ?n - 1) = Some ?b" using assms(1) by (intro bit_nclear_eq) auto
  have t: "length t < 2 ^ 29" using assms(2) Some by simp
  then have "0 + 4 * length ?ds < 2 ^ 31" by auto
  then have "\<exists>b' rc. unhex_loop ?n ?b 0 ?ds = Some (b', rc) \<and> bs_valid b' \<and> bs_bits b' = ?n"
    using assms(1) by (intro unhex_loop_safe) simp_all
  with Some nc t assms(1) show ?thesis by (auto simp: bit_unfmt_hexmask_def bit_size_eq Let_def)
qed (simp add: bit_unfmt_hexmask_def)

lemma unhex_loop_digits:
  assumes "n = bs_bits b0" "bs_valid b" "bs_bits b = n" "m \<le> cs" "cs = (n + 3) div 4"
    "bs_set b = {i \<in> bs_set b0. i < 4 * m}"
  shows "\<exists>b'. unhex_loop n b (4 * m) (hex_digits b0 n m cs) = Some (b', 0) \<and> bs_valid b'
     \<and> bs_bits b' = n \<and> bs_set b' = bs_set b0"
  using assms
proof (induction "cs - m" arbitrary: m b)
  case 0
  then have m: "m = cs" by simp
  have "n \<le> 4 * cs" using "0.prems"(5) by linarith
  then have "bs_set b = bs_set b0"
    unfolding "0.prems"(6) m using "0.prems"(1) by (auto dest: bs_set_less)
  with "0.prems"(2,3) m show ?case by (simp add: hex_digits_def)
next
  case (Suc d)
  then have m: "m < cs" by simp
  then have idx: "4 * m < n" using Suc.prems(5) by linarith
  have m4: "4 * m mod 4 = 0" and side: "\<And>j. bit (nib b0 n m) j \<Longrightarrow> 4 * m + j < n" by (simp_all add: bit_nib)
  have dg: "hex_digits b0 n m cs = hex_char (nib b0 n m) # hex_digits b0 n (Suc m) cs"
    using m by (simp add: hex_digits_def upt_conv_Cons)
  obtain b' where b': "unhex_loop n b (4 * m) (hex_char (nib b0 n m) # hex_digits b0 n (Suc m) cs) =
      unhex_loop n b' (4 * m + 4) (hex_digits b0 n (Suc m) cs)" "bs_valid b'" "bs_bits b' = n"
    "bs_set b' = bs_set b \<union> (\<lambda>j. 4 * m + j) ` {j. bit (nib b0 n m) j}"
    by (rule unhex_step [OF Suc.prems(2,3) m4 idx hex_value_char [OF nib_less [of b0 n m]] nib_less [of b0 n m] side]) (assumption, rule that)
  have "bs_set b' = {i \<in> bs_set b0. i < 4 * Suc m}"
  proof (rule set_eqI)
    fix i
    show "i \<in> bs_set b' \<longleftrightarrow> i \<in> {i \<in> bs_set b0. i < 4 * Suc m}"
    proof (cases "i < 4 * m")
      case False
      then have "i \<in> (\<lambda>j. 4 * m + j) ` {j. bit (nib b0 n m) j} \<longleftrightarrow> bit (nib b0 n m) (i - 4 * m)"
        by (auto simp: image_iff)
      also have "\<dots> \<longleftrightarrow> i \<in> bs_set b0 \<and> i < 4 * Suc m"
        using False Suc.prems(1) by (auto simp: bit_nib bs_set_def)
      finally show ?thesis unfolding b'(4) using False Suc.prems(6) by auto
    qed (use b'(4) Suc.prems(6) in auto)
  qed
  then have "\<exists>b''. unhex_loop n b' (4 * Suc m) (hex_digits b0 n (Suc m) cs) = Some (b'', 0) \<and> bs_valid b''
      \<and> bs_bits b'' = n \<and> bs_set b'' = bs_set b0"
    using Suc b'(2,3) m by (intro Suc.hyps(1)) auto
  then show ?case unfolding dg b'(1) by (simp add: add.commute)
qed

lemma unfmt_hexmask_fmt:
  assumes "bs_valid b" "bs_valid c" "bs_bits c = bs_bits b"
  shows "\<exists>t c'. bit_fmt_hexmask b = Some t \<and> bit_unfmt_hexmask (Some c) (Some t) = Some (Some c', 0)
     \<and> bs_valid c' \<and> bs_bits c' = bs_bits b \<and> bs_set c' = bs_set b"
proof -
  let ?n = "bs_bits b" let ?cs = "(bs_bits b + 3) div 4"
  let ?c = "bs_fill c 0 (int ?n - 1 + 1) False"
  have pos: "0 < int ?n" using bs_valid_pos [OF assms(1)] by simp
  have nc: "bit_nclear c 0 (int ?n - 1) = Some ?c" using assms pos by (intro bit_nclear_eq) auto
  have "bs_set ?c = {}" using assms by (auto simp: bs_set_fill dest: bs_set_less)
  then obtain c' where "unhex_loop ?n ?c 0 (hex_digits b ?n 0 ?cs) = Some (c', 0)" "bs_valid c'"
      "bs_bits c' = ?n" "bs_set c' = bs_set b"
    using unhex_loop_digits [OF refl, of ?c b 0 ?cs] assms by auto
  moreover have "?n \<le> 0x40000000" using assms(1) by (simp add: bs_valid_def)
  then have "?cs + 2 < 2 ^ 31" by simp
  then have "length (hex_digits b ?n 0 ?cs) + 2 < 2 ^ 31" by (simp add: hex_digits_def)
  ultimately show ?thesis using assms nc by (simp add: bit_fmt_hexmask_eq bit_unfmt_hexmask_def bit_size_eq)
qed

end
