(* ===== verification/Bitstring_Props.thy ===== *)
theory Bitstring_Props
  imports Bitmap_Spec Bitstring_Fmt
begin

text \<open>
  The properties of bit strings (src/common/bitstring.c), stated for their abstraction: the set
  \<open>bs_set b\<close> of the positions below \<open>bs_bits b\<close> that are set. \<open>gives r n S\<close> says that an operation
  returned normally (no assertion failed, no word outside the string was touched) with a valid
  string of \<open>n\<close> bits that stands for \<open>S\<close>.
\<close>

definition gives :: "bitstr option \<Rightarrow> nat \<Rightarrow> nat set \<Rightarrow> bool" where
  "gives r n S \<longleftrightarrow> (\<exists>b. r = Some b \<and> bs_valid b \<and> bs_bits b = n \<and> bs_set b = S)"

text \<open>Strings for the instances below.\<close>

definition bs_example :: "nat \<Rightarrow> u64 list \<Rightarrow> bitstr" where
  "bs_example n ws = \<lparr>bs_magic = BITSTR_MAGIC, bs_bits = n, bs_words = ws\<rparr>"

lemma bs_example_valid [simp]:
  "bs_valid (bs_example n ws) \<longleftrightarrow> 0 < n \<and> n \<le> 0x40000000 \<and> length ws = (n + 63) div 64"
  by (simp add: bs_example_def bs_valid_def)

lemma bs_example_bits [simp]: "bs_bits (bs_example n ws) = n"
  by (simp add: bs_example_def)

lemma bs_example_bit: "bs_bit (bs_example n [w]) i \<longleftrightarrow> i < 64 \<and> bit w i"
  by (auto simp: bs_example_def bs_bit_def div_eq_0_iff)

lemma bs_example_set: "bs_set (bs_example n [w]) = {i \<in> {..<n}. i < 64 \<and> bit w i}"
  by (auto simp: bs_set_def bs_example_bit)

lemma gives_of: "bs_valid b \<Longrightarrow> {i. i < bs_bits b \<and> P i} = S \<Longrightarrow> gives (Some (bs_of b P)) (bs_bits b) S"
  by (auto simp: gives_def bs_set_bs_of)

text \<open>C1. The word-wise Boolean operations compute the set operations on strings of the same size:
  union, intersection, difference, union with the complement, and complement.\<close>

theorem bit_algebra:
  assumes "bs_valid b" "bs_valid c" "bs_bits b = bs_bits c"
  shows "gives (bit_or b c) (bs_bits b) (bs_set b \<union> bs_set c)
    \<and> gives (bit_and b c) (bs_bits b) (bs_set b \<inter> bs_set c)
    \<and> gives (bit_and_not b c) (bs_bits b) (bs_set b - bs_set c)
    \<and> gives (bit_or_not b c) (bs_bits b) (bs_set b \<union> ({..<bs_bits b} - bs_set c))
    \<and> gives (bit_not b) (bs_bits b) ({..<bs_bits b} - bs_set b)"
proof (intro conjI)
  show "gives (bit_or b c) (bs_bits b) (bs_set b \<union> bs_set c)"
    using bs.or_law [OF assms] by (auto simp: gives_def)
  show "gives (bit_and b c) (bs_bits b) (bs_set b \<inter> bs_set c)"
    using bs.and_law [OF assms] by (auto simp: gives_def)
  show "gives (bit_and_not b c) (bs_bits b) (bs_set b - bs_set c)"
    using bs.and_not_law [OF assms] by (auto simp: gives_def)
  show "gives (bit_or_not b c) (bs_bits b) (bs_set b \<union> ({..<bs_bits b} - bs_set c))"
    unfolding bit_or_not_eq [OF assms(1,2)] using assms(3) by (intro gives_of assms) (auto simp: bs_set_def)
  show "gives (bit_not b) (bs_bits b) ({..<bs_bits b} - bs_set b)"
    unfolding bit_not_eq [OF assms(1)] by (intro gives_of assms) (auto simp: bs_set_def)
qed

theorem bit_algebra_witness:
  "bs_valid (bs_example 70 [5, 1]) \<and> gives (bit_or (bs_example 70 [5, 1]) (bs_example 70 [3, 2])) 70
     (bs_set (bs_example 70 [5, 1]) \<union> bs_set (bs_example 70 [3, 2]))"
  using bit_algebra [of "bs_example 70 [5, 1]" "bs_example 70 [3, 2]"] by simp

text \<open>Setting and clearing a range of positions changes exactly the positions of the range, bits
  at the ends and whole bytes in between; an empty range (the end before the start) changes nothing.\<close>

lemma bit_ranges:
  assumes "bs_valid b" "0 \<le> start" "start < int (bs_bits b)" "0 \<le> stop" "stop < int (bs_bits b)"
  shows "gives (bit_nset b start stop) (bs_bits b) (bs_set b \<union> {i. start \<le> int i \<and> int i \<le> stop})
    \<and> gives (bit_nclear b start stop) (bs_bits b) (bs_set b - {i. start \<le> int i \<and> int i \<le> stop})"
  unfolding bit_nset_eq [OF assms] bit_nclear_eq [OF assms] gives_def
  using assms by (auto simp: bs_set_fill)

text \<open>C3. The population counts agree with cardinalities: of the whole string, of its complement, of
  a range of positions, and of the overlap of two strings; the overlap test decides whether they
  share a position.\<close>

theorem bit_counts:
  assumes "bs_valid b" "bs_valid c" "bs_bits b = bs_bits c"
    and "0 \<le> start" "start < int (bs_bits b)" "start \<le> stop"
  shows "bit_set_count b = Some (card (bs_set b))
    \<and> bit_clear_count b = Some (card ({..<bs_bits b} - bs_set b))
    \<and> bit_set_count_range b start stop = Some (card {i \<in> bs_set b. start \<le> int i \<and> int i < stop})
    \<and> bit_overlap b c = Some (card (bs_set b \<inter> bs_set c))
    \<and> bit_overlap_any b c = Some (if bs_set b \<inter> bs_set c = {} then 0 else 1)"
  using assms by (simp add: c_sem)

theorem bit_counts_witness:
  "bit_set_count_range (bs_example 8 [0xA5]) 1 6 = Some (card {i \<in> bs_set (bs_example 8 [0xA5]). 1 \<le> int i \<and> int i < 6})"
  using bit_counts [of "bs_example 8 [0xA5]" "bs_example 8 [1]" 1 6] by simp

text \<open>C4. The searches for a single bit: \<open>bit_ffs_from_bit\<close> returns the least set position at or after
  the offset, \<open>bit_fls_from_bit\<close> the greatest at or before it, \<open>bit_ffc\<close> the least clear position, and
  each returns -1 exactly when there is none.\<close>

theorem bit_searches:
  assumes "bs_valid b" "0 \<le> k" "k < int (bs_bits b)"
  shows "(\<exists>v. bit_ffs_from_bit b m = Some v \<and> is_first (bs_bit b) m (bs_bits b) v)
    \<and> (\<exists>v. bit_fls_from_bit b k = Some v \<and> is_last (bs_bit b) (nat k + 1) v)
    \<and> (\<exists>v. bit_ffc b = Some v \<and> is_first (\<lambda>i. \<not> bs_bit b i) 0 (bs_bits b) v)"
  using bit_ffs_from_bit_eq [OF assms(1)] bit_fls_from_bit_eq [OF assms] bit_ffc_eq [OF assms(1)] by blast

theorem bit_searches_witness:
  "\<exists>v. bit_ffs_from_bit (bs_example 70 [5, 32]) 3 = Some v \<and> is_first (bs_bit (bs_example 70 [5, 32])) 3 70 v"
  using bit_searches [of "bs_example 70 [5, 32]" 69 3] by simp

text \<open>C5. The searches for a run of \<open>n\<close> clear bits: \<open>bit_nffc\<close> returns the first one; \<open>bit_noc\<close> returns
  the first one at or after the seed, or else the first one anywhere, and -1 only when the string
  has none.\<close>

theorem bit_run_searches:
  assumes "bs_valid b" "0 < n" "n < int (bs_bits b)" "0 \<le> seed"
  defines "R \<equiv> run_at b False (bs_bits b) (nat n)"
  defines "s \<equiv> if seed + n \<ge> int (bs_bits b) then bs_bits b else nat seed"
  shows "(\<exists>v. bit_nffc b n = Some v \<and> is_first R 0 (bs_bits b) v)
    \<and> (\<exists>v. bit_noc b n seed = Some v \<and>
         (if \<exists>i. s \<le> i \<and> R i then is_first R s (bs_bits b) v else is_first R 0 (bs_bits b) v))"
  using bit_nffc_eq [OF assms(1-3)] bit_noc_eq [OF assms(1,2) less_imp_le [OF assms(3)] assms(4)]
  unfolding R_def s_def by blast

theorem bit_run_searches_witness:
  "\<exists>v. bit_nffc (bs_example 8 [0x11]) 3 = Some v \<and> is_first (run_at (bs_example 8 [0x11]) False 8 3) 0 8 v"
  using bit_run_searches [of "bs_example 8 [0x11]" 3 2] by simp

text \<open>C6. \<open>bit_nth_set\<close> returns the n-th set position: the one with n - 1 set positions before it;
  the last set position when there are fewer, and -1 when there is none.\<close>

theorem bit_nth_set_rank:
  assumes "bs_valid b" "0 < n"
  shows "\<exists>v. bit_nth_set b n = Some v \<and>
    (if bs_set b = {} then v = -1
     else \<exists>p. v = int p \<and> p \<in> bs_set b \<and> card {i \<in> bs_set b. i < p} + 1 = min (nat n) (card (bs_set b)))"
  by (rule bit_nth_set_eq [OF assms, unfolded is_nth_set_def bs_rank_def below_def])

theorem bit_nth_set_rank_witness:
  "\<exists>v. bit_nth_set (bs_example 8 [0xA5]) 3 = Some v \<and>
    (if bs_set (bs_example 8 [0xA5]) = {} then v = -1
     else \<exists>p. v = int p \<and> p \<in> bs_set (bs_example 8 [0xA5]) \<and>
       card {i \<in> bs_set (bs_example 8 [0xA5]). i < p} + 1 = min (nat 3) (card (bs_set (bs_example 8 [0xA5]))))"
  by (rule bit_nth_set_rank) simp_all

text \<open>C7. Picking \<open>n\<close> bits: \<open>bit_pick_cnt\<close> returns a string with exactly the n lowest set positions, or
  the null pointer when fewer are set; \<open>bit_pick_firstn\<close> clears all but the n lowest.\<close>

theorem bit_picks:
  assumes "bs_valid b" "0 < n"
  shows "(if n \<le> card (bs_set b)
      then \<exists>b'. bit_pick_cnt b n = Some (Some b') \<and> bs_bits b' = bs_bits b \<and> bs_set b' \<subseteq> bs_set b
             \<and> card (bs_set b') = n \<and> (\<forall>i \<in> bs_set b'. \<forall>j \<in> bs_set b - bs_set b'. i < j)
      else bit_pick_cnt b n = Some None)
    \<and> gives (bit_pick_firstn b (int n)) (bs_bits b) {i \<in> bs_set b. card {j \<in> bs_set b. j < i} < n}"
proof (intro conjI)
  have low: "i < j" if "i \<in> first_set b n" "j \<in> bs_set b - first_set b n" for i j
    using that rank_mono [of j i b] by (fastforce simp: first_set_def not_le [symmetric])
  show "if n \<le> card (bs_set b)
      then \<exists>b'. bit_pick_cnt b n = Some (Some b') \<and> bs_bits b' = bs_bits b \<and> bs_set b' \<subseteq> bs_set b
             \<and> card (bs_set b') = n \<and> (\<forall>i \<in> bs_set b'. \<forall>j \<in> bs_set b - bs_set b'. i < j)
      else bit_pick_cnt b n = Some None"
  proof (cases "n \<le> card (bs_set b)")
    case True
    then obtain b' where b': "bit_pick_cnt b n = Some (Some b')" "bs_bits b' = bs_bits b" "bs_set b' = first_set b n"
      using bit_pick_cnt_eq [OF assms(1), of n] by auto
    have "bs_set b' \<subseteq> bs_set b" unfolding b'(3) by (auto simp: first_set_def)
    moreover have "card (bs_set b') = n" unfolding b'(3) by (rule card_first_set [OF True])
    moreover have "\<forall>i \<in> bs_set b'. \<forall>j \<in> bs_set b - bs_set b'. i < j" unfolding b'(3) using low by blast
    ultimately show ?thesis unfolding if_P [OF True] using b'(1,2) by blast
  next
    case False
    then show ?thesis using bit_pick_cnt_eq [OF assms(1), of n] by simp
  qed
  show "gives (bit_pick_firstn b (int n)) (bs_bits b) {i \<in> bs_set b. card {j \<in> bs_set b. j < i} < n}"
    using bit_pick_firstn_eq [OF assms(1), of "int n"] assms(2)
    by (simp add: gives_def first_set_def bs_rank_def below_def)
qed

theorem bit_picks_witness:
  "gives (bit_pick_firstn (bs_example 8 [0xA5]) (int 2)) 8
     {i \<in> bs_set (bs_example 8 [0xA5]). card {j \<in> bs_set (bs_example 8 [0xA5]). j < i} < 2}"
  using bit_picks [of "bs_example 8 [0xA5]" 2] by simp

text \<open>Rotation moves position \<open>i\<close> to \<open>i + n\<close> modulo the size, for shifts of either sign.\<close>

lemma bit_rotate_moves:
  assumes "bs_valid b"
  shows "gives (bit_rotate b n) (bs_bits b) ((\<lambda>i. nat ((int i + n) mod int (bs_bits b))) ` bs_set b)"
  using bit_rotate_eq [OF assms] by (auto simp: gives_def)

text \<open>C9. The range text of a non-empty string, parsed into any string that is at least as long, restores its set, provided the
  text is shorter than \<open>2 ^ 30 - 1\<close> characters, beyond which the parser's \<open>int\<close> size overflows. Strings of up to \<open>2 ^ 26\<close>
  positions have such a text. The length-limited printer writes a prefix of the same text.\<close>

theorem bit_fmt_roundtrip:
  assumes "bs_valid b" "bs_valid c" "bs_bits b \<le> bs_bits c" "bs_set b \<noteq> {}" "0 < len"
  shows "\<exists>t. bit_fmt_full b = Some (Some t) \<and> bit_fmt len b = Some (take (nat len - 1) t)
     \<and> (bs_bits b \<le> 2 ^ 26 \<longrightarrow> length t < 2 ^ 30 - 1)
     \<and> (length t < 2 ^ 30 - 1 \<longrightarrow> (\<exists>c'. bit_unfmt c (Some t) = Some (c', 0) \<and> bs_bits c' = bs_bits c \<and> bs_set c' = bs_set b))"
  using unfmt_fmt [OF assms(1-4)] bit_fmt_full_eq [OF assms(1)] bit_fmt_eq [OF assms(1,5)] assms(4) by auto

theorem bit_fmt_roundtrip_witness:
  "\<exists>t c'. bit_fmt_full (bs_example 8 [0x2E]) = Some (Some t) \<and> bit_fmt 4 (bs_example 8 [0x2E]) = Some (take (nat 4 - 1) t)
     \<and> bit_unfmt (bs_example 70 [1, 1]) (Some t) = Some (c', 0) \<and> bs_bits c' = bs_bits (bs_example 70 [1, 1])
     \<and> bs_set c' = bs_set (bs_example 8 [0x2E])"
proof -
  have "1 \<in> bs_set (bs_example 8 [0x2E])" by (simp add: bs_example_set)
  then have "bs_set (bs_example 8 [0x2E]) \<noteq> {}" by blast
  moreover have "bs_valid (bs_example 8 [0x2E])" "bs_valid (bs_example 70 [1, 1])" "bs_bits (bs_example 8 [0x2E]) \<le> bs_bits (bs_example 70 [1, 1])"
    "bs_bits (bs_example 8 [0x2E]) \<le> 2 ^ 26" by simp_all
  ultimately show ?thesis using bit_fmt_roundtrip [of "bs_example 8 [0x2E]" "bs_example 70 [1, 1]" 4] by (meson zero_less_numeral)
qed

text \<open>C10. Parsing any text whose numbers stay in range (\<open>text_fits\<close>: garbage, empty elements and malformed step formats included) stays
  inside the arrays it allocates, keeps the string valid and its size, and returns 0 or -1. A well-formed step format whose
  array is too large for an \<open>int\<close> count is undefined behaviour.\<close>

theorem bit_unfmt_memory_safe:
  assumes "bs_valid b"
  shows "((\<forall>t. so = Some t \<longrightarrow> text_fits t) \<longrightarrow>
      (\<exists>b' rc. bit_unfmt b so = Some (b', rc) \<and> bs_valid b' \<and> bs_bits b' = bs_bits b \<and> (rc = 0 \<or> rc = -1)))
    \<and> (\<forall>t a e p. so = Some t \<longrightarrow> step_text t a e p \<longrightarrow> e - a \<ge> 2 ^ 31 \<or> e - a \<ge> (2 ^ 30 - 1) * p \<longrightarrow> bit_unfmt b so = None)"
proof (intro conjI allI impI)
  fix t a e p
  assume t: "so = Some t" "step_text t a e p" "e - a \<ge> 2 ^ 31 \<or> e - a \<ge> (2 ^ 30 - 1) * p"
  have "t \<noteq> ''''" using t(2) by (auto simp: step_text_def)
  with t assms step_text_overflow [OF t(2,3)] show "bit_unfmt b so = None" by (simp add: bit_unfmt_def)
qed (rule bit_unfmt_safe [OF assms])

theorem bit_unfmt_memory_safe_witness:
  "(\<exists>b' rc. bit_unfmt (bs_example 8 [0]) (Some ''-,,9x'') = Some (b', rc) \<and> bs_valid b' \<and> bs_bits b' = bs_bits (bs_example 8 [0])
     \<and> (rc = 0 \<or> rc = -1)) \<and> bit_unfmt (bs_example 8 [0]) (Some ''0-2147483647:1'') = None"
proof
  have v: "bs_valid (bs_example 8 [0])" by simp
  have "text_fits ''-,,9x''" by (simp add: text_fits_def numbers_fit_short)
  with bit_unfmt_memory_safe [OF v, of "Some ''-,,9x''"] show "\<exists>b' rc. bit_unfmt (bs_example 8 [0]) (Some ''-,,9x'') = Some (b', rc) \<and> bs_valid b'
     \<and> bs_bits b' = bs_bits (bs_example 8 [0]) \<and> (rc = 0 \<or> rc = -1)" by blast
  have "step_text ''0-2147483647:1'' 0 2147483647 1"
    by (simp add: step_text_def strtol_def is_space_def is_digit_def char_code_def digits_value_def s32_id)
  then show "bit_unfmt (bs_example 8 [0]) (Some ''0-2147483647:1'') = None"
    using bit_unfmt_memory_safe [OF v, of "Some ''0-2147483647:1''"] by fastforce
qed

text \<open>C11. The hexadecimal mask of a string, parsed into a string of the same size, restores its set.\<close>

theorem bit_hexmask_roundtrip:
  assumes "bs_valid b" "bs_valid c" "bs_bits c = bs_bits b"
  shows "\<exists>t c'. bit_fmt_hexmask b = Some t \<and> bit_unfmt_hexmask (Some c) (Some t) = Some (Some c', 0)
     \<and> bs_valid c' \<and> bs_bits c' = bs_bits b \<and> bs_set c' = bs_set b"
  by (rule unfmt_hexmask_fmt [OF assms])

theorem bit_hexmask_roundtrip_witness:
  "\<exists>t c'. bit_fmt_hexmask (bs_example 67 [0xA5, 3]) = Some t
     \<and> bit_unfmt_hexmask (Some (bs_example 67 [0, 0])) (Some t) = Some (Some c', 0)
     \<and> bs_valid c' \<and> bs_bits c' = bs_bits (bs_example 67 [0xA5, 3]) \<and> bs_set c' = bs_set (bs_example 67 [0xA5, 3])"
  by (rule bit_hexmask_roundtrip) simp_all

text \<open>C12. \<open>bit_nffs\<close> returns the first run of \<open>n\<close> set bits among those that end at position size - n or before, and -1 when there is none; so
  when every run of \<open>n\<close> set bits reaches beyond size - n, it reports that the string has no run.\<close>

theorem bit_nffs_exact:
  assumes "bs_valid b" "0 < n" "n \<le> bs_bits b"
  shows "\<exists>v. bit_nffs b (int n) = Some v
    \<and> (if \<exists>s. run_at b True (bs_bits b) n s \<and> s + n \<le> bs_bits b - n + 1
       then \<exists>s. v = int s \<and> run_at b True (bs_bits b) n s \<and> s + n \<le> bs_bits b - n + 1 \<and> (\<forall>k. k < s \<longrightarrow> \<not> run_at b True (bs_bits b) n k)
       else v = -1)"
proof -
  let ?R = "run_at b True (bs_bits b - n + 1) n"
  have R: "?R s \<longleftrightarrow> run_at b True (bs_bits b) n s \<and> s + n \<le> bs_bits b - n + 1" for s
    using assms(2,3) by (auto simp: run_at_def)
  from bit_nffs_eq [OF assms(1), of "int n"] assms obtain v where v: "bit_nffs b (int n) = Some v" "is_first ?R 0 (bs_bits b - n + 1) v" by auto
  have lt: "?R s \<Longrightarrow> s < bs_bits b - n + 1" for s using assms(2) by (simp add: run_at_def)
  show ?thesis
  proof (cases "\<exists>s. ?R s")
    case True
    then obtain s where s: "v = int s" "?R s" "\<forall>k. k < s \<longrightarrow> \<not> ?R k" using v(2) lt by (auto simp: is_first_def split: if_splits)
    then have "\<forall>k. k < s \<longrightarrow> \<not> run_at b True (bs_bits b) n k" using R by (meson add_le_mono1 le_trans less_imp_le)
    with s(1,2) v(1) True show ?thesis unfolding R by auto
  next
    case False
    then have "v = -1" using v(2) by (auto simp: is_first_def)
    with v(1) False show ?thesis unfolding R by auto
  qed
qed

theorem bit_nffs_exact_witness:
  "run_at (bs_example 8 [0xF0]) True 8 4 4 \<and> bit_nffs (bs_example 8 [0xF0]) 4 = Some (-1)"
proof
  let ?b = "bs_example 8 [0xF0]"
  show "run_at ?b True 8 4 4"
    unfolding run_at_def bs_example_bit by (auto simp: less_Suc_eq numeral_eq_Suc bit_numeral_rec)
  have "\<not> bs_bit ?b 1" by (simp add: bs_example_bit)
  then have "\<not> (run_at ?b True 8 4 s \<and> s + 4 \<le> 8 - 4 + 1)" for s
    unfolding run_at_def by (cases "s \<le> 1") (auto dest: spec [of _ 1])
  with bit_nffs_exact [of ?b 4] show "bit_nffs ?b 4 = Some (-1)" by auto
qed

end
