(* ===== verification/Pack_Buf.thy ===== *)
theory Pack_Buf
  imports Bitstring_Fmt
begin

text \<open>
  src/common/pack.c and the macros of pack.h: the buffers every message and state file of the
  program is written to and read from. A buffer owns \<open>buf_size\<close> bytes; \<open>processed\<close> is the write
  position while packing and the read position while unpacking. Both are 32-bit unsigned numbers,
  kept as naturals with the wrap-around written out.

  The memory allocator is a parameter \<open>alloc\<close>: \<open>alloc n\<close> tells whether a request of \<open>n\<close> bytes is
  granted. Pack operations return the new buffer; unpack operations return the value (\<open>None\<close> is
  \<open>SLURM_ERROR\<close>) and the buffer. The outer \<open>None\<close> is an access outside the buffer, a failed assertion
  or an abort.
\<close>

subsection \<open>Buffers\<close>

record buf =
  buf_magic :: nat
  head :: "u8 list"
  buf_size :: nat
  processed :: nat
  mmaped :: bool
  shadow :: bool

definition BUF_MAGIC :: nat where "BUF_MAGIC = 0x42554545"
definition BUF_SIZE :: nat where "BUF_SIZE = 16 * 1024"
definition MAX_BUF_SIZE :: nat where "MAX_BUF_SIZE = 0xffff0000"
definition MAX_PACK_MEM_LEN :: nat where "MAX_PACK_MEM_LEN = 1024 * 1024 * 1024"
definition NO_VAL :: nat where "NO_VAL = 0xfffffffe"

datatype grow_rc = GROW_SUCCESS | GROW_EINVAL | GROW_TOO_LARGE | GROW_ENOMEM

definition wrap32 :: "nat \<Rightarrow> nat" where
  "wrap32 n = n mod 2 ^ 32"

definition remaining_buf :: "buf \<Rightarrow> nat" where
  "remaining_buf b = wrap32 (buf_size b + 2 ^ 32 - processed b)"

definition create_buf :: "u8 list \<Rightarrow> nat \<Rightarrow> buf option" where
  "create_buf data sz =
     (if sz > MAX_BUF_SIZE then None
      else Some \<lparr>buf_magic = BUF_MAGIC, head = data, buf_size = sz, processed = 0,
                 mmaped = False, shadow = False\<rparr>)"

text \<open>The file's contents, or \<open>None\<close> when it cannot be opened, examined or mapped.\<close>

definition create_mmap_buf :: "u8 list option \<Rightarrow> buf option" where
  "create_mmap_buf file = (case file of
     None \<Rightarrow> None
   | Some data \<Rightarrow> map_option (\<lambda>b. b\<lparr>mmaped := True\<rparr>) (create_buf data (wrap32 (length data))))"

definition create_shadow_buf :: "u8 list \<Rightarrow> nat \<Rightarrow> buf option" where
  "create_shadow_buf data sz = map_option (\<lambda>b. b\<lparr>shadow := True\<rparr>) (create_buf data sz)"

text \<open>\<open>free_buf\<close>: what it releases, as (unmap, release the data, release the structure).\<close>

definition free_buf :: "buf option \<Rightarrow> (bool \<times> bool \<times> bool) option" where
  "free_buf bo = (case bo of
     None \<Rightarrow> Some (False, False, False)
   | Some b \<Rightarrow> do {
       xassert (buf_magic b = BUF_MAGIC);
       Some (mmaped b, \<not> mmaped b \<and> \<not> shadow b, True) })"

text \<open>\<open>xrealloc_nz\<close> leaves the new bytes as they are; \<open>junk\<close> stands for them.\<close>

definition grow_buf :: "(nat \<Rightarrow> u8) \<Rightarrow> buf \<Rightarrow> nat \<Rightarrow> buf option" where
  "grow_buf junk b sz = do {
     let new_size = sz + buf_size b;
     xassert (buf_magic b = BUF_MAGIC);
     if mmaped b \<or> shadow b \<or> new_size > MAX_BUF_SIZE then None
     else Some (b\<lparr>buf_size := new_size,
                  head := take new_size (head b) @ map junk [length (head b)..<new_size]\<rparr>) }"

definition try_grow_buf :: "(nat \<Rightarrow> bool) \<Rightarrow> buf \<Rightarrow> nat \<Rightarrow> (grow_rc \<times> buf) option" where
  "try_grow_buf alloc b sz = do {
     let new_size0 = wrap32 (buf_size b + BUF_SIZE);
     xassert (buf_magic b = BUF_MAGIC);
     let new_size = (if sz \<ge> BUF_SIZE then new_size0 + sz else new_size0);
     if mmaped b \<or> shadow b then Some (GROW_EINVAL, b)
     else if new_size > MAX_BUF_SIZE then Some (GROW_TOO_LARGE, b)
     else if \<not> alloc new_size then Some (GROW_ENOMEM, b)
     else Some (GROW_SUCCESS,
       b\<lparr>head := take new_size (head b) @ replicate (new_size - length (head b)) 0,
         buf_size := wrap32 new_size\<rparr>) }"

definition try_grow_buf_remaining :: "(nat \<Rightarrow> bool) \<Rightarrow> buf \<Rightarrow> nat \<Rightarrow> (grow_rc \<times> buf) option" where
  "try_grow_buf_remaining alloc b sz = do {
     xassert (buf_magic b = BUF_MAGIC);
     if remaining_buf b < sz then try_grow_buf alloc b sz else Some (GROW_SUCCESS, b) }"

definition init_buf :: "nat \<Rightarrow> buf option" where
  "init_buf sz0 =
     (if sz0 > MAX_BUF_SIZE then None
      else let sz = (if sz0 \<le> 0 then BUF_SIZE else sz0) in
        Some \<lparr>buf_magic = BUF_MAGIC, head = replicate sz 0, buf_size = sz, processed = 0,
              mmaped = False, shadow = False\<rparr>)"

text \<open>The size of the structure is that of a 64-bit build; only whether it can be allocated matters.\<close>

definition try_init_buf :: "(nat \<Rightarrow> bool) \<Rightarrow> nat \<Rightarrow> buf option" where
  "try_init_buf alloc sz0 =
     (let sz = (if sz0 = 0 then BUF_SIZE else sz0) in
      if sz > MAX_BUF_SIZE then None
      else if \<not> alloc 32 then None
      else if \<not> alloc sz then None
      else Some \<lparr>buf_magic = BUF_MAGIC, head = replicate sz 0, buf_size = sz, processed = 0,
                 mmaped = False, shadow = False\<rparr>)"

definition xfer_buf_data :: "buf \<Rightarrow> u8 list option" where
  "xfer_buf_data b = do {
     xassert (buf_magic b = BUF_MAGIC);
     if mmaped b \<or> shadow b then None else Some (head b) }"

subsection \<open>Copies into and out of a buffer\<close>

text \<open>\<^verbatim>\<open>memcpy(&buffer->head[buffer->processed], bytes, n); buffer->processed += n;\<close>\<close>

definition buf_put :: "buf \<Rightarrow> u8 list \<Rightarrow> buf option" where
  "buf_put b bs =
     (if processed b + length bs \<le> length (head b)
      then Some (b\<lparr>head := take (processed b) (head b) @ bs @ drop (processed b + length bs) (head b),
                   processed := wrap32 (processed b + length bs)\<rparr>)
      else None)"

text \<open>\<^verbatim>\<open>memcpy(bytes, &buffer->head[buffer->processed], n); buffer->processed += n;\<close>\<close>

definition buf_get :: "buf \<Rightarrow> nat \<Rightarrow> (u8 list \<times> buf) option" where
  "buf_get b n =
     (if processed b + n \<le> length (head b)
      then Some (take n (drop (processed b) (head b)), b\<lparr>processed := wrap32 (processed b + n)\<rparr>)
      else None)"

text \<open>The shape of every pack operation: make room, give up silently when there is none.\<close>

definition pack_bytes :: "(nat \<Rightarrow> bool) \<Rightarrow> u8 list \<Rightarrow> buf \<Rightarrow> buf option" where
  "pack_bytes alloc bs b = do {
     (rc, b') \<leftarrow> try_grow_buf_remaining alloc b (length bs);
     if rc \<noteq> GROW_SUCCESS then Some b' else buf_put b' bs }"

text \<open>The shape of every fixed-size unpack operation.\<close>

definition unpack_bytes :: "nat \<Rightarrow> buf \<Rightarrow> (u8 list option \<times> buf) option" where
  "unpack_bytes n b =
     (if remaining_buf b < n then Some (None, b)
      else do { (bs, b') \<leftarrow> buf_get b n; Some (Some bs, b') })"

text \<open>Network byte order.\<close>

fun be :: "nat \<Rightarrow> nat \<Rightarrow> u8 list" where
  "be 0 x = []"
| "be (Suc n) x = be n (x div 256) @ [of_nat (x mod 256)]"

definition un_be :: "u8 list \<Rightarrow> nat" where
  "un_be bs = foldl (\<lambda>a b. a * 256 + unat b) 0 bs"

subsection \<open>Scalars\<close>

definition pack_time :: "(nat \<Rightarrow> bool) \<Rightarrow> int \<Rightarrow> buf \<Rightarrow> buf option" where
  "pack_time alloc val b = pack_bytes alloc (be 8 (nat (val mod 2 ^ 64))) b"

definition unpack_time :: "buf \<Rightarrow> (int option \<times> buf) option" where
  "unpack_time b = do {
     (r, b') \<leftarrow> unpack_bytes 8 b;
     Some (map_option (\<lambda>bs. signed_take_bit 63 (int (un_be bs))) r, b') }"

definition pack64 :: "(nat \<Rightarrow> bool) \<Rightarrow> u64 \<Rightarrow> buf \<Rightarrow> buf option" where
  "pack64 alloc val b = pack_bytes alloc (be 8 (unat val)) b"

definition unpack64 :: "buf \<Rightarrow> (u64 option \<times> buf) option" where
  "unpack64 b = do { (r, b') \<leftarrow> unpack_bytes 8 b; Some (map_option (\<lambda>bs. of_nat (un_be bs)) r, b') }"

definition pack32 :: "(nat \<Rightarrow> bool) \<Rightarrow> u32 \<Rightarrow> buf \<Rightarrow> buf option" where
  "pack32 alloc val b = pack_bytes alloc (be 4 (unat val)) b"

definition unpack32 :: "buf \<Rightarrow> (u32 option \<times> buf) option" where
  "unpack32 b = do { (r, b') \<leftarrow> unpack_bytes 4 b; Some (map_option (\<lambda>bs. of_nat (un_be bs)) r, b') }"

definition pack16 :: "(nat \<Rightarrow> bool) \<Rightarrow> u16 \<Rightarrow> buf \<Rightarrow> buf option" where
  "pack16 alloc val b = pack_bytes alloc (be 2 (unat val)) b"

definition unpack16 :: "buf \<Rightarrow> (u16 option \<times> buf) option" where
  "unpack16 b = do { (r, b') \<leftarrow> unpack_bytes 2 b; Some (map_option (\<lambda>bs. of_nat (un_be bs)) r, b') }"

definition pack8 :: "(nat \<Rightarrow> bool) \<Rightarrow> u8 \<Rightarrow> buf \<Rightarrow> buf option" where
  "pack8 alloc val b = pack_bytes alloc [val] b"

definition unpack8 :: "buf \<Rightarrow> (u8 option \<times> buf) option" where
  "unpack8 b = do { (r, b') \<leftarrow> unpack_bytes 1 b; Some (map_option hd r, b') }"

definition packbool :: "(nat \<Rightarrow> bool) \<Rightarrow> bool \<Rightarrow> buf \<Rightarrow> buf option" where
  "packbool alloc val b = pack8 alloc (if val then 1 else 0) b"

definition unpackbool :: "buf \<Rightarrow> (bool option \<times> buf) option" where
  "unpackbool b = do { (r, b') \<leftarrow> unpack8 b; Some (map_option (\<lambda>v. v \<noteq> 0) r, b') }"

text \<open>A \<open>double\<close> or \<open>float\<close> is its bit pattern; \<open>scale\<close> and \<open>unscale\<close> are the machine's multiplication
  and division by \<open>FLOAT_MULT\<close>.\<close>

definition packdouble :: "(u64 \<Rightarrow> u64) \<Rightarrow> (nat \<Rightarrow> bool) \<Rightarrow> u64 \<Rightarrow> buf \<Rightarrow> buf option" where
  "packdouble scale alloc val b = pack_bytes alloc (be 8 (unat (scale val))) b"

definition unpackdouble :: "(u64 \<Rightarrow> u64) \<Rightarrow> buf \<Rightarrow> (u64 option \<times> buf) option" where
  "unpackdouble unscale b = do {
     (r, b') \<leftarrow> unpack_bytes 8 b;
     Some (map_option (\<lambda>bs. unscale (of_nat (un_be bs))) r, b') }"

definition packfloat :: "(u32 \<Rightarrow> u32) \<Rightarrow> (nat \<Rightarrow> bool) \<Rightarrow> u32 \<Rightarrow> buf \<Rightarrow> buf option" where
  "packfloat scale alloc val b = pack32 alloc (scale val) b"

definition unpackfloat :: "(u32 \<Rightarrow> u32) \<Rightarrow> buf \<Rightarrow> (u32 option \<times> buf) option" where
  "unpackfloat unscale b = do { (r, b') \<leftarrow> unpack32 b; Some (map_option unscale r, b') }"

subsection \<open>Memory blocks and strings\<close>

definition packbuf :: "(nat \<Rightarrow> bool) \<Rightarrow> buf \<Rightarrow> buf \<Rightarrow> buf option" where
  "packbuf alloc source b =
     (let size_val = processed source in
      if size_val = 0 then Some b
      else if size_val \<le> length (head source) then pack_bytes alloc (take size_val (head source)) b
      else None)"

text \<open>\<open>packmem\<close> reserves room for the length and the data together.\<close>

definition packmem :: "(nat \<Rightarrow> bool) \<Rightarrow> u8 list \<Rightarrow> buf \<Rightarrow> buf option" where
  "packmem alloc data b =
     (if length data > MAX_PACK_MEM_LEN then Some b
      else do {
        (rc, b1) \<leftarrow> try_grow_buf_remaining alloc b (4 + length data);
        if rc \<noteq> GROW_SUCCESS then Some b1
        else do {
          b2 \<leftarrow> buf_put b1 (be 4 (length data));
          if length data \<noteq> 0 then buf_put b2 data else Some b2 } })"

text \<open>Shared head of the block readers: the length, then the checks. \<open>Inl\<close> is a return before the
  data: \<open>Inl True\<close> success with no data, \<open>Inl False\<close> an error.\<close>

definition unpack_len :: "buf \<Rightarrow> ((bool + nat) \<times> buf) option" where
  "unpack_len b = do {
     xassert (buf_magic b = BUF_MAGIC);
     (r, b1) \<leftarrow> unpack32 b;
     case r of
       None \<Rightarrow> Some (Inl False, b1)
     | Some sz \<Rightarrow>
         if sz = 0 then Some (Inl True, b1)
         else if unat sz > MAX_PACK_MEM_LEN then Some (Inl False, b1)
         else if remaining_buf b1 < unat sz then Some (Inl False, b1)
         else Some (Inr (unat sz), b1) }"

text \<open>\<open>unpackmem_ptr\<close> and \<open>unpackmem_xmalloc\<close>: \<open>Some None\<close> is success with the null pointer. The
  first points into the buffer, the second copies; the bytes are the same.\<close>

definition unpackmem_ptr :: "buf \<Rightarrow> (u8 list option option \<times> buf) option" where
  "unpackmem_ptr b = do {
     (r, b1) \<leftarrow> unpack_len b;
     case r of
       Inl ok \<Rightarrow> Some (if ok then Some None else None, b1)
     | Inr n \<Rightarrow> do { (bs, b2) \<leftarrow> buf_get b1 n; Some (Some (Some bs), b2) } }"

definition unpackmem_xmalloc :: "(nat \<Rightarrow> bool) \<Rightarrow> buf \<Rightarrow> (u8 list option option \<times> buf) option" where
  "unpackmem_xmalloc alloc b = do {
     (r, b1) \<leftarrow> unpack_len b;
     case r of
       Inl ok \<Rightarrow> Some (if ok then Some None else None, b1)
     | Inr n \<Rightarrow>
         if \<not> alloc n then Some (None, b1)
         else do { (bs, b2) \<leftarrow> buf_get b1 n; Some (Some (Some bs), b2) } }"

definition unpackstr_xmalloc :: "(nat \<Rightarrow> bool) \<Rightarrow> buf \<Rightarrow> (u8 list option option \<times> buf) option" where
  "unpackstr_xmalloc alloc b = do {
     (r, b1) \<leftarrow> unpack_len b;
     case r of
       Inl ok \<Rightarrow> Some (if ok then Some None else None, b1)
     | Inr n \<Rightarrow> do {
         z \<leftarrow> mem_get (head b1) (processed b1 + n - 1);
         if z \<noteq> 0 then Some (None, b1)
         else if \<not> alloc n then Some (None, b1)
         else do { (bs, b2) \<leftarrow> buf_get b1 n; Some (Some (Some bs), b2) } } }"

text \<open>Quote and backslash are escaped; the copy goes into \<open>2 * cnt + 1\<close> zeroed bytes.\<close>

fun escape_loop :: "nat \<Rightarrow> u8 list \<Rightarrow> u8 list \<Rightarrow> u8 list option" where
  "escape_loop cap [] copy = Some copy"
| "escape_loop cap (c # cs) copy =
     (if c = 0 then Some copy
      else let copy' = copy @ (if c = 92 \<or> c = 39 then [92, c] else [c]) in
        if length copy' \<le> cap then escape_loop cap cs copy' else None)"

definition unpackstr_xmalloc_escaped :: "(nat \<Rightarrow> bool) \<Rightarrow> buf \<Rightarrow> (u8 list option option \<times> buf) option" where
  "unpackstr_xmalloc_escaped alloc b = do {
     (r, b1) \<leftarrow> unpack_len b;
     case r of
       Inl ok \<Rightarrow> Some (if ok then Some None else None, b1)
     | Inr cnt \<Rightarrow>
         if \<not> alloc (cnt * 2 + 1) then Some (None, b1)
         else do {
           (bs, b2) \<leftarrow> buf_get b1 cnt;
           copy \<leftarrow> escape_loop (cnt * 2 + 1) bs [];
           Some (Some (Some (copy @ replicate (cnt * 2 + 1 - length copy) 0)), b2) } }"

text \<open>\<open>slurmdbd_conf\<close> is set in the accounting daemon only.\<close>

definition unpackstr_xmalloc_chooser :: "bool \<Rightarrow> (nat \<Rightarrow> bool) \<Rightarrow> buf \<Rightarrow> (u8 list option option \<times> buf) option" where
  "unpackstr_xmalloc_chooser slurmdbd_conf alloc b =
     (if slurmdbd_conf then unpackstr_xmalloc_escaped alloc b else unpackstr_xmalloc alloc b)"

text \<open>Strings as bytes, with and without the terminating NUL.\<close>

definition str_bytes :: "string \<Rightarrow> u8 list" where
  "str_bytes s = map of_char s @ [0]"

definition c_str :: "u8 list \<Rightarrow> string" where
  "c_str bs = map (\<lambda>c. char_of (unat c)) (takeWhile (\<lambda>c. c \<noteq> 0) bs)"

definition packstr :: "(nat \<Rightarrow> bool) \<Rightarrow> string option \<Rightarrow> buf \<Rightarrow> buf option" where
  "packstr alloc so b = do {
     let data = (case so of None \<Rightarrow> [] | Some s \<Rightarrow> str_bytes s);
     xassert (buf_magic b = BUF_MAGIC);
     packmem alloc data b }"

definition safe_unpackstr :: "bool \<Rightarrow> (nat \<Rightarrow> bool) \<Rightarrow> buf \<Rightarrow> (string option option \<times> buf) option" where
  "safe_unpackstr slurmdbd_conf alloc b = do {
     xassert (buf_magic b = BUF_MAGIC);
     (r, b') \<leftarrow> unpackstr_xmalloc_chooser slurmdbd_conf alloc b;
     Some (map_option (map_option c_str) r, b') }"

text \<open>A long double travels as text; \<open>print\<close> and \<open>scan\<close> stand for \<open>snprintf\<close> and \<open>sscanf\<close> with
  \<^verbatim>\<open>%Lf\<close>. \<open>sscanf\<close> reads from the pointer into the buffer up to a NUL, which may lie behind the
  block, and dereferences the null pointer of an empty block.\<close>

definition packlongdouble :: "('l \<Rightarrow> string) \<Rightarrow> (nat \<Rightarrow> bool) \<Rightarrow> 'l \<Rightarrow> buf \<Rightarrow> buf option" where
  "packlongdouble print alloc val b = packstr alloc (Some (take 255 (print val))) b"

definition unpacklongdouble :: "(string \<Rightarrow> 'l option) \<Rightarrow> ('l \<Rightarrow> bool) \<Rightarrow> 'l \<Rightarrow> buf \<Rightarrow> ('l option \<times> buf) option" where
  "unpacklongdouble scan isnan zero b = do {
     (r, b1) \<leftarrow> unpackmem_ptr b;
     case r of
       None \<Rightarrow> Some (None, b1)
     | Some None \<Rightarrow> None
     | Some (Some bs) \<Rightarrow>
         let text = drop (processed b1 - length bs) (head b1) in
         if 0 \<notin> set text then None
         else Some (map_option (\<lambda>v. if isnan v then zero else v) (scan (c_str text)), b1) }"

definition packmem_array :: "(nat \<Rightarrow> bool) \<Rightarrow> u8 list \<Rightarrow> buf \<Rightarrow> buf option" where
  "packmem_array alloc data b = pack_bytes alloc data b"

text \<open>\<open>unpackmem_array\<close> writes into the caller's array \<open>valp\<close> of \<open>size_valp\<close> bytes; on error it clears
  the first byte, which must exist.\<close>

definition unpackmem_array :: "u8 list \<Rightarrow> buf \<Rightarrow> (bool \<times> u8 list \<times> buf) option" where
  "unpackmem_array valp b =
     (if remaining_buf b \<ge> length valp
      then do { (bs, b') \<leftarrow> buf_get b (length valp); Some (True, bs, b') }
      else do { valp' \<leftarrow> mem_set valp 0 0; Some (False, valp', b) })"

subsection \<open>Arrays\<close>

fun pack_each :: "('v \<Rightarrow> buf \<Rightarrow> buf option) \<Rightarrow> 'v list \<Rightarrow> buf \<Rightarrow> buf option" where
  "pack_each pk [] b = Some b"
| "pack_each pk (v # vs) b = pk v b \<bind> pack_each pk vs"

text \<open>The count, then the elements; arrays are shorter than \<open>2 ^ 32\<close>.\<close>

definition pack_array :: "(nat \<Rightarrow> bool) \<Rightarrow> ('v \<Rightarrow> buf \<Rightarrow> buf option) \<Rightarrow> 'v list \<Rightarrow> buf \<Rightarrow> buf option" where
  "pack_array alloc pk vs b = do {
     b1 \<leftarrow> pack32 alloc (of_nat (length vs)) b;
     pack_each pk vs b1 }"

fun unpack_each :: "(buf \<Rightarrow> ('v option \<times> buf) option) \<Rightarrow> nat \<Rightarrow> buf \<Rightarrow> 'v list \<Rightarrow> ('v list option \<times> buf) option" where
  "unpack_each upk 0 b acc = Some (Some acc, b)"
| "unpack_each upk (Suc n) b acc = do {
     xassert (buf_magic b = BUF_MAGIC);
     (r, b') \<leftarrow> upk b;
     case r of None \<Rightarrow> Some (None, b') | Some v \<Rightarrow> unpack_each upk n b' (acc @ [v]) }"

definition unpack_array :: "(nat \<Rightarrow> bool) \<Rightarrow> nat \<Rightarrow> (buf \<Rightarrow> ('v option \<times> buf) option) \<Rightarrow> buf
    \<Rightarrow> ('v list option \<times> buf) option" where
  "unpack_array alloc elem_size upk b = do {
     xassert (buf_magic b = BUF_MAGIC);
     (r, b1) \<leftarrow> unpack32 b;
     case r of
       None \<Rightarrow> Some (None, b1)
     | Some n \<Rightarrow>
         if n \<noteq> 0 \<and> \<not> alloc (unat n * elem_size) then Some (None, b1)
         else unpack_each upk (unat n) b1 [] }"

definition pack16_array :: "(nat \<Rightarrow> bool) \<Rightarrow> u16 list \<Rightarrow> buf \<Rightarrow> buf option" where
  "pack16_array alloc = pack_array alloc (pack16 alloc)"

definition unpack16_array :: "(nat \<Rightarrow> bool) \<Rightarrow> buf \<Rightarrow> (u16 list option \<times> buf) option" where
  "unpack16_array alloc = unpack_array alloc 2 unpack16"

definition pack32_array :: "(nat \<Rightarrow> bool) \<Rightarrow> u32 list \<Rightarrow> buf \<Rightarrow> buf option" where
  "pack32_array alloc = pack_array alloc (pack32 alloc)"

definition unpack32_array :: "(nat \<Rightarrow> bool) \<Rightarrow> buf \<Rightarrow> (u32 list option \<times> buf) option" where
  "unpack32_array alloc = unpack_array alloc 4 unpack32"

definition pack64_array :: "(nat \<Rightarrow> bool) \<Rightarrow> u64 list \<Rightarrow> buf \<Rightarrow> buf option" where
  "pack64_array alloc = pack_array alloc (pack64 alloc)"

definition unpack64_array :: "(nat \<Rightarrow> bool) \<Rightarrow> buf \<Rightarrow> (u64 list option \<times> buf) option" where
  "unpack64_array alloc = unpack_array alloc 8 unpack64"

definition packdouble_array :: "(u64 \<Rightarrow> u64) \<Rightarrow> (nat \<Rightarrow> bool) \<Rightarrow> u64 list \<Rightarrow> buf \<Rightarrow> buf option" where
  "packdouble_array scale alloc = pack_array alloc (packdouble scale alloc)"

definition unpackdouble_array :: "(u64 \<Rightarrow> u64) \<Rightarrow> (nat \<Rightarrow> bool) \<Rightarrow> buf \<Rightarrow> (u64 list option \<times> buf) option" where
  "unpackdouble_array unscale alloc = unpack_array alloc 8 (unpackdouble unscale)"

definition packlongdouble_array :: "('l \<Rightarrow> string) \<Rightarrow> (nat \<Rightarrow> bool) \<Rightarrow> 'l list \<Rightarrow> buf \<Rightarrow> buf option" where
  "packlongdouble_array print alloc = pack_array alloc (packlongdouble print alloc)"

definition unpacklongdouble_array :: "(string \<Rightarrow> 'l option) \<Rightarrow> ('l \<Rightarrow> bool) \<Rightarrow> 'l \<Rightarrow> (nat \<Rightarrow> bool) \<Rightarrow> buf
    \<Rightarrow> ('l list option \<times> buf) option" where
  "unpacklongdouble_array scan isnan zero alloc = unpack_array alloc 16 (unpacklongdouble scan isnan zero)"

text \<open>\<open>packstr_array\<close> writes nothing at all when the count does not fit.\<close>

definition packstr_array :: "(nat \<Rightarrow> bool) \<Rightarrow> string option list \<Rightarrow> buf \<Rightarrow> buf option" where
  "packstr_array alloc strs b = do {
     (rc, b1) \<leftarrow> try_grow_buf_remaining alloc b 4;
     if rc \<noteq> GROW_SUCCESS then Some b1
     else do {
       b2 \<leftarrow> buf_put b1 (be 4 (length strs));
       pack_each (packstr alloc) strs b2 } }"

definition unpackstr_array :: "bool \<Rightarrow> (nat \<Rightarrow> bool) \<Rightarrow> buf \<Rightarrow> (string option list option \<times> buf) option" where
  "unpackstr_array slurmdbd_conf alloc b = do {
     xassert (buf_magic b = BUF_MAGIC);
     (r, b1) \<leftarrow> unpack32 b;
     case r of
       None \<Rightarrow> Some (None, b1)
     | Some n \<Rightarrow>
         if n = 0 then Some (Some [], b1)
         else if unat n > MAX_PACK_MEM_LEN then Some (None, b1)
         else if \<not> alloc ((unat n + 1) * 8) then Some (None, b1)
         else unpack_each (safe_unpackstr slurmdbd_conf alloc) (unat n) b1 [] }"

subsection \<open>Bit strings on the wire\<close>

definition pack_bit_str_hex :: "(nat \<Rightarrow> bool) \<Rightarrow> bitstr option \<Rightarrow> buf \<Rightarrow> buf option" where
  "pack_bit_str_hex alloc bo b = do {
     xassert (buf_magic b = BUF_MAGIC);
     case bo of
       Some bitmap \<Rightarrow> do {
         tmp_str \<leftarrow> bit_fmt_hexmask bitmap;
         sz \<leftarrow> bit_size bitmap;
         b1 \<leftarrow> pack32 alloc (of_nat sz) b;
         packmem alloc (str_bytes tmp_str) b1 }
     | None \<Rightarrow> pack32 alloc (of_nat NO_VAL) b }"

text \<open>\<open>Some None\<close> is success with a null bitmap.\<close>

definition unpack_bit_str_hex :: "bool \<Rightarrow> (nat \<Rightarrow> bool) \<Rightarrow> buf \<Rightarrow> (bitstr option option \<times> buf) option" where
  "unpack_bit_str_hex slurmdbd_conf alloc b = do {
     xassert (buf_magic b = BUF_MAGIC);
     (r, b1) \<leftarrow> unpack32 b;
     case r of
       None \<Rightarrow> Some (None, b1)
     | Some sz \<Rightarrow>
         if sz = of_nat NO_VAL then Some (Some None, b1)
         else do {
           (s, b2) \<leftarrow> safe_unpackstr slurmdbd_conf alloc b1;
           case s of
             None \<Rightarrow> Some (None, b2)
           | Some tmp_str \<Rightarrow>
               if sz = 0 then Some (Some None, b2)
               else do {
                 bitmap \<leftarrow> bit_alloc (int (unat sz));
                 (bitmap', rc) \<leftarrow> bit_unfmt_hexmask (Some bitmap) tmp_str;
                 Some (if rc \<noteq> 0 then None else Some bitmap', b2) } } }"

definition unpack_bit_str_hex_as_inx :: "bool \<Rightarrow> (nat \<Rightarrow> bool) \<Rightarrow> buf \<Rightarrow> (int list option \<times> buf) option" where
  "unpack_bit_str_hex_as_inx slurmdbd_conf alloc b = do {
     (r, b1) \<leftarrow> unpack_bit_str_hex slurmdbd_conf alloc b;
     case r of
       None \<Rightarrow> Some (None, b1)
     | Some bo \<Rightarrow> do { inx \<leftarrow> bitstr2inx bo; Some (Some inx, b1) } }"

definition unpack_bit_str_hex_as_fmt_str :: "bool \<Rightarrow> (nat \<Rightarrow> bool) \<Rightarrow> buf \<Rightarrow> (string option option \<times> buf) option" where
  "unpack_bit_str_hex_as_fmt_str slurmdbd_conf alloc b = do {
     (r, b1) \<leftarrow> unpack_bit_str_hex slurmdbd_conf alloc b;
     case r of
       None \<Rightarrow> Some (None, b1)
     | Some None \<Rightarrow> Some (Some None, b1)
     | Some (Some bm) \<Rightarrow> do { str \<leftarrow> bit_fmt_full bm; Some (Some str, b1) } }"

subsection \<open>Invariant and views\<close>

definition buf_ok :: "buf \<Rightarrow> bool" where
  "buf_ok b \<longleftrightarrow> buf_magic b = BUF_MAGIC \<and> length (head b) = buf_size b \<and> processed b \<le> buf_size b
     \<and> buf_size b \<le> MAX_BUF_SIZE"

text \<open>What was written, and what is left to read.\<close>

definition buf_data :: "buf \<Rightarrow> u8 list" where
  "buf_data b = take (processed b) (head b)"

definition buf_rest :: "buf \<Rightarrow> u8 list" where
  "buf_rest b = drop (processed b) (head b)"

definition advance :: "buf \<Rightarrow> nat \<Rightarrow> buf" where
  "advance b n = b\<lparr>processed := processed b + n\<rparr>"

text \<open>Memory is available and \<open>n\<close> more bytes stay below the size limit however the buffer grows.\<close>

definition growable :: "(nat \<Rightarrow> bool) \<Rightarrow> buf \<Rightarrow> nat \<Rightarrow> bool" where
  "growable alloc b n \<longleftrightarrow> (\<forall>k. alloc k) \<and> \<not> mmaped b \<and> \<not> shadow b
     \<and> processed b + 2 * n + BUF_SIZE \<le> MAX_BUF_SIZE"

text \<open>The effect of a write: the bytes are appended.\<close>

definition appended :: "buf \<Rightarrow> u8 list \<Rightarrow> buf \<Rightarrow> bool" where
  "appended b bs b' \<longleftrightarrow> buf_ok b' \<and> buf_data b' = buf_data b @ bs \<and> processed b' = processed b + length bs
     \<and> mmaped b' = mmaped b \<and> shadow b' = shadow b"

lemmas buf_consts = BUF_SIZE_def MAX_BUF_SIZE_def MAX_PACK_MEM_LEN_def

lemma wrap32_id [simp]: "n < 2 ^ 32 \<Longrightarrow> wrap32 n = n"
  by (simp add: wrap32_def)

lemma remaining_ok: "buf_ok b \<Longrightarrow> remaining_buf b = length (buf_rest b)"
proof -
  assume "buf_ok b"
  then have "processed b \<le> buf_size b" "buf_size b < 2 ^ 32" "length (head b) = buf_size b"
    by (auto simp: buf_ok_def buf_consts)
  then have "(buf_size b + 2 ^ 32 - processed b) mod 2 ^ 32 = (buf_size b - processed b + 2 ^ 32) mod 2 ^ 32"
    by (intro arg_cong [where f = "\<lambda>n. n mod 2 ^ 32"]) simp
  then show ?thesis using \<open>buf_size b < 2 ^ 32\<close> \<open>length (head b) = buf_size b\<close>
    unfolding remaining_buf_def wrap32_def buf_rest_def by (simp only: mod_add_self2) simp
qed

lemma length_buf_data: "buf_ok b \<Longrightarrow> length (buf_data b) = processed b"
  by (simp add: buf_ok_def buf_data_def)

lemma advance_ok [simp]: "buf_ok b \<Longrightarrow> n \<le> length (buf_rest b) \<Longrightarrow> buf_ok (advance b n)"
  by (auto simp: buf_ok_def advance_def buf_rest_def)

lemma advance_simps [simp]:
  "buf_magic (advance b n) = buf_magic b" "head (advance b n) = head b" "advance b 0 = b"
  "advance (advance b n) m = advance b (n + m)" "buf_rest (advance b n) = drop n (buf_rest b)"
  by (simp_all add: advance_def buf_rest_def add.commute)

lemma appended_refl: "buf_ok b \<Longrightarrow> appended b [] b"
  by (simp add: appended_def)

lemma appended_trans: "appended b bs b' \<Longrightarrow> appended b' bs' b'' \<Longrightarrow> appended b (bs @ bs') b''"
  by (simp add: appended_def)

lemma growable_appended: "growable alloc b (length bs + n) \<Longrightarrow> appended b bs b' \<Longrightarrow> growable alloc b' n"
  by (auto simp: growable_def appended_def)

lemma buf_get_ok:
  assumes "buf_ok b" "n \<le> length (buf_rest b)"
  shows "buf_get b n = Some (take n (buf_rest b), advance b n)"
proof -
  have "processed b + n < 2 ^ 32" "processed b + n \<le> length (head b)"
    using assms by (auto simp: buf_ok_def buf_rest_def buf_consts)
  then show ?thesis by (simp add: buf_get_def buf_rest_def advance_def)
qed

lemma buf_put_ok:
  assumes "buf_ok b" "length bs \<le> length (buf_rest b)"
  shows "\<exists>b'. buf_put b bs = Some b' \<and> appended b bs b' \<and> length (buf_rest b') = length (buf_rest b) - length bs"
proof -
  have 1: "processed b + length bs < 2 ^ 32" "processed b + length bs \<le> length (head b)" "processed b \<le> length (head b)"
    using assms by (auto simp: buf_ok_def buf_rest_def buf_consts)
  then show ?thesis using assms
    by (auto simp: buf_put_def appended_def buf_ok_def buf_data_def buf_rest_def)
qed

subsubsection \<open>Growth\<close>

lemma try_grow_cases:
  assumes "buf_ok b" "n \<le> MAX_PACK_MEM_LEN + 4"
  shows "\<exists>rc b'. try_grow_buf_remaining alloc b n = Some (rc, b') \<and> appended b [] b'
     \<and> (rc = GROW_SUCCESS \<longrightarrow> n \<le> length (buf_rest b')) \<and> (rc \<noteq> GROW_SUCCESS \<longrightarrow> b' = b)"
proof (cases "remaining_buf b < n")
  case False
  with assms show ?thesis
    by (auto simp: try_grow_buf_remaining_def buf_ok_def remaining_ok intro: appended_refl)
next
  case True
  have b: "buf_magic b = BUF_MAGIC" "length (head b) = buf_size b" "processed b \<le> buf_size b" "buf_size b \<le> MAX_BUF_SIZE"
    using assms(1) by (auto simp: buf_ok_def)
  have w: "wrap32 (buf_size b + BUF_SIZE) = buf_size b + BUF_SIZE"
    using b(4) by (intro wrap32_id) (simp add: buf_consts)
  define ns where "ns = (if n \<ge> BUF_SIZE then buf_size b + BUF_SIZE + n else buf_size b + BUF_SIZE)"
  have ns: "buf_size b + n \<le> ns" "buf_size b \<le> ns" by (auto simp: ns_def)
  have run: "try_grow_buf_remaining alloc b n =
    (if mmaped b \<or> shadow b then Some (GROW_EINVAL, b)
     else if ns > MAX_BUF_SIZE then Some (GROW_TOO_LARGE, b)
     else if \<not> alloc ns then Some (GROW_ENOMEM, b)
     else Some (GROW_SUCCESS, b\<lparr>head := take ns (head b) @ replicate (ns - length (head b)) 0, buf_size := wrap32 ns\<rparr>))"
    using True b(1) by (simp add: try_grow_buf_remaining_def try_grow_buf_def w Let_def flip: ns_def)
  let ?b = "b\<lparr>head := take ns (head b) @ replicate (ns - length (head b)) 0, buf_size := ns\<rparr>"
  have grown: "appended b [] ?b \<and> n \<le> length (buf_rest ?b) \<and> wrap32 ns = ns" if "ns \<le> MAX_BUF_SIZE"
    using that b ns by (auto simp: appended_def buf_ok_def buf_data_def buf_rest_def buf_consts)
  show ?thesis
  proof (cases "mmaped b \<or> shadow b \<or> ns > MAX_BUF_SIZE \<or> \<not> alloc ns")
    case True
    then show ?thesis unfolding run using appended_refl [OF assms(1)] by auto
  next
    case False
    with grown show ?thesis unfolding run by auto
  qed
qed

lemma try_grow_growable:
  assumes "buf_ok b" "growable alloc b n"
  shows "\<exists>b'. try_grow_buf_remaining alloc b n = Some (GROW_SUCCESS, b') \<and> appended b [] b' \<and> n \<le> length (buf_rest b')"
proof (cases "remaining_buf b < n")
  case False
  with assms show ?thesis
    by (auto simp: try_grow_buf_remaining_def buf_ok_def remaining_ok intro: appended_refl)
next
  case True
  have b: "buf_magic b = BUF_MAGIC" "length (head b) = buf_size b" "processed b \<le> buf_size b" "buf_size b \<le> MAX_BUF_SIZE"
    using assms(1) by (auto simp: buf_ok_def)
  have w: "wrap32 (buf_size b + BUF_SIZE) = buf_size b + BUF_SIZE"
    using b(4) by (intro wrap32_id) (simp add: buf_consts)
  have less: "buf_size b < processed b + n" using True b(2,3) unfolding remaining_ok [OF assms(1)] by (simp add: buf_rest_def)
  define ns where "ns = (if n \<ge> BUF_SIZE then buf_size b + BUF_SIZE + n else buf_size b + BUF_SIZE)"
  have ns: "buf_size b + n \<le> ns" "buf_size b \<le> ns" "ns \<le> MAX_BUF_SIZE"
    using less assms(2) by (auto simp: ns_def growable_def)
  let ?b = "b\<lparr>head := take ns (head b) @ replicate (ns - length (head b)) 0, buf_size := ns\<rparr>"
  have "try_grow_buf_remaining alloc b n = Some (GROW_SUCCESS, ?b)"
  proof -
    have "wrap32 ns = ns" using ns(3) by (intro wrap32_id) (simp add: buf_consts)
    then show ?thesis using True b(1) assms(2) ns(3)
      by (simp add: try_grow_buf_remaining_def try_grow_buf_def w growable_def Let_def flip: ns_def)
  qed
  moreover have "appended b [] ?b \<and> n \<le> length (buf_rest ?b)"
    using b ns by (auto simp: appended_def buf_ok_def buf_data_def buf_rest_def)
  ultimately show ?thesis by blast
qed

lemma pack_bytes_ok:
  assumes "buf_ok b" "growable alloc b (length bs)"
  shows "\<exists>b'. pack_bytes alloc bs b = Some b' \<and> appended b bs b'"
proof -
  obtain b1 where b1: "try_grow_buf_remaining alloc b (length bs) = Some (GROW_SUCCESS, b1)" "appended b [] b1"
    "length bs \<le> length (buf_rest b1)" using try_grow_growable [OF assms] by blast
  then obtain b2 where "buf_put b1 bs = Some b2" "appended b1 bs b2"
    using buf_put_ok [of b1 bs] by (auto simp: appended_def)
  with b1 appended_trans [of b "[]" b1 bs b2] show ?thesis by (auto simp: pack_bytes_def)
qed

text \<open>Without the growth assumption a write is still safe: it appends the bytes or leaves what was
  written unchanged.\<close>

definition wrote :: "buf \<Rightarrow> u8 list \<Rightarrow> buf \<Rightarrow> bool" where
  "wrote b bs b' \<longleftrightarrow> appended b bs b' \<or> appended b [] b'"

lemma pack_bytes_safe:
  assumes "buf_ok b" "length bs \<le> MAX_PACK_MEM_LEN + 4"
  shows "\<exists>b'. pack_bytes alloc bs b = Some b' \<and> wrote b bs b'"
proof -
  obtain rc b1 where b1: "try_grow_buf_remaining alloc b (length bs) = Some (rc, b1)" "appended b [] b1"
    "rc = GROW_SUCCESS \<longrightarrow> length bs \<le> length (buf_rest b1)" using try_grow_cases [OF assms] by blast
  show ?thesis
  proof (cases "rc = GROW_SUCCESS")
    case True
    then obtain b2 where "buf_put b1 bs = Some b2" "appended b1 bs b2"
      using buf_put_ok [of b1 bs] b1 by (auto simp: appended_def)
    with True b1 appended_trans [of b "[]" b1 bs b2] show ?thesis by (auto simp: pack_bytes_def wrote_def)
  next
    case False
    with b1 show ?thesis by (auto simp: pack_bytes_def wrote_def)
  qed
qed

lemma unpack_bytes_ok:
  assumes "buf_ok b"
  shows "unpack_bytes n b = Some (if n \<le> length (buf_rest b) then (Some (take n (buf_rest b)), advance b n) else (None, b))"
  using assms by (auto simp: unpack_bytes_def remaining_ok buf_get_ok)

subsubsection \<open>Byte order\<close>

lemma length_be [simp]: "length (be n x) = n"
  by (induction n arbitrary: x) auto

lemma un_be_snoc: "un_be (bs @ [b]) = un_be bs * 256 + unat b"
  by (simp add: un_be_def)

lemma un_be_be [simp]: "x < 256 ^ n \<Longrightarrow> un_be (be n x) = x"
proof (induction n arbitrary: x)
  case (Suc n)
  have "x div 256 < 256 ^ n" using Suc.prems by (simp add: less_mult_imp_div_less)
  moreover have "unat (of_nat (x mod 256) :: u8) = x mod 256" by (simp add: unat_of_nat)
  ultimately show ?case using Suc.IH [of "x div 256"] div_mult_mod_eq [of x 256] by (simp add: un_be_snoc)
qed (simp add: un_be_def)

lemma u8_less: "unat (b :: u8) < 256"
  using unsigned_less [of b] by simp

lemma un_be_less: "un_be bs < 256 ^ length bs"
proof (induction bs rule: rev_induct)
  case (snoc b bs)
  have "unat b < 256" by (rule u8_less)
  with snoc have "un_be bs * 256 + unat b < 256 ^ length bs * 256" by linarith
  then show ?case by (simp add: un_be_snoc mult.commute)
qed (simp add: un_be_def)

lemma be_un_be: "be (length bs) (un_be bs) = bs"
proof (induction bs rule: rev_induct)
  case (snoc b bs)
  have "unat b < 256" by (rule u8_less)
  then have "un_be (bs @ [b]) div 256 = un_be bs" "un_be (bs @ [b]) mod 256 = unat b"
    by (simp_all add: un_be_snoc)
  with snoc show ?case by simp
qed simp

subsection \<open>The wire interface\<close>

text \<open>What a pair of pack and unpack operations promises: packing appends the encoding of the value
  when there is room and never touches memory outside the buffer; unpacking at the encoding of a
  value returns it and moves past it, and on any other bytes stays inside the buffer.\<close>

locale wire_reader =
  fixes upk :: "buf \<Rightarrow> ('v option \<times> buf) option"
  assumes rd_safe: "\<And>b. buf_ok b \<Longrightarrow> \<exists>r n. upk b = Some (r, advance b n) \<and> n \<le> length (buf_rest b)"
begin

lemma each_read_safe:
  assumes "buf_ok b"
  shows "\<exists>r m. unpack_each upk n b acc = Some (r, advance b m) \<and> m \<le> length (buf_rest b)"
  using assms
proof (induction n arbitrary: b acc)
  case 0
  show ?case by (auto intro!: exI [of _ "0::nat"])
next
  case (Suc n)
  obtain r m where rm: "upk b = Some (r, advance b m)" "m \<le> length (buf_rest b)"
    using rd_safe [OF Suc.prems] by blast
  show ?case
  proof (cases r)
    case None
    with rm Suc.prems show ?thesis by (auto simp: buf_ok_def)
  next
    case (Some v)
    have "buf_ok (advance b m)" using Suc.prems rm(2) by simp
    from Suc.IH [OF this, of "acc @ [v]"] obtain r' m' where
      "unpack_each upk n (advance b m) (acc @ [v]) = Some (r', advance b (m + m'))" "m' \<le> length (buf_rest b) - m"
      by auto
    with Some rm Suc.prems show ?thesis by (auto simp: buf_ok_def intro!: exI [of _ "m + m'"])
  qed
qed

end

locale wire_format = wire_reader upk
  for alloc :: "nat \<Rightarrow> bool"
    and pk :: "'v \<Rightarrow> buf \<Rightarrow> buf option"
    and upk :: "buf \<Rightarrow> ('v option \<times> buf) option"
    and enc :: "'v \<Rightarrow> u8 list"
    and good :: "'v \<Rightarrow> bool" +
  assumes wr: "\<And>b v. buf_ok b \<Longrightarrow> good v \<Longrightarrow> growable alloc b (length (enc v)) \<Longrightarrow>
      \<exists>b'. pk v b = Some b' \<and> appended b (enc v) b'"
    and wr_safe: "\<And>b v. buf_ok b \<Longrightarrow> good v \<Longrightarrow> \<exists>b' bs. pk v b = Some b' \<and> appended b bs b'"
    and rd: "\<And>b v r. buf_ok b \<Longrightarrow> good v \<Longrightarrow> \<forall>k. alloc k \<Longrightarrow> buf_rest b = enc v @ r \<Longrightarrow>
      upk b = Some (Some v, advance b (length (enc v)))"
begin

lemma each_write:
  assumes "buf_ok b" "\<forall>v \<in> set vs. good v" "growable alloc b (length (concat (map enc vs)))"
  shows "\<exists>b'. pack_each pk vs b = Some b' \<and> appended b (concat (map enc vs)) b'"
  using assms
proof (induction vs arbitrary: b)
  case (Cons v vs)
  have "growable alloc b (length (enc v))" using Cons.prems(3) by (auto simp: growable_def)
  then obtain b1 where b1: "pk v b = Some b1" "appended b (enc v) b1"
    using wr [of b v] Cons.prems by auto
  have "buf_ok b1" using b1 by (simp add: appended_def)
  moreover have "growable alloc b1 (length (concat (map enc vs)))"
    by (rule growable_appended [OF _ b1(2)]) (use Cons.prems(3) in simp)
  ultimately obtain b2 where "pack_each pk vs b1 = Some b2" "appended b1 (concat (map enc vs)) b2"
    using Cons.IH [of b1] Cons.prems(2) by auto
  with b1(1) appended_trans [OF b1(2) this(2)] show ?case by simp
qed (auto intro: appended_refl)

lemma each_write_safe:
  "buf_ok b \<Longrightarrow> \<forall>v \<in> set vs. good v \<Longrightarrow> \<exists>b' bs. pack_each pk vs b = Some b' \<and> appended b bs b'"
proof (induction vs arbitrary: b)
  case (Cons v vs)
  obtain b1 bs1 where b1: "pk v b = Some b1" "appended b bs1 b1" using wr_safe [of b v] Cons.prems by auto
  then obtain b2 bs2 where "pack_each pk vs b1 = Some b2" "appended b1 bs2 b2"
    using Cons.IH [of b1] Cons.prems(2) by (auto simp: appended_def)
  with b1(1) appended_trans [OF b1(2) this(2)] show ?case by auto
qed (auto intro: appended_refl)

lemma each_read:
  assumes "buf_ok b" "\<forall>v \<in> set vs. good v" "\<forall>k. alloc k" "buf_rest b = concat (map enc vs) @ r"
  shows "unpack_each upk (length vs) b acc = Some (Some (acc @ vs), advance b (length (concat (map enc vs))))"
  using assms
proof (induction vs arbitrary: b acc)
  case (Cons v vs)
  let ?b = "advance b (length (enc v))"
  have u: "upk b = Some (Some v, ?b)" using rd [of b v] Cons.prems by auto
  have "buf_ok ?b" using Cons.prems(1,4) by simp
  then have "unpack_each upk (length vs) ?b (acc @ [v]) =
      Some (Some ((acc @ [v]) @ vs), advance ?b (length (concat (map enc vs))))"
    using Cons.prems by (intro Cons.IH) auto
  with u Cons.prems(1) show ?case by (simp add: buf_ok_def)
qed simp

end

subsection \<open>The scalar formats\<close>

lemma un_be_words [simp]:
  "of_nat (un_be (be 8 (unat (v :: u64)))) = v"
  "of_nat (un_be (be 4 (unat (w :: u32)))) = w"
  "of_nat (un_be (be 2 (unat (x :: u16)))) = x"
proof -
  have "unat v < 256 ^ 8" using unsigned_less [of v] by simp
  then show "of_nat (un_be (be 8 (unat v))) = v" by (simp del: power_numeral)
  have "unat w < 256 ^ 4" using unsigned_less [of w] by simp
  then show "of_nat (un_be (be 4 (unat w))) = w" by (simp del: power_numeral)
  have "unat x < 256 ^ 2" using unsigned_less [of x] by simp
  then show "of_nat (un_be (be 2 (unat x))) = x" by (simp del: power_numeral)
qed

lemma unpack_bytes_map:
  "(case y of (r, b') \<Rightarrow> Some (map_option f r, b')) \<bind> (\<lambda>(r, b'). Some (map_option g r, b')) =
   (case y of (r, b') \<Rightarrow> Some (map_option (\<lambda>x. g (f x)) r, b'))"
  by (cases y) (simp add: option.map_comp comp_def)

text \<open>Fixed-width formats: \<open>n\<close> bytes, \<open>dec (enc v) = v\<close>.\<close>

lemma fixed_wire:
  assumes "\<And>v b. pk v b = pack_bytes alloc (enc v) b" "\<And>v. length (enc v) = n" "n \<le> 8"
    and "\<And>b. upk b = do { (r, b') \<leftarrow> unpack_bytes n b; Some (map_option dc r, b') }"
    and "\<And>v. good v \<Longrightarrow> dc (enc v) = v"
  shows "wire_format alloc pk upk enc good"
proof
  fix b v assume b: "buf_ok b"
  show "growable alloc b (length (enc v)) \<Longrightarrow> \<exists>b'. pk v b = Some b' \<and> appended b (enc v) b'"
    using pack_bytes_ok [OF b] by (simp add: assms(1))
  show "\<exists>b' bs. pk v b = Some b' \<and> appended b bs b'"
    using pack_bytes_safe [OF b, of "enc v" alloc] assms(2,3) by (auto simp: assms(1) wrote_def buf_consts)
next
  fix b v r assume "buf_ok b" "good v" "\<forall>k. alloc k" "buf_rest b = enc v @ r"
  then show "upk b = Some (Some v, advance b (length (enc v)))"
    using assms(2) [of v] by (simp add: assms(4,5) unpack_bytes_ok)
next
  fix b assume "buf_ok b"
  then show "\<exists>r m. upk b = Some (r, advance b m) \<and> m \<le> length (buf_rest b)"
    by (auto simp: assms(4) unpack_bytes_ok intro: exI [of _ "0::nat"])
qed

interpretation w64: wire_format alloc "pack64 alloc" unpack64 "\<lambda>v. be 8 (unat v)" "\<lambda>_. True" for alloc
  by (rule fixed_wire [where n = 8 and dc = "\<lambda>bs. of_nat (un_be bs)"])
    (auto simp: pack64_def unpack64_def)

interpretation w32: wire_format alloc "pack32 alloc" unpack32 "\<lambda>v. be 4 (unat v)" "\<lambda>_. True" for alloc
  by (rule fixed_wire [where n = 4 and dc = "\<lambda>bs. of_nat (un_be bs)"])
    (auto simp: pack32_def unpack32_def)

interpretation w16: wire_format alloc "pack16 alloc" unpack16 "\<lambda>v. be 2 (unat v)" "\<lambda>_. True" for alloc
  by (rule fixed_wire [where n = 2 and dc = "\<lambda>bs. of_nat (un_be bs)"])
    (auto simp: pack16_def unpack16_def)

interpretation w8: wire_format alloc "pack8 alloc" unpack8 "\<lambda>v. [v]" "\<lambda>_. True" for alloc
  by (rule fixed_wire [where n = 1 and dc = hd]) (auto simp: pack8_def unpack8_def)

interpretation wbool: wire_format alloc "packbool alloc" unpackbool "\<lambda>v. [if v then 1 else 0]" "\<lambda>_. True" for alloc
  by (rule fixed_wire [where n = 1 and dc = "\<lambda>bs. hd bs \<noteq> 0"])
    (auto simp: packbool_def unpackbool_def pack8_def unpack8_def unpack_bytes_map)

interpretation wtime: wire_format alloc "pack_time alloc" unpack_time "\<lambda>v. be 8 (nat (v mod 2 ^ 64))"
  "\<lambda>v. - (2 ^ 63) \<le> v \<and> v < 2 ^ 63" for alloc
proof (rule fixed_wire [where n = 8 and dc = "\<lambda>bs. signed_take_bit 63 (int (un_be bs))"])
  fix v :: int assume v: "- (2 ^ 63) \<le> v \<and> v < 2 ^ 63"
  have "nat (v mod 2 ^ 64) < 256 ^ 8" by (simp add: nat_less_iff)
  then have "int (un_be (be 8 (nat (v mod 2 ^ 64)))) = v mod 2 ^ 64" by simp
  moreover have "signed_take_bit 63 (v mod 2 ^ 64) = v"
    using v signed_take_bit_take_bit [of 63 64 v] by (simp add: take_bit_eq_mod signed_take_bit_int_eq_self)
  ultimately show "signed_take_bit 63 (int (un_be (be 8 (nat (v mod 2 ^ 64))))) = v" by simp
qed (auto simp: pack_time_def unpack_time_def)

text \<open>Doubles and floats, for values on which dividing undoes multiplying.\<close>

interpretation wdouble: wire_format alloc "packdouble scale alloc" "unpackdouble unscale"
  "\<lambda>v. be 8 (unat (scale v))" "\<lambda>v. unscale (scale v) = v" for scale unscale alloc
  by (rule fixed_wire [where n = 8 and dc = "\<lambda>bs. unscale (of_nat (un_be bs))"])
    (auto simp: packdouble_def unpackdouble_def)

interpretation wfloat: wire_format alloc "packfloat scale alloc" "unpackfloat unscale"
  "\<lambda>v. be 4 (unat (scale v))" "\<lambda>v. unscale (scale v) = v" for scale unscale alloc
  by (rule fixed_wire [where n = 4 and dc = "\<lambda>bs. unscale (of_nat (un_be bs))"])
    (auto simp: packfloat_def pack32_def unpackfloat_def unpack32_def unpack_bytes_map)

subsection \<open>Arrays of a format are a format\<close>

locale wire_array = wire_format alloc pk upk enc good
  for alloc :: "nat \<Rightarrow> bool" and pk :: "'v \<Rightarrow> buf \<Rightarrow> buf option" and upk enc good +
  fixes elem_size :: nat

lemma unpack32_ok:
  "buf_ok b \<Longrightarrow> unpack32 b = Some (if 4 \<le> length (buf_rest b)
     then (Some (of_nat (un_be (take 4 (buf_rest b)))), advance b 4) else (None, b))"
  by (simp add: unpack32_def unpack_bytes_ok)

lemma unat_of_nat_u32 [simp]: "n < 2 ^ 32 \<Longrightarrow> unat (of_nat n :: u32) = n"
  by (simp add: unat_of_nat)

sublocale wire_array \<subseteq> arr: wire_format alloc "pack_array alloc pk" "unpack_array alloc elem_size upk"
  "\<lambda>vs. be 4 (length vs) @ concat (map enc vs)" "\<lambda>vs. length vs < 2 ^ 32 \<and> (\<forall>v \<in> set vs. good v)"
proof
  fix b vs assume b: "buf_ok b" and g: "length vs < 2 ^ 32 \<and> (\<forall>v \<in> set vs. good v)"
  let ?n = "of_nat (length vs) :: u32"
  have n: "be 4 (unat ?n) = be 4 (length vs)" using g by simp
  show "\<exists>b'. pack_array alloc pk vs b = Some b' \<and> appended b (be 4 (length vs) @ concat (map enc vs)) b'"
    if gr: "growable alloc b (length (be 4 (length vs) @ concat (map enc vs)))"
  proof -
    have "growable alloc b (length (be 4 (unat ?n)))" using gr by (auto simp: growable_def)
    then obtain b1 where b1: "pack32 alloc ?n b = Some b1" "appended b (be 4 (length vs)) b1"
      using w32.wr [OF b TrueI, where v = ?n and alloc = alloc] n by auto
    moreover have "growable alloc b1 (length (concat (map enc vs)))"
      by (rule growable_appended [OF _ b1(2)]) (use gr in simp)
    ultimately obtain b2 where "pack_each pk vs b1 = Some b2" "appended b1 (concat (map enc vs)) b2"
      using each_write [of b1 vs] g by (auto simp: appended_def)
    with b1(1) appended_trans [OF b1(2) this(2)] show ?thesis by (simp add: pack_array_def)
  qed
  show "\<exists>b' bs. pack_array alloc pk vs b = Some b' \<and> appended b bs b'"
  proof -
    obtain b1 bs where b1: "pack32 alloc ?n b = Some b1" "appended b bs b1" using w32.wr_safe [OF b] by blast
    moreover obtain b2 bs' where "pack_each pk vs b1 = Some b2" "appended b1 bs' b2"
      using each_write_safe [of b1 vs] b1 g by (auto simp: appended_def)
    ultimately show ?thesis using appended_trans [of b bs b1] by (auto simp: pack_array_def)
  qed
next
  fix b vs r
  assume b: "buf_ok b" and g: "length vs < 2 ^ 32 \<and> (\<forall>v \<in> set vs. good v)" and al: "\<forall>k. alloc k"
    and r: "buf_rest b = (be 4 (length vs) @ concat (map enc vs)) @ r"
  have n: "un_be (be 4 (length vs)) = length vs" using g by (intro un_be_be) simp
  have "buf_ok (advance b 4)" using b r by simp
  from each_read [OF this, of vs r "[]"] g al r
  show "unpack_array alloc elem_size upk b = Some (Some vs, advance b (length (be 4 (length vs) @ concat (map enc vs))))"
    using b n by (simp add: unpack_array_def unpack32_ok buf_ok_def)
next
  fix b assume b: "buf_ok b"
  show "\<exists>r n. unpack_array alloc elem_size upk b = Some (r, advance b n) \<and> n \<le> length (buf_rest b)"
  proof (cases "4 \<le> length (buf_rest b)")
    case True
    let ?n = "of_nat (un_be (take 4 (buf_rest b))) :: u32"
    obtain r m where rm: "unpack_each upk (unat ?n) (advance b 4) [] = Some (r, advance b (4 + m))" "m \<le> length (buf_rest b) - 4"
      using each_read_safe [of "advance b 4" "unat ?n" "[]"] b True by auto
    have run: "unpack_array alloc elem_size upk b =
        (if ?n \<noteq> 0 \<and> \<not> alloc (unat ?n * elem_size) then Some (None, advance b 4)
         else unpack_each upk (unat ?n) (advance b 4) [])"
      using b True by (simp add: unpack_array_def unpack32_ok buf_ok_def)
    show ?thesis
    proof (cases "?n \<noteq> 0 \<and> \<not> alloc (unat ?n * elem_size)")
      case True
      then show ?thesis unfolding run using \<open>4 \<le> length (buf_rest b)\<close> by auto
    next
      case False
      have "4 + m \<le> length (buf_rest b)" using rm(2) True by linarith
      with False rm(1) show ?thesis unfolding run by auto
    qed
  next
    case False
    then show ?thesis using b by (auto simp: unpack_array_def unpack32_ok buf_ok_def intro!: exI [of _ "0::nat"])
  qed
qed

interpretation a16: wire_array alloc "pack16 alloc" unpack16 "\<lambda>v. be 2 (unat v)" "\<lambda>_. True" 2 for alloc
  by unfold_locales

interpretation a32: wire_array alloc "pack32 alloc" unpack32 "\<lambda>v. be 4 (unat v)" "\<lambda>_. True" 4 for alloc
  by unfold_locales

interpretation a64: wire_array alloc "pack64 alloc" unpack64 "\<lambda>v. be 8 (unat v)" "\<lambda>_. True" 8 for alloc
  by unfold_locales

interpretation adouble: wire_array alloc "packdouble scale alloc" "unpackdouble unscale"
  "\<lambda>v. be 8 (unat (scale v))" "\<lambda>v. unscale (scale v) = v" 8 for scale unscale alloc
  by unfold_locales

subsection \<open>Blocks and strings are formats\<close>

lemma unpack_len_ok:
  assumes "buf_ok b"
  shows "\<exists>r n. unpack_len b = Some (r, advance b n) \<and> n \<le> length (buf_rest b)
    \<and> (\<forall>m. r = Inr m \<longrightarrow> 0 < m \<and> m \<le> MAX_PACK_MEM_LEN \<and> n + m \<le> length (buf_rest b))"
proof (cases "4 \<le> length (buf_rest b)")
  case True
  let ?n = "of_nat (un_be (take 4 (buf_rest b))) :: u32"
  have "buf_ok (advance b 4)" using assms True by simp
  then have "unpack_len b = Some (if ?n = 0 then Inl True else if unat ?n > MAX_PACK_MEM_LEN then Inl False
      else if length (buf_rest b) - 4 < unat ?n then Inl False else Inr (unat ?n), advance b 4)"
    using assms True by (simp add: unpack_len_def unpack32_ok buf_ok_def [of b] remaining_ok)
  then show ?thesis using True by (auto simp: unat_gt_0)
next
  case False
  then show ?thesis using assms by (auto simp: unpack_len_def unpack32_ok buf_ok_def intro!: exI [of _ "0::nat"])
qed

definition mem_enc :: "u8 list \<Rightarrow> u8 list" where
  "mem_enc d = be 4 (length d) @ d"

lemma unpack_len_enc:
  assumes "buf_ok b" "buf_rest b = mem_enc d @ r" "length d \<le> MAX_PACK_MEM_LEN"
  shows "unpack_len b = Some (if d = [] then Inl True else Inr (length d), advance b 4)"
proof -
  have len: "length d < 2 ^ 32" using assms(3) by (simp add: buf_consts)
  then have "un_be (be 4 (length d)) = length d" by (intro un_be_be) simp
  then have n: "of_nat (un_be (take 4 (buf_rest b))) = (of_nat (length d) :: u32)"
    using assms(2) by (simp add: mem_enc_def)
  have z: "of_nat (length d) = (0 :: u32) \<longleftrightarrow> d = []"
    using unat_of_nat_u32 [OF len] unsigned_eq_0_iff [of "of_nat (length d) :: u32"] by (metis length_0_conv)
  have "buf_ok (advance b 4)" using assms by (simp add: mem_enc_def)
  then show ?thesis using assms len n z
    by (simp add: unpack_len_def unpack32_ok buf_ok_def [of b] remaining_ok mem_enc_def)
qed

lemma packmem_ok:
  assumes "buf_ok b" "length d \<le> MAX_PACK_MEM_LEN" "growable alloc b (length (mem_enc d))"
  shows "\<exists>b'. packmem alloc d b = Some b' \<and> appended b (mem_enc d) b'"
proof -
  have "growable alloc b (4 + length d)" using assms(3) by (simp add: mem_enc_def)
  then obtain b1 where b1: "try_grow_buf_remaining alloc b (4 + length d) = Some (GROW_SUCCESS, b1)" "appended b [] b1"
    "4 + length d \<le> length (buf_rest b1)" using try_grow_growable [OF assms(1)] by blast
  then obtain b2 where b2: "buf_put b1 (be 4 (length d)) = Some b2" "appended b1 (be 4 (length d)) b2"
    "length d \<le> length (buf_rest b2)"
    using buf_put_ok [of b1 "be 4 (length d)"] by (auto simp: appended_def)
  then obtain b3 where b3: "buf_put b2 d = Some b3" "appended b2 d b3"
    using buf_put_ok [of b2 d] by (auto simp: appended_def)
  have "appended b (mem_enc d) b3"
    unfolding mem_enc_def using appended_trans [OF appended_trans [OF b1(2) b2(2)] b3(2)] by simp
  moreover have "d = [] \<Longrightarrow> appended b (mem_enc d) b2"
    unfolding mem_enc_def using appended_trans [OF b1(2) b2(2)] by simp
  ultimately show ?thesis using assms(2) b1(1) b2(1) b3(1) by (cases "d = []") (auto simp: packmem_def)
qed

lemma packmem_safe:
  assumes "buf_ok b"
  shows "\<exists>b'. packmem alloc d b = Some b' \<and> wrote b (mem_enc d) b'"
proof (cases "length d > MAX_PACK_MEM_LEN")
  case True
  then show ?thesis using appended_refl [OF assms] by (auto simp: packmem_def wrote_def)
next
  case False
  obtain rc b1 where b1: "try_grow_buf_remaining alloc b (4 + length d) = Some (rc, b1)" "appended b [] b1"
    "rc = GROW_SUCCESS \<longrightarrow> 4 + length d \<le> length (buf_rest b1)"
    using try_grow_cases [OF assms, of "4 + length d" alloc] False by auto
  show ?thesis
  proof (cases "rc = GROW_SUCCESS")
    case True
    then obtain b2 where b2: "buf_put b1 (be 4 (length d)) = Some b2" "appended b1 (be 4 (length d)) b2"
      "length d \<le> length (buf_rest b2)"
      using buf_put_ok [of b1 "be 4 (length d)"] b1 by (auto simp: appended_def)
    then obtain b3 where b3: "buf_put b2 d = Some b3" "appended b2 d b3"
      using buf_put_ok [of b2 d] by (auto simp: appended_def)
    have "appended b (mem_enc d) b3"
      unfolding mem_enc_def using appended_trans [OF appended_trans [OF b1(2) b2(2)] b3(2)] by simp
    moreover have "d = [] \<Longrightarrow> appended b (mem_enc d) b2"
      unfolding mem_enc_def using appended_trans [OF b1(2) b2(2)] by simp
    ultimately show ?thesis using False True b1(1) b2(1) b3(1)
      by (cases "d = []") (auto simp: packmem_def wrote_def)
  next
    case fail: False
    with False b1 show ?thesis by (auto simp: packmem_def wrote_def)
  qed
qed

text \<open>A block value: \<open>None\<close> is the null pointer, which is what an empty block is read back as.\<close>

definition mem_of :: "u8 list option \<Rightarrow> u8 list" where
  "mem_of v = (case v of None \<Rightarrow> [] | Some d \<Rightarrow> d)"

definition mem_good :: "u8 list option \<Rightarrow> bool" where
  "mem_good v \<longleftrightarrow> v \<noteq> Some [] \<and> length (mem_of v) \<le> MAX_PACK_MEM_LEN"

lemma block_wire:
  assumes "\<And>v b. good v \<Longrightarrow> pk v b = (if buf_magic b = BUF_MAGIC then packmem alloc (mem_of (blk v)) b else None)"
    and good: "\<And>v. good v \<Longrightarrow> mem_good (blk v)"
    and rd: "\<And>v b b1. good v \<Longrightarrow> blk v = None \<Longrightarrow> buf_ok b \<Longrightarrow> unpack_len b = Some (Inl True, b1) \<Longrightarrow> upk b = Some (Some v, b1)"
    and rd': "\<And>v b b1 d. good v \<Longrightarrow> \<forall>k. alloc k \<Longrightarrow> buf_ok b \<Longrightarrow> blk v = Some d \<Longrightarrow> unpack_len b = Some (Inr (length d), b1)
      \<Longrightarrow> buf_ok b1 \<Longrightarrow> take (length d) (buf_rest b1) = d \<Longrightarrow> upk b = Some (Some v, advance b1 (length d))"
    and safe: "\<And>b. buf_ok b \<Longrightarrow> \<exists>r n. upk b = Some (r, advance b n) \<and> n \<le> length (buf_rest b)"
  shows "wire_format alloc pk upk (\<lambda>v. mem_enc (mem_of (blk v))) good"
proof
  fix b v assume b: "buf_ok b" and g: "good v"
  have len: "length (mem_of (blk v)) \<le> MAX_PACK_MEM_LEN" using good [OF g] by (simp add: mem_good_def)
  have run: "pk v b = packmem alloc (mem_of (blk v)) b" using assms(1) [OF g] b by (simp add: buf_ok_def)
  show "growable alloc b (length (mem_enc (mem_of (blk v)))) \<Longrightarrow>
      \<exists>b'. pk v b = Some b' \<and> appended b (mem_enc (mem_of (blk v))) b'"
    unfolding run by (rule packmem_ok [OF b len])
  show "\<exists>b' bs. pk v b = Some b' \<and> appended b bs b'"
    unfolding run using packmem_safe [OF b, of alloc "mem_of (blk v)"] by (auto simp: wrote_def)
next
  fix b v r assume b: "buf_ok b" and g: "good v" and al: "\<forall>k. alloc k"
    and r: "buf_rest b = mem_enc (mem_of (blk v)) @ r"
  have mg: "mem_good (blk v)" by (rule good [OF g])
  have ul: "unpack_len b = Some (if mem_of (blk v) = [] then Inl True else Inr (length (mem_of (blk v))), advance b 4)"
    using unpack_len_enc [OF b r] mg by (simp add: mem_good_def)
  show "upk b = Some (Some v, advance b (length (mem_enc (mem_of (blk v)))))"
  proof (cases "blk v")
    case None
    then show ?thesis using rd [OF g None b] ul by (simp add: mem_of_def mem_enc_def)
  next
    case (Some d)
    then have "d \<noteq> []" using mg by (simp add: mem_good_def)
    moreover have "buf_ok (advance b 4)" using b r by (simp add: mem_enc_def)
    moreover have "take (length d) (buf_rest (advance b 4)) = d" using r Some by (simp add: mem_enc_def mem_of_def)
    ultimately show ?thesis using rd' [OF g al b Some] ul Some by (simp add: mem_of_def mem_enc_def)
  qed
qed (rule safe)

text \<open>The three readers that copy a block, past the length.\<close>

lemma unpackmem_safe:
  assumes "buf_ok b"
  shows "\<exists>r n. unpackmem_xmalloc alloc b = Some (r, advance b n) \<and> n \<le> length (buf_rest b)"
    and "\<exists>r n. unpackmem_ptr b = Some (r, advance b n) \<and> n \<le> length (buf_rest b)"
    and "\<exists>r n. unpackstr_xmalloc alloc b = Some (r, advance b n) \<and> n \<le> length (buf_rest b)"
    and "\<exists>r n. unpackstr_xmalloc_escaped alloc b = Some (r, advance b n) \<and> n \<le> length (buf_rest b)"
proof -
  obtain r n where rn: "unpack_len b = Some (r, advance b n)" "n \<le> length (buf_rest b)"
    "\<And>m. r = Inr m \<Longrightarrow> 0 < m \<and> m \<le> MAX_PACK_MEM_LEN \<and> n + m \<le> length (buf_rest b)"
    using unpack_len_ok [OF assms] by blast
  have ok1: "buf_ok (advance b n)" using assms rn(2) by simp
  have get: "buf_get (advance b n) m = Some (take m (drop n (buf_rest b)), advance b (n + m))" if "r = Inr m" for m
  proof -
    have "m \<le> length (buf_rest b) - n" using rn(3) [OF that] by linarith
    then show ?thesis using buf_get_ok [OF ok1, of m] by simp
  qed
  show "\<exists>r n. unpackmem_xmalloc alloc b = Some (r, advance b n) \<and> n \<le> length (buf_rest b)"
    using rn get by (cases r) (auto simp: unpackmem_xmalloc_def)
  show "\<exists>r n. unpackmem_ptr b = Some (r, advance b n) \<and> n \<le> length (buf_rest b)"
    using rn get by (cases r) (auto simp: unpackmem_ptr_def)
  have z: "\<exists>z. mem_get (head b) (processed (advance b n) + m - 1) = Some z" if "r = Inr m" for m
    using rn(3) [OF that] assms by (auto simp: mem_get_def advance_def buf_rest_def buf_ok_def)
  show "\<exists>r n. unpackstr_xmalloc alloc b = Some (r, advance b n) \<and> n \<le> length (buf_rest b)"
  proof (cases r)
    case (Inr m)
    obtain x where "mem_get (head b) (processed (advance b n) + m - 1) = Some x" using z [OF Inr] by blast
    then show ?thesis using rn get [OF Inr] Inr by (auto simp: unpackstr_xmalloc_def)
  qed (use rn in \<open>auto simp: unpackstr_xmalloc_def\<close>)
  have esc: "\<exists>c. escape_loop cap cs copy = Some c" if "length copy + 2 * length cs \<le> cap" for cap cs copy
    using that by (induction cs arbitrary: copy) (auto simp: Let_def)
  show "\<exists>r n. unpackstr_xmalloc_escaped alloc b = Some (r, advance b n) \<and> n \<le> length (buf_rest b)"
  proof (cases r)
    case (Inr m)
    have "length (take m xs) \<le> m" for xs :: "u8 list" by simp
    then have "length ([] :: u8 list) + 2 * length (take m (drop n (buf_rest b))) \<le> m * 2 + 1"
      by (metis add_0 list.size(3) mult.commute mult_le_mono2 trans_le_add1)
    then obtain c where "escape_loop (m * 2 + 1) (take m (drop n (buf_rest b))) [] = Some c"
      using esc by blast
    then show ?thesis using rn get [OF Inr] Inr by (auto simp: unpackstr_xmalloc_escaped_def)
  qed (use rn in \<open>auto simp: unpackstr_xmalloc_escaped_def\<close>)
qed

interpretation wmem: wire_format alloc "\<lambda>v b. if buf_magic b = BUF_MAGIC then packmem alloc (mem_of v) b else None"
  "unpackmem_xmalloc alloc" "\<lambda>v. mem_enc (mem_of v)" mem_good for alloc
proof (rule block_wire [where blk = "\<lambda>v. v"])
  fix v b b1 d assume "\<forall>k. alloc k" "unpack_len b = Some (Inr (length d), b1)" "buf_ok b1"
    "take (length d) (buf_rest b1) = d" "v = Some d"
  moreover from this have "length d \<le> length (buf_rest b1)" by (metis length_take min.cobounded2 min.commute)
  ultimately show "unpackmem_xmalloc alloc b = Some (Some v, advance b1 (length d))"
    by (simp add: unpackmem_xmalloc_def buf_get_ok)
next
  fix b assume "buf_ok b"
  then show "\<exists>r n. unpackmem_xmalloc alloc b = Some (r, advance b n) \<and> n \<le> length (buf_rest b)"
    by (rule unpackmem_safe(1))
qed (auto simp: unpackmem_xmalloc_def)

lemma unat_of_char: "unat (of_char c :: u8) = of_char c"
proof -
  have "unat (of_nat (of_char c :: nat) :: u8) = of_char c" by (subst unat_of_nat) simp
  then show ?thesis by (simp only: of_nat_of_char)
qed

lemma c_str_bytes:
  assumes "CHR 0x00 \<notin> set s"
  shows "c_str (str_bytes s) = s"
proof -
  have nz: "of_char c \<noteq> (0 :: u8)" if "c \<noteq> CHR 0x00" for c
  proof
    assume "of_char c = (0 :: u8)"
    then have "unat (of_char c :: u8) = 0" by simp
    then have "of_char c = (of_char (CHR 0x00) :: nat)" unfolding unat_of_char by simp
    then have "c = CHR 0x00" by (rule injD [OF inj_of_char])
    with that show False by simp
  qed
  have bk: "char_of (unat (of_char c :: u8)) = c" for c
    unfolding unat_of_char by simp
  show ?thesis unfolding c_str_def str_bytes_def using assms
  proof (induction s)
    case (Cons c s)
    then have "c \<noteq> CHR 0x00" by auto
    then show ?case using Cons nz [of c] bk [of c] by simp
  qed simp
qed

definition str_good :: "string option \<Rightarrow> bool" where
  "str_good v \<longleftrightarrow> (case v of None \<Rightarrow> True | Some s \<Rightarrow> CHR 0x00 \<notin> set s \<and> length s < MAX_PACK_MEM_LEN)"

lemma unpackstr_block:
  assumes "\<forall>k. alloc k" "unpack_len b = Some (Inr (length d), b1)" "buf_ok b1" "take (length d) (buf_rest b1) = d"
    "d = str_bytes s"
  shows "unpackstr_xmalloc alloc b = Some (Some (Some d), advance b1 (length d))"
proof -
  have len: "length d \<le> length (buf_rest b1)" using assms(4) by (metis length_take min.cobounded2 min.commute)
  have pos: "0 < length d" using assms(5) by (simp add: str_bytes_def)
  have "head b1 ! (processed b1 + length d - 1) = buf_rest b1 ! (length d - 1)"
  proof -
    have "processed b1 + length d - 1 = processed b1 + (length d - 1)" using pos by linarith
    then show ?thesis using assms(3) by (simp add: buf_rest_def nth_drop buf_ok_def)
  qed
  also have "\<dots> = d ! (length d - 1)" using pos assms(4) by (metis diff_less nth_take zero_less_one)
  also have "\<dots> = 0" using assms(5) by (simp add: str_bytes_def nth_append)
  finally have "head b1 ! (processed b1 + length d - 1) = 0" .
  have "mem_get (head b1) (processed b1 + length d - 1) = Some 0"
  proof -
    have "processed b1 + length d - 1 < length (head b1)"
      using len pos unfolding buf_rest_def length_drop by linarith
    with \<open>head b1 ! (processed b1 + length d - 1) = 0\<close> show ?thesis by (simp add: mem_get_def)
  qed
  then show ?thesis using assms(1,2) buf_get_ok [OF assms(3) len] assms(4) by (simp add: unpackstr_xmalloc_def)
qed

lemma safe_unpackstr_safe:
  assumes "buf_ok b"
  shows "\<exists>r n. safe_unpackstr dbd alloc b = Some (r, advance b n) \<and> n \<le> length (buf_rest b)"
  using unpackmem_safe(3,4) [OF assms, of alloc] assms
  by (cases dbd) (auto simp: safe_unpackstr_def unpackstr_xmalloc_chooser_def buf_ok_def)

interpretation rstr: wire_reader "safe_unpackstr dbd alloc" for dbd alloc
  by unfold_locales (rule safe_unpackstr_safe)

interpretation wstr: wire_format alloc "packstr alloc" "safe_unpackstr False alloc"
  "\<lambda>v. mem_enc (mem_of (map_option str_bytes v))" str_good for alloc
proof (rule block_wire [where blk = "map_option str_bytes"])
  fix v :: "string option" and b
  show "packstr alloc v b = (if buf_magic b = BUF_MAGIC then packmem alloc (mem_of (map_option str_bytes v)) b else None)"
    by (auto simp: packstr_def mem_of_def split: option.splits)
  show "str_good v \<Longrightarrow> mem_good (map_option str_bytes v)"
    by (auto simp: str_good_def mem_good_def mem_of_def str_bytes_def split: option.splits)
next
  fix v b b1 assume "map_option str_bytes v = None" "buf_ok b" "unpack_len b = Some (Inl True, b1)"
  then show "safe_unpackstr False alloc b = Some (Some v, b1)"
    by (simp add: safe_unpackstr_def unpackstr_xmalloc_chooser_def unpackstr_xmalloc_def buf_ok_def)
next
  fix v b b1 d assume h: "str_good v" "\<forall>k. alloc k" "buf_ok b" "map_option str_bytes v = Some d"
    "unpack_len b = Some (Inr (length d), b1)" "buf_ok b1" "take (length d) (buf_rest b1) = d"
  then obtain s where s: "v = Some s" "d = str_bytes s" by auto
  from unpackstr_block [OF h(2,5,6,7) s(2)] h(1,3) s show "safe_unpackstr False alloc b = Some (Some v, advance b1 (length d))"
    by (simp add: safe_unpackstr_def unpackstr_xmalloc_chooser_def buf_ok_def [of b] c_str_bytes str_good_def)
qed (rule safe_unpackstr_safe)

subsection \<open>Bit strings survive the wire\<close>

definition bits_enc :: "bitstr option \<Rightarrow> u8 list" where
  "bits_enc v = (case v of None \<Rightarrow> be 4 NO_VAL
     | Some bm \<Rightarrow> be 4 (bs_bits bm) @
         mem_enc (str_bytes (''0x'' @ rev (hex_digits bm (bs_bits bm) 0 ((bs_bits bm + 3) div 4)))))"

lemma hex_char_nonzero: "v < 16 \<Longrightarrow> hex_char v \<noteq> CHR 0x00"
  by (auto simp: hex_char_def dest!: arg_cong [where f = "of_char :: char \<Rightarrow> nat"])

lemma hex_text_good:
  assumes "bs_valid bm"
  shows "str_good (Some (''0x'' @ rev (hex_digits bm (bs_bits bm) 0 ((bs_bits bm + 3) div 4))))"
proof -
  have "bs_bits bm \<le> 0x40000000" using assms by (simp add: bs_valid_def)
  then have "(bs_bits bm + 3) div 4 + 2 < MAX_PACK_MEM_LEN" by (simp add: buf_consts)
  moreover have "CHR 0x00 \<notin> set (hex_digits bm n lo hi)" for n lo hi
  proof -
    have "hex_char (nib bm n m) \<noteq> CHR 0x00" for m by (rule hex_char_nonzero [OF nib_less])
    then show ?thesis by (auto simp: hex_digits_def eq_commute [of "CHR 0x00"])
  qed
  ultimately show ?thesis by (auto simp: str_good_def hex_digits_def)
qed

lemma pack_bits_ok:
  assumes "buf_ok b" "\<And>bm. v = Some bm \<Longrightarrow> bs_valid bm" "growable alloc b (length (bits_enc v))"
  shows "\<exists>b'. pack_bit_str_hex alloc v b = Some b' \<and> appended b (bits_enc v) b'"
proof (cases v)
  case None
  have "unat (of_nat NO_VAL :: u32) = NO_VAL" by (rule unat_of_nat_u32) (simp add: NO_VAL_def)
  with w32.wr [OF assms(1) TrueI, where v = "of_nat NO_VAL" and alloc = alloc] assms(1,3) None show ?thesis
    by (simp add: pack_bit_str_hex_def bits_enc_def buf_ok_def)
next
  case (Some bm)
  let ?t = "''0x'' @ rev (hex_digits bm (bs_bits bm) 0 ((bs_bits bm + 3) div 4))"
  have v: "bs_valid bm" using assms(2) Some by simp
  then have "bs_bits bm < 2 ^ 32" by (simp add: bs_valid_def)
  then have n: "unat (of_nat (bs_bits bm) :: u32) = bs_bits bm" by (rule unat_of_nat_u32)
  have gr: "growable alloc b (4 + length (mem_enc (str_bytes ?t)))" using assms(3) Some by (simp add: bits_enc_def)
  then have "growable alloc b (length (be 4 (bs_bits bm)))" by (simp add: growable_def)
  then obtain b1 where b1: "pack32 alloc (of_nat (bs_bits bm)) b = Some b1" "appended b (be 4 (bs_bits bm)) b1"
    using w32.wr [OF assms(1) TrueI, where v = "of_nat (bs_bits bm)" and alloc = alloc] n by auto
  have "growable alloc b1 (length (mem_enc (str_bytes ?t)))"
    by (rule growable_appended [OF _ b1(2)]) (use gr in simp)
  moreover have "length (str_bytes ?t) \<le> MAX_PACK_MEM_LEN"
    using hex_text_good [OF v] by (simp add: str_good_def str_bytes_def)
  ultimately obtain b2 where b2: "packmem alloc (str_bytes ?t) b1 = Some b2" "appended b1 (mem_enc (str_bytes ?t)) b2"
    using packmem_ok [of b1 "str_bytes ?t" alloc] b1(2) by (auto simp: appended_def)
  have "pack_bit_str_hex alloc v b = Some b2"
    using Some assms(1) v b1(1) b2(1) by (simp add: pack_bit_str_hex_def buf_ok_def bit_fmt_hexmask_eq bit_size_eq)
  moreover have "appended b (bits_enc v) b2" using appended_trans [OF b1(2) b2(2)] Some by (simp add: bits_enc_def)
  ultimately show ?thesis by blast
qed

lemma unpack_bits_ok:
  assumes "buf_ok b" "\<And>bm. v = Some bm \<Longrightarrow> bs_valid bm" "\<forall>k. alloc k" "buf_rest b = bits_enc v @ r"
  shows "\<exists>v'. unpack_bit_str_hex False alloc b = Some (Some v', advance b (length (bits_enc v)))
     \<and> map_option bs_set v' = map_option bs_set v \<and> map_option bs_bits v' = map_option bs_bits v"
proof (cases v)
  case None
  have "un_be (be 4 NO_VAL) = NO_VAL" by (rule un_be_be) (simp add: NO_VAL_def)
  with None assms show ?thesis by (simp add: unpack_bit_str_hex_def unpack32_ok buf_ok_def bits_enc_def)
next
  case (Some bm)
  let ?t = "''0x'' @ rev (hex_digits bm (bs_bits bm) 0 ((bs_bits bm + 3) div 4))"
  have v: "bs_valid bm" using assms(2) Some by simp
  then have bits: "0 < bs_bits bm" "bs_bits bm \<le> 0x40000000" by (auto simp: bs_valid_def)
  then have n: "un_be (be 4 (bs_bits bm)) = bs_bits bm" by (intro un_be_be) simp
  have u: "unat (of_nat (bs_bits bm) :: u32) = bs_bits bm" using bits by (intro unat_of_nat_u32) simp
  have ne: "of_nat (bs_bits bm) \<noteq> (0 :: u32)" "of_nat (bs_bits bm) \<noteq> (of_nat NO_VAL :: u32)"
  proof -
    have "unat (of_nat NO_VAL :: u32) = NO_VAL" by (rule unat_of_nat_u32) (simp add: NO_VAL_def)
    then have "bs_bits bm = NO_VAL" if "of_nat (bs_bits bm) = (of_nat NO_VAL :: u32)"
      using u arg_cong [OF that, of unat] by simp
    then show "of_nat (bs_bits bm) \<noteq> (of_nat NO_VAL :: u32)" using bits(2) by (auto simp only: NO_VAL_def)
    show "of_nat (bs_bits bm) \<noteq> (0 :: u32)" using u bits(1) by auto
  qed
  have rest: "buf_rest (advance b 4) = mem_enc (mem_of (map_option str_bytes (Some ?t))) @ r"
    using assms(4) Some by (simp add: bits_enc_def mem_of_def)
  have ok4: "buf_ok (advance b 4)" using assms(1,4) Some by (simp add: bits_enc_def)
  have str: "safe_unpackstr False alloc (advance b 4) = Some (Some (Some ?t), advance b (4 + length (mem_enc (str_bytes ?t))))"
    using wstr.rd [OF ok4 hex_text_good [OF v] assms(3) rest] by (simp add: mem_of_def)
  obtain bm0 where bm0: "bit_alloc (int (bs_bits bm)) = Some bm0" "bs_valid bm0" "bs_bits bm0 = bs_bits bm"
    using bit_alloc_eq [OF bits] by blast
  obtain bm' where bm': "bit_unfmt_hexmask (Some bm0) (Some ?t) = Some (Some bm', 0)" "bs_set bm' = bs_set bm"
    "bs_bits bm' = bs_bits bm"
    using unfmt_hexmask_fmt [OF v bm0(2,3)] by (auto simp: bit_fmt_hexmask_eq [OF v])
  have "take 4 (buf_rest b) = be 4 (bs_bits bm)" "4 \<le> length (buf_rest b)"
    using assms(4) Some by (simp_all add: bits_enc_def)
  then have "unpack_bit_str_hex False alloc b = Some (Some (Some bm'), advance b (4 + length (mem_enc (str_bytes ?t))))"
    using assms(1) n u ne str bm0(1) bm'(1) by (simp add: unpack_bit_str_hex_def unpack32_ok buf_ok_def)
  with bm' Some show ?thesis by (simp add: bits_enc_def)
qed

end
