(* ===== verification/Pack_Msg.thy ===== *)
theory Pack_Msg
  imports Pack_Buf
begin

text \<open>
  Messages over the buffers of \<^theory_text>\<open>Pack_Buf\<close>: sequences of fields written with the pack operation of
  their kind and read back with the unpack operations, as every RPC and state file of the program is,
  and the properties of the packing component.
\<close>

subsection \<open>Messages\<close>

text \<open>A message is a sequence of fields, each written with the operation of its kind and read back
  in the same order: the way the RPC and state-save code uses this component.\<close>

datatype kind = K8 | K16 | K32 | K64 | KBool | KTime | KMem | KStr | K16s | K32s | K64s

datatype field = F8 u8 | F16 u16 | F32 u32 | F64 u64 | FBool bool | FTime int
  | FMem "u8 list option" | FStr "string option" | F16s "u16 list" | F32s "u32 list" | F64s "u64 list"

fun kind_of :: "field \<Rightarrow> kind" where
  "kind_of (F8 _) = K8" | "kind_of (F16 _) = K16" | "kind_of (F32 _) = K32" | "kind_of (F64 _) = K64"
| "kind_of (FBool _) = KBool" | "kind_of (FTime _) = KTime" | "kind_of (FMem _) = KMem"
| "kind_of (FStr _) = KStr" | "kind_of (F16s _) = K16s" | "kind_of (F32s _) = K32s" | "kind_of (F64s _) = K64s"

fun pack_field :: "(nat \<Rightarrow> bool) \<Rightarrow> field \<Rightarrow> buf \<Rightarrow> buf option" where
  "pack_field alloc (F8 v) b = pack8 alloc v b"
| "pack_field alloc (F16 v) b = pack16 alloc v b"
| "pack_field alloc (F32 v) b = pack32 alloc v b"
| "pack_field alloc (F64 v) b = pack64 alloc v b"
| "pack_field alloc (FBool v) b = packbool alloc v b"
| "pack_field alloc (FTime v) b = pack_time alloc v b"
| "pack_field alloc (FMem v) b = (if buf_magic b = BUF_MAGIC then packmem alloc (mem_of v) b else None)"
| "pack_field alloc (FStr v) b = packstr alloc v b"
| "pack_field alloc (F16s vs) b = pack16_array alloc vs b"
| "pack_field alloc (F32s vs) b = pack32_array alloc vs b"
| "pack_field alloc (F64s vs) b = pack64_array alloc vs b"

definition mapv :: "('a \<Rightarrow> 'c) \<Rightarrow> ('a option \<times> buf) option \<Rightarrow> ('c option \<times> buf) option" where
  "mapv f = map_option (map_prod (map_option f) id)"

fun unpack_kind :: "(nat \<Rightarrow> bool) \<Rightarrow> kind \<Rightarrow> buf \<Rightarrow> (field option \<times> buf) option" where
  "unpack_kind alloc K8 b = mapv F8 (unpack8 b)"
| "unpack_kind alloc K16 b = mapv F16 (unpack16 b)"
| "unpack_kind alloc K32 b = mapv F32 (unpack32 b)"
| "unpack_kind alloc K64 b = mapv F64 (unpack64 b)"
| "unpack_kind alloc KBool b = mapv FBool (unpackbool b)"
| "unpack_kind alloc KTime b = mapv FTime (unpack_time b)"
| "unpack_kind alloc KMem b = mapv FMem (unpackmem_xmalloc alloc b)"
| "unpack_kind alloc KStr b = mapv FStr (safe_unpackstr False alloc b)"
| "unpack_kind alloc K16s b = mapv F16s (unpack16_array alloc b)"
| "unpack_kind alloc K32s b = mapv F32s (unpack32_array alloc b)"
| "unpack_kind alloc K64s b = mapv F64s (unpack64_array alloc b)"

fun unpack_kinds :: "(nat \<Rightarrow> bool) \<Rightarrow> kind list \<Rightarrow> buf \<Rightarrow> (field list option \<times> buf) option" where
  "unpack_kinds alloc [] b = Some (Some [], b)"
| "unpack_kinds alloc (k # ks) b = do {
     (r, b1) \<leftarrow> unpack_kind alloc k b;
     case r of
       None \<Rightarrow> Some (None, b1)
     | Some f \<Rightarrow> mapv ((#) f) (unpack_kinds alloc ks b1) }"

fun field_good :: "field \<Rightarrow> bool" where
  "field_good (FTime v) \<longleftrightarrow> - (2 ^ 63) \<le> v \<and> v < 2 ^ 63"
| "field_good (FMem v) \<longleftrightarrow> mem_good v"
| "field_good (FStr v) \<longleftrightarrow> str_good v"
| "field_good (F16s vs) \<longleftrightarrow> length vs < 2 ^ 32"
| "field_good (F32s vs) \<longleftrightarrow> length vs < 2 ^ 32"
| "field_good (F64s vs) \<longleftrightarrow> length vs < 2 ^ 32"
| "field_good _ \<longleftrightarrow> True"

fun field_enc :: "field \<Rightarrow> u8 list" where
  "field_enc (F8 v) = [v]"
| "field_enc (F16 v) = be 2 (unat v)"
| "field_enc (F32 v) = be 4 (unat v)"
| "field_enc (F64 v) = be 8 (unat v)"
| "field_enc (FBool v) = [if v then 1 else 0]"
| "field_enc (FTime v) = be 8 (nat (v mod 2 ^ 64))"
| "field_enc (FMem v) = mem_enc (mem_of v)"
| "field_enc (FStr v) = mem_enc (mem_of (map_option str_bytes v))"
| "field_enc (F16s vs) = be 4 (length vs) @ concat (map (\<lambda>v. be 2 (unat v)) vs)"
| "field_enc (F32s vs) = be 4 (length vs) @ concat (map (\<lambda>v. be 4 (unat v)) vs)"
| "field_enc (F64s vs) = be 4 (length vs) @ concat (map (\<lambda>v. be 8 (unat v)) vs)"

lemmas wire_safes = w8.rd_safe w16.rd_safe w32.rd_safe w64.rd_safe wbool.rd_safe wtime.rd_safe wmem.rd_safe rstr.rd_safe
  a16.arr.rd_safe [folded unpack16_array_def] a32.arr.rd_safe [folded unpack32_array_def]
  a64.arr.rd_safe [folded unpack64_array_def]

lemma field_write:
  assumes "buf_ok b" "field_good f" "growable alloc b (length (field_enc f))"
  shows "\<exists>b'. pack_field alloc f b = Some b' \<and> appended b (field_enc f) b'"
proof (cases f)
  case (FTime v)
  then show ?thesis using wtime.wr [of b v alloc] assms by simp
next
  case (FMem v)
  then show ?thesis using wmem.wr [of b v alloc] assms by simp
next
  case (FStr v)
  then show ?thesis using wstr.wr [of b v alloc] assms by simp
next
  case (F16s vs)
  then show ?thesis using a16.arr.wr [folded pack16_array_def, of b vs alloc] assms by simp
next
  case (F32s vs)
  then show ?thesis using a32.arr.wr [folded pack32_array_def, of b vs alloc] assms by simp
next
  case (F64s vs)
  then show ?thesis using a64.arr.wr [folded pack64_array_def, of b vs alloc] assms by simp
qed (use assms w8.wr w16.wr w32.wr w64.wr wbool.wr in simp_all)

lemma field_read:
  assumes "buf_ok b" "field_good f" "\<forall>k. alloc k" "buf_rest b = field_enc f @ r"
  shows "unpack_kind alloc (kind_of f) b = Some (Some f, advance b (length (field_enc f)))"
  using assms
proof (cases f)
  case (F16s vs)
  then show ?thesis using a16.arr.rd [folded unpack16_array_def, of b vs alloc r] assms by (simp add: mapv_def)
next
  case (F32s vs)
  then show ?thesis using a32.arr.rd [folded unpack32_array_def, of b vs alloc r] assms by (simp add: mapv_def)
next
  case (F64s vs)
  then show ?thesis using a64.arr.rd [folded unpack64_array_def, of b vs alloc r] assms by (simp add: mapv_def)
next
  case (FMem v)
  then show ?thesis using wmem.rd [of b v alloc r] assms by (simp add: mapv_def)
next
  case (FStr v)
  then show ?thesis using wstr.rd [of b v alloc r] assms by (simp add: mapv_def)
next
  case (FTime v)
  then show ?thesis using wtime.rd [of b v alloc r] assms by (simp add: mapv_def)
next
  case (FBool v)
  then show ?thesis using wbool.rd [OF assms(1) TrueI assms(3), of v r] assms by (simp add: mapv_def)
next
  case (F8 v)
  then show ?thesis using w8.rd [OF assms(1) TrueI assms(3), of v r] assms by (simp add: mapv_def)
next
  case (F16 v)
  then show ?thesis using w16.rd [OF assms(1) TrueI assms(3), of v r] assms by (simp add: mapv_def)
next
  case (F32 v)
  then show ?thesis using w32.rd [OF assms(1) TrueI assms(3), of v r] assms by (simp add: mapv_def)
next
  case (F64 v)
  then show ?thesis using w64.rd [OF assms(1) TrueI assms(3), of v r] assms by (simp add: mapv_def)
qed

lemma mapv_safe:
  "\<exists>r n. u = Some (r, advance b n) \<and> n \<le> m \<Longrightarrow> \<exists>r n. mapv f u = Some (r, advance b n) \<and> n \<le> m"
  by (auto simp: mapv_def)

lemma kind_read_safe:
  assumes "buf_ok b"
  shows "\<exists>r n. unpack_kind alloc k b = Some (r, advance b n) \<and> n \<le> length (buf_rest b)"
  by (cases k) (simp_all only: unpack_kind.simps, (rule mapv_safe, rule wire_safes [OF assms])+)

lemma fields_write:
  assumes "buf_ok b" "\<forall>f \<in> set fs. field_good f" "growable alloc b (length (concat (map field_enc fs)))"
  shows "\<exists>b'. pack_each (pack_field alloc) fs b = Some b' \<and> appended b (concat (map field_enc fs)) b'"
  using assms
proof (induction fs arbitrary: b)
  case (Cons f fs)
  have "growable alloc b (length (field_enc f))" using Cons.prems(3) by (auto simp: growable_def)
  then obtain b1 where b1: "pack_field alloc f b = Some b1" "appended b (field_enc f) b1"
    using field_write [of b f alloc] Cons.prems by auto
  have "growable alloc b1 (length (concat (map field_enc fs)))"
    by (rule growable_appended [OF _ b1(2)]) (use Cons.prems(3) in simp)
  then obtain b2 where "pack_each (pack_field alloc) fs b1 = Some b2" "appended b1 (concat (map field_enc fs)) b2"
    using Cons.IH [of b1] Cons.prems(2) b1(2) by (auto simp: appended_def)
  with b1(1) appended_trans [OF b1(2) this(2)] show ?case by simp
qed (auto intro: appended_refl)

lemma fields_read:
  assumes "buf_ok b" "\<forall>f \<in> set fs. field_good f" "\<forall>k. alloc k" "buf_rest b = concat (map field_enc fs) @ r"
  shows "unpack_kinds alloc (map kind_of fs) b = Some (Some fs, advance b (length (concat (map field_enc fs))))"
  using assms
proof (induction fs arbitrary: b)
  case (Cons f fs)
  have u: "unpack_kind alloc (kind_of f) b = Some (Some f, advance b (length (field_enc f)))"
    using field_read [of b f alloc] Cons.prems by simp
  let ?b = "advance b (length (field_enc f))"
  have ok: "buf_ok ?b" using Cons.prems(1,4) by simp
  have good: "\<forall>f \<in> set fs. field_good f" using Cons.prems(2) by simp
  have rest: "buf_rest ?b = concat (map field_enc fs) @ r" using Cons.prems(4) by simp
  have "unpack_kinds alloc (map kind_of fs) ?b = Some (Some fs, advance ?b (length (concat (map field_enc fs))))"
    by (rule Cons.IH [OF ok good Cons.prems(3) rest])
  with u show ?case by (simp add: mapv_def)
qed simp

subsection \<open>Properties\<close>

text \<open>C13. A message of any fields of the eleven kinds, packed into an empty buffer and read back from its start with the
  unpack operation of each kind, gives the same fields and ends where packing ended, however often
  the buffer had to grow.\<close>

theorem message_roundtrip:
  assumes "buf_ok b" "processed b = 0" "\<forall>f \<in> set fs. field_good f"
    and "growable alloc b (length (concat (map field_enc fs)))"
  shows "\<exists>b1. pack_each (pack_field alloc) fs b = Some b1
    \<and> unpack_kinds alloc (map kind_of fs) (b1\<lparr>processed := 0\<rparr>) = Some (Some fs, b1)"
proof -
  obtain b1 where b1: "pack_each (pack_field alloc) fs b = Some b1" "appended b (concat (map field_enc fs)) b1"
    using fields_write [OF assms(1,3,4)] by blast
  have "buf_data b = []" using assms(2) by (simp add: buf_data_def)
  then have d: "take (processed b1) (head b1) = concat (map field_enc fs)"
    "processed b1 = length (concat (map field_enc fs))" "buf_ok b1"
    using b1(2) assms(2) by (auto simp: appended_def buf_data_def)
  let ?b = "b1\<lparr>processed := 0\<rparr>"
  have "buf_rest ?b = concat (map field_enc fs) @ drop (processed b1) (head b1)"
    using d(1) append_take_drop_id [of "processed b1" "head b1"] by (simp add: buf_rest_def)
  moreover have "buf_ok ?b" using d(3) by (simp add: buf_ok_def)
  moreover have "\<forall>k. alloc k" using assms(4) by (simp add: growable_def)
  ultimately have "unpack_kinds alloc (map kind_of fs) ?b = Some (Some fs, advance ?b (processed b1))"
    unfolding d(2) using fields_read [OF _ assms(3), of ?b alloc] by blast
  moreover have "advance ?b (processed b1) = b1" by (simp add: advance_def)
  ultimately show ?thesis using b1(1) by auto
qed

text \<open>A small buffer for the instances.\<close>

definition buf_example :: "u8 list \<Rightarrow> buf" where
  "buf_example bytes = \<lparr>buf_magic = BUF_MAGIC, head = bytes, buf_size = length bytes, processed = 0,
     mmaped = False, shadow = False\<rparr>"

lemma buf_example_ok: "length bytes \<le> 100 \<Longrightarrow> buf_ok (buf_example bytes)"
  by (simp add: buf_example_def buf_ok_def buf_consts)

theorem message_roundtrip_witness:
  "\<exists>b1. pack_each (pack_field (\<lambda>_. True)) [F32 7, FStr (Some ''ab''), FTime (-3)] (buf_example [0, 0]) = Some b1
    \<and> unpack_kinds (\<lambda>_. True) (map kind_of [F32 7, FStr (Some ''ab''), FTime (-3)]) (b1\<lparr>processed := 0\<rparr>)
      = Some (Some [F32 7, FStr (Some ''ab''), FTime (-3)], b1)"
proof (rule message_roundtrip)
  show "growable (\<lambda>_. True) (buf_example [0, 0]) (length (concat (map field_enc [F32 7, FStr (Some ''ab''), FTime (-3)])))"
    by (simp add: growable_def buf_example_def mem_enc_def mem_of_def str_bytes_def buf_consts)
  show "processed (buf_example [0, 0]) = 0" by (simp add: buf_example_def)
qed (simp_all add: buf_example_ok str_good_def buf_consts)

subsection \<open>Reading arbitrary bytes\<close>

text \<open>The operations a message is read with: the kinds above, pointers into the buffer, floating-point values, arrays of doubles and strings,
  bitmaps and long doubles. The environment holds whether the process is the accounting daemon, which memory requests succeed, and the
  conversions of floating-point values.\<close>

datatype reader = RKind kind | RPtr | RFloat | RDouble | RDoubles | RStrs | RBits | RLong

datatype 'l read_value = VField field | VFloat u32 | VDouble u64 | VDoubles "u64 list" | VStrs "string option list" | VBits "bitstr option" | VLong 'l

record 'l wire_env =
  slurmdbd :: bool
  mem_free :: "nat \<Rightarrow> bool"
  unscale32 :: "u32 \<Rightarrow> u32"
  unscale64 :: "u64 \<Rightarrow> u64"
  scan_long :: "string \<Rightarrow> 'l option"
  nan_long :: "'l \<Rightarrow> bool"
  zero_long :: 'l

fun unpack_value :: "'l wire_env \<Rightarrow> reader \<Rightarrow> buf \<Rightarrow> ('l read_value option \<times> buf) option" where
  "unpack_value env (RKind k) b = (if k = KStr then mapv (\<lambda>s. VField (FStr s)) (safe_unpackstr (slurmdbd env) (mem_free env) b)
     else mapv VField (unpack_kind (mem_free env) k b))"
| "unpack_value env RPtr b = mapv (\<lambda>m. VField (FMem m)) (unpackmem_ptr b)"
| "unpack_value env RFloat b = mapv VFloat (unpackfloat (unscale32 env) b)"
| "unpack_value env RDouble b = mapv VDouble (unpackdouble (unscale64 env) b)"
| "unpack_value env RDoubles b = mapv VDoubles (unpackdouble_array (unscale64 env) (mem_free env) b)"
| "unpack_value env RStrs b = mapv VStrs (unpackstr_array (slurmdbd env) (mem_free env) b)"
| "unpack_value env RBits b = mapv VBits (unpack_bit_str_hex (slurmdbd env) (mem_free env) b)"
| "unpack_value env RLong b = mapv VLong (unpacklongdouble (scan_long env) (nan_long env) (zero_long env) b)"

fun unpack_values :: "'l wire_env \<Rightarrow> reader list \<Rightarrow> buf \<Rightarrow> ('l read_value list option \<times> buf) option" where
  "unpack_values env [] b = Some (Some [], b)"
| "unpack_values env (k # ks) b = do {
     (r, b1) \<leftarrow> unpack_value env k b;
     case r of
       None \<Rightarrow> Some (None, b1)
     | Some f \<Rightarrow> mapv ((#) f) (unpack_values env ks b1) }"

text \<open>The two operations that trust the bytes. A bitmap's size goes unchecked to \<open>bit_alloc\<close>, and its text is counted in an
  \<open>int\<close>, so that a text of \<open>2 ^ 28\<close> bytes or more (twice as long when it is escaped) may overflow. A long double is scanned from the
  null pointer when its block is empty and up to the next NUL otherwise.\<close>

fun hazard :: "reader \<Rightarrow> buf \<Rightarrow> bool" where
  "hazard RBits b \<longleftrightarrow> un_be (take 4 (buf_rest b)) \<noteq> NO_VAL
     \<and> (0x40000000 < un_be (take 4 (buf_rest b)) \<or> 2 ^ 28 \<le> un_be (take 4 (drop 4 (buf_rest b))))"
| "hazard RLong b \<longleftrightarrow> un_be (take 4 (buf_rest b)) = 0 \<or> 0 \<notin> set (drop 4 (buf_rest b))"
| "hazard _ b \<longleftrightarrow> False"

lemma unpackstr_array_safe:
  assumes "buf_ok b"
  shows "\<exists>r n. unpackstr_array dbd alloc b = Some (r, advance b n) \<and> n \<le> length (buf_rest b)"
proof (cases "4 \<le> length (buf_rest b)")
  case True
  let ?n = "of_nat (un_be (take 4 (buf_rest b))) :: u32"
  have "buf_ok (advance b 4)" using assms True by simp
  from rstr.each_read_safe [OF this, of dbd alloc "unat ?n" "[]"] obtain r m where
    rm: "unpack_each (safe_unpackstr dbd alloc) (unat ?n) (advance b 4) [] = Some (r, advance b (4 + m))" "m \<le> length (buf_rest b) - 4" by auto
  have run: "unpackstr_array dbd alloc b = (if ?n = 0 then Some (Some [], advance b 4) else if unat ?n > MAX_PACK_MEM_LEN \<or> \<not> alloc ((unat ?n + 1) * 8)
      then Some (None, advance b 4) else unpack_each (safe_unpackstr dbd alloc) (unat ?n) (advance b 4) [])"
    using assms True by (simp add: unpackstr_array_def unpack32_ok buf_ok_def)
  have "4 + m \<le> length (buf_rest b)" using rm(2) True by linarith
  with rm(1) True show ?thesis unfolding run by auto
next
  case False
  then show ?thesis using assms by (auto simp: unpackstr_array_def unpack32_ok buf_ok_def intro!: exI [of _ "0::nat"])
qed

text \<open>How long the text of a block can be.\<close>

lemma safe_unpackstr_length:
  assumes "buf_ok b" "safe_unpackstr dbd alloc b = Some (Some (Some t), b')"
  shows "length t \<le> 2 * un_be (take 4 (buf_rest b)) + 1"
proof -
  let ?n = "of_nat (un_be (take 4 (buf_rest b))) :: u32"
  have four: "4 \<le> length (buf_rest b)"
    using assms by (cases dbd) (auto simp: safe_unpackstr_def unpackstr_xmalloc_chooser_def unpackstr_xmalloc_def unpackstr_xmalloc_escaped_def
        unpack_len_def unpack32_ok buf_ok_def split: if_splits)
  then have "un_be (take 4 (buf_rest b)) < 2 ^ 32" using un_be_less [of "take 4 (buf_rest b)"] by simp
  then have n: "unat ?n = un_be (take 4 (buf_rest b))" by simp
  have len: "unpack_len b = Some (if ?n = 0 then Inl True else if unat ?n > MAX_PACK_MEM_LEN \<or> remaining_buf (advance b 4) < unat ?n then Inl False
      else Inr (unat ?n), advance b 4)"
    using assms(1) four by (simp add: unpack_len_def unpack32_ok buf_ok_def)
  have c: "length (c_str bs) \<le> length bs" for bs unfolding c_str_def by (simp add: length_takeWhile_le)
  have esc: "length copy' \<le> cap" if "escape_loop cap cs copy = Some copy'" "length copy \<le> cap" for cap cs copy copy'
    using that by (induction cap cs copy rule: escape_loop.induct) (auto simp: Let_def split: if_splits)
  have get: "length bs = k" if "buf_get a k = Some (bs, a')" for a k bs a'
    using that by (auto simp: buf_get_def split: if_splits)
  show ?thesis
  proof (cases dbd)
    case False
    then obtain bs where "t = c_str bs" "buf_get (advance b 4) (unat ?n) = Some (bs, b')"
      using assms(2) len by (auto simp: safe_unpackstr_def unpackstr_xmalloc_chooser_def unpackstr_xmalloc_def bind_eq_Some_conv split: if_splits)
    with get c n show ?thesis by (metis le_add1 mult_2 order_trans trans_le_add1)
  next
    case True
    then obtain bs copy where t: "t = c_str (copy @ replicate (unat ?n * 2 + 1 - length copy) 0)" "escape_loop (unat ?n * 2 + 1) bs [] = Some copy"
      using assms(2) len by (auto simp: safe_unpackstr_def unpackstr_xmalloc_chooser_def unpackstr_xmalloc_escaped_def bind_eq_Some_conv split: if_splits)
    have "length copy \<le> unat ?n * 2 + 1" by (rule esc [OF t(2)]) simp
    with c [of "copy @ replicate (unat ?n * 2 + 1 - length copy) 0"] t(1) n show ?thesis by simp
  qed
qed

lemma unpack_bits_safe:
  assumes "buf_ok b" "\<not> hazard RBits b"
  shows "\<exists>r n. unpack_bit_str_hex dbd alloc b = Some (r, advance b n) \<and> n \<le> length (buf_rest b)"
proof (cases "4 \<le> length (buf_rest b)")
  case four: True
  let ?m = "un_be (take 4 (buf_rest b))"
  let ?n = "of_nat ?m :: u32"
  have n: "unat ?n = ?m" using four un_be_less [of "take 4 (buf_rest b)"] by simp
  have u: "unpack32 b = Some (Some ?n, advance b 4)" using assms(1) four by (simp add: unpack32_ok)
  show ?thesis
  proof (cases "?n = of_nat NO_VAL")
    case True
    then show ?thesis using assms(1) u four by (auto simp: unpack_bit_str_hex_def buf_ok_def)
  next
    case False
    then have h: "?m \<le> 0x40000000" "un_be (take 4 (buf_rest (advance b 4))) < 2 ^ 28" using assms(2) by auto
    have ok4: "buf_ok (advance b 4)" using assms(1) four by simp
    obtain so k where s: "safe_unpackstr dbd alloc (advance b 4) = Some (so, advance b (4 + k))" "4 + k \<le> length (buf_rest b)"
      using safe_unpackstr_safe [OF ok4, of dbd alloc] four by fastforce
    show ?thesis
    proof (cases "so = None \<or> ?n = 0")
      case True
      then show ?thesis using False assms(1) u s by (cases so) (auto simp: unpack_bit_str_hex_def buf_ok_def)
    next
      case big: False
      then obtain tx where so: "so = Some tx" by auto
      have "0 < ?m" using big n by (metis gr0I unat_0 word_unat_eq_iff)
      then obtain bm where bm: "bit_alloc (int ?m) = Some bm" "bs_valid bm" using bit_alloc_eq h(1) by blast
      have "\<forall>t. tx = Some t \<longrightarrow> length t < 2 ^ 29"
      proof (intro allI impI)
        fix t assume "tx = Some t"
        with safe_unpackstr_length [OF ok4, of dbd alloc t] s(1) so have "length t \<le> 2 * un_be (take 4 (buf_rest (advance b 4))) + 1" by simp
        with h(2) show "length t < 2 ^ 29" by simp
      qed
      from bit_unfmt_hexmask_safe [OF bm(2) this] obtain bo rc where "bit_unfmt_hexmask (Some bm) tx = Some (bo, rc)" by blast
      with False big assms(1) u s so bm(1) n show ?thesis by (auto simp: unpack_bit_str_hex_def buf_ok_def)
    qed
  qed
next
  case False
  then show ?thesis using assms(1) by (auto simp: unpack_bit_str_hex_def unpack32_ok buf_ok_def intro!: exI [of _ "0::nat"])
qed

lemma unpack_long_safe:
  assumes "buf_ok b" "\<not> hazard RLong b"
  shows "\<exists>r n. unpacklongdouble scan isnan zero b = Some (r, advance b n) \<and> n \<le> length (buf_rest b)"
proof (cases "4 \<le> length (buf_rest b)")
  case four: True
  let ?m = "un_be (take 4 (buf_rest b))"
  let ?n = "of_nat ?m :: u32"
  have n: "unat ?n = ?m" using four un_be_less [of "take 4 (buf_rest b)"] by simp
  have h: "?n \<noteq> 0" "0 \<in> set (drop 4 (buf_rest b))" using assms(2) n by auto
  have ok4: "buf_ok (advance b 4)" using assms(1) four by simp
  then have len: "unpack_len b = Some (if unat ?n > MAX_PACK_MEM_LEN \<or> length (buf_rest b) - 4 < unat ?n then Inl False else Inr (unat ?n), advance b 4)"
    using assms(1) four h(1) by (simp add: unpack_len_def unpack32_ok buf_ok_def [of b] remaining_ok)
  show ?thesis
  proof (cases "unat ?n > MAX_PACK_MEM_LEN \<or> length (buf_rest b) - 4 < unat ?n")
    case True
    then show ?thesis using len four by (auto simp: unpacklongdouble_def unpackmem_ptr_def)
  next
    case False
    then have k: "4 + unat ?n \<le> length (buf_rest b)" using four by linarith
    then have "buf_get (advance b 4) (unat ?n) = Some (take (unat ?n) (drop 4 (buf_rest b)), advance b (4 + unat ?n))"
      using buf_get_ok [OF ok4, of "unat ?n"] False by simp
    moreover have "length (take (unat ?n) (drop 4 (buf_rest b))) = unat ?n" using k by simp
    moreover have "drop (processed (advance b (4 + unat ?n)) - unat ?n) (head (advance b (4 + unat ?n))) = drop 4 (buf_rest b)"
      using assms(1) by (simp add: advance_def buf_rest_def buf_ok_def add.commute)
    ultimately show ?thesis using len False h(2) k by (auto simp: unpacklongdouble_def unpackmem_ptr_def)
  qed
next
  case False
  then show ?thesis using assms(1)
    by (auto simp: unpacklongdouble_def unpackmem_ptr_def unpack_len_def unpack32_ok buf_ok_def intro!: exI [of _ "0::nat"])
qed

lemma value_read_safe:
  assumes "buf_ok b" "\<not> hazard k b"
  shows "\<exists>r n. unpack_value env k b = Some (r, advance b n) \<and> n \<le> length (buf_rest b)"
  using assms
  by (cases k) (auto intro!: mapv_safe kind_read_safe safe_unpackstr_safe unpackmem_safe(2) wfloat.rd_safe wdouble.rd_safe
      adouble.arr.rd_safe [folded unpackdouble_array_def] unpackstr_array_safe unpack_bits_safe unpack_long_safe)

text \<open>C14. Reading a message from arbitrary bytes with any sequence of these operations, in the accounting daemon or elsewhere, never leaves the buffer
  as long as no bitmap or long double of the message meets its hazard: the operations return, the bytes are unchanged and the
  position stays inside. The other operations have no hazard.\<close>

theorem unpack_memory_safe:
  assumes "buf_ok b"
    and "\<forall>ks1 k ks2 vs b1. ks = ks1 @ k # ks2 \<longrightarrow> unpack_values env ks1 b = Some (Some vs, b1) \<longrightarrow> \<not> hazard k b1"
  shows "\<exists>r b'. unpack_values env ks b = Some (r, b') \<and> buf_ok b' \<and> head b' = head b \<and> processed b \<le> processed b'"
  using assms
proof (induction ks arbitrary: b)
  case (Cons k ks)
  have "\<not> hazard k b" using Cons.prems(2) by (auto dest: spec [of _ "[]"])
  then obtain r n where rn: "unpack_value env k b = Some (r, advance b n)" "n \<le> length (buf_rest b)"
    using value_read_safe [OF Cons.prems(1)] by blast
  show ?case
  proof (cases r)
    case None
    with rn advance_ok [OF Cons.prems(1) rn(2)] show ?thesis by (simp add: advance_def)
  next
    case (Some v)
    have "\<forall>ks1 k' ks2 vs b1. ks = ks1 @ k' # ks2 \<longrightarrow> unpack_values env ks1 (advance b n) = Some (Some vs, b1) \<longrightarrow> \<not> hazard k' b1"
    proof (intro allI impI)
      fix ks1 k' ks2 vs b1 assume h: "ks = ks1 @ k' # ks2" "unpack_values env ks1 (advance b n) = Some (Some vs, b1)"
      then have "unpack_values env (k # ks1) b = Some (Some (v # vs), b1)" using rn(1) Some by (simp add: mapv_def)
      with h(1) show "\<not> hazard k' b1" using Cons.prems(2) by (metis append_Cons)
    qed
    from Cons.IH [OF advance_ok [OF Cons.prems(1) rn(2)] this] obtain r' b' where
      "unpack_values env ks (advance b n) = Some (r', b')" "buf_ok b'" "head b' = head b" "processed b \<le> processed b'"
      by (auto simp: advance_def)
    with rn(1) Some show ?thesis by (auto simp: mapv_def)
  qed
qed auto

text \<open>A process that is not the accounting daemon.\<close>

definition wire_example :: "bool \<Rightarrow> nat wire_env" where
  "wire_example dbd = \<lparr> slurmdbd = dbd, mem_free = (\<lambda>_. True), unscale32 = id, unscale64 = id, scan_long = (\<lambda>s. Some (length s)),
     nan_long = (\<lambda>_. False), zero_long = 0 \<rparr>"

theorem unpack_memory_safe_witness:
  "\<exists>r b'. unpack_values (wire_example True) [RKind K8, RBits] (buf_example [7, 255, 255, 255, 254]) = Some (r, b') \<and> buf_ok b'
     \<and> head b' = head (buf_example [7, 255, 255, 255, 254]) \<and> processed (buf_example [7, 255, 255, 255, 254]) \<le> processed b'"
proof (rule unpack_memory_safe)
  let ?b = "buf_example [7, 255, 255, 255, 254]"
  show "buf_ok ?b" by (simp add: buf_example_ok)
  then have "unpack8 ?b = Some (Some 7, advance ?b 1)"
    by (simp add: unpack8_def unpack_bytes_ok, simp add: buf_example_def buf_rest_def un_be_def)
  then have "unpack_values (wire_example True) [RKind K8] ?b = Some (Some [VField (F8 7)], advance ?b 1)" by (simp add: mapv_def)
  moreover have "\<not> hazard RBits (advance ?b 1)" by (simp add: buf_example_def advance_def buf_rest_def un_be_def NO_VAL_def)
  ultimately show "\<forall>ks1 k ks2 vs b1. [RKind K8, RBits] = ks1 @ k # ks2 \<longrightarrow> unpack_values (wire_example True) ks1 ?b = Some (Some vs, b1)
      \<longrightarrow> \<not> hazard k b1" by (auto simp: Cons_eq_append_conv)
qed

text \<open>Each hazard is real: an oversized bitmap fails an assertion once its text is read, and an empty long double block is scanned from null.\<close>

lemma oversized_bitmap_aborts:
  assumes "buf_ok b" "4 \<le> length (buf_rest b)" "0x40000000 < un_be (take 4 (buf_rest b))" "un_be (take 4 (buf_rest b)) \<noteq> NO_VAL"
    and "safe_unpackstr dbd alloc (advance b 4) = Some (Some text, b2)"
  shows "unpack_bit_str_hex dbd alloc b = None"
proof -
  let ?m = "un_be (take 4 (buf_rest b))"
  have m: "?m < 2 ^ 32" using assms(2) un_be_less [of "take 4 (buf_rest b)"] by simp
  then have n: "unat (of_nat ?m :: u32) = ?m" by simp
  have "unat (of_nat NO_VAL :: u32) = NO_VAL" by (rule unat_of_nat_u32) (simp add: NO_VAL_def)
  then have "(of_nat ?m :: u32) \<noteq> of_nat NO_VAL" "(of_nat ?m :: u32) \<noteq> 0" using n assms(3,4) by (metis, metis not_less_zero unat_0)
  moreover have "bit_alloc (int ?m) = None" using assms(3) by (simp add: bit_alloc_def assert_valid_size_def)
  ultimately show ?thesis using assms(1,2,5) n by (simp add: unpack_bit_str_hex_def unpack32_ok buf_ok_def)
qed

lemma empty_long_double_aborts:
  assumes "buf_ok b" "4 \<le> length (buf_rest b)" "un_be (take 4 (buf_rest b)) = 0"
  shows "unpacklongdouble scan isnan zero b = None"
  using assms by (simp add: unpacklongdouble_def unpackmem_ptr_def unpack_len_def unpack32_ok buf_ok_def)

text \<open>C15. A bitmap packed with \<open>pack_bit_str_hex\<close> and unpacked with \<open>unpack_bit_str_hex\<close> arrives with the
  same size and the same set; the null bitmap arrives as the null bitmap.\<close>

theorem bitmap_wire_roundtrip:
  assumes "buf_ok b" "processed b = 0" "\<forall>bm. v = Some bm \<longrightarrow> bs_valid bm" "growable alloc b (length (bits_enc v))"
  shows "\<exists>b1 v'. pack_bit_str_hex alloc v b = Some b1
    \<and> unpack_bit_str_hex False alloc (b1\<lparr>processed := 0\<rparr>) = Some (Some v', b1)
    \<and> map_option bs_set v' = map_option bs_set v \<and> map_option bs_bits v' = map_option bs_bits v"
proof -
  obtain b1 where b1: "pack_bit_str_hex alloc v b = Some b1" "appended b (bits_enc v) b1"
    using pack_bits_ok [OF assms(1) _ assms(4)] assms(3) by blast
  have "buf_data b = []" using assms(2) by (simp add: buf_data_def)
  then have d: "take (processed b1) (head b1) = bits_enc v" "processed b1 = length (bits_enc v)" "buf_ok b1"
    using b1(2) assms(2) by (auto simp: appended_def buf_data_def)
  let ?b = "b1\<lparr>processed := 0\<rparr>"
  have "buf_rest ?b = bits_enc v @ drop (processed b1) (head b1)"
    using d(1) append_take_drop_id [of "processed b1" "head b1"] by (simp add: buf_rest_def)
  moreover have "buf_ok ?b" using d(3) by (simp add: buf_ok_def)
  moreover have "advance ?b (length (bits_enc v)) = b1" using d(2) by (simp add: advance_def)
  ultimately show ?thesis
    using unpack_bits_ok [of ?b v alloc] assms(3,4) b1(1) by (auto simp: growable_def)
qed

theorem bitmap_wire_roundtrip_witness:
  "\<exists>b1 v'. pack_bit_str_hex (\<lambda>_. True) (Some \<lparr>bs_magic = BITSTR_MAGIC, bs_bits = 5, bs_words = [0x15]\<rparr>) (buf_example []) = Some b1
    \<and> unpack_bit_str_hex False (\<lambda>_. True) (b1\<lparr>processed := 0\<rparr>) = Some (Some v', b1)
    \<and> map_option bs_set v' = map_option bs_set (Some \<lparr>bs_magic = BITSTR_MAGIC, bs_bits = 5, bs_words = [0x15]\<rparr>)
    \<and> map_option bs_bits v' = map_option bs_bits (Some \<lparr>bs_magic = BITSTR_MAGIC, bs_bits = 5, bs_words = [0x15]\<rparr>)"
proof (rule bitmap_wire_roundtrip)
  show "processed (buf_example []) = 0" by (simp add: buf_example_def)
  show "growable (\<lambda>_. True) (buf_example [])
      (length (bits_enc (Some \<lparr>bs_magic = BITSTR_MAGIC, bs_bits = 5, bs_words = [0x15]\<rparr>)))"
    by (simp add: growable_def buf_example_def bits_enc_def mem_enc_def str_bytes_def hex_digits_def buf_consts)
qed (simp_all add: buf_example_ok bs_valid_def)

text \<open>Making room: \<open>try_grow_buf_remaining\<close> keeps the bytes written so far and the 4 GB limit; when
  it reports success the requested bytes are available, and otherwise the buffer is unchanged. A
  buffer that does not own its memory is never grown.\<close>

lemma try_grow_contract:
  assumes "buf_ok b" "n \<le> MAX_PACK_MEM_LEN + 4"
  shows "\<exists>rc b'. try_grow_buf_remaining alloc b n = Some (rc, b') \<and> buf_ok b' \<and> buf_data b' = buf_data b
    \<and> (rc = GROW_SUCCESS \<longrightarrow> n \<le> remaining_buf b') \<and> (rc \<noteq> GROW_SUCCESS \<longrightarrow> b' = b)
    \<and> ((mmaped b \<or> shadow b) \<and> remaining_buf b < n \<longrightarrow> rc = GROW_EINVAL)"
proof -
  obtain rc b' where r: "try_grow_buf_remaining alloc b n = Some (rc, b')" "appended b [] b'"
    "rc = GROW_SUCCESS \<longrightarrow> n \<le> length (buf_rest b')" "rc \<noteq> GROW_SUCCESS \<longrightarrow> b' = b"
    using try_grow_cases [OF assms] by blast
  have "rc = GROW_EINVAL" if "mmaped b \<or> shadow b" "remaining_buf b < n"
    using r(1) that assms(1) by (auto simp: try_grow_buf_remaining_def try_grow_buf_def buf_ok_def Let_def)
  with r show ?thesis by (auto simp: appended_def remaining_ok)
qed

text \<open>A value that does not fit into a buffer that cannot grow is dropped without any sign to the
  caller: the buffer comes back as it was.\<close>

lemma pack_drops_silently:
  assumes "buf_ok b" "mmaped b \<or> shadow b" "remaining_buf b < 8"
  shows "pack64 alloc v b = Some b"
  using assms by (auto simp: pack64_def pack_bytes_def try_grow_buf_remaining_def try_grow_buf_def buf_ok_def Let_def)

end
