(* ===== verification/Xlist.thy ===== *)
theory Xlist
  imports Slurm_Prelude
begin

text \<open>
  src/common/list.c: the linked lists used throughout the program. A list owns its nodes: one page
  of them lies behind the list structure, further pages are allocated when the free nodes run out,
  and removed nodes go back to the free nodes. A node address is a pair (page, index); page 0 is the
  one inside the structure, and node 0 of every further page links the pages for \<open>list_destroy\<close>.

  A \<open>list_node_t **\<close> is the address of a link: the \<open>head\<close> field or the \<open>next\<close> field of a node. Each
  live iterator holds the next node and the link before it; creating and removing a node repairs all
  of them. Reading or writing a node that is not allocated is \<open>None\<close>, as is a failed assertion.

  Every operation holds the list's lock from its first to its last access, so an operation is one
  atomic step here. The delete function of a list is known by its
  address; the data it was called with, in order, are collected in \<open>l_deleted\<close>. Data pointers are
  options with \<open>None\<close> the null pointer, which the code never stores in a node.
  Callback functions are arguments; they do not change the list they are called for.
\<close>

subsection \<open>Data\<close>

type_synonym addr = "nat \<times> nat"

datatype slot = Head | NextOf addr

record 'a list_node =
  n_data :: "'a option"
  n_next :: "addr option"

record list_itr =
  i_magic :: nat
  i_pos :: "addr option"
  i_prev :: slot

text \<open>The count of a list is unbounded here; the \<open>int\<close> of the code would need \<open>2 ^ 31\<close> elements to differ.\<close>

record 'a xlist =
  l_magic :: nat
  l_count :: int
  l_head :: "addr option"
  l_tail :: slot
  l_itrs :: "(nat \<times> list_itr) list"
  l_fDel :: "nat option"
  l_free_nodes :: "addr option"
  l_node_allocations :: "addr option"
  l_mem :: "addr \<Rightarrow> 'a list_node option"
  l_pages :: nat
  l_deleted :: "'a list"

definition LIST_MAGIC :: nat where "LIST_MAGIC = 0xDEADBEEF"
definition LIST_ITR_MAGIC :: nat where "LIST_ITR_MAGIC = 0xDEADBEFF"

text \<open>The list structure takes 120 bytes and a node 16 on a 64-bit machine.\<close>

definition nodes_in_page :: nat where "nodes_in_page = (4064 - 120) div 16"

definition page_nodes :: "nat \<Rightarrow> nat \<Rightarrow> 'a list_node" where
  "page_nodes pg i = \<lparr>n_data = None, n_next = (if i + 1 < nodes_in_page then Some (pg, i + 1) else None)\<rparr>"

text \<open>\<^verbatim>\<open>*pp\<close> and \<^verbatim>\<open>*pp = v\<close>.\<close>

definition slot_get :: "'a xlist \<Rightarrow> slot \<Rightarrow> addr option option" where
  "slot_get l pp = (case pp of Head \<Rightarrow> Some (l_head l) | NextOf a \<Rightarrow> map_option n_next (l_mem l a))"

definition slot_put :: "'a xlist \<Rightarrow> slot \<Rightarrow> addr option \<Rightarrow> 'a xlist option" where
  "slot_put l pp v = (case pp of
     Head \<Rightarrow> Some (l\<lparr>l_head := v\<rparr>)
   | NextOf a \<Rightarrow> do { nd \<leftarrow> l_mem l a; Some (l\<lparr>l_mem := (l_mem l)(a \<mapsto> nd\<lparr>n_next := v\<rparr>)\<rparr>) })"

fun map_itrs :: "(list_itr \<Rightarrow> list_itr option) \<Rightarrow> (nat \<times> list_itr) list \<Rightarrow> (nat \<times> list_itr) list option" where
  "map_itrs f [] = Some []"
| "map_itrs f ((k, i) # is) = do { i' \<leftarrow> f i; is' \<leftarrow> map_itrs f is; Some ((k, i') # is') }"

subsection \<open>Creating and removing nodes\<close>

text \<open>The assertion after an iterator is repaired: the next node is the one the link points to or the
  one after it.\<close>

definition itr_assert :: "'a xlist \<Rightarrow> list_itr \<Rightarrow> list_itr option" where
  "itr_assert l i = do {
     d \<leftarrow> slot_get l (i_prev i);
     if i_pos i = d then Some i
     else do {
       a \<leftarrow> d; n \<leftarrow> map_option n_next (l_mem l a);
       xassert (i_pos i = n);
       Some i } }"

definition list_node_alloc :: "'a xlist \<Rightarrow> 'a xlist" where
  "list_node_alloc l = (let pg = Suc (l_pages l) in
     l\<lparr>l_mem := (\<lambda>(p, i). if p = pg \<and> i < nodes_in_page
                        then Some (if i = 0 then \<lparr>n_data = None, n_next = l_node_allocations l\<rparr> else page_nodes pg i)
                        else l_mem l (p, i)),
       l_pages := pg, l_node_allocations := Some (pg, 0), l_free_nodes := Some (pg, 1)\<rparr>)"

definition create_itr :: "'a xlist \<Rightarrow> slot \<Rightarrow> addr \<Rightarrow> addr option \<Rightarrow> list_itr \<Rightarrow> list_itr option" where
  "create_itr l pp p p_next i = do {
     xassert (i_magic i = LIST_ITR_MAGIC);
     itr_assert l (if i_prev i = pp then i\<lparr>i_prev := NextOf p\<rparr>
                   else if i_pos i = p_next then i\<lparr>i_pos := Some p\<rparr> else i) }"

definition list_node_create :: "'a xlist \<Rightarrow> slot \<Rightarrow> 'a option \<Rightarrow> 'a xlist option" where
  "list_node_create l0 pp x = do {
     xassert (l_magic l0 = LIST_MAGIC);
     xassert (x \<noteq> None);
     let l = (if l_free_nodes l0 = None then list_node_alloc l0 else l0);
     p \<leftarrow> l_free_nodes l;
     nd \<leftarrow> l_mem l p;
     let l = l\<lparr>l_free_nodes := n_next nd, l_mem := (l_mem l)(p \<mapsto> nd\<lparr>n_data := x\<rparr>)\<rparr>;
     p_next \<leftarrow> slot_get l pp;
     l \<leftarrow> slot_put l (NextOf p) p_next;
     let l = (if p_next = None then l\<lparr>l_tail := NextOf p\<rparr> else l);
     l \<leftarrow> slot_put l pp (Some p);
     let l = l\<lparr>l_count := l_count l + 1\<rparr>;
     itrs \<leftarrow> map_itrs (create_itr l pp p p_next) (l_itrs l);
     Some (l\<lparr>l_itrs := itrs\<rparr>) }"

definition destroy_itr :: "'a xlist \<Rightarrow> slot \<Rightarrow> addr \<Rightarrow> addr option \<Rightarrow> list_itr \<Rightarrow> list_itr option" where
  "destroy_itr l pp p p_next i = do {
     xassert (i_magic i = LIST_ITR_MAGIC);
     itr_assert l (if i_pos i = Some p then i\<lparr>i_pos := p_next, i_prev := pp\<rparr>
                   else if i_prev i = NextOf p then i\<lparr>i_prev := pp\<rparr> else i) }"

definition list_node_destroy :: "'a xlist \<Rightarrow> slot \<Rightarrow> ('a option \<times> 'a xlist) option" where
  "list_node_destroy l pp = do {
     xassert (l_magic l = LIST_MAGIC);
     po \<leftarrow> slot_get l pp;
     case po of
       None \<Rightarrow> Some (None, l)
     | Some p \<Rightarrow> do {
         nd \<leftarrow> l_mem l p;
         l \<leftarrow> slot_put l pp (n_next nd);
         let l = (if n_next nd = None then l\<lparr>l_tail := pp\<rparr> else l);
         let l = l\<lparr>l_count := l_count l - 1\<rparr>;
         itrs \<leftarrow> map_itrs (destroy_itr l pp p (n_next nd)) (l_itrs l);
         let l = l\<lparr>l_itrs := itrs\<rparr>;
         l \<leftarrow> slot_put l (NextOf p) (l_free_nodes l);
         Some (n_data nd, l\<lparr>l_free_nodes := Some p\<rparr>) } }"

text \<open>\<^verbatim>\<open>if (l->fDel) l->fDel(v);\<close>\<close>

definition call_fDel :: "'a \<Rightarrow> 'a xlist \<Rightarrow> 'a xlist" where
  "call_fDel v l = (if l_fDel l = None then l else l\<lparr>l_deleted := l_deleted l @ [v]\<rparr>)"

subsection \<open>Whole-list operations\<close>

definition list_create :: "nat option \<Rightarrow> 'a xlist" where
  "list_create f = \<lparr>l_magic = LIST_MAGIC, l_count = 0, l_head = None, l_tail = Head, l_itrs = [], l_fDel = f,
     l_free_nodes = Some (0, 0), l_node_allocations = None,
     l_mem = (\<lambda>(p, i). if p = 0 \<and> i < nodes_in_page then Some (page_nodes 0 i) else None),
     l_pages = 0, l_deleted = []\<rparr>"

partial_function (option) destroy_data :: "'a xlist \<Rightarrow> addr option \<Rightarrow> 'a xlist option" where
  "destroy_data l p = (case p of
     None \<Rightarrow> Some l
   | Some a \<Rightarrow> do {
       nd \<leftarrow> l_mem l a;
       destroy_data (case n_data nd of None \<Rightarrow> l | Some v \<Rightarrow> call_fDel v l) (n_next nd) })"

text \<open>\<^verbatim>\<open>xfree\<close> of a page: its nodes are gone, and freeing what is not the start of a page is an error.\<close>

definition free_page :: "'a xlist \<Rightarrow> addr \<Rightarrow> 'a xlist option" where
  "free_page l a = (case a of (pg, i) \<Rightarrow> do {
     xassert (i = 0 \<and> 0 < pg \<and> l_mem l (pg, 0) \<noteq> None);
     Some (l\<lparr>l_mem := (\<lambda>b. if fst b = pg then None else l_mem l b)\<rparr>) })"

partial_function (option) destroy_pages :: "'a xlist \<Rightarrow> addr option \<Rightarrow> 'a xlist option" where
  "destroy_pages l p = (case p of
     None \<Rightarrow> Some l
   | Some a \<Rightarrow> do {
       nd \<leftarrow> l_mem l a;
       l' \<leftarrow> free_page l a;
       destroy_pages l' (n_next nd) })"

definition list_destroy :: "'a xlist \<Rightarrow> 'a xlist option" where
  "list_destroy l = do {
     xassert (l_magic l = LIST_MAGIC);
     map_itrs (\<lambda>i. do { xassert (i_magic i = LIST_ITR_MAGIC); Some i }) (l_itrs l);
     l1 \<leftarrow> destroy_data (l\<lparr>l_itrs := []\<rparr>) (l_head l);
     l2 \<leftarrow> destroy_pages l1 (l_node_allocations l1);
     Some (l2\<lparr>l_magic := 0x21524110\<rparr>) }"

definition list_is_empty :: "'a xlist \<Rightarrow> bool option" where
  "list_is_empty l = do { xassert (l_magic l = LIST_MAGIC); Some (l_count l = 0) }"

definition list_count :: "'a xlist option \<Rightarrow> int option" where
  "list_count lo = (case lo of None \<Rightarrow> Some 0 | Some l \<Rightarrow> do { xassert (l_magic l = LIST_MAGIC); Some (l_count l) })"

definition list_append :: "'a xlist \<Rightarrow> 'a option \<Rightarrow> 'a xlist option" where
  "list_append l x = do {
     xassert (x \<noteq> None); xassert (l_magic l = LIST_MAGIC);
     list_node_create l (l_tail l) x }"

partial_function (option) append_loop :: "'a xlist \<Rightarrow> 'a xlist \<Rightarrow> addr option \<Rightarrow> int \<Rightarrow> ('a xlist \<times> int) option" where
  "append_loop l sub p n = (case p of
     None \<Rightarrow> Some (l, n)
   | Some a \<Rightarrow> do {
       nd \<leftarrow> l_mem sub a;
       l' \<leftarrow> list_node_create l (l_tail l) (n_data nd);
       append_loop l' sub (n_next nd) (n + 1) })"

definition list_append_list :: "'a xlist \<Rightarrow> 'a xlist \<Rightarrow> ('a xlist \<times> int) option" where
  "list_append_list l sub = do {
     xassert (l_magic l = LIST_MAGIC); xassert (l_fDel l = None); xassert (l_magic sub = LIST_MAGIC);
     append_loop l sub (l_head sub) 0 }"

definition list_shallow_copy :: "'a xlist \<Rightarrow> 'a xlist option" where
  "list_shallow_copy l = do { (m, n) \<leftarrow> list_append_list (list_create None) l; Some m }"

partial_function (option) transfer_loop :: "'a xlist \<Rightarrow> 'a xlist \<Rightarrow> int \<Rightarrow> int \<Rightarrow> ('a xlist \<times> 'a xlist \<times> int) option" where
  "transfer_loop l sub mx n =
     (if mx = 0 \<or> n \<le> mx then do {
        (v, sub') \<leftarrow> list_node_destroy sub Head;
        if v = None then Some (l, sub', n)
        else do {
          l' \<leftarrow> list_node_create l (l_tail l) v;
          transfer_loop l' sub' mx (n + 1) } }
      else Some (l, sub, n))"

definition list_transfer_max :: "'a xlist \<Rightarrow> 'a xlist \<Rightarrow> int \<Rightarrow> ('a xlist \<times> 'a xlist \<times> int) option" where
  "list_transfer_max l sub mx = do {
     xassert (l_magic l = LIST_MAGIC); xassert (l_magic sub = LIST_MAGIC); xassert (l_fDel l = l_fDel sub);
     transfer_loop l sub mx 0 }"

definition list_transfer :: "'a xlist \<Rightarrow> 'a xlist \<Rightarrow> ('a xlist \<times> 'a xlist \<times> int) option" where
  "list_transfer l sub = list_transfer_max l sub 0"

partial_function (option) match_loop :: "('a \<Rightarrow> bool) \<Rightarrow> 'a xlist \<Rightarrow> 'a xlist \<Rightarrow> slot \<Rightarrow> int
    \<Rightarrow> ('a xlist \<times> 'a xlist \<times> int) option" where
  "match_loop f l sub pp n = do {
     po \<leftarrow> slot_get l pp;
     case po of
       None \<Rightarrow> Some (l, sub, n)
     | Some a \<Rightarrow> do {
         nd \<leftarrow> l_mem l a;
         x \<leftarrow> n_data nd;
         if f x then do {
           (v, l') \<leftarrow> list_node_destroy l pp;
           sub' \<leftarrow> list_node_create sub (l_tail sub) v;
           match_loop f l' sub' pp (if v \<noteq> None then n + 1 else n) }
         else match_loop f l sub (NextOf a) n } }"

definition list_transfer_match :: "'a xlist \<Rightarrow> 'a xlist \<Rightarrow> ('a \<Rightarrow> bool) \<Rightarrow> ('a xlist \<times> 'a xlist \<times> int) option" where
  "list_transfer_match l sub f = do {
     xassert (l_magic l = LIST_MAGIC); xassert (l_magic sub = LIST_MAGIC); xassert (l_fDel l = l_fDel sub);
     match_loop f l sub Head 0 }"

partial_function (option) find_loop :: "'a xlist \<Rightarrow> ('a \<Rightarrow> bool) \<Rightarrow> addr option \<Rightarrow> 'a option option" where
  "find_loop l f p = (case p of
     None \<Rightarrow> Some None
   | Some a \<Rightarrow> do {
       nd \<leftarrow> l_mem l a;
       x \<leftarrow> n_data nd;
       if f x then Some (Some x) else find_loop l f (n_next nd) })"

definition list_find_first_locked :: "'a xlist \<Rightarrow> ('a \<Rightarrow> bool) \<Rightarrow> 'a option option" where
  "list_find_first_locked l f = find_loop l f (l_head l)"

definition list_find_first :: "'a xlist \<Rightarrow> ('a \<Rightarrow> bool) \<Rightarrow> 'a option option" where
  "list_find_first l f = do { xassert (l_magic l = LIST_MAGIC); list_find_first_locked l f }"

partial_function (option) unique_loop :: "('a \<Rightarrow> 'a \<Rightarrow> bool) \<Rightarrow> 'a xlist \<Rightarrow> 'a xlist \<Rightarrow> slot \<Rightarrow> int
    \<Rightarrow> ('a xlist \<times> 'a xlist \<times> int) option" where
  "unique_loop f l sub pp n = do {
     po \<leftarrow> slot_get sub pp;
     case po of
       None \<Rightarrow> Some (l, sub, n)
     | Some a \<Rightarrow> do {
         nd \<leftarrow> l_mem sub a;
         v \<leftarrow> n_data nd;
         r \<leftarrow> list_find_first_locked l (\<lambda>x. f x v);
         if r = None then do {
           l' \<leftarrow> list_node_create l (l_tail l) (Some v);
           (u, sub') \<leftarrow> list_node_destroy sub pp;
           unique_loop f l' sub' pp (n + 1) }
         else unique_loop f l sub (NextOf a) n } }"

definition list_transfer_unique :: "'a xlist \<Rightarrow> ('a \<Rightarrow> 'a \<Rightarrow> bool) \<Rightarrow> 'a xlist \<Rightarrow> ('a xlist \<times> 'a xlist \<times> int) option" where
  "list_transfer_unique l f sub = do {
     xassert (l_magic l = LIST_MAGIC); xassert (l_magic sub = LIST_MAGIC); xassert (l_fDel l = l_fDel sub);
     unique_loop f l sub Head 0 }"

subsection \<open>Removing by search\<close>

partial_function (option) remove_first_loop :: "'a xlist \<Rightarrow> ('a \<Rightarrow> bool) \<Rightarrow> slot \<Rightarrow> ('a option \<times> 'a xlist) option" where
  "remove_first_loop l f pp = do {
     po \<leftarrow> slot_get l pp;
     case po of
       None \<Rightarrow> Some (None, l)
     | Some a \<Rightarrow> do {
         nd \<leftarrow> l_mem l a;
         x \<leftarrow> n_data nd;
         if f x then list_node_destroy l pp else remove_first_loop l f (NextOf a) } }"

definition list_remove_first :: "'a xlist \<Rightarrow> ('a \<Rightarrow> bool) \<Rightarrow> ('a option \<times> 'a xlist) option" where
  "list_remove_first l f = do { xassert (l_magic l = LIST_MAGIC); remove_first_loop l f Head }"

partial_function (option) delete_all_loop :: "'a xlist \<Rightarrow> ('a \<Rightarrow> bool) \<Rightarrow> slot \<Rightarrow> int \<Rightarrow> ('a xlist \<times> int) option" where
  "delete_all_loop l f pp n = do {
     po \<leftarrow> slot_get l pp;
     case po of
       None \<Rightarrow> Some (l, n)
     | Some a \<Rightarrow> do {
         nd \<leftarrow> l_mem l a;
         x \<leftarrow> n_data nd;
         if f x then do {
           (vo, l') \<leftarrow> list_node_destroy l pp;
           case vo of
             None \<Rightarrow> delete_all_loop l' f pp n
           | Some v \<Rightarrow> delete_all_loop (call_fDel v l') f pp (n + 1) }
         else delete_all_loop l f (NextOf a) n } }"

definition list_delete_all :: "'a xlist \<Rightarrow> ('a \<Rightarrow> bool) \<Rightarrow> ('a xlist \<times> int) option" where
  "list_delete_all l f = do { xassert (l_magic l = LIST_MAGIC); delete_all_loop l f Head 0 }"

partial_function (option) delete_first_loop :: "'a xlist \<Rightarrow> ('a \<Rightarrow> int) \<Rightarrow> slot \<Rightarrow> ('a xlist \<times> int) option" where
  "delete_first_loop l f pp = do {
     po \<leftarrow> slot_get l pp;
     case po of
       None \<Rightarrow> Some (l, 0)
     | Some a \<Rightarrow> do {
         nd \<leftarrow> l_mem l a;
         x \<leftarrow> n_data nd;
         if f x > 0 then do {
           (vo, l') \<leftarrow> list_node_destroy l pp;
           Some (case vo of None \<Rightarrow> l' | Some v \<Rightarrow> call_fDel v l', 1) }
         else if f x < 0 then Some (l, -1)
         else delete_first_loop l f (NextOf a) } }"

definition list_delete_first :: "'a xlist \<Rightarrow> ('a \<Rightarrow> int) \<Rightarrow> ('a xlist \<times> int) option" where
  "list_delete_first l f = do { xassert (l_magic l = LIST_MAGIC); delete_first_loop l f Head }"

partial_function (option) delete_ptr_loop :: "'a xlist \<Rightarrow> 'a \<Rightarrow> slot \<Rightarrow> ('a xlist \<times> int) option" where
  "delete_ptr_loop l key pp = do {
     po \<leftarrow> slot_get l pp;
     case po of
       None \<Rightarrow> Some (l, 0)
     | Some a \<Rightarrow> do {
         nd \<leftarrow> l_mem l a;
         if n_data nd = Some key then do {
           (vo, l') \<leftarrow> list_node_destroy l pp;
           case vo of
             None \<Rightarrow> delete_ptr_loop l' key pp
           | Some v \<Rightarrow> Some (call_fDel v l', 1) }
         else delete_ptr_loop l key (NextOf a) } }"

definition list_delete_ptr :: "'a xlist \<Rightarrow> 'a option \<Rightarrow> ('a xlist \<times> int) option" where
  "list_delete_ptr l key = do { k \<leftarrow> key; xassert (l_magic l = LIST_MAGIC); delete_ptr_loop l k Head }"

subsection \<open>Visiting, flushing, stack operations\<close>

text \<open>The callback gets the data and a state of the caller and returns the new state with its code.\<close>

partial_function (option) for_each_loop :: "'a xlist \<Rightarrow> ('a \<Rightarrow> 's \<Rightarrow> 's \<times> int) \<Rightarrow> bool \<Rightarrow> int \<Rightarrow> addr option
    \<Rightarrow> int \<Rightarrow> bool \<Rightarrow> 's \<Rightarrow> (int \<times> bool \<times> 's) option" where
  "for_each_loop l f break_on_fail mx p n failed s =
     (if mx = -1 \<or> n < mx then (case p of
        None \<Rightarrow> Some (n, failed, s)
      | Some a \<Rightarrow> do {
          nd \<leftarrow> l_mem l a;
          x \<leftarrow> n_data nd;
          let (s', rc) = f x s;
          if rc < 0 then
            if break_on_fail then Some (n + 1, True, s')
            else for_each_loop l f break_on_fail mx (n_next nd) (n + 1) True s'
          else for_each_loop l f break_on_fail mx (n_next nd) (n + 1) failed s' })
      else Some (n, failed, s))"

text \<open>The result, the new value of \<open>max\<close> and the caller's state.\<close>

definition list_for_each_max :: "'a xlist \<Rightarrow> int \<Rightarrow> ('a \<Rightarrow> 's \<Rightarrow> 's \<times> int) \<Rightarrow> 's \<Rightarrow> bool \<Rightarrow> (int \<times> int \<times> 's) option" where
  "list_for_each_max l mx f arg break_on_fail = do {
     xassert (l_magic l = LIST_MAGIC);
     (n, failed, s) \<leftarrow> for_each_loop l f break_on_fail mx (l_head l) 0 False arg;
     Some (if failed then - n else n, l_count l - n, s) }"

definition list_for_each :: "'a xlist \<Rightarrow> ('a \<Rightarrow> 's \<Rightarrow> 's \<times> int) \<Rightarrow> 's \<Rightarrow> (int \<times> 's) option" where
  "list_for_each l f arg = do { (n, mx, s) \<leftarrow> list_for_each_max l (-1) f arg True; Some (n, s) }"

definition list_for_each_nobreak :: "'a xlist \<Rightarrow> ('a \<Rightarrow> 's \<Rightarrow> 's \<times> int) \<Rightarrow> 's \<Rightarrow> (int \<times> 's) option" where
  "list_for_each_nobreak l f arg = do { (n, mx, s) \<leftarrow> list_for_each_max l (-1) f arg False; Some (n, s) }"

partial_function (option) flush_loop :: "'a xlist \<Rightarrow> int \<Rightarrow> int \<Rightarrow> int \<Rightarrow> ('a xlist \<times> int) option" where
  "flush_loop l mx i n =
     (if mx < 0 \<or> i < mx then do {
        po \<leftarrow> slot_get l Head;
        if po = None then Some (l, n)
        else do {
          (vo, l') \<leftarrow> list_node_destroy l Head;
          case vo of
            None \<Rightarrow> flush_loop l' mx (i + 1) n
          | Some v \<Rightarrow> flush_loop (call_fDel v l') mx (i + 1) (n + 1) } }
      else Some (l, n))"

definition list_flush_max :: "'a xlist \<Rightarrow> int \<Rightarrow> ('a xlist \<times> int) option" where
  "list_flush_max l mx = do { xassert (l_magic l = LIST_MAGIC); flush_loop l mx 0 0 }"

definition list_flush :: "'a xlist \<Rightarrow> ('a xlist \<times> int) option" where
  "list_flush l = list_flush_max l (-1)"

definition list_push :: "'a xlist \<Rightarrow> 'a option \<Rightarrow> 'a xlist option" where
  "list_push l x = do {
     xassert (x \<noteq> None); xassert (l_magic l = LIST_MAGIC);
     list_node_create l Head x }"

definition list_pop :: "'a xlist \<Rightarrow> ('a option \<times> 'a xlist) option" where
  "list_pop l = do { xassert (l_magic l = LIST_MAGIC); list_node_destroy l Head }"

definition list_peek :: "'a xlist \<Rightarrow> 'a option option" where
  "list_peek l = do {
     xassert (l_magic l = LIST_MAGIC);
     case l_head l of None \<Rightarrow> Some None | Some a \<Rightarrow> map_option n_data (l_mem l a) }"

subsection \<open>Reordering\<close>

text \<open>Both put all iterators back to the head.\<close>

definition reset_itrs :: "'a xlist \<Rightarrow> 'a xlist option" where
  "reset_itrs l = do {
     itrs \<leftarrow> map_itrs (\<lambda>i. do { xassert (i_magic i = LIST_ITR_MAGIC); Some (i\<lparr>i_pos := l_head l, i_prev := Head\<rparr>) }) (l_itrs l);
     Some (l\<lparr>l_itrs := itrs\<rparr>) }"

text \<open>\<open>v\<close> has room for \<open>lsize\<close> pointers; \<open>n\<close> of them are filled.\<close>

partial_function (option) sort_drain :: "'a xlist \<Rightarrow> 'a option list \<Rightarrow> nat \<Rightarrow> ('a xlist \<times> 'a option list \<times> nat) option" where
  "sort_drain l v n = do {
     (e, l') \<leftarrow> list_node_destroy l Head;
     if e = None then Some (l', v, n)
     else do { v' \<leftarrow> mem_set v n e; sort_drain l' v' (Suc n) } }"

text \<open>\<open>qsort\<close> of the C library is a parameter: it reorders the first \<open>n\<close> pointers.\<close>

definition list_sort :: "('a option list \<Rightarrow> 'a option list) \<Rightarrow> 'a xlist \<Rightarrow> 'a xlist option" where
  "list_sort qsort l = do {
     xassert (l_magic l = LIST_MAGIC);
     if l_count l \<le> 1 then Some l
     else do {
       let lsize = nat (l_count l);
       (l, v, n) \<leftarrow> sort_drain l (replicate lsize None) 0;
       let v = qsort (take n v) @ drop n v;
       l \<leftarrow> for_upto (\<lambda>n l. do { e \<leftarrow> mem_get v n; list_node_create l (l_tail l) e }) 0 lsize l;
       reset_itrs l } }"

partial_function (option) flip_loop :: "'a xlist \<Rightarrow> addr option \<Rightarrow> addr option \<Rightarrow> ('a xlist \<times> addr option) option" where
  "flip_loop l prv cur = (case cur of
     None \<Rightarrow> Some (l, prv)
   | Some a \<Rightarrow> do {
       nd \<leftarrow> l_mem l a;
       l' \<leftarrow> slot_put l (NextOf a) prv;
       flip_loop l' cur (n_next nd) })"

definition list_flip :: "'a xlist \<Rightarrow> 'a xlist option" where
  "list_flip l = do {
     xassert (l_magic l = LIST_MAGIC);
     if l_count l \<le> 1 then Some l
     else do {
       let old_head = l_head l;
       (l, prv) \<leftarrow> flip_loop l None (l_head l);
       oh \<leftarrow> old_head;
       reset_itrs (l\<lparr>l_head := prv, l_tail := NextOf oh\<rparr>) } }"

subsection \<open>Iterators\<close>

text \<open>An iterator is known by the address \<open>k\<close> that \<open>xmalloc\<close> returned for it.\<close>

definition itr_get :: "'a xlist \<Rightarrow> nat \<Rightarrow> list_itr option" where
  "itr_get l k = do {
     i \<leftarrow> map_of (l_itrs l) k;
     xassert (i_magic i = LIST_ITR_MAGIC); xassert (l_magic l = LIST_MAGIC);
     Some i }"

definition itr_put :: "'a xlist \<Rightarrow> nat \<Rightarrow> list_itr \<Rightarrow> 'a xlist" where
  "itr_put l k i = l\<lparr>l_itrs := map (\<lambda>(k', i'). (k', if k' = k then i else i')) (l_itrs l)\<rparr>"

definition list_iterator_create :: "nat \<Rightarrow> 'a xlist \<Rightarrow> 'a xlist option" where
  "list_iterator_create k l = do {
     xassert (l_magic l = LIST_MAGIC);
     xassert (k \<notin> fst ` set (l_itrs l));
     Some (l\<lparr>l_itrs := (k, \<lparr>i_magic = LIST_ITR_MAGIC, i_pos = l_head l, i_prev = Head\<rparr>) # l_itrs l\<rparr>) }"

definition list_iterator_reset :: "'a xlist \<Rightarrow> nat \<Rightarrow> 'a xlist option" where
  "list_iterator_reset l k = do {
     i \<leftarrow> itr_get l k;
     Some (itr_put l k (i\<lparr>i_pos := l_head l, i_prev := Head\<rparr>)) }"

fun unlink_itr :: "nat \<Rightarrow> (nat \<times> list_itr) list \<Rightarrow> (nat \<times> list_itr) list option" where
  "unlink_itr k [] = Some []"
| "unlink_itr k ((k', i) # is) = do {
     xassert (i_magic i = LIST_ITR_MAGIC);
     if k' = k then Some is
     else do { is' \<leftarrow> unlink_itr k is; Some ((k', i) # is') } }"

definition list_iterator_destroy :: "'a xlist \<Rightarrow> nat \<Rightarrow> 'a xlist option" where
  "list_iterator_destroy l k = do {
     i \<leftarrow> itr_get l k;
     is \<leftarrow> unlink_itr k (l_itrs l);
     Some (l\<lparr>l_itrs := is\<rparr>) }"

definition list_next_locked :: "'a xlist \<Rightarrow> nat \<Rightarrow> ('a option \<times> 'a xlist) option" where
  "list_next_locked l k = do {
     i \<leftarrow> map_of (l_itrs l) k;
     let p = i_pos i;
     i \<leftarrow> (case p of None \<Rightarrow> Some i | Some a \<Rightarrow> do { nd \<leftarrow> l_mem l a; Some (i\<lparr>i_pos := n_next nd\<rparr>) });
     d \<leftarrow> slot_get l (i_prev i);
     i \<leftarrow> (if d \<noteq> p then do { a \<leftarrow> d; Some (i\<lparr>i_prev := NextOf a\<rparr>) } else Some i);
     v \<leftarrow> (case p of None \<Rightarrow> Some None | Some a \<Rightarrow> map_option n_data (l_mem l a));
     Some (v, itr_put l k i) }"

definition list_next :: "'a xlist \<Rightarrow> nat \<Rightarrow> ('a option \<times> 'a xlist) option" where
  "list_next l k = do { i \<leftarrow> itr_get l k; list_next_locked l k }"

definition list_peek_next :: "'a xlist \<Rightarrow> nat \<Rightarrow> 'a option option" where
  "list_peek_next l k = do {
     i \<leftarrow> itr_get l k;
     case i_pos i of None \<Rightarrow> Some None | Some a \<Rightarrow> map_option n_data (l_mem l a) }"

definition list_insert :: "'a xlist \<Rightarrow> nat \<Rightarrow> 'a option \<Rightarrow> 'a xlist option" where
  "list_insert l k x = do {
     xassert (x \<noteq> None);
     i \<leftarrow> itr_get l k;
     list_node_create l (i_prev i) x }"

partial_function (option) list_find_loop :: "'a xlist \<Rightarrow> nat \<Rightarrow> ('a \<Rightarrow> bool) \<Rightarrow> ('a option \<times> 'a xlist) option" where
  "list_find_loop l k f = do {
     (vo, l') \<leftarrow> list_next_locked l k;
     case vo of
       None \<Rightarrow> Some (None, l')
     | Some v \<Rightarrow> if f v then Some (Some v, l') else list_find_loop l' k f }"

definition list_find :: "'a xlist \<Rightarrow> nat \<Rightarrow> ('a \<Rightarrow> bool) \<Rightarrow> ('a option \<times> 'a xlist) option" where
  "list_find l k f = do { i \<leftarrow> itr_get l k; list_find_loop l k f }"

definition list_remove :: "'a xlist \<Rightarrow> nat \<Rightarrow> ('a option \<times> 'a xlist) option" where
  "list_remove l k = do {
     i \<leftarrow> itr_get l k;
     d \<leftarrow> slot_get l (i_prev i);
     if d \<noteq> i_pos i then list_node_destroy l (i_prev i) else Some (None, l) }"

definition list_delete_item :: "'a xlist \<Rightarrow> nat \<Rightarrow> ('a xlist \<times> int) option" where
  "list_delete_item l k = do {
     (vo, l') \<leftarrow> list_remove l k;
     case vo of None \<Rightarrow> Some (l', 0) | Some v \<Rightarrow> Some (call_fDel v l', 1) }"

end
