(* ===== verification/Xlist_Rep.thy ===== *)
theory Xlist_Rep
  imports Xlist
begin

text \<open>
  What a list of src/common/list.c represents: the sequence of its data and, for every live
  iterator, a cursor \<open>(j, k)\<close> with \<open>j\<close> the number of the link it holds and \<open>k\<close> the number of the next
  element. The representation relation says that the nodes of the list, the free nodes and the page
  heads are chains without sharing that use up every allocated node. Creating and removing a node
  are insertion and deletion on the sequence, with the cursors moved along.
\<close>

subsection \<open>Insertion and deletion in sequences\<close>

definition ins_at :: "nat \<Rightarrow> 'b \<Rightarrow> 'b list \<Rightarrow> 'b list" where
  "ins_at j x xs = take j xs @ x # drop j xs"

definition del_at :: "nat \<Rightarrow> 'b list \<Rightarrow> 'b list" where
  "del_at j xs = take j xs @ drop (Suc j) xs"

lemma length_ins_at [simp]: "length (ins_at j x xs) = Suc (length xs)"
  by (simp add: ins_at_def)

lemma length_del_at [simp]: "j < length xs \<Longrightarrow> length (del_at j xs) = length xs - 1"
  by (simp add: del_at_def)

lemma nth_ins_at: "j \<le> length xs \<Longrightarrow> ins_at j x xs ! k = (if k < j then xs ! k else if k = j then x else xs ! (k - 1))"
  by (auto simp: ins_at_def nth_append nth_Cons' min_def)

lemma nth_del_at: "j < length xs \<Longrightarrow> k < length xs - 1 \<Longrightarrow> del_at j xs ! k = (if k < j then xs ! k else xs ! Suc k)"
  by (auto simp: del_at_def nth_append min_def)

lemma set_ins_at [simp]: "set (ins_at j x xs) = insert x (set xs)"
proof -
  have "set xs = set (take j xs) \<union> set (drop j xs)" by (metis append_take_drop_id set_append)
  then show ?thesis by (auto simp: ins_at_def)
qed

lemma distinct_ins_at [simp]: "distinct (ins_at j x xs) \<longleftrightarrow> x \<notin> set xs \<and> distinct xs"
proof -
  have "distinct (ins_at j x xs) \<longleftrightarrow> distinct (x # (take j xs @ drop j xs))"
    unfolding ins_at_def distinct_append distinct.simps set_append list.set by blast
  then show ?thesis by (simp only: append_take_drop_id distinct.simps)
qed

lemma ins_at_0 [simp]: "ins_at 0 x xs = x # xs"
  by (simp add: ins_at_def)

lemma ins_at_length [simp]: "ins_at (length xs) x xs = xs @ [x]"
  by (simp add: ins_at_def)

lemma ins_at_split: "j < length xs \<Longrightarrow> xs = ins_at j (xs ! j) (del_at j xs)"
  by (simp add: ins_at_def del_at_def min_def id_take_nth_drop [symmetric])

lemma del_at_0 [simp]: "del_at 0 (x # xs) = xs"
  by (simp add: del_at_def)

lemma del_at_append [simp]: "del_at (length us) (us @ x # xs) = us @ xs"
  by (simp add: del_at_def)

lemma set_del_at: "j < length xs \<Longrightarrow> distinct xs \<Longrightarrow> set (del_at j xs) = set xs - {xs ! j}"
  by (metis distinct_ins_at ins_at_split insert_Diff_single insert_absorb set_ins_at Diff_insert_absorb)

lemma distinct_del_at: "j < length xs \<Longrightarrow> distinct xs \<Longrightarrow> distinct (del_at j xs)"
  by (metis distinct_ins_at ins_at_split)

subsection \<open>Links of a chain\<close>

definition ptr_at :: "addr list \<Rightarrow> nat \<Rightarrow> addr option" where
  "ptr_at ads k = (if k < length ads then Some (ads ! k) else None)"

definition slot_at :: "addr list \<Rightarrow> nat \<Rightarrow> slot" where
  "slot_at ads j = (if j = 0 then Head else NextOf (ads ! (j - 1)))"

lemma ptr_at_end [simp]: "length ads \<le> k \<Longrightarrow> ptr_at ads k = None"
  by (simp add: ptr_at_def)

lemma ptr_at_Nil [simp]: "ptr_at [] k = None"
  by (simp add: ptr_at_def)

lemma ptr_at_Cons_0 [simp]: "ptr_at (a # ads) 0 = Some a"
  by (simp add: ptr_at_def)

lemma ptr_at_Cons_Suc [simp]: "ptr_at (a # ads) (Suc k) = ptr_at ads k"
  by (simp add: ptr_at_def)

lemma slot_at_0 [simp]: "slot_at ads 0 = Head"
  by (simp add: slot_at_def)

lemma slot_at_Suc: "slot_at ads (Suc j) = NextOf (ads ! j)"
  by (simp add: slot_at_def)

lemma ptr_at_eq_None [simp]: "ptr_at ads k = None \<longleftrightarrow> length ads \<le> k"
  by (auto simp: ptr_at_def)

lemma ptr_at_eq_iff: "distinct ads \<Longrightarrow> k \<le> length ads \<Longrightarrow> j \<le> length ads \<Longrightarrow> ptr_at ads k = ptr_at ads j \<longleftrightarrow> k = j"
  by (auto simp: ptr_at_def nth_eq_iff_index_eq)

lemma slot_at_eq_iff: "distinct ads \<Longrightarrow> k \<le> length ads \<Longrightarrow> j \<le> length ads \<Longrightarrow> slot_at ads k = slot_at ads j \<longleftrightarrow> k = j"
  by (cases k; cases j) (auto simp: slot_at_Suc nth_eq_iff_index_eq)

lemma ptr_at_ins: "j \<le> length ads \<Longrightarrow> ptr_at (ins_at j p ads) k = (if k < j then ptr_at ads k else if k = j then Some p else ptr_at ads (k - 1))"
  by (auto simp: ptr_at_def nth_ins_at)

lemma slot_at_ins: "j \<le> length ads \<Longrightarrow> slot_at (ins_at j p ads) k = (if k \<le> j then slot_at ads k else if k = Suc j then NextOf p else slot_at ads (k - 1))"
  by (cases k) (auto simp: slot_at_def nth_ins_at)

lemma ptr_at_del: "j < length ads \<Longrightarrow> ptr_at (del_at j ads) k = (if k < j then ptr_at ads k else ptr_at ads (Suc k))"
  by (auto simp: ptr_at_def nth_del_at)

lemma slot_at_del: "j < length ads \<Longrightarrow> k < length ads \<Longrightarrow> slot_at (del_at j ads) k = (if k \<le> j then slot_at ads k else slot_at ads (Suc k))"
  by (cases k) (auto simp: slot_at_def nth_del_at)

subsection \<open>The representation relation\<close>

definition linked :: "(addr \<Rightarrow> 'a list_node option) \<Rightarrow> addr list \<Rightarrow> bool" where
  "linked m ads \<longleftrightarrow> (\<forall>k<length ads. map_option n_next (m (ads ! k)) = Some (ptr_at ads (Suc k)))"

definition page_heads :: "nat \<Rightarrow> addr list" where
  "page_heads n = map (\<lambda>pg. (pg, 0)) (rev [1..<Suc n])"

definition region :: "nat \<Rightarrow> addr set" where
  "region n = {(pg, i). pg \<le> n \<and> i < nodes_in_page}"

definition list_core :: "'a xlist \<Rightarrow> addr list \<Rightarrow> addr list \<Rightarrow> 'a list \<Rightarrow> bool" where
  "list_core l ads fs xs \<longleftrightarrow>
     l_magic l = LIST_MAGIC \<and> l_count l = int (length xs) \<and> length ads = length xs
   \<and> l_head l = ptr_at ads 0 \<and> l_tail l = slot_at ads (length ads)
   \<and> (\<forall>k<length ads. l_mem l (ads ! k) = Some \<lparr>n_data = Some (xs ! k), n_next = ptr_at ads (Suc k)\<rparr>)
   \<and> l_free_nodes l = ptr_at fs 0 \<and> linked (l_mem l) fs
   \<and> l_node_allocations l = ptr_at (page_heads (l_pages l)) 0 \<and> linked (l_mem l) (page_heads (l_pages l))
   \<and> distinct (ads @ fs @ page_heads (l_pages l))
   \<and> set (ads @ fs @ page_heads (l_pages l)) = region (l_pages l)
   \<and> (\<forall>a. l_mem l a \<noteq> None \<longleftrightarrow> a \<in> region (l_pages l))"

type_synonym cursor = "nat \<times> nat \<times> nat"

fun itr_at :: "addr list \<Rightarrow> nat \<times> list_itr \<Rightarrow> cursor \<Rightarrow> bool" where
  "itr_at ads (k, i) (k', jp, kp) \<longleftrightarrow> k = k' \<and> i_magic i = LIST_ITR_MAGIC
     \<and> i_pos i = ptr_at ads kp \<and> i_prev i = slot_at ads jp \<and> jp \<le> kp \<and> kp \<le> Suc jp \<and> kp \<le> length ads"

definition list_rep :: "'a xlist \<Rightarrow> addr list \<Rightarrow> addr list \<Rightarrow> 'a list \<Rightarrow> cursor list \<Rightarrow> bool" where
  "list_rep l ads fs xs cs \<longleftrightarrow> list_core l ads fs xs \<and> list_all2 (itr_at ads) (l_itrs l) cs \<and> distinct (map fst cs)"

lemmas list_coreD = list_core_def [THEN iffD1, rule_format]

lemma linked_Cons: "linked m (p # fs) \<longleftrightarrow> map_option n_next (m p) = Some (ptr_at fs 0) \<and> linked m fs"
proof -
  have "linked m (p # fs) \<longleftrightarrow> (\<forall>k<Suc (length fs). map_option n_next (m ((p # fs) ! k)) = Some (ptr_at (p # fs) (Suc k)))"
    by (simp add: linked_def)
  also have "\<dots> \<longleftrightarrow> map_option n_next (m p) = Some (ptr_at fs 0) \<and> linked m fs"
    by (subst all_simps [symmetric] All_less_Suc2)+ (simp add: linked_def)
  finally show ?thesis .
qed

lemma linked_cong: "(\<And>a. a \<in> set ads \<Longrightarrow> m a = m' a) \<Longrightarrow> linked m ads = linked m' ads"
  by (simp add: linked_def)

lemma core_slot_get:
  assumes "list_core l ads fs xs" "j \<le> length ads"
  shows "slot_get l (slot_at ads j) = Some (ptr_at ads j)"
  using assms by (cases j) (auto simp: slot_at_Suc list_core_def slot_get_def)

lemma core_node: "list_core l ads fs xs \<Longrightarrow> k < length ads
  \<Longrightarrow> l_mem l (ads ! k) = Some \<lparr>n_data = Some (xs ! k), n_next = ptr_at ads (Suc k)\<rparr>"
  by (simp add: list_core_def)

lemma core_deleted [simp]: "list_core (l\<lparr>l_deleted := d\<rparr>) = list_core l"
  by (intro ext) (simp add: list_core_def)

lemma core_itrs [simp]: "list_core (l\<lparr>l_itrs := is\<rparr>) = list_core l"
  by (intro ext) (simp add: list_core_def)

subsection \<open>Creating a node\<close>

lemma core_facts:
  assumes "list_core l ads fs xs"
  shows "distinct ads" "distinct fs" "set ads \<inter> set fs = {}" "set ads \<inter> set (page_heads (l_pages l)) = {}"
    "set fs \<inter> set (page_heads (l_pages l)) = {}" "length ads = length xs" "l_magic l = LIST_MAGIC"
    "l_count l = int (length xs)" "l_head l = ptr_at ads 0" "l_tail l = slot_at ads (length ads)"
    "l_free_nodes l = ptr_at fs 0"
  using assms unfolding list_core_def distinct_append set_append by auto

lemma core_dom: "list_core l ads fs xs \<Longrightarrow> l_mem l a \<noteq> None \<longleftrightarrow> a \<in> region (l_pages l)"
  unfolding list_core_def by blast

definition created :: "'a xlist \<Rightarrow> addr list \<Rightarrow> addr \<Rightarrow> addr list \<Rightarrow> 'a list \<Rightarrow> nat \<Rightarrow> 'a \<Rightarrow> 'a xlist" where
  "created l ads p fs xs j v = l\<lparr>l_free_nodes := ptr_at fs 0,
     l_mem := (\<lambda>a. if 0 < j \<and> a = ads ! (j - 1) then Some \<lparr>n_data = Some (xs ! (j - 1)), n_next = Some p\<rparr>
                   else if a = p then Some \<lparr>n_data = Some v, n_next = ptr_at ads j\<rparr>
                   else l_mem l a),
     l_head := (if j = 0 then Some p else l_head l),
     l_tail := (if j = length ads then NextOf p else l_tail l),
     l_count := l_count l + 1\<rparr>"

lemma core_created:
  assumes c: "list_core l ads (p # fs) xs" and j: "j \<le> length ads"
  shows "list_core (created l ads p fs xs j v) (ins_at j p ads) fs (ins_at j v xs)"
proof -
  note f = core_facts [OF c]
  let ?l = "created l ads p fs xs j v"
  have pn: "p \<notin> set ads" using f(3) by auto
  have inj: "ads ! k = ads ! i \<longleftrightarrow> k = i" if "k < length ads" "i < length ads" for k i
    using f(1) that by (simp add: nth_eq_iff_index_eq)
  have mem: "l_mem ?l a = l_mem l a" if "a \<notin> set ads" "a \<noteq> p" for a
    using that j by (auto simp: created_def)
  have nodes: "l_mem ?l (ins_at j p ads ! k) = Some \<lparr>n_data = Some (ins_at j v xs ! k), n_next = ptr_at (ins_at j p ads) (Suc k)\<rparr>"
    if k: "k < Suc (length ads)" for k
  proof -
    have ne: "ads ! i \<noteq> p" if "i < length ads" for i using pn that nth_mem by blast
    consider "k < j" "Suc k < j" | "k < j" "Suc k = j" | "k = j" | "j < k" by linarith
    then show ?thesis
    proof cases
      case 1
      then have "k < length ads" using j by simp
      with 1 j show ?thesis
        using core_node [OF c, of k] ne [of k] inj [of k "j - 1"] f(6) by (simp add: created_def nth_ins_at ptr_at_ins)
    next
      case 2
      then have "k < length ads" "k = j - 1" using j by auto
      with 2 j show ?thesis
        using ne [of k] f(6) by (simp add: created_def nth_ins_at ptr_at_ins)
    next
      case 3
      moreover have "p \<noteq> ads ! (j - 1)" if "0 < j"
      proof -
        have "j - 1 < length ads" using j that by linarith
        from ne [OF this] show ?thesis by simp
      qed
      ultimately show ?thesis using j f(6) by (auto simp: created_def nth_ins_at ptr_at_ins)
    next
      case 4
      then obtain i where i: "k = Suc i" "j \<le> i" by (cases k) auto
      with k have "i < length ads" by simp
      with i j show ?thesis
        using core_node [OF c, of i] ne [of i] inj [of i "j - 1"] f(6) by (auto simp: created_def nth_ins_at ptr_at_ins)
    qed
  qed
  have "linked (l_mem ?l) fs = linked (l_mem l) fs"
    by (rule linked_cong, rule mem) (use f(2,3) in auto)
  moreover have "linked (l_mem ?l) (page_heads (l_pages l)) = linked (l_mem l) (page_heads (l_pages l))"
    by (rule linked_cong, rule mem) (use f(4,5) in auto)
  ultimately have lk: "linked (l_mem ?l) fs" "linked (l_mem ?l) (page_heads (l_pages l))"
    using c by (simp_all add: list_core_def linked_Cons)
  have reg: "p \<in> region (l_pages l)" "set ads \<subseteq> region (l_pages l)"
    using c by (auto simp: list_core_def)
  have dm: "l_mem ?l a \<noteq> None \<longleftrightarrow> a \<in> region (l_pages l)" for a
  proof (cases "a = p \<or> (0 < j \<and> a = ads ! (j - 1))")
    case True
    then have "a \<in> region (l_pages l)" using reg j by auto
    with True show ?thesis by (auto simp: created_def)
  next
    case False
    then have "l_mem ?l a = l_mem l a" by (auto simp: created_def)
    with core_dom [OF c, of a] show ?thesis by simp
  qed
  show ?thesis
    unfolding list_core_def
  proof (intro conjI)
    show "l_tail ?l = slot_at (ins_at j p ads) (length (ins_at j p ads))"
      using f j by (auto simp: created_def slot_at_ins)
    show "l_head ?l = ptr_at (ins_at j p ads) 0" using f j by (simp add: created_def ptr_at_ins)
    show "\<forall>k<length (ins_at j p ads). l_mem ?l (ins_at j p ads ! k)
        = Some \<lparr>n_data = Some (ins_at j v xs ! k), n_next = ptr_at (ins_at j p ads) (Suc k)\<rparr>"
      using nodes by simp
    show "distinct (ins_at j p ads @ fs @ page_heads (l_pages ?l))"
      using c by (auto simp: list_core_def created_def)
    show "set (ins_at j p ads @ fs @ page_heads (l_pages ?l)) = region (l_pages ?l)"
      using c by (auto simp: list_core_def created_def)
    show "\<forall>a. l_mem ?l a \<noteq> None \<longleftrightarrow> a \<in> region (l_pages ?l)" using dm by (simp add: created_def)
    show "linked (l_mem ?l) fs" by (rule lk)
    show "linked (l_mem ?l) (page_heads (l_pages ?l))" using lk(2) by (simp add: created_def)
    show "l_node_allocations ?l = ptr_at (page_heads (l_pages ?l)) 0" using c by (simp add: list_core_def created_def)
  qed (use f in \<open>simp_all add: created_def\<close>)
qed

text \<open>The cursors after an insertion at link \<open>j\<close>.\<close>

fun cur_ins :: "nat \<Rightarrow> cursor \<Rightarrow> cursor" where
  "cur_ins j (k, jp, kp) = (if jp = j then (k, Suc jp, Suc kp) else if kp \<le> j then (k, jp, kp) else (k, Suc jp, Suc kp))"

lemma map_itrs_rel:
  assumes "list_all2 P is cs"
    and "\<And>i c. (i, c) \<in> set (zip is cs) \<Longrightarrow> P i c \<Longrightarrow> \<exists>i'. f (snd i) = Some i' \<and> Q (fst i, i') (g c)"
  shows "\<exists>is'. map_itrs f is = Some is' \<and> list_all2 Q is' (map g cs)"
  using assms
proof (induction rule: list_all2_induct)
  case (Cons i "is" c cs)
  obtain i' where "f (snd i) = Some i'" "Q (fst i, i') (g c)"
    using Cons.hyps(1) Cons.prems [of i c] by auto
  moreover obtain is' where "map_itrs f is = Some is'" "list_all2 Q is' (map g cs)"
    using Cons.IH Cons.prems by auto
  ultimately show ?case by (cases i) auto
qed simp

lemma itr_assert_at:
  assumes "l_head l = ptr_at ads 0" "linked (l_mem l) ads" "itr_at ads (k, i) (k', jp, kp)"
  shows "itr_assert l i = Some i"
proof -
  have "slot_get l (i_prev i) = Some (ptr_at ads jp)"
    using assms by (cases jp) (auto simp: slot_get_def slot_at_Suc linked_def)
  moreover have "kp = jp \<or> kp = Suc jp \<and> jp < length ads" using assms(3) by auto
  moreover have "map_option n_next (l_mem l (ads ! jp)) = Some (ptr_at ads (Suc jp))" if "jp < length ads"
    using assms(2) that by (simp add: linked_def)
  ultimately show ?thesis
    using assms(3) by (auto simp: itr_assert_def ptr_at_def)
qed

lemma core_linked: "list_core l ads fs xs \<Longrightarrow> linked (l_mem l) ads"
  by (simp add: list_core_def linked_def)

lemma create_itr_at:
  assumes c: "list_core (created l ads p fs xs j v) (ins_at j p ads) fs (ins_at j v xs)"
    and d: "distinct ads" and j: "j \<le> length ads" and i: "itr_at ads (k, i) cu"
  shows "\<exists>i'. create_itr (created l ads p fs xs j v) (slot_at ads j) p (ptr_at ads j) i = Some i'
    \<and> itr_at (ins_at j p ads) (k, i') (cur_ins j cu)"
proof -
  obtain k' jp kp where cu: "cu = (k', jp, kp)" by (cases cu)
  let ?i = "if i_prev i = slot_at ads j then i\<lparr>i_prev := NextOf p\<rparr>
            else if i_pos i = ptr_at ads j then i\<lparr>i_pos := Some p\<rparr> else i"
  have at: "itr_at (ins_at j p ads) (k, ?i) (cur_ins j cu)"
    using i j d unfolding cu
    by (auto simp: slot_at_eq_iff ptr_at_eq_iff slot_at_ins ptr_at_ins)
  obtain a b e where abe: "cur_ins j cu = (a, b, e)" by (cases "cur_ins j cu")
  have "itr_assert (created l ads p fs xs j v) ?i = Some ?i"
    using at unfolding abe by (rule itr_assert_at [OF core_facts(9) [OF c] core_linked [OF c]])
  with at i show ?thesis unfolding cu by (auto simp: create_itr_def)
qed

lemma core_alloc:
  assumes "list_core l ads [] xs"
  shows "list_core (list_node_alloc l) ads (map (Pair (Suc (l_pages l))) [1..<nodes_in_page]) xs"
proof -
  note f = core_facts [OF assms]
  let ?l = "list_node_alloc l" and ?pg = "Suc (l_pages l)" and ?fs = "map (Pair (Suc (l_pages l))) [1..<nodes_in_page]"
  have ni: "1 < nodes_in_page" by (simp add: nodes_in_page_def)
  have old: "l_mem ?l a = l_mem l a" if "a \<in> region (l_pages l)" for a
    using that by (auto simp: list_node_alloc_def region_def Let_def)
  have reg: "set ads \<subseteq> region (l_pages l)" "set (page_heads (l_pages l)) \<subseteq> region (l_pages l)"
    using assms by (auto simp: list_core_def)
  have heads: "page_heads ?pg = (?pg, 0) # page_heads (l_pages l)"
    by (simp add: page_heads_def)
  have "linked (l_mem ?l) (page_heads (l_pages l)) = linked (l_mem l) (page_heads (l_pages l))"
    by (rule linked_cong, rule old) (use reg in auto)
  then have lh: "linked (l_mem ?l) (page_heads ?pg)"
    using assms ni unfolding heads linked_Cons by (simp add: list_core_def list_node_alloc_def Let_def)
  have lf: "linked (l_mem ?l) ?fs"
    unfolding linked_def
  proof (intro allI impI)
    fix k assume "k < length ?fs"
    then have k: "Suc k < nodes_in_page" by simp
    then have "l_mem ?l (?fs ! k) = Some (page_nodes ?pg (Suc k))"
      by (simp add: list_node_alloc_def Let_def)
    with k show "map_option n_next (l_mem ?l (?fs ! k)) = Some (ptr_at ?fs (Suc k))"
      by (auto simp: page_nodes_def ptr_at_def)
  qed
  have nodes: "l_mem ?l (ads ! k) = Some \<lparr>n_data = Some (xs ! k), n_next = ptr_at ads (Suc k)\<rparr>" if "k < length ads" for k
    using core_node [OF assms that] old [OF subsetD [OF reg(1) nth_mem [OF that]]] by simp
  have fs_iff: "(pg, i) \<in> set ?fs \<longleftrightarrow> pg = ?pg \<and> 1 \<le> i \<and> i < nodes_in_page" for pg i by auto
  have rg: "region ?pg = insert (?pg, 0) (set ?fs) \<union> region (l_pages l)"
  proof (intro set_eqI)
    fix a :: addr
    obtain pg i where a: "a = (pg, i)" by (cases a)
    have "pg \<le> ?pg \<longleftrightarrow> pg \<le> l_pages l \<or> pg = ?pg" "i = 0 \<or> 1 \<le> i" by linarith+
    then show "a \<in> region ?pg \<longleftrightarrow> a \<in> insert (?pg, 0) (set ?fs) \<union> region (l_pages l)"
      unfolding a Un_iff insert_iff fs_iff using ni by (auto simp: region_def simp del: One_nat_def)
  qed
  have new: "insert (?pg, 0) (set ?fs) \<inter> region (l_pages l) = {}" by (auto simp: region_def)
  show ?thesis
    unfolding list_core_def
  proof (intro conjI)
    show "\<forall>k<length ads. l_mem ?l (ads ! k) = Some \<lparr>n_data = Some (xs ! k), n_next = ptr_at ads (Suc k)\<rparr>"
      using nodes by blast
    show "l_free_nodes ?l = ptr_at ?fs 0"
      using ni by (simp add: list_node_alloc_def ptr_at_def Let_def)
    show "l_node_allocations ?l = ptr_at (page_heads (l_pages ?l)) 0"
      by (simp add: list_node_alloc_def Let_def heads)
    show "linked (l_mem ?l) (page_heads (l_pages ?l))" using lh by (simp add: list_node_alloc_def Let_def)
    have "distinct ?fs" "(?pg, 0) \<notin> set ?fs" by (auto simp: distinct_map inj_on_def)
    moreover have "distinct (ads @ page_heads (l_pages l))" using assms by (simp add: list_core_def)
    ultimately have "distinct (ads @ ?fs @ page_heads ?pg)"
      using new reg unfolding heads by auto
    then show "distinct (ads @ ?fs @ page_heads (l_pages ?l))" by (simp add: list_node_alloc_def Let_def)
    have "set (ads @ page_heads (l_pages l)) = region (l_pages l)" using assms by (simp add: list_core_def)
    then have "set (ads @ ?fs @ page_heads ?pg) = region ?pg" unfolding heads rg by auto
    then show "set (ads @ ?fs @ page_heads (l_pages ?l)) = region (l_pages ?l)" by (simp add: list_node_alloc_def Let_def)
    have "l_mem ?l a \<noteq> None \<longleftrightarrow> a \<in> region ?pg" for a
    proof (cases "a \<in> region (l_pages l)")
      case True
      with core_dom [OF assms, of a] old [OF True] show ?thesis unfolding rg by simp
    next
      case False
      with core_dom [OF assms, of a] show ?thesis
        by (cases a) (auto simp: list_node_alloc_def Let_def region_def)
    qed
    then show "\<forall>a. l_mem ?l a \<noteq> None \<longleftrightarrow> a \<in> region (l_pages ?l)" by (simp add: list_node_alloc_def Let_def)
  qed (use f lf in \<open>simp_all add: list_node_alloc_def Let_def\<close>)
qed

lemma created_steps:
  assumes c: "list_core l ads (p # fs) xs" and j: "j \<le> length ads" and free: "l_free_nodes l0 = None \<longrightarrow> l = list_node_alloc l0"
    "l_free_nodes l0 \<noteq> None \<longrightarrow> l = l0"
  shows "list_node_create l0 (slot_at ads j) (Some v)
    = do { itrs \<leftarrow> map_itrs (create_itr (created l ads p fs xs j v) (slot_at ads j) p (ptr_at ads j)) (l_itrs l);
           Some ((created l ads p fs xs j v)\<lparr>l_itrs := itrs\<rparr>) }"
proof -
  note f = core_facts [OF c]
  have l: "(if l_free_nodes l0 = None then list_node_alloc l0 else l0) = l" using free by simp
  have m0: "l_magic l0 = LIST_MAGIC"
    using f(7) free by (cases "l_free_nodes l0") (auto simp: list_node_alloc_def Let_def)
  obtain dt where nd: "l_mem l p = Some \<lparr>n_data = dt, n_next = ptr_at fs 0\<rparr>"
    using c by (auto simp: list_core_def linked_Cons) (metis list_node.surjective old.unit.exhaust)
  have pn: "p \<notin> set ads" using f(3) by auto
  show ?thesis
  proof (cases j)
    case 0
    then show ?thesis
      using f nd
      unfolding list_node_create_def Let_def l
      by (cases l) (simp add: m0 slot_get_def slot_put_def created_def fun_upd_def cong: if_cong)
  next
    case (Suc i)
    then have "ads ! i \<noteq> p" "ads ! i \<noteq> p" using pn j nth_mem [of i ads] by auto
    moreover have "l_mem l (ads ! i) = Some \<lparr>n_data = Some (xs ! i), n_next = ptr_at ads j\<rparr>"
      using core_node [OF c, of i] j Suc by simp
    ultimately show ?thesis
      using f nd Suc j
      unfolding list_node_create_def Let_def l
      by (cases l) (simp add: m0 slot_get_def slot_put_def created_def slot_at_Suc fun_upd_def cong: if_cong)
  qed
qed

lemma created_same [simp]: "l_fDel (created l ads p fs xs j v) = l_fDel l" "l_deleted (created l ads p fs xs j v) = l_deleted l"
  "l_itrs (created l ads p fs xs j v) = l_itrs l"
  by (simp_all add: created_def)

lemma map_fst_cur [simp]: "map fst (map (cur_ins j) cs) = map fst cs" "map (fst \<circ> cur_ins j) cs = map fst cs"
  by (induction cs) auto

theorem node_create_rep:
  assumes r: "list_rep l ads fs xs cs" and j: "j \<le> length ads"
  shows "\<exists>l' p fs'. list_node_create l (slot_at ads j) (Some v) = Some l'
    \<and> list_rep l' (ins_at j p ads) fs' (ins_at j v xs) (map (cur_ins j) cs)
    \<and> l_fDel l' = l_fDel l \<and> l_deleted l' = l_deleted l"
proof -
  have c: "list_core l ads fs xs" using r by (simp add: list_rep_def)
  let ?l = "if l_free_nodes l = None then list_node_alloc l else l"
  have same: "l_itrs ?l = l_itrs l" "l_fDel ?l = l_fDel l" "l_deleted ?l = l_deleted l"
    by (simp_all add: list_node_alloc_def Let_def)
  have "\<exists>p fs'. list_core ?l ads (p # fs') xs"
  proof (cases fs)
    case Nil
    then have "l_free_nodes l = None" using core_facts(11) [OF c] by simp
    moreover have "map (Pair (Suc (l_pages l))) [1..<nodes_in_page] \<noteq> []"
      by (simp add: nodes_in_page_def)
    ultimately show ?thesis using core_alloc [of l ads xs] c Nil by (metis neq_Nil_conv)
  next
    case (Cons p fs')
    then show ?thesis using c core_facts(11) [OF c] by (intro exI [of _ p] exI [of _ fs']) simp
  qed
  then obtain p fs' where c1: "list_core ?l ads (p # fs') xs" by blast
  let ?c = "created ?l ads p fs' xs j v"
  have c2: "list_core ?c (ins_at j p ads) fs' (ins_at j v xs)" by (rule core_created [OF c1 j])
  have "list_all2 (itr_at ads) (l_itrs l) cs" using r by (simp add: list_rep_def)
  then obtain is' where "map_itrs (create_itr ?c (slot_at ads j) p (ptr_at ads j)) (l_itrs l) = Some is'"
    "list_all2 (itr_at (ins_at j p ads)) is' (map (cur_ins j) cs)"
    using map_itrs_rel [of "itr_at ads" "l_itrs l" cs "create_itr ?c (slot_at ads j) p (ptr_at ads j)" "itr_at (ins_at j p ads)" "cur_ins j"]
      create_itr_at [OF c2 core_facts(1) [OF c] j] by (metis prod.collapse)
  moreover have "list_node_create l (slot_at ads j) (Some v)
      = do { itrs \<leftarrow> map_itrs (create_itr ?c (slot_at ads j) p (ptr_at ads j)) (l_itrs ?l); Some (?c\<lparr>l_itrs := itrs\<rparr>) }"
    by (rule created_steps [OF c1 j]) auto
  ultimately show ?thesis
    using c2 r same
    by (intro exI [of _ "?c\<lparr>l_itrs := is'\<rparr>"] exI [of _ p] exI [of _ fs']) (simp add: list_rep_def)
qed

subsection \<open>Removing a node\<close>

definition unlinked :: "'a xlist \<Rightarrow> addr list \<Rightarrow> 'a list \<Rightarrow> nat \<Rightarrow> 'a xlist" where
  "unlinked l ads xs j = l\<lparr>
     l_mem := (\<lambda>a. if 0 < j \<and> a = ads ! (j - 1) then Some \<lparr>n_data = Some (xs ! (j - 1)), n_next = ptr_at ads (Suc j)\<rparr>
                   else l_mem l a),
     l_head := (if j = 0 then ptr_at ads 1 else l_head l),
     l_tail := (if Suc j = length ads then slot_at ads j else l_tail l),
     l_count := l_count l - 1\<rparr>"

definition destroyed :: "'a xlist \<Rightarrow> addr list \<Rightarrow> addr list \<Rightarrow> 'a list \<Rightarrow> nat \<Rightarrow> 'a xlist" where
  "destroyed l ads fs xs j = (let u = unlinked l ads xs j in
     u\<lparr>l_mem := (l_mem u)(ads ! j \<mapsto> \<lparr>n_data = Some (xs ! j), n_next = ptr_at fs 0\<rparr>), l_free_nodes := Some (ads ! j)\<rparr>)"

lemma unlinked_nodes:
  assumes c: "list_core l ads fs xs" and j: "j < length ads" and k: "k < length ads - 1"
  shows "l_mem (unlinked l ads xs j) (del_at j ads ! k)
    = Some \<lparr>n_data = Some (del_at j xs ! k), n_next = ptr_at (del_at j ads) (Suc k)\<rparr>"
proof -
  note f = core_facts [OF c]
  have inj: "ads ! m = ads ! i \<longleftrightarrow> m = i" if "m < length ads" "i < length ads" for m i
    using f(1) that by (simp add: nth_eq_iff_index_eq)
  consider "Suc k < j" | "Suc k = j" | "j \<le> k" by linarith
  then show ?thesis
  proof cases
    case 1
    then show ?thesis using core_node [OF c, of k] inj [of k "j - 1"] j k f(6)
      by (simp add: unlinked_def nth_del_at ptr_at_del)
  next
    case 2
    then have "k = j - 1" "0 < j" by auto
    with 2 show ?thesis using j k f(6) by (simp add: unlinked_def nth_del_at ptr_at_del)
  next
    case 3
    then show ?thesis using core_node [OF c, of "Suc k"] inj [of "Suc k" "j - 1"] j k f(6)
      by (auto simp: unlinked_def nth_del_at ptr_at_del)
  qed
qed

lemma core_destroyed:
  assumes c: "list_core l ads fs xs" and j: "j < length ads"
  shows "list_core (destroyed l ads fs xs j) (del_at j ads) (ads ! j # fs) (del_at j xs)"
proof -
  note f = core_facts [OF c]
  let ?l = "destroyed l ads fs xs j" and ?p = "ads ! j"
  have p: "?p \<in> set ads" using j by simp
  have sd: "set (del_at j ads) = set ads - {?p}" by (rule set_del_at [OF j f(1)])
  have mem: "l_mem ?l a = l_mem l a" if "a \<notin> set ads" for a
    using that j p by (auto simp: destroyed_def unlinked_def Let_def)
  have nodes: "l_mem ?l (del_at j ads ! k) = Some \<lparr>n_data = Some (del_at j xs ! k), n_next = ptr_at (del_at j ads) (Suc k)\<rparr>"
    if "k < length ads - 1" for k
  proof -
    have "del_at j ads ! k \<in> set (del_at j ads)" using that j by simp
    then have "del_at j ads ! k \<noteq> ?p" unfolding sd by blast
    then show ?thesis using unlinked_nodes [OF c j that] by (simp add: destroyed_def Let_def)
  qed
  have "linked (l_mem ?l) fs = linked (l_mem l) fs"
    by (rule linked_cong, rule mem) (use f(3) in auto)
  moreover have "linked (l_mem ?l) (page_heads (l_pages l)) = linked (l_mem l) (page_heads (l_pages l))"
    by (rule linked_cong, rule mem) (use f(4) in auto)
  ultimately have lk: "linked (l_mem ?l) fs" "linked (l_mem ?l) (page_heads (l_pages l))"
    using c by (simp_all add: list_core_def)
  have reg: "set ads \<subseteq> region (l_pages l)" using c by (auto simp: list_core_def)
  have dm: "l_mem ?l a \<noteq> None \<longleftrightarrow> a \<in> region (l_pages l)" for a
  proof (cases "a \<in> set ads")
    case True
    then have "a \<in> region (l_pages l)" using reg by blast
    with core_dom [OF c, of a] show ?thesis by (auto simp: destroyed_def unlinked_def Let_def)
  next
    case False
    with core_dom [OF c, of a] mem show ?thesis by simp
  qed
  show ?thesis
    unfolding list_core_def
  proof (intro conjI)
    show "l_head ?l = ptr_at (del_at j ads) 0"
      using f j by (auto simp: destroyed_def unlinked_def Let_def ptr_at_del)
    show "l_tail ?l = slot_at (del_at j ads) (length (del_at j ads))"
    proof -
      obtain n where "length ads = Suc n" using j by (cases "length ads") auto
      then show ?thesis
        using f(10) j by (cases "j = n") (auto simp: destroyed_def unlinked_def Let_def slot_at_del)
    qed
    show "\<forall>k<length (del_at j ads). l_mem ?l (del_at j ads ! k)
        = Some \<lparr>n_data = Some (del_at j xs ! k), n_next = ptr_at (del_at j ads) (Suc k)\<rparr>"
      using nodes j by simp
    show "linked (l_mem ?l) (?p # fs)"
      using lk(1) unfolding linked_Cons by (simp add: destroyed_def Let_def)
    show "distinct (del_at j ads @ (?p # fs) @ page_heads (l_pages ?l))"
      using c p distinct_del_at [OF j f(1)] unfolding distinct_append set_append
      by (auto simp: sd list_core_def destroyed_def unlinked_def Let_def)
    have "set (del_at j ads @ (?p # fs)) = set (ads @ fs)" using p unfolding set_append sd by auto
    then show "set (del_at j ads @ (?p # fs) @ page_heads (l_pages ?l)) = region (l_pages ?l)"
      using c by (auto simp: list_core_def destroyed_def unlinked_def Let_def)
    show "\<forall>a. l_mem ?l a \<noteq> None \<longleftrightarrow> a \<in> region (l_pages ?l)"
      using dm by (simp add: destroyed_def unlinked_def Let_def)
    show "linked (l_mem ?l) (page_heads (l_pages ?l))" using lk(2) by (simp add: destroyed_def unlinked_def Let_def)
    show "l_node_allocations ?l = ptr_at (page_heads (l_pages ?l)) 0"
      using c by (simp add: list_core_def destroyed_def unlinked_def Let_def)
  qed (use f j in \<open>auto simp: destroyed_def unlinked_def Let_def\<close>)
qed

lemma destroyed_steps:
  assumes c: "list_core l ads fs xs" and j: "j < length ads"
  shows "list_node_destroy l (slot_at ads j)
    = do { itrs \<leftarrow> map_itrs (destroy_itr (unlinked l ads xs j) (slot_at ads j) (ads ! j) (ptr_at ads (Suc j))) (l_itrs l);
           Some (Some (xs ! j), (destroyed l ads fs xs j)\<lparr>l_itrs := itrs\<rparr>) }"
proof -
  note f = core_facts [OF c]
  have n: "l_mem l (ads ! j) = Some \<lparr>n_data = Some (xs ! j), n_next = ptr_at ads (Suc j)\<rparr>"
    by (rule core_node [OF c j])
  have g: "slot_get l (slot_at ads j) = Some (Some (ads ! j))"
    using core_slot_get [OF c, of j] j by (simp add: ptr_at_def)
  have e: "length ads \<le> Suc j \<longleftrightarrow> Suc j = length ads" using j by auto
  show ?thesis
  proof (cases j)
    case 0
    with f n g e show ?thesis
      unfolding list_node_destroy_def
      by (cases l) (simp add: slot_put_def unlinked_def destroyed_def Let_def fun_upd_def cong: if_cong)
  next
    case (Suc i)
    have "ads ! i \<noteq> ads ! j" using f(1) j Suc by (simp add: nth_eq_iff_index_eq)
    moreover have "l_mem l (ads ! i) = Some \<lparr>n_data = Some (xs ! i), n_next = ptr_at ads j\<rparr>"
      using core_node [OF c, of i] j Suc by simp
    ultimately show ?thesis
      using f n g e Suc
      unfolding list_node_destroy_def
      by (cases l) (simp add: slot_put_def slot_at_Suc unlinked_def destroyed_def Let_def fun_upd_def cong: if_cong)
  qed
qed

text \<open>The cursors after the deletion of element \<open>j\<close>.\<close>

fun cur_del :: "nat \<Rightarrow> cursor \<Rightarrow> cursor" where
  "cur_del j (k, jp, kp) = (k, if kp = j then j else if jp \<le> j then jp else jp - 1, if kp \<le> j then kp else kp - 1)"

lemma map_fst_cur_del [simp]: "map fst (map (cur_del j) cs) = map fst cs" "map (fst \<circ> cur_del j) cs = map fst cs"
  by (induction cs) auto

lemma destroy_itr_at:
  assumes c: "list_core l ads fs xs" and j: "j < length ads" and i: "itr_at ads (k, i) cu"
  shows "\<exists>i'. destroy_itr (unlinked l ads xs j) (slot_at ads j) (ads ! j) (ptr_at ads (Suc j)) i = Some i'
    \<and> itr_at (del_at j ads) (k, i') (cur_del j cu)"
proof -
  note f = core_facts [OF c]
  obtain k' jp kp where cu: "cu = (k', jp, kp)" by (cases cu)
  let ?i = "if i_pos i = Some (ads ! j) then i\<lparr>i_pos := ptr_at ads (Suc j), i_prev := slot_at ads j\<rparr>
            else if i_prev i = NextOf (ads ! j) then i\<lparr>i_prev := slot_at ads j\<rparr> else i"
  have p: "Some (ads ! j) = ptr_at ads j" using j by (simp add: ptr_at_def)
  have s: "NextOf (ads ! j) = slot_at ads (Suc j)" by (simp add: slot_at_Suc)
  have at: "itr_at (del_at j ads) (k, ?i) (cur_del j cu)"
    using i j f(1) unfolding cu p s
    by (auto simp: slot_at_eq_iff ptr_at_eq_iff slot_at_del ptr_at_del)
  obtain a b e where abe: "cur_del j cu = (a, b, e)" by (cases "cur_del j cu")
  have h: "l_head (unlinked l ads xs j) = ptr_at (del_at j ads) 0"
    using f j by (auto simp: unlinked_def ptr_at_del)
  have lk: "linked (l_mem (unlinked l ads xs j)) (del_at j ads)"
    using unlinked_nodes [OF c j] j by (simp add: linked_def)
  have "itr_assert (unlinked l ads xs j) ?i = Some ?i"
    using at unfolding abe by (rule itr_assert_at [OF h lk])
  with at i show ?thesis unfolding cu by (auto simp: destroy_itr_def)
qed

lemma destroyed_same [simp]: "l_fDel (destroyed l ads fs xs j) = l_fDel l" "l_deleted (destroyed l ads fs xs j) = l_deleted l"
  by (simp_all add: destroyed_def unlinked_def Let_def)

theorem node_destroy_rep:
  assumes r: "list_rep l ads fs xs cs" and j: "j < length ads"
  shows "\<exists>l'. list_node_destroy l (slot_at ads j) = Some (Some (xs ! j), l')
    \<and> list_rep l' (del_at j ads) (ads ! j # fs) (del_at j xs) (map (cur_del j) cs)
    \<and> l_fDel l' = l_fDel l \<and> l_deleted l' = l_deleted l"
proof -
  have c: "list_core l ads fs xs" and a: "list_all2 (itr_at ads) (l_itrs l) cs" using r by (simp_all add: list_rep_def)
  let ?f = "destroy_itr (unlinked l ads xs j) (slot_at ads j) (ads ! j) (ptr_at ads (Suc j))"
  obtain is' where "map_itrs ?f (l_itrs l) = Some is'" "list_all2 (itr_at (del_at j ads)) is' (map (cur_del j) cs)"
    using map_itrs_rel [OF a, of ?f "itr_at (del_at j ads)" "cur_del j"] destroy_itr_at [OF c j] by (metis prod.collapse)
  then show ?thesis
    using r core_destroyed [OF c j] by (auto simp: destroyed_steps [OF c j] list_rep_def)
qed

lemma node_destroy_end:
  assumes "list_rep l ads fs xs cs"
  shows "list_node_destroy l (slot_at ads (length ads)) = Some (None, l)"
  using assms core_slot_get [of l ads fs xs "length ads"] core_facts(7) [of l ads fs xs]
  by (simp add: list_node_destroy_def list_rep_def)

end
