(* ===== verification/Xlist_Ops.thy ===== *)
theory Xlist_Ops
  imports Xlist_Rep "HOL-Library.Multiset"
begin

text \<open>
  The operations of src/common/list.c on the sequence a list represents. \<open>list_is l xs cs fd dl\<close> says
  that \<open>l\<close> is a well-formed list with data \<open>xs\<close>, iterators at the cursors \<open>cs\<close>, delete function \<open>fd\<close> and
  deleted data \<open>dl\<close>; \<open>list_val\<close> leaves the places of the iterators open. Every lemma says that the
  operation returns: no assertion fails, no node outside the list is touched and every loop ends.
\<close>

definition list_is :: "'a xlist \<Rightarrow> 'a list \<Rightarrow> cursor list \<Rightarrow> nat option \<Rightarrow> 'a list \<Rightarrow> bool" where
  "list_is l xs cs fd dl \<longleftrightarrow> (\<exists>ads fs. list_rep l ads fs xs cs) \<and> l_fDel l = fd \<and> l_deleted l = dl"

definition list_val :: "'a xlist \<Rightarrow> 'a list \<Rightarrow> nat list \<Rightarrow> nat option \<Rightarrow> 'a list \<Rightarrow> bool" where
  "list_val l xs ks fd dl \<longleftrightarrow> (\<exists>cs. list_is l xs cs fd dl \<and> map fst cs = ks)"

lemma list_valI: "list_rep l ads fs xs cs \<Longrightarrow> list_val l xs (map fst cs) (l_fDel l) (l_deleted l)"
  by (auto simp: list_val_def list_is_def)

lemma list_valE:
  assumes "list_val l xs ks fd dl"
  obtains ads fs cs where "list_rep l ads fs xs cs" "map fst cs = ks" "l_fDel l = fd" "l_deleted l = dl"
  using assms by (auto simp: list_val_def list_is_def)

lemma rep_facts:
  assumes "list_rep l ads fs xs cs"
  shows "l_magic l = LIST_MAGIC" "length ads = length xs" "l_count l = int (length xs)" "l_head l = ptr_at ads 0"
    "l_tail l = slot_at ads (length xs)" "distinct ads" "distinct (map fst cs)"
  using assms core_facts [of l ads fs xs] by (simp_all add: list_rep_def)

lemma rep_core: "list_rep l ads fs xs cs \<Longrightarrow> list_core l ads fs xs"
  by (simp add: list_rep_def)

text \<open>Looking at element \<open>j\<close> through its link.\<close>

lemma rep_look:
  assumes "list_rep l ads fs xs cs" "j < length xs"
  shows "slot_get l (slot_at ads j) = Some (Some (ads ! j))" "ptr_at ads j = Some (ads ! j)"
    "l_mem l (ads ! j) = Some \<lparr>n_data = Some (xs ! j), n_next = ptr_at ads (Suc j)\<rparr>"
    "NextOf (ads ! j) = slot_at ads (Suc j)"
  using core_slot_get [OF rep_core [OF assms(1)], of j] core_node [OF rep_core [OF assms(1)], of j] assms rep_facts(2) [OF assms(1)]
  by (simp_all add: ptr_at_def slot_at_Suc)

lemma rep_look_end:
  assumes "list_rep l ads fs xs cs"
  shows "slot_get l (slot_at ads (length xs)) = Some None" "ptr_at ads (length xs) = None"
  using core_slot_get [OF rep_core [OF assms], of "length xs"] rep_facts(2) [OF assms] by simp_all

text \<open>What a delete function is called with.\<close>

definition del_log :: "nat option \<Rightarrow> 'a list \<Rightarrow> 'a list" where
  "del_log fd ds = (if fd = None then [] else ds)"

lemma del_log_Nil [simp]: "del_log fd [] = []"
  by (simp add: del_log_def)

lemma del_log_Cons: "del_log fd (d # ds) = del_log fd [d] @ del_log fd ds"
  by (simp add: del_log_def)

lemma rep_fDel [simp]: "list_rep (call_fDel v l) = list_rep l"
  by (intro ext) (simp add: call_fDel_def list_rep_def)

lemma call_fDel_fields [simp]: "l_fDel (call_fDel v l) = l_fDel l"
  "l_deleted (call_fDel v l) = l_deleted l @ del_log (l_fDel l) [v]"
  by (simp_all add: call_fDel_def del_log_def)

subsection \<open>Single elements\<close>

lemma list_create_is: "list_is (list_create f) [] [] f []"
proof -
  have "linked (l_mem (list_create f)) (map (Pair 0) [0..<nodes_in_page])"
    by (auto simp: linked_def list_create_def page_nodes_def ptr_at_def)
  moreover have "(0, i) \<in> region 0 \<longleftrightarrow> i < nodes_in_page" for i by (simp add: region_def)
  then have "set (map (Pair 0) [0..<nodes_in_page]) = region 0" by (auto simp: region_def)
  moreover have "\<forall>a. l_mem (list_create f) a \<noteq> None \<longleftrightarrow> a \<in> region 0"
    by (auto simp: list_create_def region_def)
  ultimately have "list_core (list_create f) [] (map (Pair 0) [0..<nodes_in_page]) []"
    unfolding list_core_def
    by (auto simp: list_create_def page_heads_def ptr_at_def linked_def distinct_map inj_on_def nodes_in_page_def)
  then show ?thesis
    unfolding list_is_def by (auto simp: list_rep_def list_create_def)
qed

lemma list_append_is:
  assumes "list_is l xs cs fd dl"
  shows "\<exists>l'. list_append l (Some v) = Some l' \<and> list_is l' (xs @ [v]) (map (cur_ins (length xs)) cs) fd dl"
proof -
  obtain ads fs where r: "list_rep l ads fs xs cs" using assms by (auto simp: list_is_def)
  note f = rep_facts [OF r]
  obtain l' p fs' where "list_node_create l (slot_at ads (length xs)) (Some v) = Some l'"
    "list_rep l' (ins_at (length xs) p ads) fs' (ins_at (length xs) v xs) (map (cur_ins (length xs)) cs)"
    "l_fDel l' = l_fDel l" "l_deleted l' = l_deleted l"
    using node_create_rep [OF r, of "length xs" v] f(2) by auto
  with f assms show ?thesis by (auto simp: list_append_def list_is_def)
qed

lemma list_push_is:
  assumes "list_is l xs cs fd dl"
  shows "\<exists>l'. list_push l (Some v) = Some l' \<and> list_is l' (v # xs) (map (cur_ins 0) cs) fd dl"
proof -
  obtain ads fs where r: "list_rep l ads fs xs cs" using assms by (auto simp: list_is_def)
  obtain l' p fs' where "list_node_create l Head (Some v) = Some l'"
    "list_rep l' (ins_at 0 p ads) fs' (ins_at 0 v xs) (map (cur_ins 0) cs)"
    "l_fDel l' = l_fDel l" "l_deleted l' = l_deleted l"
    using node_create_rep [OF r, of 0 v] by auto
  with rep_facts(1) [OF r] assms show ?thesis by (auto simp: list_push_def list_is_def)
qed

lemma list_pop_is:
  assumes "list_is l (v # xs) cs fd dl"
  shows "\<exists>l'. list_pop l = Some (Some v, l') \<and> list_is l' xs (map (cur_del 0) cs) fd dl"
proof -
  obtain ads fs where r: "list_rep l ads fs (v # xs) cs" using assms by (auto simp: list_is_def)
  note f = rep_facts [OF r]
  obtain l' where "list_node_destroy l Head = Some (Some v, l')"
    "list_rep l' (del_at 0 ads) (ads ! 0 # fs) xs (map (cur_del 0) cs)"
    "l_fDel l' = l_fDel l" "l_deleted l' = l_deleted l"
    using node_destroy_rep [OF r, of 0] f(2) by auto
  with f assms show ?thesis by (auto simp: list_pop_def list_is_def)
qed

lemma list_pop_empty:
  assumes "list_is l [] cs fd dl"
  shows "list_pop l = Some (None, l)"
proof -
  obtain ads fs where r: "list_rep l ads fs [] cs" using assms by (auto simp: list_is_def)
  then show ?thesis using node_destroy_end [OF r] rep_facts [OF r] by (simp add: list_pop_def)
qed

lemma list_peek_is:
  assumes "list_is l xs cs fd dl"
  shows "list_peek l = Some (case xs of [] \<Rightarrow> None | x # _ \<Rightarrow> Some x)"
proof -
  obtain ads fs where r: "list_rep l ads fs xs cs" using assms by (auto simp: list_is_def)
  then show ?thesis
    using rep_facts [OF r] rep_look [OF r, of 0] by (cases xs) (simp_all add: list_peek_def)
qed

lemma list_count_is: "list_is l xs cs fd dl \<Longrightarrow> list_count (Some l) = Some (int (length xs)) \<and> list_is_empty l = Some (xs = [])"
  using rep_facts by (fastforce simp: list_is_def list_count_def list_is_empty_def)

subsection \<open>Walks over the list\<close>

text \<open>Creating a node at the end and removing the one at a link, with the places of the iterators left open.\<close>

lemma create_tail_val:
  assumes "list_val l xs ks fd dl"
  shows "\<exists>l'. list_node_create l (l_tail l) (Some v) = Some l' \<and> list_val l' (xs @ [v]) ks fd dl"
proof -
  obtain cs where cs: "list_is l xs cs fd dl" "map fst cs = ks" using assms by (auto simp: list_val_def)
  then have "l_magic l = LIST_MAGIC" using rep_facts(1) by (auto simp: list_is_def)
  moreover obtain l' where "list_append l (Some v) = Some l'" "list_is l' (xs @ [v]) (map (cur_ins (length xs)) cs) fd dl"
    using list_append_is [OF cs(1)] by blast
  moreover have "map fst (map (cur_ins (length xs)) cs) = ks" using cs(2) by simp
  ultimately show ?thesis unfolding list_val_def list_append_def by (auto)
qed

lemma destroy_head_val:
  assumes "list_val l (v # xs) ks fd dl"
  shows "\<exists>l'. list_node_destroy l Head = Some (Some v, l') \<and> list_val l' xs ks fd dl"
proof -
  obtain cs where cs: "list_is l (v # xs) cs fd dl" "map fst cs = ks" using assms by (auto simp: list_val_def)
  then have "l_magic l = LIST_MAGIC" using rep_facts(1) by (auto simp: list_is_def)
  moreover obtain l' where "list_pop l = Some (Some v, l')" "list_is l' xs (map (cur_del 0) cs) fd dl"
    using list_pop_is [OF cs(1)] by blast
  moreover have "map fst (map (cur_del 0) cs) = ks" using cs(2) by simp
  ultimately show ?thesis unfolding list_val_def list_pop_def by (auto)
qed

lemma destroy_head_empty:
  assumes "list_val l [] ks fd dl"
  shows "list_node_destroy l Head = Some (None, l)"
proof -
  obtain cs where cs: "list_is l [] cs fd dl" using assms by (auto simp: list_val_def)
  then have "l_magic l = LIST_MAGIC" using rep_facts(1) by (auto simp: list_is_def)
  with list_pop_empty [OF cs] show ?thesis by (simp add: list_pop_def)
qed

lemma list_val_magic: "list_val l xs ks fd dl \<Longrightarrow> l_magic l = LIST_MAGIC"
  and list_val_fDel: "list_val l xs ks fd dl \<Longrightarrow> l_fDel l = fd"
  and list_val_deleted: "list_val l xs ks fd dl \<Longrightarrow> l_deleted l = dl"
  and list_val_count: "list_val l xs ks fd dl \<Longrightarrow> l_count l = int (length xs)"
  using rep_facts by (auto elim!: list_valE)

lemma append_loop_val:
  assumes "list_rep sub ads fs ys cs" "k \<le> length ys" "list_val l xs ks fd dl"
  shows "\<exists>l'. append_loop l sub (ptr_at ads k) n = Some (l', n + int (length ys - k))
    \<and> list_val l' (xs @ drop k ys) ks fd dl"
  using assms(2,3)
proof (induction "length ys - k" arbitrary: k l xs n)
  case 0
  then have "k = length ys" by simp
  with 0 show ?case using rep_look_end [OF assms(1)] by (subst append_loop.simps) simp
next
  case (Suc m)
  then have k: "k < length ys" by simp
  obtain l1 where l1: "list_node_create l (l_tail l) (Some (ys ! k)) = Some l1" "list_val l1 (xs @ [ys ! k]) ks fd dl"
    using create_tail_val [OF Suc.prems(2)] by blast
  obtain l' where "append_loop l1 sub (ptr_at ads (Suc k)) (n + 1) = Some (l', n + 1 + int (length ys - Suc k))"
    "list_val l' ((xs @ [ys ! k]) @ drop (Suc k) ys) ks fd dl"
    using Suc.hyps(1) [OF _ _ l1(2), of "Suc k" "n + 1"] Suc.hyps(2) k by (metis Suc_diff_Suc Suc_inject Suc_leI)
  moreover have "n + 1 + int (length ys - Suc k) = n + int (length ys - k)" using k by simp
  moreover have "(xs @ [ys ! k]) @ drop (Suc k) ys = xs @ drop k ys" using k by (simp add: Cons_nth_drop_Suc)
  ultimately show ?case
    using rep_look [OF assms(1) k] l1(1) by (subst append_loop.simps) simp
qed

lemma list_append_list_val:
  assumes "list_val l xs ks None dl" "list_val sub ys ks' fd' dl'"
  shows "\<exists>l'. list_append_list l sub = Some (l', int (length ys)) \<and> list_val l' (xs @ ys) ks None dl"
proof -
  obtain ads fs cs where r: "list_rep sub ads fs ys cs" using assms(2) by (rule list_valE)
  show ?thesis
    using append_loop_val [OF r le0 assms(1), of 0] rep_facts [OF r] list_val_magic [OF assms(1)] list_val_fDel [OF assms(1)]
    by (simp add: list_append_list_def)
qed

lemma list_shallow_copy_val:
  assumes "list_val l xs ks fd dl"
  shows "\<exists>m. list_shallow_copy l = Some m \<and> list_val m xs [] None []"
proof -
  have "list_val (list_create None) [] [] None []" using list_create_is by (auto simp: list_val_def)
  from list_append_list_val [OF this assms] show ?thesis by (auto simp: list_shallow_copy_def)
qed

text \<open>The number of elements that a transfer with limit \<open>mx\<close> still moves after \<open>n\<close>.\<close>

definition quota :: "int \<Rightarrow> int \<Rightarrow> nat \<Rightarrow> nat" where
  "quota mx n len = (if mx = 0 then len else min len (nat (mx + 1 - n)))"

lemma quota_0 [simp]: "quota mx n 0 = 0"
  by (simp add: quota_def)

lemma quota_Suc: "quota mx n (Suc len) = (if mx = 0 \<or> n \<le> mx then Suc (quota mx (n + 1) len) else 0)"
  by (auto simp: quota_def Suc_nat_eq_nat_zadd1 min_def)

lemma transfer_loop_val:
  assumes "list_val l xs ks fd dl" "list_val sub ys ks' fd' dl'"
  shows "\<exists>l' sub'. transfer_loop l sub mx n = Some (l', sub', n + int (quota mx n (length ys)))
    \<and> list_val l' (xs @ take (quota mx n (length ys)) ys) ks fd dl
    \<and> list_val sub' (drop (quota mx n (length ys)) ys) ks' fd' dl'"
  using assms
proof (induction ys arbitrary: l xs sub n)
  case Nil
  with destroy_head_empty [OF Nil.prems(2)] show ?case by (subst transfer_loop.simps) auto
next
  case (Cons y ys)
  show ?case
  proof (cases "mx = 0 \<or> n \<le> mx")
    case True
    obtain sub1 where s: "list_node_destroy sub Head = Some (Some y, sub1)" "list_val sub1 ys ks' fd' dl'"
      using destroy_head_val [OF Cons.prems(2)] by blast
    obtain l1 where l: "list_node_create l (l_tail l) (Some y) = Some l1" "list_val l1 (xs @ [y]) ks fd dl"
      using create_tail_val [OF Cons.prems(1)] by blast
    have "transfer_loop l sub mx n = transfer_loop l1 sub1 mx (n + 1)"
      using True s(1) l(1) by (subst transfer_loop.simps) simp
    moreover have q: "quota mx n (length (y # ys)) = Suc (quota mx (n + 1) (length ys))"
      using True by (simp add: quota_Suc)
    ultimately show ?thesis
      unfolding q using Cons.IH [OF l(2) s(2), of "n + 1"] by (simp add: add.assoc)
  next
    case False
    with Cons.prems show ?thesis by (subst transfer_loop.simps) (auto simp: quota_Suc)
  qed
qed

lemma list_transfer_max_val:
  assumes "list_val l xs ks fd dl" "list_val sub ys ks' fd dl'"
  shows "\<exists>l' sub'. list_transfer_max l sub mx = Some (l', sub', int (quota mx 0 (length ys)))
    \<and> list_val l' (xs @ take (quota mx 0 (length ys)) ys) ks fd dl
    \<and> list_val sub' (drop (quota mx 0 (length ys)) ys) ks' fd dl'"
  using transfer_loop_val [OF assms, of mx 0] list_val_magic [OF assms(1)] list_val_magic [OF assms(2)]
    list_val_fDel [OF assms(1)] list_val_fDel [OF assms(2)]
  by (simp add: list_transfer_max_def)

text \<open>Removing the node at link \<open>j\<close> while a walk goes on.\<close>

lemma destroy_at_rep:
  assumes "list_rep l ads fs xs cs" "j < length xs"
  obtains l' where "list_node_destroy l (slot_at ads j) = Some (Some (xs ! j), l')"
    "list_rep l' (del_at j ads) (ads ! j # fs) (del_at j xs) (map (cur_del j) cs)"
    "l_fDel l' = l_fDel l" "l_deleted l' = l_deleted l" "slot_at (del_at j ads) j = slot_at ads j"
  using node_destroy_rep [OF assms(1), of j] assms(2) rep_facts(2) [OF assms(1)] slot_at_del [of j ads j] by auto

lemma drop_del_at: "j < length xs \<Longrightarrow> drop j (del_at j xs) = drop (Suc j) xs" "j < length xs \<Longrightarrow> take j (del_at j xs) = take j xs"
  by (simp_all add: del_at_def)

lemma delete_all_loop_val:
  assumes "list_rep l ads fs xs cs" "j \<le> length xs"
  shows "\<exists>l'. delete_all_loop l f (slot_at ads j) n = Some (l', n + int (length (filter f (drop j xs))))
    \<and> list_val l' (take j xs @ filter (\<lambda>x. \<not> f x) (drop j xs)) (map fst cs) (l_fDel l)
        (l_deleted l @ del_log (l_fDel l) (filter f (drop j xs)))"
  using assms
proof (induction "length xs - j" arbitrary: l ads fs xs cs j n)
  case 0
  then have j: "j = length xs" by simp
  have "list_val l xs (map fst cs) (l_fDel l) (l_deleted l)" by (rule list_valI [OF 0(2)])
  with j show ?case using rep_look_end [OF 0(2)] by (subst delete_all_loop.simps) simp
next
  case (Suc m)
  then have j: "j < length xs" by simp
  note look = rep_look [OF Suc.prems(1) j]
  have dr: "drop j xs = xs ! j # drop (Suc j) xs" using j by (simp add: Cons_nth_drop_Suc)
  show ?case
  proof (cases "f (xs ! j)")
    case True
    obtain l1 where l1: "list_node_destroy l (slot_at ads j) = Some (Some (xs ! j), l1)"
      "list_rep l1 (del_at j ads) (ads ! j # fs) (del_at j xs) (map (cur_del j) cs)"
      "l_fDel l1 = l_fDel l" "l_deleted l1 = l_deleted l" "slot_at (del_at j ads) j = slot_at ads j"
      by (rule destroy_at_rep [OF Suc.prems(1) j])
    have "\<exists>l'. delete_all_loop (call_fDel (xs ! j) l1) f (slot_at (del_at j ads) j) (n + 1)
          = Some (l', n + 1 + int (length (filter f (drop j (del_at j xs)))))
        \<and> list_val l' (take j (del_at j xs) @ filter (\<lambda>x. \<not> f x) (drop j (del_at j xs))) (map fst (map (cur_del j) cs))
           (l_fDel (call_fDel (xs ! j) l1))
           (l_deleted (call_fDel (xs ! j) l1) @ del_log (l_fDel (call_fDel (xs ! j) l1)) (filter f (drop j (del_at j xs))))"
      by (rule Suc.hyps(1)) (use Suc.hyps(2) j l1(2) in auto)
    then show ?thesis
      using True look l1 j
      by (subst delete_all_loop.simps) (auto simp: dr drop_del_at del_log_Cons [of _ "xs ! j" "filter f (drop (Suc j) xs)"])
  next
    case False
    have "\<exists>l'. delete_all_loop l f (slot_at ads (Suc j)) n = Some (l', n + int (length (filter f (drop (Suc j) xs))))
        \<and> list_val l' (take (Suc j) xs @ filter (\<lambda>x. \<not> f x) (drop (Suc j) xs)) (map fst cs) (l_fDel l)
           (l_deleted l @ del_log (l_fDel l) (filter f (drop (Suc j) xs)))"
      by (rule Suc.hyps(1)) (use Suc j in auto)
    then show ?thesis
      using False look j by (subst delete_all_loop.simps) (simp add: dr take_Suc_conv_app_nth)
  qed
qed

lemma list_delete_all_val:
  assumes "list_val l xs ks fd dl"
  shows "\<exists>l'. list_delete_all l f = Some (l', int (length (filter f xs)))
    \<and> list_val l' (filter (\<lambda>x. \<not> f x) xs) ks fd (dl @ del_log fd (filter f xs))"
  using assms
proof (rule list_valE)
  fix ads fs cs assume r: "list_rep l ads fs xs cs" "map fst cs = ks" "l_fDel l = fd" "l_deleted l = dl"
  then show ?thesis
    using delete_all_loop_val [OF r(1) le0, of f 0] rep_facts [OF r(1)] by (simp add: list_delete_all_def)
qed

lemma match_loop_val:
  assumes "list_rep l ads fs xs cs" "j \<le> length xs" "list_val sub ys ks' fd' dl'"
  shows "\<exists>l' sub'. match_loop f l sub (slot_at ads j) n = Some (l', sub', n + int (length (filter f (drop j xs))))
    \<and> list_val l' (take j xs @ filter (\<lambda>x. \<not> f x) (drop j xs)) (map fst cs) (l_fDel l) (l_deleted l)
    \<and> list_val sub' (ys @ filter f (drop j xs)) ks' fd' dl'"
  using assms
proof (induction "length xs - j" arbitrary: l ads fs xs cs j n sub ys)
  case 0
  then have j: "j = length xs" by simp
  have "list_val l xs (map fst cs) (l_fDel l) (l_deleted l)" by (rule list_valI [OF 0(2)])
  with j 0 show ?case using rep_look_end [OF 0(2)] by (subst match_loop.simps) simp
next
  case (Suc m)
  then have j: "j < length xs" by simp
  note look = rep_look [OF Suc.prems(1) j]
  have dr: "drop j xs = xs ! j # drop (Suc j) xs" using j by (simp add: Cons_nth_drop_Suc)
  show ?case
  proof (cases "f (xs ! j)")
    case True
    obtain l1 where l1: "list_node_destroy l (slot_at ads j) = Some (Some (xs ! j), l1)"
      "list_rep l1 (del_at j ads) (ads ! j # fs) (del_at j xs) (map (cur_del j) cs)"
      "l_fDel l1 = l_fDel l" "l_deleted l1 = l_deleted l" "slot_at (del_at j ads) j = slot_at ads j"
      by (rule destroy_at_rep [OF Suc.prems(1) j])
    obtain sub1 where s1: "list_node_create sub (l_tail sub) (Some (xs ! j)) = Some sub1" "list_val sub1 (ys @ [xs ! j]) ks' fd' dl'"
      using create_tail_val [OF Suc.prems(3)] by blast
    have "\<exists>l' sub'. match_loop f l1 sub1 (slot_at (del_at j ads) j) (n + 1)
          = Some (l', sub', n + 1 + int (length (filter f (drop j (del_at j xs)))))
        \<and> list_val l' (take j (del_at j xs) @ filter (\<lambda>x. \<not> f x) (drop j (del_at j xs))) (map fst (map (cur_del j) cs)) (l_fDel l1) (l_deleted l1)
        \<and> list_val sub' ((ys @ [xs ! j]) @ filter f (drop j (del_at j xs))) ks' fd' dl'"
      by (rule Suc.hyps(1)) (use Suc.hyps(2) j l1(2) s1(2) in auto)
    then show ?thesis
      using True look l1 s1(1) j by (subst match_loop.simps) (auto simp: dr drop_del_at)
  next
    case False
    have "\<exists>l' sub'. match_loop f l sub (slot_at ads (Suc j)) n = Some (l', sub', n + int (length (filter f (drop (Suc j) xs))))
        \<and> list_val l' (take (Suc j) xs @ filter (\<lambda>x. \<not> f x) (drop (Suc j) xs)) (map fst cs) (l_fDel l) (l_deleted l)
        \<and> list_val sub' (ys @ filter f (drop (Suc j) xs)) ks' fd' dl'"
      by (rule Suc.hyps(1)) (use Suc j in auto)
    then show ?thesis
      using False look j by (subst match_loop.simps) (simp add: dr take_Suc_conv_app_nth)
  qed
qed

lemma list_transfer_match_val:
  assumes "list_val l xs ks fd dl" "list_val sub ys ks' fd dl'"
  shows "\<exists>l' sub'. list_transfer_match l sub f = Some (l', sub', int (length (filter f xs)))
    \<and> list_val l' (filter (\<lambda>x. \<not> f x) xs) ks fd dl \<and> list_val sub' (ys @ filter f xs) ks' fd dl'"
  using assms(1)
proof (rule list_valE)
  fix ads fs cs assume r: "list_rep l ads fs xs cs" "map fst cs = ks" "l_fDel l = fd" "l_deleted l = dl"
  then show ?thesis
    using match_loop_val [OF r(1) le0 assms(2), of f 0] list_val_magic [OF assms(1)] list_val_magic [OF assms(2)]
      list_val_fDel [OF assms(2)] by (simp add: list_transfer_match_def)
qed

lemma find_loop_val:
  assumes "list_rep l ads fs xs cs" "k \<le> length xs"
  shows "find_loop l f (ptr_at ads k) = Some (List.find f (drop k xs))"
  using assms
proof (induction "length xs - k" arbitrary: k)
  case 0
  then show ?case using rep_look_end [OF 0(2)] by (subst find_loop.simps) simp
next
  case (Suc m)
  then have k: "k < length xs" by simp
  have "find_loop l f (ptr_at ads (Suc k)) = Some (List.find f (drop (Suc k) xs))"
    by (rule Suc.hyps(1)) (use Suc k in auto)
  moreover have "drop k xs = xs ! k # drop (Suc k) xs" using k by (simp add: Cons_nth_drop_Suc)
  ultimately show ?case
    using rep_look [OF Suc.prems(1) k] by (subst find_loop.simps) simp
qed

lemma find_first_locked_val:
  assumes "list_val l xs ks fd dl"
  shows "list_find_first_locked l f = Some (List.find f xs)"
  using assms
proof (rule list_valE)
  fix ads fs cs assume r: "list_rep l ads fs xs cs"
  show ?thesis using find_loop_val [OF r le0, of f] rep_facts [OF r] by (simp add: list_find_first_locked_def)
qed

lemma list_find_first_val: "list_val l xs ks fd dl \<Longrightarrow> list_find_first l f = Some (List.find f xs)"
  using find_first_locked_val list_val_magic by (fastforce simp: list_find_first_def)

text \<open>Moving the elements that are not yet in the destination: the destination, what is left, the number moved.\<close>

fun move_unique :: "('a \<Rightarrow> 'a \<Rightarrow> bool) \<Rightarrow> 'a list \<Rightarrow> 'a list \<Rightarrow> 'a list \<times> 'a list" where
  "move_unique f xs [] = (xs, [])"
| "move_unique f xs (y # ys) = (if \<exists>x \<in> set xs. f x y then apsnd ((#) y) (move_unique f xs ys)
                               else move_unique f (xs @ [y]) ys)"

lemma length_move_unique: "length (fst (move_unique f xs ys)) + length (snd (move_unique f xs ys)) = length xs + length ys"
  by (induction f xs ys rule: move_unique.induct) auto

lemma unique_loop_val:
  assumes "list_rep sub ads fs ys cs" "j \<le> length ys" "list_val l xs ks fd dl"
  shows "\<exists>l' sub'. unique_loop f l sub (slot_at ads j) n
      = Some (l', sub', n + int (length (fst (move_unique f xs (drop j ys)))) - int (length xs))
    \<and> list_val l' (fst (move_unique f xs (drop j ys))) ks fd dl
    \<and> list_val sub' (take j ys @ snd (move_unique f xs (drop j ys))) (map fst cs) (l_fDel sub) (l_deleted sub)"
  using assms
proof (induction "length ys - j" arbitrary: sub ads fs ys cs j n l xs)
  case 0
  then have j: "j = length ys" by simp
  have "list_val sub ys (map fst cs) (l_fDel sub) (l_deleted sub)" by (rule list_valI [OF 0(2)])
  with j 0 show ?case using rep_look_end [OF 0(2)] by (subst unique_loop.simps) simp
next
  case (Suc m)
  then have j: "j < length ys" by simp
  note look = rep_look [OF Suc.prems(1) j]
  have dr: "drop j ys = ys ! j # drop (Suc j) ys" using j by (simp add: Cons_nth_drop_Suc)
  have fnd: "list_find_first_locked l (\<lambda>x. f x (ys ! j)) = Some (List.find (\<lambda>x. f x (ys ! j)) xs)"
    by (rule find_first_locked_val [OF Suc.prems(3)])
  show ?case
  proof (cases "\<exists>x \<in> set xs. f x (ys ! j)")
    case True
    have "\<exists>l' sub'. unique_loop f l sub (slot_at ads (Suc j)) n
        = Some (l', sub', n + int (length (fst (move_unique f xs (drop (Suc j) ys)))) - int (length xs))
      \<and> list_val l' (fst (move_unique f xs (drop (Suc j) ys))) ks fd dl
      \<and> list_val sub' (take (Suc j) ys @ snd (move_unique f xs (drop (Suc j) ys))) (map fst cs) (l_fDel sub) (l_deleted sub)"
      by (rule Suc.hyps(1)) (use Suc j in auto)
    moreover obtain w where "List.find (\<lambda>x. f x (ys ! j)) xs = Some w"
      using True find_None_iff [of "\<lambda>x. f x (ys ! j)" xs] by (cases "List.find (\<lambda>x. f x (ys ! j)) xs") auto
    ultimately show ?thesis
      using True look fnd j by (subst unique_loop.simps) (simp add: dr take_Suc_conv_app_nth)
  next
    case False
    obtain sub1 where s1: "list_node_destroy sub (slot_at ads j) = Some (Some (ys ! j), sub1)"
      "list_rep sub1 (del_at j ads) (ads ! j # fs) (del_at j ys) (map (cur_del j) cs)"
      "l_fDel sub1 = l_fDel sub" "l_deleted sub1 = l_deleted sub" "slot_at (del_at j ads) j = slot_at ads j"
      by (rule destroy_at_rep [OF Suc.prems(1) j])
    obtain l1 where l1: "list_node_create l (l_tail l) (Some (ys ! j)) = Some l1" "list_val l1 (xs @ [ys ! j]) ks fd dl"
      using create_tail_val [OF Suc.prems(3)] by blast
    let ?r = "move_unique f (xs @ [ys ! j]) (drop j (del_at j ys))"
    have "\<exists>l' sub'. unique_loop f l1 sub1 (slot_at (del_at j ads) j) (n + 1)
        = Some (l', sub', n + 1 + int (length (fst ?r)) - int (length (xs @ [ys ! j])))
      \<and> list_val l' (fst ?r) ks fd dl
      \<and> list_val sub' (take j (del_at j ys) @ snd ?r) (map fst (map (cur_del j) cs)) (l_fDel sub1) (l_deleted sub1)"
      by (rule Suc.hyps(1)) (use Suc.hyps(2) j s1(2) l1(2) in auto)
    moreover have "List.find (\<lambda>x. f x (ys ! j)) xs = None" using False by (simp add: find_None_iff)
    ultimately show ?thesis
      using False look fnd l1(1) s1 j by (subst unique_loop.simps) (auto simp: dr drop_del_at)
  qed
qed

lemma list_transfer_unique_val:
  assumes "list_val l xs ks fd dl" "list_val sub ys ks' fd dl'"
  shows "\<exists>l' sub'. list_transfer_unique l f sub = Some (l', sub', int (length (fst (move_unique f xs ys))) - int (length xs))
    \<and> list_val l' (fst (move_unique f xs ys)) ks fd dl \<and> list_val sub' (snd (move_unique f xs ys)) ks' fd dl'"
  using assms(2)
proof (rule list_valE)
  fix ads fs cs assume r: "list_rep sub ads fs ys cs" "map fst cs = ks'" "l_fDel sub = fd" "l_deleted sub = dl'"
  then show ?thesis
    using unique_loop_val [OF r(1) le0 assms(1), of f 0] list_val_magic [OF assms(1)] list_val_magic [OF assms(2)]
      list_val_fDel [OF assms(1)] by (simp add: list_transfer_unique_def)
qed

subsection \<open>Removing the first match\<close>

fun rem_first :: "('a \<Rightarrow> bool) \<Rightarrow> 'a list \<Rightarrow> 'a option \<times> 'a list" where
  "rem_first f [] = (None, [])"
| "rem_first f (x # xs) = (if f x then (Some x, xs) else apsnd ((#) x) (rem_first f xs))"

text \<open>What the three searching loops do: \<open>step\<close> is the outcome at a match.\<close>

lemma remove_first_loop_val:
  assumes "list_rep l ads fs xs cs" "j \<le> length xs"
  shows "\<exists>l'. remove_first_loop l f (slot_at ads j) = Some (fst (rem_first f (drop j xs)), l')
    \<and> list_val l' (take j xs @ snd (rem_first f (drop j xs))) (map fst cs) (l_fDel l) (l_deleted l)"
  using assms
proof (induction "length xs - j" arbitrary: j)
  case 0
  then have j: "j = length xs" by simp
  have "list_val l xs (map fst cs) (l_fDel l) (l_deleted l)" by (rule list_valI [OF 0(2)])
  with j show ?case using rep_look_end [OF 0(2)] by (subst remove_first_loop.simps) simp
next
  case (Suc m)
  then have j: "j < length xs" by simp
  note look = rep_look [OF Suc.prems(1) j]
  have dr: "drop j xs = xs ! j # drop (Suc j) xs" using j by (simp add: Cons_nth_drop_Suc)
  show ?case
  proof (cases "f (xs ! j)")
    case True
    obtain l1 where l1: "list_node_destroy l (slot_at ads j) = Some (Some (xs ! j), l1)"
      "list_rep l1 (del_at j ads) (ads ! j # fs) (del_at j xs) (map (cur_del j) cs)"
      "l_fDel l1 = l_fDel l" "l_deleted l1 = l_deleted l" "slot_at (del_at j ads) j = slot_at ads j"
      by (rule destroy_at_rep [OF Suc.prems(1) j])
    have "list_val l1 (take j xs @ drop (Suc j) xs) (map fst cs) (l_fDel l) (l_deleted l)"
      using list_valI [OF l1(2)] l1(3,4) by (simp add: del_at_def)
    then show ?thesis using True look l1(1) by (subst remove_first_loop.simps) (simp add: dr)
  next
    case False
    have "\<exists>l'. remove_first_loop l f (slot_at ads (Suc j)) = Some (fst (rem_first f (drop (Suc j) xs)), l')
      \<and> list_val l' (take (Suc j) xs @ snd (rem_first f (drop (Suc j) xs))) (map fst cs) (l_fDel l) (l_deleted l)"
      by (rule Suc.hyps(1)) (use Suc j in auto)
    then show ?thesis
      using False look j by (subst remove_first_loop.simps) (simp add: dr take_Suc_conv_app_nth)
  qed
qed

lemma list_remove_first_val:
  assumes "list_val l xs ks fd dl"
  shows "\<exists>l'. list_remove_first l f = Some (fst (rem_first f xs), l') \<and> list_val l' (snd (rem_first f xs)) ks fd dl"
  using assms
proof (rule list_valE)
  fix ads fs cs assume r: "list_rep l ads fs xs cs" "map fst cs = ks" "l_fDel l = fd" "l_deleted l = dl"
  then show ?thesis
    using remove_first_loop_val [OF r(1) le0, of f] rep_facts [OF r(1)] by (simp add: list_remove_first_def)
qed

text \<open>The first element with a nonzero code decides: a positive code deletes it, a negative one is an error.\<close>

fun del_first :: "('a \<Rightarrow> int) \<Rightarrow> 'a list \<Rightarrow> 'a list \<times> 'a list \<times> int" where
  "del_first f [] = ([], [], 0)"
| "del_first f (x # xs) = (if f x > 0 then (xs, [x], 1) else if f x < 0 then (x # xs, [], -1)
                          else apfst ((#) x) (del_first f xs))"

lemma delete_first_loop_val:
  assumes "list_rep l ads fs xs cs" "j \<le> length xs" "del_first f (drop j xs) = (ys, ds, rc)"
  shows "\<exists>l'. delete_first_loop l f (slot_at ads j) = Some (l', rc)
    \<and> list_val l' (take j xs @ ys) (map fst cs) (l_fDel l) (l_deleted l @ del_log (l_fDel l) ds)"
  using assms
proof (induction "length xs - j" arbitrary: j ys)
  case 0
  then have j: "j = length xs" by simp
  have "list_val l xs (map fst cs) (l_fDel l) (l_deleted l)" by (rule list_valI [OF 0(2)])
  with j 0 show ?case using rep_look_end [OF 0(2)] by (subst delete_first_loop.simps) simp
next
  case (Suc m)
  then have j: "j < length xs" by simp
  note look = rep_look [OF Suc.prems(1) j]
  have dr: "drop j xs = xs ! j # drop (Suc j) xs" using j by (simp add: Cons_nth_drop_Suc)
  have all: "take j xs @ xs ! j # drop (Suc j) xs = xs" using j by (simp add: id_take_nth_drop [symmetric])
  consider "f (xs ! j) > 0" | "f (xs ! j) < 0" | "f (xs ! j) = 0" by linarith
  then show ?case
  proof cases
    case 1
    obtain l1 where l1: "list_node_destroy l (slot_at ads j) = Some (Some (xs ! j), l1)"
      "list_rep l1 (del_at j ads) (ads ! j # fs) (del_at j xs) (map (cur_del j) cs)"
      "l_fDel l1 = l_fDel l" "l_deleted l1 = l_deleted l" "slot_at (del_at j ads) j = slot_at ads j"
      by (rule destroy_at_rep [OF Suc.prems(1) j])
    have "list_val (call_fDel (xs ! j) l1) (take j xs @ drop (Suc j) xs) (map fst cs) (l_fDel l) (l_deleted l @ del_log (l_fDel l) [xs ! j])"
      using list_valI [of "call_fDel (xs ! j) l1"] l1(2-4) by (force simp: del_at_def)
    then show ?thesis using 1 look l1(1) Suc.prems(3) by (subst delete_first_loop.simps) (simp add: dr)
  next
    case 2
    then show ?thesis using look Suc.prems(3) list_valI [OF Suc.prems(1)] all
      by (subst delete_first_loop.simps) (auto simp: dr)
  next
    case 3
    then obtain zs where z: "del_first f (drop (Suc j) xs) = (zs, ds, rc)" "ys = xs ! j # zs"
      using Suc.prems(3) by (cases "del_first f (drop (Suc j) xs)") (auto simp: dr)
    have "\<exists>l'. delete_first_loop l f (slot_at ads (Suc j)) = Some (l', rc)
      \<and> list_val l' (take (Suc j) xs @ zs) (map fst cs) (l_fDel l) (l_deleted l @ del_log (l_fDel l) ds)"
      by (rule Suc.hyps(1)) (use Suc j z in auto)
    then show ?thesis
      using 3 look j z(2) by (subst delete_first_loop.simps) (simp add: take_Suc_conv_app_nth)
  qed
qed

lemma list_delete_first_val:
  assumes "list_val l xs ks fd dl" "del_first f xs = (ys, ds, rc)"
  shows "\<exists>l'. list_delete_first l f = Some (l', rc) \<and> list_val l' ys ks fd (dl @ del_log fd ds)"
  using assms(1)
proof (rule list_valE)
  fix ads fs cs assume r: "list_rep l ads fs xs cs" "map fst cs = ks" "l_fDel l = fd" "l_deleted l = dl"
  then show ?thesis
    using delete_first_loop_val [OF r(1) le0, of f ys ds rc] rep_facts [OF r(1)] assms(2) by (simp add: list_delete_first_def)
qed

text \<open>Deleting by pointer is deleting the first equal element.\<close>

lemma delete_ptr_loop_first:
  assumes "list_rep l ads fs xs cs" "j \<le> length xs"
  shows "delete_ptr_loop l key (slot_at ads j) = delete_first_loop l (\<lambda>x. if x = key then 1 else 0) (slot_at ads j)"
  using assms
proof (induction "length xs - j" arbitrary: j)
  case 0
  then show ?case using rep_look_end [OF 0(2)] by (subst delete_ptr_loop.simps, subst delete_first_loop.simps) simp
next
  case (Suc m)
  then have j: "j < length xs" by simp
  have "delete_ptr_loop l key (slot_at ads (Suc j)) = delete_first_loop l (\<lambda>x. if x = key then 1 else 0) (slot_at ads (Suc j))"
    by (rule Suc.hyps(1)) (use Suc j in auto)
  moreover obtain l1 where "list_node_destroy l (slot_at ads j) = Some (Some (xs ! j), l1)"
    by (rule destroy_at_rep [OF Suc.prems(1) j])
  ultimately show ?case
    using rep_look [OF Suc.prems(1) j] by (subst delete_ptr_loop.simps, subst delete_first_loop.simps) simp
qed

lemma del_first_eq: "del_first (\<lambda>x. if x = key then 1 else 0) xs
  = (remove1 key xs, if key \<in> set xs then [key] else [], if key \<in> set xs then 1 else 0)"
  by (induction xs) auto

lemma list_delete_ptr_val:
  assumes "list_val l xs ks fd dl"
  shows "\<exists>l'. list_delete_ptr l (Some key) = Some (l', if key \<in> set xs then 1 else 0)
    \<and> list_val l' (remove1 key xs) ks fd (dl @ del_log fd (if key \<in> set xs then [key] else []))"
  using assms
proof (rule list_valE)
  fix ads fs cs assume r: "list_rep l ads fs xs cs"
  have "list_delete_ptr l (Some key) = list_delete_first l (\<lambda>x. if x = key then 1 else 0)"
    using delete_ptr_loop_first [OF r le0] by (simp add: list_delete_ptr_def list_delete_first_def)
  then show ?thesis using list_delete_first_val [OF assms del_first_eq] by simp
qed

subsection \<open>Visiting and flushing\<close>

fun visit :: "('a \<Rightarrow> 's \<Rightarrow> 's \<times> int) \<Rightarrow> bool \<Rightarrow> 'a list \<Rightarrow> int \<times> bool \<times> 's \<Rightarrow> int \<times> bool \<times> 's" where
  "visit f brk [] r = r"
| "visit f brk (x # xs) (n, failed, s) =
     (if snd (f x s) < 0 then
        if brk then (n + 1, True, fst (f x s)) else visit f brk xs (n + 1, True, fst (f x s))
      else visit f brk xs (n + 1, failed, fst (f x s)))"

definition upto_max :: "int \<Rightarrow> int \<Rightarrow> 'a list \<Rightarrow> 'a list" where
  "upto_max mx n xs = (if mx = -1 then xs else take (nat (mx - n)) xs)"

lemma upto_max_Nil [simp]: "upto_max mx n [] = []"
  by (simp add: upto_max_def)

lemma upto_max_Cons: "upto_max mx n (x # xs) = (if mx = -1 \<or> n < mx then x # upto_max mx (n + 1) xs else [])"
proof -
  have "nat (mx - n) = Suc (nat (mx - (n + 1)))" if "n < mx" using that by linarith
  then show ?thesis by (simp add: upto_max_def)
qed

lemma for_each_loop_val:
  assumes "list_rep l ads fs xs cs" "k \<le> length xs"
  shows "for_each_loop l f brk mx (ptr_at ads k) n failed s = Some (visit f brk (upto_max mx n (drop k xs)) (n, failed, s))"
  using assms
proof (induction "length xs - k" arbitrary: k n failed s)
  case 0
  then show ?case using rep_look_end [OF 0(2)] by (subst for_each_loop.simps) simp
next
  case (Suc m)
  then have k: "k < length xs" by simp
  have IH: "for_each_loop l f brk mx (ptr_at ads (Suc k)) (n + 1) b t = Some (visit f brk (upto_max mx (n + 1) (drop (Suc k) xs)) (n + 1, b, t))" for b t
    by (rule Suc.hyps(1)) (use Suc k in auto)
  have dr: "drop k xs = xs ! k # drop (Suc k) xs" using k by (simp add: Cons_nth_drop_Suc)
  show ?case
  proof (cases "mx = -1 \<or> n < mx")
    case True
    then show ?thesis
      using rep_look [OF Suc.prems(1) k] IH unfolding dr upto_max_Cons
      by (subst for_each_loop.simps, cases brk) (simp_all add: case_prod_beta)
  next
    case False
    then show ?thesis unfolding dr upto_max_Cons by (subst for_each_loop.simps) simp
  qed
qed

lemma list_for_each_max_val:
  assumes "list_val l xs ks fd dl" "visit f brk (upto_max mx 0 xs) (0, False, arg) = (n, failed, s)"
  shows "list_for_each_max l mx f arg brk = Some (if failed then - n else n, int (length xs) - n, s)"
  using assms(1)
proof (rule list_valE)
  fix ads fs cs assume r: "list_rep l ads fs xs cs"
  show ?thesis
    using for_each_loop_val [OF r le0, of f brk mx 0 False arg] rep_facts [OF r] assms(2) by (simp add: list_for_each_max_def)
qed

text \<open>Without a failure, or when failures do not stop the walk, every element is visited in order.\<close>

lemma visit_fold:
  assumes "\<not> brk \<or> (\<forall>x s. 0 \<le> snd (f x s))"
  shows "fst (visit f brk xs (n, failed, s)) = n + int (length xs)"
    "snd (snd (visit f brk xs (n, failed, s))) = fold (\<lambda>x t. fst (f x t)) xs s"
  using assms by (induction xs arbitrary: n failed s) (auto simp: not_less [symmetric])

lemma visit_no_failure:
  assumes "\<And>x s. 0 \<le> snd (f x s)"
  shows "visit f brk xs (n, failed, s) = (n + int (length xs), failed, fold (\<lambda>x t. fst (f x t)) xs s)"
  using assms by (induction xs arbitrary: n s) (auto simp: not_less [symmetric])

lemma head_get_Nil: "list_val l [] ks fd dl \<Longrightarrow> slot_get l Head = Some None"
  by (auto elim!: list_valE dest!: rep_look_end(1))

lemma head_get_Cons:
  assumes "list_val l (x # xs) ks fd dl"
  obtains a where "slot_get l Head = Some (Some a)"
  using assms
proof (rule list_valE)
  fix ads fs cs assume "list_rep l ads fs (x # xs) cs"
  from rep_look(1) [OF this, of 0] show ?thesis using that by simp
qed

definition flush_quota :: "int \<Rightarrow> int \<Rightarrow> nat \<Rightarrow> nat" where
  "flush_quota mx i len = (if mx < 0 then len else min len (nat (mx - i)))"

lemma flush_quota_0 [simp]: "flush_quota mx i 0 = 0"
  by (simp add: flush_quota_def)

lemma flush_quota_Suc: "flush_quota mx i (Suc len) = (if mx < 0 \<or> i < mx then Suc (flush_quota mx (i + 1) len) else 0)"
proof -
  have "nat (mx - i) = Suc (nat (mx - (i + 1)))" if "i < mx" using that by linarith
  then show ?thesis by (auto simp: flush_quota_def)
qed

lemma flush_loop_val:
  assumes "list_val l xs ks fd dl"
  shows "\<exists>l'. flush_loop l mx i n = Some (l', n + int (flush_quota mx i (length xs)))
    \<and> list_val l' (drop (flush_quota mx i (length xs)) xs) ks fd (dl @ del_log fd (take (flush_quota mx i (length xs)) xs))"
  using assms
proof (induction xs arbitrary: l dl i n)
  case Nil
  with head_get_Nil [OF Nil] show ?case by (subst flush_loop.simps) auto
next
  case (Cons x xs)
  show ?case
  proof (cases "mx < 0 \<or> i < mx")
    case True
    obtain l1 where l1: "list_node_destroy l Head = Some (Some x, l1)" "list_val l1 xs ks fd dl"
      using destroy_head_val [OF Cons.prems] by blast
    have v: "list_val (call_fDel x l1) xs ks fd (dl @ del_log fd [x])"
      using l1(2) by (auto simp: list_val_def list_is_def)
    obtain a where "slot_get l Head = Some (Some a)" using Cons.prems by (rule head_get_Cons)
    then have "flush_loop l mx i n = flush_loop (call_fDel x l1) mx (i + 1) (n + 1)"
      using True l1(1) by (subst flush_loop.simps) simp
    moreover have q: "flush_quota mx i (length (x # xs)) = Suc (flush_quota mx (i + 1) (length xs))"
      using True by (simp add: flush_quota_Suc)
    ultimately show ?thesis
      unfolding q using Cons.IH [OF v, of "i + 1" "n + 1"]
        del_log_Cons [of fd x "take (flush_quota mx (i + 1) (length xs)) xs"] by (simp add: add.assoc)
  next
    case False
    with Cons.prems show ?thesis by (subst flush_loop.simps) (auto simp: flush_quota_Suc)
  qed
qed

lemma list_flush_max_val:
  assumes "list_val l xs ks fd dl"
  shows "\<exists>l'. list_flush_max l mx = Some (l', int (flush_quota mx 0 (length xs)))
    \<and> list_val l' (drop (flush_quota mx 0 (length xs)) xs) ks fd (dl @ del_log fd (take (flush_quota mx 0 (length xs)) xs))"
  using flush_loop_val [OF assms, of mx 0 0] list_val_magic [OF assms] by (simp add: list_flush_max_def)

subsection \<open>Destroying a list\<close>

lemma destroy_data_val:
  assumes "list_rep l0 ads fs xs cs" "k \<le> length xs" "l_mem l = l_mem l0" "l_fDel l = l_fDel l0"
  shows "destroy_data l (ptr_at ads k) = Some (l\<lparr>l_deleted := l_deleted l @ del_log (l_fDel l) (drop k xs)\<rparr>)"
  using assms
proof (induction "length xs - k" arbitrary: k l)
  case 0
  then show ?case using rep_look_end [OF 0(2)] by (subst destroy_data.simps) simp
next
  case (Suc m)
  then have k: "k < length xs" by simp
  have "destroy_data (call_fDel (xs ! k) l) (ptr_at ads (Suc k)) = Some ((call_fDel (xs ! k) l)
      \<lparr>l_deleted := l_deleted (call_fDel (xs ! k) l) @ del_log (l_fDel (call_fDel (xs ! k) l)) (drop (Suc k) xs)\<rparr>)"
    by (rule Suc.hyps(1)) (use Suc k in \<open>auto simp: call_fDel_def\<close>)
  moreover have "drop k xs = xs ! k # drop (Suc k) xs" using k by (simp add: Cons_nth_drop_Suc)
  ultimately show ?case
    using rep_look [OF Suc.prems(1) k] Suc.prems(3) del_log_Cons [of "l_fDel l" "xs ! k" "drop (Suc k) xs"]
    by (subst destroy_data.simps) (simp add: call_fDel_def del_log_def)
qed

lemma destroy_pages_val:
  assumes "linked m (page_heads n)" "l_mem l = m"
  shows "destroy_pages l (ptr_at (page_heads n) 0) = Some (l\<lparr>l_mem := (\<lambda>a. if 0 < fst a \<and> fst a \<le> n then None else m a)\<rparr>)"
  using assms
proof (induction n arbitrary: l m)
  case 0
  have "(\<lambda>a. if 0 < fst a \<and> fst a \<le> 0 then None else m a) = m" by (rule ext) auto
  with 0 show ?case by (subst destroy_pages.simps) (simp add: page_heads_def)
next
  case (Suc n)
  have heads: "page_heads (Suc n) = (Suc n, 0) # page_heads n" by (simp add: page_heads_def)
  obtain nd where nd: "m (Suc n, 0) = Some nd" "n_next nd = ptr_at (page_heads n) 0" "linked m (page_heads n)"
    using Suc.prems(1) unfolding heads linked_Cons by auto
  let ?m = "\<lambda>a. if fst a = Suc n then None else m a"
  have fp: "free_page l (Suc n, 0) = Some (l\<lparr>l_mem := ?m\<rparr>)"
    using nd(1) unfolding free_page_def Suc.prems(2) by simp
  have "linked ?m (page_heads n) = linked m (page_heads n)"
    by (rule linked_cong) (auto simp: page_heads_def)
  then have IH: "destroy_pages (l\<lparr>l_mem := ?m\<rparr>) (ptr_at (page_heads n) 0)
      = Some (l\<lparr>l_mem := ?m\<rparr>\<lparr>l_mem := (\<lambda>a. if 0 < fst a \<and> fst a \<le> n then None else ?m a)\<rparr>)"
    using nd(3) by (intro Suc.IH) simp_all
  have "(\<lambda>a. if 0 < fst a \<and> fst a \<le> n then None else ?m a) = (\<lambda>a. if 0 < fst a \<and> fst a \<le> Suc n then None else m a)"
    by (auto simp: fun_eq_iff)
  then show ?case
    unfolding heads using IH nd(1,2) fp Suc.prems(2) by (subst destroy_pages.simps) simp
qed

lemma list_destroy_val:
  assumes "list_val l xs ks fd dl"
  shows "\<exists>l'. list_destroy l = Some l' \<and> l_deleted l' = dl @ del_log fd xs \<and> l_itrs l' = [] \<and> l_magic l' \<noteq> LIST_MAGIC
    \<and> (\<forall>a. l_mem l' a \<noteq> None \<longleftrightarrow> a \<in> region 0)"
  using assms
proof (rule list_valE)
  fix ads fs cs assume r: "list_rep l ads fs xs cs" "map fst cs = ks" "l_fDel l = fd" "l_deleted l = dl"
  note c = rep_core [OF r(1)]
  let ?l1 = "l\<lparr>l_itrs := [], l_deleted := dl @ del_log fd xs\<rparr>"
  let ?m = "\<lambda>a. if 0 < fst a \<and> fst a \<le> l_pages l then None else l_mem l a"
  have d: "destroy_data (l\<lparr>l_itrs := []\<rparr>) (l_head l) = Some ?l1"
    using destroy_data_val [OF r(1) le0, of "l\<lparr>l_itrs := []\<rparr>"] r rep_facts(4) [OF r(1)] by simp
  have p: "destroy_pages ?l1 (l_node_allocations ?l1) = Some (?l1\<lparr>l_mem := ?m\<rparr>)"
    using destroy_pages_val [of "l_mem l" "l_pages l" ?l1] c by (simp add: list_core_def)
  obtain is' where i: "map_itrs (\<lambda>i. do { xassert (i_magic i = LIST_ITR_MAGIC); Some i }) (l_itrs l) = Some is'"
    using map_itrs_rel [of "itr_at ads" "l_itrs l" cs "\<lambda>i. do { xassert (i_magic i = LIST_ITR_MAGIC); Some i }" "\<lambda>_ _. True" id] r(1)
    by (auto simp: list_rep_def)
  have dm: "?m a \<noteq> None \<longleftrightarrow> a \<in> region 0" for a
    using core_dom [OF c, of a] by (cases a) (auto simp: region_def)
  have "list_destroy l = Some (?l1\<lparr>l_mem := ?m, l_magic := 0x21524110\<rparr>)"
    using d p i rep_facts(1) [OF r(1)] by (simp add: list_destroy_def)
  moreover have "\<forall>a. l_mem (?l1\<lparr>l_mem := ?m, l_magic := 0x21524110\<rparr>) a \<noteq> None \<longleftrightarrow> a \<in> region 0"
    using dm by (simp del: split_paired_All)
  ultimately show ?thesis by (auto simp: LIST_MAGIC_def simp del: split_paired_All)
qed

subsection \<open>Reordering\<close>

fun cur_reset :: "cursor \<Rightarrow> cursor" where
  "cur_reset (k, jp, kp) = (k, 0, 0)"

lemma map_fst_cur_reset [simp]: "map (fst \<circ> cur_reset) cs = map fst cs"
  by (induction cs) auto

lemma reset_itrs_rep:
  assumes c: "list_core l ads fs xs" and a: "list_all2 (\<lambda>i cu. fst i = fst cu \<and> i_magic (snd i) = LIST_ITR_MAGIC) (l_itrs l) cs"
    and d: "distinct (map fst cs)"
  shows "\<exists>l'. reset_itrs l = Some l' \<and> list_rep l' ads fs xs (map cur_reset cs) \<and> l_fDel l' = l_fDel l \<and> l_deleted l' = l_deleted l"
proof -
  let ?f = "\<lambda>i. do { xassert (i_magic i = LIST_ITR_MAGIC); Some (i\<lparr>i_pos := l_head l, i_prev := Head\<rparr>) }"
  have "\<exists>is'. map_itrs ?f (l_itrs l) = Some is' \<and> list_all2 (itr_at ads) is' (map cur_reset cs)"
    by (rule map_itrs_rel [OF a]) (use core_facts(9) [OF c] in auto)
  with c d show ?thesis by (auto simp: reset_itrs_def list_rep_def)
qed

lemma reset_rep:
  assumes "list_rep l ads fs xs cs"
  shows "\<exists>l'. reset_itrs l = Some l' \<and> list_rep l' ads fs xs (map cur_reset cs) \<and> l_fDel l' = l_fDel l \<and> l_deleted l' = l_deleted l"
proof (rule reset_itrs_rep)
  show "list_all2 (\<lambda>i cu. fst i = fst cu \<and> i_magic (snd i) = LIST_ITR_MAGIC) (l_itrs l) cs"
  proof (rule list_all2_mono)
    show "list_all2 (itr_at ads) (l_itrs l) cs" using assms by (simp add: list_rep_def)
  qed (metis fst_conv itr_at.simps prod_cases3 snd_conv surj_pair)
qed (use assms in \<open>simp_all add: list_rep_def\<close>)

lemma sort_drain_val:
  assumes "list_val l xs ks fd dl" "length v = n + length xs"
  shows "\<exists>l'. sort_drain l v n = Some (l', take n v @ map Some xs, n + length xs) \<and> list_val l' [] ks fd dl"
  using assms
proof (induction xs arbitrary: l v n)
  case Nil
  with destroy_head_empty [OF Nil(1)] show ?case by (subst sort_drain.simps) simp
next
  case (Cons x xs)
  obtain l1 where l1: "list_node_destroy l Head = Some (Some x, l1)" "list_val l1 xs ks fd dl"
    using destroy_head_val [OF Cons.prems(1)] by blast
  have "n < length v" using Cons.prems(2) by simp
  moreover from this have "take (Suc n) (v[n := Some x]) = take n v @ [Some x]" by (simp add: take_Suc_conv_app_nth)
  ultimately show ?case
    using Cons.IH [OF l1(2), of "v[n := Some x]" "Suc n"] l1(1) Cons.prems(2)
    by (subst sort_drain.simps) (simp add: mem_set_def)
qed

lemma sort_fill_val:
  assumes "list_val l [] ks fd dl"
  shows "\<exists>l'. for_upto (\<lambda>n l. do { e \<leftarrow> mem_get (map Some zs) n; list_node_create l (l_tail l) e }) 0 (length zs) l = Some l'
    \<and> list_val l' zs ks fd dl"
proof -
  have "\<exists>l'. for_upto (\<lambda>n l. do { e \<leftarrow> mem_get (map Some zs) n; list_node_create l (l_tail l) e }) 0 (length zs) l = Some l'
      \<and> list_val l' (take (length zs) zs) ks fd dl"
  proof (rule for_upto_rule)
    show "list_val l (take 0 zs) ks fd dl" using assms by simp
    fix i t assume "i < length zs" "list_val t (take i zs) ks fd dl"
    then show "\<exists>t'. do { e \<leftarrow> mem_get (map Some zs) i; list_node_create t (l_tail t) e } = Some t' \<and> list_val t' (take (Suc i) zs) ks fd dl"
      using create_tail_val [of t "take i zs" ks fd dl "zs ! i"] by (simp add: mem_get_def take_Suc_conv_app_nth)
  qed simp
  then show ?thesis by simp
qed

text \<open>What \<open>qsort\<close> is documented to do with a consistent comparison.\<close>

definition qsort_spec :: "('a \<Rightarrow> 'a \<Rightarrow> int) \<Rightarrow> ('a option list \<Rightarrow> 'a option list) \<Rightarrow> bool" where
  "qsort_spec cmp qs \<longleftrightarrow> (\<forall>xs. \<exists>zs. qs (map Some xs) = map Some zs \<and> mset zs = mset xs \<and> sorted_wrt (\<lambda>a b. cmp a b \<le> 0) zs)"

lemma list_sort_val:
  assumes v: "list_val l xs ks fd dl" and q: "qsort_spec cmp qs"
  shows "\<exists>l' zs. list_sort qs l = Some l' \<and> mset zs = mset xs \<and> sorted_wrt (\<lambda>a b. cmp a b \<le> 0) zs \<and> list_val l' zs ks fd dl"
proof (cases "length xs \<le> 1")
  case True
  then have "sorted_wrt (\<lambda>a b. cmp a b \<le> 0) xs" by (cases xs) auto
  moreover have "list_sort qs l = Some l" using True list_val_magic [OF v] list_val_count [OF v] by (simp add: list_sort_def)
  ultimately show ?thesis using v by blast
next
  case False
  obtain l1 where l1: "sort_drain l (replicate (length xs) None) 0 = Some (l1, map Some xs, length xs)" "list_val l1 [] ks fd dl"
    using sort_drain_val [OF v, of "replicate (length xs) None" 0] by auto
  obtain zs where zs: "qs (map Some xs) = map Some zs" "mset zs = mset xs" "sorted_wrt (\<lambda>a b. cmp a b \<le> 0) zs"
    using q by (auto simp: qsort_spec_def)
  have len: "length zs = length xs" using mset_eq_length [OF zs(2)] .
  obtain l2 where l2: "for_upto (\<lambda>n l. do { e \<leftarrow> mem_get (map Some zs) n; list_node_create l (l_tail l) e }) 0 (length zs) l1 = Some l2"
    "list_val l2 zs ks fd dl"
    using sort_fill_val [OF l1(2), of zs] by blast
  obtain ads fs cs where r: "list_rep l2 ads fs zs cs" "map fst cs = ks" "l_fDel l2 = fd" "l_deleted l2 = dl"
    using l2(2) by (rule list_valE)
  obtain l' where "reset_itrs l2 = Some l'" "list_val l' zs ks fd dl"
    using reset_rep [OF r(1)] list_valI r(2-4) by fastforce
  then show ?thesis
    using l1(1) l2(1) zs len False list_val_magic [OF v] list_val_count [OF v]
    by (intro exI [of _ l'] exI [of _ zs]) (simp add: list_sort_def)
qed

text \<open>Flipping: the links of the first \<open>k\<close> nodes are turned around.\<close>

definition back_ptr :: "addr list \<Rightarrow> nat \<Rightarrow> addr option" where
  "back_ptr ads k = (if k = 0 then None else Some (ads ! (k - 1)))"

lemma flip_loop_val:
  assumes "distinct ads" "k \<le> length ads"
    and "\<forall>i<length ads. l_mem l (ads ! i) = Some \<lparr>n_data = Some (xs ! i), n_next = (if i < k then back_ptr ads i else ptr_at ads (Suc i))\<rparr>"
  shows "\<exists>m. flip_loop l (back_ptr ads k) (ptr_at ads k) = Some (l\<lparr>l_mem := m\<rparr>, back_ptr ads (length ads))
    \<and> (\<forall>i<length ads. m (ads ! i) = Some \<lparr>n_data = Some (xs ! i), n_next = back_ptr ads i\<rparr>)
    \<and> (\<forall>a. a \<notin> set ads \<longrightarrow> m a = l_mem l a)"
  using assms(2,3)
proof (induction "length ads - k" arbitrary: k l)
  case 0
  then have "k = length ads" by simp
  with 0 show ?case by (subst flip_loop.simps) (auto intro!: exI [of _ "l_mem l"])
next
  case (Suc n)
  then have k: "k < length ads" by simp
  let ?m = "(l_mem l)(ads ! k \<mapsto> \<lparr>n_data = Some (xs ! k), n_next = back_ptr ads k\<rparr>)"
  have ne: "ads ! i = ads ! k \<longleftrightarrow> i = k" if "i < length ads" for i
    using assms(1) k that by (simp add: nth_eq_iff_index_eq)
  have "\<exists>m. flip_loop (l\<lparr>l_mem := ?m\<rparr>) (back_ptr ads (Suc k)) (ptr_at ads (Suc k)) = Some (l\<lparr>l_mem := ?m\<rparr>\<lparr>l_mem := m\<rparr>, back_ptr ads (length ads))
    \<and> (\<forall>i<length ads. m (ads ! i) = Some \<lparr>n_data = Some (xs ! i), n_next = back_ptr ads i\<rparr>)
    \<and> (\<forall>a. a \<notin> set ads \<longrightarrow> m a = l_mem (l\<lparr>l_mem := ?m\<rparr>) a)"
    by (rule Suc.hyps(1)) (use Suc.hyps(2) Suc.prems k ne in \<open>auto simp: less_Suc_eq\<close>)
  then obtain m where m: "flip_loop (l\<lparr>l_mem := ?m\<rparr>) (back_ptr ads (Suc k)) (ptr_at ads (Suc k)) = Some (l\<lparr>l_mem := m\<rparr>, back_ptr ads (length ads))"
    "\<forall>i<length ads. m (ads ! i) = Some \<lparr>n_data = Some (xs ! i), n_next = back_ptr ads i\<rparr>"
    "\<forall>a. a \<notin> set ads \<longrightarrow> m a = ?m a" by auto
  have "flip_loop l (back_ptr ads k) (ptr_at ads k) = Some (l\<lparr>l_mem := m\<rparr>, back_ptr ads (length ads))"
    using m(1) Suc.prems(2) k by (subst flip_loop.simps) (simp add: ptr_at_def slot_put_def back_ptr_def)
  with m(2,3) k show ?case by (intro exI [of _ m]) auto
qed

lemma list_flip_val:
  assumes "list_val l xs ks fd dl"
  shows "\<exists>l'. list_flip l = Some l' \<and> list_val l' (rev xs) ks fd dl"
proof (cases "length xs \<le> 1")
  case True
  then have "rev xs = xs" by (cases xs) auto
  with True assms show ?thesis using list_val_magic [OF assms] list_val_count [OF assms] by (simp add: list_flip_def)
next
  case False
  obtain ads fs cs where r: "list_rep l ads fs xs cs" "map fst cs = ks" "l_fDel l = fd" "l_deleted l = dl"
    using assms by (rule list_valE)
  note c = rep_core [OF r(1)] and f = rep_facts [OF r(1)]
  have nonempty: "xs \<noteq> []" using False by auto
  let ?n = "length ads"
  have "\<forall>i<?n. l_mem l (ads ! i) = Some \<lparr>n_data = Some (xs ! i), n_next = (if i < 0 then back_ptr ads i else ptr_at ads (Suc i))\<rparr>"
    using core_node [OF c] by simp
  from flip_loop_val [OF f(6) le0 this]
  obtain m where m: "flip_loop l (back_ptr ads 0) (ptr_at ads 0) = Some (l\<lparr>l_mem := m\<rparr>, back_ptr ads ?n)"
    "\<forall>i<?n. m (ads ! i) = Some \<lparr>n_data = Some (xs ! i), n_next = back_ptr ads i\<rparr>" "\<forall>a. a \<notin> set ads \<longrightarrow> m a = l_mem l a"
    by blast
  let ?l = "l\<lparr>l_mem := m, l_head := Some (ads ! (?n - 1)), l_tail := NextOf (ads ! 0)\<rparr>"
  have lk: "linked m ys = linked (l_mem l) ys" if "set ys \<inter> set ads = {}" for ys
    by (rule linked_cong) (use that m(3) in auto)
  have dm: "m a \<noteq> None \<longleftrightarrow> a \<in> region (l_pages l)" for a
  proof (cases "a \<in> set ads")
    case True
    then obtain i where i: "i < ?n" "a = ads ! i" by (auto simp: in_set_conv_nth)
    then have "m a \<noteq> None" "l_mem l a \<noteq> None" using m(2) core_node [OF c] by simp_all
    with core_dom [OF c, of a] show ?thesis by simp
  next
    case False
    then show ?thesis using core_dom [OF c, of a] m(3) [rule_format, OF False] by simp
  qed
  have nodes: "m (rev ads ! k) = Some \<lparr>n_data = Some (rev xs ! k), n_next = ptr_at (rev ads) (Suc k)\<rparr>" if "k < ?n" for k
    using m(2) that f(2) by (auto simp: rev_nth back_ptr_def ptr_at_def)
  have c': "list_core ?l (rev ads) fs (rev xs)"
    unfolding list_core_def
  proof (intro conjI)
    show "\<forall>k<length (rev ads). l_mem ?l (rev ads ! k) = Some \<lparr>n_data = Some (rev xs ! k), n_next = ptr_at (rev ads) (Suc k)\<rparr>"
      using nodes by simp
    show "linked (l_mem ?l) fs" "linked (l_mem ?l) (page_heads (l_pages ?l))"
      using c lk [of fs] lk [of "page_heads (l_pages l)"] core_facts(3,4) [OF c] by (auto simp: list_core_def)
    show "\<forall>a. l_mem ?l a \<noteq> None \<longleftrightarrow> a \<in> region (l_pages ?l)" using dm by (simp del: split_paired_All)
    show "l_head ?l = ptr_at (rev ads) 0" using False f(2) by (auto simp: ptr_at_def rev_nth)
    show "l_tail ?l = slot_at (rev ads) (length (rev ads))" using False f(2) by (auto simp: slot_at_def rev_nth)
  qed (use c in \<open>simp_all add: list_core_def\<close>)
  have "list_all2 (\<lambda>i cu. fst i = fst cu \<and> i_magic (snd i) = LIST_ITR_MAGIC) (l_itrs ?l) cs"
  proof (rule list_all2_mono)
    show "list_all2 (itr_at ads) (l_itrs ?l) cs" using r(1) by (simp add: list_rep_def)
  qed (metis fst_conv itr_at.simps prod_cases3 snd_conv surj_pair)
  from reset_itrs_rep [OF c' this f(7)] obtain l' where l': "reset_itrs ?l = Some l'" "list_rep l' (rev ads) fs (rev xs) (map cur_reset cs)"
    "l_fDel l' = fd" "l_deleted l' = dl"
    using r(3,4) by auto
  have "list_flip l = Some l'"
    using m(1) l'(1) f False nonempty by (simp add: list_flip_def ptr_at_def back_ptr_def)
  then show ?thesis using l'(2-4) r(2) by (auto simp: list_val_def list_is_def intro!: exI [of _ "map cur_reset cs"])
qed

subsection \<open>Iterators\<close>

definition cur_set :: "nat \<Rightarrow> nat \<times> nat \<Rightarrow> cursor list \<Rightarrow> cursor list" where
  "cur_set k p cs = map (\<lambda>(k', q). (k', if k' = k then p else q)) cs"

lemma map_fst_cur_set [simp]: "map fst (cur_set k p cs) = map fst cs"
  by (simp add: cur_set_def case_prod_beta comp_def)

lemma cur_set_member: "(k, q) \<in> set cs \<Longrightarrow> (k, p) \<in> set (cur_set k p cs)"
  by (force simp: cur_set_def)

lemma itr_lookup:
  assumes "list_all2 (itr_at ads) is cs" "distinct (map fst cs)" "(k, jp, kp) \<in> set cs"
  shows "\<exists>i. map_of is k = Some i \<and> itr_at ads (k, i) (k, jp, kp)"
  using assms
proof (induction rule: list_all2_induct)
  case (Cons i "is" c cs)
  obtain a b where i: "i = (a, b)" by (cases i)
  obtain p q r where c: "c = (p, q, r)" by (cases c)
  have ap: "a = p" using Cons.hyps(1) i c by simp
  show ?case
  proof (cases "k = p")
    case True
    then have "(k, jp, kp) \<notin> set cs" using Cons.prems(1) c by force
    then show ?thesis using Cons.prems(2) Cons.hyps(1) True i c ap by auto
  next
    case False
    then show ?thesis using Cons.IH Cons.prems i c ap by auto
  qed
qed simp

lemma itr_update:
  assumes "list_all2 (itr_at ads) is cs" "itr_at ads (k, i) (k, p)"
  shows "list_all2 (itr_at ads) (map (\<lambda>(k', i'). (k', if k' = k then i else i')) is) (cur_set k p cs)"
  using assms
proof (induction rule: list_all2_induct)
  case (Cons j "is" c cs)
  obtain a b where j: "j = (a, b)" by (cases j)
  obtain x y z where c: "c = (x, y, z)" by (cases c)
  obtain p1 p2 where "p = (p1, p2)" by (cases p)
  then show ?case using Cons j c by (auto simp: cur_set_def)
qed (simp add: cur_set_def)

lemma rep_itr:
  assumes "list_rep l ads fs xs cs" "(k, jp, kp) \<in> set cs"
  obtains i where "map_of (l_itrs l) k = Some i" "itr_at ads (k, i) (k, jp, kp)" "itr_get l k = Some i"
proof -
  obtain i where i: "map_of (l_itrs l) k = Some i" "itr_at ads (k, i) (k, jp, kp)"
    using itr_lookup [of ads "l_itrs l" cs k jp kp] assms by (auto simp: list_rep_def)
  moreover have "itr_get l k = Some i" using i rep_facts(1) [OF assms(1)] by (simp add: itr_get_def)
  ultimately show thesis using that by blast
qed

lemma rep_put:
  assumes "list_rep l ads fs xs cs" "itr_at ads (k, i) (k, p)"
  shows "list_rep (itr_put l k i) ads fs xs (cur_set k p cs)"
    "l_fDel (itr_put l k i) = l_fDel l" "l_deleted (itr_put l k i) = l_deleted l"
  using assms itr_update [of ads "l_itrs l" cs k i p] by (simp_all add: list_rep_def itr_put_def)

lemma list_iterator_create_is:
  assumes "list_is l xs cs fd dl" "k \<notin> fst ` set cs"
  shows "\<exists>l'. list_iterator_create k l = Some l' \<and> list_is l' xs ((k, 0, 0) # cs) fd dl"
proof -
  obtain ads fs where r: "list_rep l ads fs xs cs" using assms by (auto simp: list_is_def)
  have "map fst (l_itrs l) = map fst cs"
  proof (rule nth_equalityI)
    show len: "length (map fst (l_itrs l)) = length (map fst cs)"
      using r list_all2_lengthD by (auto simp: list_rep_def)
    fix n assume n: "n < length (map fst (l_itrs l))"
    then have "itr_at ads (l_itrs l ! n) (cs ! n)" using r by (auto simp: list_rep_def dest: list_all2_nthD)
    then show "map fst (l_itrs l) ! n = map fst cs ! n"
      using n len by (cases "l_itrs l ! n"; cases "cs ! n") auto
  qed
  then have "k \<notin> fst ` set (l_itrs l)" using assms(2) by (metis image_set)
  with r assms rep_facts [OF r] show ?thesis
    by (auto simp: list_iterator_create_def list_is_def list_rep_def)
qed

lemma list_iterator_reset_is:
  assumes "list_is l xs cs fd dl" "(k, jp, kp) \<in> set cs"
  shows "\<exists>l'. list_iterator_reset l k = Some l' \<and> list_is l' xs (cur_set k (0, 0) cs) fd dl"
proof -
  obtain ads fs where r: "list_rep l ads fs xs cs" using assms by (auto simp: list_is_def)
  obtain i where i: "itr_at ads (k, i) (k, jp, kp)" "itr_get l k = Some i" by (rule rep_itr [OF r assms(2)])
  have "itr_at ads (k, i\<lparr>i_pos := l_head l, i_prev := Head\<rparr>) (k, 0, 0)" using i(1) rep_facts(4) [OF r] by simp
  from rep_put [OF r this] assms(1) i(2) show ?thesis by (auto simp: list_iterator_reset_def list_is_def)
qed

lemma unlink_itr_at:
  assumes "list_all2 (itr_at ads) is cs" "k' \<in> set cs" "fst k' = k" "distinct (map fst cs)"
  shows "\<exists>is'. unlink_itr k is = Some is' \<and> list_all2 (itr_at ads) is' (remove1 k' cs)"
  using assms
proof (induction rule: list_all2_induct)
  case (Cons i "is" c cs)
  obtain a b where i: "i = (a, b)" by (cases i)
  obtain p q r where c: "c = (p, q, r)" by (cases c)
  have ap: "a = p" "i_magic b = LIST_ITR_MAGIC" using Cons.hyps(1) i c by simp_all
  show ?case
  proof (cases "k' = c")
    case True
    then show ?thesis using Cons i c ap by auto
  next
    case False
    then have "k' \<in> set cs" using Cons.prems(1) by simp
    moreover from this have "p \<noteq> k" using Cons.prems c by (auto simp: image_iff)
    ultimately show ?thesis using Cons False i c ap by auto
  qed
qed simp

lemma list_iterator_destroy_is:
  assumes "list_is l xs cs fd dl" "(k, jp, kp) \<in> set cs"
  shows "\<exists>l'. list_iterator_destroy l k = Some l' \<and> list_is l' xs (remove1 (k, jp, kp) cs) fd dl"
proof -
  obtain ads fs where r: "list_rep l ads fs xs cs" using assms by (auto simp: list_is_def)
  obtain i where i: "itr_get l k = Some i" by (rule rep_itr [OF r assms(2)])
  obtain is' where "unlink_itr k (l_itrs l) = Some is'" "list_all2 (itr_at ads) is' (remove1 (k, jp, kp) cs)"
    using unlink_itr_at [of ads "l_itrs l" cs "(k, jp, kp)" k] r assms(2) by (auto simp: list_rep_def)
  moreover have "distinct (map fst (remove1 (k, jp, kp) cs))"
    using rep_facts(7) [OF r] by (simp add: distinct_map distinct_remove1 inj_on_def)
  ultimately show ?thesis
    using r assms(1) i by (auto simp: list_iterator_destroy_def list_is_def list_rep_def)
qed

lemma next_locked_is:
  assumes "list_is l xs cs fd dl" "(k, jp, kp) \<in> set cs"
  shows "\<exists>l'. list_next_locked l k = Some (if kp < length xs then Some (xs ! kp) else None, l')
    \<and> list_is l' xs (cur_set k (kp, min (Suc kp) (length xs)) cs) fd dl"
proof -
  obtain ads fs where r: "list_rep l ads fs xs cs" using assms by (auto simp: list_is_def)
  note f = rep_facts [OF r] and c = rep_core [OF r]
  obtain i where i: "map_of (l_itrs l) k = Some i" "itr_at ads (k, i) (k, jp, kp)" by (rule rep_itr [OF r assms(2)])
  have b: "jp \<le> kp" "kp \<le> Suc jp" "kp \<le> length xs" using i(2) f(2) by simp_all
  have g: "slot_get l (i_prev i) = Some (ptr_at ads jp)"
    using core_slot_get [OF c, of jp] i(2) f(2) by simp
  have ne: "ptr_at ads jp = ptr_at ads kp \<longleftrightarrow> jp = kp" using ptr_at_eq_iff [OF f(6), of jp kp] b f(2) by simp
  let ?n = "min (Suc kp) (length xs)"
  let ?i = "i\<lparr>i_pos := ptr_at ads ?n, i_prev := slot_at ads kp\<rparr>"
  have at: "itr_at ads (k, ?i) (k, kp, ?n)" using i(2) f(2) b by auto
  have jp: "jp = kp \<or> jp < length xs \<and> kp = Suc jp" using b by auto
  have "list_next_locked l k = Some (if kp < length xs then Some (xs ! kp) else None, itr_put l k ?i)"
  proof (cases "kp < length xs")
    case True
    note look = rep_look [OF r True]
    from jp show ?thesis
    proof
      assume "jp = kp"
      with True i look g show ?thesis by (cases i) (simp add: list_next_locked_def Let_def)
    next
      assume j: "jp < length xs \<and> kp = Suc jp"
      with True i look g ne rep_look(2,4) [OF r, of jp] show ?thesis
        by (cases i) (simp add: list_next_locked_def Let_def)
    qed
  next
    case False
    then have e: "kp = length xs" using b by simp
    have p: "i_pos i = None" using i(2) e f(2) by simp
    from jp show ?thesis
    proof
      assume "jp = kp"
      with e i p g f(2) show ?thesis by (cases i) (simp add: list_next_locked_def Let_def)
    next
      assume j: "jp < length xs \<and> kp = Suc jp"
      with e i p g f(2) rep_look(2,4) [OF r, of jp] show ?thesis
        by (cases i) (simp add: list_next_locked_def Let_def)
    qed
  qed
  with rep_put [OF r at] assms(1) show ?thesis by (auto simp: list_is_def)
qed

lemma list_next_is:
  assumes "list_is l xs cs fd dl" "(k, jp, kp) \<in> set cs"
  shows "\<exists>l'. list_next l k = Some (if kp < length xs then Some (xs ! kp) else None, l')
    \<and> list_is l' xs (cur_set k (kp, min (Suc kp) (length xs)) cs) fd dl"
proof -
  obtain ads fs where r: "list_rep l ads fs xs cs" using assms by (auto simp: list_is_def)
  obtain i where "itr_get l k = Some i" by (rule rep_itr [OF r assms(2)])
  with next_locked_is [OF assms] show ?thesis by (simp add: list_next_def)
qed

lemma list_peek_next_is:
  assumes "list_is l xs cs fd dl" "(k, jp, kp) \<in> set cs"
  shows "list_peek_next l k = Some (if kp < length xs then Some (xs ! kp) else None)"
proof -
  obtain ads fs where r: "list_rep l ads fs xs cs" using assms by (auto simp: list_is_def)
  obtain i where i: "itr_at ads (k, i) (k, jp, kp)" "itr_get l k = Some i" by (rule rep_itr [OF r assms(2)])
  then show ?thesis using rep_look(2,3) [OF r, of kp] rep_facts(2) [OF r] by (auto simp: list_peek_next_def ptr_at_def)
qed

lemma list_insert_is:
  assumes "list_is l xs cs fd dl" "(k, jp, kp) \<in> set cs"
  shows "\<exists>l'. list_insert l k (Some v) = Some l' \<and> list_is l' (ins_at jp v xs) (map (cur_ins jp) cs) fd dl"
proof -
  obtain ads fs where r: "list_rep l ads fs xs cs" using assms by (auto simp: list_is_def)
  obtain i where i: "itr_at ads (k, i) (k, jp, kp)" "itr_get l k = Some i" by (rule rep_itr [OF r assms(2)])
  then have "jp \<le> length ads" by simp
  with node_create_rep [OF r, of jp v] i assms(1) show ?thesis by (auto simp: list_insert_def list_is_def)
qed

lemma list_remove_is:
  assumes "list_is l xs cs fd dl" "(k, jp, kp) \<in> set cs"
  shows "\<exists>l'. list_remove l k = Some (if jp = kp then None else Some (xs ! jp), l')
    \<and> (if jp = kp then l' = l else list_is l' (del_at jp xs) (map (cur_del jp) cs) fd dl)"
proof -
  obtain ads fs where r: "list_rep l ads fs xs cs" using assms by (auto simp: list_is_def)
  note f = rep_facts [OF r]
  obtain i where i: "itr_at ads (k, i) (k, jp, kp)" "itr_get l k = Some i" by (rule rep_itr [OF r assms(2)])
  then have b: "jp \<le> kp" "kp \<le> Suc jp" "kp \<le> length xs" using f(2) by simp_all
  have "slot_get l (i_prev i) = Some (ptr_at ads jp)" using core_slot_get [OF rep_core [OF r], of jp] i(1) f(2) by simp
  moreover have "ptr_at ads jp = ptr_at ads kp \<longleftrightarrow> jp = kp" using ptr_at_eq_iff [OF f(6), of jp kp] b f(2) by simp
  ultimately show ?thesis
    using i node_destroy_rep [OF r, of jp] b f(2) assms(1) by (cases "jp = kp") (auto simp: list_remove_def list_is_def)
qed

lemma list_delete_item_is:
  assumes "list_is l xs cs fd dl" "(k, jp, kp) \<in> set cs"
  shows "\<exists>l'. list_delete_item l k = Some (l', if jp = kp then 0 else 1)
    \<and> (if jp = kp then l' = l else list_is l' (del_at jp xs) (map (cur_del jp) cs) fd (dl @ del_log fd [xs ! jp]))"
proof -
  obtain l' where l': "list_remove l k = Some (if jp = kp then None else Some (xs ! jp), l')"
    "if jp = kp then l' = l else list_is l' (del_at jp xs) (map (cur_del jp) cs) fd dl"
    using list_remove_is [OF assms] by blast
  then have "list_is (call_fDel (xs ! jp) l') (del_at jp xs) (map (cur_del jp) cs) fd (dl @ del_log fd [xs ! jp])" if "jp \<noteq> kp"
    using that by (simp add: list_is_def)
  with l' show ?thesis by (cases "jp = kp") (simp_all add: list_delete_item_def)
qed

lemma list_find_loop_is:
  assumes "list_is l xs cs fd dl" "(k, jp, kp) \<in> set cs"
  shows "\<exists>l' cs'. list_find_loop l k f = Some (List.find f (drop kp xs), l') \<and> list_is l' xs cs' fd dl \<and> map fst cs' = map fst cs"
  using assms
proof (induction "length xs - kp" arbitrary: l cs jp kp rule: less_induct)
  case less
  let ?cs = "cur_set k (kp, min (Suc kp) (length xs)) cs"
  obtain l1 where l1: "list_next_locked l k = Some (if kp < length xs then Some (xs ! kp) else None, l1)" "list_is l1 xs ?cs fd dl"
    using next_locked_is [OF less.prems] by blast
  show ?case
  proof (cases "kp < length xs")
    case False
    with l1 show ?thesis by (subst list_find_loop.simps) (auto intro: exI [of _ ?cs])
  next
    case True
    have dr: "drop kp xs = xs ! kp # drop (Suc kp) xs" using True by (simp add: Cons_nth_drop_Suc)
    show ?thesis
    proof (cases "f (xs ! kp)")
      case fx: True
      with l1 True show ?thesis unfolding dr by (subst list_find_loop.simps) (auto intro: exI [of _ ?cs])
    next
      case fx: False
      have mem: "(k, kp, min (Suc kp) (length xs)) \<in> set ?cs" by (rule cur_set_member [OF less.prems(2)])
      have m: "min (Suc kp) (length xs) = Suc kp" using True by simp
      obtain l' cs' where "list_find_loop l1 k f = Some (List.find f (drop (Suc kp) xs), l')" "list_is l' xs cs' fd dl"
        "map fst cs' = map fst ?cs"
        using less.hyps [OF diff_less_mono2 [OF lessI True] l1(2), of kp] mem unfolding m by blast
      with l1(1) True fx show ?thesis unfolding dr by (subst list_find_loop.simps) auto
    qed
  qed
qed

lemma list_find_is:
  assumes "list_is l xs cs fd dl" "(k, jp, kp) \<in> set cs"
  shows "\<exists>l' cs'. list_find l k f = Some (List.find f (drop kp xs), l') \<and> list_is l' xs cs' fd dl \<and> map fst cs' = map fst cs"
proof -
  obtain ads fs where r: "list_rep l ads fs xs cs" using assms by (auto simp: list_is_def)
  obtain i where "itr_get l k = Some i" by (rule rep_itr [OF r assms(2)])
  with list_find_loop_is [OF assms, of f] show ?thesis by (simp add: list_find_def)
qed

end
