(* ===== verification/Xlist_Props.thy ===== *)
theory Xlist_Props
  imports Xlist_Ops
begin

text \<open>
  The interface that the rest of the program uses lists through (a queue whose elements can also be
  pushed to the front), its interpretation on src/common/list.c, loops over iterators as the callers
  write them, the reachable lists, and the properties of the component.
\<close>

subsection \<open>The queue interface\<close>

fun enq_all :: "('q \<Rightarrow> 'a \<Rightarrow> 'q option) \<Rightarrow> 'a list \<Rightarrow> 'q \<Rightarrow> 'q option" where
  "enq_all enq [] q = Some q"
| "enq_all enq (x # xs) q = enq q x \<bind> enq_all enq xs"

fun deq_n :: "('q \<Rightarrow> ('a option \<times> 'q) option) \<Rightarrow> nat \<Rightarrow> 'q \<Rightarrow> ('a option list \<times> 'q) option" where
  "deq_n deq 0 q = Some ([], q)"
| "deq_n deq (Suc n) q = do { (r, q') \<leftarrow> deq q; (rs, q'') \<leftarrow> deq_n deq n q'; Some (r # rs, q'') }"

locale fifo =
  fixes holds :: "'q \<Rightarrow> 'a list \<Rightarrow> bool"
    and enq :: "'q \<Rightarrow> 'a \<Rightarrow> 'q option"
    and deq :: "'q \<Rightarrow> ('a option \<times> 'q) option"
  assumes enq_law: "\<And>q xs x. holds q xs \<Longrightarrow> \<exists>q'. enq q x = Some q' \<and> holds q' (xs @ [x])"
    and deq_law: "\<And>q x xs. holds q (x # xs) \<Longrightarrow> \<exists>q'. deq q = Some (Some x, q') \<and> holds q' xs"
    and deq_empty: "\<And>q. holds q [] \<Longrightarrow> deq q = Some (None, q)"
begin

lemma enq_all_holds: "holds q xs \<Longrightarrow> \<exists>q'. enq_all enq ys q = Some q' \<and> holds q' (xs @ ys)"
proof (induction ys arbitrary: q xs)
  case (Cons y ys)
  obtain q1 where q1: "enq q y = Some q1" "holds q1 (xs @ [y])" using enq_law [OF Cons.prems] by blast
  show ?case using Cons.IH [OF q1(2)] q1(1) by simp
qed simp

lemma deq_n_holds: "holds q (xs @ ys) \<Longrightarrow> \<exists>q'. deq_n deq (length xs) q = Some (map Some xs, q') \<and> holds q' ys"
proof (induction xs arbitrary: q)
  case (Cons x xs)
  obtain q1 where q1: "deq q = Some (Some x, q1)" "holds q1 (xs @ ys)" using deq_law [of q x "xs @ ys"] Cons.prems by auto
  show ?case using Cons.IH [OF q1(2)] q1(1) by auto
qed simp

text \<open>What goes in comes out in the same order, and then the queue is empty.\<close>

lemma fifo_order:
  assumes "holds q []"
  shows "\<exists>q1 q2. enq_all enq xs q = Some q1 \<and> deq_n deq (length xs) q1 = Some (map Some xs, q2)
    \<and> deq q2 = Some (None, q2)"
proof -
  obtain q1 where q1: "enq_all enq xs q = Some q1" "holds q1 xs" using enq_all_holds [OF assms, of xs] by auto
  obtain q2 where "deq_n deq (length xs) q1 = Some (map Some xs, q2)" "holds q2 []"
    using deq_n_holds [of q1 xs "[]"] q1(2) by auto
  with q1(1) deq_empty show ?thesis by blast
qed

end

locale fifo_push = fifo +
  fixes push :: "'a \<Rightarrow> 'b \<Rightarrow> 'a option"
  assumes push_law: "\<And>q xs x. holds q xs \<Longrightarrow> \<exists>q'. push q x = Some q' \<and> holds q' (x # xs)"
begin

text \<open>A pushed element overtakes all others: it is the next to come out.\<close>

lemma push_overtakes:
  assumes "holds q xs"
  shows "\<exists>q1 q2. push q x = Some q1 \<and> deq q1 = Some (Some x, q2) \<and> holds q2 xs"
  using push_law [OF assms, of x] deq_law by blast

end

definition list_holds :: "'a xlist \<Rightarrow> 'a list \<Rightarrow> bool" where
  "list_holds l xs \<longleftrightarrow> (\<exists>ks fd dl. list_val l xs ks fd dl)"

interpretation lq: fifo_push list_holds "\<lambda>l x. list_append l (Some x)" list_pop "\<lambda>l x. list_push l (Some x)"
proof
  fix q :: "'a xlist" and xs :: "'a list" and x
  show "\<exists>q'. list_append q (Some x) = Some q' \<and> list_holds q' (xs @ [x])" if "list_holds q xs"
    using that list_append_is by (fastforce simp: list_holds_def list_val_def)
  show "\<exists>q'. list_pop q = Some (Some x, q') \<and> list_holds q' xs" if "list_holds q (x # xs)"
    using that list_pop_is by (fastforce simp: list_holds_def list_val_def)
  show "list_pop q = Some (None, q)" if "list_holds q []"
    using that list_pop_empty by (auto simp: list_holds_def list_val_def)
  show "\<exists>q'. list_push q (Some x) = Some q' \<and> list_holds q' (x # xs)" if "list_holds q xs"
    using that list_push_is by (fastforce simp: list_holds_def list_val_def)
qed

lemma list_create_holds: "list_holds (list_create f) []"
  using list_create_is by (auto simp: list_holds_def list_val_def)

subsection \<open>Loops over an iterator\<close>

text \<open>\<^verbatim>\<open>while ((x = list_next(itr))) ...\<close> collecting what it sees.\<close>

partial_function (option) iterate :: "'a xlist \<Rightarrow> nat \<Rightarrow> ('a list \<times> 'a xlist) option" where
  "iterate l k = do {
     (vo, l') \<leftarrow> list_next l k;
     case vo of
       None \<Rightarrow> Some ([], l')
     | Some v \<Rightarrow> do { (vs, l'') \<leftarrow> iterate l' k; Some (v # vs, l'') } }"

lemma iterate_is:
  assumes "list_is l xs cs fd dl" "(k, jp, kp) \<in> set cs" "kp \<le> length xs"
  shows "\<exists>l' cs'. iterate l k = Some (drop kp xs, l') \<and> list_is l' xs cs' fd dl \<and> map fst cs' = map fst cs"
  using assms
proof (induction "length xs - kp" arbitrary: l cs jp kp)
  case 0
  then have "kp = length xs" by simp
  with 0 list_next_is [OF 0(2,3)] show ?case by (subst iterate.simps) fastforce
next
  case (Suc m)
  then have lt: "kp < length xs" by simp
  let ?cs = "cur_set k (kp, Suc kp) cs"
  obtain l1 where l1: "list_next l k = Some (Some (xs ! kp), l1)" "list_is l1 xs ?cs fd dl"
    using list_next_is [OF Suc.prems(1,2)] lt by auto
  have "\<exists>l' cs'. iterate l1 k = Some (drop (Suc kp) xs, l') \<and> list_is l' xs cs' fd dl \<and> map fst cs' = map fst ?cs"
    by (rule Suc.hyps(1) [OF _ l1(2) cur_set_member [OF Suc.prems(2)]]) (use Suc.hyps(2) lt in auto)
  then obtain l' cs' where "iterate l1 k = Some (drop (Suc kp) xs, l')" "list_is l' xs cs' fd dl" "map fst cs' = map fst cs" by auto
  moreover have "xs ! kp # drop (Suc kp) xs = drop kp xs" using lt by (simp add: Cons_nth_drop_Suc)
  ultimately show ?case using l1(1) by (subst iterate.simps) auto
qed

text \<open>\<^verbatim>\<open>while ((x = list_next(itr))) if (f(x)) list_delete_item(itr);\<close>\<close>

partial_function (option) sweep :: "('a \<Rightarrow> bool) \<Rightarrow> 'a xlist \<Rightarrow> nat \<Rightarrow> 'a xlist option" where
  "sweep f l k = do {
     (vo, l') \<leftarrow> list_next l k;
     case vo of
       None \<Rightarrow> Some l'
     | Some v \<Rightarrow> if f v then do { (l'', n) \<leftarrow> list_delete_item l' k; sweep f l'' k } else sweep f l' k }"

lemma sweep_is:
  assumes "list_is l (us @ vs) cs fd dl" "(k, jp, length us) \<in> set cs"
  shows "\<exists>l'. sweep f l k = Some l' \<and> list_val l' (us @ filter (\<lambda>x. \<not> f x) vs) (map fst cs) fd (dl @ del_log fd (filter f vs))"
  using assms
proof (induction vs arbitrary: l us cs jp dl)
  case Nil
  let ?cs = "cur_set k (length us, length us) cs"
  obtain l1 where "list_next l k = Some (None, l1)" "list_is l1 us ?cs fd dl"
    using list_next_is [OF Nil] by auto
  then show ?case by (subst sweep.simps) (auto simp: list_val_def intro!: exI [of _ ?cs])
next
  case (Cons v vs)
  let ?cs = "cur_set k (length us, Suc (length us)) cs"
  obtain l1 where l1: "list_next l k = Some (Some v, l1)" "list_is l1 (us @ v # vs) ?cs fd dl"
    using list_next_is [OF Cons.prems] by (auto simp: nth_append)
  have mem: "(k, length us, Suc (length us)) \<in> set ?cs" by (rule cur_set_member [OF Cons.prems(2)])
  show ?case
  proof (cases "f v")
    case True
    let ?cd = "map (cur_del (length us)) ?cs"
    obtain l2 where l2: "list_delete_item l1 k = Some (l2, 1)" "list_is l2 (us @ vs) ?cd fd (dl @ del_log fd [v])"
      using list_delete_item_is [OF l1(2) mem] by auto
    have "cur_del (length us) (k, length us, Suc (length us)) = (k, length us, length us)" by simp
    then have "(k, length us, length us) \<in> set ?cd" using mem by (metis image_eqI list.set_map)
    from Cons.IH [OF l2(2) this] True l1(1) l2(1) del_log_Cons [of fd v "filter f vs"] show ?thesis
      by (subst sweep.simps) simp
  next
    case False
    have "list_is l1 ((us @ [v]) @ vs) ?cs fd dl" "(k, length us, length (us @ [v])) \<in> set ?cs" using l1(2) mem by simp_all
    from Cons.IH [OF this] False l1(1) show ?thesis by (subst sweep.simps) simp
  qed
qed

subsection \<open>Reachable lists\<close>

inductive list_step :: "'a xlist \<Rightarrow> 'a xlist \<Rightarrow> bool" where
  append: "list_append l (Some x) = Some l' \<Longrightarrow> list_step l l'"
| push: "list_push l (Some x) = Some l' \<Longrightarrow> list_step l l'"
| pop: "list_pop l = Some (r, l') \<Longrightarrow> list_step l l'"
| remove_first: "list_remove_first l f = Some (r, l') \<Longrightarrow> list_step l l'"
| delete_all: "list_delete_all l f = Some (l', n) \<Longrightarrow> list_step l l'"
| delete_first: "list_delete_first l g = Some (l', n) \<Longrightarrow> list_step l l'"
| delete_ptr: "list_delete_ptr l (Some x) = Some (l', n) \<Longrightarrow> list_step l l'"
| flush_max: "list_flush_max l mx = Some (l', n) \<Longrightarrow> list_step l l'"
| flip: "list_flip l = Some l' \<Longrightarrow> list_step l l'"
| sort: "list_sort qs l = Some l' \<Longrightarrow> qsort_spec cmp qs \<Longrightarrow> list_step l l'"
| transfer_in: "list_transfer_max l sub mx = Some (l', sub', n) \<Longrightarrow> list_holds sub ys \<Longrightarrow> list_step l l'"
| transfer_out: "list_transfer_max m l mx = Some (m', l', n) \<Longrightarrow> list_holds m ys \<Longrightarrow> list_step l l'"
| transfer_match: "list_transfer_match l sub f = Some (l', sub', n) \<Longrightarrow> list_holds sub ys \<Longrightarrow> list_step l l'"
| transfer_unique: "list_transfer_unique l eq sub = Some (l', sub', n) \<Longrightarrow> list_holds sub ys \<Longrightarrow> list_step l l'"
| iterator_create: "list_iterator_create k l = Some l' \<Longrightarrow> list_step l l'"
| iterator_reset: "list_iterator_reset l k = Some l' \<Longrightarrow> list_step l l'"
| iterator_destroy: "list_iterator_destroy l k = Some l' \<Longrightarrow> list_step l l'"
| list_next: "list_next l k = Some (r, l') \<Longrightarrow> list_step l l'"
| insert: "list_insert l k (Some x) = Some l' \<Longrightarrow> list_step l l'"
| find: "list_find l k f = Some (r, l') \<Longrightarrow> list_step l l'"
| remove: "list_remove l k = Some (r, l') \<Longrightarrow> list_step l l'"
| delete_item: "list_delete_item l k = Some (l', n) \<Longrightarrow> list_step l l'"

inductive list_reach :: "'a xlist \<Rightarrow> bool" where
  create: "list_reach (list_create f)"
| step: "list_reach l \<Longrightarrow> list_step l l' \<Longrightarrow> list_reach l'"

lemma rep_ids:
  assumes "list_rep l ads fs xs cs"
  shows "map fst (l_itrs l) = map fst cs"
proof -
  have "list_all2 (itr_at ads) (l_itrs l) cs" using assms by (simp add: list_rep_def)
  then show ?thesis
  proof (induction rule: list_all2_induct)
    case (Cons i "is" c cs)
    then show ?case by (cases i; cases c) auto
  qed simp
qed

lemma live_cursor:
  assumes "list_rep l ads fs xs cs" "k \<in> fst ` set (l_itrs l)"
  obtains jp kp where "(k, jp, kp) \<in> set cs"
proof -
  have "k \<in> fst ` set cs" using assms rep_ids [OF assms(1)] by (metis list.set_map)
  then show thesis using that by fastforce
qed

lemma itr_get_live: "itr_get l k = Some i \<Longrightarrow> k \<in> fst ` set (l_itrs l)"
  by (auto simp: itr_get_def bind_eq_Some_conv dest!: map_of_SomeD intro: rev_image_eqI)

lemma holdsE:
  assumes "list_holds l xs"
  obtains ads fs cs where "list_rep l ads fs xs cs"
  using assms by (auto simp: list_holds_def elim: list_valE)

lemma holds_is: "list_rep l ads fs xs cs \<Longrightarrow> list_is l xs cs (l_fDel l) (l_deleted l)"
  by (auto simp: list_is_def)

lemma is_holds: "list_is l xs cs fd dl \<Longrightarrow> list_holds l xs"
  by (auto simp: list_holds_def list_val_def)

lemma val_holds: "list_val l xs ks fd dl \<Longrightarrow> list_holds l xs"
  by (auto simp: list_holds_def)

text \<open>The operations through an iterator keep the list well-formed and return when the iterator is live.\<close>

lemma iterator_ops:
  assumes h: "list_holds l xs" and live: "k \<in> fst ` set (l_itrs l)"
  shows "\<exists>l'. list_iterator_reset l k = Some l' \<and> list_holds l' xs"
    "\<exists>l'. list_iterator_destroy l k = Some l' \<and> list_holds l' xs"
    "\<exists>r l'. list_next l k = Some (r, l') \<and> list_holds l' xs"
    "\<exists>r l'. list_find l k f = Some (r, l') \<and> list_holds l' xs"
    "\<exists>l' ys. list_insert l k (Some x) = Some l' \<and> list_holds l' ys"
    "\<exists>r l' ys. list_remove l k = Some (r, l') \<and> list_holds l' ys"
    "\<exists>n l' ys. list_delete_item l k = Some (l', n) \<and> list_holds l' ys"
proof -
  obtain ads fs cs where r: "list_rep l ads fs xs cs" using h by (rule holdsE)
  obtain jp kp where m: "(k, jp, kp) \<in> set cs" using r live by (rule live_cursor)
  note i = holds_is [OF r]
  show "\<exists>l'. list_iterator_reset l k = Some l' \<and> list_holds l' xs"
    using list_iterator_reset_is [OF i m] is_holds by blast
  show "\<exists>l'. list_iterator_destroy l k = Some l' \<and> list_holds l' xs"
    using list_iterator_destroy_is [OF i m] is_holds by blast
  show "\<exists>r l'. list_next l k = Some (r, l') \<and> list_holds l' xs"
    using list_next_is [OF i m] is_holds by blast
  show "\<exists>r l'. list_find l k f = Some (r, l') \<and> list_holds l' xs"
    using list_find_is [OF i m, of f] is_holds by blast
  show "\<exists>l' ys. list_insert l k (Some x) = Some l' \<and> list_holds l' ys"
    using list_insert_is [OF i m, of x] is_holds by blast
  show "\<exists>r l' ys. list_remove l k = Some (r, l') \<and> list_holds l' ys"
    using list_remove_is [OF i m] is_holds h by (cases "jp = kp") fastforce+
  show "\<exists>n l' ys. list_delete_item l k = Some (l', n) \<and> list_holds l' ys"
    using list_delete_item_is [OF i m] is_holds h by (cases "jp = kp") fastforce+
qed

lemma iterator_ops_live:
  "list_iterator_reset l k = Some l' \<Longrightarrow> k \<in> fst ` set (l_itrs l)"
  "list_iterator_destroy l k = Some l' \<Longrightarrow> k \<in> fst ` set (l_itrs l)"
  "list_next l k = Some (r, l') \<Longrightarrow> k \<in> fst ` set (l_itrs l)"
  "list_find l k f = Some (r, l') \<Longrightarrow> k \<in> fst ` set (l_itrs l)"
  "list_insert l k (Some x) = Some l' \<Longrightarrow> k \<in> fst ` set (l_itrs l)"
  "list_remove l k = Some (r, l') \<Longrightarrow> k \<in> fst ` set (l_itrs l)"
  "list_delete_item l k = Some (l', n) \<Longrightarrow> k \<in> fst ` set (l_itrs l)"
  by (auto simp: list_iterator_reset_def list_iterator_destroy_def list_next_def list_find_def list_insert_def
      list_remove_def list_delete_item_def bind_eq_Some_conv dest!: itr_get_live)

lemma whole_list_ops:
  assumes "list_holds l xs"
  shows "\<exists>r l' ys. list_remove_first l f = Some (r, l') \<and> list_holds l' ys"
    "\<exists>n l' ys. list_delete_all l f = Some (l', n) \<and> list_holds l' ys"
    "\<exists>n l' ys. list_delete_first l g = Some (l', n) \<and> list_holds l' ys"
    "\<exists>n l' ys. list_delete_ptr l (Some x) = Some (l', n) \<and> list_holds l' ys"
    "\<exists>n l' ys. list_flush_max l mx = Some (l', n) \<and> list_holds l' ys"
    "\<exists>l' ys. list_flip l = Some l' \<and> list_holds l' ys"
    "qsort_spec cmp qs \<Longrightarrow> \<exists>l' ys. list_sort qs l = Some l' \<and> list_holds l' ys"
proof -
  obtain ks fd dl where v: "list_val l xs ks fd dl" using assms by (auto simp: list_holds_def)
  show "\<exists>r l' ys. list_remove_first l f = Some (r, l') \<and> list_holds l' ys"
    using list_remove_first_val [OF v, of f] val_holds by blast
  show "\<exists>n l' ys. list_delete_all l f = Some (l', n) \<and> list_holds l' ys"
    using list_delete_all_val [OF v, of f] val_holds by blast
  show "\<exists>n l' ys. list_delete_first l g = Some (l', n) \<and> list_holds l' ys"
    using list_delete_first_val [OF v, of g] val_holds by (metis prod_cases3)
  show "\<exists>n l' ys. list_delete_ptr l (Some x) = Some (l', n) \<and> list_holds l' ys"
    using list_delete_ptr_val [OF v, of x] val_holds by blast
  show "\<exists>n l' ys. list_flush_max l mx = Some (l', n) \<and> list_holds l' ys"
    using list_flush_max_val [OF v, of mx] val_holds by blast
  show "\<exists>l' ys. list_flip l = Some l' \<and> list_holds l' ys"
    using list_flip_val [OF v] val_holds by blast
  show "\<exists>l' ys. list_sort qs l = Some l' \<and> list_holds l' ys" if "qsort_spec cmp qs"
    using list_sort_val [OF v that] val_holds by blast
qed

lemma transfer_ops:
  assumes "list_holds l xs" "list_holds sub ys" "l_fDel l = l_fDel sub"
  shows "\<exists>n l' sub' zs ws. list_transfer_max l sub mx = Some (l', sub', n) \<and> list_holds l' zs \<and> list_holds sub' ws"
    "\<exists>n l' sub' zs ws. list_transfer_match l sub f = Some (l', sub', n) \<and> list_holds l' zs \<and> list_holds sub' ws"
    "\<exists>n l' sub' zs ws. list_transfer_unique l eq sub = Some (l', sub', n) \<and> list_holds l' zs \<and> list_holds sub' ws"
proof -
  obtain ks fd dl ks' dl' where v: "list_val l xs ks fd dl" "list_val sub ys ks' fd dl'"
    using assms by (metis list_holds_def list_val_fDel)
  show "\<exists>n l' sub' zs ws. list_transfer_max l sub mx = Some (l', sub', n) \<and> list_holds l' zs \<and> list_holds sub' ws"
    using list_transfer_max_val [OF v, of mx] val_holds by blast
  show "\<exists>n l' sub' zs ws. list_transfer_match l sub f = Some (l', sub', n) \<and> list_holds l' zs \<and> list_holds sub' ws"
    using list_transfer_match_val [OF v, of f] val_holds by blast
  show "\<exists>n l' sub' zs ws. list_transfer_unique l eq sub = Some (l', sub', n) \<and> list_holds l' zs \<and> list_holds sub' ws"
    using list_transfer_unique_val [OF v, of eq] val_holds by blast
qed

lemma transfer_same_fDel:
  "list_transfer_max l sub mx = Some r \<Longrightarrow> l_fDel l = l_fDel sub"
  "list_transfer_match l sub f = Some r \<Longrightarrow> l_fDel l = l_fDel sub"
  "list_transfer_unique l eq sub = Some r \<Longrightarrow> l_fDel l = l_fDel sub"
  by (auto simp: list_transfer_max_def list_transfer_match_def list_transfer_unique_def split: if_splits)

lemma iterator_create_fresh:
  assumes "list_holds l xs" "list_iterator_create k l = Some l'"
  shows "list_holds l' xs"
proof -
  obtain ads fs cs where r: "list_rep l ads fs xs cs" using assms(1) by (rule holdsE)
  have "k \<notin> fst ` set cs"
    using assms(2) rep_ids [OF r] by (auto simp: list_iterator_create_def split: if_splits) (metis image_eqI fst_conv list.set_map)
  from list_iterator_create_is [OF holds_is [OF r] this] assms(2) show ?thesis using is_holds by auto
qed

lemma list_step_holds:
  assumes "list_step l l'" "list_holds l xs"
  shows "\<exists>ys. list_holds l' ys"
  using assms
proof (induction rule: list_step.induct)
  case (append l x l')
  then show ?case using lq.enq_law [of l xs x] by auto
next
  case (push l x l')
  then show ?case using lq.push_law [of l xs x] by auto
next
  case (pop l r l')
  then show ?case using lq.deq_law [of l] lq.deq_empty [of l] by (cases xs) fastforce+
next
  case (transfer_in l sub mx l' sub' n ys)
  then show ?case using transfer_ops(1) [OF transfer_in(3,2) transfer_same_fDel(1) [OF transfer_in(1)], of mx] by auto
next
  case (transfer_out m l mx m' l' n ys)
  then show ?case using transfer_ops(1) [OF transfer_out(2,3) transfer_same_fDel(1) [OF transfer_out(1)], of mx] by auto
next
  case (transfer_match l sub f l' sub' n ys)
  then show ?case using transfer_ops(2) [OF transfer_match(3,2) transfer_same_fDel(2) [OF transfer_match(1)], of f] by auto
next
  case (transfer_unique l eq sub l' sub' n ys)
  then show ?case using transfer_ops(3) [OF transfer_unique(3,2) transfer_same_fDel(3) [OF transfer_unique(1)], of eq] by auto
next
  case (iterator_create k l l')
  then show ?case using iterator_create_fresh by blast
next
  case (remove_first l f r l')
  then show ?case using whole_list_ops(1) [OF remove_first(2), of f] by auto
next
  case (delete_all l f l' n)
  then show ?case using whole_list_ops(2) [OF delete_all(2), of f] by auto
next
  case (delete_first l g l' n)
  then show ?case using whole_list_ops(3) [OF delete_first(2), of g] by auto
next
  case (delete_ptr l x l' n)
  then show ?case using whole_list_ops(4) [OF delete_ptr(2), of x] by auto
next
  case (flush_max l mx l' n)
  then show ?case using whole_list_ops(5) [OF flush_max(2), of mx] by auto
next
  case (flip l l')
  then show ?case using whole_list_ops(6) [OF flip(2)] by auto
next
  case (sort qs l l' cmp)
  then show ?case using whole_list_ops(7) [OF sort(3,2)] by auto
next
  case (iterator_reset l k l')
  then show ?case using iterator_ops(1) [OF iterator_reset(2) iterator_ops_live(1) [OF iterator_reset(1)]] by auto
next
  case (iterator_destroy l k l')
  then show ?case using iterator_ops(2) [OF iterator_destroy(2) iterator_ops_live(2) [OF iterator_destroy(1)]] by auto
next
  case (list_next l k r l')
  then show ?case using iterator_ops(3) [OF list_next(2) iterator_ops_live(3) [OF list_next(1)]] by auto
next
  case (find l k f r l')
  then show ?case using iterator_ops(4) [OF find(2) iterator_ops_live(4) [OF find(1)], of f] by auto
next
  case (insert l k x l')
  then show ?case using iterator_ops(5) [OF insert(2) iterator_ops_live(5) [OF insert(1)], of x] by auto
next
  case (remove l k r l')
  then show ?case using iterator_ops(6) [OF remove(2) iterator_ops_live(6) [OF remove(1)]] by auto
next
  case (delete_item l k l' n)
  then show ?case using iterator_ops(7) [OF delete_item(2) iterator_ops_live(7) [OF delete_item(1)]] by auto
qed

lemma list_reach_holds: "list_reach l \<Longrightarrow> \<exists>xs. list_holds l xs"
proof (induction rule: list_reach.induct)
  case (create f)
  then show ?case using list_create_holds by blast
next
  case (step l l')
  then show ?case using list_step_holds by blast
qed

text \<open>Lists for the instances: any data, with an iterator at the head.\<close>

lemma list_val_exists: "\<exists>l. list_reach l \<and> list_val l xs [] fd []"
proof (induction xs rule: rev_induct)
  case Nil
  show ?case using list_create_is list_reach.create by (fastforce simp: list_val_def)
next
  case (snoc x xs)
  then obtain l where l: "list_reach l" "list_val l xs [] fd []" by blast
  then obtain l' where l': "list_append l (Some x) = Some l'" "list_val l' (xs @ [x]) [] fd []"
    using list_append_is [of l xs "[]" fd "[]" x] by (auto simp: list_val_def)
  from list_reach.step [OF l(1) list_step.append [OF l'(1)]] l'(2) show ?case by blast
qed

lemma list_itr_exists: "\<exists>l. list_reach l \<and> list_is l xs [(k, 0, 0)] fd []"
proof -
  obtain l where l: "list_reach l" "list_val l xs [] fd []" using list_val_exists by blast
  then have "list_is l xs [] fd []" by (auto simp: list_val_def)
  then obtain l' where l': "list_iterator_create k l = Some l'" "list_is l' xs [(k, 0, 0)] fd []"
    using list_iterator_create_is [of l xs "[]" fd "[]" k] by auto
  from list_reach.step [OF l(1) list_step.iterator_create [OF l'(1)]] l'(2) show ?thesis by blast
qed

subsection \<open>Properties\<close>

text \<open>C18. In every reachable list the nodes in use, the free nodes and the page heads are disjoint chains
  that together are all allocated nodes (nothing is leaked or shared), the tail link and the count are
  right, and every live iterator stands at a link of the list with its next element at or directly
  after it.\<close>

theorem list_invariant:
  assumes "list_reach l"
  shows "\<exists>ads fs xs cs. list_rep l ads fs xs cs"
proof -
  obtain xs where "list_holds l xs" using list_reach_holds [OF assms] by blast
  then obtain ads fs cs where "list_rep l ads fs xs cs" by (rule holdsE)
  then show ?thesis by (intro exI)
qed

theorem list_invariant_witness: "\<exists>l. list_reach (l::nat xlist) \<and> l_count l = 2 \<and> (\<exists>ads fs xs cs. list_rep l ads fs xs cs)"
proof -
  obtain l :: "nat xlist" where l: "list_reach l" "list_val l [1, 2] [] None []" using list_val_exists by blast
  then show ?thesis using list_invariant [OF l(1)] list_val_count [OF l(2)] by (intro exI [of _ l] conjI) simp_all
qed

text \<open>C19. No assertion of list.c fails and no access leaves the list: on every reachable list the operations
  return, through a live iterator too, and destroying the list succeeds.\<close>

theorem list_ops_return:
  assumes "list_reach l"
  shows "list_append l (Some x) \<noteq> None \<and> list_push l (Some x) \<noteq> None \<and> list_pop l \<noteq> None \<and> list_peek l \<noteq> None
    \<and> list_find_first l f \<noteq> None \<and> list_delete_all l f \<noteq> None \<and> list_flip l \<noteq> None \<and> list_destroy l \<noteq> None
    \<and> (k \<in> fst ` set (l_itrs l) \<longrightarrow> list_next l k \<noteq> None \<and> list_insert l k (Some x) \<noteq> None \<and> list_remove l k \<noteq> None)
    \<and> (k \<notin> fst ` set (l_itrs l) \<longrightarrow> list_iterator_create k l \<noteq> None)"
proof (intro conjI impI)
  obtain xs where h: "list_holds l xs" using list_reach_holds [OF assms] by blast
  obtain ks fd dl where v: "list_val l xs ks fd dl" using h by (auto simp: list_holds_def)
  then obtain cs where i: "list_is l xs cs fd dl" by (auto simp: list_val_def)
  show "list_append l (Some x) \<noteq> None" "list_push l (Some x) \<noteq> None" using lq.enq_law [OF h] lq.push_law [OF h] by force+
  show "list_pop l \<noteq> None" using lq.deq_law [of l] lq.deq_empty [of l] h by (cases xs) fastforce+
  show "list_peek l \<noteq> None" "list_find_first l f \<noteq> None" using list_peek_is [OF i] list_find_first_val [OF v] by simp_all
  show "list_delete_all l f \<noteq> None" "list_flip l \<noteq> None" using whole_list_ops(2,6) [OF h] by force+
  show "list_destroy l \<noteq> None" using list_destroy_val [OF v] by force
  show "list_next l k \<noteq> None" "list_insert l k (Some x) \<noteq> None" "list_remove l k \<noteq> None" if "k \<in> fst ` set (l_itrs l)"
    using iterator_ops(3,5,6) [OF h that] by force+
  show "list_iterator_create k l \<noteq> None" if "k \<notin> fst ` set (l_itrs l)"
    using that list_val_magic [OF v] by (simp add: list_iterator_create_def)
qed

theorem list_ops_return_witness: "\<exists>l. list_reach (l::nat xlist) \<and> l_count l = 3 \<and> list_pop l \<noteq> None"
proof -
  obtain l :: "nat xlist" where l: "list_reach l" "list_val l [5, 6, 7] [] None []" using list_val_exists by blast
  then show ?thesis using list_ops_return [OF l(1)] list_val_count [OF l(2)] by auto
qed

text \<open>C20. A list is a queue: elements appended to a new list are popped in the same order, however many nodes
  that takes, and then the list is empty; a pushed element is popped first.\<close>

theorem list_fifo:
  "\<exists>l1 l2. enq_all (\<lambda>l x. list_append l (Some x)) xs (list_create fd) = Some l1
     \<and> deq_n list_pop (length xs) l1 = Some (map Some xs, l2) \<and> list_pop l2 = Some (None, l2)
     \<and> (\<exists>l3 l4. list_push l1 (Some x) = Some l3 \<and> list_pop l3 = Some (Some x, l4) \<and> list_holds l4 xs)"
proof -
  obtain l1 l2 where 1: "enq_all (\<lambda>l x. list_append l (Some x)) xs (list_create fd) = Some l1"
    "deq_n list_pop (length xs) l1 = Some (map Some xs, l2)" "list_pop l2 = Some (None, l2)"
    using lq.fifo_order [OF list_create_holds, of xs] by blast
  have "list_holds l1 xs" using lq.enq_all_holds [OF list_create_holds, of xs fd] 1(1) by simp
  from lq.push_overtakes [OF this, of x] 1 show ?thesis by blast
qed

text \<open>C21. The loop over \<open>list_next\<close> from a fresh iterator ends and sees every element once and in order; with
  \<open>list_delete_item\<close> inside the loop it deletes exactly the chosen elements, and leaves the list as
  \<open>list_delete_all\<close> does.\<close>

theorem list_iteration:
  assumes "list_is l xs cs fd dl" "(k, jp, 0) \<in> set cs"
  shows "(\<exists>l'. iterate l k = Some (xs, l') \<and> list_holds l' xs)
    \<and> (\<exists>l1 l2 n. sweep f l k = Some l1 \<and> list_delete_all l f = Some (l2, n)
       \<and> list_val l1 (filter (\<lambda>x. \<not> f x) xs) (map fst cs) fd (dl @ del_log fd (filter f xs))
       \<and> list_val l2 (filter (\<lambda>x. \<not> f x) xs) (map fst cs) fd (dl @ del_log fd (filter f xs)))"
proof (intro conjI)
  show "\<exists>l'. iterate l k = Some (xs, l') \<and> list_holds l' xs"
    using iterate_is [OF assms] is_holds by auto
  have v: "list_val l xs (map fst cs) fd dl" using assms(1) by (auto simp: list_val_def)
  have "list_is l ([] @ xs) cs fd dl" "(k, jp, length ([] :: 'a list)) \<in> set cs" using assms by simp_all
  from sweep_is [OF this, of f] list_delete_all_val [OF v, of f]
  show "\<exists>l1 l2 n. sweep f l k = Some l1 \<and> list_delete_all l f = Some (l2, n)
       \<and> list_val l1 (filter (\<lambda>x. \<not> f x) xs) (map fst cs) fd (dl @ del_log fd (filter f xs))
       \<and> list_val l2 (filter (\<lambda>x. \<not> f x) xs) (map fst cs) fd (dl @ del_log fd (filter f xs))" by auto
qed

theorem list_iteration_witness:
  "\<exists>l l'. list_is (l::nat xlist) [1, 2, 3] [(9, 0, 0)] None [] \<and> iterate l 9 = Some ([1, 2, 3], l')"
proof -
  obtain l :: "nat xlist" where l: "list_is l [1, 2, 3] [(9, 0, 0)] None []" using list_itr_exists by blast
  have "(9, 0, 0) \<in> set [(9, 0, 0)]" by simp
  from list_iteration [OF l this, THEN conjunct1] l show ?thesis by blast
qed

text \<open>C22. The bulk operations on the data: deleting by predicate, by first match and by pointer hand exactly the
  removed data to the delete function; transfers move data between two lists without losing any.\<close>

theorem list_bulk:
  assumes l: "list_val l xs ks fd dl" and s: "list_val sub ys ks' fd dl'"
  shows "(\<exists>l'. list_delete_all l f = Some (l', int (length (filter f xs)))
      \<and> list_val l' (filter (\<lambda>x. \<not> f x) xs) ks fd (dl @ del_log fd (filter f xs)))
    \<and> (\<exists>l'. list_delete_ptr l (Some x) = Some (l', if x \<in> set xs then 1 else 0)
      \<and> list_val l' (remove1 x xs) ks fd (dl @ del_log fd (if x \<in> set xs then [x] else [])))
    \<and> (\<exists>l'. list_remove_first l f = Some (List.find f xs, l') \<and> list_val l' (snd (rem_first f xs)) ks fd dl)
    \<and> (\<exists>l' sub'. list_transfer l sub = Some (l', sub', int (length ys)) \<and> list_val l' (xs @ ys) ks fd dl \<and> list_val sub' [] ks' fd dl')
    \<and> (\<exists>l' sub'. list_transfer_match l sub f = Some (l', sub', int (length (filter f xs)))
      \<and> list_val l' (filter (\<lambda>x. \<not> f x) xs) ks fd dl \<and> list_val sub' (ys @ filter f xs) ks' fd dl')
    \<and> (\<exists>l' sub' zs ws n. list_transfer_unique l eq sub = Some (l', sub', n) \<and> list_val l' zs ks fd dl \<and> list_val sub' ws ks' fd dl'
      \<and> mset zs + mset ws = mset xs + mset ys \<and> int (length zs) = int (length xs) + n)"
proof (intro conjI)
  show "\<exists>l'. list_delete_all l f = Some (l', int (length (filter f xs)))
      \<and> list_val l' (filter (\<lambda>x. \<not> f x) xs) ks fd (dl @ del_log fd (filter f xs))" by (rule list_delete_all_val [OF l])
  show "\<exists>l'. list_delete_ptr l (Some x) = Some (l', if x \<in> set xs then 1 else 0)
      \<and> list_val l' (remove1 x xs) ks fd (dl @ del_log fd (if x \<in> set xs then [x] else []))" by (rule list_delete_ptr_val [OF l])
  have "fst (rem_first f xs) = List.find f xs" by (induction xs) auto
  then show "\<exists>l'. list_remove_first l f = Some (List.find f xs, l') \<and> list_val l' (snd (rem_first f xs)) ks fd dl"
    using list_remove_first_val [OF l, of f] by simp
  show "\<exists>l' sub'. list_transfer l sub = Some (l', sub', int (length ys)) \<and> list_val l' (xs @ ys) ks fd dl \<and> list_val sub' [] ks' fd dl'"
    using list_transfer_max_val [OF l s, of 0] by (simp add: list_transfer_def quota_def)
  show "\<exists>l' sub'. list_transfer_match l sub f = Some (l', sub', int (length (filter f xs)))
      \<and> list_val l' (filter (\<lambda>x. \<not> f x) xs) ks fd dl \<and> list_val sub' (ys @ filter f xs) ks' fd dl'"
    by (rule list_transfer_match_val [OF l s])
  have "mset (fst (move_unique eq xs ys)) + mset (snd (move_unique eq xs ys)) = mset xs + mset ys"
    by (induction eq xs ys rule: move_unique.induct) auto
  then show "\<exists>l' sub' zs ws n. list_transfer_unique l eq sub = Some (l', sub', n) \<and> list_val l' zs ks fd dl \<and> list_val sub' ws ks' fd dl'
      \<and> mset zs + mset ws = mset xs + mset ys \<and> int (length zs) = int (length xs) + n"
    using list_transfer_unique_val [OF l s, of eq] by fastforce
qed

theorem list_bulk_witness:
  "\<exists>l sub l' sub'. list_val (l::nat xlist) [1, 2] [] (Some 0) [] \<and> list_val sub [3] [] (Some 0) []
     \<and> list_transfer l sub = Some (l', sub', 1) \<and> list_val l' [1, 2, 3] [] (Some 0) []"
proof -
  obtain l :: "nat xlist" where l: "list_val l [1, 2] [] (Some 0) []" using list_val_exists by blast
  obtain sub :: "nat xlist" where s: "list_val sub [3] [] (Some 0) []" using list_val_exists by blast
  show ?thesis using list_bulk [OF l s, THEN conjunct2, THEN conjunct2, THEN conjunct2, THEN conjunct1] l s by auto
qed

text \<open>C23. \<open>list_sort\<close> permutes the data into an order that respects the comparison, for any \<open>qsort\<close> that does what
  it is documented to; \<open>list_flip\<close> reverses the data. Both keep all iterators alive.\<close>

theorem list_reorder:
  assumes "list_val l xs ks fd dl" "qsort_spec cmp qs"
  shows "(\<exists>l' zs. list_sort qs l = Some l' \<and> mset zs = mset xs \<and> sorted_wrt (\<lambda>a b. cmp a b \<le> 0) zs \<and> list_val l' zs ks fd dl)
    \<and> (\<exists>l'. list_flip l = Some l' \<and> list_val l' (rev xs) ks fd dl)"
  using list_sort_val [OF assms] list_flip_val [OF assms(1)] by blast

lemma qsort_spec_sort: "qsort_spec (\<lambda>a b. int a - int b) (\<lambda>v. map Some (sort (map the v)))"
proof -
  have "sorted_wrt (\<lambda>a b. int a - int b \<le> 0) (sort xs)" for xs :: "nat list"
    using sorted_sort [of xs] by (simp add: sorted_wrt_iff_nth_less)
  then show ?thesis by (force simp: qsort_spec_def comp_def)
qed

theorem list_reorder_witness:
  "\<exists>l l' zs. list_val l [3, 1, 2] [] None [] \<and> list_sort (\<lambda>v. map Some (sort (map the v))) l = Some l'
     \<and> mset zs = {#1, 2, 3::nat#} \<and> sorted_wrt (\<lambda>a b. int a - int b \<le> 0) zs \<and> list_val l' zs [] None []"
proof -
  obtain l :: "nat xlist" where l: "list_val l [3, 1, 2] [] None []" using list_val_exists by blast
  show ?thesis using list_reorder [OF l qsort_spec_sort] l by (auto simp: add_mset_commute)
qed

text \<open>C24. Destroying a list hands every datum once and in order to the delete function, frees every page that was
  allocated for nodes exactly once, and leaves no iterator.\<close>

theorem list_destroy_frees:
  assumes "list_val l xs ks fd dl"
  shows "\<exists>l'. list_destroy l = Some l' \<and> l_deleted l' = dl @ (if fd = None then [] else xs) \<and> l_itrs l' = []
    \<and> l_magic l' \<noteq> LIST_MAGIC \<and> (\<forall>a. l_mem l' a \<noteq> None \<longleftrightarrow> a \<in> region 0)"
  using list_destroy_val [OF assms] by (simp add: del_log_def)

theorem list_destroy_frees_witness:
  "\<exists>l l'. list_val (l::nat xlist) [4, 5] [] (Some 1) [] \<and> list_destroy l = Some l' \<and> l_deleted l' = [4, 5]"
proof -
  obtain l :: "nat xlist" where l: "list_val l [4, 5] [] (Some 1) []" using list_val_exists by blast
  show ?thesis using list_destroy_frees [OF l] l by auto
qed

text \<open>A positive limit moves one element more than it says, and a negative one moves none.\<close>

theorem transfer_max_exceeds_limit:
  assumes "list_val l xs ks fd dl" "list_val sub ys ks' fd dl'" "0 < mx" "mx < int (length ys)"
  shows "\<exists>l' sub'. list_transfer_max l sub mx = Some (l', sub', mx + 1)"
  using list_transfer_max_val [OF assms(1,2), of mx] assms(3,4) by (auto simp: quota_def)

end
