(* ===== verification/Slurmctld_Locks.thy ===== *)
theory Slurmctld_Locks
  imports Slurm_Prelude
begin

text \<open>
  src/slurmctld/locks.c: the five read-write locks that protect the controller's data, always taken in
  the order configuration, job, node, partition, federation and released in the opposite order. The
  development build records per thread what is held and aborts on nested or mismatched calls.

  A call of \<open>lock_slurmctld\<close> or \<open>unlock_slurmctld\<close> is a list of lock requests that the thread works off one
  at a time; requests of different threads interleave in any way. A request that has to wait is
  simply not enabled. A step relation over all threads gives the reachable states.
\<close>

subsection \<open>Data\<close>

datatype lock_level = NO_LOCK | READ_LOCK | WRITE_LOCK

datatype lock_datatype = CONF_LOCK | JOB_LOCK | NODE_LOCK | PART_LOCK | FED_LOCK

record slurmctld_lock =
  lk_conf :: lock_level
  lk_job :: lock_level
  lk_node :: lock_level
  lk_part :: lock_level
  lk_fed :: lock_level

text \<open>A POSIX read-write lock and its operations; \<open>None\<close> means that the caller waits, or for unlock that
  the caller does not hold the lock.\<close>

record rwlock =
  rw_writer :: "nat option"
  rw_readers :: "nat set"

definition rw_init :: rwlock where
  "rw_init = \<lparr>rw_writer = None, rw_readers = {}\<rparr>"

text \<open>A reader is admitted while a writer waits: which of them goes first is the choice of the lock's implementation, and every choice is a
  run of this model. The comment in locks.h promises priority to writers; nothing below relies on it.\<close>

definition rw_rdlock :: "nat \<Rightarrow> rwlock \<Rightarrow> rwlock option" where
  "rw_rdlock t lk = (if rw_writer lk = None then Some (lk\<lparr>rw_readers := insert t (rw_readers lk)\<rparr>) else None)"

definition rw_wrlock :: "nat \<Rightarrow> rwlock \<Rightarrow> rwlock option" where
  "rw_wrlock t lk = (if rw_writer lk = None \<and> rw_readers lk = {} then Some (lk\<lparr>rw_writer := Some t\<rparr>) else None)"

definition rw_unlock :: "nat \<Rightarrow> rwlock \<Rightarrow> rwlock option" where
  "rw_unlock t lk =
     (if rw_writer lk = Some t then Some (lk\<lparr>rw_writer := None\<rparr>)
      else if t \<in> rw_readers lk then Some (lk\<lparr>rw_readers := rw_readers lk - {t}\<rparr>)
      else None)"

record tstate =
  slurmctld_locked :: bool
  thread_locks :: slurmctld_lock

definition no_locks :: slurmctld_lock where
  "no_locks = \<lparr>lk_conf = NO_LOCK, lk_job = NO_LOCK, lk_node = NO_LOCK, lk_part = NO_LOCK, lk_fed = NO_LOCK\<rparr>"

subsection \<open>Operations\<close>

definition store_locks :: "slurmctld_lock \<Rightarrow> tstate \<Rightarrow> bool \<times> tstate" where
  "store_locks ls th =
     (if slurmctld_locked th then (False, th)
      else (True, th\<lparr>slurmctld_locked := True, thread_locks := ls\<rparr>))"

definition clear_locks :: "slurmctld_lock \<Rightarrow> tstate \<Rightarrow> bool \<times> tstate" where
  "clear_locks ls th =
     (if \<not> slurmctld_locked th then (False, th)
      else if thread_locks th \<noteq> ls then (False, th\<lparr>slurmctld_locked := False\<rparr>)
      else (True, th\<lparr>slurmctld_locked := False, thread_locks := no_locks\<rparr>))"

fun level_of :: "slurmctld_lock \<Rightarrow> lock_datatype \<Rightarrow> lock_level" where
  "level_of ls CONF_LOCK = lk_conf ls"
| "level_of ls JOB_LOCK = lk_job ls"
| "level_of ls NODE_LOCK = lk_node ls"
| "level_of ls PART_LOCK = lk_part ls"
| "level_of ls FED_LOCK = lk_fed ls"

fun level_no :: "lock_level \<Rightarrow> nat" where
  "level_no NO_LOCK = 0" | "level_no READ_LOCK = 1" | "level_no WRITE_LOCK = 2"

definition verify_lock :: "tstate \<Rightarrow> lock_datatype \<Rightarrow> lock_level \<Rightarrow> bool" where
  "verify_lock th d level \<longleftrightarrow> level_no (level_of (thread_locks th) d) \<ge> level_no level"

datatype request = RdLock lock_datatype | WrLock lock_datatype | Unlock lock_datatype

definition lock_request :: "lock_datatype \<Rightarrow> lock_level \<Rightarrow> request list" where
  "lock_request d level =
     (if level = READ_LOCK then [RdLock d] else if level = WRITE_LOCK then [WrLock d] else [])"

definition lock_slurmctld :: "slurmctld_lock \<Rightarrow> tstate \<Rightarrow> (request list \<times> tstate) option" where
  "lock_slurmctld ls th = (case store_locks ls th of (ok, th') \<Rightarrow> do {
     xassert ok;
     Some (lock_request CONF_LOCK (lk_conf ls) @ lock_request JOB_LOCK (lk_job ls) @ lock_request NODE_LOCK (lk_node ls)
           @ lock_request PART_LOCK (lk_part ls) @ lock_request FED_LOCK (lk_fed ls), th') })"

definition unlock_request :: "lock_datatype \<Rightarrow> lock_level \<Rightarrow> request list" where
  "unlock_request d level = (if level \<noteq> NO_LOCK then [Unlock d] else [])"

definition unlock_slurmctld :: "slurmctld_lock \<Rightarrow> tstate \<Rightarrow> (request list \<times> tstate) option" where
  "unlock_slurmctld ls th = (case clear_locks ls th of (ok, th') \<Rightarrow> do {
     xassert ok;
     Some (unlock_request FED_LOCK (lk_fed ls) @ unlock_request PART_LOCK (lk_part ls) @ unlock_request NODE_LOCK (lk_node ls)
           @ unlock_request JOB_LOCK (lk_job ls) @ unlock_request CONF_LOCK (lk_conf ls), th') })"

text \<open>The try operations never wait: \<open>None\<close> is a nonzero return.\<close>

definition report_lock_set :: "nat \<Rightarrow> rwlock \<Rightarrow> (string \<times> rwlock) option" where
  "report_lock_set t lk = (case rw_rdlock t lk of
     None \<Rightarrow> Some (''W'', lk)
   | Some lk1 \<Rightarrow> do {
       lk2 \<leftarrow> rw_unlock t lk1;
       case rw_wrlock t lk2 of
         None \<Rightarrow> Some (''R'', lk2)
       | Some lk3 \<Rightarrow> do { lk4 \<leftarrow> rw_unlock t lk3; Some ('''', lk4) } })"

definition report_locks_set :: "nat \<Rightarrow> (lock_datatype \<Rightarrow> rwlock) \<Rightarrow> nat option" where
  "report_locks_set t locks = do {
     (conf, lk1) \<leftarrow> report_lock_set t (locks CONF_LOCK);
     (job, lk2) \<leftarrow> report_lock_set t (locks JOB_LOCK);
     (node, lk3) \<leftarrow> report_lock_set t (locks NODE_LOCK);
     (part, lk4) \<leftarrow> report_lock_set t (locks PART_LOCK);
     (fed, lk5) \<leftarrow> report_lock_set t (locks FED_LOCK);
     Some (length conf + length job + length node + length part + length fed) }"

subsection \<open>Threads\<close>

record ctl_state =
  locks :: "lock_datatype \<Rightarrow> rwlock"
  threads :: "nat \<Rightarrow> tstate"
  pending :: "nat \<Rightarrow> request list"

definition ctl_init :: ctl_state where
  "ctl_init = \<lparr>locks = (\<lambda>_. rw_init), threads = (\<lambda>_. \<lparr>slurmctld_locked = False, thread_locks = no_locks\<rparr>), pending = (\<lambda>_. [])\<rparr>"

fun perform :: "nat \<Rightarrow> request \<Rightarrow> (lock_datatype \<Rightarrow> rwlock) \<Rightarrow> (lock_datatype \<Rightarrow> rwlock) option" where
  "perform t (RdLock d) lks = do { lk \<leftarrow> rw_rdlock t (lks d); Some (lks(d := lk)) }"
| "perform t (WrLock d) lks = do { lk \<leftarrow> rw_wrlock t (lks d); Some (lks(d := lk)) }"
| "perform t (Unlock d) lks = do { lk \<leftarrow> rw_unlock t (lks d); Some (lks(d := lk)) }"

inductive ctl_step :: "ctl_state \<Rightarrow> ctl_state \<Rightarrow> bool" where
  call_lock: "pending s t = [] \<Longrightarrow> lock_slurmctld ls (threads s t) = Some (rs, th)
    \<Longrightarrow> ctl_step s (s\<lparr>threads := (threads s)(t := th), pending := (pending s)(t := rs)\<rparr>)"
| call_unlock: "pending s t = [] \<Longrightarrow> unlock_slurmctld ls (threads s t) = Some (rs, th)
    \<Longrightarrow> ctl_step s (s\<lparr>threads := (threads s)(t := th), pending := (pending s)(t := rs)\<rparr>)"
| work: "pending s t = r # rs \<Longrightarrow> perform t r (locks s) = Some lks
    \<Longrightarrow> ctl_step s (s\<lparr>locks := lks, pending := (pending s)(t := rs)\<rparr>)"

inductive ctl_reach :: "ctl_state \<Rightarrow> bool" where
  init: "ctl_reach ctl_init"
| step: "ctl_reach s \<Longrightarrow> ctl_step s s' \<Longrightarrow> ctl_reach s'"

subsection \<open>What a thread holds\<close>

definition held :: "rwlock \<Rightarrow> nat \<Rightarrow> lock_level" where
  "held lk t = (if rw_writer lk = Some t then WRITE_LOCK else if t \<in> rw_readers lk then READ_LOCK else NO_LOCK)"

definition excl :: "rwlock \<Rightarrow> bool" where
  "excl lk \<longleftrightarrow> (rw_writer lk \<noteq> None \<longrightarrow> rw_readers lk = {})"

fun rank :: "lock_datatype \<Rightarrow> nat" where
  "rank CONF_LOCK = 0" | "rank JOB_LOCK = 1" | "rank NODE_LOCK = 2" | "rank PART_LOCK = 3" | "rank FED_LOCK = 4"

fun req_lock :: "request \<Rightarrow> lock_datatype" where
  "req_lock (RdLock d) = d" | "req_lock (WrLock d) = d" | "req_lock (Unlock d) = d"

fun req_level :: "request \<Rightarrow> lock_level" where
  "req_level (RdLock d) = READ_LOCK" | "req_level (WrLock d) = WRITE_LOCK" | "req_level (Unlock d) = NO_LOCK"

lemma held_excl: "excl lk \<Longrightarrow> held lk t = WRITE_LOCK \<Longrightarrow> t' \<noteq> t \<Longrightarrow> held lk t' = NO_LOCK"
  by (auto simp: held_def excl_def split: if_splits)

lemmas rw_defs = rw_rdlock_def rw_wrlock_def rw_unlock_def

lemma perform_self:
  assumes "perform t r lks = Some lks'" "excl (lks (req_lock r))"
  shows "held (lks' d) t = (if d = req_lock r then req_level r else held (lks d) t)"
  using assms by (cases r) (auto simp: rw_defs held_def excl_def split: if_splits)

lemma perform_other:
  assumes "perform t r lks = Some lks'" "t' \<noteq> t"
  shows "held (lks' d) t' = held (lks d) t'"
  using assms by (cases r) (auto simp: rw_defs held_def split: if_splits)

lemma perform_excl:
  assumes "perform t r lks = Some lks'" "\<forall>d. excl (lks d)"
  shows "\<forall>d. excl (lks' d)"
  using assms by (cases r) (auto simp: rw_defs excl_def split: if_splits)

text \<open>The report of a thread that holds nothing itself: the letter of the lock's state, and the lock is left alone.\<close>

lemma report_lock_set_state:
  assumes "t \<notin> rw_readers lk"
  shows "report_lock_set t lk = Some (if rw_writer lk \<noteq> None then ''W'' else if rw_readers lk \<noteq> {} then ''R'' else '''', lk)"
  using assms by (cases lk) (auto simp: report_lock_set_def rw_defs)

lemma report_locks_set_counts:
  assumes "\<forall>d. t \<notin> rw_readers (lks d)"
  shows "report_locks_set t lks
    = Some (length (filter (\<lambda>d. lks d \<noteq> rw_init) [CONF_LOCK, JOB_LOCK, NODE_LOCK, PART_LOCK, FED_LOCK]))"
proof -
  have "report_lock_set t (lks d) = Some (if rw_writer (lks d) \<noteq> None then ''W'' else if rw_readers (lks d) \<noteq> {} then ''R'' else '''', lks d)" for d
    using assms by (simp add: report_lock_set_state)
  moreover have "lks d = rw_init \<longleftrightarrow> rw_writer (lks d) = None \<and> rw_readers (lks d) = {}" for d
    by (cases "lks d") (simp add: rw_init_def)
  ultimately show ?thesis by (simp add: report_locks_set_def)
qed

text \<open>A lock request waits only for a lock that another thread holds, and the release of a held lock
  never waits.\<close>

lemma perform_blocked:
  assumes "perform t r lks = None" "held (lks (req_lock r)) t = NO_LOCK" "req_level r \<noteq> NO_LOCK"
  shows "\<exists>t'. t' \<noteq> t \<and> held (lks (req_lock r)) t' \<noteq> NO_LOCK"
  using assms by (cases r) (auto simp: rw_defs held_def split: if_splits)

lemma perform_release:
  assumes "held (lks d) t \<noteq> NO_LOCK"
  shows "perform t (Unlock d) lks \<noteq> None"
  using assms by (auto simp: rw_defs held_def split: if_splits)

subsection \<open>The invariant\<close>

text \<open>While locking, the thread holds what it asked for except what is still pending, and everything
  pending comes after everything held; while unlocking, it holds exactly what is pending.\<close>

definition locking :: "(lock_datatype \<Rightarrow> lock_level) \<Rightarrow> slurmctld_lock \<Rightarrow> request list \<Rightarrow> bool" where
  "locking h ls ps \<longleftrightarrow>
     sorted_wrt (\<lambda>r r'. rank (req_lock r) < rank (req_lock r')) ps
   \<and> (\<forall>r\<in>set ps. req_level r = level_of ls (req_lock r) \<and> req_level r \<noteq> NO_LOCK)
   \<and> (\<forall>d. h d = (if d \<in> req_lock ` set ps then NO_LOCK else level_of ls d))
   \<and> (\<forall>d. h d \<noteq> NO_LOCK \<longrightarrow> (\<forall>r\<in>set ps. rank d < rank (req_lock r)))"

definition unlocking :: "(lock_datatype \<Rightarrow> lock_level) \<Rightarrow> request list \<Rightarrow> bool" where
  "unlocking h ps \<longleftrightarrow> distinct ps \<and> (\<forall>r\<in>set ps. r = Unlock (req_lock r)) \<and> (\<forall>d. h d \<noteq> NO_LOCK \<longleftrightarrow> Unlock d \<in> set ps)"

definition thread_ok :: "(lock_datatype \<Rightarrow> lock_level) \<Rightarrow> tstate \<Rightarrow> request list \<Rightarrow> bool" where
  "thread_ok h th ps \<longleftrightarrow>
     (if slurmctld_locked th then locking h (thread_locks th) ps else thread_locks th = no_locks \<and> unlocking h ps)"

definition ctl_ok :: "ctl_state \<Rightarrow> bool" where
  "ctl_ok s \<longleftrightarrow> (\<forall>d. excl (locks s d)) \<and> (\<forall>t. thread_ok (\<lambda>d. held (locks s d) t) (threads s t) (pending s t))"

lemma lock_level_cases: "d = CONF_LOCK \<or> d = JOB_LOCK \<or> d = NODE_LOCK \<or> d = PART_LOCK \<or> d = FED_LOCK"
  by (cases d) auto

lemma locking_start:
  assumes "unlocking h []" "lock_slurmctld ls th = Some (rs, th')"
  shows "thread_ok h th' rs"
proof -
  have h: "h d = NO_LOCK" for d using assms(1) by (auto simp: unlocking_def)
  have th: "slurmctld_locked th'" "thread_locks th' = ls"
    and rs: "rs = lock_request CONF_LOCK (lk_conf ls) @ lock_request JOB_LOCK (lk_job ls) @ lock_request NODE_LOCK (lk_node ls)
           @ lock_request PART_LOCK (lk_part ls) @ lock_request FED_LOCK (lk_fed ls)"
    using assms(2) by (auto simp: lock_slurmctld_def store_locks_def split: if_splits)
  have mem: "r \<in> set rs \<longleftrightarrow> r \<in> set (lock_request (req_lock r) (level_of ls (req_lock r)))" for r
    unfolding rs by (cases r; cases "req_lock r") (auto simp: lock_request_def split: if_splits)
  have lvl: "req_level r = level_of ls (req_lock r) \<and> req_level r \<noteq> NO_LOCK" if "r \<in> set rs" for r
    by (rule request.exhaust [of r]) (use that mem [of r] in \<open>auto simp: lock_request_def split: if_splits\<close>)
  have all: "d \<in> req_lock ` set rs" if "level_of ls d \<noteq> NO_LOCK" for d
    using that mem [of "RdLock d"] mem [of "WrLock d"] by (cases "level_of ls d") (force simp: lock_request_def)+
  have sorted: "sorted_wrt (\<lambda>r r'. rank (req_lock r) < rank (req_lock r')) rs"
    unfolding rs by (auto simp: sorted_wrt_append lock_request_def split: if_splits)
  show ?thesis
    using th h lvl all sorted unfolding thread_ok_def locking_def by (metis (mono_tags))
qed

lemma unlocking_start:
  assumes "locking h (thread_locks th) []" "unlock_slurmctld ls th = Some (rs, th')"
  shows "thread_ok h th' rs"
proof -
  have th: "\<not> slurmctld_locked th'" "thread_locks th' = no_locks" "thread_locks th = ls"
    and rs: "rs = unlock_request FED_LOCK (lk_fed ls) @ unlock_request PART_LOCK (lk_part ls) @ unlock_request NODE_LOCK (lk_node ls)
           @ unlock_request JOB_LOCK (lk_job ls) @ unlock_request CONF_LOCK (lk_conf ls)"
    using assms(2) by (auto simp: unlock_slurmctld_def clear_locks_def split: if_splits)
  have "h d = level_of ls d" for d using assms(1) th(3) by (simp add: locking_def)
  moreover have "Unlock d \<in> set rs \<longleftrightarrow> level_of ls d \<noteq> NO_LOCK" for d
    unfolding rs by (cases d) (auto simp: unlock_request_def)
  moreover have "distinct rs" "\<forall>r\<in>set rs. r = Unlock (req_lock r)"
    unfolding rs by (auto simp: unlock_request_def)
  ultimately show ?thesis using th by (simp add: thread_ok_def unlocking_def)
qed

lemma thread_work:
  assumes "thread_ok h th (r # rs)" "\<And>d. h' d = (if d = req_lock r then req_level r else h d)"
  shows "thread_ok h' th rs"
proof (cases "slurmctld_locked th")
  case True
  then have "locking h (thread_locks th) (r # rs)" using assms(1) by (simp add: thread_ok_def)
  moreover from this have "req_lock r \<notin> req_lock ` set rs" by (force simp: locking_def)
  ultimately have "locking h' (thread_locks th) rs" unfolding locking_def using assms(2) by auto
  with True show ?thesis by (simp add: thread_ok_def)
next
  case False
  then have u: "unlocking h (r # rs)" "thread_locks th = no_locks" using assms(1) by (simp_all add: thread_ok_def)
  then have "r = Unlock (req_lock r)" "r \<notin> set rs" by (simp_all add: unlocking_def)
  then have "unlocking h' rs" using u(1) assms(2) unfolding unlocking_def by (auto split: if_splits) (metis req_level.simps(3))+
  with False u(2) show ?thesis by (simp add: thread_ok_def)
qed

lemma ctl_okD:
  assumes "ctl_ok s"
  shows "excl (locks s d)" "thread_ok (\<lambda>d. held (locks s d) t) (threads s t) (pending s t)"
  using assms by (simp_all add: ctl_ok_def)

lemma ctl_ok_call:
  assumes "ctl_ok s" "thread_ok (\<lambda>d. held (locks s d) t) th rs"
  shows "ctl_ok (s\<lparr>threads := (threads s)(t := th), pending := (pending s)(t := rs)\<rparr>)"
  using assms by (simp add: ctl_ok_def)

lemma ctl_step_ok: "ctl_step s s' \<Longrightarrow> ctl_ok s \<Longrightarrow> ctl_ok s'"
proof (induction rule: ctl_step.induct)
  case (call_lock s t ls rs th)
  then have "\<not> slurmctld_locked (threads s t)" by (auto simp: lock_slurmctld_def store_locks_def split: if_splits)
  then have "unlocking (\<lambda>d. held (locks s d) t) []"
    using ctl_okD(2) [OF call_lock(3), of t] call_lock(1) by (simp add: thread_ok_def)
  then show ?case using ctl_ok_call [OF call_lock(3)] locking_start call_lock(2) by blast
next
  case (call_unlock s t ls rs th)
  then have "slurmctld_locked (threads s t)" by (auto simp: unlock_slurmctld_def clear_locks_def split: if_splits)
  then have "locking (\<lambda>d. held (locks s d) t) (thread_locks (threads s t)) []"
    using ctl_okD(2) [OF call_unlock(3), of t] call_unlock(1) by (simp add: thread_ok_def)
  then show ?case using ctl_ok_call [OF call_unlock(3)] unlocking_start call_unlock(2) by blast
next
  case (work s t r rs lks)
  have ex: "\<forall>d. excl (lks d)" by (rule perform_excl [OF work(2)]) (use work(3) in \<open>simp add: ctl_ok_def\<close>)
  have t: "thread_ok (\<lambda>d. held (lks d) t) (threads s t) rs"
    by (rule thread_work [of "\<lambda>d. held (locks s d) t" _ r])
      (use ctl_okD [OF work(3)] work(1) perform_self [OF work(2)] in \<open>metis+\<close>)
  have "thread_ok (\<lambda>d. held (lks d) t') (threads s t') (pending s t')" if "t' \<noteq> t" for t'
    using ctl_okD(2) [OF work(3), of t'] perform_other [OF work(2) that] by simp
  with ex t show ?case by (simp add: ctl_ok_def)
qed

lemma ctl_reach_ok: "ctl_reach s \<Longrightarrow> ctl_ok s"
proof (induction rule: ctl_reach.induct)
  case init
  show ?case
    by (simp add: ctl_ok_def ctl_init_def rw_init_def excl_def held_def thread_ok_def unlocking_def)
next
  case (step s s')
  then show ?case using ctl_step_ok by blast
qed

lemma held_of_verified:
  assumes "ctl_ok s" "pending s t = []" "verify_lock (threads s t) d level" "level \<noteq> NO_LOCK"
  shows "level_no (held (locks s d) t) \<ge> level_no level"
proof -
  have "slurmctld_locked (threads s t)"
  proof (rule ccontr)
    assume "\<not> slurmctld_locked (threads s t)"
    then have "thread_locks (threads s t) = no_locks" using ctl_okD(2) [OF assms(1), of t] by (simp add: thread_ok_def)
    then show False using assms(3,4) by (cases d; cases level) (simp_all add: verify_lock_def no_locks_def)
  qed
  then have "held (locks s d) t = level_of (thread_locks (threads s t)) d"
    using ctl_okD(2) [OF assms(1), of t] assms(2) by (simp add: thread_ok_def locking_def)
  with assms(3) show ?thesis by (simp add: verify_lock_def)
qed

text \<open>Somebody can proceed, or somebody is inside a critical section: follow the waiting threads to locks of
  ever higher rank.\<close>

lemma progress:
  assumes "ctl_ok s" "pending s t = r # rs"
  shows "(\<exists>t r rs. pending s t = r # rs \<and> perform t r (locks s) \<noteq> None)
    \<or> (\<exists>t d. pending s t = [] \<and> held (locks s d) t \<noteq> NO_LOCK)"
  using assms(2)
proof (induction "4 - rank (req_lock r)" arbitrary: t r rs rule: less_induct)
  case less
  show ?case
  proof (cases "perform t r (locks s)")
    case (Some lks)
    with less.prems show ?thesis by auto
  next
    case None
    let ?h = "\<lambda>d. held (locks s d) t"
    have ok: "thread_ok ?h (threads s t) (r # rs)" using ctl_okD(2) [OF assms(1), of t] less.prems by simp
    have "slurmctld_locked (threads s t)"
    proof (rule ccontr)
      assume "\<not> slurmctld_locked (threads s t)"
      then have "r = Unlock (req_lock r)" "?h (req_lock r) \<noteq> NO_LOCK" using ok by (auto simp: thread_ok_def unlocking_def)
      then show False using perform_release [of "locks s" "req_lock r" t] None by metis
    qed
    then have "?h (req_lock r) = NO_LOCK" "req_level r \<noteq> NO_LOCK" using ok by (auto simp: thread_ok_def locking_def)
    then obtain u where u: "u \<noteq> t" "held (locks s (req_lock r)) u \<noteq> NO_LOCK" using perform_blocked [OF None] by blast
    show ?thesis
    proof (cases "pending s u")
      case Nil
      with u show ?thesis by blast
    next
      case (Cons r' rs')
      have ok': "thread_ok (\<lambda>d. held (locks s d) u) (threads s u) (r' # rs')" using ctl_okD(2) [OF assms(1), of u] Cons by simp
      show ?thesis
      proof (cases "slurmctld_locked (threads s u)")
        case True
        then have "rank (req_lock r) < rank (req_lock r')" using ok' u(2) by (auto simp: thread_ok_def locking_def)
        moreover have "rank d \<le> 4" for d by (cases d) auto
        ultimately have "4 - rank (req_lock r') < 4 - rank (req_lock r)" by (meson diff_less_mono2 less_le_trans)
        from less.hyps [OF this Cons] show ?thesis .
      next
        case False
        then have "r' = Unlock (req_lock r')" "held (locks s (req_lock r')) u \<noteq> NO_LOCK"
          using ok' by (auto simp: thread_ok_def unlocking_def)
        then have "perform u r' (locks s) \<noteq> None" using perform_release [of "locks s" "req_lock r'" u] by metis
        with Cons show ?thesis by blast
      qed
    qed
  qed
qed

subsection \<open>Properties\<close>

text \<open>C25. Whenever \<open>verify_lock\<close> confirms a level to a thread outside of a lock call, the thread really has the
  lock: with a write level no other thread holds it at all, with a read level no other thread writes.\<close>

theorem lock_exclusion:
  assumes "ctl_reach s" "pending s t = []" "verify_lock (threads s t) d level" "level \<noteq> NO_LOCK" "t' \<noteq> t"
  shows "held (locks s d) t \<noteq> NO_LOCK \<and> held (locks s d) t' \<noteq> WRITE_LOCK
    \<and> (level = WRITE_LOCK \<longrightarrow> held (locks s d) t = WRITE_LOCK \<and> held (locks s d) t' = NO_LOCK)"
proof -
  have ok: "ctl_ok s" by (rule ctl_reach_ok [OF assms(1)])
  have l: "level_no (held (locks s d) t) \<ge> level_no level" by (rule held_of_verified [OF ok assms(2-4)])
  then have "held (locks s d) t \<noteq> NO_LOCK" using assms(4) by (cases level) auto
  moreover have "held (locks s d) t' \<noteq> WRITE_LOCK"
    using held_excl [OF ctl_okD(1) [OF ok], of d t' t] calculation assms(5) by blast
  moreover have "held (locks s d) t = WRITE_LOCK" if "level = WRITE_LOCK"
    using l that by (cases "held (locks s d) t") auto
  ultimately show ?thesis using held_excl [OF ctl_okD(1) [OF ok]] assms(5) by blast
qed

definition job_write :: slurmctld_lock where
  "job_write = no_locks\<lparr>lk_job := WRITE_LOCK\<rparr>"

definition locked_example :: ctl_state where
  "locked_example = ctl_init\<lparr>locks := (locks ctl_init)(JOB_LOCK := \<lparr>rw_writer = Some 0, rw_readers = {}\<rparr>),
     threads := (threads ctl_init)(0 := \<lparr>slurmctld_locked = True, thread_locks = job_write\<rparr>)\<rparr>"

lemma locked_example_reach: "ctl_reach locked_example"
proof -
  let ?s1 = "ctl_init\<lparr>threads := (threads ctl_init)(0 := \<lparr>slurmctld_locked = True, thread_locks = job_write\<rparr>),
     pending := (pending ctl_init)(0 := [WrLock JOB_LOCK])\<rparr>"
  have "ctl_step ctl_init ?s1"
    by (rule ctl_step.call_lock [of _ _ job_write])
      (simp_all add: ctl_init_def lock_slurmctld_def store_locks_def job_write_def no_locks_def lock_request_def)
  then have "ctl_reach ?s1" using ctl_reach.init ctl_reach.step by blast
  moreover have "ctl_step ?s1 (?s1\<lparr>locks := (locks ctl_init)(JOB_LOCK := \<lparr>rw_writer = Some 0, rw_readers = {}\<rparr>),
      pending := (pending ?s1)(0 := [])\<rparr>)"
    by (rule ctl_step.work [of _ 0 "WrLock JOB_LOCK" "[]"]) (simp_all add: ctl_init_def rw_init_def rw_defs)
  moreover have "?s1\<lparr>locks := (locks ctl_init)(JOB_LOCK := \<lparr>rw_writer = Some 0, rw_readers = {}\<rparr>),
      pending := (pending ?s1)(0 := [])\<rparr> = locked_example"
    by (simp add: locked_example_def ctl_init_def fun_upd_def cong: if_cong)
  ultimately show ?thesis using ctl_reach.step by metis
qed

theorem lock_exclusion_witness:
  "verify_lock (threads locked_example 0) JOB_LOCK WRITE_LOCK \<and> held (locks locked_example JOB_LOCK) 7 = NO_LOCK"
proof -
  have v: "verify_lock (threads locked_example 0) JOB_LOCK WRITE_LOCK" "pending locked_example 0 = []"
    by (simp_all add: verify_lock_def locked_example_def job_write_def no_locks_def ctl_init_def)
  from lock_exclusion [OF locked_example_reach v(2,1), of 7] v(1) show ?thesis by simp
qed

text \<open>C26. The fixed order of the locks excludes deadlock: when some thread waits in \<open>lock_slurmctld\<close>, then some thread
  can take its next lock or release one, or some thread is between its lock and unlock calls.\<close>

theorem no_deadlock:
  assumes "ctl_reach s" "pending s t \<noteq> []"
  shows "(\<exists>t' r rs. pending s t' = r # rs \<and> perform t' r (locks s) \<noteq> None)
    \<or> (\<exists>t' d. pending s t' = [] \<and> held (locks s d) t' \<noteq> NO_LOCK)"
proof -
  obtain r rs where "pending s t = r # rs" using assms(2) by (cases "pending s t") auto
  from progress [OF ctl_reach_ok [OF assms(1)] this] show ?thesis .
qed

theorem no_deadlock_witness:
  "\<exists>s. ctl_reach s \<and> pending s 1 \<noteq> [] \<and> ((\<exists>t' r rs. pending s t' = r # rs \<and> perform t' r (locks s) \<noteq> None)
    \<or> (\<exists>t' d. pending s t' = [] \<and> held (locks s d) t' \<noteq> NO_LOCK))"
proof -
  let ?s = "locked_example\<lparr>threads := (threads locked_example)(1 := \<lparr>slurmctld_locked = True, thread_locks = job_write\<rparr>),
     pending := (pending locked_example)(1 := [WrLock JOB_LOCK])\<rparr>"
  have "ctl_step locked_example ?s"
    by (rule ctl_step.call_lock [of _ _ job_write])
      (simp_all add: locked_example_def ctl_init_def lock_slurmctld_def store_locks_def job_write_def no_locks_def lock_request_def)
  then have r: "ctl_reach ?s" using locked_example_reach ctl_reach.step by blast
  have p: "pending ?s 1 \<noteq> []" by simp
  from no_deadlock [OF r p] r p show ?thesis by blast
qed

end
