(* ===== verification/Xstring.thy ===== *)
theory Xstring
  imports Bitstring_Fmt
begin

text \<open>
  The string searches and conversions of src/common/xstring.c and of the C library that the
  configuration parsers use. A string is the list of its characters before the terminating NUL; a
  null pointer is \<open>None\<close>. The result of a search is the rest of the string from the match on.
\<close>

subsection \<open>Searching\<close>

definition c_tolower :: "char \<Rightarrow> char" where
  "c_tolower c = (if 65 \<le> char_code c \<and> char_code c \<le> 90 then char_of (nat (char_code c + 32)) else c)"

text \<open>The inner loop of \<open>xstrcasestr\<close>; the NUL at the end of the haystack is a mismatch.\<close>

fun ci_prefix :: "string \<Rightarrow> string \<Rightarrow> bool" where
  "ci_prefix [] hay = True"
| "ci_prefix (n # ns) [] = False"
| "ci_prefix (n # ns) (h # hs) \<longleftrightarrow> c_tolower h = c_tolower n \<and> ci_prefix ns hs"

fun strcasestr_loop :: "string \<Rightarrow> string \<Rightarrow> string option" where
  "strcasestr_loop [] needle = None"
| "strcasestr_loop (h # hs) needle = (if ci_prefix needle (h # hs) then Some (h # hs) else strcasestr_loop hs needle)"

definition xstrcasestr :: "string option \<Rightarrow> string option \<Rightarrow> string option" where
  "xstrcasestr haystack needle = (case (haystack, needle) of
     (Some h, Some n) \<Rightarrow> strcasestr_loop h n
   | _ \<Rightarrow> None)"

definition atoi :: "string \<Rightarrow> int" where
  "atoi str = s32 (fst (strtol str))"

subsection \<open>The C library\<close>

fun strstr :: "string \<Rightarrow> string \<Rightarrow> string option" where
  "strstr hay needle =
     (if take (length needle) hay = needle then Some hay
      else case hay of [] \<Rightarrow> None | h # hs \<Rightarrow> strstr hs needle)"

definition xstrstr :: "string option \<Rightarrow> string option \<Rightarrow> string option" where
  "xstrstr haystack needle = (case (haystack, needle) of
     (Some h, Some n) \<Rightarrow> strstr h n
   | _ \<Rightarrow> None)"

text \<open>\<^verbatim>\<open>snprintf(s, sizeof(s), "%d", i)\<close> with room for the text.\<close>

definition dec_int :: "int \<Rightarrow> string" where
  "dec_int i = (if i < 0 then CHR ''-'' # dec (nat (- i)) else dec (nat i))"

subsection \<open>What a search returns\<close>

text \<open>The result starts with the text that was looked for.\<close>

lemma strstr_found: "strstr hay needle = Some r \<Longrightarrow> \<exists>p. hay = p @ r \<and> (\<exists>t. r = needle @ t)"
proof (induction hay)
  case Nil
  then show ?case by (auto split: if_splits)
next
  case (Cons h hs)
  show ?case
  proof (cases "take (length needle) (h # hs) = needle")
    case True
    with Cons.prems have "r = h # hs" by simp
    then show ?thesis using True by (metis append_Nil append_take_drop_id)
  next
    case False
    with Cons.prems have "strstr hs needle = Some r" by simp
    from Cons.IH [OF this] show ?thesis by (metis append_Cons)
  qed
qed

end
