(* ===== verification/Rate_Limit.thy ===== *)
theory Rate_Limit
  imports Xstring
begin

text \<open>
  src/slurmctld/rate_limit.c: the token buckets that limit how many requests a user may send. The
  table is an array of buckets, hashed by user id with linear probing; user id 0 marks a free entry,
  entries are never removed. Token counts are 32-bit and kept as words; times are seconds.

  Whether a request is exempt (its entry in the RPC table, or a privileged user) and the time of day
  are arguments. Division is C's, which truncates; dividing by zero and allocating a negative size
  end the process.
\<close>

subsection \<open>Data\<close>

record user_bucket =
  last_update :: int
  last_logged :: int
  tokens :: u32
  ub_uid :: u32

record rate_limit =
  table_size :: int
  bucket_size :: int
  log_freq :: int
  refill_rate :: int
  refill_period :: int
  user_buckets :: "user_bucket list option"
  rate_limit_enabled :: bool

definition rl_default :: rate_limit where
  "rl_default = \<lparr>table_size = 8192, bucket_size = 30, log_freq = 0, refill_rate = 2, refill_period = 1,
     user_buckets = None, rate_limit_enabled = False\<rparr>"

subsection \<open>Configuration\<close>

text \<open>\<^verbatim>\<open>if ((tmp_ptr = xstrcasestr(params, key))) v = atoi(tmp_ptr + strlen(key));\<close>\<close>

definition int_param :: "string option \<Rightarrow> string \<Rightarrow> int \<Rightarrow> int" where
  "int_param params key v = (case xstrcasestr params (Some key) of
     None \<Rightarrow> v
   | Some p \<Rightarrow> atoi (drop (length key) p))"

definition empty_bucket :: user_bucket where
  "empty_bucket = \<lparr>last_update = 0, last_logged = 0, tokens = 0, ub_uid = 0\<rparr>"

text \<open>\<open>xcalloc\<close> returns the null pointer for a count of zero.\<close>

definition rate_limit_init :: "string option \<Rightarrow> rate_limit \<Rightarrow> rate_limit option" where
  "rate_limit_init params rl =
     (if xstrcasestr params (Some ''rl_enable'') = None then Some rl
      else do {
        let ts = int_param params ''rl_table_size='' (table_size rl);
        let bs = int_param params ''rl_bucket_size='' (bucket_size rl);
        let lf = int_param params ''rl_log_freq='' (log_freq rl);
        let rr = int_param params ''rl_refill_rate='' (refill_rate rl);
        let rp = int_param params ''rl_refill_period='' (refill_period rl);
        xassert (0 \<le> ts);
        Some \<lparr>table_size = ts, bucket_size = bs, log_freq = lf, refill_rate = rr, refill_period = rp,
          user_buckets = (if ts = 0 then None else Some (replicate (nat ts) empty_bucket)),
          rate_limit_enabled = True\<rparr> })"

definition rate_limit_shutdown :: "rate_limit \<Rightarrow> rate_limit" where
  "rate_limit_shutdown rl = rl\<lparr>rate_limit_enabled := False, user_buckets := None\<rparr>"

subsection \<open>Checking a request\<close>

text \<open>The scan for the user's entry; the table size when every entry belongs to someone else. From a start
  outside of the table, which the caller's modulus excludes, the loop would not come back: \<open>None\<close>.\<close>

function probe :: "user_bucket list \<Rightarrow> u32 \<Rightarrow> nat \<Rightarrow> nat \<Rightarrow> nat option" where
  "probe tbl uid start pos =
     (if pos < length tbl \<and> start < length tbl then
        if ub_uid (tbl ! pos) \<noteq> 0 \<and> ub_uid (tbl ! pos) \<noteq> uid then
          let pos1 = (if pos + 1 = length tbl then 0 else pos + 1) in
          if pos1 = start then Some (length tbl) else probe tbl uid start pos1
        else Some pos
      else None)"
  by pat_completeness auto
termination
  by (relation "measure (\<lambda>(tbl, uid, start, pos). if pos < start then start - pos else length tbl - pos + start)")
    (auto simp: Let_def split: if_splits)

declare probe.simps [simp del]

definition refill :: "rate_limit \<Rightarrow> int \<Rightarrow> u32 \<Rightarrow> u32" where
  "refill rl delta tk =
     (if delta = 0 then tk
      else let tk1 = word_of_int (uint tk + delta * refill_rate rl) in
           if tk1 < word_of_int (bucket_size rl) then tk1 else word_of_int (bucket_size rl))"

definition rate_limit_exceeded :: "rate_limit \<Rightarrow> bool \<Rightarrow> bool \<Rightarrow> u32 \<Rightarrow> int \<Rightarrow> (bool \<times> rate_limit) option" where
  "rate_limit_exceeded rl rl_exempt slurm_user uid now =
     (if \<not> rate_limit_enabled rl then Some (False, rl)
      else if rl_exempt then Some (False, rl)
      else if slurm_user then Some (False, rl)
      else case user_buckets rl of
        None \<Rightarrow> Some (True, rl)
      | Some tbl \<Rightarrow> do {
          let start_position = unat uid mod nat (table_size rl);
          position \<leftarrow> probe tbl uid start_position start_position;
          if position = nat (table_size rl) then Some (False, rl)
          else do {
            b \<leftarrow> mem_get tbl position;
            now_periods \<leftarrow> c_div now (refill_period rl);
            if ub_uid b = 0 then
              Some (False, rl\<lparr>user_buckets := Some (tbl[position :=
                b\<lparr>ub_uid := uid, last_update := now_periods, tokens := word_of_int (bucket_size rl - 1)\<rparr>])\<rparr>)
            else do {
              let tk = refill rl (now_periods - last_update b) (tokens b);
              let exceeded = (tk = 0);
              let b = b\<lparr>last_update := now_periods, tokens := (if tk \<noteq> 0 then tk - 1 else tk)\<rparr>;
              let b = (if exceeded \<and> log_freq rl \<noteq> -1 \<and> last_logged b + log_freq rl \<le> now
                       then b\<lparr>last_logged := now\<rparr> else b);
              Some (exceeded, rl\<lparr>user_buckets := Some (tbl[position := b])\<rparr>) } } })"

subsection \<open>The table\<close>

text \<open>Entry number \<open>o\<close> on the way of user \<open>uid\<close> through the table.\<close>

definition slot_no :: "user_bucket list \<Rightarrow> u32 \<Rightarrow> nat \<Rightarrow> nat" where
  "slot_no tbl uid k = (unat uid + k) mod length tbl"

definition stops :: "user_bucket list \<Rightarrow> u32 \<Rightarrow> nat \<Rightarrow> bool" where
  "stops tbl uid i \<longleftrightarrow> ub_uid (tbl ! i) = 0 \<or> ub_uid (tbl ! i) = uid"

lemma slot_no_less: "tbl \<noteq> [] \<Longrightarrow> slot_no tbl uid k < length tbl"
  by (simp add: slot_no_def)

lemma slot_no_Suc: "tbl \<noteq> [] \<Longrightarrow> slot_no tbl uid (Suc k) = (if slot_no tbl uid k + 1 = length tbl then 0 else slot_no tbl uid k + 1)"
  using mod_Suc [of "unat uid + k" "length tbl"] by (simp add: slot_no_def)

lemma slot_no_update [simp]: "slot_no (tbl[p := b]) uid k = slot_no tbl uid k"
  by (simp add: slot_no_def)

lemma slot_no_0: "slot_no tbl uid 0 = unat uid mod length tbl"
  by (simp add: slot_no_def)

lemma slot_no_inj:
  assumes "k < length tbl" "slot_no tbl uid k = slot_no tbl uid 0"
  shows "k = 0"
proof -
  have "(unat uid + k) mod length tbl = unat uid mod length tbl" using assms(2) by (simp add: slot_no_def)
  then obtain q where "unat uid + k = unat uid + length tbl * q" by (rule mod_eq_nat1E) simp
  with assms(1) show ?thesis by (cases q) auto
qed

lemma probe_found:
  assumes "m < length tbl" "k \<le> m" "\<And>j. k \<le> j \<Longrightarrow> j < m \<Longrightarrow> \<not> stops tbl uid (slot_no tbl uid j)" "stops tbl uid (slot_no tbl uid m)"
  shows "probe tbl uid (slot_no tbl uid 0) (slot_no tbl uid k) = Some (slot_no tbl uid m)"
  using assms(2,3)
proof (induction "m - k" arbitrary: k)
  case 0
  then have "k = m" by simp
  moreover have "tbl \<noteq> []" using assms(1) by auto
  ultimately show ?case using assms(4) slot_no_less [of tbl uid] by (auto simp: probe.simps [of tbl uid _ "slot_no tbl uid m"] stops_def)
next
  case (Suc n)
  have ne: "tbl \<noteq> []" using assms(1) by auto
  have k: "k < m" using Suc by simp
  then have "\<not> stops tbl uid (slot_no tbl uid k)" using Suc.prems(2) by simp
  moreover have "slot_no tbl uid (Suc k) \<noteq> slot_no tbl uid 0" using slot_no_inj [of "Suc k" tbl uid] k assms(1) by auto
  moreover have "probe tbl uid (slot_no tbl uid 0) (slot_no tbl uid (Suc k)) = Some (slot_no tbl uid m)"
    by (rule Suc.hyps(1)) (use Suc k in auto)
  ultimately show ?case
    using slot_no_less [OF ne, of uid] slot_no_Suc [OF ne, of uid k]
    by (simp add: probe.simps [of tbl uid _ "slot_no tbl uid k"] stops_def Let_def)
qed

lemma probe_full:
  assumes "tbl \<noteq> []" "k < length tbl" "\<And>j. k \<le> j \<Longrightarrow> j < length tbl \<Longrightarrow> \<not> stops tbl uid (slot_no tbl uid j)"
  shows "probe tbl uid (slot_no tbl uid 0) (slot_no tbl uid k) = Some (length tbl)"
  using assms(2,3)
proof (induction "length tbl - Suc k" arbitrary: k)
  case 0
  then have k: "Suc k = length tbl" by simp
  have "slot_no tbl uid (Suc k) = slot_no tbl uid 0" unfolding k by (simp add: slot_no_def)
  then show ?case
    using 0 slot_no_less [OF assms(1), of uid] slot_no_Suc [OF assms(1), of uid k]
    by (simp add: probe.simps [of tbl uid _ "slot_no tbl uid k"] stops_def Let_def)
next
  case (Suc n)
  then have k: "Suc k < length tbl" by simp
  then have "slot_no tbl uid (Suc k) \<noteq> slot_no tbl uid 0" using slot_no_inj [of "Suc k" tbl uid] by auto
  moreover have "probe tbl uid (slot_no tbl uid 0) (slot_no tbl uid (Suc k)) = Some (length tbl)"
    by (rule Suc.hyps(1)) (use Suc k in auto)
  ultimately show ?case
    using Suc.prems slot_no_less [OF assms(1), of uid] slot_no_Suc [OF assms(1), of uid k]
    by (simp add: probe.simps [of tbl uid _ "slot_no tbl uid k"] stops_def Let_def)
qed

lemma slot_no_surj:
  assumes "i < length tbl"
  shows "\<exists>k<length tbl. slot_no tbl uid k = i"
proof -
  let ?n = "length tbl"
  let ?k = "(i + ?n - unat uid mod ?n) mod ?n"
  have "unat uid mod ?n < ?n" using assms by (intro mod_less_divisor) auto
  then have "unat uid mod ?n + (i + ?n - unat uid mod ?n) = i + ?n" by simp
  then have "(unat uid + ?k) mod ?n = i" using assms by (metis mod_add_eq mod_add_right_eq mod_add_left_eq mod_add_self2 mod_less)
  moreover have "?k < ?n" using assms by (intro mod_less_divisor) auto
  ultimately show ?thesis by (auto simp: slot_no_def)
qed

text \<open>Entry \<open>i\<close> is where the scan of user \<open>uid\<close> stops.\<close>

definition stop_at :: "user_bucket list \<Rightarrow> u32 \<Rightarrow> nat \<Rightarrow> bool" where
  "stop_at tbl uid i \<longleftrightarrow> (\<exists>m<length tbl. i = slot_no tbl uid m \<and> stops tbl uid i \<and> (\<forall>j<m. \<not> stops tbl uid (slot_no tbl uid j)))"

lemma probe_stop: "stop_at tbl uid i \<Longrightarrow> probe tbl uid (unat uid mod length tbl) (unat uid mod length tbl) = Some i"
  using probe_found [of _ tbl 0 uid] by (auto simp: stop_at_def slot_no_0)

lemma stop_at_less: "stop_at tbl uid i \<Longrightarrow> i < length tbl"
  by (auto simp: stop_at_def slot_no_def intro!: mod_less_divisor)

lemma probe_cases:
  assumes "tbl \<noteq> []"
  shows "(\<exists>i. stop_at tbl uid i) \<or> probe tbl uid (unat uid mod length tbl) (unat uid mod length tbl) = Some (length tbl)"
proof (cases "\<exists>m<length tbl. stops tbl uid (slot_no tbl uid m)")
  case True
  then obtain m where m: "m < length tbl" "stops tbl uid (slot_no tbl uid m)"
    "\<forall>j<m. \<not> stops tbl uid (slot_no tbl uid j)"
    using exists_least_iff [of "\<lambda>m. m < length tbl \<and> stops tbl uid (slot_no tbl uid m)"] by (meson order_less_trans)
  then show ?thesis by (auto simp: stop_at_def)
next
  case False
  then show ?thesis using probe_full [OF assms, of 0 uid] assms by (simp add: slot_no_0)
qed

lemma table_full:
  assumes "\<nexists>i. stop_at tbl uid i" "b \<in> set tbl"
  shows "ub_uid b \<noteq> 0 \<and> ub_uid b \<noteq> uid"
proof -
  obtain i where i: "i < length tbl" "b = tbl ! i" using assms(2) by (auto simp: in_set_conv_nth)
  obtain k where k: "k < length tbl" "slot_no tbl uid k = i" using slot_no_surj [OF i(1)] by blast
  have "\<not> (\<exists>m<length tbl. stops tbl uid (slot_no tbl uid m))"
    using assms(1) exists_least_iff [of "\<lambda>m. m < length tbl \<and> stops tbl uid (slot_no tbl uid m)"]
    unfolding stop_at_def by (meson order_less_trans)
  with i k show ?thesis by (auto simp: stops_def)
qed

text \<open>The table is well-formed: every user with an entry finds it.\<close>

definition tbl_ok :: "user_bucket list \<Rightarrow> bool" where
  "tbl_ok tbl \<longleftrightarrow> tbl \<noteq> [] \<and> (\<forall>i<length tbl. ub_uid (tbl ! i) \<noteq> 0 \<longrightarrow> stop_at tbl (ub_uid (tbl ! i)) i)"

lemma tbl_ok_empty: "0 < n \<Longrightarrow> tbl_ok (replicate n empty_bucket)"
  by (simp add: tbl_ok_def empty_bucket_def)

lemma stop_at_mono:
  assumes "stop_at tbl v i" "p < length tbl" "ub_uid b = ub_uid (tbl ! p) \<or> ub_uid (tbl ! p) = 0 \<and> (ub_uid b \<noteq> v \<and> ub_uid b \<noteq> 0 \<and> i \<noteq> p)"
  shows "stop_at (tbl[p := b]) v i"
proof -
  obtain m where m: "m < length tbl" "i = slot_no tbl v m" "stops tbl v i" "\<forall>j<m. \<not> stops tbl v (slot_no tbl v j)"
    using assms(1) by (auto simp: stop_at_def)
  have "\<not> stops (tbl[p := b]) v (slot_no tbl v j)" if "j < m" for j
    using m(4) that assms(2,3) by (cases "slot_no tbl v j = p") (auto simp: stops_def)
  moreover have "stops (tbl[p := b]) v i" using m(3) assms(2,3) by (cases "i = p") (auto simp: stops_def)
  ultimately show ?thesis using m(1,2) by (auto simp: stop_at_def)
qed

lemma stop_at_unique: "stop_at tbl u i \<Longrightarrow> stop_at tbl u j \<Longrightarrow> i = j"
  using probe_stop by (metis option.inject)

lemma tbl_ok_update:
  assumes "tbl_ok tbl" "p < length tbl" "ub_uid b = ub_uid (tbl ! p)"
  shows "tbl_ok (tbl[p := b])"
  unfolding tbl_ok_def
proof (intro conjI allI impI)
  show "tbl[p := b] \<noteq> []" using assms(1) by (simp add: tbl_ok_def)
  fix i assume i: "i < length (tbl[p := b])" "ub_uid (tbl[p := b] ! i) \<noteq> 0"
  then have u: "ub_uid (tbl[p := b] ! i) = ub_uid (tbl ! i)" using assms(3) by (cases "i = p") auto
  then have "stop_at tbl (ub_uid (tbl ! i)) i" using assms(1) i by (simp add: tbl_ok_def)
  then show "stop_at (tbl[p := b]) (ub_uid (tbl[p := b] ! i)) i" unfolding u using stop_at_mono assms(2,3) by blast
qed

lemma tbl_ok_insert:
  assumes "tbl_ok tbl" "stop_at tbl u p" "ub_uid (tbl ! p) = 0" "ub_uid b = u" "u \<noteq> 0"
  shows "tbl_ok (tbl[p := b])"
  unfolding tbl_ok_def
proof (intro conjI allI impI)
  have p: "p < length tbl" by (rule stop_at_less [OF assms(2)])
  show "tbl[p := b] \<noteq> []" using assms(1) by (simp add: tbl_ok_def)
  fix i assume i: "i < length (tbl[p := b])" "ub_uid (tbl[p := b] ! i) \<noteq> 0"
  show "stop_at (tbl[p := b]) (ub_uid (tbl[p := b] ! i)) i"
  proof (cases "i = p")
    case True
    obtain m where m: "m < length tbl" "p = slot_no tbl u m" "\<forall>j<m. \<not> stops tbl u (slot_no tbl u j)"
      using assms(2) by (auto simp: stop_at_def)
    have "\<not> stops (tbl[p := b]) u (slot_no tbl u j)" if "j < m" for j
      using m(3) that assms(3) p by (cases "slot_no tbl u j = p") (auto simp: stops_def)
    moreover have "stops (tbl[p := b]) u p" using assms(4) p by (simp add: stops_def)
    ultimately have "stop_at (tbl[p := b]) u p" using m(1,2) by (auto simp: stop_at_def)
    with True assms(4) p show ?thesis by simp
  next
    case False
    then have i': "i < length tbl" "ub_uid (tbl ! i) \<noteq> 0" using i by auto
    then have st: "stop_at tbl (ub_uid (tbl ! i)) i" using assms(1) by (simp add: tbl_ok_def)
    have "u \<noteq> ub_uid (tbl ! i)" using stop_at_unique [OF st, of p] assms(2) False by metis
    with stop_at_mono [OF st p, of b] assms(3-5) False i show ?thesis by auto
  qed
qed

subsection \<open>One request\<close>

text \<open>A working configuration: the table is in place and the refill parameters make sense.\<close>

definition rl_ok :: "rate_limit \<Rightarrow> user_bucket list \<Rightarrow> bool" where
  "rl_ok rl tbl \<longleftrightarrow> rate_limit_enabled rl \<and> user_buckets rl = Some tbl \<and> tbl_ok tbl \<and> table_size rl = int (length tbl)
   \<and> 0 < refill_period rl \<and> 0 \<le> refill_rate rl \<and> 0 < bucket_size rl \<and> bucket_size rl < 2 ^ 31"

text \<open>Configuration, apart from the table, that no request changes.\<close>

definition same_config :: "rate_limit \<Rightarrow> rate_limit \<Rightarrow> bool" where
  "same_config rl rl' \<longleftrightarrow> rl' = rl\<lparr>user_buckets := user_buckets rl'\<rparr>"

lemma u32_small:
  assumes "rl_ok rl tbl"
  shows "uint (word_of_int (bucket_size rl - 1) :: u32) = bucket_size rl - 1"
  using assms by (simp only: uint_word_of_int rl_ok_def) (rule mod_pos_pos_trivial, auto)

lemma uint_dec: "uint (if t \<noteq> 0 then t - 1 else t) = (if t = 0 then 0 else uint t - 1)" for t :: u32
proof (cases "t = 0")
  case False
  then have "1 \<le> uint t" using uint_nonnegative [of t] by (metis int_one_le_iff_zero_less le_less uint_0_iff)
  then have "uint (t - 1) = uint t - 1" using uint_sub_lem [of 1 t] by simp
  with False show ?thesis by simp
qed simp

lemma refill_bound:
  assumes "0 \<le> delta" "0 \<le> refill_rate rl" "0 < bucket_size rl" "bucket_size rl < 2 ^ 31"
  shows "uint (refill rl delta tk) \<le> uint tk + delta * refill_rate rl"
    "uint tk \<le> bucket_size rl \<Longrightarrow> uint (refill rl delta tk) \<le> bucket_size rl"
proof -
  have nn: "0 \<le> uint tk + delta * refill_rate rl" using assms by simp
  have w: "uint (word_of_int (uint tk + delta * refill_rate rl) :: u32) \<le> uint tk + delta * refill_rate rl"
    by (simp only: uint_word_of_int zmod_le_nonneg_dividend [OF nn])
  have b: "uint (word_of_int (bucket_size rl) :: u32) = bucket_size rl" using assms by (simp add: uint_word_of_int)
  show "uint (refill rl delta tk) \<le> uint tk + delta * refill_rate rl"
    using w b assms by (auto simp: refill_def Let_def word_less_def)
  show "uint (refill rl delta tk) \<le> bucket_size rl" if "uint tk \<le> bucket_size rl"
    using b that by (auto simp: refill_def Let_def word_less_def)
qed

text \<open>What a request does: the table is full and nothing happens, a new entry is made, or the user's tokens are
  refilled and one is taken.\<close>

lemma exceeded_cases:
  assumes "rl_ok rl tbl" "uid \<noteq> 0" "0 \<le> now"
  obtains (full) "rate_limit_exceeded rl False False uid now = Some (False, rl)" "\<nexists>i. stop_at tbl uid i"
  | (new) i b where "stop_at tbl uid i" "ub_uid (tbl ! i) = 0" "ub_uid b = uid" "last_update b = now div refill_period rl"
      "uint (tokens b) = bucket_size rl - 1"
      "rate_limit_exceeded rl False False uid now = Some (False, rl\<lparr>user_buckets := Some (tbl[i := b])\<rparr>)"
  | (old) i b tk where "stop_at tbl uid i" "ub_uid (tbl ! i) = uid" "ub_uid b = uid" "last_update b = now div refill_period rl"
      "tk = refill rl (now div refill_period rl - last_update (tbl ! i)) (tokens (tbl ! i))"
      "uint (tokens b) = (if tk = 0 then 0 else uint tk - 1)"
      "rate_limit_exceeded rl False False uid now = Some (tk = 0, rl\<lparr>user_buckets := Some (tbl[i := b])\<rparr>)"
proof -
  have ok: "rate_limit_enabled rl" "user_buckets rl = Some tbl" "nat (table_size rl) = length tbl" "tbl \<noteq> []"
    using assms(1) by (auto simp: rl_ok_def tbl_ok_def)
  have d: "c_div now (refill_period rl) = Some (now div refill_period rl)"
    using assms by (intro c_div_pos) (auto simp: rl_ok_def)
  let ?h = "unat uid mod length tbl" and ?np = "now div refill_period rl"
  show thesis
  proof (cases "\<exists>i. stop_at tbl uid i")
    case False
    then have "probe tbl uid ?h ?h = Some (length tbl)" using probe_cases [OF ok(4)] by blast
    then have "rate_limit_exceeded rl False False uid now = Some (False, rl)"
      using ok by (simp add: rate_limit_exceeded_def)
    with False show thesis by (rule full [rotated])
  next
    case True
    then obtain i where i: "stop_at tbl uid i" by blast
    note p = probe_stop [OF i] and l = stop_at_less [OF i]
    show thesis
    proof (cases "ub_uid (tbl ! i) = 0")
      case True
      let ?b = "(tbl ! i)\<lparr>ub_uid := uid, last_update := ?np, tokens := word_of_int (bucket_size rl - 1)\<rparr>"
      show thesis
      proof (rule new [of i ?b])
        show "uint (tokens ?b) = bucket_size rl - 1" by (simp del: of_int_diff add: u32_small [OF assms(1)])
        show "rate_limit_exceeded rl False False uid now = Some (False, rl\<lparr>user_buckets := Some (tbl[i := ?b])\<rparr>)"
          using True ok p l d by (simp add: rate_limit_exceeded_def mem_get_def)
      qed (use i True in simp_all)
    next
      case False
      then have u: "ub_uid (tbl ! i) = uid" using i by (auto simp: stop_at_def stops_def)
      let ?tk = "refill rl (?np - last_update (tbl ! i)) (tokens (tbl ! i))"
      let ?b1 = "(tbl ! i)\<lparr>last_update := ?np, tokens := (if ?tk \<noteq> 0 then ?tk - 1 else ?tk)\<rparr>"
      let ?b = "if ?tk = 0 \<and> log_freq rl \<noteq> -1 \<and> last_logged ?b1 + log_freq rl \<le> now then ?b1\<lparr>last_logged := now\<rparr> else ?b1"
      show thesis
      proof (rule old [of i ?b ?tk])
        show "uint (tokens ?b) = (if ?tk = 0 then 0 else uint ?tk - 1)"
          using uint_dec [of ?tk] by (auto split: if_splits)
        show "rate_limit_exceeded rl False False uid now = Some (?tk = 0, rl\<lparr>user_buckets := Some (tbl[i := ?b])\<rparr>)"
          using False u ok p l d by (simp add: rate_limit_exceeded_def mem_get_def Let_def)
      qed (use i u in simp_all)
    qed
  qed
qed

lemma refill_exact:
  assumes "0 \<le> delta" "0 \<le> refill_rate rl" "0 < bucket_size rl" "bucket_size rl < 2 ^ 31"
    "uint tk + delta * refill_rate rl < 2 ^ 32" "uint tk \<le> bucket_size rl"
  shows "uint (refill rl delta tk) = min (bucket_size rl) (uint tk + delta * refill_rate rl)"
proof (cases "delta = 0")
  case False
  have nn: "0 \<le> uint tk + delta * refill_rate rl" using assms by simp
  have w: "uint (word_of_int (uint tk + delta * refill_rate rl) :: u32) = uint tk + delta * refill_rate rl"
    using assms(5) by (simp only: uint_word_of_int) (rule mod_pos_pos_trivial [OF nn], simp)
  have b: "uint (word_of_int (bucket_size rl) :: u32) = bucket_size rl" using assms by (simp add: uint_word_of_int)
  show ?thesis using False w b by (auto simp: refill_def Let_def word_less_def)
qed (use assms in \<open>simp add: refill_def\<close>)

subsection \<open>The invariant\<close>

text \<open>No bucket holds more than its size, and no bucket was updated after the period \<open>t\<close>.\<close>

definition rl_inv :: "rate_limit \<Rightarrow> user_bucket list \<Rightarrow> int \<Rightarrow> bool" where
  "rl_inv rl tbl t \<longleftrightarrow> rl_ok rl tbl \<and> (\<forall>b\<in>set tbl. uint (tokens b) \<le> bucket_size rl \<and> last_update b \<le> t)"

lemma rl_inv_later: "rl_inv rl tbl t \<Longrightarrow> t \<le> t' \<Longrightarrow> rl_inv rl tbl t'"
  by (fastforce simp: rl_inv_def)

lemma rl_inv_bucket:
  assumes "rl_inv rl tbl t" "tbl_ok (tbl[i := b])" "uint (tokens b) \<le> bucket_size rl" "last_update b \<le> t"
  shows "rl_inv (rl\<lparr>user_buckets := Some (tbl[i := b])\<rparr>) (tbl[i := b]) t"
  using assms set_update_subset_insert [of tbl i b] by (auto simp: rl_inv_def rl_ok_def)

text \<open>A request of user \<open>uid\<close> in period \<open>t\<close>: the configuration stays, the entries of the other users stay, and
  the user's own entry is found or made unless the table is full.\<close>

lemma exceeded_step:
  assumes "rl_inv rl tbl (now div refill_period rl)" "uid \<noteq> 0" "0 \<le> now"
  obtains (full) "rate_limit_exceeded rl False False uid now = Some (False, rl)" "\<nexists>i. stop_at tbl uid i"
  | (entry) i b ex rl' where "stop_at tbl uid i" "rate_limit_exceeded rl False False uid now = Some (ex, rl')"
      "rl' = rl\<lparr>user_buckets := Some (tbl[i := b])\<rparr>" "rl_inv rl' (tbl[i := b]) (now div refill_period rl)"
      "stop_at (tbl[i := b]) uid i" "ub_uid b = uid" "last_update b = now div refill_period rl"
      "uint (tokens b) + (if ex then 0 else 1) \<le> bucket_size rl"
      "ub_uid (tbl ! i) = uid \<Longrightarrow> uint (tokens b) + (if ex then 0 else 1)
         = uint (refill rl (now div refill_period rl - last_update (tbl ! i)) (tokens (tbl ! i)))"
      "ex \<Longrightarrow> uint (tokens b) = 0"
proof -
  have ok: "rl_ok rl tbl" "tbl_ok tbl" using assms(1) by (auto simp: rl_inv_def rl_ok_def)
  show thesis
  proof (cases rule: exceeded_cases [OF ok(1) assms(2,3), case_names full new old])
    case full then show thesis by (rule that(1))
  next
    case (new i b)
    have l: "i < length tbl" by (rule stop_at_less [OF new(1)])
    have t: "tbl_ok (tbl[i := b])" by (rule tbl_ok_insert [OF ok(2) new(1-3) assms(2)])
    then have "stop_at (tbl[i := b]) uid i" using l new(3) assms(2) by (auto simp: tbl_ok_def)
    moreover have "rl_inv (rl\<lparr>user_buckets := Some (tbl[i := b])\<rparr>) (tbl[i := b]) (now div refill_period rl)"
      by (rule rl_inv_bucket [OF assms(1) t]) (simp_all add: new)
    ultimately show thesis using new assms(2) by (intro that(2) [of i False _ b]) simp_all
  next
    case (old i b tk)
    have l: "i < length tbl" by (rule stop_at_less [OF old(1)])
    have m: "tbl ! i \<in> set tbl" using l by simp
    have t: "tbl_ok (tbl[i := b])" by (rule tbl_ok_update [OF ok(2) l]) (simp add: old)
    have tk: "uint tk \<le> bucket_size rl" unfolding old(5)
      by (rule refill_bound(2)) (use assms(1) m in \<open>auto simp: rl_inv_def rl_ok_def\<close>)
    have s: "uint (tokens b) + (if tk = 0 then 0 else 1) = uint tk" by (simp add: old(6))
    have "stop_at (tbl[i := b]) uid i" using t l old(3) assms(2) by (auto simp: tbl_ok_def)
    moreover have "rl_inv (rl\<lparr>user_buckets := Some (tbl[i := b])\<rparr>) (tbl[i := b]) (now div refill_period rl)"
      by (rule rl_inv_bucket [OF assms(1) t]) (use s tk old(4) in \<open>auto split: if_splits\<close>)
    ultimately show thesis using old s tk by (intro that(2) [of i "tk = 0" _ b]) simp_all
  qed
qed

subsection \<open>A run of requests\<close>

primrec run_requests :: "rate_limit \<Rightarrow> (int \<times> u32) list \<Rightarrow> (bool list \<times> rate_limit) option" where
  "run_requests rl [] = Some ([], rl)"
| "run_requests rl (r # rs) = do {
     (ex, rl1) \<leftarrow> rate_limit_exceeded rl False False (snd r) (fst r);
     (exs, rl2) \<leftarrow> run_requests rl1 rs;
     Some (ex # exs, rl2) }"

text \<open>Requests of ordinary users, at times that do not go backwards.\<close>

primrec timely :: "int \<Rightarrow> (int \<times> u32) list \<Rightarrow> bool" where
  "timely t [] \<longleftrightarrow> True"
| "timely t (r # rs) \<longleftrightarrow> t \<le> fst r \<and> snd r \<noteq> 0 \<and> timely (fst r) rs"

primrec end_time :: "int \<Rightarrow> (int \<times> u32) list \<Rightarrow> int" where
  "end_time t [] = t"
| "end_time t (r # rs) = end_time (fst r) rs"

definition accepted :: "u32 \<Rightarrow> (int \<times> u32) list \<Rightarrow> bool list \<Rightarrow> int" where
  "accepted u rs exs = int (length (filter (\<lambda>(r, ex). snd r = u \<and> \<not> ex) (zip rs exs)))"

lemma accepted_Cons: "accepted u (r # rs) (ex # exs) = (if snd r = u \<and> \<not> ex then 1 else 0) + accepted u rs exs"
  by (simp add: accepted_def)

lemma end_time_le: "timely t rs \<Longrightarrow> t \<le> end_time t rs"
  by (induction rs arbitrary: t) force+

lemma div_mono_period: "rl_ok rl tbl \<Longrightarrow> a \<le> b \<Longrightarrow> a div refill_period rl \<le> b div refill_period rl"
  by (rule zdiv_mono1) (simp_all add: rl_ok_def)

lemma run_bound:
  assumes "rl_inv rl tbl (t div refill_period rl)" "i < length tbl" "ub_uid (tbl ! i) = u" "u \<noteq> 0" "0 \<le> t" "timely t rs"
  shows "\<exists>exs rl'. run_requests rl rs = Some (exs, rl') \<and> accepted u rs exs
    \<le> uint (tokens (tbl ! i)) + refill_rate rl * (end_time t rs div refill_period rl - last_update (tbl ! i))"
  using assms
proof (induction rs arbitrary: rl tbl t)
  case Nil
  then have "last_update (tbl ! i) \<le> t div refill_period rl" "0 \<le> refill_rate rl" by (auto simp: rl_inv_def rl_ok_def)
  then show ?case by (simp add: accepted_def)
next
  case (Cons r rs)
  let ?p = "refill_period rl" and ?rr = "refill_rate rl"
  let ?now = "fst r" and ?v = "snd r"
  have ok: "rl_ok rl tbl" and tok: "tbl_ok tbl" and rr: "0 \<le> ?rr" using Cons.prems(1) by (auto simp: rl_inv_def rl_ok_def)
  have r: "t \<le> ?now" "?v \<noteq> 0" "timely ?now rs" "0 \<le> ?now" using Cons.prems by auto
  have inv: "rl_inv rl tbl (?now div ?p)" by (rule rl_inv_later [OF Cons.prems(1) div_mono_period [OF ok r(1)]])
  have lu: "last_update (tbl ! i) \<le> ?now div ?p" using inv Cons.prems(2) by (auto simp: rl_inv_def)
  have st: "stop_at tbl u i" using tok Cons.prems(2-4) by (auto simp: tbl_ok_def)
  show ?case
  proof (cases rule: exceeded_step [OF inv r(2,4), case_names full entry])
    case full
    then have "?v \<noteq> u" using st by blast
    moreover obtain exs rl' where "run_requests rl rs = Some (exs, rl')" "accepted u rs exs
        \<le> uint (tokens (tbl ! i)) + ?rr * (end_time ?now rs div ?p - last_update (tbl ! i))"
      using Cons.IH [OF inv Cons.prems(2-4) r(4,3)] by blast
    ultimately show ?thesis using full(1) by (simp add: accepted_Cons)
  next
    case (entry j b ex rl1)
    have c: "refill_period rl1 = ?p" "refill_rate rl1 = ?rr" by (simp_all add: entry(3))
    have j: "j < length tbl" by (rule stop_at_less [OF entry(1)])
    have e: "ub_uid (tbl[j := b] ! i) = u"
      using entry(1,6) j Cons.prems(3,4) by (cases "i = j") (auto simp: stop_at_def stops_def)
    obtain exs rl' where run: "run_requests rl1 rs = Some (exs, rl')" "accepted u rs exs
        \<le> uint (tokens (tbl[j := b] ! i)) + ?rr * (end_time ?now rs div ?p - last_update (tbl[j := b] ! i))"
      using Cons.IH [of rl1 "tbl[j := b]" ?now] entry(4) c e Cons.prems(2,4) r by (metis length_list_update)
    have "(if ?v = u \<and> \<not> ex then 1 else 0) + uint (tokens (tbl[j := b] ! i)) - ?rr * last_update (tbl[j := b] ! i)
        \<le> uint (tokens (tbl ! i)) - ?rr * last_update (tbl ! i)"
    proof (cases "?v = u")
      case True
      then have "j = i" using stop_at_unique [OF st] entry(1) by blast
      moreover have "uint (refill rl (?now div ?p - last_update (tbl ! i)) (tokens (tbl ! i)))
          \<le> uint (tokens (tbl ! i)) + (?now div ?p - last_update (tbl ! i)) * ?rr"
        by (rule refill_bound(1)) (use ok lu in \<open>auto simp: rl_ok_def\<close>)
      ultimately show ?thesis using entry(6,7,9) j True Cons.prems(3) by (auto simp: algebra_simps)
    next
      case False
      then have "j \<noteq> i" using entry(1) Cons.prems(3,4) by (auto simp: stop_at_def stops_def)
      with False show ?thesis by simp
    qed
    then show ?thesis using run entry(2) by (auto simp: accepted_Cons algebra_simps)
  qed
qed

subsection \<open>Properties\<close>

lemma init_inv:
  assumes "rate_limit_init params rl = Some rl'" "xstrcasestr params (Some ''rl_enable'') \<noteq> None" "0 < table_size rl'"
    "0 < refill_period rl'" "0 \<le> refill_rate rl'" "0 < bucket_size rl'" "bucket_size rl' < 2 ^ 31" "0 \<le> t"
  shows "rl_inv rl' (replicate (nat (table_size rl')) empty_bucket) t"
  using assms tbl_ok_empty [of "nat (table_size rl')"]
  by (auto simp: rate_limit_init_def rl_inv_def rl_ok_def xassert_def empty_bucket_def Let_def split: if_splits)

text \<open>C27. The limit holds: take any state the limiter can be in and any sequence of requests of ordinary users, with
  times that do not go backwards, that starts with a request of user \<open>u\<close> for whom the table has room. All requests
  are answered, and the number of requests of \<open>u\<close> that are let through is at most the size of a bucket plus
  the tokens refilled over the periods the sequence lasts, whatever the other users send in between.\<close>

theorem rate_bound:
  assumes "rl_inv rl tbl (t div refill_period rl)" "stop_at tbl u i" "u \<noteq> 0" "0 \<le> t" "timely t rs"
  shows "\<exists>exs rl'. run_requests rl ((t, u) # rs) = Some (exs, rl') \<and> accepted u ((t, u) # rs) exs
    \<le> bucket_size rl + refill_rate rl * (end_time t rs div refill_period rl - t div refill_period rl)"
proof (cases rule: exceeded_step [OF assms(1,3,4), case_names full entry])
  case full
  then show ?thesis using assms(2) by blast
next
  case (entry j b ex rl1)
  have j: "j < length tbl" by (rule stop_at_less [OF entry(1)])
  have "refill_period rl1 = refill_period rl" "refill_rate rl1 = refill_rate rl" by (simp_all add: entry(3))
  with run_bound [of rl1 "tbl[j := b]" t j u rs] entry(4,6,7) j assms(3-5)
  obtain exs rl' where "run_requests rl1 rs = Some (exs, rl')" "accepted u rs exs
      \<le> uint (tokens b) + refill_rate rl * (end_time t rs div refill_period rl - t div refill_period rl)"
    by auto
  with entry(2,8) show ?thesis by (auto simp: accepted_Cons)
qed

definition rl_example :: rate_limit where
  "rl_example = rl_default\<lparr>table_size := 2, bucket_size := 2, refill_rate := 1, user_buckets := Some [empty_bucket, empty_bucket],
     rate_limit_enabled := True\<rparr>"

lemma rl_example_init:
  "rate_limit_init (Some ''rl_enable,rl_table_size=2,rl_bucket_size=2,RL_refill_rate=1'') rl_default = Some rl_example"
  by code_simp

lemma rl_example_inv: "rl_inv rl_example [empty_bucket, empty_bucket] 10"
proof -
  have "xstrcasestr (Some ''rl_enable,rl_table_size=2,rl_bucket_size=2,RL_refill_rate=1'') (Some ''rl_enable'') \<noteq> None"
    by code_simp
  from init_inv [OF rl_example_init this, of 10] show ?thesis
    by (simp add: rl_example_def rl_default_def numeral_2_eq_2)
qed

lemma rl_example_stop: "stop_at [empty_bucket, empty_bucket] 7 1"
proof -
  have "(7 :: nat) mod Suc (Suc 0) = Suc 0" by (simp flip: numeral_2_eq_2)
  then show ?thesis by (auto simp: stop_at_def stops_def slot_no_def empty_bucket_def intro!: exI [of _ 0])
qed

theorem rate_bound_witness:
  "\<exists>exs rl'. run_requests rl_example [(10, 7), (10, 7), (10, 8), (10, 7), (11, 7)] = Some (exs, rl')
     \<and> accepted 7 [(10, 7), (10, 7), (10, 8), (10, 7), (11, 7)] exs \<le> 3"
  using rate_bound [of rl_example "[empty_bucket, empty_bucket]" 10 7 1 "[(10, 7), (10, 8), (10, 7), (11, 7)]"]
    rl_example_inv rl_example_stop
  by (simp add: rl_example_def rl_default_def del: run_requests.simps)

text \<open>C28. One request of an ordinary user keeps the table well-formed: every user with an entry still finds it and,
  unless it is the sender's, the entry is unchanged. Afterwards the sender has an entry, unless the table is full
  of other users. A sender who has an entry, has used it up and waited long enough for a token to be
  refilled is let through (up to the wrap-around of the 32-bit counter).\<close>

theorem rate_limit_step:
  assumes "rl_inv rl tbl (now div refill_period rl)" "uid \<noteq> 0" "0 \<le> now"
  shows "\<exists>ex rl' tbl'. rate_limit_exceeded rl False False uid now = Some (ex, rl')
     \<and> rl_inv rl' tbl' (now div refill_period rl)
     \<and> (\<forall>i<length tbl. ub_uid (tbl ! i) \<noteq> 0 \<longrightarrow> stop_at tbl' (ub_uid (tbl ! i)) i \<and> (ub_uid (tbl ! i) \<noteq> uid \<longrightarrow> tbl' ! i = tbl ! i))
     \<and> ((\<exists>i. stop_at tbl' uid i \<and> ub_uid (tbl' ! i) = uid) \<or> (\<forall>b\<in>set tbl. ub_uid b \<noteq> 0 \<and> ub_uid b \<noteq> uid) \<and> \<not> ex \<and> rl' = rl)
     \<and> (\<forall>i<length tbl. ub_uid (tbl ! i) = uid \<longrightarrow>
          uint (tokens (tbl ! i)) + (now div refill_period rl - last_update (tbl ! i)) * refill_rate rl < 2 ^ 32 \<longrightarrow>
          ex = (uint (tokens (tbl ! i)) + (now div refill_period rl - last_update (tbl ! i)) * refill_rate rl = 0))"
proof (cases rule: exceeded_step [OF assms, case_names full entry])
  case full
  have t: "tbl_ok tbl" using assms(1) by (simp add: rl_inv_def rl_ok_def)
  have o: "ub_uid b \<noteq> 0 \<and> ub_uid b \<noteq> uid" if "b \<in> set tbl" for b by (rule table_full [OF full(2) that])
  then have "\<not> (\<exists>i<length tbl. ub_uid (tbl ! i) = uid)" by auto
  with full(1) assms(1) t o show ?thesis
    by (intro exI [of _ False] exI [of _ rl] exI [of _ tbl]) (auto simp: tbl_ok_def)
next
  case (entry j b ex rl')
  have ok: "tbl_ok tbl" "tbl_ok (tbl[j := b])" using assms(1) entry(4) by (auto simp: rl_inv_def rl_ok_def)
  have j: "j < length tbl" by (rule stop_at_less [OF entry(1)])
  have own: "i = j" if "i < length tbl" "ub_uid (tbl ! i) = uid" for i
    using stop_at_unique [OF entry(1), of i] ok(1) that assms(2) by (auto simp: tbl_ok_def)
  have keep: "stop_at (tbl[j := b]) (ub_uid (tbl ! i)) i \<and> (ub_uid (tbl ! i) \<noteq> uid \<longrightarrow> tbl[j := b] ! i = tbl ! i)"
    if i: "i < length tbl" "ub_uid (tbl ! i) \<noteq> 0" for i
  proof (cases "i = j")
    case True
    then have "ub_uid (tbl ! i) = uid" using entry(1) i(2) by (auto simp: stop_at_def stops_def)
    then show ?thesis using entry(5) True by simp
  next
    case False
    then show ?thesis using ok(2) i by (fastforce simp: tbl_ok_def dest: spec [of _ i])
  qed
  have wait: "ex = (uint (tokens (tbl ! j)) + (now div refill_period rl - last_update (tbl ! j)) * refill_rate rl = 0)"
    if "ub_uid (tbl ! j) = uid"
      "uint (tokens (tbl ! j)) + (now div refill_period rl - last_update (tbl ! j)) * refill_rate rl < 2 ^ 32"
  proof -
    have "tbl ! j \<in> set tbl" using j by simp
    then have "uint (refill rl (now div refill_period rl - last_update (tbl ! j)) (tokens (tbl ! j)))
        = min (bucket_size rl) (uint (tokens (tbl ! j)) + (now div refill_period rl - last_update (tbl ! j)) * refill_rate rl)"
      by (intro refill_exact that(2)) (use assms(1) in \<open>auto simp: rl_inv_def rl_ok_def\<close>)
    moreover have "0 < bucket_size rl" using assms(1) by (simp add: rl_inv_def rl_ok_def)
    moreover have "uint (tokens b) + 1 \<noteq> 0" using uint_nonnegative [of "tokens b"] by linarith
    ultimately show ?thesis using entry(9) [OF that(1)] entry(10)
      by (cases ex) (auto simp: min_def split: if_splits)
  qed
  have keeps: "\<forall>i<length tbl. ub_uid (tbl ! i) \<noteq> 0 \<longrightarrow> stop_at (tbl[j := b]) (ub_uid (tbl ! i)) i
      \<and> (ub_uid (tbl ! i) \<noteq> uid \<longrightarrow> tbl[j := b] ! i = tbl ! i)"
    using keep by blast
  have waits: "\<forall>i<length tbl. ub_uid (tbl ! i) = uid \<longrightarrow>
      uint (tokens (tbl ! i)) + (now div refill_period rl - last_update (tbl ! i)) * refill_rate rl < 2 ^ 32 \<longrightarrow>
      ex = (uint (tokens (tbl ! i)) + (now div refill_period rl - last_update (tbl ! i)) * refill_rate rl = 0)"
    using wait own by blast
  have found: "\<exists>i. stop_at (tbl[j := b]) uid i \<and> ub_uid (tbl[j := b] ! i) = uid"
    using entry(5,6) j by (intro exI [of _ j]) simp
  show ?thesis using entry(2,4) keeps waits found
    by (intro exI [of _ ex] exI [of _ rl'] exI [of _ "tbl[j := b]"] conjI disjI1)
qed

theorem rate_limit_step_witness:
  "\<exists>ex rl' tbl'. rate_limit_exceeded rl_example False False 7 10 = Some (ex, rl') \<and> rl_inv rl' tbl' 10"
  using rate_limit_step [of rl_example "[empty_bucket, empty_bucket]" 10 7] rl_example_inv
  by (auto simp: rl_example_def rl_default_def)

end
