(* ===== verification/Reverse_Tree.thy ===== *)
theory Reverse_Tree
  imports Slurm_Prelude
begin

text \<open>
  src/common/reverse_tree.c: the tree over the ranks \<open>0, ..., num_nodes - 1\<close> along which the steps of a job
  collect their results. Every rank computes its parent, its depth and the number of ranks below it, and a
  parent computes the list of its children, all by arithmetic on the ranks alone: nothing but these
  functions makes the ranks agree.

  All values are C's \<open>int\<close>. An operation whose result leaves the 32-bit range is undefined in C, here \<open>None\<close>.
\<close>

subsection \<open>Operations\<close>

text \<open>\<^verbatim>\<open>for (i = 1; i < power; i++) res *= num;\<close>\<close>

function int_pow_loop :: "int \<Rightarrow> int \<Rightarrow> int \<Rightarrow> int \<Rightarrow> int option" where
  "int_pow_loop num pw i res = (if i < pw then i32 (res * num) \<bind> int_pow_loop num pw (i + 1) else Some res)"
  by pat_completeness auto
termination
  by (relation "measure (\<lambda>(num, pw, i, res). nat (pw - i))") auto

declare int_pow_loop.simps [simp del]

definition int_pow :: "int \<Rightarrow> int \<Rightarrow> int option" where
  "int_pow num pw =
     (if pw = 0 then Some 1
      else if pw = 1 then Some num
      else int_pow_loop num pw 1 num)"

definition geometric_series :: "int \<Rightarrow> int \<Rightarrow> int option" where
  "geometric_series width depth =
     (if width = 1 then i32 (depth + 1)
      else do { d \<leftarrow> i32 (depth + 1); pw \<leftarrow> int_pow width d; num \<leftarrow> i32 (1 - pw); c_div num (1 - width) })"

text \<open>The loop of \<open>dep\<close> does not end for a width of zero.\<close>

partial_function (option) dep_loop :: "int \<Rightarrow> int \<Rightarrow> int \<Rightarrow> int \<Rightarrow> int option" where
  "dep_loop ttl width i x =
     (if x < ttl - 1 then do { pw \<leftarrow> int_pow width i; x1 \<leftarrow> i32 (x + pw); dep_loop ttl width (i + 1) x1 }
      else Some (i - 1))"

definition dep :: "int \<Rightarrow> int \<Rightarrow> int option" where
  "dep ttl width = dep_loop ttl width 1 0"

text \<open>The loop over the children of a node in \<open>search_tree\<close>: the rank is one of them, lies below one of them,
  or the loop ends without finding it.\<close>

datatype search_result = Child | Below int | Missing

function search_children :: "int \<Rightarrow> int \<Rightarrow> int \<Rightarrow> int \<Rightarrow> int \<Rightarrow> search_result option" where
  "search_children rank next_children width i current =
     (if i \<le> width then do {
        next1 \<leftarrow> i32 (current + next_children + 1);
        if rank = next1 then Some Child
        else if rank > current \<and> rank < next1 then Some (Below current)
        else search_children rank next_children width (i + 1) next1 }
      else Some Missing)"
  by pat_completeness auto
termination
  by (relation "measure (\<lambda>(rank, next_children, width, i, current). nat (width + 1 - i))") auto

declare search_children.simps [simp del]

text \<open>Returns whether the rank was found, its parent, the number of ranks below it in a full tree, and its depth.\<close>

partial_function (option) search_tree :: "int \<Rightarrow> int \<Rightarrow> int \<Rightarrow> int \<Rightarrow> int \<Rightarrow> (bool \<times> int \<times> int \<times> int) option" where
  "search_tree rank node max_children width depth = do {
     depth1 \<leftarrow> i32 (depth + 1);
     current \<leftarrow> i32 (node + 1);
     q \<leftarrow> c_div max_children width;
     next_children \<leftarrow> i32 (q - 1);
     if rank = current then Some (True, node, next_children, depth1)
     else do {
       res \<leftarrow> search_children rank next_children width 1 current;
       case res of
         Child \<Rightarrow> Some (True, node, next_children, depth1)
       | Below c \<Rightarrow> search_tree rank c next_children width depth1
       | Missing \<Rightarrow> Some (False, -1, -1, depth1) } }"

record tree_info =
  ti_parent :: int
  ti_num_children :: int
  ti_depth :: int
  ti_max_depth :: int

definition reverse_tree_info :: "int \<Rightarrow> int \<Rightarrow> int \<Rightarrow> tree_info option" where
  "reverse_tree_info rank num_nodes width =
     (if rank \<ge> num_nodes then
        Some \<lparr>ti_parent = -1, ti_num_children = -1, ti_depth = -1, ti_max_depth = -1\<rparr>
      else if width > num_nodes then
        Some \<lparr>ti_parent = -1, ti_num_children = 0, ti_depth = 0, ti_max_depth = 0\<rparr>
      else do {
        max_depth \<leftarrow> dep num_nodes width;
        if rank = 0 then
          Some \<lparr>ti_parent = -1, ti_num_children = num_nodes - 1, ti_depth = 0, ti_max_depth = max_depth\<rparr>
        else do {
          max_children \<leftarrow> geometric_series width max_depth;
          (found, p, c, depth) \<leftarrow> search_tree rank 0 max_children width 0;
          rc \<leftarrow> i32 (rank + c);
          let c = (if rc \<ge> num_nodes then num_nodes - rank - 1 else c);
          Some \<lparr>ti_parent = p, ti_num_children = c, ti_depth = depth, ti_max_depth = max_depth\<rparr> } })"

text \<open>The loop that fills the array of children, here as a list.\<close>

function children_loop :: "int \<Rightarrow> int \<Rightarrow> int \<Rightarrow> int \<Rightarrow> int \<Rightarrow> int list option" where
  "children_loop num_nodes width dist i current =
     (if i < width \<and> current < num_nodes then do {
        current1 \<leftarrow> i32 (current + dist);
        cs \<leftarrow> children_loop num_nodes width dist (i + 1) current1;
        Some (current # cs) }
      else Some [])"
  by pat_completeness auto
termination
  by (relation "measure (\<lambda>(num_nodes, width, dist, i, current). nat (width - i))") auto

declare children_loop.simps [simp del]

definition reverse_tree_direct_children :: "int \<Rightarrow> int \<Rightarrow> int \<Rightarrow> int \<Rightarrow> int list option" where
  "reverse_tree_direct_children rank num_nodes width depth =
     (if width > num_nodes then Some []
      else do {
        max_depth \<leftarrow> dep num_nodes width;
        sub_depth \<leftarrow> i32 (max_depth - depth);
        if sub_depth = 0 then Some []
        else do {
          max_rank_children \<leftarrow> geometric_series width sub_depth;
          current \<leftarrow> i32 (rank + 1);
          child_distance \<leftarrow> c_div max_rank_children width;
          children_loop num_nodes width child_distance 0 current } })"

subsection \<open>The arithmetic of full trees\<close>

text \<open>The number of nodes of the full tree of depth \<open>k\<close>.\<close>

primrec full :: "nat \<Rightarrow> nat \<Rightarrow> nat" where
  "full w 0 = 1"
| "full w (Suc k) = 1 + w * full w k"

lemma full_pos [simp]: "0 < full w k"
  by (cases k) simp_all

lemma full_Suc_pow: "full w (Suc k) = full w k + w ^ Suc k"
  by (induction k) (simp_all add: algebra_simps)

lemma full_closed_Suc: "v * full (Suc v) k + 1 = Suc v ^ Suc k"
proof (induction k)
  case (Suc k)
  have "v * full (Suc v) (Suc k) + 1 = Suc v * (v * full (Suc v) k + 1)" by (simp add: algebra_simps)
  then show ?case unfolding Suc.IH by simp
qed simp

lemma full_closed: "1 \<le> w \<Longrightarrow> (w - 1) * full w k + 1 = w ^ Suc k"
  using full_closed_Suc [of "w - 1" k] by simp

lemma full_le_pow: "2 \<le> w \<Longrightarrow> full w k \<le> w ^ Suc k"
proof -
  assume w: "2 \<le> w"
  then have "1 * full w k \<le> (w - 1) * full w k" "(w - 1) * full w k + 1 = w ^ Suc k"
    by (intro mult_le_mono1, simp) (rule full_closed, use w in simp)
  then show ?thesis by linarith
qed

lemma full_mono: "1 \<le> w \<Longrightarrow> k \<le> k' \<Longrightarrow> full w k \<le> full w k'"
  by (rule lift_Suc_mono_le) (simp_all add: le_Suc_eq)

lemma full_grows: "1 \<le> w \<Longrightarrow> k < full w k"
proof (induction k)
  case (Suc k)
  have "1 * full w k \<le> w * full w k" using Suc.prems by (rule mult_le_mono1)
  with Suc.IH [OF Suc.prems] show ?case unfolding full.simps by linarith
qed simp

lemma full_div: "2 \<le> w \<Longrightarrow> full w (Suc k) div w = full w k" "2 \<le> w \<Longrightarrow> (full w (Suc k) - 1) div w = full w k"
  by (auto intro!: div_nat_eqI)

lemma int_pow_loop_eq:
  assumes "1 \<le> w" "int w ^ p < 2 ^ 31" "i \<le> p"
  shows "int_pow_loop (int w) (int p) (int i) (int w ^ i) = Some (int w ^ p)"
  using assms(3)
proof (induction "p - i" arbitrary: i)
  case 0 then show ?case by (simp add: int_pow_loop.simps)
next
  case (Suc k)
  then have i: "i < p" by simp
  have "int w ^ Suc i \<le> int w ^ p" using assms(1) i by (intro power_increasing) auto
  then have "i32 (int w ^ i * int w) = Some (int w ^ Suc i)" using assms(2) by (simp add: i32_in mult.commute)
  moreover have "int_pow_loop (int w) (int p) (int (Suc i)) (int w ^ Suc i) = Some (int w ^ p)"
    using Suc by (intro Suc.hyps) auto
  ultimately show ?case using i by (simp add: int_pow_loop.simps [of _ _ "int i"] add.commute)
qed

lemma int_pow_eq: "1 \<le> w \<Longrightarrow> int w ^ p < 2 ^ 31 \<Longrightarrow> int_pow (int w) (int p) = Some (int w ^ p)"
  using int_pow_loop_eq [of w p 1] by (cases "p = 0"; cases "p = 1") (auto simp: int_pow_def)

lemma geometric_series_eq:
  assumes "2 \<le> w" "int w ^ Suc k < 2 ^ 31"
  shows "geometric_series (int w) (int k) = Some (int (full w k))"
proof -
  have fc: "(int w - 1) * int (full w k) = int w ^ Suc k - 1"
    using arg_cong [OF full_closed [of w k], of int] assms(1) by (simp add: of_nat_diff algebra_simps)
  have "Suc k \<le> w ^ Suc k" using full_grows [of w k] full_le_pow [of w k] assms(1) by linarith
  then have "int k + 1 \<le> int w ^ Suc k" by (metis of_nat_Suc of_nat_le_iff of_nat_power add.commute)
  then have d: "i32 (int k + 1) = Some (int (Suc k))" using assms(2) by (simp add: i32_def)
  have p: "1 \<le> int w ^ Suc k" using assms(1) by (intro one_le_power) simp
  have n: "i32 (1 - int w ^ Suc k) = Some (1 - int w ^ Suc k)" using assms(2) p by (auto simp: i32_def)
  have "c_div (1 - int w ^ Suc k) (1 - int w) = Some (int (full w k))"
  proof -
    have "1 - int w ^ Suc k = (1 - int w) * int (full w k)" using fc by (simp add: algebra_simps)
    moreover have "sgn (1 - int w) = - 1" "1 - int w \<noteq> 0" using assms(1) by auto
    moreover have "int (full w k) > 0" by simp
    ultimately show ?thesis by (simp add: c_div_def sgn_mult abs_mult)
  qed
  then show ?thesis using assms d n int_pow_eq [of w "Suc k"] by (simp add: geometric_series_def)
qed

definition tree_depth :: "nat \<Rightarrow> nat \<Rightarrow> nat \<Rightarrow> bool" where
  "tree_depth w n D \<longleftrightarrow> n \<le> full w D \<and> (\<forall>d<D. full w d < n)"

lemma dep_loop_eq:
  assumes "2 \<le> w" "int w ^ Suc D < 2 ^ 31" "tree_depth w n D" "j \<le> D"
  shows "dep_loop (int n) (int w) (int j + 1) (int (full w j) - 1) = Some (int D)"
  using assms(4)
proof (induction "D - j" arbitrary: j)
  case 0
  then show ?case using assms(3) by (simp add: dep_loop.simps tree_depth_def)
next
  case (Suc m)
  then have j: "j < D" by simp
  have "int w ^ Suc j \<le> int w ^ Suc D" "int w ^ Suc (Suc j) \<le> int w ^ Suc D" using assms(1) j by (auto intro!: power_increasing simp del: power_Suc)
  then have b: "int w ^ Suc j < 2 ^ 31" "int w ^ Suc (Suc j) < 2 ^ 31" using assms(2) by linarith+
  have x: "int (full w j) - 1 + int w ^ Suc j = int (full w (Suc j)) - 1"
    using arg_cong [OF full_Suc_pow [of w j], of int] by simp
  have "int (full w (Suc j)) \<le> int w ^ Suc (Suc j)"
    using full_le_pow [OF assms(1), of "Suc j"] by (metis of_nat_le_iff of_nat_power)
  then have "i32 (int (full w j) - 1 + int w ^ Suc j) = Some (int (full w (Suc j)) - 1)"
    unfolding x using b(2) full_pos [of w "Suc j"] by (intro i32_in) linarith+
  moreover have "int_pow (int w) (int j + 1) = Some (int w ^ Suc j)"
    using int_pow_eq [of w "Suc j"] b(1) assms(1) by (simp add: algebra_simps)
  moreover have "dep_loop (int n) (int w) (int (Suc j) + 1) (int (full w (Suc j)) - 1) = Some (int D)"
    using Suc by (intro Suc.hyps) auto
  moreover have "int (full w j) - 1 < int n - 1" using assms(3) j by (simp add: tree_depth_def)
  ultimately show ?case by (subst dep_loop.simps) (simp add: algebra_simps del: full.simps)
qed

lemma dep_eq:
  assumes "2 \<le> w" "int w ^ Suc D < 2 ^ 31" "tree_depth w n D"
  shows "dep (int n) (int w) = Some (int D)"
  using dep_loop_eq [OF assms, of 0] by (simp add: dep_def)

subsection \<open>Where a rank is\<close>

text \<open>The place of rank \<open>x\<close> below the node \<open>r\<close>, the root of a full tree of depth \<open>k\<close>: its parent, the depth
  of its own subtree and its depth.\<close>

primrec locate :: "nat \<Rightarrow> nat \<Rightarrow> nat \<Rightarrow> nat \<Rightarrow> nat \<Rightarrow> nat \<times> nat \<times> nat" where
  "locate w 0 r x d = (r, 0, d)"
| "locate w (Suc k) r x d =
     (let c = r + 1 + (x - r - 1) div full w k * full w k in
      if x = c then (r, k, Suc d) else locate w k c x (Suc d))"

text \<open>Splitting a rank below \<open>r\<close> into the number of the child and the distance from it.\<close>

lemma below_split:
  assumes "r < x" "x < r + full w (Suc k)"
  obtains j e where "j < w" "e < full w k" "x = r + 1 + j * full w k + e" "(x - r - 1) div full w k = j"
proof
  have "x - r - 1 < w * full w k" using assms by auto
  then show "(x - r - 1) div full w k < w" by (simp add: less_mult_imp_div_less)
  show "(x - r - 1) mod full w k < full w k" by simp
  have "(x - r - 1) div full w k * full w k + (x - r - 1) mod full w k = x - r - 1" by (rule div_mult_mod_eq)
  then show "x = r + 1 + (x - r - 1) div full w k * full w k + (x - r - 1) mod full w k" using assms by linarith
qed simp

lemma child_fits: "j < w \<Longrightarrow> r + 1 + j * full w k + full w k \<le> r + full w (Suc k)"
proof -
  assume "j < w"
  then have "Suc j * full w k \<le> w * full w k" by (intro mult_le_mono1) simp
  then show ?thesis by simp
qed

lemma i32_nat: "n < 2 ^ 31 \<Longrightarrow> i32 (int n) = Some (int n)"
  by (simp add: i32_def nat_less_numeral_power_cancel_iff)

lemma next_child: "int (r + 1 + m * full w k) + (int (full w k) - 1) + 1 = int (r + 1 + Suc m * full w k)"
  by (simp add: algebra_simps)

lemma search_children_eq:
  assumes "j < w" "e < full w k" "x = r + 1 + j * full w k + e" "r + full w (Suc k) < 2 ^ 31"
    "m \<le> j" "e = 0 \<Longrightarrow> m < j"
  shows "search_children (int x) (int (full w k) - 1) (int w) (int m + 1) (int (r + 1 + m * full w k))
    = Some (if e = 0 then Child else Below (int (r + 1 + j * full w k)))"
  using assms(5,6)
proof (induction "j - m" arbitrary: m)
  case 0
  then have m: "m = j" "e \<noteq> 0" by auto
  have "r + 1 + Suc j * full w k < 2 ^ 31" using child_fits [OF assms(1), of r k] assms(4) by simp
  then have "i32 (int (r + 1 + j * full w k) + (int (full w k) - 1) + 1) = Some (int (r + 1 + Suc j * full w k))"
    unfolding next_child by (rule i32_nat)
  then show ?case using m assms(1-3) by (subst search_children.simps) (simp add: algebra_simps)
next
  case (Suc l)
  then have m: "Suc m \<le> j" by simp
  have le: "Suc m * full w k \<le> j * full w k" using m by (intro mult_le_mono1)
  have "r + 1 + j * full w k < 2 ^ 31" using child_fits [OF assms(1), of r k] assms(4) by simp
  then have nx: "i32 (int (r + 1 + m * full w k) + (int (full w k) - 1) + 1) = Some (int (r + 1 + Suc m * full w k))"
    unfolding next_child using le by (intro i32_nat) linarith
  show ?case
  proof (cases "x = r + 1 + Suc m * full w k")
    case True
    then have "e = 0" "Suc m = j"
    proof -
      show "e = 0" using True assms(3) le by linarith
      then have "Suc m * full w k = j * full w k" using True assms(3) by linarith
      then show "Suc m = j" using full_pos [of w k] by (metis mult_cancel2 less_not_refl)
    qed
    then show ?thesis using nx True m assms(1) by (subst search_children.simps) simp
  next
    case False
    have "search_children (int x) (int (full w k) - 1) (int w) (int (Suc m) + 1) (int (r + 1 + Suc m * full w k))
        = Some (if e = 0 then Child else Below (int (r + 1 + j * full w k)))"
    proof (rule Suc.hyps(1))
      show "Suc m < j" if "e = 0" using False m that assms(3) by (cases "Suc m = j") auto
    qed (use Suc.hyps(2) m in auto)
    moreover have "\<not> int x < int (r + 1 + Suc m * full w k)" unfolding of_nat_less_iff using assms(3) le by linarith
    moreover have "int x \<noteq> int (r + 1 + Suc m * full w k)" using False unfolding of_nat_eq_iff .
    ultimately show ?thesis using nx False m assms(1) by (subst search_children.simps) (simp add: algebra_simps)
  qed
qed

lemma c_div_nat: "0 < b \<Longrightarrow> c_div (int a) (int b) = Some (int (a div b))"
  by (simp add: c_div_pos zdiv_int)

lemma search_tree_eq:
  assumes "2 \<le> w" "r < x" "x < r + full w k" "r + full w k < 2 ^ 31" "d + k < 2 ^ 31"
    "mc = full w k \<or> mc = full w k - 1" "locate w k r x d = (p, k', d')"
  shows "search_tree (int x) (int r) (int mc) (int w) (int d) = Some (True, int p, int (full w k') - 1, int d')"
  using assms(2-)
proof (induction k arbitrary: r d mc)
  case (Suc k)
  obtain j e where je: "j < w" "e < full w k" "x = r + 1 + j * full w k + e" "(x - r - 1) div full w k = j"
    using below_split [OF Suc.prems(1,2)] by blast
  have "i32 (int d + 1) = Some (int (Suc d))" using i32_nat [of "Suc d"] Suc.prems(4) by (simp add: algebra_simps)
  moreover have "i32 (int r + 1) = Some (int (r + 1))" using i32_nat [of "Suc r"] Suc.prems(1-3) by (simp add: algebra_simps)
  moreover have "c_div (int mc) (int w) = Some (int (full w k))"
    using Suc.prems(5) full_div [OF assms(1), of k] assms(1) by (auto simp: c_div_nat simp del: full.simps)
  moreover have "i32 (int (full w k) - 1) = Some (int (full w k) - 1)"
    using full_mono [of w k "Suc k"] full_pos [of w k] Suc.prems(3) assms(1) by (auto simp: i32_def simp del: full.simps full_pos)
  moreover have "search_children (int x) (int (full w k) - 1) (int w) 1 (int (r + 1))
      = Some (if e = 0 then Child else Below (int (r + 1 + j * full w k)))" if "x \<noteq> r + 1"
    using search_children_eq [of j w e k x r 0] je Suc.prems(3) that by auto
  moreover have "search_tree (int x) (int (r + 1 + j * full w k)) (int (full w k - 1)) (int w) (int (Suc d))
      = Some (True, int p, int (full w k') - 1, int d')" if e: "e \<noteq> 0"
  proof (rule Suc.IH)
    show "locate w k (r + 1 + j * full w k) x (Suc d) = (p, k', d')" using Suc.prems(6) je that by (simp add: Let_def)
  qed (use je e Suc.prems(3,4) child_fits [OF je(1), of r k] in auto)
  moreover have "p = r \<and> k' = k \<and> d' = Suc d" if "e = 0" using Suc.prems(6) je that by (simp add: Let_def)
  moreover have "e = 0" if "x = r + 1" using je that by simp
  ultimately show ?case
    by (subst search_tree.simps) (auto simp: of_nat_diff Suc_leI)
qed simp

lemma locate_child: "locate w (Suc k) r (r + 1 + j * full w k) d = (r, k, Suc d)"
  by (simp add: Let_def)

lemma locate_below:
  assumes "r + 1 + j * full w k < x" "x < r + 1 + j * full w k + full w k"
  shows "locate w (Suc k) r x d = locate w k (r + 1 + j * full w k) x (Suc d)"
proof -
  have "(x - r - 1) div full w k = j" using assms by (intro div_nat_eqI) (auto simp: algebra_simps)
  then show ?thesis using assms by (simp add: Let_def)
qed

text \<open>The parent is a smaller rank, the rank is one of its children, and the parent is itself found at its place.\<close>

lemma locate_up:
  assumes "r < x" "x < r + full w k" "locate w k r x d = (p, k', d')"
  shows "k' < k \<and> d' + k' = d + k \<and> r \<le> p \<and> p < x \<and> x + full w k' \<le> r + full w k \<and> (\<exists>j<w. x = p + 1 + j * full w k')
    \<and> (p = r \<and> Suc k' = k \<or> r < p \<and> (\<exists>p0. locate w k r p d = (p0, Suc k', d' - 1)))"
  using assms
proof (induction k arbitrary: r d)
  case (Suc k)
  obtain j e where je: "j < w" "e < full w k" "x = r + 1 + j * full w k + e" "(x - r - 1) div full w k = j"
    using below_split [OF Suc.prems(1,2)] by blast
  let ?c = "r + 1 + j * full w k"
  note fits = child_fits [OF je(1), of r k]
  show ?case
  proof (cases "e = 0")
    case True
    then have x: "x = ?c" using je(3) by simp
    then have pk: "p = r" "k' = k" "d' = Suc d" using locate_child [of w k r j d] Suc.prems(3) by auto
    have "\<exists>j<w. x = p + 1 + j * full w k'" using je(1) x pk by blast
    then show ?thesis using pk x fits by simp
  next
    case False
    have l: "locate w k ?c x (Suc d) = (p, k', d')" using locate_below [of r j w k x d] je False Suc.prems(3) by simp
    have v: "?c < x" "x < ?c + full w k" using je False by auto
    note ih = Suc.IH [OF v l]
    have "\<exists>p0. locate w (Suc k) r p d = (p0, Suc k', d' - 1)"
    proof (cases "p = ?c \<and> Suc k' = k")
      case True
      then have "d' - 1 = Suc d" using ih by linarith
      then show ?thesis using locate_child [of w k r j d] True by auto
    next
      case False
      then have "?c < p" "p < ?c + full w k" "\<exists>p0. locate w k ?c p (Suc d) = (p0, Suc k', d' - 1)" using ih v by auto
      then show ?thesis using locate_below [of r j w k p d] by simp
    qed
    moreover have "r < p" "x + full w k' \<le> r + full w (Suc k)" using ih fits by auto
    ultimately show ?thesis using ih by auto
  qed
qed simp

lemmas locate_inside = locate_up [THEN conjunct2, THEN conjunct2, THEN conjunct2, THEN conjunct2, THEN conjunct1]

lemma locate_path:
  assumes "r < v" "v < r + full w k" "locate w k r v d = (p, k1, d1)" "v < x" "x < v + full w k1"
  shows "locate w k r x d = locate w k1 v x d1"
  using assms
proof (induction k arbitrary: r d)
  case (Suc k)
  obtain j e where je: "j < w" "e < full w k" "v = r + 1 + j * full w k + e" "(v - r - 1) div full w k = j"
    using below_split [OF Suc.prems(1,2)] by blast
  show ?case
  proof (cases "e = 0")
    case True
    then have v: "v = r + 1 + j * full w k" using je(3) by simp
    with Suc.prems(3) have "p = r" "k1 = k" "d1 = Suc d" using locate_child [of w k r j d] by auto
    then show ?thesis using locate_below [of r j w k x d] v Suc.prems(4,5) by simp
  next
    case False
    let ?c = "r + 1 + j * full w k"
    have l: "locate w k ?c v (Suc d) = (p, k1, d1)" using locate_below [of r j w k v d] je False Suc.prems(3) by simp
    have v: "?c < v" "v < ?c + full w k" using je False by auto
    have s: "v + full w k1 \<le> ?c + full w k" using locate_inside [OF v l] .
    have "locate w (Suc k) r x d = locate w k ?c x (Suc d)"
      by (rule locate_below) (use v s Suc.prems(4,5) in linarith)+
    also have "\<dots> = locate w k1 v x d1" by (rule Suc.IH [OF v l Suc.prems(4,5)])
    finally show ?thesis .
  qed
qed simp

subsection \<open>The functions on a whole tree\<close>

definition tree_ok :: "nat \<Rightarrow> nat \<Rightarrow> nat \<Rightarrow> bool" where
  "tree_ok w n D \<longleftrightarrow> 2 \<le> w \<and> w \<le> n \<and> tree_depth w n D \<and> int w ^ Suc D < 2 ^ 31"

text \<open>Node \<open>v\<close> is at depth \<open>d\<close> and the root of a full tree of depth \<open>k\<close>.\<close>

definition placed :: "nat \<Rightarrow> nat \<Rightarrow> nat \<Rightarrow> nat \<Rightarrow> nat \<Rightarrow> bool" where
  "placed w D v k d \<longleftrightarrow> v = 0 \<and> k = D \<and> d = 0 \<or> 0 < v \<and> v < full w D \<and> (\<exists>p. locate w D 0 v 0 = (p, k, d))"

lemma tree_ok_exists:
  assumes "2 \<le> w" "w \<le> n" "w * w * n < 2 ^ 31"
  shows "\<exists>D. tree_ok w n D"
proof -
  define D where "D = (LEAST D. n \<le> full w D)"
  have ex: "n \<le> full w n" using full_grows [of w n] assms(1) by simp
  have D: "n \<le> full w D" "\<forall>d<D. full w d < n"
    using LeastI [of "\<lambda>D. n \<le> full w D", OF ex] not_less_Least [of _ "\<lambda>D. n \<le> full w D"] by (auto simp: D_def not_le)
  obtain D1 where D1: "D = Suc D1" using D(1) assms(1,2) by (cases D) auto
  have "w ^ D1 \<le> full w D1" by (cases D1) (simp_all add: full_Suc_pow del: full.simps(2))
  then have "w ^ D1 < n" using D(2) D1 by (metis le_less_trans lessI)
  then have "w * w * w ^ D1 \<le> w * w * n" by (intro mult_le_mono2) simp
  moreover have "w ^ Suc D = w * w * w ^ D1" using D1 by simp
  ultimately have "w ^ Suc D < 2 ^ 31" using assms(3) by linarith
  then have "int w ^ Suc D < 2 ^ 31" by (metis of_nat_less_iff of_nat_numeral of_nat_power)
  then show ?thesis using assms D by (auto simp: tree_ok_def tree_depth_def)
qed

lemma tree_ok_small: "tree_ok w n D \<Longrightarrow> full w D < 2 ^ 31"
proof -
  assume t: "tree_ok w n D"
  then have "int (full w D) \<le> int (w ^ Suc D)" unfolding of_nat_le_iff by (intro full_le_pow) (simp add: tree_ok_def)
  then have "int (full w D) < 2 ^ 31" using t by (simp add: tree_ok_def)
  then show ?thesis by (simp add: zless_nat_eq_int_zless)
qed

lemma placed_exists:
  assumes "tree_ok w n D" "v < n"
  shows "\<exists>k d. placed w D v k d"
proof -
  obtain p k d where "locate w D 0 v 0 = (p, k, d)" by (cases "locate w D 0 v 0") blast
  then show ?thesis using assms by (cases "v = 0") (auto simp: placed_def tree_ok_def tree_depth_def)
qed

lemma placed_unique: "placed w D v k d \<Longrightarrow> placed w D v k' d' \<Longrightarrow> k' = k \<and> d' = d"
  by (auto simp: placed_def)

lemma placed_sum: "placed w D v k d \<Longrightarrow> d + k = D \<and> v + full w k \<le> full w D"
  using locate_up [of 0 v w D 0 _ k d] by (auto simp: placed_def)

definition info_of :: "nat \<Rightarrow> nat \<Rightarrow> nat \<Rightarrow> int \<Rightarrow> nat \<Rightarrow> nat \<Rightarrow> nat \<Rightarrow> tree_info" where
  "info_of w n D p v k d = \<lparr>ti_parent = p, ti_num_children = int (min (full w k - 1) (n - v - 1)), ti_depth = int d, ti_max_depth = int D\<rparr>"

lemma info_root:
  assumes "tree_ok w n D"
  shows "reverse_tree_info 0 (int n) (int w) = Some (info_of w n D (- 1) 0 D 0)"
proof -
  have "0 < n" "n \<le> full w D" "w \<le> n" using assms by (auto simp: tree_ok_def tree_depth_def)
  moreover have "dep (int n) (int w) = Some (int D)" using assms by (intro dep_eq) (auto simp: tree_ok_def)
  ultimately show ?thesis by (auto simp: reverse_tree_info_def info_of_def of_nat_diff)
qed

lemma info_inner:
  assumes "tree_ok w n D" "0 < v" "v < n" "locate w D 0 v 0 = (p, k, d)"
  shows "reverse_tree_info (int v) (int n) (int w) = Some (info_of w n D (int p) v k d)"
proof -
  have t: "2 \<le> w" "w \<le> n" "tree_depth w n D" "int w ^ Suc D < 2 ^ 31" "n \<le> full w D"
    using assms(1) by (auto simp: tree_ok_def tree_depth_def)
  have sm: "full w D < 2 ^ 31" by (rule tree_ok_small [OF assms(1)])
  have v: "v < full w D" using assms(3) t(5) by simp
  have up: "v + full w k \<le> full w D" using locate_inside [of 0 v w D 0 p k d] assms(2,4) v by simp
  have "D < 2 ^ 31" using full_grows [of w D] t(1) sm by linarith
  then have "search_tree (int v) 0 (int (full w D)) (int w) 0 = Some (True, int p, int (full w k) - 1, int d)"
    using search_tree_eq [of w 0 v D 0 "full w D" p k d] t assms v sm by simp
  moreover have "i32 (int v + (int (full w k) - 1)) = Some (int v + (int (full w k) - 1))"
    using i32_nat [of "v + (full w k - 1)"] up sm full_pos [of w k] by (simp add: of_nat_diff Suc_leI algebra_simps del: full_pos)
  moreover have "dep (int n) (int w) = Some (int D)" by (rule dep_eq [OF t(1,4,3)])
  moreover have "geometric_series (int w) (int D) = Some (int (full w D))" by (rule geometric_series_eq [OF t(1,4)])
  moreover have "int (min (full w k - 1) (n - v - 1)) = (if int v + (int (full w k) - 1) \<ge> int n then int n - int v - 1 else int (full w k) - 1)"
    using assms(3) full_pos [of w k] by (auto simp: min_def of_nat_diff Suc_leI simp del: full_pos)
  ultimately show ?thesis using assms(2,3) t(2) by (simp add: reverse_tree_info_def info_of_def Let_def)
qed

lemma children_loop_eq:
  assumes "v + 1 + w * q < 2 ^ 31" "i \<le> w" "0 < q"
  shows "children_loop (int n) (int w) (int q) (int i) (int (v + 1 + i * q))
    = Some (map int (filter (\<lambda>c. c < n) (map (\<lambda>j. v + 1 + j * q) [i..<w])))"
  using assms(2)
proof (induction "w - i" arbitrary: i)
  case 0 then show ?case by (simp add: children_loop.simps)
next
  case (Suc m)
  then have i: "i < w" by simp
  then have "Suc i * q \<le> w * q" by (intro mult_le_mono1) simp
  then have "v + 1 + Suc i * q < 2 ^ 31" using assms(1) by linarith
  then have nx: "i32 (int (v + 1 + i * q) + int q) = Some (int (v + 1 + Suc i * q))"
    using i32_nat [of "v + 1 + Suc i * q"] by (simp add: algebra_simps)
  have ih: "children_loop (int n) (int w) (int q) (int (Suc i)) (int (v + 1 + Suc i * q))
      = Some (map int (filter (\<lambda>c. c < n) (map (\<lambda>j. v + 1 + j * q) [Suc i..<w])))"
    using Suc i by (intro Suc.hyps) auto
  have up: "[i..<w] = i # [Suc i..<w]" using i by (rule upt_conv_Cons)
  show ?case
  proof (cases "v + 1 + i * q < n")
    case True
    then have "int (v + 1 + i * q) < int n" by (simp only: of_nat_less_iff)
    then show ?thesis unfolding up using True i nx ih by (subst children_loop.simps) (simp add: add.commute [of 1])
  next
    case False
    have "\<not> v + 1 + j * q < n" if "i \<le> j" for j
    proof -
      have "i * q \<le> j * q" using that by (rule mult_le_mono1)
      then show ?thesis using False by linarith
    qed
    then have "filter (\<lambda>c. c < n) (map (\<lambda>j. v + 1 + j * q) [i..<w]) = []" by (auto simp: filter_empty_conv)
    moreover have "\<not> int (v + 1 + i * q) < int n" using False unfolding of_nat_less_iff .
    ultimately show ?thesis by (subst children_loop.simps) simp
  qed
qed

lemma children_eq:
  assumes "tree_ok w n D" "placed w D v (Suc k) d"
  shows "reverse_tree_direct_children (int v) (int n) (int w) (int d)
    = Some (map int (filter (\<lambda>c. c < n) (map (\<lambda>j. v + 1 + j * full w k) [0..<w])))"
proof -
  have t: "2 \<le> w" "w \<le> n" "tree_depth w n D" "int w ^ Suc D < 2 ^ 31" using assms(1) by (auto simp: tree_ok_def)
  have s: "d + Suc k = D" "v + full w (Suc k) < 2 ^ 31" using placed_sum [OF assms(2)] tree_ok_small [OF assms(1)] by auto
  have "int w ^ Suc (Suc k) \<le> int w ^ Suc D" using t(1) s(1) by (intro power_increasing) auto
  then have "geometric_series (int w) (int (Suc k)) = Some (int (full w (Suc k)))"
    using t(4) by (intro geometric_series_eq [OF t(1)]) linarith
  moreover have "c_div (int (full w (Suc k))) (int w) = Some (int (full w k))"
    using full_div(1) [OF t(1), of k] t(1) by (simp add: c_div_nat del: full.simps)
  moreover have "i32 (int v + 1) = Some (int (v + 1))" using i32_nat [of "v + 1"] s(2) by (simp add: add.commute)
  moreover have "Suc k < 2 ^ 31" using full_grows [of w "Suc k"] t(1) s(2) by linarith
  then have "i32 (int D - int d) = Some (int (Suc k))" using i32_nat [of "Suc k"] s(1) by auto
  moreover have "children_loop (int n) (int w) (int (full w k)) 0 (int (v + 1))
      = Some (map int (filter (\<lambda>c. c < n) (map (\<lambda>j. v + 1 + j * full w k) [0..<w])))"
    using children_loop_eq [of v w "full w k" 0 n] s(2) by simp
  ultimately show ?thesis using t(2) dep_eq [OF t(1,4,3)] by (simp add: reverse_tree_direct_children_def del: full.simps)
qed

lemma children_leaf:
  assumes "tree_ok w n D" "placed w D v 0 d"
  shows "reverse_tree_direct_children (int v) (int n) (int w) (int d) = Some []"
proof -
  have t: "2 \<le> w" "w \<le> n" "tree_depth w n D" "int w ^ Suc D < 2 ^ 31" using assms(1) by (auto simp: tree_ok_def)
  then show ?thesis using placed_sum [OF assms(2)] dep_eq [OF t(1,4,3)] by (simp add: reverse_tree_direct_children_def i32_def)
qed

text \<open>A node is a child of \<open>v\<close> exactly when its parent is \<open>v\<close>.\<close>

lemma placed_child:
  assumes "placed w D v (Suc k) d" "j < w"
  shows "locate w D 0 (v + 1 + j * full w k) 0 = (v, k, Suc d)"
proof (cases "v = 0")
  case True
  then have "D = Suc k" "d = 0" using assms(1) by (auto simp: placed_def)
  then show ?thesis using locate_child [of w k 0 j 0] True by simp
next
  case False
  then obtain p where p: "0 < v" "v < full w D" "locate w D 0 v 0 = (p, Suc k, d)" using assms(1) by (auto simp: placed_def)
  have "locate w D 0 (v + 1 + j * full w k) 0 = locate w (Suc k) v (v + 1 + j * full w k) d"
  proof (rule locate_path)
    show "v + 1 + j * full w k < v + full w (Suc k)"
      using child_fits [OF assms(2), of v k] full_pos [of w k] by linarith
  qed (use p in auto)
  then show ?thesis using locate_child by simp
qed

lemma placed_parent:
  assumes "0 < x" "x < full w D" "locate w D 0 x 0 = (v, k, d)"
  shows "placed w D v (Suc k) (d - 1) \<and> 0 < d \<and> v < x \<and> (\<exists>j<w. x = v + 1 + j * full w k)"
  using locate_up [of 0 x w D 0 v k d] assms by (auto simp: placed_def)

lemma info_depth:
  assumes "tree_ok w n D" "v < n" "placed w D v k d"
  shows "\<exists>p. reverse_tree_info (int v) (int n) (int w) = Some (info_of w n D p v k d) \<and> (0 < v \<longrightarrow> 0 \<le> p \<and> p < int v)"
proof (cases "v = 0")
  case True
  then show ?thesis using info_root [OF assms(1)] assms(3) by (auto simp: placed_def)
next
  case False
  then obtain p where p: "0 < v" "v < full w D" "locate w D 0 v 0 = (p, k, d)" using assms(3) by (auto simp: placed_def)
  then have "p < v" using locate_up [of 0 v w D 0 p k d] by simp
  then show ?thesis using info_inner [OF assms(1) p(1) assms(2) p(3)] by auto
qed

lemma info_of_simps [simp]:
  "ti_parent (info_of w n D p v k d) = p" "ti_depth (info_of w n D p v k d) = int d" "ti_max_depth (info_of w n D p v k d) = int D"
  "ti_num_children (info_of w n D p v k d) = int (min (full w k - 1) (n - v - 1))"
  by (simp_all add: info_of_def)

lemma sorted_children: "0 < q \<Longrightarrow> sorted_wrt (<) (filter (\<lambda>c. c < n) (map (\<lambda>j. v + 1 + j * q) [0..<w]))" for q :: nat
  by (rule sorted_wrt_filter) (simp add: sorted_wrt_map sorted_wrt_iff_nth_less)

text \<open>The ranks at most \<open>q\<close> apart below \<open>v\<close>, cut off at \<open>n\<close>.\<close>

lemma children_total: "sum_list (map (\<lambda>j. min q (n - (v + 1 + j * q))) [0..<m]) = min (m * q) (n - (v + 1))" for q :: nat
  by (induction m) (auto simp: min_def)

lemma sum_list_filter_zero: "(\<And>x. x \<in> set xs \<Longrightarrow> \<not> P x \<Longrightarrow> f x = (0 :: nat)) \<Longrightarrow> sum_list (map f (filter P xs)) = sum_list (map f xs)"
  by (induction xs) auto

lemma tree_children:
  assumes "tree_ok w n D" "v < n"
  obtains p k d cs where "placed w D v k d" "reverse_tree_info (int v) (int n) (int w) = Some (info_of w n D p v k d)"
    "0 < v \<longrightarrow> 0 \<le> p \<and> p < int v" "reverse_tree_direct_children (int v) (int n) (int w) (int d) = Some (map int cs)"
    "sorted_wrt (<) cs" "\<forall>x. x \<in> set cs \<longleftrightarrow> 0 < x \<and> x < n \<and> (\<exists>k d. locate w D 0 x 0 = (v, k, d))"
    "\<forall>x \<in> set cs. 0 < k \<and> locate w D 0 x 0 = (v, k - 1, Suc d)"
    "sum_list (map (\<lambda>x. min (full w (k - 1)) (n - x)) cs) = min (full w k - 1) (n - v - 1)"
proof -
  obtain k d where pl: "placed w D v k d" using placed_exists [OF assms] by blast
  obtain p where p: "reverse_tree_info (int v) (int n) (int w) = Some (info_of w n D p v k d)" "0 < v \<longrightarrow> 0 \<le> p \<and> p < int v"
    using info_depth [OF assms pl] by blast
  have fullD: "x < full w D" if "x < n" for x using that assms(1) by (simp add: tree_ok_def tree_depth_def)
  show thesis
  proof (cases k)
    case 0
    have "\<not> (\<exists>k d. locate w D 0 x 0 = (v, k, d))" if "0 < x" "x < n" for x
      using placed_parent [OF that(1) fullD [OF that(2)]] placed_unique [OF pl] 0 by blast
    then show thesis using that [OF pl p, of "[]"] children_leaf [OF assms(1)] pl 0 by auto
  next
    case (Suc k1)
    let ?f = "\<lambda>j. v + 1 + j * full w k1"
    let ?cs = "filter (\<lambda>c. c < n) (map ?f [0..<w])"
    have pl': "placed w D v (Suc k1) d" using pl Suc by simp
    have child: "0 < x \<and> x < n \<and> locate w D 0 x 0 = (v, k1, Suc d)" if x: "x \<in> set ?cs" for x
    proof -
      obtain j where "j < w" "x = ?f j" "x < n" using x by auto
      then show ?thesis using placed_child [OF pl', of j] by simp
    qed
    have conv: "x \<in> set ?cs" if x: "0 < x" "x < n" "locate w D 0 x 0 = (v, k', d')" for x k' d'
    proof -
      note pp = placed_parent [OF x(1) fullD [OF x(2)] x(3)]
      then have "k' = k1" using placed_unique [OF pl'] by blast
      then show ?thesis using pp x(2) by auto
    qed
    have "sum_list (map (\<lambda>x. min (full w k1) (n - x)) ?cs) = sum_list (map (\<lambda>x. min (full w k1) (n - x)) (map ?f [0..<w]))"
      by (rule sum_list_filter_zero) simp
    also have "\<dots> = min (w * full w k1) (n - (v + 1))" using children_total [of "full w k1" n v w] by (simp add: comp_def)
    finally have sum: "sum_list (map (\<lambda>x. min (full w k1) (n - x)) ?cs) = min (full w k - 1) (n - v - 1)" using Suc by simp
    show thesis
    proof (rule that [OF pl p, of ?cs])
      show "reverse_tree_direct_children (int v) (int n) (int w) (int d) = Some (map int ?cs)"
        by (rule children_eq [OF assms(1) pl'])
      show "sorted_wrt (<) ?cs" by (rule sorted_children) simp
      show "\<forall>x. x \<in> set ?cs \<longleftrightarrow> 0 < x \<and> x < n \<and> (\<exists>k d. locate w D 0 x 0 = (v, k, d))" using child conv by blast
      show "\<forall>x \<in> set ?cs. 0 < k \<and> locate w D 0 x 0 = (v, k - 1, Suc d)" using child Suc by simp
      show "sum_list (map (\<lambda>x. min (full w (k - 1)) (n - x)) ?cs) = min (full w k - 1) (n - v - 1)" using sum Suc by simp
    qed
  qed
qed

subsection \<open>Properties\<close>

text \<open>C29. Parents and children agree: for every rank \<open>v\<close> of a tree of width at least two whose sizes stay in the range
  of \<open>int\<close>, the list of children that \<open>v\<close> computes contains in ascending order exactly the ranks that compute \<open>v\<close> as their
  parent, and these are one level deeper than \<open>v\<close>.\<close>

theorem tree_agreement:
  assumes "2 \<le> w" "w \<le> n" "w * w * n < 2 ^ 31" "v < n"
  shows "\<exists>iv cs. reverse_tree_info (int v) (int n) (int w) = Some iv
    \<and> reverse_tree_direct_children (int v) (int n) (int w) (ti_depth iv) = Some (map int cs) \<and> sorted_wrt (<) cs
    \<and> (\<forall>x. x \<in> set cs \<longleftrightarrow> 0 < x \<and> x < n \<and> (\<exists>ix. reverse_tree_info (int x) (int n) (int w) = Some ix \<and> ti_parent ix = int v))
    \<and> (\<forall>x \<in> set cs. \<exists>ix. reverse_tree_info (int x) (int n) (int w) = Some ix \<and> ti_depth ix = ti_depth iv + 1)"
proof -
  obtain D where t: "tree_ok w n D" using tree_ok_exists [OF assms(1-3)] by blast
  show ?thesis
  proof (cases rule: tree_children [OF t assms(4), case_names node])
    case (node p k d cs)
    note c = node
    have par: "(\<exists>ix. reverse_tree_info (int x) (int n) (int w) = Some ix \<and> ti_parent ix = int v) \<longleftrightarrow> (\<exists>k d. locate w D 0 x 0 = (v, k, d))"
      if "0 < x" "x < n" for x
      using info_inner [OF t that] by (cases "locate w D 0 x 0") auto
    have "\<exists>ix. reverse_tree_info (int x) (int n) (int w) = Some ix \<and> ti_depth ix = int d + 1" if "x \<in> set cs" for x
      using info_inner [OF t, of x v "k - 1" "Suc d"] c(6,7) that by auto
    then have dp: "\<forall>x \<in> set cs. \<exists>ix. reverse_tree_info (int x) (int n) (int w) = Some ix \<and> ti_depth ix = ti_depth (info_of w n D p v k d) + 1"
      by simp
    have "\<forall>x. x \<in> set cs \<longleftrightarrow> 0 < x \<and> x < n \<and> (\<exists>ix. reverse_tree_info (int x) (int n) (int w) = Some ix \<and> ti_parent ix = int v)"
      using c(6) par by (simp cong: conj_cong)
    moreover have "reverse_tree_direct_children (int v) (int n) (int w) (ti_depth (info_of w n D p v k d)) = Some (map int cs)"
      using c(4) by simp
    ultimately show ?thesis using c(2,5) dp by (intro exI [of _ "info_of w n D p v k d"] exI [of _ cs] conjI)
  qed
qed

theorem tree_agreement_witness:
  "\<exists>iv cs. reverse_tree_info 1 14 3 = Some iv \<and> reverse_tree_direct_children 1 14 3 (ti_depth iv) = Some (map int cs)
    \<and> (\<forall>x. x \<in> set cs \<longleftrightarrow> 0 < x \<and> x < 14 \<and> (\<exists>ix. reverse_tree_info (int x) 14 3 = Some ix \<and> ti_parent ix = 1))"
  using tree_agreement [of 3 14 1] by auto

text \<open>C30. The counts add up: the number of ranks below \<open>v\<close> that \<open>v\<close> computes is the number of its children plus the
  numbers they compute for themselves, so that every rank waits for exactly the ranks that report through it; at
  the root it is all other ranks. Parents are smaller ranks, so following them ends at the root.\<close>

theorem tree_counts:
  assumes "2 \<le> w" "w \<le> n" "w * w * n < 2 ^ 31" "v < n"
  shows "\<exists>iv cs. reverse_tree_info (int v) (int n) (int w) = Some iv
    \<and> reverse_tree_direct_children (int v) (int n) (int w) (ti_depth iv) = Some cs
    \<and> ti_num_children iv = sum_list (map (\<lambda>x. 1 + ti_num_children (the (reverse_tree_info x (int n) (int w)))) cs)
    \<and> (if v = 0 then ti_parent iv = -1 \<and> ti_depth iv = 0 \<and> ti_num_children iv = int n - 1
       else 0 \<le> ti_parent iv \<and> ti_parent iv < int v \<and> 0 < ti_depth iv \<and> ti_depth iv \<le> ti_max_depth iv)"
proof -
  obtain D where t: "tree_ok w n D" using tree_ok_exists [OF assms(1-3)] by blast
  show ?thesis
  proof (cases rule: tree_children [OF t assms(4), case_names node])
    case (node p k d cs)
    note c = node
    have one: "1 + ti_num_children (the (reverse_tree_info (int x) (int n) (int w))) = int (min (full w (k - 1)) (n - x))" if "x \<in> set cs" for x
      using info_inner [OF t, of x v "k - 1" "Suc d"] c(6,7) that full_pos [of w "k - 1"] by (auto simp del: full_pos)
    have "sum_list (map (\<lambda>x. 1 + ti_num_children (the (reverse_tree_info x (int n) (int w)))) (map int cs))
        = sum_list (map (\<lambda>x. int (min (full w (k - 1)) (n - x))) cs)"
      using one by (auto simp: comp_def intro!: arg_cong [where f = sum_list] map_cong)
    also have "\<dots> = int (min (full w k - 1) (n - v - 1))"
      unfolding c(8) [symmetric] by (induction cs) auto
    finally have s: "int (min (full w k - 1) (n - v - 1)) = sum_list (map (\<lambda>x. 1 + ti_num_children (the (reverse_tree_info x (int n) (int w)))) (map int cs))" ..
    have "if v = 0 then p = -1 \<and> d = 0 \<and> int (min (full w k - 1) (n - v - 1)) = int n - 1 else 0 \<le> p \<and> p < int v \<and> 0 < d \<and> d \<le> D"
    proof (cases "v = 0")
      case True
      then show ?thesis using c(1,2) info_root [OF t] t assms(4) by (auto simp: placed_def info_of_def tree_ok_def tree_depth_def min_def)
    next
      case False
      then show ?thesis using c(1,3) locate_up [of 0 v w D 0 _ k d] by (auto simp: placed_def)
    qed
    then show ?thesis using c(2,4) s by (intro exI [of _ "info_of w n D p v k d"] exI [of _ "map int cs"]) (simp split: if_splits)
  qed
qed

theorem tree_counts_witness:
  "\<exists>iv cs. reverse_tree_info 1 14 3 = Some iv \<and> reverse_tree_direct_children 1 14 3 (ti_depth iv) = Some cs
    \<and> ti_num_children iv = sum_list (map (\<lambda>x. 1 + ti_num_children (the (reverse_tree_info x 14 3))) cs)"
  using tree_counts [of 3 14 1] by auto

text \<open>The power in \<open>geometric_series\<close> leaves the range of \<open>int\<close> for wide trees although the tree itself is small:
  with 3000 ranks and width 1500 it is \<open>1500 ^ 3\<close>.\<close>

lemma dep_wide: "dep 3000 1500 = Some 2"
  by (simp add: dep_def dep_loop.simps int_pow_def int_pow_loop.simps i32_def)

theorem tree_width_overflow: "reverse_tree_info 1 3000 1500 = None"
  by (simp add: reverse_tree_info_def dep_wide geometric_series_def i32_def int_pow_def int_pow_loop.simps)

end
