(* ===== verification/Port_Mgr.thy ===== *)
theory Port_Mgr
  imports Xstring Bitmap_Spec
begin

text \<open>
  src/common/port_mgr.c: the ports reserved for the steps of parallel jobs. The table has one bitmap of nodes
  per port; a step (or a job that manages its own steps) gets a number of ports that are free on all of its
  nodes, picked round-robin, and gives them back when it ends.

  The host list functions that turn a list of port numbers into text and back are parameters:
  \<open>hl_names\<close> gives the names of a host list expression (\<open>None\<close> for a malformed one) and \<open>hl_ranged\<close> the
  ranged text of a list of names. Messages are not modelled. \<open>None\<close> is an access through a null pointer or
  outside of an array, or a failed assertion.
\<close>

subsection \<open>Data\<close>

datatype rc = SLURM_SUCCESS | SLURM_ERROR | ESLURM_PORTS_BUSY | ESLURM_PORTS_INVALID

record port_mgr =
  port_resv_table :: "bitstr option list option"
  port_resv_cnt :: int
  port_resv_min :: int
  port_resv_max :: int
  last_port_alloc :: int

definition port_mgr_init :: port_mgr where
  "port_mgr_init = \<lparr>port_resv_table = None, port_resv_cnt = 0, port_resv_min = 0, port_resv_max = 0, last_port_alloc = 0\<rparr>"

text \<open>The fields of a step and of a job that hold a reservation, and the other fields this file reads.\<close>

record resv =
  resv_ports :: "string option"
  resv_port_cnt :: nat
  resv_port_array :: "int list option"
  node_bitmap :: bitstr

record step_record = resv +
  step_state :: nat

record job_record = resv +
  job_state :: u32
  bit_flags :: u64
  step_list :: "step_record list"

definition JOB_RUNNING :: nat where
  "JOB_RUNNING = 1"

definition IS_JOB_RUNNING :: "job_record \<Rightarrow> bool" where
  "IS_JOB_RUNNING job \<longleftrightarrow> job_state job AND 0xff = of_nat JOB_RUNNING"

definition stepmgr_enabled :: "job_record \<Rightarrow> bool" where
  "stepmgr_enabled job \<longleftrightarrow> bit_flags job AND push_bit 41 1 \<noteq> 0"

subsection \<open>The table\<close>

text \<open>\<^verbatim>\<open>bit_or(port_resv_table[j], nodes)\<close>, and the same with \<open>bit_and_not\<close>.\<close>

definition port_op :: "(bitstr \<Rightarrow> bitstr \<Rightarrow> bitstr option) \<Rightarrow> int \<Rightarrow> bitstr \<Rightarrow> port_mgr \<Rightarrow> port_mgr option" where
  "port_op f j nodes pm = do {
     tbl \<leftarrow> port_resv_table pm;
     xassert (0 \<le> j);
     e \<leftarrow> mem_get tbl (nat j);
     b \<leftarrow> e;
     b' \<leftarrow> f b nodes;
     Some (pm\<lparr>port_resv_table := Some (tbl[nat j := Some b'])\<rparr>) }"

text \<open>Is the entry missing?\<close>

definition port_null :: "int \<Rightarrow> port_mgr \<Rightarrow> bool option" where
  "port_null j pm = do {
     tbl \<leftarrow> port_resv_table pm;
     xassert (0 \<le> j);
     e \<leftarrow> mem_get tbl (nat j);
     Some (e = None) }"

subsection \<open>Recovering reservations\<close>

text \<open>The array has \<open>cnt * cnt\<close> bytes, an entry takes four.\<close>

fun rebuild_loop :: "string list \<Rightarrow> int list \<Rightarrow> nat \<Rightarrow> (int list \<times> nat) option" where
  "rebuild_loop [] arr cnt = Some (arr, cnt)"
| "rebuild_loop (name # names) arr cnt =
     (let i = atoi name in
      if i > 0 then do { arr' \<leftarrow> mem_set arr cnt i; rebuild_loop names arr' ((cnt + 1) mod 2 ^ 16) }
      else rebuild_loop names arr cnt)"

definition rebuild_port_array ::
    "(string \<Rightarrow> string list option) \<Rightarrow> string \<Rightarrow> nat \<Rightarrow> int list option \<Rightarrow> (rc \<times> nat \<times> int list option) option" where
  "rebuild_port_array hl_names ports cnt array =
     (case hl_names (''['' @ ports @ '']'') of
        None \<Rightarrow> Some (SLURM_ERROR, cnt, array)
      | Some names \<Rightarrow> do {
          (arr, c) \<leftarrow> rebuild_loop names (replicate (cnt * cnt div 4) 0) 0;
          Some (if c = 0 then ESLURM_PORTS_INVALID else SLURM_SUCCESS, c, if cnt = 0 then None else Some arr) })"

fun make_resv_loop :: "bitstr \<Rightarrow> int list \<Rightarrow> nat \<Rightarrow> nat \<Rightarrow> port_mgr \<Rightarrow> port_mgr option" where
  "make_resv_loop nodes arr i 0 pm = Some pm"
| "make_resv_loop nodes arr i (Suc n) pm = do {
     p \<leftarrow> mem_get arr i;
     if p < port_resv_min pm \<or> p > port_resv_max pm then make_resv_loop nodes arr (Suc i) n pm
     else do { pm' \<leftarrow> port_op bit_or (p - port_resv_min pm) nodes pm; make_resv_loop nodes arr (Suc i) n pm' } }"

text \<open>\<open>_make_resv\<close> on the fields of a step or a job; the updated count and array are in the record.\<close>

definition make_resv ::
    "(string \<Rightarrow> string list option) \<Rightarrow> 'a resv_scheme \<Rightarrow> port_mgr \<Rightarrow> (rc \<times> 'a resv_scheme \<times> port_mgr) option" where
  "make_resv hl_names r pm =
     (if resv_port_cnt r = 0 \<or> resv_ports r = None \<or> resv_ports r = Some [] then Some (SLURM_SUCCESS, r, pm)
      else do {
        (code, cnt, array) \<leftarrow>
          (if resv_port_array r = None
           then rebuild_port_array hl_names (the (resv_ports r)) (resv_port_cnt r) None
           else Some (SLURM_SUCCESS, resv_port_cnt r, resv_port_array r));
        let r = r\<lparr>resv_port_cnt := cnt, resv_port_array := array\<rparr>;
        if code \<noteq> SLURM_SUCCESS then Some (code, r, pm)
        else do {
          arr \<leftarrow> array;
          pm' \<leftarrow> make_resv_loop (node_bitmap r) arr 0 cnt pm;
          Some (SLURM_SUCCESS, r, pm') } })"

definition make_step_resv ::
    "(string \<Rightarrow> string list option) \<Rightarrow> step_record \<Rightarrow> port_mgr \<Rightarrow> (step_record \<times> port_mgr) option" where
  "make_step_resv hl_names st pm = do {
     (code, st', pm') \<leftarrow> make_resv hl_names st pm;
     Some (if code = SLURM_SUCCESS then (st', pm') else (st'\<lparr>resv_ports := None\<rparr>, pm')) }"

definition make_job_resv ::
    "(string \<Rightarrow> string list option) \<Rightarrow> job_record \<Rightarrow> port_mgr \<Rightarrow> (job_record \<times> port_mgr) option" where
  "make_job_resv hl_names job pm =
     (if \<not> IS_JOB_RUNNING job \<or> \<not> stepmgr_enabled job then Some (job, pm)
      else do {
        (code, job', pm') \<leftarrow> make_resv hl_names job pm;
        Some (if code = SLURM_SUCCESS then (job', pm') else (job'\<lparr>resv_ports := None\<rparr>, pm')) })"

fun make_steps ::
    "(string \<Rightarrow> string list option) \<Rightarrow> step_record list \<Rightarrow> port_mgr \<Rightarrow> (step_record list \<times> port_mgr) option" where
  "make_steps hl_names [] pm = Some ([], pm)"
| "make_steps hl_names (st # sts) pm = do {
     (st', pm1) \<leftarrow> (if step_state st < JOB_RUNNING then Some (st, pm) else make_step_resv hl_names st pm);
     (sts', pm2) \<leftarrow> make_steps hl_names sts pm1;
     Some (st' # sts', pm2) }"

fun make_all_resv ::
    "(string \<Rightarrow> string list option) \<Rightarrow> job_record list \<Rightarrow> port_mgr \<Rightarrow> (job_record list \<times> port_mgr) option" where
  "make_all_resv hl_names [] pm = Some ([], pm)"
| "make_all_resv hl_names (job # jobs) pm = do {
     (job', pm1) \<leftarrow> make_job_resv hl_names job pm;
     (sts, pm2) \<leftarrow> make_steps hl_names (step_list job') pm1;
     (jobs', pm3) \<leftarrow> make_all_resv hl_names jobs pm2;
     Some (job'\<lparr>step_list := sts\<rparr> # jobs', pm3) }"

subsection \<open>Configuration\<close>

text \<open>Without ports the table is dropped; the bitmaps in it are freed.\<close>

definition clear_resv :: "port_mgr \<Rightarrow> port_mgr" where
  "clear_resv pm =
     (if port_resv_table pm \<noteq> None
      then pm\<lparr>port_resv_table := None, port_resv_cnt := 0, port_resv_min := 0, port_resv_max := 0\<rparr>
      else pm)"

definition set_port_range :: "int \<Rightarrow> int \<Rightarrow> port_mgr \<Rightarrow> port_mgr" where
  "set_port_range p_min p_max pm =
     pm\<lparr>port_resv_min := p_min, port_resv_max := p_max, port_resv_cnt := p_max - p_min + 1\<rparr>"

definition reserve_port_config ::
    "(string \<Rightarrow> string list option) \<Rightarrow> int \<Rightarrow> string option \<Rightarrow> job_record list \<Rightarrow> port_mgr
       \<Rightarrow> (rc \<times> job_record list \<times> port_mgr) option" where
  "reserve_port_config hl_names node_record_count mpi_params job_list pm =
     (case mpi_params \<bind> (\<lambda>s. strstr s ''ports='') of
        None \<Rightarrow> Some (SLURM_SUCCESS, job_list, clear_resv pm)
      | Some tmp_p \<Rightarrow>
          (case strtol (drop 6 tmp_p) of (v_min, tmp_e) \<Rightarrow>
             let p_min = s32 v_min in
             if p_min < 1 \<or> tmp_e = [] \<or> hd tmp_e \<noteq> CHR ''-'' then Some (SLURM_ERROR, job_list, pm)
             else
               let p_max = s32 (fst (strtol (tl tmp_e))) in
               if p_max < p_min then Some (SLURM_ERROR, job_list, pm)
               else if p_min = port_resv_min pm \<and> p_max = port_resv_max pm then Some (SLURM_SUCCESS, job_list, pm)
               else do {
                 let pm = set_port_range p_min p_max pm;
                 b \<leftarrow> bit_alloc node_record_count;
                 let pm = pm\<lparr>port_resv_table := Some (replicate (nat (port_resv_cnt pm)) (Some b))\<rparr>;
                 (job_list, pm) \<leftarrow> make_all_resv hl_names job_list pm;
                 Some (SLURM_SUCCESS, job_list, pm) }))"

text \<open>The table of a job that manages its steps has bitmaps for the job's own ports only.\<close>

fun stepmgr_table :: "int list \<Rightarrow> nat \<Rightarrow> int \<Rightarrow> int \<Rightarrow> nat \<Rightarrow> nat \<Rightarrow> bitstr option list option" where
  "stepmgr_table arr bits p_min i j 0 = Some []"
| "stepmgr_table arr bits p_min i j (Suc n) = do {
     p \<leftarrow> mem_get arr j;
     if p \<noteq> i + p_min then do { tbl \<leftarrow> stepmgr_table arr bits p_min (i + 1) j n; Some (None # tbl) }
     else do {
       b \<leftarrow> bit_alloc (int bits);
       tbl \<leftarrow> stepmgr_table arr bits p_min (i + 1) (Suc j) n;
       Some (Some b # tbl) } }"

definition reserve_port_stepmgr_init ::
    "(string \<Rightarrow> string list option) \<Rightarrow> job_record \<Rightarrow> port_mgr \<Rightarrow> (rc \<times> job_record \<times> port_mgr) option" where
  "reserve_port_stepmgr_init hl_names job pm = (case resv_ports job of
     None \<Rightarrow> Some (SLURM_SUCCESS, job, clear_resv pm)
   | Some ports \<Rightarrow> do {
       (code, cnt, array) \<leftarrow>
         (if resv_port_array job = None then rebuild_port_array hl_names ports (resv_port_cnt job) None
          else Some (SLURM_SUCCESS, resv_port_cnt job, resv_port_array job));
       let job = job\<lparr>resv_port_cnt := cnt, resv_port_array := array\<rparr>;
       if code \<noteq> SLURM_SUCCESS then Some (SLURM_ERROR, job\<lparr>resv_ports := None\<rparr>, pm)
       else do {
         arr \<leftarrow> array;
         p_min \<leftarrow> mem_get arr 0;
         xassert (cnt \<noteq> 0);
         p_max \<leftarrow> mem_get arr (cnt - 1);
         if p_min = port_resv_min pm \<and> p_max = port_resv_max pm then Some (SLURM_SUCCESS, job, pm)
         else do {
           let pm = set_port_range p_min p_max pm;
           xassert (0 \<le> port_resv_cnt pm);
           bits \<leftarrow> (if port_resv_cnt pm = 0 then Some 0 else bit_size (node_bitmap job));
           tbl \<leftarrow> stepmgr_table arr bits p_min 0 0 (nat (port_resv_cnt pm));
           Some (SLURM_SUCCESS, job,
                 pm\<lparr>port_resv_table := (if port_resv_cnt pm = 0 then None else Some tbl)\<rparr>) } } })"

subsection \<open>Allocation\<close>

text \<open>\<^verbatim>\<open>if (++last_port_alloc >= port_resv_cnt) last_port_alloc = 0;\<close>\<close>

definition next_port :: "port_mgr \<Rightarrow> int" where
  "next_port pm = (if last_port_alloc pm + 1 \<ge> port_resv_cnt pm then 0 else last_port_alloc pm + 1)"

fun find_ports :: "nat \<Rightarrow> nat \<Rightarrow> bitstr \<Rightarrow> int list \<Rightarrow> nat \<Rightarrow> port_mgr \<Rightarrow> (int list \<times> nat \<times> port_mgr) option" where
  "find_ports cnt 0 nodes arr port_inx pm = Some (arr, port_inx, pm)"
| "find_ports cnt (Suc n) nodes arr port_inx pm = do {
     let pm = pm\<lparr>last_port_alloc := next_port pm\<rparr>;
     tbl \<leftarrow> port_resv_table pm;
     xassert (0 \<le> last_port_alloc pm);
     e \<leftarrow> mem_get tbl (nat (last_port_alloc pm));
     busy \<leftarrow> (case e of None \<Rightarrow> Some True | Some b \<Rightarrow> do { ov \<leftarrow> bit_overlap_any nodes b; Some (ov \<noteq> 0) });
     if busy then find_ports cnt n nodes arr port_inx pm
     else do {
       arr \<leftarrow> mem_set arr port_inx (last_port_alloc pm);
       if port_inx + 1 \<ge> cnt then Some (arr, port_inx + 1, pm)
       else find_ports cnt n nodes arr (port_inx + 1) pm } }"

fun reserve_ports :: "bitstr \<Rightarrow> int list \<Rightarrow> nat \<Rightarrow> nat \<Rightarrow> port_mgr \<Rightarrow> string list \<Rightarrow> (int list \<times> port_mgr \<times> string list) option" where
  "reserve_ports nodes arr i 0 pm names = Some (arr, pm, names)"
| "reserve_ports nodes arr i (Suc n) pm names = do {
     j \<leftarrow> mem_get arr i;
     pm \<leftarrow> port_op bit_or j nodes pm;
     arr \<leftarrow> mem_set arr i (j + port_resv_min pm);
     reserve_ports nodes arr (Suc i) n pm (names @ [dec_int (j + port_resv_min pm)]) }"

text \<open>\<open>_resv_port_alloc\<close> on the fields of a step or a job.\<close>

definition resv_port_alloc :: "(string list \<Rightarrow> string) \<Rightarrow> 'a resv_scheme \<Rightarrow> port_mgr \<Rightarrow> (rc \<times> 'a resv_scheme \<times> port_mgr) option" where
  "resv_port_alloc hl_ranged r pm = do {
     xassert (resv_ports r = None);
     xassert (resv_port_array r = None);
     if int (resv_port_cnt r) > port_resv_cnt pm then Some (ESLURM_PORTS_INVALID, r, pm)
     else do {
       (arr, port_inx, pm) \<leftarrow> find_ports (resv_port_cnt r) (nat (port_resv_cnt pm)) (node_bitmap r)
                                 (replicate (resv_port_cnt r) 0) 0 pm;
       if port_inx < resv_port_cnt r then Some (ESLURM_PORTS_BUSY, r, pm)
       else do {
         (arr, pm, names) \<leftarrow> reserve_ports (node_bitmap r) arr 0 port_inx pm [];
         Some (SLURM_SUCCESS,
               r\<lparr>resv_ports := Some (hl_ranged names), resv_port_array := (if resv_port_cnt r = 0 then None else Some arr)\<rparr>,
               pm) } } }"

definition resv_port_step_alloc :: "(string list \<Rightarrow> string) \<Rightarrow> step_record \<Rightarrow> port_mgr \<Rightarrow> (rc \<times> step_record \<times> port_mgr) option" where
  "resv_port_step_alloc hl_ranged st pm =
     (let st = (if resv_port_array st \<noteq> None \<or> resv_ports st \<noteq> None
                then st\<lparr>resv_port_array := None, resv_ports := None\<rparr> else st)
      in resv_port_alloc hl_ranged st pm)"

definition resv_port_job_alloc :: "(string list \<Rightarrow> string) \<Rightarrow> job_record \<Rightarrow> port_mgr \<Rightarrow> (rc \<times> job_record \<times> port_mgr) option" where
  "resv_port_job_alloc hl_ranged job pm =
     (let job = (if resv_port_array job \<noteq> None \<or> resv_ports job \<noteq> None
                 then job\<lparr>resv_port_array := None, resv_ports := None\<rparr> else job)
      in resv_port_alloc hl_ranged job pm)"

definition resv_port_check_job_request_cnt :: "string option \<Rightarrow> job_record \<Rightarrow> port_mgr \<Rightarrow> rc" where
  "resv_port_check_job_request_cnt slurmctld_params job pm =
     (if resv_port_cnt job \<noteq> 0 \<and> \<not> stepmgr_enabled job
         \<and> xstrstr slurmctld_params (Some ''enable_stepmgr'') = None then ESLURM_PORTS_INVALID
      else if int (resv_port_cnt job) > port_resv_cnt pm then ESLURM_PORTS_INVALID
      else SLURM_SUCCESS)"

definition resv_port_get_resv_port_cnt :: "port_mgr \<Rightarrow> int" where
  "resv_port_get_resv_port_cnt pm = port_resv_cnt pm"

subsection \<open>Release\<close>

text \<open>The loop tests entry \<open>i\<close> of the table, where \<open>i\<close> counts the ports of the caller.\<close>

fun free_loop :: "bitstr \<Rightarrow> int list \<Rightarrow> nat \<Rightarrow> nat \<Rightarrow> port_mgr \<Rightarrow> port_mgr option" where
  "free_loop nodes arr i 0 pm = Some pm"
| "free_loop nodes arr i (Suc n) pm = do {
     p \<leftarrow> mem_get arr i;
     if p < port_resv_min pm \<or> p > port_resv_max pm then free_loop nodes arr (Suc i) n pm
     else do {
       missing \<leftarrow> port_null (int i) pm;
       if missing then free_loop nodes arr (Suc i) n pm
       else do { pm' \<leftarrow> port_op bit_and_not (p - port_resv_min pm) nodes pm; free_loop nodes arr (Suc i) n pm' } } }"

definition resv_port_free :: "nat \<Rightarrow> int list option \<Rightarrow> bitstr \<Rightarrow> port_mgr \<Rightarrow> port_mgr option" where
  "resv_port_free cnt array nodes pm = (case array of
     None \<Rightarrow> Some pm
   | Some arr \<Rightarrow> free_loop nodes arr 0 cnt pm)"

definition resv_port_step_free :: "step_record \<Rightarrow> port_mgr \<Rightarrow> (step_record \<times> port_mgr) option" where
  "resv_port_step_free st pm =
     (if resv_port_array st = None then Some (st, pm)
      else do {
        pm' \<leftarrow> resv_port_free (resv_port_cnt st) (resv_port_array st) (node_bitmap st) pm;
        Some (st\<lparr>resv_port_array := None\<rparr>, pm') })"

definition resv_port_job_free :: "job_record \<Rightarrow> port_mgr \<Rightarrow> (job_record \<times> port_mgr) option" where
  "resv_port_job_free job pm =
     (if resv_port_array job = None then Some (job, pm)
      else do {
        pm' \<leftarrow> resv_port_free (resv_port_cnt job) (resv_port_array job) (node_bitmap job) pm;
        Some (job\<lparr>resv_port_array := None\<rparr>, pm') })"

subsection \<open>The nodes on which a port is taken\<close>

definition pm_ok :: "nat \<Rightarrow> port_mgr \<Rightarrow> bool" where
  "pm_ok N pm \<longleftrightarrow> (\<exists>tbl. port_resv_table pm = Some tbl \<and> int (length tbl) = port_resv_cnt pm
     \<and> (\<forall>e \<in> set tbl. \<exists>b. e = Some b \<and> bs_valid b \<and> bs_bits b = N))
   \<and> port_resv_max pm = port_resv_min pm + port_resv_cnt pm - 1 \<and> 0 \<le> last_port_alloc pm"

definition taken :: "port_mgr \<Rightarrow> nat \<Rightarrow> nat set" where
  "taken pm j = {i. \<exists>tbl b. port_resv_table pm = Some tbl \<and> j < length tbl \<and> tbl ! j = Some b \<and> i \<in> bs_set b}"

definition nodes_ok :: "nat \<Rightarrow> bitstr \<Rightarrow> bool" where
  "nodes_ok N b \<longleftrightarrow> bs_valid b \<and> bs_bits b = N"

text \<open>The range of ports stays as it is.\<close>

definition same_range :: "port_mgr \<Rightarrow> port_mgr \<Rightarrow> bool" where
  "same_range pm pm' \<longleftrightarrow> port_resv_cnt pm' = port_resv_cnt pm \<and> port_resv_min pm' = port_resv_min pm
     \<and> port_resv_max pm' = port_resv_max pm"

lemma same_range_refl [simp]: "same_range pm pm"
  by (simp add: same_range_def)

lemma same_range_trans: "same_range a b \<Longrightarrow> same_range b c \<Longrightarrow> same_range a c"
  by (simp add: same_range_def)

lemma pm_okE:
  assumes "pm_ok N pm" "int j < port_resv_cnt pm"
  obtains tbl b where "port_resv_table pm = Some tbl" "j < length tbl" "tbl ! j = Some b" "nodes_ok N b" "taken pm j = bs_set b"
    "int (length tbl) = port_resv_cnt pm"
proof -
  obtain tbl where tbl: "port_resv_table pm = Some tbl" "int (length tbl) = port_resv_cnt pm"
    "\<forall>e \<in> set tbl. \<exists>b. e = Some b \<and> bs_valid b \<and> bs_bits b = N"
    using assms(1) by (auto simp: pm_ok_def)
  have j: "j < length tbl" using assms(2) tbl(2) by linarith
  then obtain b where "tbl ! j = Some b" "bs_valid b" "bs_bits b = N" using tbl(3) nth_mem [of j tbl] by metis
  with tbl j that show thesis by (auto simp: nodes_ok_def taken_def)
qed

lemma taken_update:
  "port_resv_table pm = Some tbl \<Longrightarrow> j < length tbl \<Longrightarrow> taken (pm\<lparr>port_resv_table := Some (tbl[j := Some b])\<rparr>) = (taken pm)(j := bs_set b)"
  by (rule ext) (auto simp: taken_def nth_list_update)

lemma taken_last [simp]: "taken (pm\<lparr>last_port_alloc := l\<rparr>) = taken pm"
  by (rule ext) (simp add: taken_def)

lemma pm_ok_last [simp]: "pm_ok N (pm\<lparr>last_port_alloc := l\<rparr>) \<longleftrightarrow> pm_ok N (pm\<lparr>last_port_alloc := 0\<rparr>) \<and> 0 \<le> l"
  by (simp add: pm_ok_def)

text \<open>Both table operations, from the laws of the bitmaps.\<close>

lemma port_op_law:
  assumes "pm_ok N pm" "int j < port_resv_cnt pm" "nodes_ok N nodes"
    and law: "\<And>b. bs_valid b \<Longrightarrow> bs_bits b = N \<Longrightarrow>
      \<exists>b'. f b nodes = Some b' \<and> bs_valid b' \<and> bs_bits b' = bs_bits b \<and> bs_set b' = g (bs_set b)"
  shows "\<exists>pm'. port_op f (int j) nodes pm = Some pm' \<and> pm_ok N pm' \<and> same_range pm pm'
    \<and> taken pm' = (taken pm)(j := g (taken pm j))"
proof (rule pm_okE [OF assms(1,2)])
  fix tbl b
  assume t: "port_resv_table pm = Some tbl" "j < length tbl" "tbl ! j = Some b" "nodes_ok N b" "taken pm j = bs_set b"
    "int (length tbl) = port_resv_cnt pm"
  obtain b' where b': "f b nodes = Some b'" "bs_valid b'" "bs_bits b' = N" "bs_set b' = g (bs_set b)"
    using law [of b] t(4) by (auto simp: nodes_ok_def)
  let ?pm = "pm\<lparr>port_resv_table := Some (tbl[j := Some b'])\<rparr>"
  have "\<exists>b. e = Some b \<and> bs_valid b \<and> bs_bits b = N" if "e \<in> set tbl" for e
    using assms(1) t(1) that by (auto simp: pm_ok_def)
  then have "\<forall>e \<in> set (tbl[j := Some b']). \<exists>b. e = Some b \<and> bs_valid b \<and> bs_bits b = N"
    using b'(2,3) set_update_subset_insert [of tbl j "Some b'"] by blast
  then have "pm_ok N ?pm" using assms(1) t(1) by (auto simp: pm_ok_def)
  moreover have "port_op f (int j) nodes pm = Some ?pm" using t(1-3) b'(1) by (simp add: port_op_def mem_get_def)
  moreover have "taken ?pm = (taken pm)(j := g (taken pm j))" using taken_update [OF t(1,2), of b'] b'(4) t(5) by simp
  ultimately show ?thesis by (auto simp: same_range_def)
qed

lemma port_or:
  assumes "pm_ok N pm" "int j < port_resv_cnt pm" "nodes_ok N nodes"
  shows "\<exists>pm'. port_op bit_or (int j) nodes pm = Some pm' \<and> pm_ok N pm' \<and> same_range pm pm'
    \<and> taken pm' = (taken pm)(j := taken pm j \<union> bs_set nodes)"
  using assms(3) by (intro port_op_law [OF assms]) (auto intro: bs.or_law simp: nodes_ok_def)

lemma port_and_not:
  assumes "pm_ok N pm" "int j < port_resv_cnt pm" "nodes_ok N nodes"
  shows "\<exists>pm'. port_op bit_and_not (int j) nodes pm = Some pm' \<and> pm_ok N pm' \<and> same_range pm pm'
    \<and> taken pm' = (taken pm)(j := taken pm j - bs_set nodes)"
  using assms(3) by (intro port_op_law [OF assms]) (auto intro: bs.and_not_law simp: nodes_ok_def)

subsection \<open>The round-robin search\<close>

text \<open>The ports a search of \<open>n\<close> steps visits, from port \<open>s\<close> on.\<close>

primrec visits :: "nat \<Rightarrow> nat \<Rightarrow> nat \<Rightarrow> nat list" where
  "visits C s 0 = []"
| "visits C s (Suc n) = s # visits C (if s + 1 \<ge> C then 0 else s + 1) n"

lemma visits_mod: "s < C \<Longrightarrow> visits C s n = map (\<lambda>k. (s + k) mod C) [0..<n]"
proof (induction n arbitrary: s)
  case (Suc n)
  let ?s = "if s + 1 \<ge> C then 0 else s + 1"
  have s: "?s < C" "?s = (s + 1) mod C" using Suc.prems by (auto simp: mod_if)
  have "(?s + k) mod C = (s + Suc k) mod C" for k unfolding s(2) by (simp add: mod_simps)
  then show ?case using Suc.IH [OF s(1)] Suc.prems
    by (simp add: upt_conv_Cons map_Suc_upt [symmetric] comp_def del: upt_Suc split del: if_split)
qed simp

text \<open>A full turn visits every port once.\<close>

lemma visits_all:
  assumes "s < C"
  shows "distinct (visits C s C)" "set (visits C s C) = {..<C}"
proof -
  have "inj_on (\<lambda>k. (s + k) mod C) {..<C}"
  proof (rule inj_onI)
    fix x y assume xy: "x \<in> {..<C}" "y \<in> {..<C}" "(s + x) mod C = (s + y) mod C"
    obtain q1 q2 where "s + x + C * q1 = s + y + C * q2" using xy(3) unfolding nat_mod_eq_iff by blast
    then have "x + C * q1 = y + C * q2" by linarith
    then have "x mod C = y mod C" unfolding nat_mod_eq_iff by blast
    then show "x = y" using xy(1,2) by simp
  qed
  then show d: "distinct (visits C s C)" using assms by (simp add: visits_mod distinct_map atLeast0LessThan)
  have "set (visits C s C) \<subseteq> {..<C}" using assms by (auto simp: visits_mod)
  moreover have "card (set (visits C s C)) = C" using distinct_card [OF d] assms by (simp add: visits_mod)
  ultimately show "set (visits C s C) = {..<C}" by (metis card_lessThan card_subset_eq finite_lessThan)
qed

definition port_free :: "port_mgr \<Rightarrow> bitstr \<Rightarrow> nat \<Rightarrow> bool" where
  "port_free pm nodes j \<longleftrightarrow> bs_set nodes \<inter> taken pm j = {}"

lemma find_ports_eq:
  assumes "pm_ok N pm" "nodes_ok N nodes" "0 < port_resv_cnt pm" "next_port pm = int s" "length arr = cnt" "inx < cnt"
  shows "\<exists>l. 0 \<le> l \<and> find_ports cnt n nodes arr inx pm =
    (let got = take (cnt - inx) (filter (port_free pm nodes) (visits (nat (port_resv_cnt pm)) s n)) in
     Some (take inx arr @ map int got @ drop (inx + length got) arr, inx + length got, pm\<lparr>last_port_alloc := l\<rparr>))"
  using assms
proof (induction n arbitrary: pm s arr inx)
  case 0
  then show ?case by (intro exI [of _ "last_port_alloc pm"]) (simp add: pm_ok_def)
next
  case (Suc n)
  let ?pm = "pm\<lparr>last_port_alloc := int s\<rparr>" and ?C = "nat (port_resv_cnt pm)"
  let ?s = "if s + 1 \<ge> ?C then 0 else s + 1"
  have s: "int s < port_resv_cnt pm" using Suc.prems(3,4) by (auto simp: next_port_def split: if_splits)
  obtain tbl b where t: "port_resv_table pm = Some tbl" "s < length tbl" "tbl ! s = Some b" "nodes_ok N b" "taken pm s = bs_set b"
    using pm_okE [OF Suc.prems(1) s] by metis
  have ov: "bit_overlap_any nodes b = Some (if port_free pm nodes s then 0 else 1)"
    using Suc.prems(2) t(4,5) by (simp add: bit_overlap_any_eq nodes_ok_def port_free_def)
  have ok: "pm_ok N ?pm" "0 < port_resv_cnt ?pm" "next_port ?pm = int ?s" using Suc.prems s by (auto simp: pm_ok_def next_port_def)
  have free: "port_free ?pm nodes = port_free pm nodes" by (rule ext) (simp add: port_free_def)
  define vs where "vs = visits ?C ?s n"
  have vs: "visits ?C s (Suc n) = s # vs" by (simp add: vs_def)
  show ?case
  proof (cases "port_free pm nodes s")
    case False
    obtain l where "0 \<le> l" "find_ports cnt n nodes arr inx ?pm =
        (let got = take (cnt - inx) (filter (port_free pm nodes) vs) in
         Some (take inx arr @ map int got @ drop (inx + length got) arr, inx + length got, ?pm\<lparr>last_port_alloc := l\<rparr>))"
      using Suc.IH [OF ok(1) Suc.prems(2) ok(2,3) Suc.prems(5,6)] unfolding free vs_def by auto
    then show ?thesis unfolding vs using t ov False Suc.prems(4)
      by (intro exI [of _ l]) (simp add: mem_get_def Let_def)
  next
    case True
    let ?arr = "arr[inx := int s]"
    have split: "take (Suc inx) ?arr = take inx arr @ [int s]" using Suc.prems(5,6) by (simp add: take_Suc_conv_app_nth)
    show ?thesis
    proof (cases "inx + 1 \<ge> cnt")
      case last: True
      then have "cnt - inx = 1" using Suc.prems(6) by simp
      moreover have "?arr = take inx arr @ int s # drop (Suc inx) arr" using Suc.prems(5,6) by (simp add: upd_conv_take_nth_drop)
      ultimately show ?thesis unfolding vs using t ov True last Suc.prems(4-6)
        by (intro exI [of _ "int s"]) (simp add: mem_get_def mem_set_def Let_def)
    next
      case False
      then have i: "Suc inx < cnt" by simp
      obtain l where l: "0 \<le> l" "find_ports cnt n nodes ?arr (Suc inx) ?pm =
          (let got = take (cnt - Suc inx) (filter (port_free pm nodes) vs) in
           Some (take (Suc inx) ?arr @ map int got @ drop (Suc inx + length got) ?arr, Suc inx + length got, ?pm\<lparr>last_port_alloc := l\<rparr>))"
        using Suc.IH [OF ok(1) Suc.prems(2) ok(2,3), of ?arr "Suc inx"] Suc.prems(5) i unfolding free vs_def by auto
      have "cnt - inx = Suc (cnt - Suc inx)" using i by simp
      then show ?thesis unfolding vs using l t ov True False split Suc.prems(4-6)
        by (intro exI [of _ l]) (simp add: mem_get_def mem_set_def Let_def)
    qed
  qed
qed

lemma reserve_ports_eq:
  assumes "pm_ok N pm" "nodes_ok N nodes" "\<forall>j \<in> set js. int j < port_resv_cnt pm"
  shows "\<exists>pm'. reserve_ports nodes (pre @ map int js) (length pre) (length js) pm names
      = Some (pre @ map (\<lambda>j. int j + port_resv_min pm) js, pm', names @ map (\<lambda>j. dec_int (int j + port_resv_min pm)) js)
    \<and> pm_ok N pm' \<and> same_range pm pm' \<and> taken pm' = (\<lambda>j. if j \<in> set js then taken pm j \<union> bs_set nodes else taken pm j)"
  using assms(1,3)
proof (induction js arbitrary: pm pre names)
  case (Cons j js)
  obtain pm1 where pm1: "port_op bit_or (int j) nodes pm = Some pm1" "pm_ok N pm1" "same_range pm pm1"
    "taken pm1 = (taken pm)(j := taken pm j \<union> bs_set nodes)"
    using port_or [OF Cons.prems(1) _ assms(2)] Cons.prems(2) by auto
  have r: "port_resv_min pm1 = port_resv_min pm" "port_resv_cnt pm1 = port_resv_cnt pm" using pm1(3) by (auto simp: same_range_def)
  let ?p = "int j + port_resv_min pm"
  obtain pm2 where pm2: "reserve_ports nodes ((pre @ [?p]) @ map int js) (length (pre @ [?p])) (length js) pm1 (names @ [dec_int ?p])
      = Some ((pre @ [?p]) @ map (\<lambda>j. int j + port_resv_min pm) js, pm2, (names @ [dec_int ?p]) @ map (\<lambda>j. dec_int (int j + port_resv_min pm)) js)"
    "pm_ok N pm2" "same_range pm1 pm2" "taken pm2 = (\<lambda>j. if j \<in> set js then taken pm1 j \<union> bs_set nodes else taken pm1 j)"
    using Cons.IH [OF pm1(2), of "pre @ [?p]" "names @ [dec_int ?p]"] Cons.prems(2) unfolding r by auto
  have "taken pm2 = (\<lambda>i. if i \<in> set (j # js) then taken pm i \<union> bs_set nodes else taken pm i)"
    unfolding pm2(4) pm1(4) by (rule ext) auto
  moreover have "same_range pm pm2" by (rule same_range_trans [OF pm1(3) pm2(3)])
  ultimately show ?case using pm1(1) pm2(1,2) by (intro exI [of _ pm2]) (simp add: mem_get_def mem_set_def r)
qed simp

text \<open>The outcomes of an allocation.\<close>

lemma resv_port_alloc_cases:
  assumes "pm_ok N pm" "nodes_ok N (node_bitmap r)" "resv_ports r = None" "resv_port_array r = None" "0 < resv_port_cnt r"
  obtains (invalid) "int (resv_port_cnt r) > port_resv_cnt pm" "resv_port_alloc hl_ranged r pm = Some (ESLURM_PORTS_INVALID, r, pm)"
  | (busy) l where "int (resv_port_cnt r) \<le> port_resv_cnt pm" "0 \<le> l"
      "card {j. int j < port_resv_cnt pm \<and> port_free pm (node_bitmap r) j} < resv_port_cnt r"
      "resv_port_alloc hl_ranged r pm = Some (ESLURM_PORTS_BUSY, r, pm\<lparr>last_port_alloc := l\<rparr>)"
  | (success) js pm' ports where "int (resv_port_cnt r) \<le> port_resv_cnt pm"
      "resv_port_cnt r \<le> card {j. int j < port_resv_cnt pm \<and> port_free pm (node_bitmap r) j}"
      "resv_port_alloc hl_ranged r pm = Some (SLURM_SUCCESS,
         r\<lparr>resv_ports := Some ports, resv_port_array := Some (map (\<lambda>j. int j + port_resv_min pm) js)\<rparr>, pm')"
      "distinct js" "length js = resv_port_cnt r" "\<forall>j \<in> set js. int j < port_resv_cnt pm \<and> port_free pm (node_bitmap r) j"
      "pm_ok N pm'" "same_range pm pm'"
      "taken pm' = (\<lambda>j. if j \<in> set js then taken pm j \<union> bs_set (node_bitmap r) else taken pm j)"
proof (cases "int (resv_port_cnt r) > port_resv_cnt pm")
  case True
  then show thesis using assms by (intro invalid) (simp_all add: resv_port_alloc_def)
next
  case le: False
  let ?C = "nat (port_resv_cnt pm)" and ?n = "resv_port_cnt r" and ?nodes = "node_bitmap r"
  have C: "0 < port_resv_cnt pm" using le assms(5) by linarith
  obtain s where s: "next_port pm = int s" "s < ?C"
    using C assms(1) by (metis (no_types, lifting) next_port_def pm_ok_def nonneg_int_cases zless_nat_eq_int_zless linorder_not_less add_nonneg_nonneg zero_le_one order_refl of_nat_0)
  define fr where "fr = filter (port_free pm ?nodes) (visits ?C s ?C)"
  have fr: "distinct fr" "set fr = {j. int j < port_resv_cnt pm \<and> port_free pm ?nodes j}"
    using visits_all [OF s(2)] by (auto simp: fr_def zless_nat_eq_int_zless)
  then have card: "length fr = card {j. int j < port_resv_cnt pm \<and> port_free pm ?nodes j}" using distinct_card by metis
  obtain l where l: "0 \<le> l" "find_ports ?n ?C ?nodes (replicate ?n 0) 0 pm =
      Some (map int (take ?n fr) @ drop (length (take ?n fr)) (replicate ?n 0), length (take ?n fr), pm\<lparr>last_port_alloc := l\<rparr>)"
    using find_ports_eq [OF assms(1,2) C s(1), of "replicate ?n 0" ?n 0 ?C] assms(5) by (auto simp: Let_def fr_def)
  show thesis
  proof (cases "length fr < ?n")
    case True
    then show thesis using l le card assms(3,4) by (intro busy [of l]) (simp_all add: resv_port_alloc_def)
  next
    case False
    let ?js = "take ?n fr" and ?pm = "pm\<lparr>last_port_alloc := l\<rparr>"
    have len: "length ?js = ?n" using False by simp
    have js: "\<forall>j \<in> set ?js. int j < port_resv_cnt pm \<and> port_free pm ?nodes j" using fr(2) set_take_subset [of ?n fr] by blast
    have ok: "pm_ok N ?pm" using assms(1) l(1) by (simp add: pm_ok_def)
    obtain pm' where pm': "reserve_ports ?nodes (map int ?js) 0 ?n ?pm []
        = Some (map (\<lambda>j. int j + port_resv_min pm) ?js, pm', map (\<lambda>j. dec_int (int j + port_resv_min pm)) ?js)"
      "pm_ok N pm'" "same_range ?pm pm'" "taken pm' = (\<lambda>j. if j \<in> set ?js then taken pm j \<union> bs_set ?nodes else taken pm j)"
      using reserve_ports_eq [OF ok assms(2), of ?js "[]" "[]"] js unfolding len taken_last by auto
    show thesis
    proof (rule success [where js = ?js and pm' = pm'])
      show "resv_port_alloc hl_ranged r pm = Some (SLURM_SUCCESS,
          r\<lparr>resv_ports := Some (hl_ranged (map (\<lambda>j. dec_int (int j + port_resv_min pm)) ?js)),
            resv_port_array := Some (map (\<lambda>j. int j + port_resv_min pm) ?js)\<rparr>, pm')"
        using l(2) pm'(1) len le assms(3-5) by (simp add: resv_port_alloc_def del: length_take)
      show "int ?n \<le> port_resv_cnt pm" using le by simp
      show "?n \<le> card {j. int j < port_resv_cnt pm \<and> port_free pm ?nodes j}" using False card by simp
      show "distinct ?js" using fr(1) by (rule distinct_take)
      show "same_range pm pm'" using pm'(3) by (simp add: same_range_def)
    qed (rule len js pm'(2,4))+
  qed
qed

subsection \<open>Release\<close>

lemma free_loop_eq:
  assumes "pm_ok N pm" "nodes_ok N nodes" "\<forall>j \<in> set js. int j < port_resv_cnt pm" "int (length pre + length js) \<le> port_resv_cnt pm"
  shows "\<exists>pm'. free_loop nodes (pre @ map (\<lambda>j. int j + port_resv_min pm) js) (length pre) (length js) pm = Some pm'
    \<and> pm_ok N pm' \<and> same_range pm pm' \<and> taken pm' = (\<lambda>j. if j \<in> set js then taken pm j - bs_set nodes else taken pm j)"
  using assms(1,3,4)
proof (induction js arbitrary: pm pre)
  case (Cons j js)
  obtain pm1 where pm1: "port_op bit_and_not (int j) nodes pm = Some pm1" "pm_ok N pm1" "same_range pm pm1"
    "taken pm1 = (taken pm)(j := taken pm j - bs_set nodes)"
    using port_and_not [OF Cons.prems(1) _ assms(2)] Cons.prems(2) by auto
  have r: "port_resv_min pm1 = port_resv_min pm" "port_resv_cnt pm1 = port_resv_cnt pm" using pm1(3) by (auto simp: same_range_def)
  have pre: "int (length pre) < port_resv_cnt pm" using Cons.prems(3) by simp
  have nn: "port_null (int (length pre)) pm = Some False"
    by (rule pm_okE [OF Cons.prems(1) pre]) (simp add: port_null_def mem_get_def)
  have inr: "\<not> (int j + port_resv_min pm < port_resv_min pm \<or> int j + port_resv_min pm > port_resv_max pm)"
    using Cons.prems(1,2) by (auto simp: pm_ok_def)
  let ?p = "int j + port_resv_min pm"
  obtain pm2 where pm2: "free_loop nodes ((pre @ [?p]) @ map (\<lambda>j. int j + port_resv_min pm) js) (length (pre @ [?p])) (length js) pm1 = Some pm2"
    "pm_ok N pm2" "same_range pm1 pm2" "taken pm2 = (\<lambda>j. if j \<in> set js then taken pm1 j - bs_set nodes else taken pm1 j)"
    using Cons.IH [OF pm1(2), of "pre @ [?p]"] Cons.prems(2,3) unfolding r by auto
  have "taken pm2 = (\<lambda>i. if i \<in> set (j # js) then taken pm i - bs_set nodes else taken pm i)"
    unfolding pm2(4) pm1(4) by (rule ext) auto
  moreover have "same_range pm pm2" by (rule same_range_trans [OF pm1(3) pm2(3)])
  ultimately show ?case using pm1(1) pm2(1,2) nn inr by (intro exI [of _ pm2]) (simp add: mem_get_def)
qed simp

subsection \<open>Steps that come and go\<close>

text \<open>What a step holds: indices of ports in the table.\<close>

definition holds :: "port_mgr \<Rightarrow> 'a resv_scheme \<Rightarrow> nat list \<Rightarrow> bool" where
  "holds pm r js \<longleftrightarrow> (if resv_port_array r = None then js = []
     else resv_port_array r = Some (map (\<lambda>j. int j + port_resv_min pm) js) \<and> length js = resv_port_cnt r)
   \<and> distinct js \<and> (\<forall>j \<in> set js. int j < port_resv_cnt pm)"

lemma holds_range: "same_range pm pm' \<Longrightarrow> holds pm' r js = holds pm r js"
  by (simp add: holds_def same_range_def)

text \<open>The controller's ports and the steps that use them: a step starts without ports, asks for some, and gives
  them back. \<open>N\<close> is the number of nodes. Runs start with the configuration of the ports, before any job is recovered; they contain no
  later change of the range and no reservations of whole jobs.\<close>

inductive port_reach :: "(string list \<Rightarrow> string) \<Rightarrow> nat \<Rightarrow> port_mgr \<Rightarrow> step_record list \<Rightarrow> bool"
  for hl_ranged :: "string list \<Rightarrow> string" and N :: nat where
  configured: "reserve_port_config hl_names (int N) mpi_params [] port_mgr_init = Some (SLURM_SUCCESS, [], pm)
    \<Longrightarrow> port_resv_table pm \<noteq> None \<Longrightarrow> port_reach hl_ranged N pm []"
| started: "port_reach hl_ranged N pm sts \<Longrightarrow> nodes_ok N (node_bitmap st) \<Longrightarrow> resv_port_array st = None
    \<Longrightarrow> port_reach hl_ranged N pm (sts @ [st])"
| allocated: "port_reach hl_ranged N pm sts \<Longrightarrow> i < length sts \<Longrightarrow> resv_port_array (sts ! i) = None
    \<Longrightarrow> 0 < resv_port_cnt (sts ! i) \<Longrightarrow> resv_port_step_alloc hl_ranged (sts ! i) pm = Some (code, st, pm')
    \<Longrightarrow> port_reach hl_ranged N pm' (sts[i := st])"
| freed: "port_reach hl_ranged N pm sts \<Longrightarrow> i < length sts \<Longrightarrow> resv_port_step_free (sts ! i) pm = Some (st, pm')
    \<Longrightarrow> port_reach hl_ranged N pm' (sts[i := st])"

text \<open>The invariant: each step's ports are known, a port is taken on exactly the nodes of the steps that hold it,
  and steps that hold the same port have no node in common.\<close>

definition ports_inv :: "nat \<Rightarrow> port_mgr \<Rightarrow> step_record list \<Rightarrow> nat list list \<Rightarrow> bool" where
  "ports_inv N pm sts jss \<longleftrightarrow> pm_ok N pm \<and> length jss = length sts
   \<and> (\<forall>i<length sts. nodes_ok N (node_bitmap (sts ! i)) \<and> holds pm (sts ! i) (jss ! i))
   \<and> (\<forall>j. taken pm j = (\<Union>i \<in> {i. i < length sts \<and> j \<in> set (jss ! i)}. bs_set (node_bitmap (sts ! i))))
   \<and> (\<forall>i<length sts. \<forall>k<length sts. i \<noteq> k \<longrightarrow> set (jss ! i) \<inter> set (jss ! k) \<noteq> {}
        \<longrightarrow> bs_set (node_bitmap (sts ! i)) \<inter> bs_set (node_bitmap (sts ! k)) = {})"

lemma ports_invD:
  assumes "ports_inv N pm sts jss"
  shows "pm_ok N pm" "length jss = length sts" "i < length sts \<Longrightarrow> nodes_ok N (node_bitmap (sts ! i))"
    "i < length sts \<Longrightarrow> holds pm (sts ! i) (jss ! i)"
    "taken pm j = (\<Union>i \<in> {i. i < length sts \<and> j \<in> set (jss ! i)}. bs_set (node_bitmap (sts ! i)))"
    "i < length sts \<Longrightarrow> k < length sts \<Longrightarrow> i \<noteq> k \<Longrightarrow> j \<in> set (jss ! i) \<Longrightarrow> j \<in> set (jss ! k) \<Longrightarrow>
       bs_set (node_bitmap (sts ! i)) \<inter> bs_set (node_bitmap (sts ! k)) = {}"
  using assms unfolding ports_inv_def by blast+

lemma ports_inv_update:
  assumes inv: "ports_inv N pm sts jss" and i: "i < length sts" and bm: "node_bitmap st = node_bitmap (sts ! i)"
    and pm': "holds pm' st js" "pm_ok N pm'" "same_range pm pm'"
    and taken: "\<And>j. taken pm' j = (\<Union>k \<in> {k. k < length sts \<and> k \<noteq> i \<and> j \<in> set (jss ! k)}. bs_set (node_bitmap (sts ! k)))
        \<union> (if j \<in> set js then bs_set (node_bitmap (sts ! i)) else {})"
    and excl: "\<And>k. k < length sts \<Longrightarrow> k \<noteq> i \<Longrightarrow> set js \<inter> set (jss ! k) \<noteq> {} \<Longrightarrow>
        bs_set (node_bitmap (sts ! i)) \<inter> bs_set (node_bitmap (sts ! k)) = {}"
  shows "ports_inv N pm' (sts[i := st]) (jss[i := js])"
proof -
  have len: "length jss = length sts" using inv by (simp add: ports_inv_def)
  have nd: "node_bitmap (sts[i := st] ! k) = node_bitmap (sts ! k)" for k using bm i by (cases "k = i") auto
  have jk: "jss[i := js] ! k = (if k = i then js else jss ! k)" for k using i len by (cases "k = i") auto
  have "nodes_ok N (node_bitmap (sts ! k)) \<and> holds pm' (sts[i := st] ! k) (jss[i := js] ! k)" if "k < length sts" for k
    using inv that i pm'(1) holds_range [OF pm'(3)] by (cases "k = i") (auto simp: ports_inv_def jk)
  moreover have "taken pm' j = (\<Union>k \<in> {k. k < length sts \<and> j \<in> set (jss[i := js] ! k)}. bs_set (node_bitmap (sts ! k)))" for j
  proof -
    have "{k. k < length sts \<and> j \<in> set (jss[i := js] ! k)}
        = {k. k < length sts \<and> k \<noteq> i \<and> j \<in> set (jss ! k)} \<union> (if j \<in> set js then {i} else {})"
      using i by (auto simp: jk)
    then show ?thesis unfolding taken by auto
  qed
  moreover have "bs_set (node_bitmap (sts ! a)) \<inter> bs_set (node_bitmap (sts ! b)) = {}"
    if "a < length sts" "b < length sts" "a \<noteq> b" "set (jss[i := js] ! a) \<inter> set (jss[i := js] ! b) \<noteq> {}" for a b
  proof -
    consider "a = i" | "b = i" | "a \<noteq> i" "b \<noteq> i" by blast
    then show ?thesis
    proof cases
      case 1 then show ?thesis using excl [of b] that by (simp add: jk)
    next
      case 2 then show ?thesis using excl [of a] that by (simp add: jk Int_commute)
    next
      case 3 then show ?thesis using inv that by (simp add: ports_inv_def jk)
    qed
  qed
  ultimately show ?thesis using pm'(2) len by (simp add: ports_inv_def nd)
qed

lemma alloc_step:
  assumes "resv_port_array st = None"
  shows "resv_port_step_alloc hl_ranged st pm = resv_port_alloc hl_ranged (st\<lparr>resv_ports := None\<rparr>) pm"
  using assms by (cases st) (simp add: resv_port_step_alloc_def Let_def)

lemma ports_inv_alloc:
  assumes inv: "ports_inv N pm sts jss" and i: "i < length sts" "resv_port_array (sts ! i) = None" "0 < resv_port_cnt (sts ! i)"
    and call: "resv_port_step_alloc hl_ranged (sts ! i) pm = Some (code, st, pm')"
  shows "\<exists>js. ports_inv N pm' (sts[i := st]) (jss[i := js])"
proof -
  let ?r = "(sts ! i)\<lparr>resv_ports := None\<rparr>" and ?nodes = "bs_set (node_bitmap (sts ! i))"
  have ok: "pm_ok N pm" "nodes_ok N (node_bitmap ?r)" "resv_ports ?r = None" "resv_port_array ?r = None" "0 < resv_port_cnt ?r"
    using inv i by (auto simp: ports_inv_def)
  have none: "jss ! i = []" using inv i by (auto simp: ports_inv_def holds_def)
  have tk: "taken pm j = (\<Union>k \<in> {k. k < length sts \<and> k \<noteq> i \<and> j \<in> set (jss ! k)}. bs_set (node_bitmap (sts ! k)))" for j
  proof -
    have "{k. k < length sts \<and> j \<in> set (jss ! k)} = {k. k < length sts \<and> k \<noteq> i \<and> j \<in> set (jss ! k)}" using none by auto
    then show ?thesis using inv by (simp add: ports_inv_def)
  qed
  have call': "resv_port_alloc hl_ranged ?r pm = Some (code, st, pm')" using call alloc_step [OF i(2)] by simp
  note update = ports_inv_update [OF inv i(1)]
  show ?thesis
  proof (cases rule: resv_port_alloc_cases [OF ok, of hl_ranged, case_names invalid busy success])
    case invalid
    then have e: "st = ?r" "pm' = pm" using call' by auto
    have "ports_inv N pm' (sts[i := st]) (jss[i := []])"
      by (rule update) (use ok e tk i(2) in \<open>auto simp: holds_def\<close>)
    then show ?thesis ..
  next
    case (busy l)
    then have e: "st = ?r" "pm' = pm\<lparr>last_port_alloc := l\<rparr>" using call' by auto
    have "ports_inv N pm' (sts[i := st]) (jss[i := []])"
      by (rule update) (use ok e tk i(2) busy(2) in \<open>auto simp: holds_def same_range_def pm_ok_def\<close>)
    then show ?thesis ..
  next
    case (success js pm1 ports)
    then have e: "st = ?r\<lparr>resv_ports := Some ports, resv_port_array := Some (map (\<lambda>j. int j + port_resv_min pm) js)\<rparr>" "pm' = pm1"
      using call' by auto
    have "ports_inv N pm' (sts[i := st]) (jss[i := js])"
    proof (rule update)
      show "holds pm' st js" using success e by (auto simp: holds_def same_range_def)
      fix j
      show "taken pm' j = (\<Union>k \<in> {k. k < length sts \<and> k \<noteq> i \<and> j \<in> set (jss ! k)}. bs_set (node_bitmap (sts ! k)))
          \<union> (if j \<in> set js then ?nodes else {})"
        unfolding e(2) success(9) tk by simp
    next
      fix k assume k: "k < length sts" "k \<noteq> i" "set js \<inter> set (jss ! k) \<noteq> {}"
      then obtain j where j: "j \<in> set js" "j \<in> set (jss ! k)" by blast
      then have "?nodes \<inter> taken pm j = {}" using success(6) by (simp add: port_free_def)
      then show "?nodes \<inter> bs_set (node_bitmap (sts ! k)) = {}" unfolding tk using k j(2) by blast
    qed (use e success in auto)
    then show ?thesis ..
  qed
qed

lemma step_free_law:
  assumes "ports_inv N pm sts jss" "i < length sts"
  shows "\<exists>pm'. resv_port_step_free (sts ! i) pm = Some ((sts ! i)\<lparr>resv_port_array := None\<rparr>, pm') \<and> pm_ok N pm' \<and> same_range pm pm'
    \<and> taken pm' = (\<lambda>j. if j \<in> set (jss ! i) then taken pm j - bs_set (node_bitmap (sts ! i)) else taken pm j)"
proof (cases "resv_port_array (sts ! i)")
  case None
  then have "jss ! i = []" using assms by (auto simp: ports_inv_def holds_def)
  moreover have "(sts ! i)\<lparr>resv_port_array := None\<rparr> = sts ! i" using None by (cases "sts ! i") simp
  ultimately show ?thesis using None ports_invD(1) [OF assms(1)] by (simp add: resv_port_step_free_def)
next
  case (Some arr)
  have h: "holds pm (sts ! i) (jss ! i)" "pm_ok N pm" "nodes_ok N (node_bitmap (sts ! i))" using assms by (auto simp: ports_inv_def)
  then have a: "arr = [] @ map (\<lambda>j. int j + port_resv_min pm) (jss ! i)" "length (jss ! i) = resv_port_cnt (sts ! i)"
    "distinct (jss ! i)" "\<forall>j \<in> set (jss ! i). int j < port_resv_cnt pm" using Some by (auto simp: holds_def)
  have "set (jss ! i) \<subseteq> {..<nat (port_resv_cnt pm)}" using a(4) by (auto simp: zless_nat_eq_int_zless)
  then have "length (jss ! i) \<le> nat (port_resv_cnt pm)"
    using a(3) by (metis card_lessThan card_mono distinct_card finite_lessThan)
  moreover have "0 \<le> port_resv_cnt pm" using h(2) by (auto simp: pm_ok_def)
  ultimately have "int (length ([] :: int list) + length (jss ! i)) \<le> port_resv_cnt pm" by simp
  from free_loop_eq [OF h(2,3) a(4) this] show ?thesis
    using Some a(2) unfolding a(1) [symmetric] by (auto simp: resv_port_step_free_def resv_port_free_def)
qed

lemma ports_inv_free:
  assumes inv: "ports_inv N pm sts jss" and i: "i < length sts" and call: "resv_port_step_free (sts ! i) pm = Some (st, pm')"
  shows "ports_inv N pm' (sts[i := st]) (jss[i := []])"
proof -
  have s: "st = (sts ! i)\<lparr>resv_port_array := None\<rparr>" "pm_ok N pm'" "same_range pm pm'"
    "taken pm' = (\<lambda>j. if j \<in> set (jss ! i) then taken pm j - bs_set (node_bitmap (sts ! i)) else taken pm j)"
    using step_free_law [OF inv i] call by auto
  show ?thesis
  proof (rule ports_inv_update [OF inv i])
    fix j
    have tk: "taken pm j = (\<Union>k \<in> {k. k < length sts \<and> j \<in> set (jss ! k)}. bs_set (node_bitmap (sts ! k)))"
      using inv by (simp add: ports_inv_def)
    have ex: "bs_set (node_bitmap (sts ! k)) \<inter> bs_set (node_bitmap (sts ! i)) = {}"
      if "j \<in> set (jss ! i)" "k < length sts" "k \<noteq> i" "j \<in> set (jss ! k)" for k
      using ports_invD(6) [OF inv that(2) i that(3,4,1)] .
    show "taken pm' j = (\<Union>k \<in> {k. k < length sts \<and> k \<noteq> i \<and> j \<in> set (jss ! k)}. bs_set (node_bitmap (sts ! k)))
        \<union> (if j \<in> set [] then bs_set (node_bitmap (sts ! i)) else {})"
    proof (cases "j \<in> set (jss ! i)")
      case True then show ?thesis unfolding s(4) tk using ex [OF True] by fastforce
    next
      case False
      then have "{k. k < length sts \<and> j \<in> set (jss ! k)} = {k. k < length sts \<and> k \<noteq> i \<and> j \<in> set (jss ! k)}" by auto
      then show ?thesis using False unfolding s(4) tk by simp
    qed
  qed (use s in \<open>auto simp: holds_def\<close>)
qed

lemma ports_inv_config:
  assumes "reserve_port_config hl_names (int N) mpi_params [] port_mgr_init = Some (SLURM_SUCCESS, [], pm)"
    "port_resv_table pm \<noteq> None"
  shows "ports_inv N pm [] []"
proof -
  obtain s v e where p: "mpi_params \<bind> (\<lambda>s. strstr s ''ports='') = Some s" "strtol (drop 6 s) = (v, e)"
    using assms by (cases "mpi_params \<bind> (\<lambda>s. strstr s ''ports='')"; cases "strtol (drop 6 (the (mpi_params \<bind> (\<lambda>s. strstr s ''ports=''))))")
      (auto simp: reserve_port_config_def clear_resv_def port_mgr_init_def)
  let ?min = "s32 v" and ?max = "s32 (fst (strtol (tl e)))"
  have r: "1 \<le> ?min" "?min \<le> ?max"
    using assms p by (auto simp: reserve_port_config_def Let_def split: if_splits)
  then obtain b where b: "bit_alloc (int N) = Some b"
    "pm = (set_port_range ?min ?max port_mgr_init)\<lparr>port_resv_table := Some (replicate (nat (?max - ?min + 1)) (Some b))\<rparr>"
    using assms p by (auto simp: reserve_port_config_def Let_def set_port_range_def port_mgr_init_def bind_eq_Some_conv split: if_splits)
  have "bs_valid b" "bs_bits b = N" "bs_set b = {}" using bit_alloc_valid [OF b(1)] by auto
  then have "pm_ok N pm" "taken pm j = {}" for j
    using r by (auto simp: b(2) pm_ok_def taken_def set_port_range_def port_mgr_init_def)
  then show ?thesis by (simp add: ports_inv_def)
qed

lemma ports_inv_start:
  assumes "ports_inv N pm sts jss" "nodes_ok N (node_bitmap st)" "resv_port_array st = None"
  shows "ports_inv N pm (sts @ [st]) (jss @ [[]])"
proof -
  note inv = ports_invD [OF assms(1)]
  have n: "(jss @ [[]]) ! k = (if k < length sts then jss ! k else [])" if "k < Suc (length sts)" for k
    using that inv(2) by (auto simp: nth_append)
  have s: "(sts @ [st]) ! k = (if k < length sts then sts ! k else st)" if "k < Suc (length sts)" for k
    using that by (auto simp: nth_append)
  have "{k. k < Suc (length sts) \<and> j \<in> set ((jss @ [[]]) ! k)} = {k. k < length sts \<and> j \<in> set (jss ! k)}" for j
    using n by (auto split: if_splits)
  then have "taken pm j = (\<Union>k \<in> {k. k < Suc (length sts) \<and> j \<in> set ((jss @ [[]]) ! k)}. bs_set (node_bitmap ((sts @ [st]) ! k)))" for j
    unfolding inv(5) by (auto simp: s)
  moreover have "nodes_ok N (node_bitmap ((sts @ [st]) ! k)) \<and> holds pm ((sts @ [st]) ! k) ((jss @ [[]]) ! k)" if "k < Suc (length sts)" for k
    using inv(3,4) [of k] that assms(2,3) by (auto simp: s n holds_def)
  moreover have "bs_set (node_bitmap ((sts @ [st]) ! a)) \<inter> bs_set (node_bitmap ((sts @ [st]) ! c)) = {}"
    if "a < Suc (length sts)" "c < Suc (length sts)" "a \<noteq> c" "set ((jss @ [[]]) ! a) \<inter> set ((jss @ [[]]) ! c) \<noteq> {}" for a c
  proof -
    have "a < length sts" "c < length sts" using that n by (auto split: if_splits)
    moreover have "set (jss ! a) \<inter> set (jss ! c) \<noteq> {}" using that(4) n [OF that(1)] n [OF that(2)] calculation by simp
    then obtain j where "j \<in> set (jss ! a)" "j \<in> set (jss ! c)" by blast
    ultimately show ?thesis using inv(6) [of a c j] that(3) by (simp add: nth_append)
  qed
  ultimately show ?thesis using inv(1,2) by (simp add: ports_inv_def)
qed

lemma port_reach_inv: "port_reach hl_ranged N pm sts \<Longrightarrow> \<exists>jss. ports_inv N pm sts jss"
proof (induction rule: port_reach.induct)
  case configured then show ?case using ports_inv_config by blast
next
  case started then show ?case using ports_inv_start by blast
next
  case allocated then show ?case using ports_inv_alloc by blast
next
  case freed then show ?case using ports_inv_free by blast
qed

lemma holds_ports:
  assumes "holds pm r js" "resv_port_array r = Some arr"
  shows "arr = map (\<lambda>j. int j + port_resv_min pm) js" "p \<in> set arr \<longleftrightarrow> port_resv_min pm \<le> p \<and> nat (p - port_resv_min pm) \<in> set js"
proof -
  show a: "arr = map (\<lambda>j. int j + port_resv_min pm) js" using assms by (simp add: holds_def)
  show "p \<in> set arr \<longleftrightarrow> port_resv_min pm \<le> p \<and> nat (p - port_resv_min pm) \<in> set js"
    unfolding a by (auto simp: image_iff intro!: bexI [of _ "nat (p - port_resv_min pm)"])
qed

subsection \<open>Properties\<close>

text \<open>C31. No port is given twice on a node: in every state that configuration, starting steps, allocating and freeing can
  lead to, two steps that hold the same port have no node in common; the table marks a port as taken on
  exactly the nodes of the steps that hold it; and every step can give its ports back.\<close>

theorem port_exclusive:
  assumes "port_reach hl_ranged N pm sts"
  shows "(\<forall>i<length sts. \<forall>k<length sts. \<forall>a b. i \<noteq> k \<longrightarrow> resv_port_array (sts ! i) = Some a \<longrightarrow> resv_port_array (sts ! k) = Some b
       \<longrightarrow> set a \<inter> set b \<noteq> {} \<longrightarrow> bs_set (node_bitmap (sts ! i)) \<inter> bs_set (node_bitmap (sts ! k)) = {})
    \<and> (\<forall>p. port_resv_min pm \<le> p \<longrightarrow> taken pm (nat (p - port_resv_min pm))
       = (\<Union>i \<in> {i. i < length sts \<and> (\<exists>a. resv_port_array (sts ! i) = Some a \<and> p \<in> set a)}. bs_set (node_bitmap (sts ! i))))
    \<and> (\<forall>i<length sts. resv_port_step_free (sts ! i) pm \<noteq> None)"
proof -
  obtain jss where inv: "ports_inv N pm sts jss" using port_reach_inv [OF assms] by blast
  note d = ports_invD [OF inv]
  have h: "p \<in> set a \<longleftrightarrow> port_resv_min pm \<le> p \<and> nat (p - port_resv_min pm) \<in> set (jss ! i)"
    if "i < length sts" "resv_port_array (sts ! i) = Some a" for i a p
    using holds_ports(2) [OF d(4) [OF that(1)] that(2)] .
  have n: "jss ! i = []" if "i < length sts" "resv_port_array (sts ! i) = None" for i
    using d(4) [OF that(1)] that(2) by (simp add: holds_def)
  have "bs_set (node_bitmap (sts ! i)) \<inter> bs_set (node_bitmap (sts ! k)) = {}"
    if ik: "i < length sts" "k < length sts" "i \<noteq> k" "resv_port_array (sts ! i) = Some a" "resv_port_array (sts ! k) = Some b"
      "set a \<inter> set b \<noteq> {}" for i k a b
  proof -
    obtain p where "p \<in> set a" "p \<in> set b" using ik(6) by blast
    then show ?thesis using h [OF ik(1,4)] h [OF ik(2,5)] by (intro d(6) [OF ik(1-3)]) auto
  qed
  moreover have "taken pm (nat (p - port_resv_min pm))
      = (\<Union>i \<in> {i. i < length sts \<and> (\<exists>a. resv_port_array (sts ! i) = Some a \<and> p \<in> set a)}. bs_set (node_bitmap (sts ! i)))"
    if "port_resv_min pm \<le> p" for p
  proof -
    have "{i. i < length sts \<and> (\<exists>a. resv_port_array (sts ! i) = Some a \<and> p \<in> set a)}
        = {i. i < length sts \<and> nat (p - port_resv_min pm) \<in> set (jss ! i)}"
      using h n that by (auto simp: not_Some_eq) (metis empty_iff list.set(1) option.exhaust)
    then show ?thesis using d(5) by simp
  qed
  moreover have "resv_port_step_free (sts ! i) pm \<noteq> None" if "i < length sts" for i
    using step_free_law [OF inv that] by auto
  ultimately show ?thesis by blast
qed

definition example_step :: "nat \<Rightarrow> step_record" where
  "example_step cnt = \<lparr>resv_ports = None, resv_port_cnt = cnt, resv_port_array = None,
     node_bitmap = \<lparr>bs_magic = BITSTR_MAGIC, bs_bits = 2, bs_words = [1]\<rparr>, step_state = JOB_RUNNING\<rparr>"

definition example_ports :: port_mgr where
  "example_ports = \<lparr>port_resv_table = Some (replicate 3 (Some \<lparr>bs_magic = BITSTR_MAGIC, bs_bits = 2, bs_words = [0]\<rparr>)),
     port_resv_cnt = 3, port_resv_min = 5000, port_resv_max = 5002, last_port_alloc = 0\<rparr>"

lemma example_config:
  "reserve_port_config (\<lambda>_. None) (int 2) (Some ''ports=5000-5002'') [] port_mgr_init = Some (SLURM_SUCCESS, [], example_ports)"
  by code_simp

lemma example_reach: "port_reach hl_ranged 2 example_ports [example_step 2]"
proof -
  have "port_reach hl_ranged 2 example_ports []"
    by (rule configured [OF example_config]) (simp add: example_ports_def)
  then have "port_reach hl_ranged 2 example_ports ([] @ [example_step 2])"
    by (rule started) (simp_all add: example_step_def nodes_ok_def bs_valid_def bs_bit_def)
  then show ?thesis by simp
qed

theorem port_exclusive_witness:
  "taken example_ports (nat (5001 - 5000)) = {} \<and> resv_port_step_free (example_step 2) example_ports \<noteq> None"
proof -
  note p = port_exclusive [OF example_reach [of "\<lambda>_. ''''"]]
  have "port_resv_min example_ports = 5000" "resv_port_array (example_step 2) = None" by (simp_all add: example_ports_def example_step_def)
  moreover have "{i. i < length [example_step 2] \<and> (\<exists>a. resv_port_array ([example_step 2] ! i) = Some a \<and> 5001 \<in> set a)} = {}"
    using calculation by auto
  ultimately show ?thesis
    using p [THEN conjunct2, THEN conjunct1, THEN spec [of _ 5001]] p [THEN conjunct2, THEN conjunct2, THEN spec [of _ 0]] by simp
qed

text \<open>C32. An allocation succeeds exactly when it can: in every reachable state a step that has no ports and asks for
  some gets an answer. The answer is invalid when it asks for more ports than there are, busy when fewer
  ports than it asks for are free on all of its nodes, and it then holds none and the table is unchanged;
  otherwise it gets as many different ports of the range as it asked for, each of them free on all of
  its nodes before.\<close>

theorem port_alloc_outcome:
  assumes "port_reach hl_ranged N pm sts" "i < length sts" "resv_port_array (sts ! i) = None" "0 < resv_port_cnt (sts ! i)"
  shows "\<exists>code st pm'. resv_port_step_alloc hl_ranged (sts ! i) pm = Some (code, st, pm')
    \<and> code = (if int (resv_port_cnt (sts ! i)) > port_resv_cnt pm then ESLURM_PORTS_INVALID
         else if card {j. int j < port_resv_cnt pm \<and> bs_set (node_bitmap (sts ! i)) \<inter> taken pm j = {}} < resv_port_cnt (sts ! i)
         then ESLURM_PORTS_BUSY else SLURM_SUCCESS)
    \<and> (code \<noteq> SLURM_SUCCESS \<longrightarrow> resv_port_array st = None \<and> taken pm' = taken pm)
    \<and> (code = SLURM_SUCCESS \<longrightarrow> (\<exists>a. resv_port_array st = Some a \<and> distinct a \<and> length a = resv_port_cnt (sts ! i)
         \<and> (\<forall>p \<in> set a. port_resv_min pm \<le> p \<and> p \<le> port_resv_max pm
              \<and> bs_set (node_bitmap (sts ! i)) \<inter> taken pm (nat (p - port_resv_min pm)) = {})))"
proof -
  obtain jss where inv: "ports_inv N pm sts jss" using port_reach_inv [OF assms(1)] by blast
  let ?r = "(sts ! i)\<lparr>resv_ports := None\<rparr>"
  have ok: "pm_ok N pm" "nodes_ok N (node_bitmap ?r)" "resv_ports ?r = None" "resv_port_array ?r = None" "0 < resv_port_cnt ?r"
    using ports_invD [OF inv] assms(2-4) by auto
  note call = alloc_step [OF assms(3), of hl_ranged pm]
  show ?thesis
  proof (cases rule: resv_port_alloc_cases [OF ok, of hl_ranged, case_names invalid busy success])
    case invalid
    then show ?thesis using call assms(3) by simp
  next
    case (busy l)
    then show ?thesis using call assms(3) by (simp add: port_free_def)
  next
    case (success js pm' ports)
    let ?a = "map (\<lambda>j. int j + port_resv_min pm) js"
    have "\<forall>p \<in> set ?a. port_resv_min pm \<le> p \<and> p \<le> port_resv_max pm
        \<and> bs_set (node_bitmap (sts ! i)) \<inter> taken pm (nat (p - port_resv_min pm)) = {}"
      using success(6) ok(1) by (auto simp: pm_ok_def port_free_def)
    moreover have "distinct ?a" using success(4) by (simp add: distinct_map inj_on_def)
    ultimately show ?thesis using call success(1,2,3,5) by (simp add: port_free_def)
  qed
qed

theorem port_alloc_outcome_witness:
  "\<exists>code st pm'. resv_port_step_alloc (\<lambda>_. '''') (example_step 2) example_ports = Some (code, st, pm')"
  using port_alloc_outcome [OF example_reach [of "\<lambda>_. ''''"], of 0] by (simp add: example_step_def) blast

subsection \<open>Release with gaps in the table\<close>

text \<open>The table of a job that manages its steps has no bitmap for the ports of others.\<close>

definition gap_ok :: "nat \<Rightarrow> port_mgr \<Rightarrow> bool" where
  "gap_ok N pm \<longleftrightarrow> (\<exists>tbl. port_resv_table pm = Some tbl \<and> int (length tbl) = port_resv_cnt pm \<and> (\<forall>b. Some b \<in> set tbl \<longrightarrow> nodes_ok N b))
     \<and> port_resv_max pm = port_resv_min pm + port_resv_cnt pm - 1"

definition present :: "port_mgr \<Rightarrow> nat \<Rightarrow> bool" where
  "present pm j \<longleftrightarrow> (\<exists>tbl b. port_resv_table pm = Some tbl \<and> j < length tbl \<and> tbl ! j = Some b)"

lemma port_null_gap:
  assumes "gap_ok N pm" "int k < port_resv_cnt pm"
  shows "port_null (int k) pm = Some (\<not> present pm k)"
  using assms by (cases "the (port_resv_table pm) ! k") (auto simp: gap_ok_def port_null_def present_def mem_get_def)

lemma port_and_not_gap:
  assumes "gap_ok N pm" "present pm j" "nodes_ok N nodes"
  shows "\<exists>pm'. port_op bit_and_not (int j) nodes pm = Some pm' \<and> gap_ok N pm' \<and> same_range pm pm' \<and> present pm' = present pm
    \<and> taken pm' = (taken pm)(j := taken pm j - bs_set nodes)"
proof -
  from assms(1,2) obtain tbl b where t: "port_resv_table pm = Some tbl" "j < length tbl" "tbl ! j = Some b" "int (length tbl) = port_resv_cnt pm"
    "\<forall>b. Some b \<in> set tbl \<longrightarrow> nodes_ok N b" by (auto simp: gap_ok_def present_def)
  then have b: "nodes_ok N b" by (metis nth_mem)
  with assms(3) obtain b' where b': "bit_and_not b nodes = Some b'" "nodes_ok N b'" "bs_set b' = bs_set b - bs_set nodes"
    using bs.and_not_law [of b nodes] by (auto simp: nodes_ok_def)
  let ?pm = "pm\<lparr>port_resv_table := Some (tbl[j := Some b'])\<rparr>"
  have "port_op bit_and_not (int j) nodes pm = Some ?pm" using t(1-3) b'(1) by (simp add: port_op_def mem_get_def)
  moreover have "gap_ok N ?pm"
    using assms(1) t(1,4,5) b'(2) set_update_subset_insert [of tbl j "Some b'"] by (auto simp: gap_ok_def)
  moreover have "present ?pm = present pm" using t(1-3) by (auto simp: present_def nth_list_update fun_eq_iff)
  moreover have "taken pm j = bs_set b" using t(1-3) by (auto simp: taken_def)
  with taken_update [OF t(1,2), of b'] b'(3) have "taken ?pm = (taken pm)(j := taken pm j - bs_set nodes)" by simp
  ultimately show ?thesis by (auto simp: same_range_def)
qed

lemma free_loop_gap:
  assumes "gap_ok N pm" "nodes_ok N nodes" "i + n \<le> length arr" "int (i + n) \<le> port_resv_cnt pm"
    and "\<forall>k. i \<le> k \<and> k < i + n \<longrightarrow> (\<exists>j. arr ! k = int j + port_resv_min pm \<and> present pm j)"
  shows "\<exists>pm'. free_loop nodes arr i n pm = Some pm' \<and> gap_ok N pm' \<and> same_range pm pm'
    \<and> (\<forall>j. taken pm' j = (if \<exists>k. i \<le> k \<and> k < i + n \<and> arr ! k = int j + port_resv_min pm \<and> present pm k then taken pm j - bs_set nodes else taken pm j))"
  using assms
proof (induction n arbitrary: i pm)
  case (Suc n)
  from Suc.prems(5) obtain j where j: "arr ! i = int j + port_resv_min pm" "present pm j" by auto
  have "int j < port_resv_cnt pm" using j(2) Suc.prems(1) by (auto simp: present_def gap_ok_def)
  then have range: "\<not> (arr ! i < port_resv_min pm \<or> arr ! i > port_resv_max pm)" using j(1) Suc.prems(1) by (auto simp: gap_ok_def)
  have get: "mem_get arr i = Some (arr ! i)" using Suc.prems(3) by (simp add: mem_get_def)
  have null: "port_null (int i) pm = Some (\<not> present pm i)" using Suc.prems(4) by (intro port_null_gap [OF Suc.prems(1)]) simp
  obtain pm1 where one: "free_loop nodes arr i (Suc n) pm = free_loop nodes arr (Suc i) n pm1" "gap_ok N pm1" "same_range pm pm1" "present pm1 = present pm"
    "taken pm1 = (if present pm i then (taken pm)(j := taken pm j - bs_set nodes) else taken pm)"
  proof (cases "present pm i")
    case True
    then show ?thesis using that port_and_not_gap [OF Suc.prems(1) j(2) Suc.prems(2)] get range null j(1) by auto
  next
    case False
    then show ?thesis using that [of pm] Suc.prems(1) get range null by simp
  qed
  have "\<exists>pm'. free_loop nodes arr (Suc i) n pm1 = Some pm' \<and> gap_ok N pm' \<and> same_range pm1 pm'
    \<and> (\<forall>j. taken pm' j = (if \<exists>k. Suc i \<le> k \<and> k < Suc i + n \<and> arr ! k = int j + port_resv_min pm1 \<and> present pm1 k then taken pm1 j - bs_set nodes else taken pm1 j))"
    using Suc.prems one(2-4) by (intro Suc.IH) (auto simp: same_range_def)
  then obtain pm' where two: "free_loop nodes arr (Suc i) n pm1 = Some pm'" "gap_ok N pm'" "same_range pm1 pm'"
    "\<forall>j. taken pm' j = (if \<exists>k. Suc i \<le> k \<and> k < Suc i + n \<and> arr ! k = int j + port_resv_min pm \<and> present pm k then taken pm1 j - bs_set nodes else taken pm1 j)"
    using one(3,4) by (auto simp: same_range_def)
  have split: "(\<exists>k. i \<le> k \<and> k < i + Suc n \<and> arr ! k = int j' + port_resv_min pm \<and> present pm k) \<longleftrightarrow> (j' = j \<and> present pm i)
      \<or> (\<exists>k. Suc i \<le> k \<and> k < Suc i + n \<and> arr ! k = int j' + port_resv_min pm \<and> present pm k)" for j'
  proof -
    have "i \<le> k \<and> k < i + Suc n \<longleftrightarrow> k = i \<or> Suc i \<le> k \<and> k < Suc i + n" for k by auto
    moreover have "arr ! i = int j' + port_resv_min pm \<longleftrightarrow> j' = j" using j(1) by auto
    ultimately show ?thesis by metis
  qed
  have "taken pm' j' = (if \<exists>k. i \<le> k \<and> k < i + Suc n \<and> arr ! k = int j' + port_resv_min pm \<and> present pm k
      then taken pm j' - bs_set nodes else taken pm j')" for j'
    unfolding split using two(4) one(5) by auto
  with one(1,3) two(1-3) same_range_trans [of pm pm1 pm'] show ?case by auto
qed auto

text \<open>C33. Releasing the ports of a step tests the wrong entry of the table: of the ports the step holds, the one at position \<open>k\<close> of its array is given
  back exactly when entry \<open>k\<close> of the table exists, whatever the port's own entry. Where the table has a gap at \<open>k\<close>, that port stays taken
  on the step's nodes. All other ports are left alone and no entry outside the table is read.\<close>

theorem port_release_gaps:
  assumes "gap_ok N pm" "nodes_ok N (node_bitmap st)" "resv_port_array st = Some arr" "distinct arr"
    and "resv_port_cnt st \<le> length arr" "int (resv_port_cnt st) \<le> port_resv_cnt pm"
    and "\<forall>k<resv_port_cnt st. \<exists>j. arr ! k = int j + port_resv_min pm \<and> present pm j"
  shows "\<exists>st' pm'. resv_port_step_free st pm = Some (st', pm') \<and> resv_port_array st' = None \<and> gap_ok N pm'
    \<and> (\<forall>k<resv_port_cnt st. let j = nat (arr ! k - port_resv_min pm) in
         taken pm' j = (if present pm k then taken pm j - bs_set (node_bitmap st) else taken pm j))
    \<and> (\<forall>j. (\<forall>k<resv_port_cnt st. arr ! k \<noteq> int j + port_resv_min pm) \<longrightarrow> taken pm' j = taken pm j)"
proof -
  let ?n = "resv_port_cnt st" and ?min = "port_resv_min pm"
  from free_loop_gap [of N pm "node_bitmap st" 0 ?n arr] assms obtain pm' where
    f: "free_loop (node_bitmap st) arr 0 ?n pm = Some pm'" "gap_ok N pm'"
    "\<forall>j. taken pm' j = (if \<exists>k<?n. arr ! k = int j + ?min \<and> present pm k then taken pm j - bs_set (node_bitmap st) else taken pm j)" by auto
  have only: "(\<exists>k'<?n. arr ! k' = int (nat (arr ! k - ?min)) + ?min \<and> present pm k') \<longleftrightarrow> present pm k" if "k < ?n" for k
  proof -
    from assms(7) that obtain j where "arr ! k = int j + ?min" by blast
    then have "int (nat (arr ! k - ?min)) + ?min = arr ! k" by simp
    then show ?thesis using that assms(4,5) by (auto simp: nth_eq_iff_index_eq)
  qed
  have "resv_port_step_free st pm = Some (st\<lparr>resv_port_array := None\<rparr>, pm')"
    using assms(3) f(1) by (simp add: resv_port_step_free_def resv_port_free_def)
  moreover have "\<forall>k<?n. let j = nat (arr ! k - ?min) in taken pm' j = (if present pm k then taken pm j - bs_set (node_bitmap st) else taken pm j)"
    using f(3) only by (simp add: Let_def)
  moreover have "\<forall>j. (\<forall>k<?n. arr ! k \<noteq> int j + ?min) \<longrightarrow> taken pm' j = taken pm j" using f(3) by auto
  ultimately show ?thesis using f(2) by auto
qed

text \<open>A job that owns the ports 5 and 7 and a step that holds both: port 7 stays taken.\<close>

definition gap_ports :: port_mgr where
  "gap_ports = \<lparr>port_resv_table = Some [Some (node_bitmap (example_step 2)), None, Some (node_bitmap (example_step 2))], port_resv_cnt = 3,
     port_resv_min = 5, port_resv_max = 7, last_port_alloc = 0\<rparr>"

theorem port_release_gaps_witness:
  "\<exists>st' pm'. resv_port_step_free ((example_step 2)\<lparr>resv_port_array := Some [5, 7]\<rparr>) gap_ports = Some (st', pm')
    \<and> taken pm' 0 = taken gap_ports 0 - bs_set (node_bitmap (example_step 2)) \<and> taken pm' 2 = taken gap_ports 2"
proof -
  let ?st = "(example_step 2)\<lparr>resv_port_array := Some [5, 7]\<rparr>" and ?nb = "node_bitmap (example_step 2)"
  have nb: "nodes_ok 2 ?nb" by (simp add: nodes_ok_def example_step_def bs_valid_def)
  then have "gap_ok 2 gap_ports" by (auto simp: gap_ok_def gap_ports_def)
  moreover have "nodes_ok 2 (node_bitmap ?st)" using nb by simp
  moreover have cnt: "resv_port_cnt ?st = 2" "port_resv_min gap_ports = 5" by (simp_all add: example_step_def gap_ports_def)
  have p: "present gap_ports 0" "\<not> present gap_ports 1" "present gap_ports 2" by (auto simp: present_def gap_ports_def)
  then have "\<forall>k<2. \<exists>j. [5, 7] ! k = int j + 5 \<and> present gap_ports j"
    by (auto simp: less_Suc_eq numeral_2_eq_2 intro: exI [of _ 0] exI [of _ "Suc (Suc 0)"])
  then have "\<forall>k<resv_port_cnt ?st. \<exists>j. [5, 7] ! k = int j + port_resv_min gap_ports \<and> present gap_ports j" unfolding cnt .
  moreover have "resv_port_array ?st = Some [5, 7]" "distinct [5 :: int, 7]" "resv_port_cnt ?st \<le> length [5 :: int, 7]"
    "int (resv_port_cnt ?st) \<le> port_resv_cnt gap_ports" unfolding cnt by (simp_all add: gap_ports_def)
  ultimately obtain st' pm' where run: "resv_port_step_free ?st gap_ports = Some (st', pm')" and each: "\<forall>k<resv_port_cnt ?st.
    let j = nat ([5, 7] ! k - port_resv_min gap_ports) in taken pm' j = (if present gap_ports k then taken gap_ports j - bs_set (node_bitmap ?st) else taken gap_ports j)"
    using port_release_gaps by blast
  have "taken pm' 0 = taken gap_ports 0 - bs_set ?nb" using each [unfolded cnt, rule_format, of 0] p(1) by simp
  moreover have "taken pm' 2 = taken gap_ports 2" using each [unfolded cnt, rule_format, of 1] p(2) by simp
  ultimately show ?thesis using run by blast
qed

text \<open>The effect on a run: a job that manages its steps and owns the ports 5 and 7 has no entry for 6; after a step of it that takes both ports
  has ended, the next step with the same needs is refused.\<close>

definition leak_run :: "(string \<Rightarrow> string list option) \<Rightarrow> (string list \<Rightarrow> string) \<Rightarrow> rc option" where
  "leak_run hl_names hl_ranged = do {
     let job = \<lparr>resv_ports = Some ''5,7'', resv_port_cnt = 2, resv_port_array = Some [5, 7],
                node_bitmap = node_bitmap (example_step 2), job_state = 1, bit_flags = push_bit 41 1, step_list = []\<rparr>;
     (code, job, pm) \<leftarrow> reserve_port_stepmgr_init hl_names job port_mgr_init;
     xassert (code = SLURM_SUCCESS);
     (code, st, pm) \<leftarrow> resv_port_step_alloc hl_ranged (example_step 2) pm;
     xassert (code = SLURM_SUCCESS);
     (st, pm) \<leftarrow> resv_port_step_free st pm;
     (code, st, pm) \<leftarrow> resv_port_step_alloc hl_ranged st pm;
     Some code }"

lemma port_release_leaks: "leak_run (\<lambda>_. None) (\<lambda>_. '''') = Some ESLURM_PORTS_BUSY"
  by code_simp

end
