(* ===== verification/Node_Conf.thy ===== *)
theory Node_Conf
  imports Bitmap_Spec
begin

text \<open>
  The part of src/common/node_conf.c that other components use to walk over the nodes and to find a node's
  cores in the system-wide bitmap of cores. The node table has gaps where nodes were removed; a gap is
  \<open>None\<close>. The walk functions move the caller's index, which is part of their result.
\<close>

subsection \<open>Data\<close>

record node_record =
  nd_index :: nat
  tot_cores :: nat

text \<open>\<open>node_record_count\<close> is the length of the table. The two arrays are null until they are initialised.\<close>

record node_conf =
  node_record_table :: "node_record option list"
  last_node_index :: int
  cr_node_num_cores :: "nat list option"
  cr_node_cores_offset :: "nat list option"

abbreviation node_record_count :: "node_conf \<Rightarrow> nat" where
  "node_record_count nc \<equiv> length (node_record_table nc)"

subsection \<open>Walking over the nodes\<close>

function next_node_loop :: "node_conf \<Rightarrow> nat \<Rightarrow> (node_record option \<times> nat) option" where
  "next_node_loop nc index =
     (if index < node_record_count nc then
        case node_record_table nc ! index of
          Some nd \<Rightarrow> do { xassert (nd_index nd = index); Some (Some nd, index) }
        | None \<Rightarrow>
            if index + 1 \<ge> node_record_count nc then Some (None, index + 1)
            else if int (index + 1) > last_node_index nc then Some (None, index + 1)
            else next_node_loop nc (index + 1)
      else None)"
  by pat_completeness auto
termination
  by (relation "measure (\<lambda>(nc, index). node_record_count nc - index)") auto

declare next_node_loop.simps [simp del]

definition next_node :: "node_conf \<Rightarrow> nat \<Rightarrow> (node_record option \<times> nat) option" where
  "next_node nc index =
     (if index \<ge> node_record_count nc then Some (None, index) else next_node_loop nc index)"

partial_function (option) next_node_bitmap_loop :: "node_conf \<Rightarrow> bitstr \<Rightarrow> nat \<Rightarrow> (node_record option \<times> int) option" where
  "next_node_bitmap_loop nc bitmap index = do {
     i \<leftarrow> bit_ffs_from_bit bitmap index;
     if i = -1 then Some (None, -1)
     else do {
       e \<leftarrow> mem_get (node_record_table nc) (nat i);
       case e of
         Some nd \<Rightarrow> do { xassert (nd_index nd = nat i); Some (Some nd, i) }
       | None \<Rightarrow> next_node_bitmap_loop nc bitmap (nat i + 1) } }"

definition next_node_bitmap :: "node_conf \<Rightarrow> bitstr \<Rightarrow> nat \<Rightarrow> (node_record option \<times> int) option" where
  "next_node_bitmap nc bitmap index =
     (if index \<ge> node_record_count nc then Some (None, int index)
      else do {
        n \<leftarrow> bit_size bitmap;
        xassert (n = node_record_count nc);
        next_node_bitmap_loop nc bitmap index })"

text \<open>\<^verbatim>\<open>for (i = 0; next_node(&i); i++) bit_set(b, i);\<close>\<close>

partial_function (option) active_loop :: "node_conf \<Rightarrow> nat \<Rightarrow> bitstr \<Rightarrow> bitstr option" where
  "active_loop nc i b = do {
     (nd, k) \<leftarrow> next_node nc i;
     if nd = None then Some b
     else do { b' \<leftarrow> bit_set b (int k); active_loop nc (k + 1) b' } }"

definition node_conf_set_all_active_bits :: "node_conf \<Rightarrow> bitstr \<Rightarrow> bitstr option" where
  "node_conf_set_all_active_bits nc b = active_loop nc 0 b"

definition node_conf_get_active_bitmap :: "node_conf \<Rightarrow> bitstr option" where
  "node_conf_get_active_bitmap nc = do {
     b \<leftarrow> bit_alloc (int (node_record_count nc));
     node_conf_set_all_active_bits nc b }"

subsection \<open>Offsets of the cores\<close>

definition cr_fini_global_core_data :: "node_conf \<Rightarrow> node_conf" where
  "cr_fini_global_core_data nc = nc\<lparr>cr_node_num_cores := None, cr_node_cores_offset := None\<rparr>"

fun cr_init_loop :: "node_record option list \<Rightarrow> nat \<Rightarrow> nat \<Rightarrow> nat \<Rightarrow> nat list \<Rightarrow> nat list \<Rightarrow> (nat \<times> nat list \<times> nat list) option" where
  "cr_init_loop node_ptr n 0 prev_index nums offs = Some (prev_index, nums, offs)"
| "cr_init_loop node_ptr n (Suc k) prev_index nums offs = do {
     e \<leftarrow> mem_get node_ptr n;
     case e of
       None \<Rightarrow> cr_init_loop node_ptr (Suc n) k prev_index nums offs
     | Some nd \<Rightarrow> do {
         nums \<leftarrow> mem_set nums n (tot_cores nd mod 2 ^ 16);
         if n > 0 then do {
           o1 \<leftarrow> mem_get offs prev_index;
           c1 \<leftarrow> mem_get nums prev_index;
           offs \<leftarrow> mem_set offs n ((o1 + c1) mod 2 ^ 32);
           cr_init_loop node_ptr (Suc n) k n nums offs }
         else do { offs \<leftarrow> mem_set offs 0 0; cr_init_loop node_ptr (Suc n) k prev_index nums offs } } }"

definition cr_init_global_core_data :: "node_record option list \<Rightarrow> nat \<Rightarrow> node_conf \<Rightarrow> node_conf option" where
  "cr_init_global_core_data node_ptr node_cnt nc = do {
     let nc = cr_fini_global_core_data nc;
     (prev_index, nums, offs) \<leftarrow> cr_init_loop node_ptr 0 node_cnt 0 (replicate node_cnt 0) (replicate (node_cnt + 1) 0);
     o1 \<leftarrow> mem_get offs prev_index;
     c1 \<leftarrow> mem_get nums prev_index;
     offs \<leftarrow> mem_set offs node_cnt ((o1 + c1) mod 2 ^ 32);
     Some (nc\<lparr>cr_node_num_cores := Some nums, cr_node_cores_offset := Some offs\<rparr>) }"

definition cr_get_coremap_offset :: "node_conf \<Rightarrow> nat \<Rightarrow> nat option" where
  "cr_get_coremap_offset nc node_index = do {
     offs \<leftarrow> cr_node_cores_offset nc;
     (nd, i) \<leftarrow> next_node nc node_index;
     if nd \<noteq> None then mem_get offs i else mem_get offs (node_record_count nc) }"

definition node_conf_create_cluster_core_bitmap :: "node_conf \<Rightarrow> bitstr option \<Rightarrow> bitstr option option" where
  "node_conf_create_cluster_core_bitmap nc core_bitmap =
     (if core_bitmap \<noteq> None then Some core_bitmap
      else do {
        n \<leftarrow> cr_get_coremap_offset nc (node_record_count nc);
        b \<leftarrow> bit_alloc (int n);
        Some (Some b) })"

subsection \<open>The walk finds the next node\<close>

text \<open>A consistent table: a record knows its place, and no node lies beyond the last index.\<close>

definition nodes_wf :: "node_conf \<Rightarrow> bool" where
  "nodes_wf nc \<longleftrightarrow> (\<forall>i<node_record_count nc. \<forall>nd. node_record_table nc ! i = Some nd \<longrightarrow> nd_index nd = i \<and> int i \<le> last_node_index nc)"

definition has_node :: "node_conf \<Rightarrow> nat \<Rightarrow> bool" where
  "has_node nc i \<longleftrightarrow> i < node_record_count nc \<and> node_record_table nc ! i \<noteq> None"

text \<open>The result of the walk from \<open>i\<close>: the first node from there on, or no node and an index beyond all nodes.\<close>

definition next_result :: "node_conf \<Rightarrow> nat \<Rightarrow> node_record option \<times> nat \<Rightarrow> bool" where
  "next_result nc i r \<longleftrightarrow> i \<le> snd r \<and> (\<forall>j. i \<le> j \<longrightarrow> j < snd r \<longrightarrow> \<not> has_node nc j)
     \<and> (case fst r of None \<Rightarrow> (\<forall>j\<ge>i. \<not> has_node nc j)
        | Some nd \<Rightarrow> snd r < node_record_count nc \<and> node_record_table nc ! snd r = Some nd)"

lemma next_node_loop_result:
  assumes "nodes_wf nc" "i < node_record_count nc"
  shows "\<exists>r. next_node_loop nc i = Some r \<and> next_result nc i r"
  using assms(2)
proof (induction "node_record_count nc - i" arbitrary: i)
  case (Suc n)
  show ?case
  proof (cases "node_record_table nc ! i")
    case (Some nd)
    then show ?thesis using Suc.prems assms(1) by (simp add: next_node_loop.simps nodes_wf_def next_result_def)
  next
    case None
    then have no: "\<not> has_node nc i" by (simp add: has_node_def)
    show ?thesis
    proof (cases "i + 1 < node_record_count nc \<and> int (i + 1) \<le> last_node_index nc")
      case True
      moreover have "n = node_record_count nc - (i + 1)" using Suc.hyps(2) by simp
      ultimately obtain r where r: "next_node_loop nc (i + 1) = Some r" "next_result nc (i + 1) r" using Suc.hyps(1) [of "i + 1"] by blast
      have "next_result nc i r"
        using r(2) no unfolding next_result_def by (auto split: option.splits) (metis Suc_leI le_neq_implies_less)+
      with r(1) True None Suc.prems show ?thesis by (simp add: next_node_loop.simps [of nc i])
    next
      case False
      have "\<not> has_node nc j" if "i \<le> j" for j
        using no assms(1) that False by (cases "j = i") (auto simp: has_node_def nodes_wf_def)
      with False None Suc.prems show ?thesis by (auto simp: next_node_loop.simps [of nc i] next_result_def)
    qed
  qed
qed simp

lemma next_node_result:
  assumes "nodes_wf nc"
  shows "\<exists>r. next_node nc i = Some r \<and> next_result nc i r"
  using next_node_loop_result [OF assms] by (cases "i < node_record_count nc") (auto simp: next_node_def next_result_def has_node_def)

lemma active_loop_eq:
  assumes "nodes_wf nc" "bs_valid b" "bs_bits b = node_record_count nc"
  shows "\<exists>b'. active_loop nc i b = Some b' \<and> bs_valid b' \<and> bs_bits b' = bs_bits b \<and> bs_set b' = bs_set b \<union> {j. i \<le> j \<and> has_node nc j}"
  using assms(2,3)
proof (induction "node_record_count nc - i" arbitrary: i b rule: less_induct)
  case less
  obtain nd k where r: "next_node nc i = Some (nd, k)" "next_result nc i (nd, k)" using next_node_result [OF assms(1)] by (metis surj_pair)
  show ?case
  proof (cases nd)
    case None
    then have "{j. i \<le> j \<and> has_node nc j} = {}" using r(2) by (auto simp: next_result_def)
    then show ?thesis using r(1) None less.prems by (subst active_loop.simps) auto
  next
    case (Some n)
    then have k: "i \<le> k" "k < node_record_count nc" "has_node nc k" "\<forall>j. i \<le> j \<longrightarrow> j < k \<longrightarrow> \<not> has_node nc j"
      using r(2) by (auto simp: next_result_def has_node_def)
    obtain b1 where b1: "bit_set b (int k) = Some b1" "bs_valid b1" "bs_bits b1 = bs_bits b" "bs_set b1 = insert k (bs_set b)"
      using bs.set_law [of b k] less.prems k(2) by auto
    have less: "node_record_count nc - (k + 1) < node_record_count nc - i" using k(1,2) by linarith
    obtain b2 where b2: "active_loop nc (k + 1) b1 = Some b2" "bs_valid b2" "bs_bits b2 = bs_bits b1"
      "bs_set b2 = bs_set b1 \<union> {j. k + 1 \<le> j \<and> has_node nc j}"
      using less.hyps [OF less b1(2)] b1(3) less.prems by auto
    have "insert k {j. k + 1 \<le> j \<and> has_node nc j} = {j. i \<le> j \<and> has_node nc j}"
      using k by auto
    then have "bs_set b2 = bs_set b \<union> {j. i \<le> j \<and> has_node nc j}" using b2(4) b1(4) by auto
    with r(1) Some b1 b2 show ?thesis by (subst active_loop.simps) simp
  qed
qed

lemma active_bitmap_eq:
  assumes "nodes_wf nc" "0 < node_record_count nc" "node_record_count nc \<le> 0x40000000"
  shows "\<exists>b. node_conf_get_active_bitmap nc = Some b \<and> bs_valid b \<and> bs_bits b = node_record_count nc \<and> bs_set b = {j. has_node nc j}"
proof -
  obtain b where b: "bit_alloc (int (node_record_count nc)) = Some b" using bit_alloc_eq [OF assms(2,3)] by blast
  then have v: "bs_valid b" "bs_bits b = node_record_count nc" "bs_set b = {}" using bit_alloc_valid by fastforce+
  then show ?thesis using active_loop_eq [OF assms(1) v(1,2), of 0] b
    by (auto simp: node_conf_get_active_bitmap_def node_conf_set_all_active_bits_def)
qed

text \<open>With the bitmap of the nodes to visit: the first one of them that exists.\<close>

lemma next_node_bitmap_result:
  assumes "nodes_wf nc" "bs_valid b" "bs_bits b = node_record_count nc" "i < node_record_count nc"
  shows "\<exists>nd k. next_node_bitmap nc b i = Some (nd, k) \<and> is_first (\<lambda>j. bs_bit b j \<and> has_node nc j) i (node_record_count nc) k
    \<and> (k \<noteq> -1 \<longrightarrow> nd \<noteq> None \<and> node_record_table nc ! nat k = nd)"
proof -
  have "\<exists>nd k. next_node_bitmap_loop nc b i = Some (nd, k) \<and> is_first (\<lambda>j. bs_bit b j \<and> has_node nc j) i (node_record_count nc) k
    \<and> (k \<noteq> -1 \<longrightarrow> nd \<noteq> None \<and> node_record_table nc ! nat k = nd)" for i
  proof (induction "node_record_count nc - i" arbitrary: i rule: less_induct)
    case less
    obtain v where v: "bit_ffs_from_bit b i = Some v" "is_first (bs_bit b) i (node_record_count nc) v"
      using bit_ffs_from_bit_eq [OF assms(2), of i] assms(3) by auto
    show ?case
    proof (cases "v = -1")
      case True
      then have "\<not> bs_bit b j" if "i \<le> j" "j < node_record_count nc" for j
        using v(2) that unfolding is_first_def by (metis int_ops(1) negative_eq_positive of_nat_eq_iff zero_neq_neg_one of_nat_0_le_iff int_one_le_iff_zero_less not_one_le_zero neg_0_le_iff_le)
      then have "is_first (\<lambda>j. bs_bit b j \<and> has_node nc j) i (node_record_count nc) (-1)" by blast
      then show ?thesis using v(1) True by (subst next_node_bitmap_loop.simps) simp
    next
      case False
      then obtain m where m: "v = int m" "i \<le> m" "m < node_record_count nc" "bs_bit b m" "\<forall>j. i \<le> j \<and> j < m \<longrightarrow> \<not> bs_bit b j"
        using v(2) by (auto simp: is_first_def split: if_splits)
      show ?thesis
      proof (cases "node_record_table nc ! m")
        case (Some nd)
        then have "is_first (\<lambda>j. bs_bit b j \<and> has_node nc j) i (node_record_count nc) (int m)"
          using m by (intro is_first_found) (auto simp: has_node_def)
        then show ?thesis using v(1) m Some assms(1)
          by (subst next_node_bitmap_loop.simps) (simp add: mem_get_def nodes_wf_def)
      next
        case None
        have "node_record_count nc - (m + 1) < node_record_count nc - i" using m(2,3) by linarith
        from less.hyps [OF this] obtain nd k where k: "next_node_bitmap_loop nc b (m + 1) = Some (nd, k)"
          "is_first (\<lambda>j. bs_bit b j \<and> has_node nc j) (m + 1) (node_record_count nc) k"
          "k \<noteq> -1 \<longrightarrow> nd \<noteq> None \<and> node_record_table nc ! nat k = nd" by blast
        have "is_first (\<lambda>j. bs_bit b j \<and> has_node nc j) i (node_record_count nc) k"
          by (rule is_first_skip [OF k(2)]) (use m None in \<open>auto simp: has_node_def less_Suc_eq\<close>)
        then show ?thesis using v(1) m None k by (subst next_node_bitmap_loop.simps) (simp add: mem_get_def)
      qed
    qed
  qed
  then show ?thesis using assms(2-4) by (simp add: next_node_bitmap_def bit_size_eq)
qed

subsection \<open>The offsets are sums\<close>

fun cores_of :: "node_record option \<Rightarrow> nat" where
  "cores_of None = 0"
| "cores_of (Some nd) = tot_cores nd"

text \<open>The number of cores of the nodes before node \<open>i\<close>.\<close>

definition cores_before :: "node_record option list \<Rightarrow> nat \<Rightarrow> nat" where
  "cores_before tbl i = sum_list (map cores_of (take i tbl))"

lemma cores_before_0 [simp]: "cores_before tbl 0 = 0"
  by (simp add: cores_before_def)

lemma cores_before_Suc: "i < length tbl \<Longrightarrow> cores_before tbl (Suc i) = cores_before tbl i + cores_of (tbl ! i)"
  by (simp add: cores_before_def take_Suc_conv_app_nth)

lemma cores_before_mono: "i \<le> j \<Longrightarrow> cores_before tbl i \<le> cores_before tbl j"
proof -
  assume "i \<le> j"
  then have "take j tbl = take i tbl @ take (j - i) (drop i tbl)" by (metis le_add_diff_inverse take_add)
  then show ?thesis by (simp add: cores_before_def)
qed

lemma cores_before_gap: "i \<le> j \<Longrightarrow> (\<And>k. i \<le> k \<Longrightarrow> k < j \<Longrightarrow> k < length tbl \<Longrightarrow> tbl ! k = None) \<Longrightarrow> cores_before tbl j = cores_before tbl i"
proof (induction j)
  case (Suc j)
  show ?case
  proof (cases "i = Suc j")
    case False
    then have "cores_before tbl j = cores_before tbl i" using Suc by auto
    moreover have "cores_before tbl (Suc j) = cores_before tbl j"
    proof (cases "j < length tbl")
      case True then show ?thesis using Suc.prems(2) [of j] Suc.prems(1) False by (simp add: cores_before_Suc)
    qed (simp add: cores_before_def)
    ultimately show ?thesis by simp
  qed simp
qed simp

definition cores_small :: "node_record option list \<Rightarrow> bool" where
  "cores_small tbl \<longleftrightarrow> cores_before tbl (length tbl) < 2 ^ 32 \<and> (\<forall>e \<in> set tbl. cores_of e < 2 ^ 16)"

lemma cr_init_loop_eq:
  assumes "cores_small tbl" "n + k = length tbl" "length nums = length tbl" "length offs = Suc (length tbl)"
    "prev \<le> n" "n \<noteq> 0 \<longrightarrow> prev < n" "n < length tbl \<longrightarrow> nums ! n = 0" "\<forall>i. n \<le> i \<longrightarrow> i < length tbl \<longrightarrow> nums ! i = 0"
    "prev < length tbl" "offs ! prev + nums ! prev = cores_before tbl n" "\<forall>i<n. tbl ! i \<noteq> None \<longrightarrow> offs ! i = cores_before tbl i"
  shows "\<exists>prev' nums' offs'. cr_init_loop tbl n k prev nums offs = Some (prev', nums', offs') \<and> prev' < length tbl
    \<and> length nums' = length tbl \<and> length offs' = Suc (length tbl)
    \<and> offs' ! prev' + nums' ! prev' = cores_before tbl (length tbl) \<and> (\<forall>i<length tbl. tbl ! i \<noteq> None \<longrightarrow> offs' ! i = cores_before tbl i)"
  using assms(2-)
proof (induction k arbitrary: n prev nums offs)
  case 0 then show ?case by simp
next
  case (Suc k)
  have n: "n < length tbl" using Suc.prems(1) by simp
  show ?case
  proof (cases "tbl ! n")
    case None
    have "\<exists>prev' nums' offs'. cr_init_loop tbl (Suc n) k prev nums offs = Some (prev', nums', offs') \<and> prev' < length tbl
        \<and> length nums' = length tbl \<and> length offs' = Suc (length tbl)
        \<and> offs' ! prev' + nums' ! prev' = cores_before tbl (length tbl) \<and> (\<forall>i<length tbl. tbl ! i \<noteq> None \<longrightarrow> offs' ! i = cores_before tbl i)"
      by (rule Suc.IH) (use Suc.prems n None in \<open>auto simp: cores_before_Suc less_Suc_eq\<close>)
    then show ?thesis using n None by (simp add: mem_get_def)
  next
    case (Some nd)
    let ?nums = "nums[n := tot_cores nd]" and ?offs = "offs[n := cores_before tbl n]" and ?prev = "if n > 0 then n else prev"
    have "Some nd \<in> set tbl" using Some n nth_mem by metis
    then have c: "tot_cores nd mod 65536 = tot_cores nd" using assms(1) by (auto simp: cores_small_def)
    have "cores_before tbl n < 2 ^ 32" using cores_before_mono [of n "length tbl" tbl] n assms(1) by (simp add: cores_small_def)
    then have m: "cores_before tbl n mod 4294967296 = cores_before tbl n" by simp
    have p: "?prev = n" using Suc.prems(4) by auto
    have ih: "\<exists>prev' nums' offs'. cr_init_loop tbl (Suc n) k n ?nums ?offs = Some (prev', nums', offs') \<and> prev' < length tbl
        \<and> length nums' = length tbl \<and> length offs' = Suc (length tbl)
        \<and> offs' ! prev' + nums' ! prev' = cores_before tbl (length tbl) \<and> (\<forall>i<length tbl. tbl ! i \<noteq> None \<longrightarrow> offs' ! i = cores_before tbl i)"
      by (rule Suc.IH) (use Suc.prems n Some in \<open>auto simp: cores_before_Suc less_Suc_eq nth_list_update\<close>)
    show ?thesis
    proof (cases "n = 0")
      case True
      then show ?thesis using ih Some n c p Suc.prems(2,3) by (simp add: mem_get_def mem_set_def)
    next
      case False
      then have "prev < n" "?nums ! prev = nums ! prev" using Suc.prems(5) by auto
      then show ?thesis using False ih Some n c m Suc.prems(2,3,8,9) by (simp add: mem_get_def mem_set_def)
    qed
  qed
qed

lemma cr_init_offsets:
  assumes "cores_small (node_record_table nc)" "0 < node_record_count nc"
  shows "\<exists>nums offs. cr_init_global_core_data (node_record_table nc) (node_record_count nc) nc
      = Some (nc\<lparr>cr_node_num_cores := Some nums, cr_node_cores_offset := Some offs\<rparr>)
    \<and> length offs = Suc (node_record_count nc) \<and> offs ! node_record_count nc = cores_before (node_record_table nc) (node_record_count nc)
    \<and> (\<forall>i<node_record_count nc. node_record_table nc ! i \<noteq> None \<longrightarrow> offs ! i = cores_before (node_record_table nc) i)"
proof -
  let ?tbl = "node_record_table nc"
  obtain prev nums offs where l: "cr_init_loop ?tbl 0 (length ?tbl) 0 (replicate (length ?tbl) 0) (replicate (Suc (length ?tbl)) 0) = Some (prev, nums, offs)"
    "prev < length ?tbl" "length nums = length ?tbl" "length offs = Suc (length ?tbl)"
    "offs ! prev + nums ! prev = cores_before ?tbl (length ?tbl)" "\<forall>i<length ?tbl. ?tbl ! i \<noteq> None \<longrightarrow> offs ! i = cores_before ?tbl i"
    using cr_init_loop_eq [OF assms(1), of 0 "length ?tbl" "replicate (length ?tbl) 0" "replicate (Suc (length ?tbl)) 0" 0] assms(2)
    by auto
  have "cores_before ?tbl (length ?tbl) mod 4294967296 = cores_before ?tbl (length ?tbl)" using assms(1) by (simp add: cores_small_def)
  then show ?thesis using l
    by (intro exI [of _ nums] exI [of _ "offs[length ?tbl := cores_before ?tbl (length ?tbl)]"])
      (simp add: cr_init_global_core_data_def cr_fini_global_core_data_def mem_get_def mem_set_def nth_list_update)
qed

text \<open>A table whose core data have been initialised.\<close>

definition cores_init :: "node_conf \<Rightarrow> bool" where
  "cores_init nc \<longleftrightarrow> nodes_wf nc \<and> cores_small (node_record_table nc) \<and> 0 < node_record_count nc
     \<and> (\<exists>nc0. nodes_wf nc0 \<and> cr_init_global_core_data (node_record_table nc0) (node_record_count nc0) nc0 = Some nc)"

lemma cr_get_coremap_offset_eq:
  assumes "cores_init nc"
  shows "cr_get_coremap_offset nc i = Some (cores_before (node_record_table nc) i)"
proof -
  let ?tbl = "node_record_table nc"
  obtain nc0 where nc0: "cr_init_global_core_data (node_record_table nc0) (node_record_count nc0) nc0 = Some nc"
    using assms by (auto simp: cores_init_def)
  have t0: "node_record_table nc = node_record_table nc0"
    using nc0 by (auto simp: cr_init_global_core_data_def cr_fini_global_core_data_def bind_eq_Some_conv)
  obtain offs where offs: "cr_node_cores_offset nc = Some offs" "length offs = Suc (length ?tbl)"
    "offs ! length ?tbl = cores_before ?tbl (length ?tbl)" "\<forall>i<length ?tbl. ?tbl ! i \<noteq> None \<longrightarrow> offs ! i = cores_before ?tbl i"
    using cr_init_offsets [of nc0] nc0 t0 assms by (auto simp: cores_init_def)
  obtain nd k where r: "next_node nc i = Some (nd, k)" "next_result nc i (nd, k)"
    using next_node_result [of nc i] assms by (auto simp: cores_init_def)
  show ?thesis
  proof (cases nd)
    case None
    have "cores_before ?tbl (max i (length ?tbl)) = cores_before ?tbl i"
      by (rule cores_before_gap) (use r(2) None in \<open>auto simp: next_result_def has_node_def\<close>)
    moreover have "cores_before ?tbl (max i (length ?tbl)) = cores_before ?tbl (length ?tbl)"
      by (rule cores_before_gap) auto
    ultimately show ?thesis using r(1) None offs(1-3) by (simp add: cr_get_coremap_offset_def mem_get_def)
  next
    case (Some n)
    then have k: "i \<le> k" "k < length ?tbl" "?tbl ! k = Some n" "\<forall>j. i \<le> j \<longrightarrow> j < k \<longrightarrow> \<not> has_node nc j"
      using r(2) by (auto simp: next_result_def)
    have "cores_before ?tbl k = cores_before ?tbl i"
      by (rule cores_before_gap [OF k(1)]) (use k in \<open>auto simp: has_node_def\<close>)
    then show ?thesis using r(1) Some offs(1,2,4) k by (simp add: cr_get_coremap_offset_def mem_get_def)
  qed
qed

text \<open>Every core belongs to one node.\<close>

lemma core_owner:
  assumes "g < cores_before tbl (length tbl)"
  obtains n c where "n < length tbl" "c < cores_of (tbl ! n)" "g = cores_before tbl n + c"
proof -
  have "\<exists>n c. n < m \<and> c < cores_of (tbl ! n) \<and> g = cores_before tbl n + c" if "m \<le> length tbl" "g < cores_before tbl m" for m
    using that
  proof (induction m)
    case (Suc m)
    then have s: "cores_before tbl (Suc m) = cores_before tbl m + cores_of (tbl ! m)" by (simp add: cores_before_Suc)
    show ?case
    proof (cases "g < cores_before tbl m")
      case True
      then show ?thesis using Suc by (metis Suc_leD less_SucI)
    next
      case False
      then show ?thesis using Suc.prems s by (intro exI [of _ m] exI [of _ "g - cores_before tbl m"]) auto
    qed
  qed simp
  then show thesis using assms that by blast
qed

lemma core_owner_unique:
  assumes "c < cores_of (tbl ! n)" "d < cores_of (tbl ! m)" "n < length tbl" "m < length tbl"
    "cores_before tbl n + c = cores_before tbl m + d"
  shows "n = m \<and> c = d"
proof -
  have le: "\<not> i < j" if "a < cores_of (tbl ! i)" "i < length tbl" "j < length tbl" "cores_before tbl i + a = cores_before tbl j + b" for i j a b
    using cores_before_mono [of "Suc i" j tbl] cores_before_Suc [of i tbl] that by (auto dest: Suc_leI)
  have "n = m" using le [OF assms(1,3,4,5)] le [OF assms(2,4,3) assms(5) [symmetric]] by simp
  with assms(5) show ?thesis by simp
qed

end
