(* ===== verification/Core_Array.thy ===== *)
theory Core_Array
  imports Node_Conf
begin

text \<open>
  src/common/core_array.c: the cores in use, as one bitmap per node (a core array) or as one bitmap over all cores of
  the system, and the conversion between the two. A core array is a list with one entry per node; an
  entry without a bitmap is \<open>None\<close>, and so is an array that is a null pointer. \<open>core_array_log\<close>, which only
  writes to the log, is not modelled.
\<close>

subsection \<open>Operations on core arrays\<close>

type_synonym core_array = "bitstr option list"

text \<open>\<^verbatim>\<open>for (n = 0; n < node_record_count; n++) if (core_array[n]) f(core_array[n]);\<close>\<close>

definition each_core :: "(bitstr \<Rightarrow> bitstr option) \<Rightarrow> node_conf \<Rightarrow> core_array \<Rightarrow> core_array option" where
  "each_core f nc core_array = for_upto (\<lambda>n arr. do {
     e \<leftarrow> mem_get arr n;
     case e of None \<Rightarrow> Some arr | Some b \<Rightarrow> do { b' \<leftarrow> f b; mem_set arr n (Some b') } }) 0 (node_record_count nc) core_array"

definition build_core_array :: "node_conf \<Rightarrow> core_array option" where
  "build_core_array nc = do { xassert (node_record_count nc \<noteq> 0); Some (replicate (node_record_count nc) None) }"

definition clear_core_array :: "node_conf \<Rightarrow> core_array option \<Rightarrow> core_array option option" where
  "clear_core_array nc core_array = (case core_array of
     None \<Rightarrow> Some None
   | Some arr \<Rightarrow> do { arr' \<leftarrow> each_core bit_clear_all nc arr; Some (Some arr') })"

definition copy_core_array :: "(nat \<Rightarrow> u64) \<Rightarrow> node_conf \<Rightarrow> core_array option \<Rightarrow> core_array option option" where
  "copy_core_array junk nc core_array = (case core_array of
     None \<Rightarrow> Some None
   | Some arr \<Rightarrow> do {
       arr2 \<leftarrow> for_upto (\<lambda>n arr2. do {
         e \<leftarrow> mem_get arr n;
         case e of None \<Rightarrow> Some arr2 | Some b \<Rightarrow> do { b' \<leftarrow> bit_copy junk b; mem_set arr2 n (Some b') } })
         0 (node_record_count nc) (replicate (node_record_count nc) None);
       Some (if node_record_count nc = 0 then None else Some arr2) })"

text \<open>The count is an \<open>int\<close> in the code and unbounded here; they agree below \<open>2 ^ 31\<close> cores.\<close>

definition count_core_array_set :: "node_conf \<Rightarrow> core_array option \<Rightarrow> nat option" where
  "count_core_array_set nc core_array = (case core_array of
     None \<Rightarrow> Some 0
   | Some arr \<Rightarrow> for_upto (\<lambda>n count. do {
       e \<leftarrow> mem_get arr n;
       case e of None \<Rightarrow> Some count | Some b \<Rightarrow> do { c \<leftarrow> bit_set_count b; Some (count + c) } })
       0 (node_record_count nc) 0)"

definition core_array_not :: "node_conf \<Rightarrow> core_array option \<Rightarrow> core_array option option" where
  "core_array_not nc core_array = (case core_array of
     None \<Rightarrow> Some None
   | Some arr \<Rightarrow> do { arr' \<leftarrow> each_core bit_not nc arr; Some (Some arr') })"

text \<open>The shorter one of two bitmaps is extended to the size of the other one.\<close>

definition same_size :: "bitstr \<Rightarrow> bitstr \<Rightarrow> (bitstr \<times> bitstr) option" where
  "same_size b1 b2 = do {
     s1 \<leftarrow> bit_size b1;
     s2 \<leftarrow> bit_size b2;
     if s1 > s2 then do { b2' \<leftarrow> slurm_bit_realloc b2 (int s1); Some (b1, b2') }
     else if s1 < s2 then do { b1' \<leftarrow> slurm_bit_realloc b1 (int s2); Some (b1', b2) }
     else Some (b1, b2) }"

text \<open>One node of the binary operations: the new entries of both arrays.\<close>

definition core_and :: "bitstr option \<Rightarrow> bitstr option \<Rightarrow> (bitstr option \<times> bitstr option) option" where
  "core_and e1 e2 = (case (e1, e2) of
     (Some b1, Some b2) \<Rightarrow> do { (b1, b2) \<leftarrow> same_size b1 b2; b1 \<leftarrow> bit_and b1 b2; Some (Some b1, Some b2) }
   | _ \<Rightarrow> Some (None, e2))"

definition core_and_not :: "bitstr option \<Rightarrow> bitstr option \<Rightarrow> (bitstr option \<times> bitstr option) option" where
  "core_and_not e1 e2 = (case (e1, e2) of
     (Some b1, Some b2) \<Rightarrow> do { (b1, b2) \<leftarrow> same_size b1 b2; b1 \<leftarrow> bit_and_not b1 b2; Some (Some b1, Some b2) }
   | _ \<Rightarrow> Some (e1, e2))"

definition core_or :: "(nat \<Rightarrow> u64) \<Rightarrow> bitstr option \<Rightarrow> bitstr option \<Rightarrow> (bitstr option \<times> bitstr option) option" where
  "core_or junk e1 e2 = (case (e1, e2) of
     (Some b1, Some b2) \<Rightarrow> do { (b1, b2) \<leftarrow> same_size b1 b2; b1 \<leftarrow> bit_or b1 b2; Some (Some b1, Some b2) }
   | (None, Some b2) \<Rightarrow> do { b1 \<leftarrow> bit_copy junk b2; Some (Some b1, e2) }
   | _ \<Rightarrow> Some (e1, e2))"

text \<open>The loop of the three binary operations.\<close>

definition core_pairs :: "(bitstr option \<Rightarrow> bitstr option \<Rightarrow> (bitstr option \<times> bitstr option) option) \<Rightarrow> node_conf
    \<Rightarrow> core_array \<Rightarrow> core_array \<Rightarrow> (core_array \<times> core_array) option" where
  "core_pairs f nc a1 a2 = for_upto (\<lambda>n (a1, a2). do {
     e1 \<leftarrow> mem_get a1 n;
     e2 \<leftarrow> mem_get a2 n;
     (e1, e2) \<leftarrow> f e1 e2;
     a1 \<leftarrow> mem_set a1 n e1;
     a2 \<leftarrow> mem_set a2 n e2;
     Some (a1, a2) }) 0 (node_record_count nc) (a1, a2)"

definition core_array_and :: "node_conf \<Rightarrow> core_array \<Rightarrow> core_array \<Rightarrow> (core_array \<times> core_array) option" where
  "core_array_and nc a1 a2 = core_pairs core_and nc a1 a2"

definition core_array_and_not :: "node_conf \<Rightarrow> core_array \<Rightarrow> core_array \<Rightarrow> (core_array \<times> core_array) option" where
  "core_array_and_not nc a1 a2 = core_pairs core_and_not nc a1 a2"

definition core_array_or :: "(nat \<Rightarrow> u64) \<Rightarrow> node_conf \<Rightarrow> core_array \<Rightarrow> core_array \<Rightarrow> (core_array \<times> core_array) option" where
  "core_array_or junk nc a1 a2 = core_pairs (core_or junk) nc a1 a2"

text \<open>Freeing hands every bitmap back to the cache of bitmaps and leaves a null pointer.\<close>

definition free_core_array :: "node_conf \<Rightarrow> core_array option \<Rightarrow> bit_cache \<Rightarrow> (core_array option \<times> bit_cache) option" where
  "free_core_array nc core_array cache = (case core_array of
     None \<Rightarrow> Some (None, cache)
   | Some arr \<Rightarrow> do {
       cache' \<leftarrow> for_upto (\<lambda>n cache. do {
         e \<leftarrow> mem_get arr n;
         case e of None \<Rightarrow> Some cache | Some b \<Rightarrow> slurm_bit_free b cache }) 0 (node_record_count nc) cache;
       Some (None, cache') })"

subsection \<open>Conversions\<close>

definition core_array_to_bitmap :: "node_conf \<Rightarrow> core_array option \<Rightarrow> bitstr option option" where
  "core_array_to_bitmap nc core_array = (case core_array of
     None \<Rightarrow> Some None
   | Some arr \<Rightarrow> do {
       n \<leftarrow> cr_get_coremap_offset nc (node_record_count nc);
       core_bitmap \<leftarrow> bit_alloc (int n);
       core_bitmap \<leftarrow> for_upto (\<lambda>i core_bitmap. do {
         e \<leftarrow> mem_get arr i;
         case e of
           None \<Rightarrow> Some core_bitmap
         | Some b \<Rightarrow> do {
             core_offset \<leftarrow> cr_get_coremap_offset nc i;
             nd \<leftarrow> node_record_table nc ! i;
             for_upto (\<lambda>c core_bitmap. do {
               t \<leftarrow> slurm_bit_test b (int c);
               if t then bit_set core_bitmap (int (core_offset + c)) else Some core_bitmap }) 0 (tot_cores nd) core_bitmap } })
         0 (node_record_count nc) core_bitmap;
       Some (Some core_bitmap) })"

text \<open>The loop that looks for the node of core \<open>i\<close>: the index at its end, the node, and the new \<open>i\<close>.\<close>

partial_function (option) node_of_core :: "node_conf \<Rightarrow> nat \<Rightarrow> nat \<Rightarrow> nat \<Rightarrow> (nat \<times> nat \<times> nat) option" where
  "node_of_core nc i j node_inx = do {
     (nd, j) \<leftarrow> next_node nc j;
     if nd = None then Some (j, node_inx, i)
     else do {
       off \<leftarrow> cr_get_coremap_offset nc (j + 1);
       if i < off then Some (j, j, off - 1) else node_of_core nc i (j + 1) node_inx } }"

partial_function (option) split_cores :: "node_conf \<Rightarrow> bitstr \<Rightarrow> int \<Rightarrow> nat \<Rightarrow> nat \<Rightarrow> core_array \<Rightarrow> core_array option" where
  "split_cores nc core_bitmap i_last i node_inx core_array =
     (if int i \<le> i_last then do {
        t \<leftarrow> slurm_bit_test core_bitmap (int i);
        if \<not> t then split_cores nc core_bitmap i_last (i + 1) node_inx core_array
        else do {
          (j, node_inx, i) \<leftarrow> node_of_core nc i node_inx node_inx;
          if j \<ge> node_record_count nc then Some core_array
          else do {
            e \<leftarrow> mem_get (node_record_table nc) node_inx;
            if e = None then Some core_array
            else do {
              nd \<leftarrow> e;
              b \<leftarrow> bit_alloc (int (tot_cores nd));
              core_offset \<leftarrow> cr_get_coremap_offset nc node_inx;
              b \<leftarrow> for_upto (\<lambda>c b. do {
                t \<leftarrow> slurm_bit_test core_bitmap (int (core_offset + c));
                if t then bit_set b (int c) else Some b }) 0 (tot_cores nd) b;
              core_array \<leftarrow> mem_set core_array node_inx (Some b);
              split_cores nc core_bitmap i_last (i + 1) (node_inx + 1) core_array } } } }
      else Some core_array)"

definition core_bitmap_to_array :: "node_conf \<Rightarrow> bitstr option \<Rightarrow> core_array option option" where
  "core_bitmap_to_array nc core_bitmap = (case core_bitmap of
     None \<Rightarrow> Some None
   | Some bm \<Rightarrow> do {
       i_first \<leftarrow> bit_ffs bm;
       if i_first = -1 then Some None
       else do {
         core_array \<leftarrow> build_core_array nc;
         i_last \<leftarrow> bit_fls bm;
         core_array \<leftarrow> split_cores nc bm i_last (nat i_first) 0 core_array;
         Some (Some core_array) } })"

subsection \<open>The cores of an array\<close>

definition arr_ok :: "node_conf \<Rightarrow> core_array \<Rightarrow> bool" where
  "arr_ok nc arr \<longleftrightarrow> length arr = node_record_count nc \<and> (\<forall>n<length arr. \<forall>b. arr ! n = Some b \<longrightarrow> bs_valid b)"

fun eset :: "bitstr option \<Rightarrow> nat set" where
  "eset None = {}"
| "eset (Some b) = bs_set b"

definition cores :: "core_array \<Rightarrow> (nat \<times> nat) set" where
  "cores arr = {(n, c). n < length arr \<and> c \<in> eset (arr ! n)}"

text \<open>No bits are set beyond the size, so that a bitmap can grow.\<close>

definition clean :: "core_array \<Rightarrow> bool" where
  "clean arr \<longleftrightarrow> (\<forall>n<length arr. \<forall>b. arr ! n = Some b \<longrightarrow> (\<forall>i\<ge>bs_bits b. \<not> bs_bit b i))"

lemma cores_eqI:
  assumes "length x = length a" "\<And>n. n < length a \<Longrightarrow> eset (x ! n) = g n"
  shows "cores x = {(n, c). n < length a \<and> c \<in> g n}"
  using assms by (auto simp: cores_def)

lemma core_pairs_law:
  assumes "length a1 = node_record_count nc" "length a2 = node_record_count nc"
    and law: "\<And>n. n < node_record_count nc \<Longrightarrow> \<exists>e1 e2. f (a1 ! n) (a2 ! n) = Some (e1, e2) \<and> P n e1 e2"
  shows "\<exists>x1 x2. core_pairs f nc a1 a2 = Some (x1, x2) \<and> length x1 = length a1 \<and> length x2 = length a2
    \<and> (\<forall>n<node_record_count nc. P n (x1 ! n) (x2 ! n))"
proof -
  let ?I = "\<lambda>m s. length (fst s) = length a1 \<and> length (snd s) = length a2 \<and> (\<forall>n<m. P n (fst s ! n) (snd s ! n))
    \<and> (\<forall>n. m \<le> n \<longrightarrow> n < node_record_count nc \<longrightarrow> fst s ! n = a1 ! n \<and> snd s ! n = a2 ! n)"
  have "\<exists>s. core_pairs f nc a1 a2 = Some s \<and> ?I (node_record_count nc) s"
    unfolding core_pairs_def
  proof (rule for_upto_rule [where I = ?I])
    fix i s assume i: "i < node_record_count nc" "?I i s"
    obtain s1 s2 where s: "s = (s1, s2)" by (cases s)
    obtain e1 e2 where e: "f (a1 ! i) (a2 ! i) = Some (e1, e2)" "P i e1 e2" using law [OF i(1)] by blast
    have "?I (Suc i) (s1[i := e1], s2[i := e2])" using i s e(2) assms(1,2) by (auto simp: nth_list_update less_Suc_eq)
    then show "\<exists>t'. (case s of (a1, a2) \<Rightarrow> do { e1 \<leftarrow> mem_get a1 i; e2 \<leftarrow> mem_get a2 i; (e1, e2) \<leftarrow> f e1 e2;
        a1 \<leftarrow> mem_set a1 i e1; a2 \<leftarrow> mem_set a2 i e2; Some (a1, a2) }) = Some t' \<and> ?I (Suc i) t'"
      using i s e(1) assms(1,2) by (intro exI [of _ "(s1[i := e1], s2[i := e2])"]) (auto simp: mem_get_def mem_set_def)
  qed (use assms in auto)
  then show ?thesis by auto
qed

lemma each_core_law:
  assumes "length arr = node_record_count nc"
    and law: "\<And>n b. n < node_record_count nc \<Longrightarrow> arr ! n = Some b \<Longrightarrow> \<exists>b'. f b = Some b' \<and> P n b'"
  shows "\<exists>x. each_core f nc arr = Some x \<and> length x = length arr
    \<and> (\<forall>n<node_record_count nc. case arr ! n of None \<Rightarrow> x ! n = None | Some b \<Rightarrow> \<exists>b'. x ! n = Some b' \<and> P n b')"
proof -
  let ?Q = "\<lambda>x n. case arr ! n of None \<Rightarrow> x ! n = None | Some b \<Rightarrow> \<exists>b'. x ! n = Some b' \<and> P n b'"
  let ?I = "\<lambda>m x. length x = length arr \<and> (\<forall>n<m. ?Q x n) \<and> (\<forall>n. m \<le> n \<longrightarrow> n < node_record_count nc \<longrightarrow> x ! n = arr ! n)"
  have "\<exists>x. each_core f nc arr = Some x \<and> ?I (node_record_count nc) x"
    unfolding each_core_def
  proof (rule for_upto_rule [where I = ?I])
    fix i x assume i: "i < node_record_count nc" "?I i x"
    show "\<exists>x'. do { e \<leftarrow> mem_get x i; case e of None \<Rightarrow> Some x | Some b \<Rightarrow> do { b' \<leftarrow> f b; mem_set x i (Some b') } } = Some x' \<and> ?I (Suc i) x'"
    proof (cases "arr ! i")
      case None
      then have "?I (Suc i) x" using i by (auto simp: less_Suc_eq)
      then show ?thesis using i None assms(1) by (auto simp: mem_get_def)
    next
      case (Some b)
      then obtain b' where b': "f b = Some b'" "P i b'" using law [OF i(1)] by blast
      have "?Q (x[i := Some b']) n" if "n < Suc i" for n
        using i b' Some assms(1) that by (cases "n = i") (auto simp: less_Suc_eq split: option.splits)
      then have "?I (Suc i) (x[i := Some b'])" using i by auto
      then show ?thesis using i b'(1) Some assms(1) by (intro exI [of _ "x[i := Some b']"]) (auto simp: mem_get_def mem_set_def)
    qed
  qed (use assms in auto)
  then show ?thesis by blast
qed

lemma grow_keeps:
  assumes "bs_valid b" "\<forall>i\<ge>bs_bits b. \<not> bs_bit b i" "bs_bits b < n" "n \<le> 0x40000000"
  shows "\<exists>b'. slurm_bit_realloc b (int n) = Some b' \<and> bs_valid b' \<and> bs_bits b' = n \<and> bs_set b' = bs_set b"
proof -
  obtain b' where b': "slurm_bit_realloc b (int n) = Some b'" "bs_valid b'" "bs_bits b' = n" "\<forall>i<n. bs_bit b' i \<longleftrightarrow> bs_bit b i"
    using bit_realloc_eq [OF assms(1) _ assms(4)] assms(3) by auto
  have "bs_set b' = bs_set b" using b'(3,4) assms(2,3) by (auto simp: bs_set_def) (meson not_le)
  with b' show ?thesis by auto
qed

lemma same_size_law:
  assumes "bs_valid b1" "bs_valid b2" "\<forall>i\<ge>bs_bits b1. \<not> bs_bit b1 i" "\<forall>i\<ge>bs_bits b2. \<not> bs_bit b2 i"
  shows "\<exists>c1 c2. same_size b1 b2 = Some (c1, c2) \<and> bs_valid c1 \<and> bs_valid c2 \<and> bs_bits c1 = bs_bits c2
    \<and> bs_set c1 = bs_set b1 \<and> bs_set c2 = bs_set b2"
proof -
  have s: "bs_bits b1 \<le> 0x40000000" "bs_bits b2 \<le> 0x40000000" using assms(1,2) by (auto simp: bs_valid_def)
  consider "bs_bits b1 > bs_bits b2" | "bs_bits b1 < bs_bits b2" | "bs_bits b1 = bs_bits b2" by linarith
  then show ?thesis
  proof cases
    case 1
    then show ?thesis using grow_keeps [OF assms(2,4) _ s(1)] assms(1,2) by (auto simp: same_size_def bit_size_eq)
  next
    case 2
    then show ?thesis using grow_keeps [OF assms(1,3) _ s(2)] assms(1,2) by (auto simp: same_size_def bit_size_eq)
  next
    case 3
    then show ?thesis using assms by (auto simp: same_size_def bit_size_eq)
  qed
qed

text \<open>One node of the binary operations.\<close>

definition entry_ok :: "bitstr option \<Rightarrow> bool" where
  "entry_ok e \<longleftrightarrow> (\<forall>b. e = Some b \<longrightarrow> bs_valid b \<and> (\<forall>i\<ge>bs_bits b. \<not> bs_bit b i))"

lemma core_and_law:
  assumes "entry_ok e1" "entry_ok e2"
  shows "\<exists>x1 x2. core_and e1 e2 = Some (x1, x2) \<and> eset x1 = eset e1 \<inter> eset e2 \<and> eset x2 = eset e2"
proof (cases "e1 \<noteq> None \<and> e2 \<noteq> None")
  case True
  then obtain b1 b2 where b: "e1 = Some b1" "e2 = Some b2" by auto
  then obtain c1 c2 where c: "same_size b1 b2 = Some (c1, c2)" "bs_valid c1" "bs_valid c2" "bs_bits c1 = bs_bits c2"
    "bs_set c1 = bs_set b1" "bs_set c2 = bs_set b2" using same_size_law [of b1 b2] assms by (auto simp: entry_ok_def)
  then show ?thesis using bs.and_law [OF c(2-4)] b by (auto simp: core_and_def)
qed (cases e1; cases e2; auto simp: core_and_def)

lemma core_and_not_law:
  assumes "entry_ok e1" "entry_ok e2"
  shows "\<exists>x1 x2. core_and_not e1 e2 = Some (x1, x2) \<and> eset x1 = eset e1 - eset e2 \<and> eset x2 = eset e2"
proof (cases "e1 \<noteq> None \<and> e2 \<noteq> None")
  case True
  then obtain b1 b2 where b: "e1 = Some b1" "e2 = Some b2" by auto
  then obtain c1 c2 where c: "same_size b1 b2 = Some (c1, c2)" "bs_valid c1" "bs_valid c2" "bs_bits c1 = bs_bits c2"
    "bs_set c1 = bs_set b1" "bs_set c2 = bs_set b2" using same_size_law [of b1 b2] assms by (auto simp: entry_ok_def)
  then show ?thesis using bs.and_not_law [OF c(2-4)] b by (auto simp: core_and_not_def)
qed (cases e1; cases e2; auto simp: core_and_not_def)

lemma core_or_law:
  assumes "entry_ok e1" "entry_ok e2"
  shows "\<exists>x1 x2. core_or junk e1 e2 = Some (x1, x2) \<and> eset x1 = eset e1 \<union> eset e2 \<and> eset x2 = eset e2"
proof (cases "e1 \<noteq> None \<and> e2 \<noteq> None")
  case True
  then obtain b1 b2 where b: "e1 = Some b1" "e2 = Some b2" by auto
  then obtain c1 c2 where c: "same_size b1 b2 = Some (c1, c2)" "bs_valid c1" "bs_valid c2" "bs_bits c1 = bs_bits c2"
    "bs_set c1 = bs_set b1" "bs_set c2 = bs_set b2" using same_size_law [of b1 b2] assms by (auto simp: entry_ok_def)
  then show ?thesis using bs.or_law [OF c(2-4)] b by (auto simp: core_or_def)
qed (use assms in \<open>cases e1; cases e2; auto simp: core_or_def entry_ok_def bit_copy_eq\<close>)

lemma arr_entry: "arr_ok nc arr \<Longrightarrow> clean arr \<Longrightarrow> n < node_record_count nc \<Longrightarrow> entry_ok (arr ! n)"
  by (simp add: arr_ok_def clean_def entry_ok_def)

text \<open>The binary operations, lifted from one node to all.\<close>

lemma core_pairs_cores:
  assumes "arr_ok nc a1" "arr_ok nc a2" "clean a1" "clean a2"
    and law: "\<And>e1 e2. entry_ok e1 \<Longrightarrow> entry_ok e2 \<Longrightarrow> \<exists>x1 x2. f e1 e2 = Some (x1, x2) \<and> eset x1 = g (eset e1) (eset e2) \<and> eset x2 = eset e2"
  shows "\<exists>x1 x2. core_pairs f nc a1 a2 = Some (x1, x2) \<and> cores x2 = cores a2
    \<and> cores x1 = {(n, c). n < node_record_count nc \<and> c \<in> g (eset (a1 ! n)) (eset (a2 ! n))}"
proof -
  have len: "length a1 = node_record_count nc" "length a2 = node_record_count nc" using assms(1,2) by (auto simp: arr_ok_def)
  have "\<exists>x1 x2. core_pairs f nc a1 a2 = Some (x1, x2) \<and> length x1 = length a1 \<and> length x2 = length a2
      \<and> (\<forall>n<node_record_count nc. eset (x1 ! n) = g (eset (a1 ! n)) (eset (a2 ! n)) \<and> eset (x2 ! n) = eset (a2 ! n))"
    by (rule core_pairs_law [OF len], rule law [OF arr_entry [OF assms(1,3)] arr_entry [OF assms(2,4)]])
  then obtain x1 x2 where x: "core_pairs f nc a1 a2 = Some (x1, x2)" "length x1 = length a1" "length x2 = length a2"
    "\<forall>n<node_record_count nc. eset (x1 ! n) = g (eset (a1 ! n)) (eset (a2 ! n)) \<and> eset (x2 ! n) = eset (a2 ! n)" by blast
  then show ?thesis using len by (auto simp: cores_def)
qed

lemma card_cores:
  assumes "arr_ok nc arr"
  shows "finite (cores arr)" "card (cores arr) = (\<Sum>n<node_record_count nc. card (eset (arr ! n)))"
proof -
  have c: "cores arr = (SIGMA n:{..<node_record_count nc}. eset (arr ! n))" using assms by (auto simp: cores_def arr_ok_def)
  have "finite (eset (arr ! n))" if "n < node_record_count nc" for n
    using assms that bs.finite_elems by (cases "arr ! n") (auto simp: arr_ok_def)
  then show "finite (cores arr)" "card (cores arr) = (\<Sum>n<node_record_count nc. card (eset (arr ! n)))"
    unfolding c by (auto simp: card_SigmaI)
qed

lemma count_core_array_set_eq:
  assumes "arr_ok nc arr"
  shows "count_core_array_set nc (Some arr) = Some (card (cores arr))"
proof -
  let ?I = "\<lambda>m count. count = (\<Sum>n<m. card (eset (arr ! n)))"
  have "\<exists>count. count_core_array_set nc (Some arr) = Some count \<and> ?I (node_record_count nc) count"
    unfolding count_core_array_set_def option.case
  proof (rule for_upto_rule [where I = ?I])
    fix i count assume i: "i < node_record_count nc" "?I i count"
    then show "\<exists>t. do { e \<leftarrow> mem_get arr i; case e of None \<Rightarrow> Some count | Some b \<Rightarrow> do { c \<leftarrow> bit_set_count b; Some (count + c) } } = Some t \<and> ?I (Suc i) t"
      using assms by (cases "arr ! i") (auto simp: mem_get_def arr_ok_def bit_set_count_eq)
  qed auto
  then show ?thesis by (auto simp: card_cores [OF assms])
qed

lemma core_array_not_eq:
  assumes "arr_ok nc arr"
  shows "\<exists>x. core_array_not nc (Some arr) = Some (Some x) \<and> arr_ok nc x
    \<and> cores x = {(n, c). n < node_record_count nc \<and> (\<exists>b. arr ! n = Some b \<and> c < bs_bits b \<and> c \<notin> bs_set b)}"
proof -
  have len: "length arr = node_record_count nc" using assms by (simp add: arr_ok_def)
  have "\<exists>b'. bit_not b = Some b' \<and> bs_valid b' \<and> bs_set b' = {..<bs_bits b} - bs_set b" if "bs_valid b" for b
    using that by (auto simp: bit_not_eq bs_set_bs_of) (auto simp: bs_set_def)
  then have "\<exists>x. each_core bit_not nc arr = Some x \<and> length x = length arr \<and> (\<forall>n<node_record_count nc. case arr ! n of
      None \<Rightarrow> x ! n = None | Some b \<Rightarrow> \<exists>b'. x ! n = Some b' \<and> bs_valid b' \<and> bs_set b' = {..<bs_bits (the (arr ! n))} - bs_set (the (arr ! n)))"
    using assms by (intro each_core_law [OF len]) (auto simp: arr_ok_def)
  then obtain x where x: "each_core bit_not nc arr = Some x" "length x = length arr"
    "\<forall>n<node_record_count nc. case arr ! n of None \<Rightarrow> x ! n = None
      | Some b \<Rightarrow> \<exists>b'. x ! n = Some b' \<and> bs_valid b' \<and> bs_set b' = {..<bs_bits (the (arr ! n))} - bs_set (the (arr ! n))"
    by blast
  have x34: "(arr ! n = None \<longrightarrow> x ! n = None) \<and> (arr ! n = Some b \<longrightarrow> (\<exists>b'. x ! n = Some b' \<and> bs_valid b' \<and> bs_set b' = {..<bs_bits b} - bs_set b))"
    if "n < node_record_count nc" for n b
    using x(3) that by (auto split: option.splits)
  have "arr_ok nc x" unfolding arr_ok_def
  proof (intro conjI allI impI)
    fix n b assume "n < length x" "x ! n = Some b"
    then show "bs_valid b" using x(2) x34 [of n "the (arr ! n)"] len by (cases "arr ! n") auto
  qed (use x len in simp)
  moreover have "eset (x ! n) = (case arr ! n of None \<Rightarrow> {} | Some b \<Rightarrow> {..<bs_bits b} - bs_set b)" if lt: "n < node_record_count nc" for n
  proof (cases "arr ! n")
    case None then show ?thesis using x34 [OF lt] by simp
  next
    case (Some b)
    then obtain b' where "x ! n = Some b'" "bs_set b' = {..<bs_bits b} - bs_set b" using x34 [OF lt] by blast
    then show ?thesis using Some by simp
  qed
  then have "cores x = {(n, c). n < node_record_count nc \<and> c \<in> (case arr ! n of None \<Rightarrow> {} | Some b \<Rightarrow> {..<bs_bits b} - bs_set b)}"
    using cores_eqI [of x arr] x(2) len by simp
  ultimately show ?thesis using x(1) by (auto simp: core_array_not_def split: option.splits)
qed

subsection \<open>From an array to a bitmap\<close>

text \<open>An array that fits the nodes: a bitmap has one bit per core of an existing node.\<close>

definition fits :: "node_conf \<Rightarrow> core_array \<Rightarrow> bool" where
  "fits nc arr \<longleftrightarrow> arr_ok nc arr
     \<and> (\<forall>n<length arr. \<forall>b. arr ! n = Some b \<longrightarrow> (\<exists>nd. node_record_table nc ! n = Some nd \<and> tot_cores nd = bs_bits b))"

lemma fitsD:
  assumes "fits nc arr" "n < node_record_count nc" "arr ! n = Some b"
  shows "\<exists>nd. node_record_table nc ! n = Some nd \<and> tot_cores nd = bs_bits b \<and> bs_valid b"
  using assms by (simp add: fits_def arr_ok_def)

text \<open>The place of a core in the system-wide bitmap.\<close>

definition place :: "node_conf \<Rightarrow> nat \<times> nat \<Rightarrow> nat" where
  "place nc p = cores_before (node_record_table nc) (fst p) + snd p"

abbreviation total_cores :: "node_conf \<Rightarrow> nat" where
  "total_cores nc \<equiv> cores_before (node_record_table nc) (node_record_count nc)"

text \<open>Copying the bits of one node.\<close>

lemma copy_bits_law:
  assumes "bs_valid dst" "\<And>c. c < m \<Longrightarrow> src c = Some (c \<in> S)" "\<And>c. c < m \<Longrightarrow> off + c < bs_bits dst"
  shows "\<exists>d. for_upto (\<lambda>c d. do { t \<leftarrow> src c; if t then bit_set d (int (off + c)) else Some d }) 0 m dst = Some d
    \<and> bs_valid d \<and> bs_bits d = bs_bits dst \<and> bs_set d = bs_set dst \<union> {off + c |c. c < m \<and> c \<in> S}"
proof (rule for_upto_rule [where I = "\<lambda>m d. bs_valid d \<and> bs_bits d = bs_bits dst \<and> bs_set d = bs_set dst \<union> {off + c |c. c < m \<and> c \<in> S}"])
  fix i d assume i: "i < m" "bs_valid d \<and> bs_bits d = bs_bits dst \<and> bs_set d = bs_set dst \<union> {off + c |c. c < i \<and> c \<in> S}"
  have sets: "{off + c |c. c < Suc i \<and> c \<in> S} = {off + c |c. c < i \<and> c \<in> S} \<union> (if i \<in> S then {off + i} else {})"
    by (auto simp: less_Suc_eq)
  show "\<exists>t'. do { t \<leftarrow> src i; if t then bit_set d (int (off + i)) else Some d } = Some t'
      \<and> bs_valid t' \<and> bs_bits t' = bs_bits dst \<and> bs_set t' = bs_set dst \<union> {off + c |c. c < Suc i \<and> c \<in> S}"
  proof (cases "i \<in> S")
    case True
    obtain t' where "bit_set d (int (off + i)) = Some t'" "bs_valid t'" "bs_bits t' = bs_bits d" "bs_set t' = insert (off + i) (bs_set d)"
      using bs.set_law [of d "off + i"] i assms(3) [OF i(1)] by auto
    then show ?thesis unfolding sets using True i assms(2) [OF i(1)] by auto
  next
    case False
    then show ?thesis unfolding sets using i assms(2) [OF i(1)] by auto
  qed
qed (use assms(1) in auto)

lemmas copy_bits_0 = copy_bits_law [where off = 0, unfolded add_0]

lemma core_array_to_bitmap_eq:
  assumes "cores_init nc" "fits nc arr" "0 < total_cores nc" "total_cores nc \<le> 0x40000000"
  shows "\<exists>bm. core_array_to_bitmap nc (Some arr) = Some (Some bm) \<and> bs_valid bm \<and> bs_bits bm = total_cores nc
    \<and> bs_set bm = place nc ` cores arr"
proof -
  let ?N = "node_record_count nc" and ?tbl = "node_record_table nc"
  have len: "length arr = ?N" using assms(2) by (simp add: fits_def arr_ok_def)
  obtain b0 where b0: "bit_alloc (int (total_cores nc)) = Some b0" using bit_alloc_eq [OF assms(3,4)] by blast
  have v0: "bs_valid b0" "bs_bits b0 = total_cores nc" "bs_set b0 = {}" using bit_alloc_valid [OF b0] by auto
  let ?I = "\<lambda>m bm. bs_valid bm \<and> bs_bits bm = total_cores nc \<and> bs_set bm = place nc ` {p \<in> cores arr. fst p < m}"
  let ?f = "\<lambda>i core_bitmap. do {
         e \<leftarrow> mem_get arr i;
         case e of
           None \<Rightarrow> Some core_bitmap
         | Some b \<Rightarrow> do {
             core_offset \<leftarrow> cr_get_coremap_offset nc i;
             nd \<leftarrow> ?tbl ! i;
             for_upto (\<lambda>c core_bitmap. do {
               t \<leftarrow> slurm_bit_test b (int c);
               if t then bit_set core_bitmap (int (core_offset + c)) else Some core_bitmap }) 0 (tot_cores nd) core_bitmap } }"
  have "\<exists>bm. for_upto ?f 0 ?N b0 = Some bm \<and> ?I ?N bm"
  proof (rule for_upto_rule [where I = ?I])
    fix i bm assume i: "i < ?N" "?I i bm"
    have split: "{p \<in> cores arr. fst p < Suc i} = {p \<in> cores arr. fst p < i} \<union> {(i, c) |c. c \<in> eset (arr ! i)}"
      using i(1) len by (auto simp: cores_def less_Suc_eq)
    show "\<exists>t. ?f i bm = Some t \<and> ?I (Suc i) t"
    proof (cases "arr ! i")
      case None
      then show ?thesis using i len unfolding split by (simp add: mem_get_def)
    next
      case (Some b)
      then obtain nd where nd: "?tbl ! i = Some nd" "tot_cores nd = bs_bits b" "bs_valid b"
        using fitsD [OF assms(2) i(1)] by blast
      have room: "cores_before ?tbl i + c < bs_bits bm" if "c < bs_bits b" for c
        using cores_before_mono [of "Suc i" ?N ?tbl] cores_before_Suc [of i ?tbl] i nd that by simp
      obtain d where d: "for_upto (\<lambda>c d. do { t \<leftarrow> slurm_bit_test b (int c); if t then bit_set d (int (cores_before ?tbl i + c)) else Some d }) 0 (bs_bits b) bm = Some d"
        "bs_valid d" "bs_bits d = bs_bits bm" "bs_set d = bs_set bm \<union> {cores_before ?tbl i + c |c. c < bs_bits b \<and> c \<in> bs_set b}"
        using copy_bits_law [of bm "bs_bits b" "\<lambda>c. slurm_bit_test b (int c)" "bs_set b" "cores_before ?tbl i"]
          bs.test_law [OF nd(3)] room i(2) by blast
      have "{cores_before ?tbl i + c |c. c < bs_bits b \<and> c \<in> bs_set b} = place nc ` {(i, c) |c. c \<in> eset (arr ! i)}"
        using Some by (auto simp: place_def image_iff dest: bs_set_less)
      then have "bs_set d = place nc ` {p \<in> cores arr. fst p < Suc i}" unfolding split image_Un using d(4) i(2) by simp
      then show ?thesis using d i nd Some len cr_get_coremap_offset_eq [OF assms(1)] by (simp add: mem_get_def)
    qed
  qed (use v0 in auto)
  moreover have "{p \<in> cores arr. fst p < ?N} = cores arr" using len by (auto simp: cores_def)
  moreover have "core_array_to_bitmap nc (Some arr) = for_upto ?f 0 ?N b0 \<bind> (\<lambda>bm. Some (Some bm))"
    by (simp only: core_array_to_bitmap_def option.case cr_get_coremap_offset_eq [OF assms(1), of "?N"] b0 Option.bind.bind_lunit)
  ultimately show ?thesis by auto
qed

subsection \<open>From a bitmap to an array\<close>

lemma node_of_core_eq:
  assumes "cores_init nc" "n < node_record_count nc" "c < cores_of (node_record_table nc ! n)" "j \<le> n"
    "i = cores_before (node_record_table nc) n + c"
  shows "node_of_core nc i j ni = Some (n, n, cores_before (node_record_table nc) (Suc n) - 1)"
  using assms(4)
proof (induction "n - j" arbitrary: j rule: less_induct)
  case less
  let ?tbl = "node_record_table nc"
  note off = cr_get_coremap_offset_eq [OF assms(1)]
  have n: "has_node nc n" using assms(2,3) by (cases "?tbl ! n") (auto simp: has_node_def)
  obtain nd k where r: "next_node nc j = Some (nd, k)" "next_result nc j (nd, k)"
    using next_node_result [of nc j] assms(1) by (auto simp: cores_init_def)
  have nd: "nd \<noteq> None" using r(2) n less.prems by (auto simp: next_result_def split: option.splits)
  have k: "j \<le> k" "k \<le> n" using r(2) n less.prems by (auto simp: next_result_def not_le [symmetric])
  show ?case
  proof (cases "k = n")
    case True
    have "i < cores_before ?tbl (Suc n)" using assms(2,3,5) by (simp add: cores_before_Suc)
    then show ?thesis using r(1) nd True off by (subst node_of_core.simps) auto
  next
    case False
    then have "cores_before ?tbl (Suc k) \<le> i" using cores_before_mono [of "Suc k" n ?tbl] k assms(5) by auto
    moreover have "node_of_core nc i (Suc k) ni = Some (n, n, cores_before ?tbl (Suc n) - 1)"
      by (rule less.hyps) (use False k in auto)
    ultimately show ?thesis using r(1) nd off by (subst node_of_core.simps) auto
  qed
qed

text \<open>The cores of node \<open>n\<close> in the bitmap, and an array that has them for the nodes before \<open>m\<close>.\<close>

definition local_cores :: "node_conf \<Rightarrow> bitstr \<Rightarrow> nat \<Rightarrow> nat set" where
  "local_cores nc bm n = {c. c < cores_of (node_record_table nc ! n) \<and> cores_before (node_record_table nc) n + c \<in> bs_set bm}"

definition done_upto :: "node_conf \<Rightarrow> bitstr \<Rightarrow> nat \<Rightarrow> core_array \<Rightarrow> bool" where
  "done_upto nc bm m x \<longleftrightarrow> length x = node_record_count nc \<and> (\<forall>n<node_record_count nc.
     if n < m \<and> local_cores nc bm n \<noteq> {}
     then \<exists>b. x ! n = Some b \<and> bs_valid b \<and> bs_bits b = cores_of (node_record_table nc ! n) \<and> bs_set b = local_cores nc bm n
     else x ! n = None)"

lemma no_local_cores:
  assumes "n < node_record_count nc" "cores_before (node_record_table nc) m \<le> cores_before (node_record_table nc) n"
    "cores_before (node_record_table nc) (Suc n) \<le> i"
    "\<And>g. cores_before (node_record_table nc) m \<le> g \<Longrightarrow> g < i \<Longrightarrow> g \<notin> bs_set bm"
  shows "local_cores nc bm n = {}"
  using assms by (auto simp: local_cores_def cores_before_Suc)

lemma done_skip:
  assumes "done_upto nc bm m x" "m \<le> m'" "\<And>n. m \<le> n \<Longrightarrow> n < m' \<Longrightarrow> n < node_record_count nc \<Longrightarrow> local_cores nc bm n = {}"
  shows "done_upto nc bm m' x"
  unfolding done_upto_def
proof (intro conjI allI impI)
  show "length x = node_record_count nc" using assms(1) by (simp add: done_upto_def)
  fix n assume n: "n < node_record_count nc"
  have "(n < m' \<and> local_cores nc bm n \<noteq> {}) = (n < m \<and> local_cores nc bm n \<noteq> {})"
    using assms(2) assms(3) [of n] n by (cases "m \<le> n") auto
  then show "if n < m' \<and> local_cores nc bm n \<noteq> {}
     then \<exists>b. x ! n = Some b \<and> bs_valid b \<and> bs_bits b = cores_of (node_record_table nc ! n) \<and> bs_set b = local_cores nc bm n
     else x ! n = None"
    using assms(1) n unfolding done_upto_def by presburger
qed

lemma done_next:
  assumes "done_upto nc bm n x" "n < node_record_count nc" "bs_valid b" "bs_bits b = cores_of (node_record_table nc ! n)"
    "bs_set b = local_cores nc bm n" "local_cores nc bm n \<noteq> {}"
  shows "done_upto nc bm (Suc n) (x[n := Some b])"
  using assms unfolding done_upto_def by (auto simp: nth_list_update less_Suc_eq)

lemma split_cores_eq:
  assumes "cores_init nc" "bs_valid bm" "bs_bits bm = total_cores nc" "\<forall>g \<in> bs_set bm. int g \<le> i_last" "i_last < int (total_cores nc)"
    "done_upto nc bm m x" "m \<le> node_record_count nc" "cores_before (node_record_table nc) m \<le> i"
    "\<And>g. cores_before (node_record_table nc) m \<le> g \<Longrightarrow> g < i \<Longrightarrow> g \<notin> bs_set bm"
  shows "\<exists>x'. split_cores nc bm i_last i m x = Some x' \<and> done_upto nc bm (node_record_count nc) x'"
  using assms(6-)
proof (induction "nat (i_last + 1 - int i)" arbitrary: i m x rule: less_induct)
  case less
  let ?tbl = "node_record_table nc" and ?N = "node_record_count nc"
  let ?cb = "cores_before ?tbl"
  note off = cr_get_coremap_offset_eq [OF assms(1)]
  show ?case
  proof (cases "int i \<le> i_last")
    case False
    have "done_upto nc bm ?N x"
    proof (rule done_skip [OF less.prems(1,2)])
      fix n assume n: "m \<le> n" "n < ?N"
      have "g \<notin> bs_set bm" if "?cb m \<le> g" for g
        using less.prems(4) [of g] that assms(4) False by (cases "g < i") auto
      then show "local_cores nc bm n = {}" using cores_before_mono [OF n(1), of ?tbl] by (auto simp: local_cores_def)
    qed
    then show ?thesis using False by (subst split_cores.simps) simp
  next
    case le: True
    then have i: "i < bs_bits bm" using assms(3,5) by linarith
    have test: "slurm_bit_test bm (int i) = Some (i \<in> bs_set bm)" by (rule bs.test_law [OF assms(2) i])
    show ?thesis
    proof (cases "i \<in> bs_set bm")
      case False
      have "\<exists>x'. split_cores nc bm i_last (i + 1) m x = Some x' \<and> done_upto nc bm ?N x'"
        by (rule less.hyps) (use le less.prems False in \<open>auto simp: less_Suc_eq\<close>)
      then show ?thesis using le test False by (subst split_cores.simps) simp
    next
      case True
      obtain n c where n: "n < ?N" "c < cores_of (?tbl ! n)" "i = ?cb n + c" using core_owner [of i ?tbl] i assms(3) by auto
      then obtain nd where nd: "?tbl ! n = Some nd" "cores_of (?tbl ! n) = tot_cores nd" by (cases "?tbl ! n") auto
      have cs: "?cb (Suc n) = ?cb n + tot_cores nd" using n(1) nd by (simp add: cores_before_Suc)
      have mn: "m \<le> n"
      proof (rule ccontr)
        assume "\<not> m \<le> n"
        then have "?cb (Suc n) \<le> ?cb m" by (intro cores_before_mono) simp
        then show False using less.prems(3) n(2,3) cs nd(2) by linarith
      qed
      have total: "?cb (Suc n) \<le> bs_bits bm" using cores_before_mono [of "Suc n" ?N ?tbl] n(1) assms(3) by simp
      have node: "node_of_core nc i m m = Some (n, n, ?cb (Suc n) - 1)" by (rule node_of_core_eq [OF assms(1) n(1,2) mn n(3)])
      have "0 < tot_cores nd" "tot_cores nd \<le> 0x40000000" using n nd cs total assms(2) by (auto simp: bs_valid_def)
      then obtain b0 where b0: "bit_alloc (int (tot_cores nd)) = Some b0" using bit_alloc_eq by blast
      have v0: "bs_valid b0" "bs_bits b0 = tot_cores nd" "bs_set b0 = {}" using bit_alloc_valid [OF b0] by auto
      have test_n: "slurm_bit_test bm (int (?cb n + c)) = Some (c \<in> {c. ?cb n + c \<in> bs_set bm})" if "c < tot_cores nd" for c
        using bs.test_law [OF assms(2), of "?cb n + c"] total cs that by simp
      obtain b where b: "for_upto (\<lambda>c b. do { t \<leftarrow> slurm_bit_test bm (int (?cb n + c)); if t then bit_set b (int c) else Some b }) 0 (tot_cores nd) b0 = Some b"
        "bs_valid b" "bs_bits b = tot_cores nd" "bs_set b = {c. c < tot_cores nd \<and> ?cb n + c \<in> bs_set bm}"
        using copy_bits_0 [of b0 "tot_cores nd" "\<lambda>c. slurm_bit_test bm (int (?cb n + c))" "{c. ?cb n + c \<in> bs_set bm}"]
          test_n v0 by auto
      have loc: "bs_set b = local_cores nc bm n" "c \<in> local_cores nc bm n" using b(4) nd n(2,3) True by (auto simp: local_cores_def)
      have "done_upto nc bm n x"
        by (rule done_skip [OF less.prems(1) mn], rule no_local_cores [of _ nc m i])
          (use less.prems n(3) cores_before_mono in \<open>auto intro: le_trans [OF cores_before_mono [of _ n]]\<close>)
      then have d: "done_upto nc bm (Suc n) (x[n := Some b])" using done_next [of nc bm n x b] n(1) b(2,3) nd loc by auto
      have len: "length x = ?N" using less.prems(1) by (simp add: done_upto_def)
      have step: "i < ?cb (Suc n)" "?cb (Suc n) - 1 + 1 = ?cb (Suc n)" using n cs nd by auto
      have "\<exists>x'. split_cores nc bm i_last (?cb (Suc n) - 1 + 1) (n + 1) (x[n := Some b]) = Some x' \<and> done_upto nc bm ?N x'"
        unfolding step(2) by (rule less.hyps) (use le step d n(1) in auto)
      then show ?thesis using le test True node n(1) nd b0 b(1) len off [of n]
        by (subst split_cores.simps) (simp add: mem_get_def mem_set_def)
    qed
  qed
qed

lemma core_bitmap_to_array_eq:
  assumes "cores_init nc" "bs_valid bm" "bs_bits bm = total_cores nc"
  shows "if bs_set bm = {} then core_bitmap_to_array nc (Some bm) = Some None
    else \<exists>x. core_bitmap_to_array nc (Some bm) = Some (Some x) \<and> done_upto nc bm (node_record_count nc) x"
proof -
  obtain v where v: "bit_ffs bm = Some v" "is_first (bs_bit bm) 0 (bs_bits bm) v" using bit_ffs_eq [OF assms(2)] by blast
  obtain l where l: "bit_fls bm = Some l" "is_last (bs_bit bm) (bs_bits bm) l" using bit_fls_eq [OF assms(2)] by blast
  show ?thesis
  proof (cases "bs_set bm = {}")
    case True
    then have "v = -1" using v(2) by (auto simp: is_first_def bs_set_def)
    then show ?thesis using True v(1) by (simp add: core_bitmap_to_array_def)
  next
    case False
    then have ex: "\<exists>i<bs_bits bm. bs_bit bm i" by (auto simp: bs_set_def)
    then obtain f where f: "v = int f" "f < bs_bits bm" "\<forall>j<f. \<not> bs_bit bm j" using v(2) by (auto simp: is_first_def)
    obtain k where k: "l = int k" "k < bs_bits bm" "\<forall>j. k < j \<and> j < bs_bits bm \<longrightarrow> \<not> bs_bit bm j" using l(2) ex by (auto simp: is_last_def)
    have "\<exists>x. split_cores nc bm l f 0 (replicate (node_record_count nc) None) = Some x \<and> done_upto nc bm (node_record_count nc) x"
    proof (rule split_cores_eq [OF assms])
      show "\<forall>g \<in> bs_set bm. int g \<le> l" using k by (auto simp: bs_set_def not_le)
      show "done_upto nc bm 0 (replicate (node_record_count nc) None)" by (simp add: done_upto_def)
      show "g \<notin> bs_set bm" if "g < f" for g using f(3) that by (auto simp: bs_set_def)
    qed (use k assms(3) in auto)
    moreover have "node_record_count nc \<noteq> 0" using assms(1) by (simp add: cores_init_def)
    ultimately show ?thesis using False v(1) l(1) f(1) by (auto simp: core_bitmap_to_array_def build_core_array_def)
  qed
qed

lemma done_cores:
  assumes "cores_init nc" "done_upto nc bm (node_record_count nc) x"
  shows "n < node_record_count nc \<Longrightarrow> eset (x ! n) = local_cores nc bm n" "fits nc x" "length x = node_record_count nc"
    "n < node_record_count nc \<Longrightarrow> x ! n = None \<longleftrightarrow> local_cores nc bm n = {}"
proof -
  let ?tbl = "node_record_table nc"
  show len: "length x = node_record_count nc" using assms(2) by (simp add: done_upto_def)
  have none: "x ! n = None" if "n < node_record_count nc" "local_cores nc bm n = {}" for n
    using assms(2) that by (simp add: done_upto_def)
  have some: "\<exists>b. x ! n = Some b \<and> bs_valid b \<and> bs_bits b = cores_of (?tbl ! n) \<and> bs_set b = local_cores nc bm n"
    if "n < node_record_count nc" "local_cores nc bm n \<noteq> {}" for n
    using assms(2) that by (simp add: done_upto_def)
  show "eset (x ! n) = local_cores nc bm n" if n: "n < node_record_count nc"
  proof (cases "local_cores nc bm n = {}")
    case True then show ?thesis using none [OF n] by simp
  next
    case False then show ?thesis using some [OF n] by force
  qed
  show "x ! n = None \<longleftrightarrow> local_cores nc bm n = {}" if n: "n < node_record_count nc"
    using none [OF n] some [OF n] by force
  have "\<exists>nd. ?tbl ! n = Some nd \<and> tot_cores nd = bs_bits b \<and> bs_valid b" if n: "n < node_record_count nc" "x ! n = Some b" for n b
  proof -
    have b: "local_cores nc bm n \<noteq> {}" "bs_valid b" "bs_bits b = cores_of (?tbl ! n)" 
      using none [OF n(1)] some [OF n(1)] n(2) by force+
    then show ?thesis by (cases "?tbl ! n") (auto simp: local_cores_def)
  qed
  then show "fits nc x" using len by (fastforce simp: fits_def arr_ok_def)
qed

text \<open>Places are unique among the cores that exist.\<close>

lemma place_local:
  assumes "\<forall>(n, c) \<in> C. n < node_record_count nc \<and> c < cores_of (node_record_table nc ! n)" "bs_set bm = place nc ` C" "n < node_record_count nc"
  shows "local_cores nc bm n = {c. (n, c) \<in> C}"
proof -
  have "(n, c) \<in> C" if c: "c < cores_of (node_record_table nc ! n)" "cores_before (node_record_table nc) n + c \<in> bs_set bm" for c
  proof -
    obtain m d where md: "(m, d) \<in> C" "cores_before (node_record_table nc) n + c = cores_before (node_record_table nc) m + d"
      using c(2) assms(2) by (auto simp: place_def)
    then have "m = n \<and> d = c" using core_owner_unique [OF c(1) _ assms(3) _ md(2)] assms(1) by fastforce
    with md show ?thesis by simp
  qed
  moreover have "c < cores_of (node_record_table nc ! n)" "cores_before (node_record_table nc) n + c \<in> bs_set bm" if "(n, c) \<in> C" for c
    using assms(1,2) that by (auto simp: place_def image_iff intro!: bexI [of _ "(n, c)"])
  ultimately show ?thesis by (auto simp: local_cores_def)
qed

lemma fits_cores:
  assumes "fits nc arr"
  shows "\<forall>(n, c) \<in> cores arr. n < node_record_count nc \<and> c < cores_of (node_record_table nc ! n)"
proof (clarify)
  fix n c assume nc: "(n, c) \<in> cores arr"
  then obtain b where b: "n < node_record_count nc" "arr ! n = Some b" "c \<in> bs_set b"
    using assms by (cases "arr ! n") (auto simp: cores_def fits_def arr_ok_def)
  with fitsD [OF assms b(1,2)] show "n < node_record_count nc \<and> c < cores_of (node_record_table nc ! n)" by (auto dest: bs_set_less)
qed

lemma bitmap_places:
  assumes "cores_init nc" "bs_bits bm = total_cores nc" "done_upto nc bm (node_record_count nc) x"
  shows "place nc ` cores x = bs_set bm"
proof -
  let ?tbl = "node_record_table nc"
  have c: "cores x = {(n, c). n < node_record_count nc \<and> c \<in> local_cores nc bm n}"
    using done_cores(1,3) [OF assms(1,3)] by (auto simp: cores_def)
  have "g \<in> place nc ` cores x" if "g \<in> bs_set bm" for g
  proof -
    have "g < cores_before ?tbl (length ?tbl)" using bs_set_less [OF that] assms(2) by simp
    then obtain n c where "n < length ?tbl" "c < cores_of (?tbl ! n)" "g = cores_before ?tbl n + c" by (rule core_owner)
    then have "g = place nc (n, c)" "(n, c) \<in> cores x" using that by (simp_all add: c local_cores_def place_def)
    then show ?thesis by (rule image_eqI)
  qed
  then show ?thesis unfolding c by (auto simp: local_cores_def place_def)
qed

subsection \<open>Properties\<close>

text \<open>C34. The two representations of the cores in use carry the same information. A core array that fits the nodes,
  turned into a system-wide bitmap and back, has the same cores: nodes with no core in use lose their empty
  bitmap, and an array without any core becomes a null pointer. A non-empty system-wide bitmap turned into an array
  and back is the same set. Gaps in the node table and nodes of different sizes are allowed.\<close>

theorem core_roundtrip:
  assumes "cores_init nc" "fits nc arr" "0 < total_cores nc" "total_cores nc \<le> 0x40000000"
  shows "(\<exists>bm r. core_array_to_bitmap nc (Some arr) = Some (Some bm) \<and> core_bitmap_to_array nc (Some bm) = Some r
      \<and> (if cores arr = {} then r = None
         else \<exists>x. r = Some x \<and> fits nc x \<and> cores x = cores arr \<and> (\<forall>n<node_record_count nc. x ! n = None \<longleftrightarrow> eset (arr ! n) = {})))
    \<and> (\<forall>bm. bs_valid bm \<longrightarrow> bs_bits bm = total_cores nc \<longrightarrow> bs_set bm \<noteq> {} \<longrightarrow>
         (\<exists>x bm'. core_bitmap_to_array nc (Some bm) = Some (Some x) \<and> core_array_to_bitmap nc (Some x) = Some (Some bm')
            \<and> bs_bits bm' = bs_bits bm \<and> bs_set bm' = bs_set bm))"
proof (intro conjI allI impI)
  obtain bm where bm: "core_array_to_bitmap nc (Some arr) = Some (Some bm)" "bs_valid bm" "bs_bits bm = total_cores nc"
    "bs_set bm = place nc ` cores arr" using core_array_to_bitmap_eq [OF assms] by blast
  note conv = core_bitmap_to_array_eq [OF assms(1) bm(2,3)]
  have loc: "local_cores nc bm n = eset (arr ! n)" if "n < node_record_count nc" for n
    using place_local [OF fits_cores [OF assms(2)] bm(4) that] that assms(2) by (auto simp: cores_def fits_def arr_ok_def)
  show "\<exists>bm r. core_array_to_bitmap nc (Some arr) = Some (Some bm) \<and> core_bitmap_to_array nc (Some bm) = Some r
      \<and> (if cores arr = {} then r = None
         else \<exists>x. r = Some x \<and> fits nc x \<and> cores x = cores arr \<and> (\<forall>n<node_record_count nc. x ! n = None \<longleftrightarrow> eset (arr ! n) = {}))"
  proof (cases "cores arr = {}")
    case True
    then show ?thesis using bm conv by auto
  next
    case False
    then obtain x where x: "core_bitmap_to_array nc (Some bm) = Some (Some x)" "done_upto nc bm (node_record_count nc) x"
      using conv bm(4) by auto
    note d = done_cores [OF assms(1) x(2)]
    have "cores x = cores arr" using d(1,3) loc assms(2) by (auto simp: cores_def fits_def arr_ok_def)
    moreover have "\<forall>n<node_record_count nc. x ! n = None \<longleftrightarrow> eset (arr ! n) = {}" using d(4) loc by simp
    ultimately show ?thesis using False bm(1) x(1) d(2) by auto
  qed
  fix b2 assume b2: "bs_valid b2" "bs_bits b2 = total_cores nc" "bs_set b2 \<noteq> {}"
  then obtain x where x: "core_bitmap_to_array nc (Some b2) = Some (Some x)" "done_upto nc b2 (node_record_count nc) x"
    using core_bitmap_to_array_eq [OF assms(1) b2(1,2)] by auto
  obtain b3 where "core_array_to_bitmap nc (Some x) = Some (Some b3)" "bs_bits b3 = total_cores nc" "bs_set b3 = place nc ` cores x"
    using core_array_to_bitmap_eq [OF assms(1) done_cores(2) [OF assms(1) x(2)] assms(3,4)] by blast
  then show "\<exists>x bm'. core_bitmap_to_array nc (Some b2) = Some (Some x) \<and> core_array_to_bitmap nc (Some x) = Some (Some bm')
      \<and> bs_bits bm' = bs_bits b2 \<and> bs_set bm' = bs_set b2"
    using x(1) b2(2) bitmap_places [OF assms(1) b2(2) x(2)] by auto
qed

text \<open>A system with a gap: nodes 0 and 2, with two and three cores.\<close>

definition example_table :: "node_record option list" where
  "example_table = [Some \<lparr>nd_index = 0, tot_cores = 2\<rparr>, None, Some \<lparr>nd_index = 2, tot_cores = 3\<rparr>]"

definition example_nodes :: node_conf where
  "example_nodes = \<lparr>node_record_table = example_table, last_node_index = 2, cr_node_num_cores = Some [2, 0, 3],
     cr_node_cores_offset = Some [0, 0, 2, 5]\<rparr>"

definition example_cores :: core_array where
  "example_cores = [Some \<lparr>bs_magic = BITSTR_MAGIC, bs_bits = 2, bs_words = [2]\<rparr>, None,
     Some \<lparr>bs_magic = BITSTR_MAGIC, bs_bits = 3, bs_words = [5]\<rparr>]"

lemma example_init: "cores_init example_nodes"
proof -
  let ?nc0 = "example_nodes\<lparr>cr_node_num_cores := None, cr_node_cores_offset := None\<rparr>"
  have "cr_init_global_core_data (node_record_table ?nc0) (node_record_count ?nc0) ?nc0 = Some example_nodes"
    by (simp add: cr_init_global_core_data_def cr_fini_global_core_data_def mem_get_def mem_set_def example_nodes_def example_table_def)
  moreover have "nodes_wf ?nc0" "nodes_wf example_nodes"
    by (auto simp: nodes_wf_def example_nodes_def example_table_def less_Suc_eq numeral_3_eq_3)
  moreover have "cores_small (node_record_table example_nodes)" "0 < node_record_count example_nodes"
    by (auto simp: cores_small_def cores_before_def example_nodes_def example_table_def)
  ultimately show ?thesis unfolding cores_init_def by blast
qed

lemma example_fits: "fits example_nodes example_cores"
  by (auto simp: fits_def arr_ok_def example_nodes_def example_cores_def example_table_def bs_valid_def bitstr_words_def less_Suc_eq numeral_3_eq_3)

theorem core_roundtrip_witness:
  "\<exists>bm r. core_array_to_bitmap example_nodes (Some example_cores) = Some (Some bm) \<and> core_bitmap_to_array example_nodes (Some bm) = Some r"
proof -
  have "total_cores example_nodes = 5" by (simp add: cores_before_def example_nodes_def example_table_def)
  then show ?thesis using core_roundtrip [OF example_init example_fits] by auto
qed

text \<open>C35. The operations on core arrays compute the set operations on the cores: for arrays without stray bits beyond the
  sizes of their bitmaps, whose bitmaps may have different sizes or be missing, the first array becomes the
  intersection, the difference or the union of the two and the second keeps its cores; the count is the
  number of cores; clearing leaves none.\<close>

theorem core_algebra:
  assumes "arr_ok nc a1" "arr_ok nc a2" "clean a1" "clean a2"
  shows "(\<exists>x y. core_array_and nc a1 a2 = Some (x, y) \<and> cores x = cores a1 \<inter> cores a2 \<and> cores y = cores a2)
    \<and> (\<exists>x y. core_array_and_not nc a1 a2 = Some (x, y) \<and> cores x = cores a1 - cores a2 \<and> cores y = cores a2)
    \<and> (\<exists>x y. core_array_or junk nc a1 a2 = Some (x, y) \<and> cores x = cores a1 \<union> cores a2 \<and> cores y = cores a2)
    \<and> count_core_array_set nc (Some a1) = Some (card (cores a1))
    \<and> (\<exists>x. clear_core_array nc (Some a1) = Some (Some x) \<and> cores x = {})"
proof -
  have len: "length a1 = node_record_count nc" "length a2 = node_record_count nc" using assms(1,2) by (auto simp: arr_ok_def)
  note law = core_pairs_cores [OF assms]
  have "\<exists>x y. core_array_and nc a1 a2 = Some (x, y) \<and> cores x = cores a1 \<inter> cores a2 \<and> cores y = cores a2"
    using law [of core_and "(\<inter>)", OF core_and_law] len by (auto simp: core_array_and_def cores_def)
  moreover have "\<exists>x y. core_array_and_not nc a1 a2 = Some (x, y) \<and> cores x = cores a1 - cores a2 \<and> cores y = cores a2"
    using law [of core_and_not "(-)", OF core_and_not_law] len by (auto simp: core_array_and_not_def cores_def)
  moreover have "\<exists>x y. core_array_or junk nc a1 a2 = Some (x, y) \<and> cores x = cores a1 \<union> cores a2 \<and> cores y = cores a2"
    using law [of "core_or junk" "(\<union>)", OF core_or_law] len by (auto simp: core_array_or_def cores_def)
  moreover have "\<exists>x. clear_core_array nc (Some a1) = Some (Some x) \<and> cores x = {}"
  proof -
    have "\<exists>b'. bit_clear_all b = Some b' \<and> bs_set b' = {}" if "bs_valid b" for b
      using that by (auto simp: bit_clear_all_eq bs_fill_def bs_set_bs_of)
    then obtain x where x: "each_core bit_clear_all nc a1 = Some x" "length x = length a1"
      "\<forall>n<node_record_count nc. case a1 ! n of None \<Rightarrow> x ! n = None | Some b \<Rightarrow> \<exists>b'. x ! n = Some b' \<and> bs_set b' = {}"
      using each_core_law [OF len(1), of bit_clear_all "\<lambda>_ b'. bs_set b' = {}"] assms(1) len by (auto simp: arr_ok_def)
    have "eset (x ! n) = {}" if n: "n < node_record_count nc" for n
    proof (cases "a1 ! n")
      case None then show ?thesis using x(3) n by auto
    next
      case (Some b)
      then have "\<exists>b'. x ! n = Some b' \<and> bs_set b' = {}" using x(3) n by auto
      then show ?thesis by auto
    qed
    then show ?thesis using x(1,2) len by (auto simp: clear_core_array_def cores_def)
  qed
  ultimately show ?thesis using count_core_array_set_eq [OF assms(1)] by blast
qed

lemma example_clean: "clean example_cores"
proof -
  have "\<not> bit (2 :: u64) k" if "k \<noteq> 1" for k using that by (simp add: bit_2_iff)
  moreover have "\<not> bit (5 :: u64) k" if "3 \<le> k" for k
    using that bit_numeral_rec(2) [of "Num.Bit0 Num.One" k] by (cases k; cases "k - 1"; cases "k - 2") (auto simp: bit_numeral_rec bit_Suc)
  ultimately show ?thesis
    by (auto simp: clean_def example_cores_def bs_bit_def less_Suc_eq numeral_3_eq_3)
qed

theorem core_algebra_witness:
  "\<exists>x y. core_array_or (\<lambda>_. 0) example_nodes example_cores [None, None, None] = Some (x, y)
     \<and> cores x = cores example_cores \<union> cores [None, None, None] \<and> cores y = cores [None, None, None]"
proof -
  have "arr_ok example_nodes example_cores" using example_fits by (simp add: fits_def)
  moreover have "arr_ok example_nodes [None, None, None]" "clean [None, None, None]"
    by (auto simp: arr_ok_def clean_def example_nodes_def example_table_def less_Suc_eq)
  ultimately show ?thesis using core_algebra [OF _ _ example_clean, of example_nodes "[None, None, None]" "\<lambda>_. 0"] by blast
qed

end
