(* ===== verification/Cbuf.thy ===== *)
theory Cbuf
  imports Slurm_Prelude
begin

text \<open>
  The circular byte buffers of src/common/cbuf.c, which hold a task's output in slurmstepd and the
  backlog of the log files. One definition per C function, the internal functions before the public ones.

  The allocated block holds \<open>size + 1\<close> data bytes between two magic cookies. The data bytes are the
  list \<open>cb_data\<close>; the cookies before and after them are \<open>cb_under\<close> and \<open>cb_over\<close>. Every access to the
  data goes through \<open>mem_get\<close>, \<open>mem_sub\<close> and \<open>mem_put\<close>, which fail outside the list. The \<open>int\<close>
  additions that can pass 32 bits are checked with \<open>i32\<close>.

  Each public function holds the mutex of its buffer from its first to its last access, so its body
  is one step on the buffer. The file descriptor functions are parameterised by the \<open>read\<close> and
  \<open>write\<close> system calls.
\<close>

subsection \<open>Memory\<close>

text \<open>\<open>n\<close> bytes at index \<open>i\<close> of an array, and \<open>memcpy\<close> into it.\<close>

definition mem_sub :: "'a list \<Rightarrow> int \<Rightarrow> int \<Rightarrow> 'a list option" where
  "mem_sub d i n =
     (if 0 \<le> i \<and> 0 \<le> n \<and> i + n \<le> int (length d) then Some (take (nat n) (drop (nat i) d)) else None)"

definition mem_put :: "'a list \<Rightarrow> int \<Rightarrow> 'a list \<Rightarrow> 'a list option" where
  "mem_put d i bs =
     (if 0 \<le> i \<and> i + int (length bs) \<le> int (length d)
      then Some (take (nat i) d @ bs @ drop (nat i + length bs) d) else None)"

definition c_rem :: "int \<Rightarrow> int \<Rightarrow> int option" where
  "c_rem a b = (if b = 0 then None else Some (sgn a * (\<bar>a\<bar> mod \<bar>b\<bar>)))"

text \<open>The bytes of an \<open>unsigned long\<close> in memory.\<close>

definition le_bytes :: "u64 \<Rightarrow> u8 list" where
  "le_bytes w = map (\<lambda>k. ucast (drop_bit (8 * k) w)) [0..<8]"

definition strlen :: "u8 list \<Rightarrow> int option" where
  "strlen s = (if 0 \<in> set s then Some (int (length (takeWhile (\<lambda>c. c \<noteq> 0) s))) else None)"

subsection \<open>The structure\<close>

definition CBUF_CHUNK :: int where "CBUF_CHUNK = 1000"
definition CBUF_MAGIC :: u64 where "CBUF_MAGIC = 0xDEADBEEF"
definition CBUF_MAGIC_LEN :: int where "CBUF_MAGIC_LEN = 8"

definition CBUF_OPT_OVERWRITE :: int where "CBUF_OPT_OVERWRITE = 0"
definition CBUF_NO_DROP :: int where "CBUF_NO_DROP = 0"
definition CBUF_WRAP_ONCE :: int where "CBUF_WRAP_ONCE = 1"
definition CBUF_WRAP_MANY :: int where "CBUF_WRAP_MANY = 2"

lemmas cbuf_consts = CBUF_CHUNK_def CBUF_MAGIC_LEN_def CBUF_OPT_OVERWRITE_def CBUF_NO_DROP_def
  CBUF_WRAP_ONCE_def CBUF_WRAP_MANY_def

record cbuf =
  cb_magic :: u64
  cb_alloc :: int
  cb_minsize :: int
  cb_maxsize :: int
  cb_size :: int
  cb_used :: int
  cb_overwrite :: int
  cb_got_wrap :: bool
  cb_in :: int
  cb_out :: int
  cb_rep :: int
  cb_under :: u64
  cb_data :: "u8 list"
  cb_over :: u64

text \<open>An index expression reduced modulo \<open>size + 1\<close>, and one byte of the data.\<close>

definition ring :: "cbuf \<Rightarrow> int \<Rightarrow> int option" where
  "ring cb x = do { x \<leftarrow> i32 x; c_rem x (cb_size cb + 1) }"

definition data_at :: "cbuf \<Rightarrow> int \<Rightarrow> u8 option" where
  "data_at cb i = (if 0 \<le> i then mem_get (cb_data cb) (nat i) else None)"

text \<open>The expression for the number of replayable bytes, which occurs in five functions.\<close>

definition nrepl :: "cbuf \<Rightarrow> int option" where
  "nrepl cb = ring cb (cb_out cb - cb_rep cb + (cb_size cb + 1))"

text \<open>\<open>_cbuf_is_valid\<close> aborts unless every invariant holds.\<close>

definition cbuf_is_valid :: "cbuf \<Rightarrow> unit option" where
  "cbuf_is_valid cb = do {
     xassert (cb_magic cb = CBUF_MAGIC);
     xassert (cb_under cb = cb_magic cb);
     xassert (cb_over cb = cb_magic cb);
     xassert (cb_alloc cb > 0);
     xassert (cb_alloc cb > cb_size cb);
     xassert (cb_size cb > 0);
     xassert (cb_size cb \<ge> cb_minsize cb);
     xassert (cb_size cb \<le> cb_maxsize cb);
     xassert (cb_minsize cb > 0);
     xassert (cb_maxsize cb > 0);
     xassert (cb_used cb \<ge> 0);
     xassert (cb_used cb \<le> cb_size cb);
     xassert (cb_overwrite cb = CBUF_NO_DROP \<or> cb_overwrite cb = CBUF_WRAP_ONCE
              \<or> cb_overwrite cb = CBUF_WRAP_MANY);
     xassert (cb_got_wrap cb \<or> cb_rep cb = 0);
     xassert (cb_in cb \<ge> 0);
     xassert (cb_in cb \<le> cb_size cb);
     xassert (cb_out cb \<ge> 0);
     xassert (cb_out cb \<le> cb_size cb);
     xassert (cb_rep cb \<ge> 0);
     xassert (cb_rep cb \<le> cb_size cb);
     (if cb_in cb \<ge> cb_out cb then xassert (cb_rep cb > cb_in cb \<or> cb_rep cb \<le> cb_out cb)
      else xassert (cb_rep cb > cb_in cb \<and> cb_rep cb \<le> cb_out cb));
     nfree \<leftarrow> ring cb (cb_out cb - cb_in cb - 1 + (cb_size cb + 1));
     xassert (cb_size cb - cb_used cb = nfree) }"

subsection \<open>Creation and settings\<close>

text \<open>The inner option is the returned pointer, \<open>None\<close> for \<open>NULL\<close> with \<open>EINVAL\<close>.\<close>

definition cbuf_create :: "int \<Rightarrow> int \<Rightarrow> cbuf option option" where
  "cbuf_create minsize maxsize =
     (if minsize \<le> 0 then Some None
      else do {
        alloc \<leftarrow> i32 (minsize + 1 + 2 * CBUF_MAGIC_LEN);
        let cb = \<lparr> cb_magic = CBUF_MAGIC, cb_alloc = alloc, cb_minsize = minsize,
                   cb_maxsize = (if maxsize > minsize then maxsize else minsize), cb_size = minsize,
                   cb_used = 0, cb_overwrite = CBUF_WRAP_MANY, cb_got_wrap = False,
                   cb_in = 0, cb_out = 0, cb_rep = 0, cb_under = CBUF_MAGIC,
                   cb_data = replicate (nat (minsize + 1)) 0, cb_over = CBUF_MAGIC \<rparr>;
        cbuf_is_valid cb;
        Some (Some cb) })"

text \<open>The magic cookies are overwritten before the block is freed.\<close>

definition cbuf_destroy :: "cbuf \<Rightarrow> unit option" where
  "cbuf_destroy cb = cbuf_is_valid cb"

definition cbuf_flush :: "cbuf \<Rightarrow> cbuf option" where
  "cbuf_flush cb = do {
     cbuf_is_valid cb;
     let cb = cb\<lparr> cb_used := 0, cb_got_wrap := False, cb_in := 0, cb_out := 0, cb_rep := 0 \<rparr>;
     cbuf_is_valid cb;
     Some cb }"

text \<open>\<open>cbuf_size\<close> (the name of the record's field is \<open>cb_size\<close>).\<close>

definition cbuf_size :: "cbuf \<Rightarrow> int option" where
  "cbuf_size cb = do { cbuf_is_valid cb; Some (cb_maxsize cb) }"

definition cbuf_free :: "cbuf \<Rightarrow> int option" where
  "cbuf_free cb = do { cbuf_is_valid cb; Some (cb_maxsize cb - cb_used cb) }"

definition cbuf_used :: "cbuf \<Rightarrow> int option" where
  "cbuf_used cb = do { cbuf_is_valid cb; Some (cb_used cb) }"

definition cbuf_reused :: "cbuf \<Rightarrow> int option" where
  "cbuf_reused cb = do { cbuf_is_valid cb; nrepl cb }"

definition cbuf_is_empty :: "cbuf \<Rightarrow> bool option" where
  "cbuf_is_empty cb = do { cbuf_is_valid cb; Some (cb_used cb = 0) }"

text \<open>\<open>cbuf_opt_get\<close> stores the option through \<open>value\<close>, which may be \<open>NULL\<close>.\<close>

definition cbuf_opt_get :: "cbuf \<Rightarrow> int \<Rightarrow> int option \<Rightarrow> (int \<times> int option) option" where
  "cbuf_opt_get cb name val =
     (case val of
        None \<Rightarrow> Some (-1, None)
      | Some v \<Rightarrow> do {
          cbuf_is_valid cb;
          if name = CBUF_OPT_OVERWRITE then Some (0, Some (cb_overwrite cb)) else Some (-1, Some v) })"

definition cbuf_opt_set :: "cbuf \<Rightarrow> int \<Rightarrow> int \<Rightarrow> (int \<times> cbuf) option" where
  "cbuf_opt_set cb name val = do {
     cbuf_is_valid cb;
     let (rc, cb) =
       (if name = CBUF_OPT_OVERWRITE
        then (if val = CBUF_NO_DROP \<or> val = CBUF_WRAP_ONCE \<or> val = CBUF_WRAP_MANY
              then (0, cb\<lparr> cb_overwrite := val \<rparr>) else (-1, cb))
        else (-1, cb));
     cbuf_is_valid cb;
     Some (rc, cb) }"

subsection \<open>Line searches\<close>

text \<open>The newline character.\<close>

definition NL :: u8 where "NL = 10"

text \<open>The loop of \<open>cbuf_find_unread_line\<close>: the final \<open>m\<close>, \<open>l\<close> and \<open>lines\<close>.\<close>

partial_function (option) unread_loop ::
    "cbuf \<Rightarrow> int \<Rightarrow> int \<Rightarrow> int \<Rightarrow> int \<Rightarrow> int \<Rightarrow> int \<Rightarrow> (int \<times> int \<times> int) option" where
  "unread_loop cb i n m l chars lines =
     (if i \<noteq> cb_in cb then do {
        let n = n + 1;
        let chars = (if chars > 0 then chars - 1 else chars);
        c \<leftarrow> data_at cb i;
        let lines = (if c = NL \<and> lines > 0 then lines - 1 else lines);
        let m = (if c = NL then n else m);
        let l = (if c = NL then l + 1 else l);
        if chars = 0 \<or> lines = 0 then Some (m, l, lines)
        else do {
          i \<leftarrow> ring cb (i + 1);
          unread_loop cb i n m l chars lines } }
      else Some (m, l, lines))"

text \<open>The returned byte count and the new value of \<open>*nlines\<close>.\<close>

definition cbuf_find_unread_line :: "cbuf \<Rightarrow> int \<Rightarrow> int \<Rightarrow> (int \<times> int) option" where
  "cbuf_find_unread_line cb chars lines = do {
     xassert (lines \<ge> -1);
     if lines = 0 \<or> lines \<le> -1 \<and> chars \<le> 0 then Some (0, 0)
     else if cb_used cb = 0 then Some (0, 0)
     else do {
       let chars = (if lines > 0 then -1 else chars);
       (m, l, lines) \<leftarrow> unread_loop cb (cb_out cb) 0 0 0 chars lines;
       if lines > 0 then Some (0, 0) else Some (m, l) } }"

text \<open>The loop of \<open>cbuf_find_replay_line\<close>: the final \<open>n\<close>, \<open>m\<close>, \<open>l\<close>, \<open>chars\<close> and \<open>lines\<close>.\<close>

partial_function (option) replay_loop ::
    "cbuf \<Rightarrow> int \<Rightarrow> int \<Rightarrow> int \<Rightarrow> int \<Rightarrow> int \<Rightarrow> int \<Rightarrow> (int \<times> int \<times> int \<times> int \<times> int) option" where
  "replay_loop cb i n m l chars lines =
     (if i \<noteq> cb_rep cb then do {
        i \<leftarrow> ring cb (i + cb_size cb);
        let n = n + 1;
        let chars = (if chars > 0 then chars - 1 else chars);
        c \<leftarrow> data_at cb i;
        let lines = (if c = NL \<and> lines > 0 then lines - 1 else lines);
        let m = (if c = NL then n - 1 else m);
        let l = (if c = NL then l + 1 else l);
        if chars = 0 \<or> lines = 0 then Some (n, m, l, chars, lines)
        else replay_loop cb i n m l chars lines }
      else Some (n, m, l, chars, lines))"

text \<open>The returned byte count, the new value of \<open>*nlines\<close> and that of \<open>*nl\<close>.\<close>

definition cbuf_find_replay_line :: "cbuf \<Rightarrow> int \<Rightarrow> int \<Rightarrow> (int \<times> int \<times> int) option" where
  "cbuf_find_replay_line cb chars lines = do {
     xassert (lines \<ge> -1);
     if lines = 0 \<or> lines \<le> -1 \<and> chars \<le> 0 then Some (0, 0, 0)
     else if cb_out cb = cb_rep cb then Some (0, 0, 0)
     else do {
       chars \<leftarrow> (if lines > 0 then Some (-1) else i32 (chars + 1));
       j \<leftarrow> ring cb (cb_out cb + cb_size cb);
       c \<leftarrow> data_at cb j;
       lines \<leftarrow> (if c = NL \<and> lines > 0 then i32 (lines + 1) else Some lines);
       let nl = (if c \<noteq> NL then 1 else 0);
       let chars = (if c \<noteq> NL then chars - 1 else chars);
       let l = (if c \<noteq> NL then 0 else -1);
       (n, m, l, chars, lines) \<leftarrow> replay_loop cb (cb_out cb) 0 0 l chars lines;
       let first = (\<not> cb_got_wrap cb \<and> (chars > 0 \<or> lines > 0));
       let lines = (if first \<and> lines > 0 then lines - 1 else lines);
       let m = (if first then n else m);
       let l = (if first then l + 1 else l);
       if lines > 0 then Some (0, 0, nl) else Some (m, l, nl) } }"

subsection \<open>Moving bytes\<close>

text \<open>
  The I/O functions that the copying loops call. A sink receives the bytes at the read index; its
  result is the returned count and the sink moved forward. A source is asked for \<open>n\<close> bytes; its
  result is the returned count, the bytes stored at the write index and the source moved forward.

  Memory is a caller's buffer with the offset of the pointer, or the bytes left at the pointer. For a
  file descriptor the system calls are parameters: \<open>write\<close> gets the bytes and \<open>read\<close> the count, both
  the state of the world; they return the count, whether \<open>errno\<close> is \<open>EINTR\<close>, and the new state.
\<close>

type_synonym 'd putf = "u8 list \<Rightarrow> 'd \<Rightarrow> (int \<times> 'd) option"
type_synonym 's getf = "int \<Rightarrow> 's \<Rightarrow> (int \<times> u8 list \<times> 's) option"
type_synonym 'w write_call = "u8 list \<Rightarrow> 'w \<Rightarrow> int \<times> bool \<times> 'w"
type_synonym 'w read_call = "int \<Rightarrow> 'w \<Rightarrow> int \<times> bool \<times> u8 list \<times> 'w"

partial_function (option) get_fd_loop :: "'w read_call \<Rightarrow> int \<Rightarrow> 'w \<Rightarrow> (int \<times> u8 list \<times> 'w) option" where
  "get_fd_loop rd len w =
     (let (n, eintr, bs, w') = rd len w
      in if n < 0 \<and> eintr then get_fd_loop rd len w' else Some (n, bs, w'))"

definition cbuf_get_fd :: "'w read_call \<Rightarrow> 'w getf" where
  "cbuf_get_fd rd len w = do { xassert (len > 0); get_fd_loop rd len w }"

definition cbuf_get_mem :: "u8 list getf" where
  "cbuf_get_mem len src = do {
     xassert (len > 0);
     bs \<leftarrow> mem_sub src 0 len;
     Some (len, bs, drop (nat len) src) }"

partial_function (option) put_fd_loop :: "'w write_call \<Rightarrow> u8 list \<Rightarrow> 'w \<Rightarrow> (int \<times> 'w) option" where
  "put_fd_loop wr bs w =
     (let (n, eintr, w') = wr bs w
      in if n < 0 \<and> eintr then put_fd_loop wr bs w' else Some (n, w'))"

definition cbuf_put_fd :: "'w write_call \<Rightarrow> 'w putf" where
  "cbuf_put_fd wr bs w = do { xassert (int (length bs) > 0); put_fd_loop wr bs w }"

definition cbuf_put_mem :: "(u8 list \<times> int) putf" where
  "cbuf_put_mem bs = (\<lambda>(buf, pos). do {
     xassert (int (length bs) > 0);
     buf \<leftarrow> mem_put buf pos bs;
     Some (int (length bs), buf, pos + int (length bs)) })"

text \<open>\<open>cbuf_shrink\<close> only checks the buffer; shrinking is not implemented in the source.\<close>

definition cbuf_shrink :: "cbuf \<Rightarrow> (int \<times> cbuf) option" where
  "cbuf_shrink cb = do {
     cbuf_is_valid cb;
     if cb_size cb = cb_minsize cb then Some (0, cb)
     else if cb_size cb - cb_used cb \<le> CBUF_CHUNK then Some (0, cb)
     else do { cbuf_is_valid cb; Some (0, cb) } }"

text \<open>The last step of \<open>cbuf_grow\<close>: a log that wraps around the old buffer has to wrap around the new one.\<close>

definition move_replay :: "cbuf \<Rightarrow> int \<Rightarrow> cbuf option" where
  "move_replay cb size_old =
     (if cb_rep cb > cb_in cb then do {
        let n = size_old + 1 - cb_rep cb;
        let m = cb_size cb + 1 - n;
        bs \<leftarrow> mem_sub (cb_data cb) (cb_rep cb) n;
        data \<leftarrow> mem_put (cb_data cb) m bs;
        let out = (if cb_out cb \<ge> cb_rep cb then cb_out cb + (m - cb_rep cb) else cb_out cb);
        Some (cb\<lparr> cb_data := data, cb_out := out, cb_rep := m \<rparr>) }
      else Some cb)"

text \<open>
  \<open>cbuf_grow\<close>. The reallocated block keeps its bytes and is zeroed behind them, so the data region
  takes in the old overflow cookie; that cookie is written again behind the new region.
\<close>

definition cbuf_grow :: "cbuf \<Rightarrow> int \<Rightarrow> (int \<times> cbuf) option" where
  "cbuf_grow cb n = do {
     xassert (n > 0);
     if cb_size cb = cb_maxsize cb then Some (0, cb)
     else do {
       let size_old = cb_size cb;
       let size_meta = cb_alloc cb - cb_size cb;
       xassert (size_meta > 0);
       m \<leftarrow> i32 (cb_alloc cb + n);
       r \<leftarrow> c_rem m CBUF_CHUNK;
       m \<leftarrow> i32 (m + (CBUF_CHUNK - r));
       lim \<leftarrow> i32 (cb_maxsize cb + size_meta);
       let m = min m lim;
       xassert (m > cb_alloc cb);
       let data = take (nat (m - size_meta + 1))
                    (cb_data cb @ le_bytes (cb_over cb) @ replicate (nat (m - cb_alloc cb)) 0);
       let cb = cb\<lparr> cb_alloc := m, cb_size := m - size_meta, cb_over := cb_magic cb, cb_data := data \<rparr>;
       cb \<leftarrow> move_replay cb size_old;
       cbuf_is_valid cb;
       Some (cb_size cb - size_old, cb) } }"

definition cbuf_dropper :: "cbuf \<Rightarrow> int \<Rightarrow> (int \<times> cbuf) option" where
  "cbuf_dropper cb len = do {
     xassert (len > 0);
     xassert (len \<le> cb_used cb);
     out \<leftarrow> ring cb (cb_out cb + len);
     let cb = cb\<lparr> cb_used := cb_used cb - len, cb_out := out \<rparr>;
     (_, cb) \<leftarrow> (if cb_size cb - cb_used cb > CBUF_CHUNK \<and> cb_size cb > cb_minsize cb
                 then cbuf_shrink cb else Some (0, cb));
     Some (len, cb) }"

text \<open>The copying loop of \<open>cbuf_reader\<close> and \<open>cbuf_replayer\<close>: the final \<open>nleft\<close> and \<open>m\<close> and the sink.\<close>

partial_function (option) put_loop :: "'d putf \<Rightarrow> cbuf \<Rightarrow> int \<Rightarrow> int \<Rightarrow> int \<Rightarrow> 'd \<Rightarrow> (int \<times> int \<times> 'd) option" where
  "put_loop putf src i_src nleft m dst =
     (if nleft > 0 then do {
        let n = min nleft (cb_size src + 1 - i_src);
        bs \<leftarrow> mem_sub (cb_data src) i_src n;
        (m, dst) \<leftarrow> putf bs dst;
        i_src \<leftarrow> (if m > 0 then ring src (i_src + m) else Some i_src);
        let nleft = (if m > 0 then nleft - m else nleft);
        if n \<noteq> m then Some (nleft, m, dst) else put_loop putf src i_src nleft m dst }
      else Some (nleft, m, dst))"

definition cbuf_reader :: "cbuf \<Rightarrow> int \<Rightarrow> 'd putf \<Rightarrow> 'd \<Rightarrow> (int \<times> 'd) option" where
  "cbuf_reader src len putf dst = do {
     xassert (len > 0);
     let len = min len (cb_used src);
     if len = 0 then Some (0, dst)
     else do {
       (nleft, m, dst) \<leftarrow> put_loop putf src (cb_out src) len 0 dst;
       let n = len - nleft;
       xassert (n \<ge> 0 \<and> n \<le> len);
       Some (if n = 0 then m else n, dst) } }"

definition cbuf_replayer :: "cbuf \<Rightarrow> int \<Rightarrow> 'd putf \<Rightarrow> 'd \<Rightarrow> (int \<times> 'd) option" where
  "cbuf_replayer src len putf dst = do {
     xassert (len > 0);
     n \<leftarrow> nrepl src;
     let len = min len n;
     if len = 0 then Some (0, dst)
     else do {
       i_src \<leftarrow> ring src (cb_out src - len + (cb_size src + 1));
       (nleft, m, dst) \<leftarrow> put_loop putf src i_src len 0 dst;
       let n = len - nleft;
       xassert (n \<ge> 0 \<and> n \<le> len);
       Some (if n = 0 then m else n, dst) } }"
text \<open>The copying loop of \<open>cbuf_writer\<close>: the final \<open>i_dst\<close>, \<open>nleft\<close>, \<open>m\<close>, the buffer and the source.\<close>

partial_function (option) get_loop ::
    "'s getf \<Rightarrow> cbuf \<Rightarrow> int \<Rightarrow> int \<Rightarrow> int \<Rightarrow> 's \<Rightarrow> (int \<times> int \<times> int \<times> cbuf \<times> 's) option" where
  "get_loop getf dst i_dst nleft m src =
     (if nleft > 0 then do {
        let n = min nleft (cb_size dst + 1 - i_dst);
        (m, bs, src) \<leftarrow> getf n src;
        data \<leftarrow> mem_put (cb_data dst) i_dst bs;
        let dst = dst\<lparr> cb_data := data \<rparr>;
        i_dst \<leftarrow> (if m > 0 then ring dst (i_dst + m) else Some i_dst);
        let nleft = (if m > 0 then nleft - m else nleft);
        if n \<noteq> m then Some (i_dst, nleft, m, dst, src) else get_loop getf dst i_dst nleft m src }
      else Some (i_dst, nleft, m, dst, src))"

text \<open>The first step of the writer, the copier and \<open>cbuf_write_line\<close>: grow when \<open>len\<close> bytes do not fit.\<close>

definition make_room :: "cbuf \<Rightarrow> int \<Rightarrow> (int \<times> cbuf) option" where
  "make_room dst len = do {
     let nfree = cb_size dst - cb_used dst;
     if len > nfree \<and> cb_size dst < cb_maxsize dst
     then do { (g, dst) \<leftarrow> cbuf_grow dst (len - nfree); Some (nfree + g, dst) }
     else Some (nfree, dst) }"

text \<open>The last step of the writer and the copier: \<open>n\<close> bytes have been stored up to the index \<open>i_dst\<close>.\<close>

definition wrote :: "cbuf \<Rightarrow> int \<Rightarrow> int \<Rightarrow> int \<Rightarrow> cbuf option" where
  "wrote dst nfree n i_dst = do {
     nr \<leftarrow> nrepl dst;
     u \<leftarrow> i32 (cb_used dst + n);
     let dst = dst\<lparr> cb_used := min u (cb_size dst) \<rparr>;
     j \<leftarrow> ring dst (cb_in dst + n);
     xassert (i_dst = j);
     let dst = dst\<lparr> cb_in := i_dst \<rparr>;
     dst \<leftarrow> (if n > nfree - nr
             then do { r \<leftarrow> ring dst (cb_in dst + 1); Some (dst\<lparr> cb_got_wrap := True, cb_rep := r \<rparr>) }
             else Some dst);
     Some (if n > nfree then dst\<lparr> cb_out := cb_rep dst \<rparr> else dst) }"

text \<open>
  The result of \<open>cbuf_writer\<close> is the returned count, the value stored in \<open>*ndropped\<close> (\<open>None\<close> when it
  returns without storing one), the buffer and the source.
\<close>

definition cbuf_writer :: "cbuf \<Rightarrow> int \<Rightarrow> 's getf \<Rightarrow> 's \<Rightarrow> (int \<times> int option \<times> cbuf \<times> 's) option" where
  "cbuf_writer dst len getf src = do {
     xassert (len > 0);
     (nfree, dst) \<leftarrow> make_room dst len;
     let len = (if cb_overwrite dst = CBUF_NO_DROP then min len (cb_size dst - cb_used dst)
                else if cb_overwrite dst = CBUF_WRAP_ONCE then min len (cb_size dst) else len);
     if cb_overwrite dst = CBUF_NO_DROP \<and> len = 0 then Some (-1, None, dst, src)
     else do {
       (i_dst, nleft, m, dst, src) \<leftarrow> get_loop getf dst (cb_in dst) len 0 src;
       let n = len - nleft;
       xassert (n \<ge> 0 \<and> n \<le> len);
       if n = 0 then Some (m, None, dst, src)
       else do {
         dst \<leftarrow> wrote dst nfree n i_dst;
         Some (n, Some (max 0 (n - nfree)), dst, src) } } }"

text \<open>The copying loop of \<open>cbuf_copier\<close>: the final \<open>i_dst\<close> and the destination.\<close>

partial_function (option) copy_loop :: "cbuf \<Rightarrow> cbuf \<Rightarrow> int \<Rightarrow> int \<Rightarrow> int \<Rightarrow> (int \<times> cbuf) option" where
  "copy_loop src dst i_src i_dst nleft =
     (if nleft > 0 then do {
        let n = min (min (cb_size src + 1 - i_src) (cb_size dst + 1 - i_dst)) nleft;
        bs \<leftarrow> mem_sub (cb_data src) i_src n;
        data \<leftarrow> mem_put (cb_data dst) i_dst bs;
        let dst = dst\<lparr> cb_data := data \<rparr>;
        i_src \<leftarrow> ring src (i_src + n);
        i_dst \<leftarrow> ring dst (i_dst + n);
        copy_loop src dst i_src i_dst (nleft - n) }
      else Some (i_dst, dst))"

definition cbuf_copier :: "cbuf \<Rightarrow> cbuf \<Rightarrow> int \<Rightarrow> (int \<times> int option \<times> cbuf) option" where
  "cbuf_copier src dst len = do {
     xassert (len > 0);
     let len = min len (cb_used src);
     if len = 0 then Some (0, None, dst)
     else do {
       (nfree, dst) \<leftarrow> make_room dst len;
       let len = (if cb_overwrite dst = CBUF_NO_DROP then min len (cb_size dst - cb_used dst)
                  else if cb_overwrite dst = CBUF_WRAP_ONCE then min len (cb_size dst) else len);
       if cb_overwrite dst = CBUF_NO_DROP \<and> len = 0 then Some (-1, None, dst)
       else do {
         let ndropped = max 0 (len - cb_size dst + cb_used dst);
         let ncopy = min len (cb_size dst);
         i_src \<leftarrow> (if len > cb_size dst then ring src (cb_out src + (len - cb_size dst)) else Some (cb_out src));
         (i_dst, dst) \<leftarrow> copy_loop src dst i_src (cb_in dst) ncopy;
         dst \<leftarrow> (if ncopy > 0 then wrote dst nfree ncopy i_dst else Some dst);
         Some (len, Some ndropped, dst) } } }"

subsection \<open>Public operations on memory\<close>

definition cbuf_lines_used :: "cbuf \<Rightarrow> int option" where
  "cbuf_lines_used cb = do {
     cbuf_is_valid cb;
     (_, lines) \<leftarrow> cbuf_find_unread_line cb (cb_size cb) (-1);
     Some lines }"

definition cbuf_lines_reused :: "cbuf \<Rightarrow> int option" where
  "cbuf_lines_reused cb = do {
     cbuf_is_valid cb;
     (_, lines, _) \<leftarrow> cbuf_find_replay_line cb (cb_size cb) (-1);
     Some lines }"

definition cbuf_drop :: "cbuf \<Rightarrow> int \<Rightarrow> (int \<times> cbuf) option" where
  "cbuf_drop src len =
     (if len < -1 then Some (-1, src)
      else if len = 0 then Some (0, src)
      else do {
        cbuf_is_valid src;
        let len = (if len = -1 then cb_used src else min len (cb_used src));
        (_, src) \<leftarrow> (if len > 0 then cbuf_dropper src len else Some (0, src));
        cbuf_is_valid src;
        Some (len, src) })"

text \<open>
  The destination of \<open>cbuf_peek\<close>, \<open>cbuf_read\<close> and \<open>cbuf_replay\<close> is a caller's buffer, \<open>None\<close> for
  \<open>NULL\<close>; the result has the returned count and the buffer's new contents.
\<close>

definition cbuf_peek :: "cbuf \<Rightarrow> u8 list option \<Rightarrow> int \<Rightarrow> (int \<times> u8 list option) option" where
  "cbuf_peek src dstbuf len =
     (case dstbuf of
        None \<Rightarrow> Some (-1, dstbuf)
      | Some buf \<Rightarrow>
          if len < 0 then Some (-1, dstbuf)
          else if len = 0 then Some (0, dstbuf)
          else do {
            cbuf_is_valid src;
            (n, buf, _) \<leftarrow> cbuf_reader src len cbuf_put_mem (buf, 0);
            cbuf_is_valid src;
            Some (n, Some buf) })"

definition cbuf_read :: "cbuf \<Rightarrow> u8 list option \<Rightarrow> int \<Rightarrow> (int \<times> u8 list option \<times> cbuf) option" where
  "cbuf_read src dstbuf len =
     (case dstbuf of
        None \<Rightarrow> Some (-1, dstbuf, src)
      | Some buf \<Rightarrow>
          if len < 0 then Some (-1, dstbuf, src)
          else if len = 0 then Some (0, dstbuf, src)
          else do {
            cbuf_is_valid src;
            (n, buf, _) \<leftarrow> cbuf_reader src len cbuf_put_mem (buf, 0);
            (_, src) \<leftarrow> (if n > 0 then cbuf_dropper src n else Some (0, src));
            cbuf_is_valid src;
            Some (n, Some buf, src) })"

definition cbuf_replay :: "cbuf \<Rightarrow> u8 list option \<Rightarrow> int \<Rightarrow> (int \<times> u8 list option) option" where
  "cbuf_replay src dstbuf len =
     (case dstbuf of
        None \<Rightarrow> Some (-1, dstbuf)
      | Some buf \<Rightarrow>
          if len < 0 then Some (-1, dstbuf)
          else if len = 0 then Some (0, dstbuf)
          else do {
            cbuf_is_valid src;
            (n, buf, _) \<leftarrow> cbuf_replayer src len cbuf_put_mem (buf, 0);
            cbuf_is_valid src;
            Some (n, Some buf) })"

text \<open>The update of \<open>cbuf_rewind\<close> and \<open>cbuf_rewind_line\<close>.\<close>

definition unread_again :: "cbuf \<Rightarrow> int \<Rightarrow> cbuf option" where
  "unread_again src len = do {
     u \<leftarrow> i32 (cb_used src + len);
     out \<leftarrow> ring src (cb_out src - len + (cb_size src + 1));
     Some (src\<lparr> cb_used := u, cb_out := out \<rparr>) }"

definition cbuf_rewind :: "cbuf \<Rightarrow> int \<Rightarrow> (int \<times> cbuf) option" where
  "cbuf_rewind src len =
     (if len < -1 then Some (-1, src)
      else if len = 0 then Some (0, src)
      else do {
        cbuf_is_valid src;
        reused \<leftarrow> nrepl src;
        let len = (if len = -1 then reused else min len reused);
        src \<leftarrow> (if len > 0 then unread_again src len else Some src);
        cbuf_is_valid src;
        Some (len, src) })"

text \<open>The result of the write functions is the returned count, \<open>*ndropped\<close> and the buffer.\<close>

definition cbuf_write :: "cbuf \<Rightarrow> u8 list option \<Rightarrow> int \<Rightarrow> (int \<times> int \<times> cbuf) option" where
  "cbuf_write dst srcbuf len =
     (case srcbuf of
        None \<Rightarrow> Some (-1, 0, dst)
      | Some s \<Rightarrow>
          if len < 0 then Some (-1, 0, dst)
          else if len = 0 then Some (0, 0, dst)
          else do {
            cbuf_is_valid dst;
            (n, d, dst, _) \<leftarrow> cbuf_writer dst len cbuf_get_mem s;
            cbuf_is_valid dst;
            Some (n, case_option 0 id d, dst) })"

subsection \<open>Public operations on lines\<close>

definition cbuf_drop_line :: "cbuf \<Rightarrow> int \<Rightarrow> int \<Rightarrow> (int \<times> cbuf) option" where
  "cbuf_drop_line src len lines =
     (if len < 0 \<or> lines < -1 then Some (-1, src)
      else if lines = 0 then Some (0, src)
      else do {
        cbuf_is_valid src;
        (n, _) \<leftarrow> cbuf_find_unread_line src len lines;
        (_, src) \<leftarrow> (if n > 0 then cbuf_dropper src n else Some (0, src));
        cbuf_is_valid src;
        Some (n, src) })"

text \<open>The copy in \<open>cbuf_peek_line\<close> and \<open>cbuf_read_line\<close>: at most \<open>len - 1\<close> of the line's \<open>n\<close> bytes and a \<open>NUL\<close>.\<close>

definition line_copy :: "cbuf \<Rightarrow> u8 list \<Rightarrow> int \<Rightarrow> int \<Rightarrow> u8 list option" where
  "line_copy src buf len n =
     (if len > 0 then do {
        let m = min n (len - 1);
        buf \<leftarrow> (if m > 0 then do {
                  (l, buf, _) \<leftarrow> cbuf_reader src m cbuf_put_mem (buf, 0);
                  xassert (l = 0 \<or> l = m);
                  Some buf }
                else Some buf);
        xassert (m < len);
        mem_put buf m [0] }
      else Some buf)"

definition cbuf_peek_line :: "cbuf \<Rightarrow> u8 list option \<Rightarrow> int \<Rightarrow> int \<Rightarrow> (int \<times> u8 list option) option" where
  "cbuf_peek_line src dstbuf len lines =
     (case dstbuf of
        None \<Rightarrow> Some (-1, dstbuf)
      | Some buf \<Rightarrow>
          if len < 0 \<or> lines < -1 then Some (-1, dstbuf)
          else if lines = 0 then Some (0, dstbuf)
          else do {
            cbuf_is_valid src;
            (n, _) \<leftarrow> cbuf_find_unread_line src (len - 1) lines;
            buf \<leftarrow> (if n > 0 then line_copy src buf len n else Some buf);
            cbuf_is_valid src;
            Some (n, Some buf) })"

definition cbuf_read_line :: "cbuf \<Rightarrow> u8 list option \<Rightarrow> int \<Rightarrow> int \<Rightarrow> (int \<times> u8 list option \<times> cbuf) option" where
  "cbuf_read_line src dstbuf len lines =
     (case dstbuf of
        None \<Rightarrow> Some (-1, dstbuf, src)
      | Some buf \<Rightarrow>
          if len < 0 \<or> lines < -1 then Some (-1, dstbuf, src)
          else if lines = 0 then Some (0, dstbuf, src)
          else do {
            cbuf_is_valid src;
            (n, _) \<leftarrow> cbuf_find_unread_line src (len - 1) lines;
            (buf, src) \<leftarrow> (if n > 0 then do {
                             buf \<leftarrow> line_copy src buf len n;
                             (_, src) \<leftarrow> cbuf_dropper src n;
                             Some (buf, src) }
                           else Some (buf, src));
            cbuf_is_valid src;
            Some (n, Some buf, src) })"

definition cbuf_replay_line :: "cbuf \<Rightarrow> u8 list option \<Rightarrow> int \<Rightarrow> int \<Rightarrow> (int \<times> u8 list option) option" where
  "cbuf_replay_line src dstbuf len lines =
     (case dstbuf of
        None \<Rightarrow> Some (-1, dstbuf)
      | Some buf \<Rightarrow>
          if len < 0 \<or> lines < -1 then Some (-1, dstbuf)
          else if lines = 0 then Some (0, dstbuf)
          else do {
            cbuf_is_valid src;
            (n, _, nl) \<leftarrow> cbuf_find_replay_line src (len - 1) lines;
            (n, buf) \<leftarrow> (if n > 0 \<and> len > 0 then do {
                xassert (nl = 0 \<or> nl = 1);
                let m = max (min n (len - 1 - nl)) 0;
                buf \<leftarrow> (if m > 0 then do {
                          (l, buf, _) \<leftarrow> cbuf_replayer src m cbuf_put_mem (buf, 0);
                          xassert (l = 0 \<or> l = m);
                          Some buf }
                        else Some buf);
                (buf, m) \<leftarrow> (if nl \<noteq> 0 \<and> len > 1
                             then do { buf \<leftarrow> mem_put buf m [NL]; Some (buf, m + 1) } else Some (buf, m));
                xassert (m < len);
                buf \<leftarrow> mem_put buf m [0];
                Some (n + nl, buf) }
              else Some (n, buf));
            cbuf_is_valid src;
            Some (n, Some buf) })"

definition cbuf_rewind_line :: "cbuf \<Rightarrow> int \<Rightarrow> int \<Rightarrow> (int \<times> cbuf) option" where
  "cbuf_rewind_line src len lines =
     (if len < 0 \<or> lines < -1 then Some (-1, src)
      else if lines = 0 then Some (0, src)
      else do {
        cbuf_is_valid src;
        (n, _) \<leftarrow> cbuf_find_replay_line src len lines;
        src \<leftarrow> (if n > 0 then unread_again src n else Some src);
        cbuf_is_valid src;
        Some (n, src) })"

text \<open>The part of \<open>cbuf_write_line\<close> that stores the string and its newline: \<open>ndrop\<close> and the buffer.\<close>

definition put_line :: "cbuf \<Rightarrow> u8 list \<Rightarrow> int \<Rightarrow> int \<Rightarrow> (int \<times> cbuf) option" where
  "put_line dst srcbuf ncopy len = do {
     let ndrop = (if len > cb_size dst then len - cb_size dst else 0);
     let ncopy = ncopy - ndrop;
     let psrc = drop (nat ndrop) srcbuf;
     (ndrop, dst) \<leftarrow> (if ncopy > 0 then do {
         (n, d, dst, _) \<leftarrow> cbuf_writer dst ncopy cbuf_get_mem psrc;
         xassert (n = 0 \<or> n = ncopy);
         d \<leftarrow> d;
         Some (ndrop + d, dst) }
       else Some (ndrop, dst));
     c \<leftarrow> mem_get srcbuf (nat (len - 1));
     if c \<noteq> NL then do {
       (n, d, dst, _) \<leftarrow> cbuf_writer dst 1 cbuf_get_mem [NL, 0];
       xassert (n = 1);
       d \<leftarrow> d;
       Some (ndrop + d, dst) }
     else Some (ndrop, dst) }"

text \<open>\<open>cbuf_write_line\<close> gets the memory at \<open>srcbuf\<close>, which holds a string.\<close>

definition cbuf_write_line :: "cbuf \<Rightarrow> u8 list option \<Rightarrow> (int \<times> int \<times> cbuf) option" where
  "cbuf_write_line dst srcbuf =
     (case srcbuf of
        None \<Rightarrow> Some (-1, 0, dst)
      | Some s \<Rightarrow> do {
          ncopy \<leftarrow> strlen s;
          c \<leftarrow> (if ncopy = 0 then Some 0 else mem_get s (nat (ncopy - 1)));
          len \<leftarrow> (if c \<noteq> NL then i32 (ncopy + 1) else Some ncopy);
          cbuf_is_valid dst;
          (_, dst) \<leftarrow> make_room dst len;
          let len = (if cb_overwrite dst = CBUF_NO_DROP
                     then (if len > cb_size dst - cb_used dst then -1 else len)
                     else if cb_overwrite dst = CBUF_WRAP_ONCE
                     then (if len > cb_size dst then -1 else len)
                     else len);
          (ndrop, dst) \<leftarrow> (if len > 0 then put_line dst s ncopy len else Some (0, dst));
          cbuf_is_valid dst;
          Some (len, ndrop, dst) })"

subsection \<open>Public operations on file descriptors\<close>

text \<open>The result has the returned count and the state of the world.\<close>

definition cbuf_peek_to_fd :: "'w write_call \<Rightarrow> cbuf \<Rightarrow> int \<Rightarrow> int \<Rightarrow> 'w \<Rightarrow> (int \<times> 'w) option" where
  "cbuf_peek_to_fd wr src dstfd len w =
     (if dstfd < 0 \<or> len < -1 then Some (-1, w)
      else do {
        cbuf_is_valid src;
        let len = (if len = -1 then cb_used src else len);
        (n, w) \<leftarrow> (if len > 0 then cbuf_reader src len (cbuf_put_fd wr) w else Some (0, w));
        cbuf_is_valid src;
        Some (n, w) })"

definition cbuf_read_to_fd :: "'w write_call \<Rightarrow> cbuf \<Rightarrow> int \<Rightarrow> int \<Rightarrow> 'w \<Rightarrow> (int \<times> cbuf \<times> 'w) option" where
  "cbuf_read_to_fd wr src dstfd len w =
     (if dstfd < 0 \<or> len < -1 then Some (-1, src, w)
      else do {
        cbuf_is_valid src;
        let len = (if len = -1 then cb_used src else len);
        (n, src, w) \<leftarrow> (if len > 0 then do {
            (n, w) \<leftarrow> cbuf_reader src len (cbuf_put_fd wr) w;
            (_, src) \<leftarrow> (if n > 0 then cbuf_dropper src n else Some (0, src));
            Some (n, src, w) }
          else Some (0, src, w));
        cbuf_is_valid src;
        Some (n, src, w) })"

definition cbuf_replay_to_fd :: "'w write_call \<Rightarrow> cbuf \<Rightarrow> int \<Rightarrow> int \<Rightarrow> 'w \<Rightarrow> (int \<times> 'w) option" where
  "cbuf_replay_to_fd wr src dstfd len w =
     (if dstfd < 0 \<or> len < -1 then Some (-1, w)
      else do {
        cbuf_is_valid src;
        let len = (if len = -1 then cb_size src - cb_used src else len);
        (n, w) \<leftarrow> (if len > 0 then cbuf_replayer src len (cbuf_put_fd wr) w else Some (0, w));
        cbuf_is_valid src;
        Some (n, w) })"

definition cbuf_write_from_fd :: "'w read_call \<Rightarrow> cbuf \<Rightarrow> int \<Rightarrow> int \<Rightarrow> 'w \<Rightarrow> (int \<times> int \<times> cbuf \<times> 'w) option" where
  "cbuf_write_from_fd rd dst srcfd len w =
     (if srcfd < 0 \<or> len < -1 then Some (-1, 0, dst, w)
      else do {
        cbuf_is_valid dst;
        let len = (if len = -1
                   then (if cb_size dst - cb_used dst = 0 then CBUF_CHUNK else cb_size dst - cb_used dst)
                   else len);
        (n, d, dst, w) \<leftarrow> (if len > 0 then cbuf_writer dst len (cbuf_get_fd rd) w
                           else Some (0, None, dst, w));
        cbuf_is_valid dst;
        Some (n, case_option 0 id d, dst, w) })"

subsection \<open>Copies between buffers\<close>

text \<open>\<open>same\<close> says that the two pointers are equal. The mutexes are locked in the order of the addresses.\<close>

definition cbuf_copy :: "bool \<Rightarrow> cbuf \<Rightarrow> cbuf \<Rightarrow> int \<Rightarrow> (int \<times> int \<times> cbuf) option" where
  "cbuf_copy same src dst len =
     (if same \<or> len < -1 then Some (-1, 0, dst)
      else if len = 0 then Some (0, 0, dst)
      else do {
        cbuf_is_valid src;
        cbuf_is_valid dst;
        let len = (if len = -1 then cb_used src else len);
        (n, d, dst) \<leftarrow> (if len > 0 then cbuf_copier src dst len else Some (0, None, dst));
        cbuf_is_valid src;
        cbuf_is_valid dst;
        Some (n, case_option 0 id d, dst) })"

definition cbuf_move :: "bool \<Rightarrow> cbuf \<Rightarrow> cbuf \<Rightarrow> int \<Rightarrow> (int \<times> int \<times> cbuf \<times> cbuf) option" where
  "cbuf_move same src dst len =
     (if same \<or> len < -1 then Some (-1, 0, src, dst)
      else if len = 0 then Some (0, 0, src, dst)
      else do {
        cbuf_is_valid src;
        cbuf_is_valid dst;
        let len = (if len = -1 then cb_used src else len);
        (n, d, src, dst) \<leftarrow> (if len > 0 then do {
            (n, d, dst) \<leftarrow> cbuf_copier src dst len;
            (_, src) \<leftarrow> (if n > 0 then cbuf_dropper src n else Some (0, src));
            Some (n, d, src, dst) }
          else Some (0, None, src, dst));
        cbuf_is_valid src;
        cbuf_is_valid dst;
        Some (n, case_option 0 id d, src, dst) })"

end
