(* ===== verification/Cbuf_Ring.thy ===== *)
theory Cbuf_Ring
  imports Cbuf
begin

text \<open>
  What a circular buffer stores. Read from the write index on, the data bytes are the last \<open>size + 1\<close>
  bytes that passed through the buffer, oldest first; the replayable and the unread bytes are suffixes
  of that window. This theory defines the window, the log (replayable and unread bytes), the state
  invariant and shows what growing the buffer, advancing the write index and the copying loops do to
  them.
\<close>

subsection \<open>Suffixes\<close>

definition lastn :: "nat \<Rightarrow> 'a list \<Rightarrow> 'a list" where
  "lastn k xs = drop (length xs - k) xs"

lemma length_lastn [simp]: "length (lastn k xs) = min k (length xs)"
  by (simp add: lastn_def)

lemma lastn_all [simp]: "length xs \<le> k \<Longrightarrow> lastn k xs = xs"
  by (simp add: lastn_def)

lemma lastn_0 [simp]: "lastn 0 xs = []"
  by (simp add: lastn_def)

lemma lastn_append: "lastn (k + length ys) (xs @ ys) = lastn k xs @ ys"
  by (simp add: lastn_def)

lemma lastn_lastn: "lastn k (lastn m xs) = lastn (min k m) xs"
  by (auto simp: lastn_def min_def intro: arg_cong [where f = "\<lambda>n. drop n xs"])

lemma lastn_drop: "k + n \<le> length xs \<Longrightarrow> lastn k (drop n xs) = lastn k xs"
  by (simp add: lastn_def)

lemma lastn_append_le: "k \<le> length ys \<Longrightarrow> lastn k (xs @ ys) = lastn k ys"
  by (simp add: lastn_def)

lemma lastn_conv_append: "k \<le> length xs \<Longrightarrow> take (length xs - k) xs @ lastn k xs = xs"
  by (simp add: lastn_def)

subsection \<open>Rings\<close>

lemma rotate_step:
  "rotate ((i + n) mod length d) d = rotate n (rotate i d)"
  by (metis add.commute rotate_conv_mod rotate_rotate)

lemma lastn_rotate: "k < length xs \<Longrightarrow> lastn k (rotate k xs) = take k xs"
  by (simp add: rotate_drop_take lastn_def)

lemma take_rotate: "i < length d \<Longrightarrow> i + n \<le> length d \<Longrightarrow> take n (rotate i d) = take n (drop i d)"
  by (simp add: rotate_drop_take)

lemma take_rotate_drop:
  assumes "k + n \<le> length xs" shows "take k (rotate n xs) = take k (drop n xs)"
proof (cases "k = 0")
  case False
  with assms have "n < length xs" "n + k \<le> length xs" by simp_all
  then show ?thesis by (rule take_rotate)
qed simp

lemma nat_mod_ring: "0 \<le> x \<Longrightarrow> int (length d) = s + 1 \<Longrightarrow> nat (x mod (s + 1)) = nat x mod length d"
  by (metis nat_int nat_mod_distrib of_nat_0_le_iff)

text \<open>Storing \<open>bs\<close> at index \<open>i\<close> and moving the index behind it drops the oldest bytes of the window.\<close>

lemma rotate_store:
  assumes "i < length d" and "i + length bs \<le> length d"
  shows "rotate ((i + length bs) mod length d) (take i d @ bs @ drop (i + length bs) d)
           = drop (length bs) (rotate i d @ bs)"
proof (cases "i + length bs = length d")
  case True
  with assms show ?thesis by (simp add: rotate_drop_take)
next
  case False
  with assms have "i + length bs < length d" by simp
  with assms show ?thesis by (simp add: rotate_drop_take add.commute)
qed

lemma c_rem_pos: "0 \<le> a \<Longrightarrow> 0 < b \<Longrightarrow> c_rem a b = Some (a mod b)"
  by (cases "a = 0") (simp_all add: c_rem_def)

lemma ring_in [c_sem]: "0 \<le> x \<Longrightarrow> x < 2 ^ 31 \<Longrightarrow> 0 < cb_size cb \<Longrightarrow> ring cb x = Some (x mod (cb_size cb + 1))"
  by (simp add: ring_def i32_in c_rem_pos)

lemma mem_sub_in [c_sem]:
  "0 \<le> i \<Longrightarrow> 0 \<le> n \<Longrightarrow> i + n \<le> int (length d) \<Longrightarrow> mem_sub d i n = Some (take (nat n) (drop (nat i) d))"
  by (simp add: mem_sub_def)

lemma mem_put_in [c_sem]:
  "0 \<le> i \<Longrightarrow> i + int (length bs) \<le> int (length d)
     \<Longrightarrow> mem_put d i bs = Some (take (nat i) d @ bs @ drop (nat i + length bs) d)"
  by (simp add: mem_put_def)

subsection \<open>The stored bytes and the invariant\<close>

text \<open>The distance from an index forward to the write index.\<close>

definition behind :: "cbuf \<Rightarrow> int \<Rightarrow> int" where
  "behind cb x = (cb_in cb - x) mod (cb_size cb + 1)"

definition window :: "cbuf \<Rightarrow> u8 list" where
  "window cb = rotate (nat (cb_in cb)) (cb_data cb)"

definition unread :: "cbuf \<Rightarrow> u8 list" where
  "unread cb = lastn (nat (cb_used cb)) (window cb)"

definition blog :: "cbuf \<Rightarrow> u8 list" where
  "blog cb = lastn (nat (behind cb (cb_rep cb))) (window cb)"

definition past :: "cbuf \<Rightarrow> u8 list" where
  "past cb = take (length (blog cb) - nat (cb_used cb)) (blog cb)"

definition CB_LIMIT :: int where "CB_LIMIT = 2 ^ 30 - 2000"

definition cbuf_ok :: "cbuf \<Rightarrow> bool" where
  "cbuf_ok cb \<longleftrightarrow> cb_magic cb = CBUF_MAGIC \<and> cb_under cb = CBUF_MAGIC \<and> cb_over cb = CBUF_MAGIC
     \<and> cb_alloc cb = cb_size cb + 17
     \<and> 0 < cb_minsize cb \<and> cb_minsize cb \<le> cb_size cb \<and> cb_size cb \<le> cb_maxsize cb
     \<and> cb_maxsize cb \<le> CB_LIMIT
     \<and> cb_overwrite cb \<in> {CBUF_NO_DROP, CBUF_WRAP_ONCE, CBUF_WRAP_MANY}
     \<and> (cb_got_wrap cb \<or> cb_rep cb = 0)
     \<and> 0 \<le> cb_in cb \<and> cb_in cb \<le> cb_size cb
     \<and> 0 \<le> cb_out cb \<and> cb_out cb \<le> cb_size cb
     \<and> 0 \<le> cb_rep cb \<and> cb_rep cb \<le> cb_size cb
     \<and> int (length (cb_data cb)) = cb_size cb + 1
     \<and> cb_used cb = behind cb (cb_out cb)
     \<and> cb_used cb \<le> behind cb (cb_rep cb)"

lemma mod_interval:
  fixes x N :: int
  assumes "- N \<le> x" "x < N" "0 < N"
  shows "x mod N = (if 0 \<le> x then x else x + N)"
proof (cases "0 \<le> x")
  case False
  then have "(x + N) mod N = x + N" using assms by (intro mod_pos_pos_trivial) auto
  with False show ?thesis by simp
qed (use assms in simp)

lemma behind_if:
  assumes "0 \<le> cb_in cb" "cb_in cb \<le> cb_size cb" "0 \<le> x" "x \<le> cb_size cb"
  shows "behind cb x = (if x \<le> cb_in cb then cb_in cb - x else cb_in cb - x + (cb_size cb + 1))"
  using assms by (simp add: behind_def mod_interval)

lemma behind_bounds:
  assumes "0 < cb_size cb" shows "0 \<le> behind cb x" "behind cb x \<le> cb_size cb"
proof -
  have "behind cb x < cb_size cb + 1" unfolding behind_def using assms by (intro pos_mod_bound) simp
  then show "behind cb x \<le> cb_size cb" by simp
  show "0 \<le> behind cb x" unfolding behind_def using assms by simp
qed

lemma cbuf_okD:
  assumes "cbuf_ok cb"
  shows "0 < cb_size cb" "cb_size cb \<le> CB_LIMIT" "0 \<le> cb_used cb" "cb_used cb \<le> cb_size cb"
    and "behind cb (cb_rep cb) \<le> cb_size cb" "cb_used cb \<le> behind cb (cb_rep cb)"
  using assms behind_bounds [of cb] by (auto simp: cbuf_ok_def)

text \<open>The invariant implies every assertion of \<open>_cbuf_is_valid\<close>.\<close>

lemma cbuf_ok_order:
  assumes "cbuf_ok cb"
  shows "cb_out cb \<le> cb_in cb \<Longrightarrow> cb_in cb < cb_rep cb \<or> cb_rep cb \<le> cb_out cb"
    and "\<not> cb_out cb \<le> cb_in cb \<Longrightarrow> cb_in cb < cb_rep cb \<and> cb_rep cb \<le> cb_out cb"
  using assms behind_if [of cb "cb_rep cb"] behind_if [of cb "cb_out cb"]
  by (auto simp: cbuf_ok_def split: if_splits)

lemma cbuf_ok_nfree:
  assumes "cbuf_ok cb"
  shows "(cb_out cb - cb_in cb - 1 + (cb_size cb + 1)) mod (cb_size cb + 1) = cb_size cb - cb_used cb"
proof -
  have "cb_used cb = (if cb_out cb \<le> cb_in cb then cb_in cb - cb_out cb else cb_in cb - cb_out cb + (cb_size cb + 1))"
    using assms behind_if [of cb "cb_out cb"] by (simp add: cbuf_ok_def)
  moreover have "(cb_out cb - cb_in cb - 1 + (cb_size cb + 1)) mod (cb_size cb + 1)
                   = (cb_out cb - cb_in cb - 1) mod (cb_size cb + 1)"
    by (rule mod_add_self2)
  moreover have "(cb_out cb - cb_in cb - 1) mod (cb_size cb + 1)
      = (if 0 \<le> cb_out cb - cb_in cb - 1 then cb_out cb - cb_in cb - 1 else cb_out cb - cb_in cb - 1 + (cb_size cb + 1))"
    using assms by (intro mod_interval) (auto simp: cbuf_ok_def)
  ultimately show ?thesis by simp
qed

lemma cbuf_ok_valid [simp]: "cbuf_ok cb \<Longrightarrow> cbuf_is_valid cb = Some ()"
  using cbuf_ok_order [of cb] cbuf_ok_nfree [of cb] cbuf_okD [of cb]
  by (auto simp: cbuf_is_valid_def cbuf_ok_def ring_in CB_LIMIT_def)

lemma mod_fwd:
  fixes a k x N :: int
  shows "((a + k) mod N - x) mod N = ((a - x) mod N + k) mod N"
  by (simp add: mod_diff_left_eq mod_add_left_eq diff_add_eq)

lemma cbuf_ok_nrepl:
  assumes "cbuf_ok cb"
  shows "nrepl cb = Some (behind cb (cb_rep cb) - cb_used cb)"
proof -
  note ok = assms [unfolded cbuf_ok_def]
  have "(cb_out cb - cb_rep cb + (cb_size cb + 1)) mod (cb_size cb + 1)
          = (cb_out cb - cb_rep cb) mod (cb_size cb + 1)"
    by (rule mod_add_self2)
  also have "\<dots> = (behind cb (cb_rep cb) - behind cb (cb_out cb)) mod (cb_size cb + 1)"
    unfolding behind_def by (simp add: mod_diff_eq algebra_simps)
  also have "\<dots> = behind cb (cb_rep cb) - cb_used cb"
    using ok cbuf_okD [OF assms] by (simp add: mod_pos_pos_trivial)
  finally show ?thesis
    unfolding nrepl_def using ok cbuf_okD [OF assms] by (simp add: ring_in CB_LIMIT_def)
qed

lemma length_window: "cbuf_ok cb \<Longrightarrow> int (length (window cb)) = cb_size cb + 1"
  by (simp add: window_def cbuf_ok_def)

lemma length_unread: "cbuf_ok cb \<Longrightarrow> int (length (unread cb)) = cb_used cb"
  using length_window [of cb] cbuf_okD [of cb] by (auto simp: unread_def)

lemma length_blog: "cbuf_ok cb \<Longrightarrow> int (length (blog cb)) = behind cb (cb_rep cb)"
  using length_window [of cb] cbuf_okD [of cb] by (auto simp: blog_def)

lemma unread_blog: "cbuf_ok cb \<Longrightarrow> unread cb = lastn (nat (cb_used cb)) (blog cb)"
  using cbuf_okD [of cb] by (simp add: unread_def blog_def lastn_lastn min_def nat_le_eq_zle)

lemma blog_split: "cbuf_ok cb \<Longrightarrow> blog cb = past cb @ unread cb"
  using length_blog [of cb] cbuf_okD [of cb]
  by (simp add: past_def unread_blog lastn_conv_append nat_le_iff)

lemma length_past: "cbuf_ok cb \<Longrightarrow> int (length (past cb)) = behind cb (cb_rep cb) - cb_used cb"
  using length_blog [of cb] length_unread [of cb] by (simp add: blog_split)

lemma index_rotate:
  assumes "cbuf_ok cb" "0 \<le> x" "x \<le> cb_size cb"
  shows "lastn (nat (behind cb x)) (window cb) = take (nat (behind cb x)) (rotate (nat x) (cb_data cb))"
proof -
  note ok = assms(1) [unfolded cbuf_ok_def]
  have N: "int (length (cb_data cb)) = cb_size cb + 1" using ok by blast
  have b: "0 \<le> behind cb x" "behind cb x \<le> cb_size cb" using behind_bounds [of cb] cbuf_okD(1) [OF assms(1)] by auto
  have "(x + behind cb x) mod (cb_size cb + 1) = cb_in cb"
    unfolding behind_def using ok by (simp add: mod_add_right_eq mod_pos_pos_trivial)
  then have "int ((nat x + nat (behind cb x)) mod length (cb_data cb)) = cb_in cb"
    using assms(2) b(1) N by (simp add: zmod_int)
  then have "nat (cb_in cb) = (nat x + nat (behind cb x)) mod length (cb_data cb)" by simp
  then have "window cb = rotate (nat (behind cb x)) (rotate (nat x) (cb_data cb))"
    by (simp add: window_def rotate_step)
  moreover have "nat (behind cb x) < length (rotate (nat x) (cb_data cb))" using b N by simp
  ultimately show ?thesis by (simp only: lastn_rotate)
qed

lemma unread_rotate: "cbuf_ok cb \<Longrightarrow> unread cb = take (nat (cb_used cb)) (rotate (nat (cb_out cb)) (cb_data cb))"
  using index_rotate [of cb "cb_out cb"] by (simp add: unread_def cbuf_ok_def)

lemma blog_rotate: "cbuf_ok cb \<Longrightarrow> blog cb = take (nat (behind cb (cb_rep cb))) (rotate (nat (cb_rep cb)) (cb_data cb))"
  using index_rotate [of cb "cb_rep cb"] by (simp add: blog_def cbuf_ok_def)

text \<open>The same suffixes as slices of the data.\<close>

lemma blog_slice:
  assumes "cbuf_ok cb"
  shows "blog cb = (if cb_rep cb \<le> cb_in cb then take (nat (cb_in cb - cb_rep cb)) (drop (nat (cb_rep cb)) (cb_data cb))
     else drop (nat (cb_rep cb)) (cb_data cb) @ take (nat (cb_in cb)) (cb_data cb))"
proof -
  note ok = assms [unfolded cbuf_ok_def]
  have b: "behind cb (cb_rep cb) = (if cb_rep cb \<le> cb_in cb then cb_in cb - cb_rep cb else cb_in cb - cb_rep cb + (cb_size cb + 1))"
    using ok by (intro behind_if) auto
  have r: "rotate (nat (cb_rep cb)) (cb_data cb) = drop (nat (cb_rep cb)) (cb_data cb) @ take (nat (cb_rep cb)) (cb_data cb)"
    using ok by (subst rotate_drop_take, subst mod_less) (auto simp: nat_less_iff)
  have le: "nat (cb_in cb - cb_rep cb) \<le> length (cb_data cb) - nat (cb_rep cb)" if "cb_rep cb \<le> cb_in cb"
    using ok that by linarith
  have gt: "nat (cb_in cb - cb_rep cb + (cb_size cb + 1)) = (length (cb_data cb) - nat (cb_rep cb)) + nat (cb_in cb)"
    "nat (cb_in cb) \<le> nat (cb_rep cb)" if "cb_in cb < cb_rep cb"
    using ok that by linarith+
  show ?thesis unfolding blog_rotate [OF assms] r b using le gt
    by (auto simp: not_le min_absorb1)
qed

subsection \<open>Advancing the write index\<close>

text \<open>The fields that the data operations keep.\<close>

definition same_opts :: "cbuf \<Rightarrow> cbuf \<Rightarrow> bool" where
  "same_opts cb cb' \<longleftrightarrow> cb_minsize cb' = cb_minsize cb \<and> cb_maxsize cb' = cb_maxsize cb
     \<and> cb_overwrite cb' = cb_overwrite cb"

lemma same_opts_refl [simp]: "same_opts cb cb"
  by (simp add: same_opts_def)

lemma same_opts_trans [trans]: "same_opts a b \<Longrightarrow> same_opts b c \<Longrightarrow> same_opts a c"
  by (simp add: same_opts_def)

text \<open>\<open>bs\<close> has been stored from the write index of \<open>cb\<close> on, and the data is now \<open>d\<close>.\<close>

definition stored :: "cbuf \<Rightarrow> u8 list \<Rightarrow> u8 list \<Rightarrow> int \<Rightarrow> bool" where
  "stored cb bs d i \<longleftrightarrow> length d = length (cb_data cb)
     \<and> i = (cb_in cb + int (length bs)) mod (cb_size cb + 1)
     \<and> rotate (nat i) d = drop (length bs) (window cb @ bs)"

lemma wrote_ok:
  assumes ok: "cbuf_ok cb" and st: "stored cb bs d i" and n: "0 < length bs" "int (length bs) \<le> 2 ^ 30"
  defines "cb1 \<equiv> cb\<lparr> cb_data := d \<rparr>" and "k \<equiv> int (length bs)"
  shows "\<exists>cb'. wrote cb1 (cb_size cb - cb_used cb) k i = Some cb' \<and> cbuf_ok cb' \<and> same_opts cb cb'
     \<and> cb_size cb' = cb_size cb \<and> cb_used cb' = min (cb_used cb + k) (cb_size cb)
     \<and> blog cb' = lastn (nat (cb_size cb)) (blog cb @ bs)
     \<and> unread cb' = lastn (nat (cb_size cb)) (unread cb @ bs)
     \<and> cb_got_wrap cb' = (cb_got_wrap cb \<or> int (length (blog cb)) + k > cb_size cb)"
proof -
  note ok' = ok [unfolded cbuf_ok_def]
  let ?N = "cb_size cb + 1" and ?L = "behind cb (cb_rep cb)"
  note D = cbuf_okD [OF ok]
  have i: "i = (cb_in cb + k) mod ?N" "0 \<le> i" "i \<le> cb_size cb"
    using st D(1) pos_mod_bound [of ?N "cb_in cb + k"] by (auto simp: stored_def k_def)
  define rep where "rep = (if k > cb_size cb - ?L then (i + 1) mod ?N else cb_rep cb)"
  define out where "out = (if k > cb_size cb - cb_used cb then rep else cb_out cb)"
  define cb' where "cb' = cb1\<lparr> cb_used := min (cb_used cb + k) (cb_size cb), cb_in := i,
      cb_got_wrap := cb_got_wrap cb \<or> k > cb_size cb - ?L, cb_rep := rep, cb_out := out \<rparr>"
  have nr: "nrepl cb1 = Some (?L - cb_used cb)"
    using cbuf_ok_nrepl [OF ok] by (simp add: nrepl_def ring_def cb1_def)
  have w: "wrote cb1 (cb_size cb - cb_used cb) k i = Some cb'"
    using D n i ok' unfolding wrote_def nr
    by (auto simp: cb1_def cb'_def rep_def out_def ring_in i32_in k_def CB_LIMIT_def not_le)
  have rep_b: "0 \<le> rep \<and> rep \<le> cb_size cb"
    using ok' D(1) pos_mod_bound [of ?N "i + 1"] pos_mod_sign [of ?N "i + 1"] by (simp add: rep_def)
  have bout: "(i - cb_out cb) mod ?N = (cb_used cb + k) mod ?N" and brep0: "(i - cb_rep cb) mod ?N = (?L + k) mod ?N"
    using ok' by (simp_all add: i(1) behind_def mod_fwd)
  have full: "(i - (i + 1) mod ?N) mod ?N = cb_size cb"
    using D(1) mod_interval [of ?N "- 1"] by (simp add: mod_diff_right_eq)
  have bh: "behind cb' x = (i - x) mod ?N" for x by (simp add: behind_def cb'_def cb1_def)
  have brep: "behind cb' rep = min (?L + k) (cb_size cb)"
    unfolding bh using brep0 full D n by (auto simp: rep_def k_def mod_pos_pos_trivial min_def)
  have bo: "behind cb' out = min (cb_used cb + k) (cb_size cb)"
  proof (cases "k > cb_size cb - cb_used cb")
    case True
    then show ?thesis using brep D by (simp add: out_def min_def)
  next
    case False
    then have "behind cb' out = (cb_used cb + k) mod ?N" using bout by (simp add: out_def bh)
    with False show ?thesis using D n by (simp add: mod_pos_pos_trivial min_def k_def)
  qed
  have fields: "cb_used cb' = min (cb_used cb + k) (cb_size cb)" "cb_out cb' = out" "cb_rep cb' = rep"
    "cb_in cb' = i" "cb_data cb' = d" "cb_size cb' = cb_size cb"
    "cb_got_wrap cb' = (cb_got_wrap cb \<or> k > cb_size cb - ?L)"
    by (simp_all add: cb'_def cb1_def)
  have okk: "cbuf_ok cb'"
  proof -
    have "0 \<le> out \<and> out \<le> cb_size cb" using rep_b ok' by (simp add: out_def)
    moreover have "cb_got_wrap cb \<or> k > cb_size cb - ?L \<or> rep = 0" using ok' by (auto simp: rep_def)
    moreover have "int (length d) = cb_size cb + 1" using st ok' by (simp add: stored_def)
    moreover have "cb_magic cb' = cb_magic cb" "cb_under cb' = cb_under cb" "cb_over cb' = cb_over cb"
      "cb_alloc cb' = cb_alloc cb" "cb_minsize cb' = cb_minsize cb" "cb_maxsize cb' = cb_maxsize cb"
      "cb_overwrite cb' = cb_overwrite cb" by (simp_all add: cb'_def cb1_def)
    ultimately show ?thesis
      using ok' rep_b i(2,3) D(6) unfolding cbuf_ok_def fields brep bo by (simp add: min.mono)
  qed
  have W: "window cb' = drop (length bs) (window cb @ bs)" and lW: "length (window cb) = nat ?N"
    using st length_window [OF ok] by (auto simp: window_def fields stored_def)
  have suf: "lastn (nat (min (x + k) (cb_size cb))) (window cb')
      = lastn (nat (cb_size cb)) (lastn (nat x) (window cb) @ bs)" if "0 \<le> x" "x \<le> cb_size cb" for x
  proof -
    have "lastn (nat (min (x + k) (cb_size cb))) (window cb') = lastn (nat (min (x + k) (cb_size cb))) (window cb @ bs)"
      unfolding W using lW D(1) by (intro lastn_drop) simp
    also have "\<dots> = lastn (nat (cb_size cb)) (lastn (nat x + length bs) (window cb @ bs))"
    proof -
      have "nat (min (x + k) (cb_size cb)) = min (nat (cb_size cb)) (nat x + length bs)"
        using that by (simp add: k_def min_def nat_le_iff nat_add_distrib)
      then show ?thesis by (simp only: lastn_lastn)
    qed
    finally show ?thesis by (simp only: lastn_append)
  qed
  have "blog cb' = lastn (nat (cb_size cb)) (blog cb @ bs)"
    using suf [of ?L] D by (simp add: blog_def fields brep)
  moreover have "unread cb' = lastn (nat (cb_size cb)) (unread cb @ bs)"
    using suf [of "cb_used cb"] D by (simp add: unread_def fields)
  moreover have "same_opts cb cb'" by (simp add: same_opts_def cb'_def cb1_def)
  ultimately show ?thesis using w okk fields length_blog [OF ok] by auto
qed

subsection \<open>Growing\<close>

text \<open>More space behind the data, with the tail of a wrapped log moved to the new end.\<close>

definition widened :: "cbuf \<Rightarrow> int \<Rightarrow> u8 list \<Rightarrow> cbuf" where
  "widened cb s d = cb\<lparr> cb_alloc := s + 17, cb_size := s, cb_over := CBUF_MAGIC, cb_data := d \<rparr>"

lemma grow_straight:
  assumes ok: "cbuf_ok cb" and s: "cb_size cb \<le> s" "s \<le> cb_maxsize cb" "length rest = nat (s - cb_size cb)"
    and le: "cb_rep cb \<le> cb_in cb"
  defines "cb' \<equiv> widened cb s (cb_data cb @ rest)"
  shows "cbuf_ok cb'" and "blog cb' = blog cb"
proof -
  note ok' = ok [unfolded cbuf_ok_def]
  have out: "cb_out cb \<le> cb_in cb" using cbuf_ok_order [OF ok] le by linarith
  have b: "behind cb x = cb_in cb - x" "behind cb' x = cb_in cb - x" if "0 \<le> x" "x \<le> cb_in cb" for x
    using behind_if [of cb x] behind_if [of cb' x] ok' s that by (auto simp: cb'_def widened_def)
  show okk: "cbuf_ok cb'"
    using ok' s b [of "cb_out cb"] b [of "cb_rep cb"] out le unfolding cbuf_ok_def
    by (simp add: cb'_def widened_def)
  have "nat (cb_in cb - cb_rep cb) \<le> length (cb_data cb) - nat (cb_rep cb)" "nat (cb_rep cb) \<le> length (cb_data cb)"
    using ok' by linarith+
  then show "blog cb' = blog cb"
    using le by (simp add: blog_slice [OF okk] blog_slice [OF ok]) (simp add: cb'_def widened_def)
qed

lemma grow_wrapped:
  assumes ok: "cbuf_ok cb" and s: "cb_size cb \<le> s" "s \<le> cb_maxsize cb" "length rest = nat (s - cb_size cb)"
    and gt: "cb_in cb < cb_rep cb"
  defines "m \<equiv> s + 1 - (cb_size cb + 1 - cb_rep cb)"
  defines "cb' \<equiv> (widened cb s (take (nat m) (cb_data cb @ rest) @ drop (nat (cb_rep cb)) (cb_data cb)))
     \<lparr> cb_out := (if cb_out cb \<ge> cb_rep cb then cb_out cb + (m - cb_rep cb) else cb_out cb), cb_rep := m \<rparr>"
  shows "cbuf_ok cb'" and "blog cb' = blog cb"
proof -
  note ok' = ok [unfolded cbuf_ok_def]
  have m: "m = cb_rep cb + (s - cb_size cb)" by (simp add: m_def)
  have out: "cb_out cb \<le> cb_in cb \<or> cb_rep cb \<le> cb_out cb" using cbuf_ok_order [OF ok] gt by linarith
  have f: "cb_in cb' = cb_in cb" "cb_size cb' = s" by (simp_all add: cb'_def widened_def)
  have brep: "behind cb' m = behind cb (cb_rep cb)"
    using behind_if [of cb "cb_rep cb"] behind_if [of cb' m] ok' s gt by (simp add: f m)
  have co: "cb_out cb' = (if cb_rep cb \<le> cb_out cb then cb_out cb + (s - cb_size cb) else cb_out cb)"
    by (simp add: cb'_def m)
  have b0: "0 \<le> cb_in cb" "cb_in cb \<le> cb_size cb" "0 \<le> cb_out cb" "cb_out cb \<le> cb_size cb"
    using ok' by simp_all
  have outb: "0 \<le> cb_out cb'" "cb_out cb' \<le> s" using b0 s(1) by (simp_all add: co)
  have bout: "behind cb' (cb_out cb') = behind cb (cb_out cb)"
    using behind_if [of cb "cb_out cb"] behind_if [of cb' "cb_out cb'"] b0 outb s(1) out gt
    by (auto simp: f co)
  have lenD: "length (cb_data cb) = nat (cb_size cb + 1)" and repb: "0 \<le> cb_rep cb" "cb_rep cb \<le> cb_size cb"
    using ok' by linarith+
  have le_m: "nat m \<le> length (cb_data cb @ rest)" using lenD repb s by (auto simp: m)
  then have "length (cb_data cb') = nat m + (length (cb_data cb) - nat (cb_rep cb))"
    unfolding cb'_def widened_def by (simp del: take_append add: min_absorb2)
  then have len: "length (cb_data cb') = nat (s + 1)" "nat m \<le> length (cb_data cb @ rest)"
    using lenD repb s le_m m by linarith+
  have nw: "cb_got_wrap cb" using ok' gt by auto
  have fs: "cb_used cb' = cb_used cb" "cb_rep cb' = m" "cb_got_wrap cb' = cb_got_wrap cb" "cb_alloc cb' = s + 17"
    "cb_magic cb' = cb_magic cb" "cb_under cb' = cb_under cb" "cb_over cb' = CBUF_MAGIC" "cb_overwrite cb' = cb_overwrite cb"
    "cb_minsize cb' = cb_minsize cb" "cb_maxsize cb' = cb_maxsize cb"
    by (simp_all add: cb'_def widened_def)
  show okk: "cbuf_ok cb'"
    using ok' s len(1) nw outb gt m unfolding cbuf_ok_def fs f bout brep by simp
  have "nat (cb_in cb) \<le> nat m" "nat (cb_in cb) \<le> length (cb_data cb)" "cb_in cb < m" using ok' s gt m by linarith+
  with gt len(2) show "blog cb' = blog cb"
    by (simp add: blog_slice [OF okk] blog_slice [OF ok] fs f) (simp add: cb'_def widened_def min_def)
qed

lemma grow_size:
  fixes a n :: int
  assumes "0 \<le> a" "0 < n"
  shows "a + n < a + n + (CBUF_CHUNK - (a + n) mod CBUF_CHUNK)" "a + n + (CBUF_CHUNK - (a + n) mod CBUF_CHUNK) \<le> a + n + 1000"
  using pos_mod_bound [of CBUF_CHUNK "a + n"] pos_mod_sign [of CBUF_CHUNK "a + n"] by (auto simp: cbuf_consts)

lemma move_replay_ok:
  assumes ok: "cbuf_ok cb" and s: "cb_size cb \<le> s" "s \<le> cb_maxsize cb" "length rest = nat (s - cb_size cb)"
  shows "\<exists>cb'. move_replay (widened cb s (cb_data cb @ rest)) (cb_size cb) = Some cb' \<and> cbuf_ok cb' \<and> same_opts cb cb'
     \<and> blog cb' = blog cb \<and> cb_size cb' = s \<and> cb_used cb' = cb_used cb \<and> cb_got_wrap cb' = cb_got_wrap cb"
proof (cases "cb_in cb < cb_rep cb")
  case True
  note ok' = ok [unfolded cbuf_ok_def]
  have len: "length (cb_data cb) = nat (cb_size cb + 1)" and repb: "0 \<le> cb_rep cb" "cb_rep cb \<le> cb_size cb"
    using ok' by linarith+
  define m where "m = s + 1 - (cb_size cb + 1 - cb_rep cb)"
  have mb: "0 \<le> m" "nat m + (nat (cb_size cb + 1) - nat (cb_rep cb)) = length (cb_data cb @ rest)"
    "m + (cb_size cb + 1 - cb_rep cb) = int (length (cb_data cb @ rest))"
    using repb s len by (auto simp: m_def)
  have sub: "mem_sub (cb_data cb @ rest) (cb_rep cb) (cb_size cb + 1 - cb_rep cb) = Some (drop (nat (cb_rep cb)) (cb_data cb))"
    using repb s len by (subst mem_sub_in) (auto simp: nat_diff_distrib)
  have put: "mem_put (cb_data cb @ rest) m (drop (nat (cb_rep cb)) (cb_data cb))
      = Some (take (nat m) (cb_data cb @ rest) @ drop (nat (cb_rep cb)) (cb_data cb))"
    using mb len repb by (subst mem_put_in) auto
  show ?thesis
    using grow_wrapped [OF ok s True, folded m_def] True sub put unfolding move_replay_def
    by (simp add: widened_def m_def [symmetric] same_opts_def Let_def del: take_append append_assoc split del: if_split cong: if_cong)
next
  case False
  then show ?thesis
    using grow_straight [OF ok s] by (simp add: move_replay_def widened_def same_opts_def)
qed

lemma cbuf_grow_ok:
  assumes ok: "cbuf_ok cb" and n: "0 < n" "n \<le> 2 ^ 30" and lt: "cb_size cb < cb_maxsize cb"
  shows "\<exists>g cb'. cbuf_grow cb n = Some (g, cb') \<and> cbuf_ok cb' \<and> same_opts cb cb' \<and> cb_size cb' = cb_size cb + g
     \<and> 0 < g \<and> (cb_size cb' = cb_maxsize cb \<or> n < g) \<and> blog cb' = blog cb \<and> cb_used cb' = cb_used cb
     \<and> cb_got_wrap cb' = cb_got_wrap cb"
proof -
  note ok' = ok [unfolded cbuf_ok_def] and D = cbuf_okD [OF ok]
  define m where "m = cb_alloc cb + n + (CBUF_CHUNK - (cb_alloc cb + n) mod CBUF_CHUNK)"
  have al: "cb_alloc cb = cb_size cb + 17" "0 \<le> cb_alloc cb" and lim: "cb_maxsize cb \<le> CB_LIMIT" using ok' D by auto
  have m: "cb_alloc cb + n < m" "m \<le> cb_alloc cb + n + 1000"
    using grow_size [OF al(2) n(1)] by (auto simp: m_def)
  define s where "s = min m (cb_maxsize cb + 17) - 17"
  have s: "cb_size cb \<le> s" "s \<le> cb_maxsize cb" "cb_size cb < s" "s = cb_maxsize cb \<or> n < s - cb_size cb"
    using m lt al n by (auto simp: s_def)
  define rest where "rest = take (nat (s - cb_size cb)) (le_bytes (cb_over cb) @ replicate (nat (s - cb_size cb)) 0)"
  have rest: "length rest = nat (s - cb_size cb)" by (simp add: rest_def)
  have "nat (s + 1) = length (cb_data cb) + nat (s - cb_size cb)" using s(3) ok' D(1) by linarith
  then have dat: "take (nat (s + 1)) (cb_data cb @ le_bytes (cb_over cb) @ replicate (nat (s - cb_size cb)) 0) = cb_data cb @ rest"
    by (simp add: rest_def)
  from move_replay_ok [OF ok s(1,2) rest] obtain cb' where cb':
    "move_replay (widened cb s (cb_data cb @ rest)) (cb_size cb) = Some cb'" "cbuf_ok cb'" "same_opts cb cb'"
    "blog cb' = blog cb" "cb_size cb' = s" "cb_used cb' = cb_used cb" "cb_got_wrap cb' = cb_got_wrap cb" by blast
  have i: "i32 (cb_alloc cb + n) = Some (cb_alloc cb + n)"
    "c_rem (cb_alloc cb + n) CBUF_CHUNK = Some ((cb_alloc cb + n) mod CBUF_CHUNK)"
    "i32 m = Some m" "i32 (cb_maxsize cb + 17) = Some (cb_maxsize cb + 17)"
    using al m n D(1,2) lim lt by (auto intro!: i32_in c_rem_pos simp: CB_LIMIT_def cbuf_consts)
  have mm: "min m (cb_maxsize cb + 17) = s + 17" by (simp add: s_def)
  have meta: "cb_alloc cb - cb_size cb = 17" "s + 17 - cb_alloc cb = s - cb_size cb"
    "cb_alloc cb < s + 17" "cb_magic cb = CBUF_MAGIC" "cb_size cb \<noteq> cb_maxsize cb"
    using al s(3) ok' lt by auto
  have "cbuf_grow cb n = Some (s - cb_size cb, cb')"
    using n(1) cb'(1,2,5) meta(3-5) unfolding cbuf_grow_def widened_def
    by (simp add: i m_def [symmetric] mm dat meta(1,2) Let_def del: take_append min_less_iff_conj)
  then show ?thesis using cb' s by auto
qed

subsection \<open>Moving the read index\<close>

text \<open>The index \<open>j\<close> bytes before the read index starts the last \<open>j\<close> replayable bytes.\<close>

lemma behind_rewound:
  assumes ok: "cbuf_ok cb" and j: "0 \<le> j" "j \<le> int (length (past cb))"
  defines "x \<equiv> (cb_out cb - j + (cb_size cb + 1)) mod (cb_size cb + 1)"
  shows "behind cb x = cb_used cb + j" and "0 \<le> x" and "x \<le> cb_size cb"
proof -
  note ok' = ok [unfolded cbuf_ok_def] and D = cbuf_okD [OF ok]
  have "behind cb x = (cb_in cb - cb_out cb + j) mod (cb_size cb + 1)"
  proof -
    have "x = (cb_out cb - j) mod (cb_size cb + 1)" unfolding x_def by (rule mod_add_self2)
    then show ?thesis unfolding behind_def by (simp add: mod_diff_right_eq algebra_simps)
  qed
  also have "\<dots> = (cb_used cb + j) mod (cb_size cb + 1)"
    using ok' by (simp add: behind_def mod_add_left_eq)
  also have "\<dots> = cb_used cb + j"
    using D j length_past [OF ok] by (simp add: mod_pos_pos_trivial)
  finally show "behind cb x = cb_used cb + j" .
  show "0 \<le> x" "x \<le> cb_size cb"
    unfolding x_def using D(1) pos_mod_bound [of "cb_size cb + 1"] by (auto simp: int_one_le_iff_zero_less)
qed

lemma past_rotate:
  assumes ok: "cbuf_ok cb" and j: "0 \<le> j" "j \<le> int (length (past cb))"
  defines "x \<equiv> (cb_out cb - j + (cb_size cb + 1)) mod (cb_size cb + 1)"
  shows "take (nat j) (rotate (nat x) (cb_data cb)) = lastn (nat j) (past cb)"
proof -
  note D = cbuf_okD [OF ok] and b = behind_rewound [OF ok j, folded x_def]
  have lu: "nat (cb_used cb) = length (unread cb)" using length_unread [OF ok] by simp
  have "take (nat (cb_used cb + j)) (rotate (nat x) (cb_data cb)) = lastn (nat (cb_used cb + j)) (window cb)"
    using index_rotate [OF ok b(2,3)] by (simp add: b(1))
  also have "\<dots> = lastn (nat (cb_used cb + j)) (blog cb)"
    using D j length_past [OF ok] by (simp add: blog_def lastn_lastn min_absorb1)
  also have "\<dots> = lastn (nat j) (past cb) @ unread cb"
    using D(3) j(1) by (simp add: blog_split [OF ok] nat_add_distrib lu add.commute lastn_append)
  finally have "take (nat j) (take (nat (cb_used cb + j)) (rotate (nat x) (cb_data cb))) = lastn (nat j) (past cb)"
    using j by simp
  then show ?thesis using D(3) by (simp add: min_absorb1)
qed

lemma cbuf_used_behind: "cbuf_ok cb \<Longrightarrow> cb_used cb = behind cb (cb_out cb)"
  by (simp add: cbuf_ok_def)

text \<open>Setting the read index to one that lies \<open>u\<close> bytes back, within the log.\<close>

lemma cbuf_ok_seek:
  assumes ok: "cbuf_ok cb" and x: "0 \<le> x" "x \<le> cb_size cb" "behind cb x \<le> int (length (blog cb))"
  defines "cb' \<equiv> cb\<lparr> cb_used := behind cb x, cb_out := x \<rparr>"
  shows "cbuf_ok cb'" and "blog cb' = blog cb" and "unread cb' = lastn (nat (behind cb x)) (blog cb)"
proof -
  have b: "behind cb' y = behind cb y" for y by (simp add: behind_def cb'_def)
  show "cbuf_ok cb'"
    using ok x length_blog [OF ok] unfolding cbuf_ok_def b by (simp add: cb'_def)
  show "blog cb' = blog cb" unfolding blog_def b by (simp add: window_def cb'_def)
  show "unread cb' = lastn (nat (behind cb x)) (blog cb)"
    using x(3) length_blog [OF ok] by (simp add: unread_def blog_def lastn_lastn window_def cb'_def min_absorb1 nat_mono)
qed

lemma behind_fwd:
  assumes ok: "cbuf_ok cb" and p: "0 \<le> p" "p \<le> cb_used cb"
  defines "x \<equiv> (cb_out cb + p) mod (cb_size cb + 1)"
  shows "behind cb x = cb_used cb - p" and "0 \<le> x" and "x \<le> cb_size cb"
proof -
  note ok' = ok [unfolded cbuf_ok_def] and D = cbuf_okD [OF ok]
  have "behind cb x = (cb_used cb - p) mod (cb_size cb + 1)"
    unfolding behind_def x_def using ok' by (simp add: mod_diff_right_eq behind_def mod_diff_left_eq) (simp flip: diff_diff_eq)
  also have "\<dots> = cb_used cb - p" using p D by (simp add: mod_pos_pos_trivial)
  finally show "behind cb x = cb_used cb - p" .
  show "0 \<le> x" "x \<le> cb_size cb"
    unfolding x_def using D(1) pos_mod_bound [of "cb_size cb + 1"] by (auto simp: int_one_le_iff_zero_less)
qed

lemma behind_inj:
  assumes "cbuf_ok cb" "0 \<le> x" "x \<le> cb_size cb" "0 \<le> y" "y \<le> cb_size cb" "behind cb x = behind cb y"
  shows "x = y"
proof -
  have "0 \<le> cb_in cb" "cb_in cb \<le> cb_size cb" using assms(1) by (simp_all add: cbuf_ok_def)
  then show ?thesis using assms(2-6) behind_if [of cb x] behind_if [of cb y] by (simp split: if_splits)
qed

lemma behind_in [simp]: "behind cb (cb_in cb) = 0"
  by (simp add: behind_def)

lemma cbuf_dropper_ok:
  assumes ok: "cbuf_ok cb" and len: "0 < len" "len \<le> cb_used cb"
  shows "\<exists>cb'. cbuf_dropper cb len = Some (len, cb') \<and> cbuf_ok cb' \<and> same_opts cb cb' \<and> cb_size cb' = cb_size cb
     \<and> blog cb' = blog cb \<and> unread cb' = drop (nat len) (unread cb) \<and> cb_got_wrap cb' = cb_got_wrap cb"
proof -
  note ok' = ok [unfolded cbuf_ok_def] and D = cbuf_okD [OF ok]
  define x where "x = (cb_out cb + len) mod (cb_size cb + 1)"
  have bx: "behind cb x = cb_used cb - len" and xb: "0 \<le> x" "x \<le> cb_size cb"
    using behind_fwd [OF ok, of len] len by (simp_all add: x_def)
  let ?cb = "cb\<lparr> cb_used := cb_used cb - len, cb_out := x \<rparr>"
  have seek: "cbuf_ok ?cb" "blog ?cb = blog cb" "unread ?cb = lastn (nat (cb_used cb - len)) (blog cb)"
    using cbuf_ok_seek [OF ok xb] len D length_blog [OF ok] by (simp_all add: bx)
  have "lastn (nat (cb_used cb - len)) (blog cb) = drop (nat len) (unread cb)"
    using len D length_blog [OF ok] by (simp add: unread_blog [OF ok] lastn_def nat_diff_distrib add.commute)
  moreover have "cbuf_dropper cb len = Some (len, ?cb)"
    using len D seek(1) ok' unfolding cbuf_dropper_def
    by (simp add: ring_in CB_LIMIT_def x_def [symmetric] cbuf_shrink_def Let_def)
  ultimately show ?thesis using seek by (auto simp: same_opts_def)
qed

lemma past_of_blog:
  assumes "cbuf_ok cb" and "blog cb = xs @ unread cb" shows "past cb = xs"
  using assms by (simp add: blog_split)

lemma unread_again_ok:
  assumes ok: "cbuf_ok cb" and len: "0 \<le> len" "len \<le> int (length (past cb))"
  shows "\<exists>cb'. unread_again cb len = Some cb' \<and> cbuf_ok cb' \<and> same_opts cb cb' \<and> cb_size cb' = cb_size cb
     \<and> blog cb' = blog cb \<and> unread cb' = lastn (nat len) (past cb) @ unread cb \<and> cb_got_wrap cb' = cb_got_wrap cb"
proof -
  note ok' = ok [unfolded cbuf_ok_def] and D = cbuf_okD [OF ok] and b = behind_rewound [OF ok len]
  define x where "x = (cb_out cb - len + (cb_size cb + 1)) mod (cb_size cb + 1)"
  note b = b [folded x_def]
  let ?cb = "cb\<lparr> cb_used := cb_used cb + len, cb_out := x \<rparr>"
  have seek: "cbuf_ok ?cb" "blog ?cb = blog cb" "unread ?cb = lastn (nat (cb_used cb + len)) (blog cb)"
    using cbuf_ok_seek [OF ok b(2,3)] len D length_blog [OF ok] length_past [OF ok] by (simp_all add: b(1))
  have lu: "nat (cb_used cb) = length (unread cb)" using length_unread [OF ok] by simp
  have "lastn (nat (cb_used cb + len)) (blog cb) = lastn (nat len) (past cb) @ unread cb"
    using D(3) len(1) by (simp add: blog_split [OF ok] nat_add_distrib lu add.commute lastn_append)
  moreover have "unread_again cb len = Some ?cb"
  proof -
    have "0 \<le> cb_out cb" "cb_out cb \<le> cb_size cb" using ok' by simp_all
    then have "0 \<le> cb_out cb - len + (cb_size cb + 1)" "cb_out cb - len + (cb_size cb + 1) < 2 ^ 31"
      "0 \<le> cb_used cb + len" "cb_used cb + len < 2 ^ 31"
      using D(1-3,5) len length_past [OF ok] by (simp_all add: CB_LIMIT_def)
    then show ?thesis using D(1) by (simp add: unread_again_def ring_in i32_in x_def)
  qed
  ultimately show ?thesis using seek by (auto simp: same_opts_def)
qed

end
