(* ===== verification/Cbuf_Io.thy ===== *)
theory Cbuf_Io
  imports Cbuf_Ring
begin

text \<open>
  The copying loops of the circular buffers for an arbitrary sink or source. The contract of the I/O
  functions is a locale each: \<open>byte_sink\<close> for the functions that take bytes out of a buffer,
  \<open>byte_source\<close> for those that supply bytes; memory in addition never gives a short count. Inside them \<open>cbuf_reader\<close>, \<open>cbuf_replayer\<close> and \<open>cbuf_writer\<close> are shown to move
  exactly the bytes that the sink or source reports, in order; the locales are then interpreted on
  \<open>cbuf_put_mem\<close> and \<open>cbuf_get_mem\<close> and shown for \<open>cbuf_put_fd\<close> and \<open>cbuf_get_fd\<close> on any system call that
  honours its documented result.
\<close>

subsection \<open>Sinks\<close>

text \<open>\<open>sent\<close> are the bytes a sink has taken, \<open>fits\<close> how many more it has space for.\<close>

definition never_short :: "'d putf \<Rightarrow> bool" where
  "never_short putf \<longleftrightarrow> (\<forall>bs d m d'. putf bs d = Some (m, d') \<longrightarrow> m = int (length bs))"

locale byte_sink =
  fixes putf :: "u8 list \<Rightarrow> 'd \<Rightarrow> (int \<times> 'd) option"
    and inv :: "'d \<Rightarrow> bool" and fits :: "'d \<Rightarrow> int \<Rightarrow> bool" and sent :: "'d \<Rightarrow> u8 list"
  assumes put: "inv d \<Longrightarrow> bs \<noteq> [] \<Longrightarrow> fits d (int (length bs)) \<Longrightarrow>
      \<exists>m d'. putf bs d = Some (m, d') \<and> m \<le> int (length bs) \<and> inv d' \<and> sent d' = sent d @ take (nat m) bs
        \<and> (\<forall>k. 0 \<le> k \<longrightarrow> fits d (int (length bs) + k) \<longrightarrow> fits d' k)"
    and fits_less: "fits d k \<Longrightarrow> j \<le> k \<Longrightarrow> fits d j"
begin

lemma put_loop_ok:
  assumes "cbuf_ok src" and "0 \<le> i" "i \<le> cb_size src" and "0 \<le> nleft" "nleft \<le> cb_size src" and "inv d" "fits d nleft"
  shows "\<exists>nleft' m' d'. put_loop putf src i nleft m d = Some (nleft', m', d') \<and> 0 \<le> nleft' \<and> nleft' \<le> nleft
     \<and> inv d' \<and> sent d' = sent d @ take (nat (nleft - nleft')) (rotate (nat i) (cb_data src))
     \<and> (nleft' = nleft \<longrightarrow> 0 < nleft \<longrightarrow> m' \<le> 0)
     \<and> (never_short putf \<longrightarrow> nleft' = 0)"
  using assms(2-)
proof (induction "nat nleft" arbitrary: i nleft m d rule: less_induct)
  case less
  note ok' = assms(1) [unfolded cbuf_ok_def] and D = cbuf_okD [OF assms(1)]
  show ?case
  proof (cases "0 < nleft")
    case False
    with less.prems show ?thesis by (subst put_loop.simps) simp
  next
    case True
    define n where "n = min nleft (cb_size src + 1 - i)"
    have n: "0 < n" "n \<le> nleft" "i + n \<le> cb_size src + 1" using True less.prems by (auto simp: n_def)
    define bs where "bs = take (nat n) (rotate (nat i) (cb_data src))"
    have lenN: "int (length (cb_data src)) = cb_size src + 1" using ok' by simp
    have sub: "mem_sub (cb_data src) i n = Some bs"
      using n less.prems lenN by (simp add: mem_sub_in bs_def take_rotate nat_less_iff nat_le_iff flip: nat_add_distrib)
    have lbs: "int (length bs) = n" using n less.prems lenN by (simp add: bs_def)
    have "bs \<noteq> []" "fits d (int (length bs))" using lbs n fits_less [OF less.prems(6), of n] by auto
    with put [OF less.prems(5)] obtain m1 d1 where p: "putf bs d = Some (m1, d1)" "m1 \<le> n" "inv d1"
      "sent d1 = sent d @ take (nat m1) bs" "\<forall>k. 0 \<le> k \<longrightarrow> fits d (n + k) \<longrightarrow> fits d1 k" by (metis lbs)
    have lim: "i + m1 < 2 ^ 31" using p(2) n D by (simp add: CB_LIMIT_def)
    show ?thesis
    proof (cases "m1 = n")
      case False
      have "put_loop putf src i nleft m d = Some (if m1 > 0 then nleft - m1 else nleft, m1, d1)"
        using True sub p(1) False lim less.prems(1) D(1) by (subst put_loop.simps) (simp add: n_def [symmetric] Let_def ring_in)
      moreover have "take (nat m1) bs = take (nat (if m1 > 0 then m1 else 0)) (rotate (nat i) (cb_data src))"
        using p(2) n by (simp add: bs_def min_absorb1 nat_mono)
      moreover have "\<not> never_short putf" using p(1) False lbs by (auto simp: never_short_def)
      ultimately show ?thesis using p False n by auto
    next
      case eq: True
      define i1 where "i1 = (i + n) mod (cb_size src + 1)"
      have i1: "0 \<le> i1" "i1 \<le> cb_size src" using D(1) pos_mod_bound [of "cb_size src + 1" "i + n"] by (auto simp: i1_def)
      have step: "put_loop putf src i nleft m d = put_loop putf src i1 (nleft - n) n d1"
        using True sub p(1) eq lim less.prems(1) D(1) n by (subst put_loop.simps) (simp add: n_def [symmetric] Let_def ring_in i1_def)
      have "fits d1 (nleft - n)" using p(5) less.prems(6) n by simp
      then have "\<exists>nleft' m' d'. put_loop putf src i1 (nleft - n) n d1 = Some (nleft', m', d') \<and> 0 \<le> nleft'
          \<and> nleft' \<le> nleft - n \<and> inv d'
          \<and> sent d' = sent d1 @ take (nat (nleft - n - nleft')) (rotate (nat i1) (cb_data src))
          \<and> (nleft' = nleft - n \<longrightarrow> 0 < nleft - n \<longrightarrow> m' \<le> 0) \<and> (never_short putf \<longrightarrow> nleft' = 0)"
        using n i1 p(3) less.prems(3,4) by (intro less.hyps) auto
      then obtain nl m' d' where
        r: "put_loop putf src i1 (nleft - n) n d1 = Some (nl, m', d')" "0 \<le> nl" "nl \<le> nleft - n" "inv d'"
          "sent d' = sent d1 @ take (nat (nleft - n - nl)) (rotate (nat i1) (cb_data src))"
          "never_short putf \<longrightarrow> nl = 0"
        by blast
      have "nat i1 = (nat i + nat n) mod length (cb_data src)"
        using n(1) less.prems(1) lenN by (simp add: i1_def nat_mod_ring nat_add_distrib)
      then have rot: "rotate (nat i1) (cb_data src) = rotate (nat n) (rotate (nat i) (cb_data src))" by (simp add: rotate_step)
      have "sent d' = sent d @ take (nat (nleft - nl)) (rotate (nat i) (cb_data src))"
      proof -
        let ?R = "rotate (nat i) (cb_data src)"
        have "nat n \<le> length ?R" "nat (nleft - n - nl) + nat n \<le> length ?R" "nat (nleft - nl) = nat n + nat (nleft - n - nl)"
          using n less.prems r lenN by auto
        moreover from this have "take (nat (nleft - n - nl)) (rotate (nat n) ?R) = take (nat (nleft - n - nl)) (drop (nat n) ?R)"
          by (intro take_rotate_drop)
        ultimately show ?thesis using r(5) p(4) eq rot by (simp add: bs_def take_add)
      qed
      with r step n show ?thesis by auto
    qed
  qed
qed

lemma reader_ok:
  assumes "cbuf_ok src" and "0 < len" and "inv d" "fits d len"
  shows "\<exists>n k d'. cbuf_reader src len putf d = Some (n, d') \<and> inv d' \<and> 0 \<le> k \<and> k \<le> min len (cb_used src)
     \<and> sent d' = sent d @ take (nat k) (unread src) \<and> (if k = 0 then n \<le> 0 else n = k)
     \<and> (never_short putf \<longrightarrow> n = min len (cb_used src))"
proof -
  note D = cbuf_okD [OF assms(1)] and ok' = assms(1) [unfolded cbuf_ok_def]
  define l where "l = min len (cb_used src)"
  have l: "0 \<le> l" "l \<le> cb_used src" "fits d l" using assms(2,4) D(3) fits_less by (auto simp: l_def)
  obtain nl m d' where r: "put_loop putf src (cb_out src) l 0 d = Some (nl, m, d')" "0 \<le> nl" "nl \<le> l" "inv d'"
      "sent d' = sent d @ take (nat (l - nl)) (rotate (nat (cb_out src)) (cb_data src))"
      "nl = l \<longrightarrow> 0 < l \<longrightarrow> m \<le> 0" "never_short putf \<longrightarrow> nl = 0"
    using put_loop_ok [OF assms(1), of "cb_out src" l d 0] ok' l D assms(3) by auto
  have "take (nat (l - nl)) (unread src) = take (nat (l - nl)) (rotate (nat (cb_out src)) (cb_data src))"
    using r(2,3) l(2) by (simp add: unread_rotate [OF assms(1)] min_absorb1 nat_mono)
  then show ?thesis
    using r l assms(2,3) unfolding cbuf_reader_def l_def [symmetric]
    by (cases "l = 0") (auto simp: Let_def l_def [symmetric] intro!: exI [of _ "l - nl"])
qed

lemma replayer_ok:
  assumes "cbuf_ok src" and "0 < len" and "inv d" "fits d len"
  defines "l \<equiv> min len (int (length (past src)))"
  shows "\<exists>n k d'. cbuf_replayer src len putf d = Some (n, d') \<and> inv d' \<and> 0 \<le> k \<and> k \<le> l
     \<and> sent d' = sent d @ take (nat k) (lastn (nat l) (past src)) \<and> (if k = 0 then n \<le> 0 else n = k)
     \<and> (never_short putf \<longrightarrow> n = l)"
proof -
  note D = cbuf_okD [OF assms(1)] and ok' = assms(1) [unfolded cbuf_ok_def]
  have np: "nrepl src = Some (int (length (past src)))"
    using cbuf_ok_nrepl [OF assms(1)] length_past [OF assms(1)] by simp
  have l: "0 \<le> l" "l \<le> int (length (past src))" "l \<le> cb_size src" "fits d l"
    using assms(2,4) D length_past [OF assms(1)] fits_less by (auto simp: l_def)
  define x where "x = (cb_out src - l + (cb_size src + 1)) mod (cb_size src + 1)"
  have x: "0 \<le> x" "x \<le> cb_size src" using behind_rewound [OF assms(1) l(1,2)] by (auto simp: x_def)
  have rx: "ring src (cb_out src - l + (cb_size src + 1)) = Some x"
    unfolding x_def using D ok' l(1,3) by (intro ring_in) (auto simp: CB_LIMIT_def)
  obtain nl m d' where r: "put_loop putf src x l 0 d = Some (nl, m, d')" "0 \<le> nl" "nl \<le> l" "inv d'"
      "sent d' = sent d @ take (nat (l - nl)) (rotate (nat x) (cb_data src))"
      "nl = l \<longrightarrow> 0 < l \<longrightarrow> m \<le> 0" "never_short putf \<longrightarrow> nl = 0"
    using put_loop_ok [OF assms(1) x l(1,3) assms(3) l(4), of 0] by auto
  have "take (nat (l - nl)) (lastn (nat l) (past src)) = take (nat (l - nl)) (rotate (nat x) (cb_data src))"
    using r(2,3) by (simp add: past_rotate [OF assms(1) l(1,2), folded x_def, symmetric] min_absorb1 nat_mono)
  then show ?thesis
    using r l rx np assms(2,3) unfolding cbuf_replayer_def
    by (cases "l = 0") (auto simp: Let_def l_def [symmetric] intro!: exI [of _ "l - nl"])
qed

end

subsection \<open>Sources\<close>

text \<open>\<open>took\<close> are the bytes a source has handed out, \<open>has\<close> how many more it can hand out.\<close>

definition never_short_get :: "'s getf \<Rightarrow> bool" where
  "never_short_get getf \<longleftrightarrow> (\<forall>n s m bs s'. getf n s = Some (m, bs, s') \<longrightarrow> m = n)"

lemma stored_init: "cbuf_ok cb \<Longrightarrow> stored cb [] (cb_data cb) (cb_in cb)"
  using cbuf_okD(1) [of cb] by (simp add: stored_def window_def cbuf_ok_def)

lemma stored_bounds: "cbuf_ok cb \<Longrightarrow> stored cb bs d i \<Longrightarrow> 0 \<le> i \<and> i \<le> cb_size cb \<and> int (length d) = cb_size cb + 1"
  using cbuf_okD(1) [of cb] pos_mod_bound [of "cb_size cb + 1" "cb_in cb + int (length bs)"]
  by (auto simp: stored_def cbuf_ok_def)

text \<open>One \<open>memcpy\<close> of a copying loop.\<close>

lemma stored_step:
  assumes ok: "cbuf_ok cb" and st: "stored cb bs0 d i" and fit: "i + int (length bs) \<le> cb_size cb + 1"
  shows "\<exists>d'. mem_put d i bs = Some d' \<and> stored cb (bs0 @ bs) d' ((i + int (length bs)) mod (cb_size cb + 1))"
proof -
  have b: "0 \<le> i" "i \<le> cb_size cb" "int (length d) = cb_size cb + 1" using stored_bounds [OF ok st] by auto
  let ?d = "take (nat i) d @ bs @ drop (nat i + length bs) d"
  have nb: "nat i < length d" "nat i + length bs \<le> length d" using b fit by linarith+
  have len: "length ?d = length d" using nb by simp
  have i': "nat ((i + int (length bs)) mod (cb_size cb + 1)) = (nat i + length bs) mod length d"
    using b by (simp add: nat_mod_ring nat_add_distrib)
  have "rotate (nat ((i + int (length bs)) mod (cb_size cb + 1))) ?d = drop (length bs) (rotate (nat i) d @ bs)"
    unfolding i' by (rule rotate_store [OF nb])
  also have "\<dots> = drop (length (bs0 @ bs)) (window cb @ bs0 @ bs)"
  proof -
    have R: "rotate (nat i) d = drop (length bs0) (window cb @ bs0)" using st unfolding stored_def by blast
    have "rotate (nat i) d @ bs = drop (length bs0) (window cb @ bs0 @ bs)" unfolding R by simp
    then show ?thesis by (simp only: drop_drop length_append add.commute)
  qed
  finally have "stored cb (bs0 @ bs) ?d ((i + int (length bs)) mod (cb_size cb + 1))"
    using st len by (simp add: stored_def mod_add_left_eq add.assoc)
  then show ?thesis using b fit by (simp add: mem_put_in)
qed

text \<open>How a write of \<open>len\<close> bytes sees the buffer after it tried to grow, and how much of it is accepted.\<close>

definition roomy :: "cbuf \<Rightarrow> cbuf \<Rightarrow> int \<Rightarrow> bool" where
  "roomy cb cb' len \<longleftrightarrow> cb_size cb \<le> cb_size cb'
     \<and> (cb_size cb' = cb_maxsize cb \<or> cb_used cb + len \<le> cb_size cb')
     \<and> (cb_used cb + len \<le> cb_size cb \<longrightarrow> cb_size cb' = cb_size cb)"

definition accepts :: "cbuf \<Rightarrow> int \<Rightarrow> int \<Rightarrow> int" where
  "accepts cb sz len =
     (if cb_overwrite cb = CBUF_NO_DROP then min len (sz - cb_used cb)
      else if cb_overwrite cb = CBUF_WRAP_ONCE then min len sz else len)"

lemma make_room_ok:
  assumes ok: "cbuf_ok cb" and len: "0 < len" "len \<le> 2 ^ 30"
  shows "\<exists>cb'. make_room cb len = Some (cb_size cb' - cb_used cb, cb') \<and> cbuf_ok cb' \<and> same_opts cb cb'
     \<and> roomy cb cb' len \<and> blog cb' = blog cb \<and> unread cb' = unread cb \<and> cb_used cb' = cb_used cb
     \<and> cb_got_wrap cb' = cb_got_wrap cb"
proof (cases "len > cb_size cb - cb_used cb \<and> cb_size cb < cb_maxsize cb")
  case True
  note D = cbuf_okD [OF ok]
  obtain g cb' where "cbuf_grow cb (len - (cb_size cb - cb_used cb)) = Some (g, cb')" "cbuf_ok cb'" "same_opts cb cb'"
    "cb_size cb' = cb_size cb + g" "0 < g" "cb_size cb' = cb_maxsize cb \<or> len - (cb_size cb - cb_used cb) < g"
    "blog cb' = blog cb" "cb_used cb' = cb_used cb" "cb_got_wrap cb' = cb_got_wrap cb"
    using cbuf_grow_ok [OF ok, of "len - (cb_size cb - cb_used cb)"] True D len by auto
  with True show ?thesis
    by (auto simp: make_room_def Let_def roomy_def unread_blog [OF ok] unread_blog)
next
  case False
  with ok show ?thesis by (auto simp: make_room_def Let_def roomy_def cbuf_ok_def)
qed

locale byte_source =
  fixes getf :: "int \<Rightarrow> 's \<Rightarrow> (int \<times> u8 list \<times> 's) option"
    and inv :: "'s \<Rightarrow> bool" and has :: "'s \<Rightarrow> int \<Rightarrow> bool" and took :: "'s \<Rightarrow> u8 list"
  assumes get: "inv s \<Longrightarrow> 0 < n \<Longrightarrow> has s n \<Longrightarrow>
      \<exists>m bs s'. getf n s = Some (m, bs, s') \<and> m \<le> n \<and> length bs = nat m \<and> inv s' \<and> took s' = took s @ bs
        \<and> (\<forall>k. 0 \<le> k \<longrightarrow> has s (n + k) \<longrightarrow> has s' k)"
    and has_less: "has s k \<Longrightarrow> j \<le> k \<Longrightarrow> has s j"
begin

lemma get_loop_ok:
  assumes ok: "cbuf_ok cb" and "stored cb bs0 d i" and "0 \<le> nleft" "nleft \<le> 2 ^ 30" and "inv s" "has s nleft"
  shows "\<exists>i' nleft' m' d' s' bs. get_loop getf (cb\<lparr> cb_data := d \<rparr>) i nleft m s = Some (i', nleft', m', cb\<lparr> cb_data := d' \<rparr>, s')
     \<and> 0 \<le> nleft' \<and> nleft' \<le> nleft \<and> inv s' \<and> took s' = took s @ bs \<and> int (length bs) = nleft - nleft'
     \<and> stored cb (bs0 @ bs) d' i' \<and> (bs = [] \<longrightarrow> 0 < nleft \<longrightarrow> m' \<le> 0) \<and> (never_short_get getf \<longrightarrow> nleft' = 0)"
  using assms(2-)
proof (induction "nat nleft" arbitrary: bs0 i nleft m d s rule: less_induct)
  case less
  note D = cbuf_okD [OF ok]
  have b: "0 \<le> i" "i \<le> cb_size cb" "int (length d) = cb_size cb + 1" using stored_bounds [OF ok less.prems(1)] by auto
  show ?case
  proof (cases "0 < nleft")
    case False
    then have "get_loop getf (cb\<lparr> cb_data := d \<rparr>) i nleft m s = Some (i, nleft, m, cb\<lparr> cb_data := d \<rparr>, s)"
      by (subst get_loop.simps) simp
    with False less.prems show ?thesis
      by - (rule exI [of _ i], rule exI [of _ nleft], rule exI [of _ m], rule exI [of _ d], rule exI [of _ s], rule exI [of _ "[]"], simp)
  next
    case True
    define n where "n = min nleft (cb_size cb + 1 - i)"
    have n: "0 < n" "n \<le> nleft" "i + n \<le> cb_size cb + 1" using True b by (auto simp: n_def)
    from get [OF less.prems(4) n(1) has_less [OF less.prems(5) n(2)]] obtain m1 bs s1 where
      g: "getf n s = Some (m1, bs, s1)" "m1 \<le> n" "length bs = nat m1" "inv s1" "took s1 = took s @ bs"
        "\<forall>k. 0 \<le> k \<longrightarrow> has s (n + k) \<longrightarrow> has s1 k" by blast
    have "i + int (length bs) \<le> cb_size cb + 1" using g(2,3) n b by simp
    from stored_step [OF ok less.prems(1) this] obtain d1 where
      p: "mem_put d i bs = Some d1" "stored cb (bs0 @ bs) d1 ((i + int (length bs)) mod (cb_size cb + 1))" by blast
    have lim: "i + m1 < 2 ^ 31" using g(2) n D by (simp add: CB_LIMIT_def)
    have rg: "ring (cb\<lparr> cb_data := d1 \<rparr>) (i + m1) = Some ((i + int (length bs)) mod (cb_size cb + 1))" if "0 < m1"
      using that g(3) b(1) lim D(1) by (simp add: ring_in)
    show ?thesis
    proof (cases "m1 = n")
      case False
      have ns: "\<not> never_short_get getf" using g(1) False unfolding never_short_get_def by blast
      show ?thesis
      proof (cases "0 < m1")
        case m: True
        have "get_loop getf (cb\<lparr> cb_data := d \<rparr>) i nleft m s
           = Some ((i + int (length bs)) mod (cb_size cb + 1), nleft - m1, m1, cb\<lparr> cb_data := d1 \<rparr>, s1)"
          using True g(1) p(1) False rg [OF m] m by (subst get_loop.simps) (simp add: n_def [symmetric] Let_def)
        with p(2) g m n ns show ?thesis
          by - (rule exI [of _ "(i + int (length bs)) mod (cb_size cb + 1)"], rule exI [of _ "nleft - m1"], rule exI [of _ m1], rule exI [of _ d1], rule exI [of _ s1], rule exI [of _ bs], auto)
      next
        case m: False
        then have "bs = []" using g(3) by simp
        have "get_loop getf (cb\<lparr> cb_data := d \<rparr>) i nleft m s = Some (i, nleft, m1, cb\<lparr> cb_data := d1 \<rparr>, s1)"
          using True g(1) p(1) False m by (subst get_loop.simps) (simp add: n_def [symmetric] Let_def)
        moreover have "(i + 0) mod (cb_size cb + 1) = i" using b by (simp add: mod_pos_pos_trivial)
        ultimately show ?thesis using p(2) g m ns \<open>bs = []\<close> True
          by - (rule exI [of _ i], rule exI [of _ nleft], rule exI [of _ m1], rule exI [of _ d1], rule exI [of _ s1], rule exI [of _ "[]"], simp)
      qed
    next
      case eq: True
      have step: "get_loop getf (cb\<lparr> cb_data := d \<rparr>) i nleft m s
          = get_loop getf (cb\<lparr> cb_data := d1 \<rparr>) ((i + int (length bs)) mod (cb_size cb + 1)) (nleft - n) n s1"
        using True g(1) p(1) eq n(1) rg by (subst get_loop.simps) (simp add: n_def [symmetric] Let_def)
      have "has s1 (nleft - n)" using g(6) less.prems(5) n by simp
      then have "\<exists>i' nleft' m' d' s' bs'. get_loop getf (cb\<lparr> cb_data := d1 \<rparr>) ((i + int (length bs)) mod (cb_size cb + 1)) (nleft - n) n s1
          = Some (i', nleft', m', cb\<lparr> cb_data := d' \<rparr>, s') \<and> 0 \<le> nleft' \<and> nleft' \<le> nleft - n \<and> inv s'
          \<and> took s' = took s1 @ bs' \<and> int (length bs') = nleft - n - nleft' \<and> stored cb ((bs0 @ bs) @ bs') d' i'
          \<and> (bs' = [] \<longrightarrow> 0 < nleft - n \<longrightarrow> m' \<le> 0) \<and> (never_short_get getf \<longrightarrow> nleft' = 0)"
        using n less.prems(2,3) g(4) p(2) by (intro less.hyps) auto
      then obtain i' nl m' d' s' bs' where r: "get_loop getf (cb\<lparr> cb_data := d1 \<rparr>) ((i + int (length bs)) mod (cb_size cb + 1)) (nleft - n) n s1
          = Some (i', nl, m', cb\<lparr> cb_data := d' \<rparr>, s')" "0 \<le> nl" "nl \<le> nleft - n" "inv s'"
          "took s' = took s1 @ bs'" "int (length bs') = nleft - n - nl" "stored cb ((bs0 @ bs) @ bs') d' i'"
          "never_short_get getf \<longrightarrow> nl = 0" by blast
      have "bs @ bs' \<noteq> []" "int (length (bs @ bs')) = nleft - nl" using g(3) eq n(1) r(6) by auto
      with r step g(5) n(1) show ?thesis by - (rule exI [of _ i'], rule exI [of _ nl], rule exI [of _ m'], rule exI [of _ d'], rule exI [of _ s'], rule exI [of _ "bs @ bs'"], auto)
    qed
  qed
qed

lemma writer_ok:
  assumes ok: "cbuf_ok cb" and len: "0 < len" "len \<le> 2 ^ 30" and src: "inv s" "has s len"
  shows "\<exists>n nd cb' s' bs. cbuf_writer cb len getf s = Some (n, nd, cb', s') \<and> cbuf_ok cb' \<and> same_opts cb cb'
     \<and> roomy cb cb' len \<and> inv s' \<and> took s' = took s @ bs \<and> int (length bs) \<le> accepts cb (cb_size cb') len
     \<and> blog cb' = lastn (nat (cb_size cb')) (blog cb @ bs) \<and> unread cb' = lastn (nat (cb_size cb')) (unread cb @ bs)
     \<and> cb_got_wrap cb' = (cb_got_wrap cb \<or> int (length (blog cb)) + int (length bs) > cb_size cb')
     \<and> (if bs = [] then n \<le> 0 \<and> nd = None
        else n = int (length bs) \<and> nd = Some (max 0 (cb_used cb + int (length bs) - cb_size cb')))
     \<and> (never_short_get getf \<longrightarrow> int (length bs) = accepts cb (cb_size cb') len \<and> (bs = [] \<longrightarrow> n = -1))"
proof -
  from make_room_ok [OF ok len] obtain c where mr: "make_room cb len = Some (cb_size c - cb_used cb, c)" and c: "cbuf_ok c"
    "same_opts cb c" "roomy cb c len" "blog c = blog cb" "unread c = unread cb" "cb_used c = cb_used cb"
    "cb_got_wrap c = cb_got_wrap cb" by blast
  note D = cbuf_okD [OF c(1)]
  define l where "l = accepts cb (cb_size c) len"
  have ow: "cb_overwrite c = cb_overwrite cb" using c(2) by (simp add: same_opts_def)
  have l: "0 \<le> l" "l \<le> len" using len D c(6) by (auto simp: l_def accepts_def)
  have l0: "l = 0 \<Longrightarrow> cb_overwrite cb = CBUF_NO_DROP" using len D by (auto simp: l_def accepts_def split: if_splits)
  have lc: "l = (if cb_overwrite c = CBUF_NO_DROP then min len (cb_size c - cb_used c)
      else if cb_overwrite c = CBUF_WRAP_ONCE then min len (cb_size c) else len)"
    by (simp add: l_def accepts_def ow c(6))
  have W: "cbuf_writer cb len getf s =
      (if cb_overwrite c = CBUF_NO_DROP \<and> l = 0 then Some (-1, None, c, s)
       else do {
         (i_dst, nleft, m, dst, src) \<leftarrow> get_loop getf c (cb_in c) l 0 s;
         xassert (l - nleft \<ge> 0 \<and> l - nleft \<le> l);
         if l - nleft = 0 then Some (m, None, dst, src)
         else do {
           dst \<leftarrow> wrote dst (cb_size c - cb_used cb) (l - nleft) i_dst;
           Some (l - nleft, Some (max 0 (l - nleft - (cb_size c - cb_used cb))), dst, src) } })"
    using len(1)
    by (simp only: cbuf_writer_def mr Let_def xassert_bind bind.bind_lunit prod.case if_True lc [symmetric])
  have short: "lastn (nat (cb_size c)) (blog c) = blog c" "lastn (nat (cb_size c)) (unread c) = unread c"
    "int (length (blog c)) \<le> cb_size c"
    using length_blog [OF c(1)] length_unread [OF c(1)] D by (auto simp: le_nat_iff)
  show ?thesis
  proof (cases "l = 0")
    case True
    then have "cbuf_writer cb len getf s = Some (-1, None, c, s)"
      using mr len l0 ow unfolding W by simp
    with c True short src show ?thesis
      by - (rule exI [of _ "-1"], rule exI [of _ None], rule exI [of _ c], rule exI [of _ s], rule exI [of _ "[]"], simp add: l_def)
  next
    case False
    have hl: "l \<le> 2 ^ 30" "has s l" using l len has_less [OF src(2)] by auto
    from get_loop_ok [OF c(1) stored_init [OF c(1)] l(1) hl(1) src(1) hl(2), of 0] obtain i nl m d s' bs where
      r: "get_loop getf (c\<lparr> cb_data := cb_data c \<rparr>) (cb_in c) l 0 s = Some (i, nl, m, c\<lparr> cb_data := d \<rparr>, s')"
        "0 \<le> nl" "nl \<le> l" "inv s'" "took s' = took s @ bs" "int (length bs) = l - nl" "stored c bs d i"
        "bs = [] \<longrightarrow> 0 < l \<longrightarrow> m \<le> 0" "never_short_get getf \<longrightarrow> nl = 0"
      unfolding append_Nil by blast
    have r1: "get_loop getf c (cb_in c) l 0 s = Some (i, nl, m, c\<lparr> cb_data := d \<rparr>, s')" using r(1) by simp
    show ?thesis
    proof (cases "bs = []")
      case True
      then have nl: "nl = l" using r(6) by simp
      have "window (c\<lparr> cb_data := d \<rparr>) = window c" "cb_data (c\<lparr> cb_data := d \<rparr>) = d" "length d = length (cb_data c)"
        using r(7) True D(1) c(1) by (auto simp: stored_def window_def cbuf_ok_def mod_pos_pos_trivial)
      then have c1: "cbuf_ok (c\<lparr> cb_data := d \<rparr>)" "blog (c\<lparr> cb_data := d \<rparr>) = blog c" "unread (c\<lparr> cb_data := d \<rparr>) = unread c"
        using c(1) by (simp_all add: cbuf_ok_def blog_def unread_def behind_def)
      have "cbuf_writer cb len getf s = Some (m, None, c\<lparr> cb_data := d \<rparr>, s')"
        using mr len False r1 nl ow l(1) unfolding W by simp
      with c c1 short r True False l nl show ?thesis
        by - (rule exI [of _ m], rule exI [of _ None], rule exI [of _ "c\<lparr> cb_data := d \<rparr>"], rule exI [of _ s'], rule exI [of _ "[]"],
          simp add: l_def [symmetric] same_opts_def roomy_def)
    next
      case ne: False
      then have n: "0 < length bs" "int (length bs) \<le> 2 ^ 30" using r(2,6) l len by auto
      obtain c' where w: "wrote (c\<lparr> cb_data := d \<rparr>) (cb_size c - cb_used c) (int (length bs)) i = Some c'"
        "cbuf_ok c'" "same_opts c c'" "cb_size c' = cb_size c"
        "blog c' = lastn (nat (cb_size c)) (blog c @ bs)" "unread c' = lastn (nat (cb_size c)) (unread c @ bs)"
        "cb_got_wrap c' = (cb_got_wrap c \<or> int (length (blog c)) + int (length bs) > cb_size c)"
        using wrote_ok [OF c(1) r(7) n] by blast
      have "cbuf_writer cb len getf s = Some (int (length bs), Some (max 0 (int (length bs) - (cb_size c - cb_used cb))), c', s')"
      proof -
        have "l \<noteq> nl" using ne r(6) by auto
        then show ?thesis using mr len False r1 r(2,3,6) ow l(1) w(1) c(6) unfolding W by simp
      qed
      with c w r ne l show ?thesis
        by - (rule exI [of _ "int (length bs)"], rule exI [of _ "Some (max 0 (int (length bs) - (cb_size c - cb_used cb)))"],
          rule exI [of _ c'], rule exI [of _ s'], rule exI [of _ bs],
          simp add: l_def [symmetric] roomy_def same_opts_def)
    qed
  qed
qed

end

subsection \<open>Memory\<close>

text \<open>The caller's buffer was \<open>B\<close>; the bytes before the pointer have been written, the others are unchanged.\<close>

definition mem_inv :: "u8 list \<Rightarrow> u8 list \<times> int \<Rightarrow> bool" where
  "mem_inv B = (\<lambda>(buf, pos). 0 \<le> pos \<and> pos \<le> int (length B) \<and> length buf = length B
     \<and> drop (nat pos) buf = drop (nat pos) B)"

definition mem_fits :: "u8 list \<times> int \<Rightarrow> int \<Rightarrow> bool" where
  "mem_fits = (\<lambda>(buf, pos) k. pos + k \<le> int (length buf))"

definition mem_sent :: "u8 list \<times> int \<Rightarrow> u8 list" where
  "mem_sent = (\<lambda>(buf, pos). take (nat pos) buf)"

interpretation mem: byte_sink cbuf_put_mem "mem_inv B" mem_fits mem_sent for B
proof
  fix d :: "u8 list \<times> int" and bs :: "u8 list"
  assume inv: "mem_inv B d" and ne: "bs \<noteq> []" and fits: "mem_fits d (int (length bs))"
  obtain buf pos where d: "d = (buf, pos)" by fastforce
  have p: "0 \<le> pos" "pos + int (length bs) \<le> int (length buf)" "length buf = length B" "drop (nat pos) buf = drop (nat pos) B"
    using inv fits by (auto simp: d mem_inv_def mem_fits_def)
  let ?buf = "take (nat pos) buf @ bs @ drop (nat pos + length bs) buf"
  have np: "nat (pos + int (length bs)) = nat pos + length bs" "nat pos + length bs \<le> length buf" using p(1,2) by linarith+
  have "cbuf_put_mem bs d = Some (int (length bs), ?buf, pos + int (length bs))"
    using p(1,2) ne by (simp add: d cbuf_put_mem_def mem_put_in)
  moreover have "mem_inv B (?buf, pos + int (length bs))"
  proof -
    have "drop (nat pos + length bs) buf = drop (length bs) (drop (nat pos) buf)" by (simp add: add.commute)
    then have "drop (nat pos + length bs) buf = drop (nat pos + length bs) B" by (simp add: p(4) add.commute)
    then show ?thesis using p np by (simp add: mem_inv_def)
  qed
  moreover have "mem_sent (?buf, pos + int (length bs)) = mem_sent d @ bs"
    using np by (simp add: mem_sent_def d)
  moreover have "mem_fits (?buf, pos + int (length bs)) k" if "mem_fits d (int (length bs) + k)" for k
    using that np by (simp add: mem_fits_def d)
  ultimately show "\<exists>m d'. cbuf_put_mem bs d = Some (m, d') \<and> m \<le> int (length bs) \<and> mem_inv B d'
      \<and> mem_sent d' = mem_sent d @ take (nat m) bs \<and> (\<forall>k. 0 \<le> k \<longrightarrow> mem_fits d (int (length bs) + k) \<longrightarrow> mem_fits d' k)"
    by (intro exI conjI) auto
next
  fix d k j assume "mem_fits d k" "j \<le> (k :: int)"
  then show "mem_fits d j" by (auto simp: mem_fits_def split: prod.splits)
qed

lemma put_mem_never_short: "never_short cbuf_put_mem"
  by (auto simp: never_short_def cbuf_put_mem_def split: prod.splits if_splits bind_splits)

text \<open>The source string is \<open>S\<close>; the pointer is at its end or at one of its bytes.\<close>

definition src_inv :: "u8 list \<Rightarrow> u8 list \<Rightarrow> bool" where
  "src_inv S s \<longleftrightarrow> length s \<le> length S \<and> s = drop (length S - length s) S"

definition src_took :: "u8 list \<Rightarrow> u8 list \<Rightarrow> u8 list" where
  "src_took S s = take (length S - length s) S"

interpretation smem: byte_source cbuf_get_mem "src_inv S" "\<lambda>s k. k \<le> int (length s)" "src_took S" for S
proof
  fix s and n :: int
  assume inv: "src_inv S s" and n: "0 < n" "n \<le> int (length s)"
  have le: "length s \<le> length S" and eq: "s = drop (length S - length s) S"
    using inv unfolding src_inv_def by blast+
  have "cbuf_get_mem n s = Some (n, take (nat n) s, drop (nat n) s)"
    using n by (simp add: cbuf_get_mem_def mem_sub_in)
  moreover have "length (take (nat n) s) = nat n" using n by simp
  moreover have "src_inv S (drop (nat n) s)"
  proof -
    have "drop (nat n) s = drop (nat n) (drop (length S - length s) S)" by (rule arg_cong [OF eq])
    moreover have "nat n + (length S - length s) = length S - length (drop (nat n) s)" using le n by simp
    ultimately have "drop (nat n) s = drop (length S - length (drop (nat n) s)) S" by (simp only: drop_drop)
    with le show ?thesis unfolding src_inv_def by simp
  qed
  moreover have "src_took S (drop (nat n) s) = src_took S s @ take (nat n) s"
  proof -
    have "length S - length (drop (nat n) s) = length S - length s + nat n" using le n by simp
    then have "src_took S (drop (nat n) s) = take (length S - length s) S @ take (nat n) (drop (length S - length s) S)"
      by (simp add: src_took_def take_add)
    then show ?thesis unfolding eq [symmetric] src_took_def .
  qed
  ultimately show "\<exists>m bs s'. cbuf_get_mem n s = Some (m, bs, s') \<and> m \<le> n \<and> length bs = nat m \<and> src_inv S s'
      \<and> src_took S s' = src_took S s @ bs \<and> (\<forall>k. 0 \<le> k \<longrightarrow> n + k \<le> int (length s) \<longrightarrow> k \<le> int (length s'))"
    using n by (intro exI conjI) auto
qed simp

lemma get_mem_never_short: "never_short_get cbuf_get_mem"
  by (auto simp: never_short_get_def cbuf_get_mem_def split: if_splits bind_splits)

subsection \<open>File descriptors\<close>

text \<open>
  What the code relies on of \<open>write\<close> and \<open>read\<close>: the count is at most the requested one, that many bytes
  have been taken from or put into the buffer, and a call is interrupted only finitely often.
\<close>

definition write_ok :: "'w write_call \<Rightarrow> ('w \<Rightarrow> u8 list) \<Rightarrow> ('w \<Rightarrow> nat) \<Rightarrow> bool" where
  "write_ok wr sent signals \<longleftrightarrow> (\<forall>bs w n eintr w'. wr bs w = (n, eintr, w') \<longrightarrow>
     n \<le> int (length bs) \<and> sent w' = sent w @ take (nat n) bs \<and> (n < 0 \<and> eintr \<longrightarrow> signals w' < signals w))"

definition read_ok :: "'w read_call \<Rightarrow> ('w \<Rightarrow> u8 list) \<Rightarrow> ('w \<Rightarrow> nat) \<Rightarrow> bool" where
  "read_ok rd took signals \<longleftrightarrow> (\<forall>len w n eintr bs w'. 0 < len \<longrightarrow> rd len w = (n, eintr, bs, w') \<longrightarrow>
     n \<le> len \<and> length bs = nat n \<and> took w' = took w @ bs \<and> (n < 0 \<and> eintr \<longrightarrow> signals w' < signals w))"

lemma put_fd_loop_ok:
  assumes "write_ok wr sent signals"
  shows "\<exists>m w'. put_fd_loop wr bs w = Some (m, w') \<and> m \<le> int (length bs) \<and> sent w' = sent w @ take (nat m) bs"
proof (induction "signals w" arbitrary: w rule: less_induct)
  case less
  obtain n e w' where c: "wr bs w = (n, e, w')" by (cases "wr bs w")
  then have r: "n \<le> int (length bs)" "sent w' = sent w @ take (nat n) bs" "n < 0 \<and> e \<longrightarrow> signals w' < signals w"
    using assms unfolding write_ok_def by blast+
  show ?case
  proof (cases "n < 0 \<and> e")
    case True
    with less [of w'] r c show ?thesis by (subst put_fd_loop.simps) simp
  next
    case False
    with r c show ?thesis by (subst put_fd_loop.simps) auto
  qed
qed

lemma get_fd_loop_ok:
  assumes "read_ok rd took signals" and "0 < len"
  shows "\<exists>m bs w'. get_fd_loop rd len w = Some (m, bs, w') \<and> m \<le> len \<and> length bs = nat m \<and> took w' = took w @ bs"
proof (induction "signals w" arbitrary: w rule: less_induct)
  case less
  obtain n e bs w' where c: "rd len w = (n, e, bs, w')" by (cases "rd len w")
  then have r: "n \<le> len" "length bs = nat n" "took w' = took w @ bs" "n < 0 \<and> e \<longrightarrow> signals w' < signals w"
    using assms unfolding read_ok_def by blast+
  show ?case
  proof (cases "n < 0 \<and> e")
    case True
    with less [of w'] r c show ?thesis by (subst get_fd_loop.simps) simp
  next
    case False
    with r c show ?thesis by (subst get_fd_loop.simps) auto
  qed
qed

lemma fd_sink:
  assumes "write_ok wr sent signals"
  shows "byte_sink (cbuf_put_fd wr) (\<lambda>_. True) (\<lambda>_ _. True) sent"
proof
  fix d bs assume "(bs :: u8 list) \<noteq> []"
  with put_fd_loop_ok [OF assms, of bs d]
  show "\<exists>m d'. cbuf_put_fd wr bs d = Some (m, d') \<and> m \<le> int (length bs) \<and> True \<and> sent d' = sent d @ take (nat m) bs
      \<and> (\<forall>k. 0 \<le> k \<longrightarrow> True \<longrightarrow> True)" by (simp add: cbuf_put_fd_def)
qed simp

lemma fd_source:
  assumes "read_ok rd took signals"
  shows "byte_source (cbuf_get_fd rd) (\<lambda>_. True) (\<lambda>_ _. True) took"
proof
  fix s and n :: int assume "0 < n"
  with get_fd_loop_ok [OF assms, of n s]
  show "\<exists>m bs s'. cbuf_get_fd rd n s = Some (m, bs, s') \<and> m \<le> n \<and> length bs = nat m \<and> True \<and> took s' = took s @ bs
      \<and> (\<forall>k. 0 \<le> k \<longrightarrow> True \<longrightarrow> True)" by (simp add: cbuf_get_fd_def)
qed simp

end
