(* ===== verification/Cbuf_Lines.thy ===== *)
theory Cbuf_Lines
  imports Cbuf_Ring
begin

text \<open>
  The line searches of the circular buffers. The loops walk the ring; they are shown to compute a scan
  of the unread bytes, respectively of the replayable bytes from the newest to the oldest, and the scans
  are characterised by the newlines of those byte strings.
\<close>

subsection \<open>Scans\<close>

fun scan :: "u8 list \<Rightarrow> int \<Rightarrow> int \<Rightarrow> int \<Rightarrow> int \<Rightarrow> int \<Rightarrow> int \<times> int \<times> int" where
  "scan [] n m l chars lines = (m, l, lines)"
| "scan (c # cs) n m l chars lines =
     (let chars = (if chars > 0 then chars - 1 else chars);
          lines = (if c = NL \<and> lines > 0 then lines - 1 else lines);
          m = (if c = NL then n + 1 else m);
          l = (if c = NL then l + 1 else l)
      in if chars = 0 \<or> lines = 0 then (m, l, lines) else scan cs (n + 1) m l chars lines)"

fun rscan :: "u8 list \<Rightarrow> int \<Rightarrow> int \<Rightarrow> int \<Rightarrow> int \<Rightarrow> int \<Rightarrow> int \<times> int \<times> int \<times> int \<times> int" where
  "rscan [] n m l chars lines = (n, m, l, chars, lines)"
| "rscan (c # cs) n m l chars lines =
     (let chars = (if chars > 0 then chars - 1 else chars);
          lines = (if c = NL \<and> lines > 0 then lines - 1 else lines);
          m = (if c = NL then n else m);
          l = (if c = NL then l + 1 else l)
      in if chars = 0 \<or> lines = 0 then (n + 1, m, l, chars, lines) else rscan cs (n + 1) m l chars lines)"

lemma line_end_Cons:
  assumes "\<exists>r. 0 < r \<and> r \<le> length cs \<and> cs ! (r - 1) = NL \<and> int (count_list (take r cs) NL) = k
      \<and> m' = n + 1 + int r \<and> Q"
  shows "\<exists>r. 0 < r \<and> r \<le> length (c # cs) \<and> (c # cs) ! (r - 1) = NL
      \<and> int (count_list (take r (c # cs)) NL) = k + (if c = NL then 1 else 0) \<and> m' = n + int r \<and> Q"
proof -
  from assms obtain r where "0 < r" "r \<le> length cs" "cs ! (r - 1) = NL" "int (count_list (take r cs) NL) = k"
    "m' = n + 1 + int r" Q by blast
  then show ?thesis by (intro exI [of _ "Suc r"]) auto
qed

text \<open>A count of lines: the scan stops behind that many newlines.\<close>

lemma scan_lines:
  assumes "0 < k" "chars < 0" and "scan xs n m l chars k = (m', l', k')"
  shows "(if k \<le> int (count_list xs NL)
     then \<exists>r. 0 < r \<and> r \<le> length xs \<and> xs ! (r - 1) = NL \<and> int (count_list (take r xs) NL) = k
            \<and> m' = n + int r \<and> l' = l + k \<and> k' = 0
     else k' = k - int (count_list xs NL))"
  using assms
proof (induction xs arbitrary: n m l k)
  case (Cons c cs)
  consider (stop) "c = NL" "k = 1" | (nl) "c = NL" "1 < k" | (other) "c \<noteq> NL" using Cons.prems(1) by linarith
  then show ?case
  proof cases
    case stop
    then have "m' = n + 1" "l' = l + 1" "k' = 0" using Cons.prems by auto
    with stop show ?thesis by (auto intro!: exI [of _ 1])
  next
    case nl
    then have "scan cs (n + 1) (n + 1) (l + 1) chars (k - 1) = (m', l', k')" using Cons.prems by (simp add: Let_def)
    from Cons.IH [OF _ Cons.prems(2) this] nl
    have "if k - 1 \<le> int (count_list cs NL)
      then \<exists>r. 0 < r \<and> r \<le> length cs \<and> cs ! (r - 1) = NL \<and> int (count_list (take r cs) NL) = k - 1
            \<and> m' = n + 1 + int r \<and> l' = l + 1 + (k - 1) \<and> k' = 0
      else k' = k - 1 - int (count_list cs NL)" by simp
    with nl line_end_Cons [of cs "k - 1" m' n "l' = l + k \<and> k' = 0" c] show ?thesis
      by (simp add: algebra_simps split: if_splits)
  next
    case other
    then have "scan cs (n + 1) m l chars k = (m', l', k')" using Cons.prems by simp
    from Cons.IH [OF Cons.prems(1,2) this] other line_end_Cons [of cs k m' n "l' = l + k \<and> k' = 0" c] show ?thesis
      by (simp add: algebra_simps split: if_splits)
  qed
qed auto

text \<open>A bound on the characters: the scan ends behind the last newline among them.\<close>

lemma scan_chars:
  assumes "0 < chars" and "scan xs n m l chars (-1) = (m', l', k')"
  shows "k' = -1 \<and> l' = l + int (count_list (take (nat chars) xs) NL)
     \<and> (\<exists>r. int r \<le> chars \<and> r \<le> length xs \<and> (r = 0 \<or> xs ! (r - 1) = NL)
          \<and> count_list (take r xs) NL = count_list (take (nat chars) xs) NL
          \<and> m' = (if r = 0 then m else n + int r))"
  using assms
proof (induction xs arbitrary: n m l chars)
  case (Cons c cs)
  define m1 where "m1 = (if c = NL then n + 1 else m)"
  define l1 where "l1 = (if c = NL then l + 1 else l)"
  have take: "take (nat chars) (c # cs) = c # take (nat (chars - 1)) cs"
    using Cons.prems(1) by (simp add: take_Cons' nat_diff_distrib)
  show ?case
  proof (cases "chars = 1")
    case True
    then have "m' = m1" "l' = l1" "k' = -1" using Cons.prems by (auto simp: m1_def l1_def)
    then show ?thesis unfolding take using True
      by (auto simp: m1_def l1_def intro!: exI [of _ "if c = NL then Suc 0 else 0"])
  next
    case False
    then have "scan cs (n + 1) m1 l1 (chars - 1) (-1) = (m', l', k')"
      using Cons.prems by (simp add: m1_def l1_def)
    from Cons.IH [OF _ this] False Cons.prems(1) obtain r where r:
      "k' = -1" "l' = l1 + int (count_list (take (nat (chars - 1)) cs) NL)" "int r \<le> chars - 1" "r \<le> length cs"
      "r = 0 \<or> cs ! (r - 1) = NL" "count_list (take r cs) NL = count_list (take (nat (chars - 1)) cs) NL"
      "m' = (if r = 0 then m1 else n + 1 + int r)" by auto
    have "\<exists>r. int r \<le> chars \<and> r \<le> length (c # cs) \<and> (r = 0 \<or> (c # cs) ! (r - 1) = NL)
          \<and> count_list (take r (c # cs)) NL = count_list (take (nat chars) (c # cs)) NL \<and> m' = (if r = 0 then m else n + int r)"
    proof (cases "r = 0 \<and> c \<noteq> NL")
      case True
      then show ?thesis unfolding take using r by (intro exI [of _ 0]) (auto simp: m1_def)
    next
      case False
      then show ?thesis unfolding take using r by (intro exI [of _ "Suc r"]) (auto simp: m1_def)
    qed
    with r show ?thesis unfolding take by (simp add: l1_def)
  qed
qed auto

text \<open>The scan towards older bytes stops at the start of a line or at the end of its input.\<close>

lemma rscan_start:
  assumes "rscan xs n m l chars lines = (n', m', l', chars', lines')"
    and "lines > 0 \<and> chars < 0 \<or> lines < 0 \<and> chars > 0"
  shows "(m' = m \<or> (\<exists>r < length xs. xs ! r = NL \<and> m' = n + int r))
    \<and> (chars' > 0 \<or> lines' > 0 \<longrightarrow> n' = n + int (length xs)) \<and> n \<le> n' \<and> n' \<le> n + int (length xs)"
  using assms
proof (induction xs arbitrary: n m l chars lines)
  case (Cons c cs)
  define ch where "ch = (if chars > 0 then chars - 1 else chars)"
  define ln where "ln = (if c = NL \<and> lines > 0 then lines - 1 else lines)"
  define m1 where "m1 = (if c = NL then n else m)"
  show ?case
  proof (cases "ch = 0 \<or> ln = 0")
    case True
    then have "n' = n + 1" "m' = m1" "chars' = ch" "lines' = ln"
      using Cons.prems by (auto simp: ch_def ln_def m1_def Let_def)
    moreover have "\<not> (ch > 0 \<or> ln > 0)" using True Cons.prems(2) by (auto simp: ch_def ln_def split: if_splits)
    ultimately show ?thesis by (auto simp: m1_def Ex_less_Suc2)
  next
    case False
    then have "rscan cs (n + 1) m1 (if c = NL then l + 1 else l) ch ln = (n', m', l', chars', lines')"
      using Cons.prems(1) by (simp add: ch_def ln_def m1_def Let_def)
    moreover have "ln > 0 \<and> ch < 0 \<or> ln < 0 \<and> ch > 0" using False Cons.prems(2) by (auto simp: ch_def ln_def)
    ultimately have "(m' = m1 \<or> (\<exists>r < length cs. cs ! r = NL \<and> m' = n + 1 + int r))
      \<and> (chars' > 0 \<or> lines' > 0 \<longrightarrow> n' = n + 1 + int (length cs)) \<and> n + 1 \<le> n' \<and> n' \<le> n + 1 + int (length cs)"
      by (rule Cons.IH)
    then show ?thesis by (auto simp: m1_def Ex_less_Suc2)
  qed
qed auto

subsection \<open>The loops\<close>

lemma data_at_in: "cbuf_ok cb \<Longrightarrow> 0 \<le> i \<Longrightarrow> i \<le> cb_size cb \<Longrightarrow> data_at cb i = Some (cb_data cb ! nat i)"
  by (simp add: data_at_def mem_get_def cbuf_ok_def nat_less_iff)

lemma unread_nth:
  assumes ok: "cbuf_ok cb" and p: "0 \<le> p" "p < cb_used cb"
  shows "cb_data cb ! nat ((cb_out cb + p) mod (cb_size cb + 1)) = unread cb ! nat p"
proof -
  note D = cbuf_okD [OF ok] and ok' = ok [unfolded cbuf_ok_def]
  have len: "int (length (cb_data cb)) = cb_size cb + 1" and out: "0 \<le> cb_out cb" using ok' by simp_all
  have "nat ((cb_out cb + p) mod (cb_size cb + 1)) = (nat (cb_out cb) + nat p) mod length (cb_data cb)"
    using nat_mod_ring [OF _ len, of "cb_out cb + p"] out p(1) by (simp add: nat_add_distrib)
  moreover have "nat p < length (cb_data cb)" using p D len by linarith
  ultimately show ?thesis
    using p by (simp add: unread_rotate [OF ok] nth_rotate)
qed

lemma unread_loop_scan:
  assumes ok: "cbuf_ok cb" and p: "0 \<le> p" "p \<le> cb_used cb"
  shows "unread_loop cb ((cb_out cb + p) mod (cb_size cb + 1)) n m l chars lines
           = Some (scan (drop (nat p) (unread cb)) n m l chars lines)"
  using p
proof (induction "nat (cb_used cb - p)" arbitrary: p n m l chars lines rule: less_induct)
  case less
  note D = cbuf_okD [OF ok]
  let ?i = "(cb_out cb + p) mod (cb_size cb + 1)"
  note b = behind_fwd [OF ok less.prems]
  show ?case
  proof (cases "p = cb_used cb")
    case True
    have "0 \<le> cb_in cb" "cb_in cb \<le> cb_size cb" using ok by (simp_all add: cbuf_ok_def)
    then have i: "?i = cb_in cb" using b True by - (rule behind_inj [OF ok], auto)
    have "drop (nat p) (unread cb) = []" using length_unread [OF ok] True by simp
    then show ?thesis unfolding i by (subst unread_loop.simps) simp
  next
    case False
    then have lt: "p < cb_used cb" using less.prems by simp
    have ne: "?i \<noteq> cb_in cb" using b(1) lt by (metis behind_in diff_gt_0_iff_gt less_irrefl)
    have "drop (nat p) (unread cb) = unread cb ! nat p # drop (nat (p + 1)) (unread cb)"
      using lt less.prems length_unread [OF ok] by (simp add: Cons_nth_drop_Suc nat_add_distrib flip: Suc_eq_plus1)
    moreover have "ring cb (?i + 1) = Some ((cb_out cb + (p + 1)) mod (cb_size cb + 1))"
      using b D(1,2) by (simp add: ring_in CB_LIMIT_def mod_add_left_eq add.assoc)
    moreover have "data_at cb ?i = Some (unread cb ! nat p)"
      using data_at_in [OF ok b(2,3)] unread_nth [OF ok less.prems(1) lt] by simp
    moreover note less.hyps [of "p + 1"]
    ultimately show ?thesis using ne lt less.prems
      by (subst unread_loop.simps) (simp add: Let_def)
  qed
qed

lemma past_nth:
  assumes ok: "cbuf_ok cb" and p: "0 \<le> p" "p < int (length (past cb))"
  shows "cb_data cb ! nat ((cb_out cb - (p + 1) + (cb_size cb + 1)) mod (cb_size cb + 1)) = rev (past cb) ! nat p"
proof -
  let ?x = "(cb_out cb - (p + 1) + (cb_size cb + 1)) mod (cb_size cb + 1)"
  have j: "0 \<le> p + 1" "p + 1 \<le> int (length (past cb))" using p by auto
  note b = behind_rewound [OF ok j]
  have len: "int (length (cb_data cb)) = cb_size cb + 1" using ok by (simp add: cbuf_ok_def)
  have "cb_data cb ! nat ?x = rotate (nat ?x) (cb_data cb) ! 0"
    using b len by (subst nth_rotate) (auto simp: nat_less_iff)
  also have "\<dots> = take (nat (p + 1)) (rotate (nat ?x) (cb_data cb)) ! 0" using p by simp
  also have "\<dots> = lastn (nat (p + 1)) (past cb) ! 0" by (simp only: past_rotate [OF ok j])
  also have "\<dots> = rev (past cb) ! nat p"
    using p by (simp add: lastn_def rev_nth nat_add_distrib)
  finally show ?thesis .
qed

lemma replay_loop_scan:
  assumes ok: "cbuf_ok cb" and p: "0 \<le> p" "p \<le> int (length (past cb))"
  shows "replay_loop cb ((cb_out cb - p + (cb_size cb + 1)) mod (cb_size cb + 1)) n m l chars lines
           = Some (rscan (drop (nat p) (rev (past cb))) n m l chars lines)"
  using p
proof (induction "nat (int (length (past cb)) - p)" arbitrary: p n m l chars lines rule: less_induct)
  case less
  note D = cbuf_okD [OF ok]
  have rep: "0 \<le> cb_rep cb" "cb_rep cb \<le> cb_size cb" "behind cb (cb_rep cb) = cb_used cb + int (length (past cb))"
    using ok length_past [OF ok] by (simp_all add: cbuf_ok_def)
  let ?i = "(cb_out cb - p + (cb_size cb + 1)) mod (cb_size cb + 1)"
  note b = behind_rewound [OF ok less.prems]
  show ?case
  proof (cases "p = int (length (past cb))")
    case True
    then have i: "?i = cb_rep cb" using b rep by - (rule behind_inj [OF ok], auto)
    show ?thesis unfolding i using True by (subst replay_loop.simps) simp
  next
    case False
    then have lt: "p < int (length (past cb))" using less.prems by simp
    have ne: "?i \<noteq> cb_rep cb" using b(1) rep(3) False by auto
    let ?j = "(cb_out cb - (p + 1) + (cb_size cb + 1)) mod (cb_size cb + 1)"
    note bj = behind_rewound [OF ok, of "p + 1"]
    have "drop (nat p) (rev (past cb)) = rev (past cb) ! nat p # drop (nat (p + 1)) (rev (past cb))"
      using lt less.prems by (simp add: Cons_nth_drop_Suc nat_add_distrib flip: Suc_eq_plus1)
    moreover have "ring cb (?i + cb_size cb) = Some ?j"
    proof -
      have "(?i + cb_size cb) mod (cb_size cb + 1) = (cb_out cb - p + (cb_size cb + 1) + cb_size cb) mod (cb_size cb + 1)"
        by (rule mod_add_left_eq)
      also have "cb_out cb - p + (cb_size cb + 1) + cb_size cb = cb_out cb - (p + 1) + (cb_size cb + 1) + (cb_size cb + 1)"
        by simp
      also have "\<dots> mod (cb_size cb + 1) = ?j" by (rule mod_add_self2)
      finally show ?thesis using b D(1,2) by (simp add: ring_in CB_LIMIT_def)
    qed
    moreover have "data_at cb ?j = Some (rev (past cb) ! nat p)"
      using data_at_in [OF ok bj(2,3)] past_nth [OF ok less.prems(1) lt] lt less.prems(1) by simp
    moreover note less.hyps [of "p + 1"]
    ultimately show ?thesis using ne lt less.prems
      by (subst replay_loop.simps) (simp add: Let_def)
  qed
qed

subsection \<open>The searches\<close>

text \<open>What \<open>cbuf_find_unread_line\<close> promises for the unread bytes \<open>q\<close>.\<close>

definition unread_line_spec :: "u8 list \<Rightarrow> int \<Rightarrow> int \<Rightarrow> int \<Rightarrow> int \<Rightarrow> bool" where
  "unread_line_spec q chars lines r nlines \<longleftrightarrow> 0 \<le> r \<and> r \<le> int (length q)
     \<and> (0 < r \<longrightarrow> q ! nat (r - 1) = NL) \<and> int (count_list (take (nat r) q) NL) = nlines
     \<and> (if lines \<ge> 0 then nlines = (if lines \<le> int (count_list q NL) then lines else 0) \<and> (nlines = 0 \<longrightarrow> r = 0)
        else r \<le> max 0 chars \<and> nlines = int (count_list (take (nat chars) q) NL))"

lemma count_take_0: "count_list (take r q) NL = 0 \<Longrightarrow> 0 < r \<Longrightarrow> r \<le> length q \<Longrightarrow> q ! (r - 1) \<noteq> NL"
  by (metis One_nat_def count_list_0_iff diff_less length_take min.absorb2 nth_mem nth_take zero_less_one)

lemma cbuf_find_unread_line_ok:
  assumes ok: "cbuf_ok cb" and "-1 \<le> lines"
  shows "\<exists>r nlines. cbuf_find_unread_line cb chars lines = Some (r, nlines)
     \<and> unread_line_spec (unread cb) chars lines r nlines"
proof -
  let ?q = "unread cb"
  note D = cbuf_okD [OF ok]
  have out: "0 \<le> cb_out cb" "cb_out cb \<le> cb_size cb" using ok by (simp_all add: cbuf_ok_def)
  have loop: "unread_loop cb (cb_out cb) 0 0 0 ch ln = Some (scan ?q 0 0 0 ch ln)" for ch ln
    using unread_loop_scan [OF ok, of 0] D out by (simp add: mod_pos_pos_trivial)
  consider (none) "lines = 0 \<or> lines = -1 \<and> chars \<le> 0" | (empty) "\<not> (lines = 0 \<or> lines = -1 \<and> chars \<le> 0)" "cb_used cb = 0"
    | (lines) "0 < lines" "cb_used cb \<noteq> 0" | (chars) "lines = -1" "0 < chars" "cb_used cb \<noteq> 0"
    using assms(2) by linarith
  then show ?thesis
  proof cases
    case none
    then show ?thesis by (auto simp: cbuf_find_unread_line_def unread_line_spec_def)
  next
    case empty
    then have "?q = []" using length_unread [OF ok] by simp
    with empty assms(2) show ?thesis by (auto simp: cbuf_find_unread_line_def unread_line_spec_def)
  next
    case lines
    obtain m l k where s: "scan ?q 0 0 0 (-1) lines = (m, l, k)" by (cases "scan ?q 0 0 0 (-1) lines")
    have f: "cbuf_find_unread_line cb chars lines = Some (if k > 0 then (0, 0) else (m, l))"
      using lines s by (simp add: cbuf_find_unread_line_def loop)
    show ?thesis
    proof (cases "lines \<le> int (count_list ?q NL)")
      case True
      with scan_lines [OF lines(1) _ s] obtain r where r: "0 < r" "r \<le> length ?q" "?q ! (r - 1) = NL"
        "int (count_list (take r ?q) NL) = lines" "m = int r" "l = lines" "k = 0" by auto
      then show ?thesis using True lines(1) by (simp add: f unread_line_spec_def nat_diff_distrib)
    next
      case False
      with scan_lines [OF lines(1) _ s] show ?thesis using lines(1) by (simp add: f unread_line_spec_def)
    qed
  next
    case chars
    obtain m l k where s: "scan ?q 0 0 0 chars (-1) = (m, l, k)" by (cases "scan ?q 0 0 0 chars (-1)")
    from scan_chars [OF chars(2) s] obtain r where r: "k = -1" "l = int (count_list (take (nat chars) ?q) NL)"
      "int r \<le> chars" "r \<le> length ?q" "r = 0 \<or> ?q ! (r - 1) = NL"
      "count_list (take r ?q) NL = count_list (take (nat chars) ?q) NL" "m = int r" by auto
    have "cbuf_find_unread_line cb chars lines = Some (m, l)"
      using chars s r(1) by (simp add: cbuf_find_unread_line_def loop)
    then show ?thesis using r chars by (auto simp: unread_line_spec_def nat_diff_distrib)
  qed
qed

text \<open>What \<open>cbuf_find_replay_line\<close> promises for the replayable bytes \<open>q\<close>: the bytes found are a suffix that starts
  a line, which the oldest byte of a log that never wrapped does too.\<close>

definition replay_line_spec :: "u8 list \<Rightarrow> bool \<Rightarrow> int \<Rightarrow> int \<Rightarrow> bool" where
  "replay_line_spec q wrapped r nl \<longleftrightarrow> 0 \<le> r \<and> r \<le> int (length q)
     \<and> (0 < r \<longrightarrow> r = int (length q) \<and> \<not> wrapped \<or> r < int (length q) \<and> rev q ! nat r = NL)
     \<and> (0 < r \<longrightarrow> nl = (if last q = NL then 0 else 1)) \<and> nl \<in> {0, 1}"

lemma cbuf_find_replay_line_ok:
  assumes ok: "cbuf_ok cb" and b: "-1 \<le> lines" "lines < 2 ^ 31 - 1" "chars < 2 ^ 31 - 1"
  shows "\<exists>r nlines nl. cbuf_find_replay_line cb chars lines = Some (r, nlines, nl)
     \<and> replay_line_spec (past cb) (cb_got_wrap cb) r nl"
proof -
  let ?q = "past cb"
  note D = cbuf_okD [OF ok]
  have out: "0 \<le> cb_out cb" "cb_out cb \<le> cb_size cb" "0 \<le> cb_rep cb" "cb_rep cb \<le> cb_size cb"
    using ok by (simp_all add: cbuf_ok_def)
  have loop: "replay_loop cb (cb_out cb) 0 0 l ch ln = Some (rscan (rev ?q) 0 0 l ch ln)" for l ch ln
    using replay_loop_scan [OF ok, of 0] D out by (simp add: mod_pos_pos_trivial)
  show ?thesis
  proof (cases "lines = 0 \<or> lines \<le> -1 \<and> chars \<le> 0 \<or> cb_out cb = cb_rep cb")
    case True
    then have "cbuf_find_replay_line cb chars lines = Some (0, 0, 0)"
      using b(1) by (auto simp: cbuf_find_replay_line_def)
    then show ?thesis by (auto simp: replay_line_spec_def)
  next
    case False
    have ne: "?q \<noteq> []"
    proof
      assume "?q = []"
      then have "behind cb (cb_rep cb) = behind cb (cb_out cb)" using length_past [OF ok] cbuf_used_behind [OF ok] by simp
      then have "cb_rep cb = cb_out cb" using out by - (rule behind_inj [OF ok], auto)
      with False show False by simp
    qed
    define j where "j = (cb_out cb + cb_size cb) mod (cb_size cb + 1)"
    have j: "ring cb (cb_out cb + cb_size cb) = Some j" using out D by (simp add: ring_in j_def CB_LIMIT_def)
    have "j = (cb_out cb - (0 + 1) + (cb_size cb + 1)) mod (cb_size cb + 1)" by (simp add: j_def)
    moreover from ne have "rev ?q ! 0 = last ?q" by (simp add: rev_nth last_conv_nth)
    ultimately have dj: "data_at cb j = Some (last ?q)"
      using past_nth [OF ok, of 0] behind_rewound [OF ok, of 1] ne data_at_in [OF ok, of j] by (simp add: Suc_leI int_one_le_iff_zero_less)
    define nl :: int where "nl = (if last ?q \<noteq> NL then 1 else 0)"
    define ch where "ch = (if lines > 0 then -1 else chars + 1) - nl"
    define ln where "ln = (if last ?q = NL \<and> lines > 0 then lines + 1 else lines)"
    define l0 :: int where "l0 = (if last ?q \<noteq> NL then 0 else -1)"
    obtain n m l c k where r: "rscan (rev ?q) 0 0 l0 ch ln = (n, m, l, c, k)" by (metis prod_cases5)
    have pre: "ln > 0 \<and> ch < 0 \<or> ln < 0 \<and> ch > 0" using False b by (auto simp: ch_def ln_def nl_def)
    from rscan_start [OF r pre] have m: "m = 0 \<or> (\<exists>i < length ?q. rev ?q ! i = NL \<and> m = int i)"
      and n: "c > 0 \<or> k > 0 \<longrightarrow> n = int (length ?q)" "0 \<le> n" "n \<le> int (length ?q)" by auto
    define first where "first = (\<not> cb_got_wrap cb \<and> (c > 0 \<or> k > 0))"
    have i: "i32 (chars + 1) = Some (chars + 1)" if "\<not> lines > 0" using that False b by (intro i32_in) auto
    have i2: "i32 (lines + 1) = Some (lines + 1)" if "lines > 0" using that b by (intro i32_in) auto
    have res: "\<exists>l'. cbuf_find_replay_line cb chars lines = Some (if (if first \<and> k > 0 then k - 1 else k) > 0 then 0 else if first then n else m, l', nl)"
      using False b(1) j dj loop r i i2 unfolding cbuf_find_replay_line_def
      by (auto simp: Let_def ch_def ln_def l0_def nl_def first_def)
    have "replay_line_spec ?q (cb_got_wrap cb) (if (if first \<and> k > 0 then k - 1 else k) > 0 then 0 else if first then n else m) nl"
      using m n by (auto simp: replay_line_spec_def first_def nl_def)
    with res show ?thesis by blast
  qed
qed

end
