(* ===== verification/Cbuf_Ops.thy ===== *)
theory Cbuf_Ops
  imports Cbuf_Io Cbuf_Lines
begin

text \<open>
  The contract of every public operation of the circular buffers, stated on the replayable and the
  unread bytes: \<open>past\<close> and \<open>unread\<close>, whose concatenation is the log \<open>blog\<close>.
\<close>

subsection \<open>Memory as sink and source\<close>

lemma mem_result:
  assumes "mem_inv B (buf, pos)" and "mem_sent (buf, pos) = xs"
  shows "buf = xs @ drop (length xs) B" and "pos = int (length xs)"
proof -
  have p: "0 \<le> pos" "nat pos \<le> length buf" "drop (nat pos) buf = drop (nat pos) B" and xs: "xs = take (nat pos) buf"
    using assms by (auto simp: mem_inv_def mem_sent_def)
  show "pos = int (length xs)" using p xs by simp
  moreover have "buf = xs @ drop (nat pos) buf" by (simp add: xs)
  then have "buf = xs @ drop (nat pos) B" by (simp only: p(3))
  ultimately show "buf = xs @ drop (length xs) B" by simp
qed

lemma mem_start: "mem_inv buf (buf, 0)" "mem_sent (buf, 0) = []" "len \<le> int (length buf) \<Longrightarrow> mem_fits (buf, 0) len"
  by (simp_all add: mem_inv_def mem_sent_def mem_fits_def)

lemma reader_mem:
  assumes ok: "cbuf_ok src" and len: "0 < len" "len \<le> int (length buf)"
  defines "k \<equiv> min len (cb_used src)"
  shows "cbuf_reader src len cbuf_put_mem (buf, 0) = Some (k, take (nat k) (unread src) @ drop (nat k) buf, k)"
proof -
  obtain n j buf' pos where r: "cbuf_reader src len cbuf_put_mem (buf, 0) = Some (n, buf', pos)" "mem_inv buf (buf', pos)"
    "0 \<le> j" "j \<le> k" "mem_sent (buf', pos) = [] @ take (nat j) (unread src)" "if j = 0 then n \<le> 0 else n = j" "n = k"
    using mem.reader_ok [OF ok len(1) mem_start(1,3), of buf] len(2) put_mem_never_short mem_start(2) [of buf]
    unfolding k_def by (metis prod.exhaust)
  have "j = k" using r(3,4,6,7) by (auto split: if_splits)
  moreover have "length (take (nat k) (unread src)) = nat k"
    using length_unread [OF ok] cbuf_okD(3) [OF ok] by (auto simp: k_def)
  ultimately show ?thesis
    using r mem_result [OF r(2), of "take (nat k) (unread src)"] by simp
qed

lemma replayer_mem:
  assumes ok: "cbuf_ok src" and len: "0 < len" "len \<le> int (length buf)"
  defines "k \<equiv> min len (int (length (past src)))"
  shows "cbuf_replayer src len cbuf_put_mem (buf, 0) = Some (k, lastn (nat k) (past src) @ drop (nat k) buf, k)"
proof -
  obtain n j buf' pos where r: "cbuf_replayer src len cbuf_put_mem (buf, 0) = Some (n, buf', pos)" "mem_inv buf (buf', pos)"
    "0 \<le> j" "j \<le> k" "mem_sent (buf', pos) = [] @ take (nat j) (lastn (nat k) (past src))"
    "if j = 0 then n \<le> 0 else n = j" "n = k"
    using mem.replayer_ok [OF ok len(1) mem_start(1,3), of buf] len(2) put_mem_never_short mem_start(2) [of buf]
    unfolding k_def by (metis prod.exhaust)
  have "j = k" using r(3,4,6,7) by (auto split: if_splits)
  moreover have "length (lastn (nat k) (past src)) = nat k" by (simp add: k_def)
  ultimately show ?thesis
    using r mem_result [OF r(2), of "lastn (nat k) (past src)"] by simp
qed

text \<open>A write of memory: the accepted prefix \<open>bs\<close> is appended, and the oldest bytes give way to it.\<close>

definition written :: "cbuf \<Rightarrow> cbuf \<Rightarrow> u8 list \<Rightarrow> bool" where
  "written cb cb' bs \<longleftrightarrow> cbuf_ok cb' \<and> same_opts cb cb'
     \<and> blog cb' = lastn (nat (cb_size cb')) (blog cb @ bs) \<and> unread cb' = lastn (nat (cb_size cb')) (unread cb @ bs)"

lemma writer_mem:
  assumes ok: "cbuf_ok cb" and len: "0 < len" "len \<le> 2 ^ 30" "len \<le> int (length s)"
  shows "\<exists>cb' k. cbuf_writer cb len cbuf_get_mem s =
       Some (if k = 0 then -1 else k, if k = 0 then None else Some (max 0 (cb_used cb + k - cb_size cb')), cb', drop (nat k) s)
     \<and> roomy cb cb' len \<and> k = accepts cb (cb_size cb') len \<and> 0 \<le> k \<and> written cb cb' (take (nat k) s)"
proof -
  have si: "src_inv s s" "src_took s s = []" by (simp_all add: src_inv_def src_took_def)
  obtain n nd cb' s' bs where w: "cbuf_writer cb len cbuf_get_mem s = Some (n, nd, cb', s')" "cbuf_ok cb'" "same_opts cb cb'"
    "roomy cb cb' len" "src_inv s s'" "src_took s s' = [] @ bs" "int (length bs) \<le> accepts cb (cb_size cb') len"
    "blog cb' = lastn (nat (cb_size cb')) (blog cb @ bs)" "unread cb' = lastn (nat (cb_size cb')) (unread cb @ bs)"
    "cb_got_wrap cb' = (cb_got_wrap cb \<or> int (length (blog cb)) + int (length bs) > cb_size cb')"
    "if bs = [] then n \<le> 0 \<and> nd = None
     else n = int (length bs) \<and> nd = Some (max 0 (cb_used cb + int (length bs) - cb_size cb'))"
    "never_short_get cbuf_get_mem \<longrightarrow> int (length bs) = accepts cb (cb_size cb') len \<and> (bs = [] \<longrightarrow> n = -1)"
    using smem.writer_ok [OF ok len(1,2) si(1) len(3)] unfolding si(2) by blast
  define k where "k = int (length bs)"
  have k: "k = accepts cb (cb_size cb') len" "bs = [] \<longrightarrow> n = -1" using w(12) get_mem_never_short by (simp_all add: k_def)
  have le: "length s' \<le> length s" and s': "s' = drop (length s - length s') s" using w(5) unfolding src_inv_def by blast+
  have bs: "bs = take (length s - length s') s" using w(6) by (simp add: src_took_def)
  then have "length s - length s' = nat k" by (simp add: k_def)
  then have bk: "bs = take (nat k) s" "s' = drop (nat k) s" using bs s' by simp_all
  have "written cb cb' bs" using w(2,3,8,9) by (simp add: written_def)
  then have "written cb cb' (take (nat k) s)" using bk(1) by simp
  moreover have "0 \<le> k" by (simp add: k_def)
  moreover have "n = (if k = 0 then -1 else k)" "nd = (if k = 0 then None else Some (max 0 (cb_used cb + k - cb_size cb')))"
    using w(11) k(2) by (auto simp: k_def)
  ultimately show ?thesis
    using w(1,4) k(1) bk(2) by (intro exI [of _ cb'] exI [of _ k]) simp
qed

subsection \<open>Reading\<close>

lemma cbuf_drop_ok:
  assumes ok: "cbuf_ok cb" and len: "-1 \<le> len"
  defines "k \<equiv> (if len = -1 then cb_used cb else min len (cb_used cb))"
  shows "\<exists>cb'. cbuf_drop cb len = Some (k, cb') \<and> cbuf_ok cb' \<and> same_opts cb cb' \<and> cb_size cb' = cb_size cb
     \<and> blog cb' = blog cb \<and> unread cb' = drop (nat k) (unread cb) \<and> cb_got_wrap cb' = cb_got_wrap cb"
proof (cases "0 < k")
  case True
  then have ne: "len \<noteq> 0" "k \<le> cb_used cb" "0 < cb_used cb" using cbuf_okD(3) [OF ok] by (auto simp: k_def split: if_splits)
  from cbuf_dropper_ok [OF ok True ne(2)] show ?thesis
    using ok len True ne by (auto simp: cbuf_drop_def Let_def k_def split: if_splits)
next
  case False
  then have "k = 0" using cbuf_okD(3) [OF ok] len by (auto simp: k_def split: if_splits)
  then show ?thesis using ok len by (auto simp: cbuf_drop_def Let_def k_def split: if_splits)
qed

lemma cbuf_peek_ok:
  assumes ok: "cbuf_ok cb" and len: "0 \<le> len" "len \<le> int (length buf)"
  defines "k \<equiv> min len (cb_used cb)"
  shows "cbuf_peek cb (Some buf) len = Some (k, Some (take (nat k) (unread cb) @ drop (nat k) buf))"
  using reader_mem [OF ok, of len buf] ok len cbuf_okD(3) [OF ok] by (auto simp: cbuf_peek_def k_def)

lemma cbuf_read_ok:
  assumes ok: "cbuf_ok cb" and len: "0 \<le> len" "len \<le> int (length buf)"
  defines "k \<equiv> min len (cb_used cb)"
  shows "\<exists>cb'. cbuf_read cb (Some buf) len = Some (k, Some (take (nat k) (unread cb) @ drop (nat k) buf), cb')
     \<and> cbuf_ok cb' \<and> same_opts cb cb' \<and> cb_size cb' = cb_size cb \<and> blog cb' = blog cb
     \<and> unread cb' = drop (nat k) (unread cb) \<and> cb_got_wrap cb' = cb_got_wrap cb"
proof (cases "0 < k")
  case True
  then have l: "0 < len" "k \<le> cb_used cb" by (auto simp: k_def)
  from cbuf_dropper_ok [OF ok True l(2)] obtain cb' where "cbuf_dropper cb k = Some (k, cb')" "cbuf_ok cb'" "same_opts cb cb'"
    "cb_size cb' = cb_size cb" "blog cb' = blog cb" "unread cb' = drop (nat k) (unread cb)" "cb_got_wrap cb' = cb_got_wrap cb" by blast
  then show ?thesis using reader_mem [OF ok l(1) len(2), folded k_def] ok l True by (simp add: cbuf_read_def)
next
  case False
  then have "k = 0" using cbuf_okD(3) [OF ok] len by (auto simp: k_def)
  then show ?thesis using reader_mem [OF ok _ len(2), folded k_def] ok len
    by (cases "len = 0") (simp_all add: cbuf_read_def)
qed

lemma cbuf_replay_ok:
  assumes ok: "cbuf_ok cb" and len: "0 \<le> len" "len \<le> int (length buf)"
  defines "k \<equiv> min len (int (length (past cb)))"
  shows "cbuf_replay cb (Some buf) len = Some (k, Some (lastn (nat k) (past cb) @ drop (nat k) buf))"
  using replayer_mem [OF ok, of len buf] ok len by (auto simp: cbuf_replay_def k_def)

lemma cbuf_rewind_ok:
  assumes ok: "cbuf_ok cb" and len: "-1 \<le> len"
  defines "k \<equiv> (if len = -1 then int (length (past cb)) else min len (int (length (past cb))))"
  shows "\<exists>cb'. cbuf_rewind cb len = Some (k, cb') \<and> cbuf_ok cb' \<and> same_opts cb cb' \<and> cb_size cb' = cb_size cb
     \<and> blog cb' = blog cb \<and> unread cb' = lastn (nat k) (past cb) @ unread cb \<and> cb_got_wrap cb' = cb_got_wrap cb"
proof (cases "len = 0")
  case True
  then show ?thesis using ok by (simp add: cbuf_rewind_def k_def)
next
  case False
  have np: "nrepl cb = Some (int (length (past cb)))" using cbuf_ok_nrepl [OF ok] length_past [OF ok] by simp
  have k: "0 \<le> k" "k \<le> int (length (past cb))" using len False by (auto simp: k_def)
  from unread_again_ok [OF ok k] obtain cb' where u: "unread_again cb k = Some cb'" "cbuf_ok cb'" "same_opts cb cb'"
    "cb_size cb' = cb_size cb" "blog cb' = blog cb" "unread cb' = lastn (nat k) (past cb) @ unread cb"
    "cb_got_wrap cb' = cb_got_wrap cb" by blast
  have "cbuf_rewind cb len = (do { src \<leftarrow> (if k > 0 then unread_again cb k else Some cb); cbuf_is_valid src; Some (k, src) })"
    using False len ok np by (simp add: cbuf_rewind_def Let_def k_def)
  then show ?thesis using u k ok by (cases "0 < k") auto
qed

text \<open>A write; the returned count is negative when nothing was accepted.\<close>

lemma cbuf_write_ok:
  assumes ok: "cbuf_ok cb" and len: "0 < len" "len \<le> 2 ^ 30" "len \<le> int (length s)"
  shows "\<exists>cb' k. cbuf_write cb (Some s) len = Some (if k = 0 then -1 else k, max 0 (cb_used cb + k - cb_size cb'), cb')
     \<and> roomy cb cb' len \<and> k = accepts cb (cb_size cb') len \<and> 0 \<le> k \<and> written cb cb' (take (nat k) s)"
proof -
  from writer_mem [OF assms] obtain cb' k where w: "cbuf_writer cb len cbuf_get_mem s =
       Some (if k = 0 then -1 else k, if k = 0 then None else Some (max 0 (cb_used cb + k - cb_size cb')), cb', drop (nat k) s)"
    "roomy cb cb' len" "k = accepts cb (cb_size cb') len" "0 \<le> k" "written cb cb' (take (nat k) s)" by blast
  have "cb_used cb \<le> cb_size cb'" using w(2) cbuf_okD(4) [OF ok] by (simp add: roomy_def)
  then have "cbuf_write cb (Some s) len = Some (if k = 0 then -1 else k, max 0 (cb_used cb + k - cb_size cb'), cb')"
    using w(1,4,5) ok len by (simp add: cbuf_write_def written_def)
  then show ?thesis using w by blast
qed

subsection \<open>Lines\<close>

lemma line_copy_ok:
  assumes ok: "cbuf_ok cb" and r: "0 < r" "r \<le> cb_used cb" and len: "0 < len" "len \<le> int (length buf)"
  defines "m \<equiv> min r (len - 1)"
  shows "line_copy cb buf len r = Some (take (nat m) (unread cb) @ [0] @ drop (nat m + 1) buf)"
proof -
  let ?b = "take (nat m) (unread cb) @ drop (nat m) buf"
  have m: "0 \<le> m" "m \<le> cb_used cb" "m < len" "nat m < length buf" "nat m \<le> length (unread cb)"
    using r len length_unread [OF ok] by (auto simp: m_def)
  have "mem_put ?b m [0] = Some (take (nat m) (unread cb) @ [0] @ drop (nat m + 1) buf)"
    using m by (simp add: mem_put_in)
  moreover have "(if m > 0 then do { (l, buf, _) \<leftarrow> cbuf_reader cb m cbuf_put_mem (buf, 0); xassert (l = 0 \<or> l = m); Some buf }
      else Some buf) = Some ?b"
    using reader_mem [OF ok, of m buf] m len by (auto simp: min_absorb1)
  ultimately show ?thesis using len(1) m(3) by (simp add: line_copy_def m_def [symmetric] Let_def)
qed

text \<open>The string that a line operation leaves in the caller's buffer.\<close>

definition line_buf :: "u8 list \<Rightarrow> u8 list \<Rightarrow> int \<Rightarrow> int \<Rightarrow> u8 list" where
  "line_buf q buf len r =
     (if 0 < r \<and> 0 < len then take (nat (min r (len - 1))) q @ [0] @ drop (nat (min r (len - 1)) + 1) buf else buf)"

lemma cbuf_read_line_ok:
  assumes ok: "cbuf_ok cb" and b: "0 \<le> len" "len \<le> int (length buf)" "-1 \<le> lines"
  shows "\<exists>r nlines cb'. cbuf_read_line cb (Some buf) len lines = Some (r, Some (line_buf (unread cb) buf len r), cb')
     \<and> unread_line_spec (unread cb) (len - 1) lines r nlines \<and> cbuf_ok cb' \<and> same_opts cb cb'
     \<and> cb_size cb' = cb_size cb \<and> blog cb' = blog cb \<and> unread cb' = drop (nat r) (unread cb)"
proof -
  obtain r nl where f: "cbuf_find_unread_line cb (len - 1) lines = Some (r, nl)"
    and spec: "unread_line_spec (unread cb) (len - 1) lines r nl"
    using cbuf_find_unread_line_ok [OF ok b(3)] by blast
  have r: "0 \<le> r" "r \<le> cb_used cb" using spec length_unread [OF ok] by (auto simp: unread_line_spec_def)
  show ?thesis
  proof (cases "0 < r")
    case False
    then have "r = 0" using r(1) by simp
    have "cbuf_read_line cb (Some buf) len lines = Some (0, Some buf, cb)"
      using f b ok \<open>r = 0\<close> by (simp add: cbuf_read_line_def)
    with spec ok \<open>r = 0\<close> show ?thesis by (auto simp: line_buf_def)
  next
    case True
    then have "lines \<noteq> 0" using spec by (auto simp: unread_line_spec_def)
    from cbuf_dropper_ok [OF ok True r(2)] obtain cb' where d: "cbuf_dropper cb r = Some (r, cb')" "cbuf_ok cb'" "same_opts cb cb'"
      "cb_size cb' = cb_size cb" "blog cb' = blog cb" "unread cb' = drop (nat r) (unread cb)" by blast
    have "line_copy cb buf len r = Some (line_buf (unread cb) buf len r)"
      using line_copy_ok [OF ok True r(2) _ b(2)] b(1) True by (cases "len = 0") (auto simp: line_buf_def line_copy_def)
    with f b ok d True \<open>lines \<noteq> 0\<close> have "cbuf_read_line cb (Some buf) len lines = Some (r, Some (line_buf (unread cb) buf len r), cb')"
      by (simp add: cbuf_read_line_def)
    with spec d show ?thesis by blast
  qed
qed

lemma cbuf_peek_line_ok:
  assumes ok: "cbuf_ok cb" and b: "0 \<le> len" "len \<le> int (length buf)" "-1 \<le> lines"
  shows "\<exists>r nlines. cbuf_peek_line cb (Some buf) len lines = Some (r, Some (line_buf (unread cb) buf len r))
     \<and> unread_line_spec (unread cb) (len - 1) lines r nlines"
proof -
  obtain r nl where f: "cbuf_find_unread_line cb (len - 1) lines = Some (r, nl)"
    and spec: "unread_line_spec (unread cb) (len - 1) lines r nl"
    using cbuf_find_unread_line_ok [OF ok b(3)] by blast
  have r: "0 \<le> r" "r \<le> cb_used cb" "lines = 0 \<Longrightarrow> r = 0"
    using spec length_unread [OF ok] by (auto simp: unread_line_spec_def)
  have "line_copy cb buf len r = Some (line_buf (unread cb) buf len r)" if "0 < r"
    using line_copy_ok [OF ok that r(2) _ b(2)] b(1) that by (cases "len = 0") (auto simp: line_buf_def line_copy_def)
  then have "cbuf_peek_line cb (Some buf) len lines = Some (r, Some (line_buf (unread cb) buf len r))"
    using f b ok r by (auto simp: cbuf_peek_line_def line_buf_def)
  with spec show ?thesis by blast
qed

lemma cbuf_drop_line_ok:
  assumes ok: "cbuf_ok cb" and b: "0 \<le> len" "-1 \<le> lines"
  shows "\<exists>r nlines cb'. cbuf_drop_line cb len lines = Some (r, cb')
     \<and> unread_line_spec (unread cb) len lines r nlines \<and> cbuf_ok cb' \<and> same_opts cb cb'
     \<and> cb_size cb' = cb_size cb \<and> blog cb' = blog cb \<and> unread cb' = drop (nat r) (unread cb)"
proof -
  obtain r nl where f: "cbuf_find_unread_line cb len lines = Some (r, nl)" and spec: "unread_line_spec (unread cb) len lines r nl"
    using cbuf_find_unread_line_ok [OF ok b(2)] by blast
  have r: "0 \<le> r" "r \<le> cb_used cb" "lines = 0 \<Longrightarrow> r = 0"
    using spec length_unread [OF ok] by (auto simp: unread_line_spec_def)
  show ?thesis
  proof (cases "0 < r")
    case False
    then have "cbuf_drop_line cb len lines = Some (r, cb)" using f b ok r(1,3) by (auto simp: cbuf_drop_line_def)
    with False r(1) spec ok show ?thesis by auto
  next
    case True
    from cbuf_dropper_ok [OF ok True r(2)] obtain cb' where d: "cbuf_dropper cb r = Some (r, cb')" "cbuf_ok cb'" "same_opts cb cb'"
      "cb_size cb' = cb_size cb" "blog cb' = blog cb" "unread cb' = drop (nat r) (unread cb)" by blast
    then have "cbuf_drop_line cb len lines = Some (r, cb')" using f b ok r True by (auto simp: cbuf_drop_line_def)
    with spec d show ?thesis by blast
  qed
qed

lemma cbuf_rewind_line_ok:
  assumes ok: "cbuf_ok cb" and b: "0 \<le> len" "len < 2 ^ 31 - 1" "-1 \<le> lines" "lines < 2 ^ 31 - 1"
  shows "\<exists>r nl cb'. cbuf_rewind_line cb len lines = Some (r, cb')
     \<and> replay_line_spec (past cb) (cb_got_wrap cb) r nl \<and> cbuf_ok cb' \<and> same_opts cb cb'
     \<and> cb_size cb' = cb_size cb \<and> blog cb' = blog cb \<and> unread cb' = lastn (nat r) (past cb) @ unread cb"
proof (cases "lines = 0")
  case True
  then have "cbuf_rewind_line cb len lines = Some (0, cb)" using b by (simp add: cbuf_rewind_line_def)
  moreover have "replay_line_spec (past cb) (cb_got_wrap cb) 0 0" by (simp add: replay_line_spec_def)
  ultimately show ?thesis using ok by auto
next
  case False
  obtain r ln nl where f: "cbuf_find_replay_line cb len lines = Some (r, ln, nl)"
    and spec: "replay_line_spec (past cb) (cb_got_wrap cb) r nl"
    using cbuf_find_replay_line_ok [OF ok b(3,4,2)] by blast
  have r: "0 \<le> r" "r \<le> int (length (past cb))" using spec by (auto simp: replay_line_spec_def)
  from unread_again_ok [OF ok r] obtain cb' where u: "unread_again cb r = Some cb'" "cbuf_ok cb'" "same_opts cb cb'"
    "cb_size cb' = cb_size cb" "blog cb' = blog cb" "unread cb' = lastn (nat r) (past cb) @ unread cb" by blast
  then have "cbuf_rewind_line cb len lines = Some (r, if 0 < r then cb' else cb)"
    using f b ok False by (simp add: cbuf_rewind_line_def)
  with u spec r(1) ok show ?thesis by (cases "0 < r") auto
qed

lemma cbuf_replay_line_ok:
  assumes ok: "cbuf_ok cb" and b: "0 \<le> len" "len \<le> int (length buf)" "len < 2 ^ 31" "-1 \<le> lines" "lines < 2 ^ 31 - 1"
  shows "\<exists>r buf'. cbuf_replay_line cb (Some buf) len lines = Some (r, Some buf')"
proof (cases "lines = 0")
  case True
  then show ?thesis using b by (simp add: cbuf_replay_line_def)
next
  case False
  have "len - 1 < 2 ^ 31 - 1" using b by simp
  then obtain r ln nl where f: "cbuf_find_replay_line cb (len - 1) lines = Some (r, ln, nl)"
    and spec: "replay_line_spec (past cb) (cb_got_wrap cb) r nl"
    using cbuf_find_replay_line_ok [OF ok b(4,5)] by blast
  have r: "0 \<le> r" "r \<le> int (length (past cb))" "nl = 0 \<or> nl = 1" using spec by (auto simp: replay_line_spec_def)
  show ?thesis
  proof (cases "0 < r \<and> 0 < len")
    case no: False
    then show ?thesis using f b ok False by (auto simp: cbuf_replay_line_def)
  next
    case True
    define m where "m = max (min r (len - 1 - nl)) 0"
    have m: "0 \<le> m" "m \<le> int (length (past cb))" "m + nl \<le> len \<or> nl = 1 \<and> len = 1" "m < len"
      using r True by (auto simp: m_def)
    have "\<exists>b1. (if m > 0 then do { (l, buf, _) \<leftarrow> cbuf_replayer cb m cbuf_put_mem (buf, 0); xassert (l = 0 \<or> l = m); Some buf }
      else Some buf) = Some b1 \<and> length b1 = length buf"
      using replayer_mem [OF ok, of m buf] m b(2) by (auto simp: min_absorb1)
    then obtain b1 where b1: "(if m > 0 then do { (l, buf, _) \<leftarrow> cbuf_replayer cb m cbuf_put_mem (buf, 0); xassert (l = 0 \<or> l = m); Some buf }
      else Some buf) = Some b1" "length b1 = length buf" by blast
    have m1: "nl = 1 \<and> 1 < len \<longrightarrow> m + 1 < len" using True r(1) by (auto simp: m_def)
    then show ?thesis using f b ok False True r(3) m b1 unfolding cbuf_replay_line_def
      by (auto simp: m_def [symmetric] mem_put_in)
  qed
qed

subsection \<open>Writing a line\<close>

lemma written_nil: "cbuf_ok cb' \<Longrightarrow> same_opts cb cb' \<Longrightarrow> blog cb' = blog cb \<Longrightarrow> unread cb' = unread cb \<Longrightarrow> written cb cb' []"
  using length_blog [of cb'] length_unread [of cb'] cbuf_okD(4,5) [of cb']
  by (auto simp: written_def le_nat_iff)

lemma lastn_lastn_append: "lastn k (lastn k xs @ ys) = lastn k (xs @ ys)"
proof -
  have "lastn k xs @ ys = lastn (k + length ys) (xs @ ys)" by (rule lastn_append [symmetric])
  then show ?thesis by (simp add: lastn_lastn min_def)
qed

text \<open>Two writes in a row, the first of which may start late when its first bytes would be overwritten at once.\<close>

lemma written_append:
  assumes "written a b xs" "written b c ys" "cb_size c = cb_size b"
  shows "written a c (xs @ ys)"
  using assms by (auto simp: written_def lastn_lastn_append intro: same_opts_trans)

lemma written_suffix:
  assumes "written a b (drop k xs)" and "k = 0 \<or> int (length xs - k) \<ge> cb_size b"
  shows "written a b xs"
proof (cases "k = 0")
  case False
  moreover have "0 < cb_size b" using assms(1) cbuf_okD(1) by (auto simp: written_def)
  ultimately have "nat (cb_size b) \<le> length (drop k xs)" "nat (cb_size b) + k \<le> length xs" using assms(2) by simp_all
  then have "lastn (nat (cb_size b)) (zs @ drop k xs) = lastn (nat (cb_size b)) (zs @ xs)" for zs
    by (simp add: lastn_append_le lastn_drop)
  then show ?thesis using assms(1) by (simp add: written_def)
qed (use assms in simp)

lemma used_written: "cbuf_ok cb \<Longrightarrow> written cb cb' bs \<Longrightarrow> cb_used cb' = min (cb_used cb + int (length bs)) (cb_size cb')"
  using length_unread [of cb] length_unread [of cb'] cbuf_okD(1) [of cb'] by (auto simp: written_def)

definition line_of :: "u8 list \<Rightarrow> u8 list" where
  "line_of s = (let str = takeWhile (\<lambda>c. c \<noteq> 0) s in if str = [] \<or> last str \<noteq> NL then str @ [NL] else str)"

text \<open>The writer on a buffer that has room or cannot grow any more, when the overwrite mode lets it accept all.\<close>

lemma writer_mem_all:
  assumes ok: "cbuf_ok cb" and len: "0 < len" "len \<le> 2 ^ 30" "len \<le> int (length s)"
    and room: "cb_size cb = cb_maxsize cb \<or> cb_used cb + len \<le> cb_size cb" and acc: "accepts cb (cb_size cb) len = len"
  shows "\<exists>cb'. cbuf_writer cb len cbuf_get_mem s = Some (len, Some (max 0 (cb_used cb + len - cb_size cb)), cb', drop (nat len) s)
     \<and> cb_size cb' = cb_size cb \<and> written cb cb' (take (nat len) s)"
proof -
  from writer_mem [OF ok len] obtain cb' k where w: "cbuf_writer cb len cbuf_get_mem s =
       Some (if k = 0 then -1 else k, if k = 0 then None else Some (max 0 (cb_used cb + k - cb_size cb')), cb', drop (nat k) s)"
    "roomy cb cb' len" "k = accepts cb (cb_size cb') len" "written cb cb' (take (nat k) s)" by blast
  have "cb_size cb' \<le> cb_maxsize cb" using w(4) by (auto simp: written_def cbuf_ok_def same_opts_def)
  then have "cb_size cb' = cb_size cb" using w(2) room by (auto simp: roomy_def)
  with w acc len(1) show ?thesis by simp
qed

lemma put_line_ok:
  assumes ok: "cbuf_ok c" and str: "take (length str) s = str" "length str < length s" "s ! length str \<noteq> NL"
    and lim: "int (length s) \<le> 2 ^ 30"
  defines "len \<equiv> int (length str) + (if str = [] \<or> last str \<noteq> NL then 1 else 0)"
  assumes room: "cb_size c = cb_maxsize c \<or> cb_used c + len \<le> cb_size c"
    and fit: "cb_overwrite c = CBUF_NO_DROP \<longrightarrow> len \<le> cb_size c - cb_used c"
      "cb_overwrite c = CBUF_WRAP_ONCE \<longrightarrow> len \<le> cb_size c"
  shows "\<exists>c'. put_line c s (int (length str)) len = Some (max 0 (cb_used c + len - cb_size c), c')
     \<and> cb_size c' = cb_size c \<and> written c c' (if str = [] \<or> last str \<noteq> NL then str @ [NL] else str)"
proof -
  note D = cbuf_okD [OF ok]
  define add where "add \<longleftrightarrow> str = [] \<or> last str \<noteq> NL"
  define nd where "nd = (if len > cb_size c then len - cb_size c else 0)"
  define nc where "nc = int (length str) - nd"
  have len: "len = int (length str) + (if add then 1 else 0)" "len \<le> int (length s)" "0 < len"
    using str(2) by (auto simp: len_def add_def)
  have nd: "0 \<le> nd" "0 \<le> nc" "nc \<le> len" "nat nd \<le> length str" using D(1) len(1) by (auto simp: nd_def nc_def)
  have tk: "take (nat nc) (drop (nat nd) s) = drop (nat nd) str"
  proof -
    have "drop (nat nd) str = drop (nat nd) (take (length str) s)" by (simp add: str(1))
    also have "\<dots> = take (nat nc) (drop (nat nd) s)" using nd by (simp add: drop_take nc_def nat_diff_distrib)
    finally show ?thesis by simp
  qed
  have "\<exists>c1. (if nc > 0 then do { (n, d, dst, _) \<leftarrow> cbuf_writer c nc cbuf_get_mem (drop (nat nd) s);
         xassert (n = 0 \<or> n = nc); d \<leftarrow> d; Some (nd + d, dst) } else Some (nd, c))
       = Some (nd + max 0 (cb_used c + nc - cb_size c), c1) \<and> cb_size c1 = cb_size c \<and> written c c1 (drop (nat nd) str)"
  proof (cases "nc > 0")
    case True
    have "\<exists>cb'. cbuf_writer c nc cbuf_get_mem (drop (nat nd) s)
        = Some (nc, Some (max 0 (cb_used c + nc - cb_size c)), cb', drop (nat nc) (drop (nat nd) s))
      \<and> cb_size cb' = cb_size c \<and> written c cb' (take (nat nc) (drop (nat nd) s))"
      using True nd len(2) lim str(2) room fit by (intro writer_mem_all [OF ok]) (auto simp: accepts_def nc_def)
    then show ?thesis using True unfolding tk by auto
  next
    case False
    then have "nc = 0" using nd by simp
    then have "drop (nat nd) str = []" by (simp add: nc_def)
    then show ?thesis using \<open>nc = 0\<close> D(4) written_nil [OF ok] by simp
  qed
  then obtain c1 where s1: "(if nc > 0 then do { (n, d, dst, _) \<leftarrow> cbuf_writer c nc cbuf_get_mem (drop (nat nd) s);
         xassert (n = 0 \<or> n = nc); d \<leftarrow> d; Some (nd + d, dst) } else Some (nd, c))
       = Some (nd + max 0 (cb_used c + nc - cb_size c), c1)" "cb_size c1 = cb_size c" and w1: "written c c1 (drop (nat nd) str)" by blast
  have ch: "mem_get s (nat (len - 1)) = Some (if add then s ! length str else last str)"
  proof -
    have "last str = s ! (length str - 1)" if "str \<noteq> []"
      using that str(1) by (metis last_conv_nth diff_less length_greater_0_conv nth_take zero_less_one)
    moreover have "nat (len - 1) = (if add then length str else length str - 1)" using len(1) by auto
    ultimately show ?thesis using str(2) by (auto simp: mem_get_def add_def)
  qed
  have u1: "cb_used c1 = min (cb_used c + nc) (cb_size c)" using used_written [OF ok w1] s1(2) nd by (simp add: nc_def)
  have pl: "put_line c s (int (length str)) len = (if add
      then do { (n, d, dst, _) \<leftarrow> cbuf_writer c1 1 cbuf_get_mem [NL, 0]; xassert (n = 1); d \<leftarrow> d;
                Some (nd + max 0 (cb_used c + nc - cb_size c) + d, dst) }
      else Some (nd + max 0 (cb_used c + nc - cb_size c), c1))"
    unfolding put_line_def Let_def nd_def [symmetric] nc_def [symmetric] s1(1) ch bind.bind_lunit prod.case
    using str(3) by (cases add) (simp_all add: add_def)
  have suf: "nat nd = 0 \<or> int (length (if add then str @ [NL] else str) - nat nd) \<ge> cb_size c"
    using len(1) by (auto simp: nd_def)
  show ?thesis
  proof (cases add)
    case False
    have "nd + max 0 (cb_used c + nc - cb_size c) = max 0 (cb_used c + len - cb_size c)"
      using len(1) False D by (auto simp: nd_def nc_def)
    then show ?thesis using pl False s1(2) written_suffix [OF w1] suf by (auto simp: add_def)
  next
    case True
    have ok1: "cbuf_ok c1" "same_opts c c1" using w1 by (auto simp: written_def)
    have "\<exists>cb'. cbuf_writer c1 1 cbuf_get_mem [NL, 0] = Some (1, Some (max 0 (cb_used c1 + 1 - cb_size c1)), cb', drop (nat 1) [NL, 0])
      \<and> cb_size cb' = cb_size c1 \<and> written c1 cb' (take (nat 1) [NL, 0])"
      using room fit len(1) True D ok1(2) s1(2) u1
      by (intro writer_mem_all [OF ok1(1)]) (auto simp: accepts_def same_opts_def nd_def nc_def)
    then obtain c2 where w2: "cbuf_writer c1 1 cbuf_get_mem [NL, 0] = Some (1, Some (max 0 (cb_used c1 + 1 - cb_size c1)), c2, [0])"
      "cb_size c2 = cb_size c1" "written c1 c2 [NL]" by auto
    have "written c c2 (drop (nat nd) (str @ [NL]))" using written_append [OF w1 w2(3,2)] nd(4) by simp
    then have "written c c2 (str @ [NL])" by (rule written_suffix) (use suf True s1(2) w2(2) in auto)
    moreover have "nd + max 0 (cb_used c + nc - cb_size c) + max 0 (cb_used c1 + 1 - cb_size c1) = max 0 (cb_used c + len - cb_size c)"
      using len(1) True D u1 s1(2) by (auto simp: nd_def nc_def)
    ultimately show ?thesis using pl True w2 s1(2) by (simp add: add_def)
  qed
qed

lemma cbuf_write_line_ok:
  assumes ok: "cbuf_ok cb" and s: "0 \<in> set s" "int (length s) \<le> 2 ^ 30"
  defines "len \<equiv> int (length (line_of s))"
  shows "\<exists>cb'. roomy cb cb' len \<and>
     (if cb_overwrite cb = CBUF_NO_DROP \<and> len > cb_size cb' - cb_used cb \<or> cb_overwrite cb = CBUF_WRAP_ONCE \<and> len > cb_size cb'
      then cbuf_write_line cb (Some s) = Some (-1, 0, cb') \<and> written cb cb' []
      else cbuf_write_line cb (Some s) = Some (len, max 0 (cb_used cb + len - cb_size cb'), cb') \<and> written cb cb' (line_of s))"
proof -
  define str where "str = takeWhile (\<lambda>c. c \<noteq> 0) s"
  have ls: "length str < length s"
  proof -
    have "0 < length (dropWhile (\<lambda>c. c \<noteq> 0) s)" using s(1) unfolding length_greater_0_conv dropWhile_eq_Nil_conv by auto
    moreover have "length str + length (dropWhile (\<lambda>c. c \<noteq> 0) s) = length s"
      unfolding str_def length_append [symmetric] by simp
    ultimately show ?thesis by linarith
  qed
  have str: "take (length str) s = str" "s ! length str = 0"
    using ls nth_length_takeWhile [of "\<lambda>c. c \<noteq> 0" s] by (simp_all add: str_def flip: takeWhile_eq_take)
  have line: "line_of s = (if str = [] \<or> last str \<noteq> NL then str @ [NL] else str)" by (simp add: line_of_def str_def Let_def)
  have len: "len = int (length str) + (if str = [] \<or> last str \<noteq> NL then 1 else 0)" "0 < len" "len \<le> 2 ^ 30"
    using ls s(2) by (auto simp: len_def line)
  from make_room_ok [OF ok len(2,3)] obtain c where mr: "make_room cb len = Some (cb_size c - cb_used cb, c)" and c: "cbuf_ok c"
    "same_opts cb c" "roomy cb c len" "blog c = blog cb" "unread c = unread cb" "cb_used c = cb_used cb" by blast
  have nl: "s ! length str \<noteq> NL" by (simp add: str(2) NL_def)
  have pre: "strlen s = Some (int (length str))"
    "(if int (length str) = 0 then Some 0 else mem_get s (nat (int (length str) - 1))) = Some (if str = [] then 0 else last str)"
    "(if (if str = [] then 0 else last str) \<noteq> NL then i32 (int (length str) + 1) else Some (int (length str))) = Some len"
  proof -
    show "strlen s = Some (int (length str))" using s(1) by (simp add: strlen_def str_def)
    have "last str = s ! (length str - 1)" if "str \<noteq> []"
      using that str(1) by (metis last_conv_nth diff_less length_greater_0_conv nth_take zero_less_one)
    moreover have "nat (int (length str) - 1) = length str - 1" by simp
    ultimately show "(if int (length str) = 0 then Some 0 else mem_get s (nat (int (length str) - 1))) = Some (if str = [] then 0 else last str)"
      using ls by (auto simp: mem_get_def)
    show "(if (if str = [] then 0 else last str) \<noteq> NL then i32 (int (length str) + 1) else Some (int (length str))) = Some len"
      using len(1) ls s(2) by (auto simp: i32_in NL_def)
  qed
  have ow: "cb_overwrite c = cb_overwrite cb" "cb_maxsize c = cb_maxsize cb" using c(2) by (auto simp: same_opts_def)
  define rej where "rej \<longleftrightarrow> cb_overwrite cb = CBUF_NO_DROP \<and> len > cb_size c - cb_used cb
      \<or> cb_overwrite cb = CBUF_WRAP_ONCE \<and> len > cb_size c"
  have wl: "cbuf_write_line cb (Some s) = do {
      (ndrop, dst) \<leftarrow> (if rej then Some (0, c) else put_line c s (int (length str)) len);
      cbuf_is_valid dst; Some (if rej then -1 else len, ndrop, dst) }"
    unfolding cbuf_write_line_def using pre mr ok ow c(6) len(2) by (auto simp: rej_def cbuf_consts Let_def)
  show ?thesis
  proof (cases rej)
    case True
    then show ?thesis using wl c written_nil [OF c(1,2)] by (intro exI [of _ c]) (auto simp: rej_def)
  next
    case False
    have "\<exists>c'. put_line c s (int (length str)) len = Some (max 0 (cb_used c + len - cb_size c), c')
     \<and> cb_size c' = cb_size c \<and> written c c' (if str = [] \<or> last str \<noteq> NL then str @ [NL] else str)"
      using False c(3,6) ow unfolding len(1) by (intro put_line_ok [OF c(1) str(1) ls nl s(2)]) (auto simp: rej_def roomy_def len(1))
    then obtain c' where p: "put_line c s (int (length str)) len = Some (max 0 (cb_used cb + len - cb_size c), c')"
      "cb_size c' = cb_size c" "written c c' (line_of s)" by (auto simp: c(6) line)
    have "written cb c' (line_of s)" using p(3) c by (auto simp: written_def intro: same_opts_trans)
    moreover have "cbuf_write_line cb (Some s) = Some (len, max 0 (cb_used cb + len - cb_size c'), c')"
      using wl False p by (simp add: written_def)
    moreover have "roomy cb c' len" using c(3) p(2) by (simp add: roomy_def)
    ultimately show ?thesis using False p(2) by (intro exI [of _ c']) (auto simp: rej_def)
  qed
qed

subsection \<open>File descriptors\<close>

text \<open>\<open>k\<close> bytes were transferred; without any, the result is the one of the system call.\<close>

lemma cbuf_peek_to_fd_ok:
  assumes ok: "cbuf_ok cb" and wr: "write_ok wr sent signals" and fd: "0 \<le> dstfd" "-1 \<le> len"
  shows "\<exists>n k w'. cbuf_peek_to_fd wr cb dstfd len w = Some (n, w') \<and> 0 \<le> k \<and> k \<le> (if len = -1 then cb_used cb else min len (cb_used cb))
     \<and> sent w' = sent w @ take (nat k) (unread cb) \<and> (if k = 0 then n \<le> 0 else n = k)"
proof -
  define l where "l = (if len = -1 then cb_used cb else len)"
  have e: "cbuf_peek_to_fd wr cb dstfd len w = (do {
      (n, w) \<leftarrow> (if l > 0 then cbuf_reader cb l (cbuf_put_fd wr) w else Some (0, w)); cbuf_is_valid cb; Some (n, w) })"
    using ok fd by (simp add: cbuf_peek_to_fd_def l_def Let_def)
  have lb: "min l (cb_used cb) = (if len = -1 then cb_used cb else min len (cb_used cb))" by (simp add: l_def)
  show ?thesis
  proof (cases "0 < l")
    case True
    with byte_sink.reader_ok [OF fd_sink [OF wr] ok True, of w] show ?thesis unfolding e lb [symmetric] using ok by fastforce
  next
    case False
    then have "cbuf_peek_to_fd wr cb dstfd len w = Some (0, w)" unfolding e using ok by simp
    then show ?thesis using fd cbuf_okD(3) [OF ok] by (intro exI [of _ 0] exI [of _ "0 :: int"] exI [of _ w]) auto
  qed
qed

lemma cbuf_read_to_fd_ok:
  assumes ok: "cbuf_ok cb" and wr: "write_ok wr sent signals" and fd: "0 \<le> dstfd" "-1 \<le> len"
  shows "\<exists>n k cb' w'. cbuf_read_to_fd wr cb dstfd len w = Some (n, cb', w') \<and> 0 \<le> k
     \<and> k \<le> (if len = -1 then cb_used cb else min len (cb_used cb))
     \<and> sent w' = sent w @ take (nat k) (unread cb) \<and> (if k = 0 then n \<le> 0 else n = k)
     \<and> cbuf_ok cb' \<and> same_opts cb cb' \<and> blog cb' = blog cb \<and> unread cb' = drop (nat k) (unread cb)"
proof -
  define l where "l = (if len = -1 then cb_used cb else len)"
  have e: "cbuf_read_to_fd wr cb dstfd len w = (do {
      (n, src, w) \<leftarrow> (if l > 0 then do { (n, w) \<leftarrow> cbuf_reader cb l (cbuf_put_fd wr) w;
        (_, src) \<leftarrow> (if n > 0 then cbuf_dropper cb n else Some (0, cb)); Some (n, src, w) } else Some (0, cb, w));
      cbuf_is_valid src; Some (n, src, w) })"
    using ok fd by (simp add: cbuf_read_to_fd_def l_def Let_def)
  have lb: "min l (cb_used cb) = (if len = -1 then cb_used cb else min len (cb_used cb))" by (simp add: l_def)
  show ?thesis
  proof (cases "0 < l")
    case True
    from byte_sink.reader_ok [OF fd_sink [OF wr] ok True, of w] obtain n k w' where
      r: "cbuf_reader cb l (cbuf_put_fd wr) w = Some (n, w')" "0 \<le> k" "k \<le> min l (cb_used cb)"
      "sent w' = sent w @ take (nat k) (unread cb)" "if k = 0 then n \<le> 0 else n = k" by auto
    show ?thesis
    proof (cases "k = 0")
      case k0: True
      then have "cbuf_read_to_fd wr cb dstfd len w = Some (n, cb, w')" unfolding e using r True ok by simp
      with k0 r ok show ?thesis by (intro exI [of _ n] exI [of _ "0 :: int"] exI [of _ cb] exI [of _ w']) (auto simp: lb)
    next
      case False
      with r have n: "n = k" "0 < n" "n \<le> cb_used cb" by auto
      from cbuf_dropper_ok [OF ok n(2,3)] obtain cb' where d: "cbuf_dropper cb n = Some (n, cb')" "cbuf_ok cb'"
        "same_opts cb cb'" "blog cb' = blog cb" "unread cb' = drop (nat n) (unread cb)" by blast
      then have "cbuf_read_to_fd wr cb dstfd len w = Some (n, cb', w')" unfolding e using r True n by simp
      with d r n show ?thesis by (intro exI [of _ n] exI [of _ k] exI [of _ cb'] exI [of _ w']) (auto simp: lb)
    qed
  next
    case False
    then have "cbuf_read_to_fd wr cb dstfd len w = Some (0, cb, w)" unfolding e using ok by simp
    then show ?thesis using fd ok cbuf_okD(3) [OF ok]
      by (intro exI [of _ 0] exI [of _ "0 :: int"] exI [of _ cb] exI [of _ w]) auto
  qed
qed

lemma cbuf_replay_to_fd_ok:
  assumes ok: "cbuf_ok cb" and wr: "write_ok wr sent signals" and fd: "0 \<le> dstfd" "-1 \<le> len"
  defines "l \<equiv> min (if len = -1 then cb_size cb - cb_used cb else len) (int (length (past cb)))"
  shows "\<exists>n k w'. cbuf_replay_to_fd wr cb dstfd len w = Some (n, w') \<and> 0 \<le> k \<and> k \<le> l
     \<and> sent w' = sent w @ take (nat k) (lastn (nat l) (past cb)) \<and> (if k = 0 then n \<le> 0 else n = k)"
proof -
  define l0 where "l0 = (if len = -1 then cb_size cb - cb_used cb else len)"
  have e: "cbuf_replay_to_fd wr cb dstfd len w = (do {
      (n, w) \<leftarrow> (if l0 > 0 then cbuf_replayer cb l0 (cbuf_put_fd wr) w else Some (0, w)); cbuf_is_valid cb; Some (n, w) })"
    using ok fd by (simp add: cbuf_replay_to_fd_def l0_def Let_def)
  have lb: "min l0 (int (length (past cb))) = l" by (simp add: l_def l0_def)
  show ?thesis
  proof (cases "0 < l0")
    case True
    with byte_sink.replayer_ok [OF fd_sink [OF wr] ok True, of w] show ?thesis unfolding e lb using ok by fastforce
  next
    case False
    then have "cbuf_replay_to_fd wr cb dstfd len w = Some (0, w)" unfolding e using ok by simp
    moreover have "l = 0" using False fd cbuf_okD(4) [OF ok] by (auto simp: l_def l0_def)
    ultimately show ?thesis by (intro exI [of _ 0] exI [of _ "0 :: int"] exI [of _ w]) auto
  qed
qed

lemma cbuf_write_from_fd_ok:
  assumes ok: "cbuf_ok cb" and rd: "read_ok rd took signals" and fd: "0 \<le> srcfd" "-1 \<le> len" "len \<le> 2 ^ 30"
  shows "\<exists>n d bs cb' w'. cbuf_write_from_fd rd cb srcfd len w = Some (n, d, cb', w') \<and> took w' = took w @ bs
     \<and> written cb cb' bs \<and> (if bs = [] then n \<le> 0 \<and> d = 0 else n = int (length bs) \<and> d = max 0 (cb_used cb + n - cb_size cb'))"
proof -
  note D = cbuf_okD [OF ok]
  define l where "l = (if len = -1 then (if cb_size cb - cb_used cb = 0 then CBUF_CHUNK else cb_size cb - cb_used cb) else len)"
  have e: "cbuf_write_from_fd rd cb srcfd len w = (do {
      (n, d, dst, w) \<leftarrow> (if l > 0 then cbuf_writer cb l (cbuf_get_fd rd) w else Some (0, None, cb, w));
      cbuf_is_valid dst; Some (n, case_option 0 id d, dst, w) })"
    using ok fd by (simp add: cbuf_write_from_fd_def l_def Let_def)
  show ?thesis
  proof (cases "0 < l")
    case True
    have "l \<le> 2 ^ 30" using fd D by (auto simp: l_def cbuf_consts CB_LIMIT_def)
    from byte_source.writer_ok [OF fd_source [OF rd] ok True this TrueI TrueI, of w] obtain n nd cb' w' bs where
      r: "cbuf_writer cb l (cbuf_get_fd rd) w = Some (n, nd, cb', w')" "cbuf_ok cb'" "same_opts cb cb'" "took w' = took w @ bs"
      "blog cb' = lastn (nat (cb_size cb')) (blog cb @ bs)" "unread cb' = lastn (nat (cb_size cb')) (unread cb @ bs)"
      "if bs = [] then n \<le> 0 \<and> nd = None
       else n = int (length bs) \<and> nd = Some (max 0 (cb_used cb + int (length bs) - cb_size cb'))" by blast
    then have "cbuf_write_from_fd rd cb srcfd len w = Some (n, case_option 0 id nd, cb', w')" unfolding e using True by simp
    moreover have "written cb cb' bs" using r by (simp add: written_def)
    ultimately show ?thesis using r(4,7)
      by (intro exI [of _ n] exI [of _ "case_option 0 id nd"] exI [of _ bs] exI [of _ cb'] exI [of _ w']) (auto split: if_splits)
  next
    case False
    then have "cbuf_write_from_fd rd cb srcfd len w = Some (0, 0, cb, w)" unfolding e using ok by simp
    then show ?thesis using written_nil [OF ok] by (auto intro!: exI [of _ "[]"])
  qed
qed

subsection \<open>Copies between buffers\<close>

lemma rotate_next:
  assumes "int (length d) = s + 1" "0 \<le> i" "0 \<le> n"
  shows "rotate (nat ((i + n) mod (s + 1))) d = rotate (nat n) (rotate (nat i) d)"
  using assms by (simp add: nat_mod_ring nat_add_distrib rotate_step)

lemma take_rotate_add: "a + b \<le> length xs \<Longrightarrow> take (a + b) xs = take a xs @ take b (rotate a xs)"
  using take_rotate_drop [of b a xs] by (simp add: take_add)

lemma copy_loop_ok:
  assumes src: "cbuf_ok src" and ok: "cbuf_ok cb"
    and "stored cb bs0 d j" and "0 \<le> i" "i \<le> cb_size src" and "0 \<le> nleft" "nleft \<le> cb_size src"
  shows "\<exists>j' d'. copy_loop src (cb\<lparr> cb_data := d \<rparr>) i j nleft = Some (j', cb\<lparr> cb_data := d' \<rparr>)
     \<and> stored cb (bs0 @ take (nat nleft) (rotate (nat i) (cb_data src))) d' j'"
  using assms(3-)
proof (induction "nat nleft" arbitrary: bs0 d i j nleft rule: less_induct)
  case less
  note D = cbuf_okD [OF ok] and S = cbuf_okD [OF src]
  have b: "0 \<le> j" "j \<le> cb_size cb" "int (length d) = cb_size cb + 1" using stored_bounds [OF ok less.prems(1)] by auto
  have len: "int (length (cb_data src)) = cb_size src + 1" using src by (simp add: cbuf_ok_def)
  show ?case
  proof (cases "0 < nleft")
    case False
    then have "nleft = 0" using less.prems by simp
    then show ?thesis using less.prems(1) by (subst copy_loop.simps) auto
  next
    case True
    define n where "n = min (min (cb_size src + 1 - i) (cb_size cb + 1 - j)) nleft"
    have n: "0 < n" "n \<le> nleft" "i + n \<le> cb_size src + 1" "j + n \<le> cb_size cb + 1"
      using True less.prems b by (auto simp: n_def)
    let ?R = "rotate (nat i) (cb_data src)"
    have sub: "mem_sub (cb_data src) i n = Some (take (nat n) ?R)"
      using n less.prems(2,3) len by (simp add: mem_sub_in take_rotate nat_less_iff nat_le_iff flip: nat_add_distrib)
    have lbs: "int (length (take (nat n) ?R)) = n" using n less.prems len by simp
    then have "j + int (length (take (nat n) ?R)) \<le> cb_size cb + 1" using n by simp
    from stored_step [OF ok less.prems(1) this] obtain d1 where
      p: "mem_put d j (take (nat n) ?R) = Some d1" "stored cb (bs0 @ take (nat n) ?R) d1 ((j + n) mod (cb_size cb + 1))"
      unfolding lbs by blast
    have rs: "ring src (i + n) = Some ((i + n) mod (cb_size src + 1))" "ring (cb\<lparr> cb_data := d1 \<rparr>) (j + n) = Some ((j + n) mod (cb_size cb + 1))"
      using n less.prems(2) b(1) S(1,2) D(1,2) by (simp_all add: ring_in CB_LIMIT_def)
    have step: "copy_loop src (cb\<lparr> cb_data := d \<rparr>) i j nleft
        = copy_loop src (cb\<lparr> cb_data := d1 \<rparr>) ((i + n) mod (cb_size src + 1)) ((j + n) mod (cb_size cb + 1)) (nleft - n)"
      using True sub p(1) rs by (subst copy_loop.simps) (simp add: n_def [symmetric] Let_def)
    have ib: "0 \<le> (i + n) mod (cb_size src + 1)" "(i + n) mod (cb_size src + 1) \<le> cb_size src"
      using S(1) pos_mod_bound [of "cb_size src + 1" "i + n"] by auto
    have "\<exists>j' d'. copy_loop src (cb\<lparr> cb_data := d1 \<rparr>) ((i + n) mod (cb_size src + 1)) ((j + n) mod (cb_size cb + 1)) (nleft - n)
        = Some (j', cb\<lparr> cb_data := d' \<rparr>)
      \<and> stored cb ((bs0 @ take (nat n) ?R) @ take (nat (nleft - n)) (rotate (nat ((i + n) mod (cb_size src + 1))) (cb_data src))) d' j'"
      using n less.prems p(2) ib by (intro less.hyps) auto
    moreover have "take (nat n) ?R @ take (nat (nleft - n)) (rotate (nat n) ?R) = take (nat nleft) ?R"
      using take_rotate_add [of "nat n" "nat (nleft - n)" ?R] n less.prems len by (simp flip: nat_add_distrib)
    ultimately show ?thesis using n less.prems by (simp add: step rotate_next [OF len])
  qed
qed

lemma cbuf_copier_ok:
  assumes src: "cbuf_ok src" and ok: "cbuf_ok dst" and len: "0 < len"
  defines "l \<equiv> min len (cb_used src)"
  shows "\<exists>k dst'. cbuf_copier src dst len = Some (if l = 0 then 0 else if k = 0 then -1 else k,
        if k = 0 then None else Some (max 0 (cb_used dst + k - cb_size dst')), dst')
     \<and> k = accepts dst (cb_size dst') l \<and> 0 \<le> k \<and> k \<le> l \<and> roomy dst dst' l \<and> written dst dst' (take (nat k) (unread src))"
proof (cases "l = 0")
  case True
  then have "cbuf_copier src dst len = Some (0, None, dst)" using len by (simp add: cbuf_copier_def l_def Let_def)
  moreover have "accepts dst (cb_size dst) 0 = 0" using cbuf_okD(1,4) [OF ok] by (simp add: accepts_def min_def)
  ultimately show ?thesis using True written_nil [OF ok] cbuf_okD(4) [OF ok]
    by (intro exI [of _ 0] exI [of _ dst]) (auto simp: roomy_def)
next
  case False
  note S = cbuf_okD [OF src] and lu = length_unread [OF src]
  have l: "0 < l" "l \<le> cb_used src" "l \<le> 2 ^ 30" using False len S by (auto simp: l_def CB_LIMIT_def)
  from make_room_ok [OF ok l(1,3)] obtain c where mr: "make_room dst l = Some (cb_size c - cb_used dst, c)" and c: "cbuf_ok c"
    "same_opts dst c" "roomy dst c l" "blog c = blog dst" "unread c = unread dst" "cb_used c = cb_used dst" by blast
  note D = cbuf_okD [OF c(1)]
  have mr': "make_room dst l = Some (cb_size c - cb_used c, c)" using mr c(6) by simp
  define k where "k = accepts dst (cb_size c) l"
  have kc: "k = (if cb_overwrite c = CBUF_NO_DROP then min l (cb_size c - cb_used c)
      else if cb_overwrite c = CBUF_WRAP_ONCE then min l (cb_size c) else l)"
    using c(2) by (simp add: k_def accepts_def same_opts_def c(6))
  have k: "0 \<le> k" "k \<le> l" "k = 0 \<Longrightarrow> cb_overwrite c = CBUF_NO_DROP" using l D kc by (auto split: if_splits)
  have cp: "cbuf_copier src dst len = (if cb_overwrite c = CBUF_NO_DROP \<and> k = 0 then Some (-1, None, c)
      else do {
        i_src \<leftarrow> (if k > cb_size c then ring src (cb_out src + (k - cb_size c)) else Some (cb_out src));
        (i_dst, dst) \<leftarrow> copy_loop src c i_src (cb_in c) (min k (cb_size c));
        dst \<leftarrow> (if min k (cb_size c) > 0 then wrote dst (cb_size c - cb_used c) (min k (cb_size c)) i_dst else Some dst);
        Some (k, Some (max 0 (k - cb_size c + cb_used c)), dst) })"
    using len False
    by (simp only: cbuf_copier_def mr' Let_def xassert_bind bind.bind_lunit prod.case if_True if_False l_def [symmetric] kc [symmetric])
  show ?thesis
  proof (cases "k = 0")
    case True
    then have "cbuf_copier src dst len = Some (-1, None, c)" using cp k(3) by simp
    then show ?thesis using True False c k written_nil [OF c(1,2)] by (intro exI [of _ k] exI [of _ c]) (auto simp: k_def)
  next
    case kp: False
    define off where "off = max 0 (k - cb_size c)"
    define i where "i = (cb_out src + off) mod (cb_size src + 1)"
    define bs where "bs = drop (nat off) (take (nat k) (unread src))"
    have off: "0 \<le> off" "off + min k (cb_size c) = k" "off \<le> cb_used src" using D(1) k l by (auto simp: off_def)
    have ib: "0 \<le> i" "i \<le> cb_size src" using behind_fwd [OF src off(1,3)] by (auto simp: i_def)
    have out: "0 \<le> cb_out src" "cb_out src \<le> cb_size src" "int (length (cb_data src)) = cb_size src + 1"
      using src by (simp_all add: cbuf_ok_def)
    have isrc: "(if k > cb_size c then ring src (cb_out src + (k - cb_size c)) else Some (cb_out src)) = Some i"
      using out off S by (auto simp: i_def off_def ring_in CB_LIMIT_def mod_pos_pos_trivial)
    have take_bs: "take (nat (min k (cb_size c))) (rotate (nat i) (cb_data src)) = bs"
    proof -
      let ?R = "rotate (nat (cb_out src)) (cb_data src)"
      have nn: "0 \<le> min k (cb_size c)" using k(1) D(1) by simp
      have "nat (min k (cb_size c)) + nat off \<le> length ?R" "nat k = nat off + nat (min k (cb_size c))"
        using off(1,2) k(2) l(2) S(4) out(3) nn unfolding length_rotate by linarith+
      then have "take (nat (min k (cb_size c))) (rotate (nat i) (cb_data src)) = drop (nat off) (take (nat k) ?R)"
        by (simp add: i_def rotate_next [OF out(3,1) off(1)] take_rotate_drop drop_take)
      moreover have "take (nat k) (unread src) = take (nat k) ?R" using k l by (simp add: unread_rotate [OF src] min_absorb1 nat_mono)
      ultimately show ?thesis by (simp add: bs_def)
    qed
    have lbs: "int (length bs) = min k (cb_size c)" "0 < length bs" "int (length bs) \<le> 2 ^ 30"
      using off k l lu kp D(1) by (auto simp: bs_def)
    have "min k (cb_size c) \<le> cb_size src" using k l S by simp
    with copy_loop_ok [OF src c(1) stored_init [OF c(1)] ib] lbs(1) obtain j d where
      cl: "copy_loop src c i (cb_in c) (min k (cb_size c)) = Some (j, c\<lparr> cb_data := d \<rparr>)" "stored c bs d j"
      unfolding append_Nil by (metis of_nat_0_le_iff take_bs cbuf.surjective cbuf.update_convs(13))
    obtain c' where w: "wrote (c\<lparr> cb_data := d \<rparr>) (cb_size c - cb_used c) (int (length bs)) j = Some c'" "cbuf_ok c'" "same_opts c c'"
      "cb_size c' = cb_size c" "blog c' = lastn (nat (cb_size c)) (blog c @ bs)" "unread c' = lastn (nat (cb_size c)) (unread c @ bs)"
      using wrote_ok [OF c(1) cl(2) lbs(2,3)] by blast
    have "cbuf_copier src dst len = Some (k, Some (max 0 (k - cb_size c + cb_used c)), c')"
      using cp kp isrc cl(1) w(1) lbs k(1) D(1) by simp
    moreover have "written dst c' (take (nat k) (unread src))"
    proof -
      have "written dst c' bs" using w c by (auto simp: written_def intro: same_opts_trans)
      then show ?thesis unfolding bs_def by (rule written_suffix) (use off k l lu w(4) in \<open>auto simp: off_def\<close>)
    qed
    moreover have "max 0 (k - cb_size c + cb_used c) = max 0 (cb_used dst + k - cb_size c')" using c(6) w(4) by simp
    moreover have "roomy dst c' l" using c(3) w(4) by (simp add: roomy_def)
    ultimately show ?thesis using False kp k w(4) by (intro exI [of _ k] exI [of _ c']) (simp add: k_def)
  qed
qed

text \<open>\<open>l\<close> bytes are asked for and \<open>k\<close> of them accepted; a move also takes them out of the source.\<close>

lemma accepts_0: "cbuf_ok cb \<Longrightarrow> accepts cb (cb_size cb) 0 = 0"
  using cbuf_okD(1,4) [of cb] by (simp add: accepts_def min_def)

lemma cbuf_copy_ok:
  assumes src: "cbuf_ok src" and ok: "cbuf_ok dst" and len: "-1 \<le> len"
  defines "l \<equiv> if len = -1 then cb_used src else min len (cb_used src)"
  shows "\<exists>k dst'. cbuf_copy False src dst len =
       Some (if l = 0 then 0 else if k = 0 then -1 else k, max 0 (cb_used dst + k - cb_size dst'), dst')
     \<and> k = accepts dst (cb_size dst') l \<and> 0 \<le> k \<and> k \<le> l \<and> roomy dst dst' l \<and> written dst dst' (take (nat k) (unread src))"
proof (cases "len = 0 \<or> len = -1 \<and> cb_used src = 0")
  case True
  then have l: "l = 0" using cbuf_okD(3) [OF src] by (auto simp: l_def)
  have "cbuf_copy False src dst len = Some (0, 0, dst)" using True src ok by (auto simp: cbuf_copy_def)
  then show ?thesis using l accepts_0 [OF ok] written_nil [OF ok] cbuf_okD(4) [OF ok]
    by (intro exI [of _ 0] exI [of _ dst]) (auto simp: roomy_def)
next
  case False
  define m where "m = (if len = -1 then cb_used src else len)"
  have m: "0 < m" "min m (cb_used src) = l" using False len cbuf_okD(3) [OF src] by (auto simp: m_def l_def)
  from cbuf_copier_ok [OF src ok m(1)] obtain k dst' where c: "cbuf_copier src dst m =
      Some (if l = 0 then 0 else if k = 0 then -1 else k, if k = 0 then None else Some (max 0 (cb_used dst + k - cb_size dst')), dst')"
    "k = accepts dst (cb_size dst') l" "0 \<le> k" "k \<le> l" "roomy dst dst' l" "written dst dst' (take (nat k) (unread src))"
    unfolding m(2) by blast
  have "cb_used dst \<le> cb_size dst'" using c(5) cbuf_okD(4) [OF ok] by (simp add: roomy_def)
  then have "cbuf_copy False src dst len =
       Some (if l = 0 then 0 else if k = 0 then -1 else k, max 0 (cb_used dst + k - cb_size dst'), dst')"
    using False len src ok c(1,3,6) m(1) by (auto simp: cbuf_copy_def m_def written_def)
  with c show ?thesis by blast
qed

lemma cbuf_move_ok:
  assumes src: "cbuf_ok src" and ok: "cbuf_ok dst" and len: "-1 \<le> len"
  defines "l \<equiv> if len = -1 then cb_used src else min len (cb_used src)"
  shows "\<exists>k src' dst'. cbuf_move False src dst len =
       Some (if l = 0 then 0 else if k = 0 then -1 else k, max 0 (cb_used dst + k - cb_size dst'), src', dst')
     \<and> k = accepts dst (cb_size dst') l \<and> 0 \<le> k \<and> k \<le> l \<and> roomy dst dst' l \<and> written dst dst' (take (nat k) (unread src))
     \<and> cbuf_ok src' \<and> same_opts src src' \<and> blog src' = blog src \<and> unread src' = drop (nat k) (unread src)"
proof (cases "len = 0 \<or> len = -1 \<and> cb_used src = 0")
  case True
  then have l: "l = 0" using cbuf_okD(3) [OF src] by (auto simp: l_def)
  have "cbuf_move False src dst len = Some (0, 0, src, dst)" using True src ok by (auto simp: cbuf_move_def)
  then show ?thesis using l accepts_0 [OF ok] written_nil [OF ok] cbuf_okD(4) [OF ok] src
    by (intro exI [of _ 0] exI [of _ src] exI [of _ dst]) (auto simp: roomy_def)
next
  case False
  define m where "m = (if len = -1 then cb_used src else len)"
  have m: "0 < m" "min m (cb_used src) = l" using False len cbuf_okD(3) [OF src] by (auto simp: m_def l_def)
  have lu: "l \<le> cb_used src" by (auto simp: l_def)
  from cbuf_copier_ok [OF src ok m(1)] obtain k dst' where c: "cbuf_copier src dst m =
      Some (if l = 0 then 0 else if k = 0 then -1 else k, if k = 0 then None else Some (max 0 (cb_used dst + k - cb_size dst')), dst')"
    "k = accepts dst (cb_size dst') l" "0 \<le> k" "k \<le> l" "roomy dst dst' l" "written dst dst' (take (nat k) (unread src))"
    unfolding m(2) by blast
  have "\<exists>src'. (if (if l = 0 then 0 else if k = 0 then -1 else k) > 0 then cbuf_dropper src (if l = 0 then 0 else if k = 0 then -1 else k)
       else Some (0, src)) = Some (k, src') \<and> cbuf_ok src' \<and> same_opts src src' \<and> blog src' = blog src
       \<and> unread src' = drop (nat k) (unread src)"
  proof (cases "k = 0")
    case False
    then have "0 < k" "k \<le> cb_used src" "l \<noteq> 0" using c(3,4) lu by auto
    with cbuf_dropper_ok [OF src this(1,2)] show ?thesis by auto
  qed (use src in auto)
  then obtain src' where d: "(if (if l = 0 then 0 else if k = 0 then -1 else k) > 0 then cbuf_dropper src (if l = 0 then 0 else if k = 0 then -1 else k)
       else Some (0, src)) = Some (k, src')" and s': "cbuf_ok src'" "same_opts src src'" "blog src' = blog src"
       "unread src' = drop (nat k) (unread src)" by blast
  have "cb_used dst \<le> cb_size dst'" "cbuf_ok dst'" using c(5,6) cbuf_okD(4) [OF ok] by (auto simp: roomy_def written_def)
  then have "cbuf_move False src dst len =
       Some (if l = 0 then 0 else if k = 0 then -1 else k, max 0 (cb_used dst + k - cb_size dst'), src', dst')"
    using False len src ok c(1,3) m(1) d s'(1) unfolding cbuf_move_def
    by (simp add: m_def [symmetric] Let_def split del: if_split) auto
  with c s' show ?thesis by blast
qed

end
