(* ===== verification/Cbuf_Props.thy ===== *)
theory Cbuf_Props
  imports Cbuf_Ops
begin

text \<open>
  The properties of the circular buffers: they refine a bounded byte queue with three overflow
  policies, no sequence of operations violates an assertion or leaves the buffer, and lines and
  rewound bytes come back as they were written.
\<close>

subsection \<open>Simulations\<close>

text \<open>Commands run one after the other, on an implementation that may abort and on a specification.\<close>

primrec run_c :: "('op \<Rightarrow> 'c \<Rightarrow> ('out \<times> 'c) option) \<Rightarrow> 'op list \<Rightarrow> 'c \<Rightarrow> ('out list \<times> 'c) option" where
  "run_c step [] c = Some ([], c)"
| "run_c step (x # xs) c = do { (r, c) \<leftarrow> step x c; (rs, c) \<leftarrow> run_c step xs c; Some (r # rs, c) }"

primrec run_a :: "('op \<Rightarrow> 'a \<Rightarrow> 'out \<times> 'a) \<Rightarrow> 'op list \<Rightarrow> 'a \<Rightarrow> 'out list \<times> 'a" where
  "run_a step [] a = ([], a)"
| "run_a step (x # xs) a = (let (r, a) = step x a; (rs, a) = run_a step xs a in (r # rs, a))"

text \<open>Steps that always return and keep an invariant, and steps that in addition behave as specified.\<close>

locale total_steps =
  fixes cstep :: "'op \<Rightarrow> 'c \<Rightarrow> ('out \<times> 'c) option" and inv :: "'c \<Rightarrow> bool" and legal :: "'op \<Rightarrow> bool"
  assumes total: "inv c \<Longrightarrow> legal x \<Longrightarrow> \<exists>r c'. cstep x c = Some (r, c') \<and> inv c'"
begin

lemma run_total:
  assumes "inv c" "list_all legal xs"
  shows "\<exists>rs c'. run_c cstep xs c = Some (rs, c') \<and> inv c'"
  using assms
proof (induction xs arbitrary: c)
  case (Cons x xs)
  then obtain r c1 where s: "cstep x c = Some (r, c1)" "inv c1" using total [of c x] by auto
  with Cons.IH [OF s(2)] Cons.prems obtain rs c' where "run_c cstep xs c1 = Some (rs, c')" "inv c'" by auto
  with s show ?case by simp
qed simp

end

locale simulation =
  fixes cstep :: "'op \<Rightarrow> 'c \<Rightarrow> ('out \<times> 'c) option" and astep :: "'op \<Rightarrow> 'a \<Rightarrow> 'out \<times> 'a"
    and inv :: "'c \<Rightarrow> bool" and abs :: "'c \<Rightarrow> 'a" and legal :: "'op \<Rightarrow> bool"
  assumes step: "inv c \<Longrightarrow> legal x \<Longrightarrow>
      \<exists>r c'. cstep x c = Some (r, c') \<and> inv c' \<and> astep x (abs c) = (r, abs c')"
begin

lemma run:
  assumes "inv c" "list_all legal xs"
  shows "\<exists>rs c'. run_c cstep xs c = Some (rs, c') \<and> inv c' \<and> run_a astep xs (abs c) = (rs, abs c')"
  using assms
proof (induction xs arbitrary: c)
  case (Cons x xs)
  then obtain r c1 where s: "cstep x c = Some (r, c1)" "inv c1" "astep x (abs c) = (r, abs c1)"
    using step [of c x] by auto
  with Cons.IH [OF s(2)] Cons.prems obtain rs c' where
    "run_c cstep xs c1 = Some (rs, c')" "inv c'" "run_a astep xs (abs c1) = (rs, abs c')" by auto
  with s show ?case by simp
qed simp

end

subsection \<open>The bounded queue\<close>

text \<open>
  The specification: a queue of at most \<open>cap\<close> unread bytes and an overflow policy. It does not know how
  the implementation grows or where its data wraps.
\<close>

record byte_queue =
  q_cap :: nat
  q_mode :: int
  q_bytes :: "u8 list"

datatype queue_op = Q_write "u8 list" | Q_read nat | Q_peek nat | Q_drop int | Q_used | Q_free | Q_is_empty
  | Q_mode int | Q_flush

text \<open>The outcome of a command: the returned number, the bytes delivered and the number of bytes dropped.\<close>

type_synonym outcome = "int \<times> u8 list \<times> int"

definition q_accept :: "byte_queue \<Rightarrow> nat \<Rightarrow> nat" where
  "q_accept q n =
     (if q_mode q = CBUF_NO_DROP then min n (q_cap q - length (q_bytes q))
      else if q_mode q = CBUF_WRAP_ONCE then min n (q_cap q) else n)"

fun q_step :: "queue_op \<Rightarrow> byte_queue \<Rightarrow> outcome \<times> byte_queue" where
  "q_step (Q_write bs) q =
     (let k = q_accept q (length bs)
      in ((if k = 0 \<and> bs \<noteq> [] then -1 else int k, [], int (length (q_bytes q) + k - q_cap q)),
          q\<lparr> q_bytes := lastn (q_cap q) (q_bytes q @ take k bs) \<rparr>))"
| "q_step (Q_read n) q =
     ((int (min n (length (q_bytes q))), take n (q_bytes q), 0), q\<lparr> q_bytes := drop n (q_bytes q) \<rparr>)"
| "q_step (Q_peek n) q = ((int (min n (length (q_bytes q))), take n (q_bytes q), 0), q)"
| "q_step (Q_drop n) q =
     (if n < -1 then ((-1, [], 0), q)
      else let k = (if n = -1 then length (q_bytes q) else min (nat n) (length (q_bytes q)))
           in ((int k, [], 0), q\<lparr> q_bytes := drop k (q_bytes q) \<rparr>))"
| "q_step Q_used q = ((int (length (q_bytes q)), [], 0), q)"
| "q_step Q_free q = ((int (q_cap q - length (q_bytes q)), [], 0), q)"
| "q_step Q_is_empty q = ((if q_bytes q = [] then 1 else 0, [], 0), q)"
| "q_step (Q_mode m) q =
     (if m \<in> {CBUF_NO_DROP, CBUF_WRAP_ONCE, CBUF_WRAP_MANY} then ((0, [], 0), q\<lparr> q_mode := m \<rparr>) else ((-1, [], 0), q))"
| "q_step Q_flush q = ((0, [], 0), q\<lparr> q_bytes := [] \<rparr>)"

text \<open>The same commands on a circular buffer; a reader's buffer is as long as the request.\<close>

fun cb_step :: "queue_op \<Rightarrow> cbuf \<Rightarrow> (outcome \<times> cbuf) option" where
  "cb_step (Q_write bs) cb = do { (n, d, cb) \<leftarrow> cbuf_write cb (Some bs) (int (length bs)); Some ((n, [], d), cb) }"
| "cb_step (Q_read n) cb = do {
     (k, buf, cb) \<leftarrow> cbuf_read cb (Some (replicate n 0)) (int n);
     Some ((k, take (nat k) (the buf), 0), cb) }"
| "cb_step (Q_peek n) cb = do {
     (k, buf) \<leftarrow> cbuf_peek cb (Some (replicate n 0)) (int n);
     Some ((k, take (nat k) (the buf), 0), cb) }"
| "cb_step (Q_drop n) cb = do { (k, cb) \<leftarrow> cbuf_drop cb n; Some ((k, [], 0), cb) }"
| "cb_step Q_used cb = do { n \<leftarrow> cbuf_used cb; Some ((n, [], 0), cb) }"
| "cb_step Q_free cb = do { n \<leftarrow> cbuf_free cb; Some ((n, [], 0), cb) }"
| "cb_step Q_is_empty cb = do { e \<leftarrow> cbuf_is_empty cb; Some ((if e then 1 else 0, [], 0), cb) }"
| "cb_step (Q_mode m) cb = do { (rc, cb) \<leftarrow> cbuf_opt_set cb CBUF_OPT_OVERWRITE m; Some ((rc, [], 0), cb) }"
| "cb_step Q_flush cb = do { cb \<leftarrow> cbuf_flush cb; Some ((0, [], 0), cb) }"

definition queue_of :: "cbuf \<Rightarrow> byte_queue" where
  "queue_of cb = \<lparr> q_cap = nat (cb_maxsize cb), q_mode = cb_overwrite cb, q_bytes = unread cb \<rparr>"

definition legal_op :: "queue_op \<Rightarrow> bool" where
  "legal_op x = (case x of Q_write bs \<Rightarrow> length bs \<le> 2 ^ 30 | _ \<Rightarrow> True)"

lemma queue_of_eq:
  "same_opts cb cb' \<Longrightarrow> queue_of cb' = (queue_of cb)\<lparr> q_bytes := unread cb' \<rparr>"
  by (simp add: queue_of_def same_opts_def)

lemma cbuf_flush_ok:
  assumes "cbuf_ok cb"
  shows "\<exists>cb'. cbuf_flush cb = Some cb' \<and> cbuf_ok cb' \<and> same_opts cb cb' \<and> unread cb' = [] \<and> past cb' = []"
proof -
  let ?cb = "cb\<lparr> cb_used := 0, cb_got_wrap := False, cb_in := 0, cb_out := 0, cb_rep := 0 \<rparr>"
  have ok: "cbuf_ok ?cb" using assms by (simp add: cbuf_ok_def behind_def)
  have "unread ?cb = []" "past ?cb = []" by (simp_all add: unread_def past_def blog_def behind_def)
  with ok show ?thesis using assms by (auto simp: cbuf_flush_def same_opts_def)
qed

lemma cbuf_opt_set_ok:
  assumes "cbuf_ok cb"
  shows "cbuf_opt_set cb CBUF_OPT_OVERWRITE m =
     Some (if m \<in> {CBUF_NO_DROP, CBUF_WRAP_ONCE, CBUF_WRAP_MANY} then (0, cb\<lparr> cb_overwrite := m \<rparr>) else (-1, cb))"
    and "m \<in> {CBUF_NO_DROP, CBUF_WRAP_ONCE, CBUF_WRAP_MANY} \<Longrightarrow> cbuf_ok (cb\<lparr> cb_overwrite := m \<rparr>)"
    and "unread (cb\<lparr> cb_overwrite := m \<rparr>) = unread cb"
proof -
  show ok: "cbuf_ok (cb\<lparr> cb_overwrite := m \<rparr>)" if "m \<in> {CBUF_NO_DROP, CBUF_WRAP_ONCE, CBUF_WRAP_MANY}"
    using assms that by (simp add: cbuf_ok_def behind_def)
  show "unread (cb\<lparr> cb_overwrite := m \<rparr>) = unread cb" by (simp add: unread_def window_def)
  show "cbuf_opt_set cb CBUF_OPT_OVERWRITE m =
     Some (if m \<in> {CBUF_NO_DROP, CBUF_WRAP_ONCE, CBUF_WRAP_MANY} then (0, cb\<lparr> cb_overwrite := m \<rparr>) else (-1, cb))"
    using assms ok by (auto simp: cbuf_opt_set_def)
qed

text \<open>A write depends on the current size only through the log: the unread bytes see the maximal size.\<close>

lemma write_step:
  assumes ok: "cbuf_ok cb" and bs: "bs \<noteq> []" "length bs \<le> 2 ^ 30"
  shows "\<exists>r cb'. cb_step (Q_write bs) cb = Some (r, cb') \<and> cbuf_ok cb' \<and> q_step (Q_write bs) (queue_of cb) = (r, queue_of cb')"
proof -
  have len: "0 < int (length bs)" "int (length bs) \<le> 2 ^ 30" using bs by simp_all
  from cbuf_write_ok [OF ok len, of bs] obtain cb' k where
    w: "cbuf_write cb (Some bs) (int (length bs)) = Some (if k = 0 then -1 else k, max 0 (cb_used cb + k - cb_size cb'), cb')"
      "roomy cb cb' (int (length bs))" "k = accepts cb (cb_size cb') (int (length bs))" "0 \<le> k" "written cb cb' (take (nat k) bs)" by auto
  have ok': "cbuf_ok cb'" and so: "same_opts cb cb'" and un: "unread cb' = lastn (nat (cb_size cb')) (unread cb @ take (nat k) bs)"
    using w(5) by (simp_all add: written_def)
  have lu: "int (length (unread cb)) = cb_used cb" by (rule length_unread [OF ok])
  have mx: "cb_size cb' \<le> cb_maxsize cb" "0 < cb_maxsize cb" "cb_used cb \<le> cb_maxsize cb"
    using ok' so ok cbuf_okD(4) [OF ok] by (auto simp: cbuf_ok_def same_opts_def)
  have klen: "k \<le> int (length bs)" using w(3) by (auto simp: accepts_def)
  have k: "nat k = q_accept (queue_of cb) (length bs)" "k = 0 \<Longrightarrow> q_accept (queue_of cb) (length bs) = 0"
    using w(2,3,4) mx lu by (auto simp: accepts_def q_accept_def queue_of_def roomy_def min_def nat_diff_distrib split: if_splits)
  have d: "max 0 (cb_used cb + k - cb_size cb') = int (length (unread cb) + nat k - nat (cb_maxsize cb))"
    using w(2,4) klen mx lu by (auto simp: roomy_def)
  have u: "unread cb' = lastn (nat (cb_maxsize cb)) (unread cb @ take (nat k) bs)"
    using un w(2,4) klen mx lu by (cases "cb_size cb' = cb_maxsize cb") (auto simp: roomy_def nat_le_iff)
  have "cb_step (Q_write bs) cb = Some ((if k = 0 then -1 else k, [], max 0 (cb_used cb + k - cb_size cb')), cb')"
    using w(1) by simp
  moreover have "q_step (Q_write bs) (queue_of cb) = ((if k = 0 then -1 else k, [], max 0 (cb_used cb + k - cb_size cb')), queue_of cb')"
    using bs(1) w(4) unfolding q_step.simps Let_def k(1) [symmetric] d queue_of_eq [OF so] u by (auto simp: queue_of_def)
  ultimately show ?thesis using ok' by blast
qed

lemma read_step:
  assumes ok: "cbuf_ok cb"
  shows "\<exists>r cb'. cb_step (Q_read n) cb = Some (r, cb') \<and> cbuf_ok cb' \<and> q_step (Q_read n) (queue_of cb) = (r, queue_of cb')"
    and "\<exists>r. cb_step (Q_peek n) cb = Some (r, cb) \<and> q_step (Q_peek n) (queue_of cb) = (r, queue_of cb)"
proof -
  define k where "k = min (int n) (cb_used cb)"
  have lu: "int (length (unread cb)) = cb_used cb" by (rule length_unread [OF ok])
  have nk: "nat k = min n (length (unread cb))" "int (min n (length (unread cb))) = k" using lu by (auto simp: k_def)
  have take_eq: "take (min n (length (unread cb))) (unread cb) = take n (unread cb)"
    "drop (min n (length (unread cb))) (unread cb) = drop n (unread cb)" by (auto simp: min_def)
  from cbuf_read_ok [OF ok, of "int n" "replicate n 0"] obtain cb' where
    r: "cbuf_read cb (Some (replicate n 0)) (int n) = Some (k, Some (take (nat k) (unread cb) @ drop (nat k) (replicate n 0)), cb')"
      "cbuf_ok cb'" "same_opts cb cb'" "unread cb' = drop (nat k) (unread cb)" by (auto simp: k_def)
  have "cb_step (Q_read n) cb = Some ((k, take n (unread cb), 0), cb')" using r(1) by (simp add: nk take_eq)
  moreover have "q_step (Q_read n) (queue_of cb) = ((k, take n (unread cb), 0), queue_of cb')"
    unfolding queue_of_eq [OF r(3)] r(4) by (simp add: nk take_eq) (simp add: queue_of_def nk)
  ultimately show "\<exists>r cb'. cb_step (Q_read n) cb = Some (r, cb') \<and> cbuf_ok cb' \<and> q_step (Q_read n) (queue_of cb) = (r, queue_of cb')"
    using r(2) by blast
  have "cb_step (Q_peek n) cb = Some ((k, take n (unread cb), 0), cb)"
    using cbuf_peek_ok [OF ok, of "int n" "replicate n 0"] by (simp add: nk take_eq flip: k_def)
  then show "\<exists>r. cb_step (Q_peek n) cb = Some (r, cb) \<and> q_step (Q_peek n) (queue_of cb) = (r, queue_of cb)"
    by (simp add: queue_of_def nk)
qed

lemma drop_step:
  assumes ok: "cbuf_ok cb"
  shows "\<exists>r cb'. cb_step (Q_drop n) cb = Some (r, cb') \<and> cbuf_ok cb' \<and> q_step (Q_drop n) (queue_of cb) = (r, queue_of cb')"
proof (cases "n < -1")
  case True
  then show ?thesis using ok by (simp add: cbuf_drop_def)
next
  case False
  define k where "k = (if n = -1 then cb_used cb else min n (cb_used cb))"
  have lu: "int (length (unread cb)) = cb_used cb" by (rule length_unread [OF ok])
  have nk: "(if n = -1 then length (unread cb) else min (nat n) (length (unread cb))) = nat k" "int (nat k) = k"
    using lu False by (auto simp: k_def)
  from cbuf_drop_ok [OF ok, of n] False obtain cb' where
    r: "cbuf_drop cb n = Some (k, cb')" "cbuf_ok cb'" "same_opts cb cb'" "unread cb' = drop (nat k) (unread cb)" by (auto simp: k_def)
  have "q_step (Q_drop n) (queue_of cb) = ((k, [], 0), queue_of cb')"
  proof -
    have qb: "q_bytes (queue_of cb) = unread cb" by (simp add: queue_of_def)
    show ?thesis using False unfolding queue_of_eq [OF r(3)] r(4) q_step.simps Let_def qb nk by simp
  qed
  then show ?thesis using r by simp
qed

sublocale simulation \<subseteq> total_steps cstep inv legal
proof
  fix c x assume "inv c" "legal x"
  from step [OF this] show "\<exists>r c'. cstep x c = Some (r, c') \<and> inv c'" by blast
qed

interpretation cq: simulation cb_step q_step cbuf_ok queue_of legal_op
proof
  fix cb x assume ok: "cbuf_ok cb" and legal: "legal_op x"
  have lu: "int (length (unread cb)) = cb_used cb" by (rule length_unread [OF ok])
  have mx: "cb_used cb \<le> cb_maxsize cb" using ok cbuf_okD(4) [OF ok] by (simp add: cbuf_ok_def)
  show "\<exists>r c'. cb_step x cb = Some (r, c') \<and> cbuf_ok c' \<and> q_step x (queue_of cb) = (r, queue_of c')"
  proof (cases x)
    case (Q_write bs)
    then show ?thesis
    proof (cases "bs = []")
      case True
      have "lastn (nat (cb_maxsize cb)) (unread cb) = unread cb" using lu mx by (intro lastn_all) simp
      then show ?thesis using True Q_write ok lu mx
        by (auto simp: cbuf_write_def queue_of_def q_accept_def Let_def)
    next
      case False
      then show ?thesis using Q_write legal write_step [OF ok] by (simp add: legal_op_def)
    qed
  next
    case (Q_read n)
    then show ?thesis using read_step(1) [OF ok] by simp
  next
    case (Q_peek n)
    then show ?thesis using read_step(2) [OF ok] ok by blast
  next
    case (Q_drop n)
    then show ?thesis using drop_step [OF ok] by simp
  next
    case Q_used
    then show ?thesis using ok lu by (simp add: cbuf_used_def queue_of_def)
  next
    case Q_free
    then show ?thesis using ok lu mx by (simp add: cbuf_free_def queue_of_def of_nat_diff)
  next
    case Q_is_empty
    then show ?thesis using ok lu by (auto simp: cbuf_is_empty_def queue_of_def)
  next
    case (Q_mode m)
    then show ?thesis using cbuf_opt_set_ok [OF ok, of m] ok by (auto simp: queue_of_def)
  next
    case Q_flush
    obtain cb' where f: "cbuf_flush cb = Some cb'" "cbuf_ok cb'" "same_opts cb cb'" "unread cb' = []"
      using cbuf_flush_ok [OF ok] by blast
    then show ?thesis using Q_flush queue_of_eq [OF f(3)] by simp
  qed
qed

lemma cbuf_create_ok:
  assumes "0 < minsize" "minsize \<le> CB_LIMIT" "maxsize \<le> CB_LIMIT"
  shows "\<exists>cb. cbuf_create minsize maxsize = Some (Some cb) \<and> cbuf_ok cb \<and> cb_maxsize cb = max minsize maxsize
     \<and> unread cb = [] \<and> past cb = [] \<and> cb_size cb = minsize
     \<and> queue_of cb = \<lparr> q_cap = nat (max minsize maxsize), q_mode = CBUF_WRAP_MANY, q_bytes = [] \<rparr>"
proof -
  define cb where "cb = \<lparr> cb_magic = CBUF_MAGIC, cb_alloc = minsize + 17, cb_minsize = minsize,
                   cb_maxsize = (if maxsize > minsize then maxsize else minsize), cb_size = minsize,
                   cb_used = 0, cb_overwrite = CBUF_WRAP_MANY, cb_got_wrap = False,
                   cb_in = 0, cb_out = 0, cb_rep = 0, cb_under = CBUF_MAGIC,
                   cb_data = replicate (nat (minsize + 1)) 0, cb_over = CBUF_MAGIC \<rparr>"
  have ok: "cbuf_ok cb" using assms by (simp add: cbuf_ok_def cb_def behind_def)
  have "i32 (minsize + 1 + 2 * CBUF_MAGIC_LEN) = Some (minsize + 17)"
    using assms by (simp add: i32_in CBUF_MAGIC_LEN_def CB_LIMIT_def)
  then have "cbuf_create minsize maxsize = Some (Some cb)"
    using assms(1) ok unfolding cbuf_create_def by (simp add: Let_def flip: cb_def)
  moreover have "unread cb = []" "past cb = []" by (simp_all add: unread_def past_def blog_def behind_def cb_def)
  ultimately show ?thesis using ok by (auto simp: queue_of_def cb_def max_def)
qed

text \<open>
  C36. A circular buffer refines a bounded byte queue. For every sequence of writes, reads, peeks, drops,
  mode changes, flushes and queries on a buffer from \<open>cbuf_create\<close>, no operation aborts, and every returned
  number, delivered byte and drop count is the one of a queue that holds at most \<open>max minsize maxsize\<close> bytes
  and applies the overwrite mode when it is full: growth and wrap-around are invisible.
\<close>

theorem cbuf_refines_queue:
  assumes "0 < minsize" "minsize \<le> 2 ^ 30 - 2000" "maxsize \<le> 2 ^ 30 - 2000"
    and "list_all legal_op xs"
  shows "\<exists>cb rs cb'. cbuf_create minsize maxsize = Some (Some cb)
     \<and> run_c cb_step xs cb = Some (rs, cb') \<and> cbuf_is_valid cb' = Some ()
     \<and> run_a q_step xs \<lparr> q_cap = nat (max minsize maxsize), q_mode = CBUF_WRAP_MANY, q_bytes = [] \<rparr> = (rs, queue_of cb')"
proof -
  obtain cb where cb: "cbuf_create minsize maxsize = Some (Some cb)" "cbuf_ok cb"
    "queue_of cb = \<lparr> q_cap = nat (max minsize maxsize), q_mode = CBUF_WRAP_MANY, q_bytes = [] \<rparr>"
    using cbuf_create_ok [OF assms(1)] assms(2,3) by (auto simp: CB_LIMIT_def)
  from cq.run [OF cb(2) assms(4)] cb show ?thesis by (metis cbuf_ok_valid)
qed

theorem cbuf_refines_queue_witness:
  "\<exists>cb rs cb'. cbuf_create 2 4 = Some (Some cb)
     \<and> run_c cb_step [Q_write [1, 2, 3, 4, 5, 6], Q_read 2, Q_mode 0, Q_write [7, 8, 9], Q_write [10], Q_read 9] cb = Some (rs, cb')
     \<and> cbuf_is_valid cb' = Some ()
     \<and> rs = [(6, [], 2), (2, [3, 4], 0), (0, [], 0), (2, [], 0), (-1, [], 0), (4, [5, 6, 7, 8], 0)]"
proof -
  have "list_all legal_op [Q_write [1, 2, 3, 4, 5, 6], Q_read 2, Q_mode 0, Q_write [7, 8, 9], Q_write [10], Q_read 9]"
    by (simp add: legal_op_def)
  from cbuf_refines_queue [of 2 4, OF _ _ _ this] show ?thesis
    by (auto simp: q_accept_def lastn_def cbuf_consts)
qed

subsection \<open>Every operation\<close>

datatype cbuf_call = C_flush | C_size | C_free | C_used | C_lines_used | C_reused | C_lines_reused | C_is_empty
  | C_opt_get int "int option" | C_opt_set int int | C_drop int | C_peek "u8 list option" int
  | C_read "u8 list option" int | C_replay "u8 list option" int | C_rewind int | C_write "u8 list option" int
  | C_drop_line int int | C_peek_line "u8 list option" int int | C_read_line "u8 list option" int int
  | C_replay_line "u8 list option" int int | C_rewind_line int int | C_write_line "u8 list option"
  | C_peek_to_fd int int | C_read_to_fd int int | C_replay_to_fd int int | C_write_from_fd int int

text \<open>A call on the buffer and the outside world; the first component of the result is the returned value.\<close>

fun call :: "'w write_call \<Rightarrow> 'w read_call \<Rightarrow> cbuf_call \<Rightarrow> cbuf \<times> 'w \<Rightarrow> (int \<times> cbuf \<times> 'w) option" where
  "call wr rd C_flush (cb, w) = do { cb \<leftarrow> cbuf_flush cb; Some (0, cb, w) }"
| "call wr rd C_size (cb, w) = do { n \<leftarrow> cbuf_size cb; Some (n, cb, w) }"
| "call wr rd C_free (cb, w) = do { n \<leftarrow> cbuf_free cb; Some (n, cb, w) }"
| "call wr rd C_used (cb, w) = do { n \<leftarrow> cbuf_used cb; Some (n, cb, w) }"
| "call wr rd C_lines_used (cb, w) = do { n \<leftarrow> cbuf_lines_used cb; Some (n, cb, w) }"
| "call wr rd C_reused (cb, w) = do { n \<leftarrow> cbuf_reused cb; Some (n, cb, w) }"
| "call wr rd C_lines_reused (cb, w) = do { n \<leftarrow> cbuf_lines_reused cb; Some (n, cb, w) }"
| "call wr rd C_is_empty (cb, w) = do { b \<leftarrow> cbuf_is_empty cb; Some (of_bool b, cb, w) }"
| "call wr rd (C_opt_get nm v) (cb, w) = do { (rc, _) \<leftarrow> cbuf_opt_get cb nm v; Some (rc, cb, w) }"
| "call wr rd (C_opt_set nm v) (cb, w) = do { (rc, cb) \<leftarrow> cbuf_opt_set cb nm v; Some (rc, cb, w) }"
| "call wr rd (C_drop len) (cb, w) = do { (n, cb) \<leftarrow> cbuf_drop cb len; Some (n, cb, w) }"
| "call wr rd (C_peek buf len) (cb, w) = do { (n, _) \<leftarrow> cbuf_peek cb buf len; Some (n, cb, w) }"
| "call wr rd (C_read buf len) (cb, w) = do { (n, _, cb) \<leftarrow> cbuf_read cb buf len; Some (n, cb, w) }"
| "call wr rd (C_replay buf len) (cb, w) = do { (n, _) \<leftarrow> cbuf_replay cb buf len; Some (n, cb, w) }"
| "call wr rd (C_rewind len) (cb, w) = do { (n, cb) \<leftarrow> cbuf_rewind cb len; Some (n, cb, w) }"
| "call wr rd (C_write buf len) (cb, w) = do { (n, _, cb) \<leftarrow> cbuf_write cb buf len; Some (n, cb, w) }"
| "call wr rd (C_drop_line len lines) (cb, w) = do { (n, cb) \<leftarrow> cbuf_drop_line cb len lines; Some (n, cb, w) }"
| "call wr rd (C_peek_line buf len lines) (cb, w) = do { (n, _) \<leftarrow> cbuf_peek_line cb buf len lines; Some (n, cb, w) }"
| "call wr rd (C_read_line buf len lines) (cb, w) = do { (n, _, cb) \<leftarrow> cbuf_read_line cb buf len lines; Some (n, cb, w) }"
| "call wr rd (C_replay_line buf len lines) (cb, w) = do { (n, _) \<leftarrow> cbuf_replay_line cb buf len lines; Some (n, cb, w) }"
| "call wr rd (C_rewind_line len lines) (cb, w) = do { (n, cb) \<leftarrow> cbuf_rewind_line cb len lines; Some (n, cb, w) }"
| "call wr rd (C_write_line buf) (cb, w) = do { (n, _, cb) \<leftarrow> cbuf_write_line cb buf; Some (n, cb, w) }"
| "call wr rd (C_peek_to_fd fd len) (cb, w) = do { (n, w) \<leftarrow> cbuf_peek_to_fd wr cb fd len w; Some (n, cb, w) }"
| "call wr rd (C_read_to_fd fd len) (cb, w) = cbuf_read_to_fd wr cb fd len w"
| "call wr rd (C_replay_to_fd fd len) (cb, w) = do { (n, w) \<leftarrow> cbuf_replay_to_fd wr cb fd len w; Some (n, cb, w) }"
| "call wr rd (C_write_from_fd fd len) (cb, w) = do { (n, _, cb, w) \<leftarrow> cbuf_write_from_fd rd cb fd len w; Some (n, cb, w) }"

text \<open>
  What a caller has to respect: a buffer is as long as the length passed with it, a string ends with \<open>NUL\<close>,
  and the lengths stay below the limits that keep the \<open>int\<close> arithmetic in range. Null pointers, negative
  lengths, unknown options and bad descriptors are allowed.
\<close>

definition room_for :: "u8 list option \<Rightarrow> int \<Rightarrow> bool" where
  "room_for buf len = (case buf of None \<Rightarrow> True | Some b \<Rightarrow> len \<le> int (length b))"

fun call_ok :: "cbuf_call \<Rightarrow> bool" where
  "call_ok (C_peek buf len) = room_for buf len"
| "call_ok (C_read buf len) = room_for buf len"
| "call_ok (C_replay buf len) = room_for buf len"
| "call_ok (C_write buf len) = (room_for buf len \<and> len \<le> 2 ^ 30)"
| "call_ok (C_peek_line buf len lines) = room_for buf len"
| "call_ok (C_read_line buf len lines) = room_for buf len"
| "call_ok (C_replay_line buf len lines) = (room_for buf len \<and> len < 2 ^ 31 \<and> lines < 2 ^ 31 - 1)"
| "call_ok (C_rewind_line len lines) = (len < 2 ^ 31 - 1 \<and> lines < 2 ^ 31 - 1)"
| "call_ok (C_write_line buf) = (case buf of None \<Rightarrow> True | Some s \<Rightarrow> 0 \<in> set s \<and> int (length s) \<le> 2 ^ 30)"
| "call_ok (C_write_from_fd fd len) = (len \<le> 2 ^ 30)"
| "call_ok _ = True"

text \<open>Every legal call returns, keeps the invariant and the options that only \<open>cbuf_opt_set\<close> changes.\<close>

definition keeps :: "cbuf \<Rightarrow> (int \<times> cbuf \<times> 'w) option \<Rightarrow> bool" where
  "keeps cb res \<longleftrightarrow> (\<exists>r cb' w'. res = Some (r, cb', w') \<and> cbuf_ok cb' \<and> cb_maxsize cb' = cb_maxsize cb)"

lemma keeps_same: "cbuf_ok cb \<Longrightarrow> keeps cb (Some (r, cb, w))"
  by (auto simp: keeps_def)

lemma keeps_opts: "cbuf_ok cb' \<Longrightarrow> same_opts cb cb' \<Longrightarrow> keeps cb (Some (r, cb', w))"
  by (auto simp: keeps_def same_opts_def)

lemma call_query_keeps:
  assumes ok: "cbuf_ok cb"
    and x: "x \<in> {C_flush, C_size, C_free, C_used, C_lines_used, C_reused, C_lines_reused, C_is_empty, C_opt_get nm v, C_opt_set nm m}"
  shows "keeps cb (call wr rd x (cb, w))"
proof -
  have u: "\<exists>r l. cbuf_find_unread_line cb (cb_size cb) (-1) = Some (r, l)"
    using cbuf_find_unread_line_ok [OF ok, of "-1"] by blast
  have sz: "cb_size cb < 2 ^ 31 - 1" using cbuf_okD(2) [OF ok] by (simp add: CB_LIMIT_def)
  have p: "\<exists>r l nl. cbuf_find_replay_line cb (cb_size cb) (-1) = Some (r, l, nl)"
    using cbuf_find_replay_line_ok [OF ok, of "-1", OF _ _ sz] by auto
  have f: "\<exists>cb'. cbuf_flush cb = Some cb' \<and> cbuf_ok cb' \<and> same_opts cb cb'" using cbuf_flush_ok [OF ok] by blast
  have s: "keeps cb (call wr rd (C_opt_set nm m) (cb, w))"
  proof (cases "nm = CBUF_OPT_OVERWRITE")
    case True
    then show ?thesis using cbuf_opt_set_ok [OF ok, of m] ok by (auto simp: keeps_def)
  next
    case False
    then show ?thesis using ok by (simp add: cbuf_opt_set_def keeps_def)
  qed
  show ?thesis
    using x u p f s ok keeps_same [OF ok] keeps_opts cbuf_ok_nrepl [OF ok]
    by (auto simp: cbuf_size_def cbuf_free_def cbuf_used_def cbuf_lines_used_def cbuf_reused_def
        cbuf_lines_reused_def cbuf_is_empty_def cbuf_opt_get_def split: option.splits)
qed

lemma call_mem_keeps:
  assumes ok: "cbuf_ok cb" and c: "call_ok x"
    and x: "x \<in> {C_drop len, C_peek buf len, C_read buf len, C_replay buf len, C_rewind len, C_write buf len}"
  shows "keeps cb (call wr rd x (cb, w))"
proof -
  have d: "keeps cb (call wr rd (C_drop len) (cb, w))"
  proof (cases "-1 \<le> len")
    case True
    from cbuf_drop_ok [OF ok this] keeps_opts show ?thesis by auto
  qed (use keeps_same [OF ok] in \<open>simp add: cbuf_drop_def\<close>)
  have rw: "keeps cb (call wr rd (C_rewind len) (cb, w))"
  proof (cases "-1 \<le> len")
    case True
    from cbuf_rewind_ok [OF ok this] keeps_opts show ?thesis by auto
  qed (use keeps_same [OF ok] in \<open>simp add: cbuf_rewind_def\<close>)
  have m: "keeps cb (call wr rd x (cb, w))" if "x \<in> {C_peek buf len, C_read buf len, C_replay buf len, C_write buf len}"
  proof (cases "buf = None \<or> len \<le> 0")
    case True
    then show ?thesis using that keeps_same [OF ok]
      by (cases buf) (auto simp: cbuf_peek_def cbuf_read_def cbuf_replay_def cbuf_write_def)
  next
    case False
    then obtain b where b: "buf = Some b" "0 < len" by auto
    have "keeps cb (call wr rd (C_peek buf len) (cb, w))" "keeps cb (call wr rd (C_replay buf len) (cb, w))" if "len \<le> int (length b)"
      using b that cbuf_peek_ok [OF ok, of len b] cbuf_replay_ok [OF ok, of len b] keeps_same [OF ok] by simp_all
    moreover have "keeps cb (call wr rd (C_read buf len) (cb, w))" if "len \<le> int (length b)"
      using b that cbuf_read_ok [OF ok, of len b] keeps_opts by auto
    moreover have "keeps cb (call wr rd (C_write buf len) (cb, w))" if l: "len \<le> int (length b)" "len \<le> 2 ^ 30"
    proof -
      obtain n d cb' where "cbuf_write cb (Some b) len = Some (n, d, cb')" "cbuf_ok cb'" "same_opts cb cb'"
        using cbuf_write_ok [OF ok b(2) l(2,1)] unfolding written_def by blast
      then show ?thesis using b keeps_opts by simp
    qed
    ultimately show ?thesis using that c b by (auto simp: room_for_def)
  qed
  show ?thesis using x d rw m by auto
qed

lemma call_line_keeps:
  assumes ok: "cbuf_ok cb" and c: "call_ok x"
    and x: "x \<in> {C_drop_line len lines, C_peek_line buf len lines, C_read_line buf len lines, C_replay_line buf len lines,
        C_rewind_line len lines, C_write_line buf}"
  shows "keeps cb (call wr rd x (cb, w))"
proof -
  have d: "keeps cb (call wr rd (C_drop_line len lines) (cb, w))"
  proof (cases "0 \<le> len \<and> -1 \<le> lines")
    case True
    then obtain r cb' where "cbuf_drop_line cb len lines = Some (r, cb')" "cbuf_ok cb'" "same_opts cb cb'"
      using cbuf_drop_line_ok [OF ok, of len lines] by blast
    then show ?thesis using keeps_opts by simp
  qed (use keeps_same [OF ok] in \<open>auto simp: cbuf_drop_line_def\<close>)
  have rw: "keeps cb (call wr rd (C_rewind_line len lines) (cb, w))" if cl: "call_ok (C_rewind_line len lines)"
  proof (cases "0 \<le> len \<and> -1 \<le> lines")
    case True
    then obtain r cb' where "cbuf_rewind_line cb len lines = Some (r, cb')" "cbuf_ok cb'" "same_opts cb cb'"
      using cbuf_rewind_line_ok [OF ok, of len lines] cl unfolding call_ok.simps by blast
    then show ?thesis using keeps_opts by simp
  qed (use keeps_same [OF ok] in \<open>auto simp: cbuf_rewind_line_def\<close>)
  have m: "keeps cb (call wr rd x (cb, w))" if "x \<in> {C_peek_line buf len lines, C_read_line buf len lines, C_replay_line buf len lines}"
  proof (cases "buf = None \<or> len < 0 \<or> lines < -1")
    case True
    then show ?thesis using that keeps_same [OF ok]
      by (cases buf) (auto simp: cbuf_peek_line_def cbuf_read_line_def cbuf_replay_line_def)
  next
    case False
    then obtain b where b: "buf = Some b" "0 \<le> len" "-1 \<le> lines" by auto
    have "keeps cb (call wr rd (C_peek_line buf len lines) (cb, w))" if l: "len \<le> int (length b)"
    proof -
      obtain r b' where "cbuf_peek_line cb (Some b) len lines = Some (r, b')"
        using cbuf_peek_line_ok [OF ok b(2) l b(3)] by blast
      then show ?thesis using b keeps_same [OF ok] by simp
    qed
    moreover have "keeps cb (call wr rd (C_read_line buf len lines) (cb, w))" if l: "len \<le> int (length b)"
    proof -
      obtain r b' cb' where "cbuf_read_line cb (Some b) len lines = Some (r, b', cb')" "cbuf_ok cb'" "same_opts cb cb'"
        using cbuf_read_line_ok [OF ok b(2) l b(3)] by blast
      then show ?thesis using b keeps_opts by simp
    qed
    moreover have "keeps cb (call wr rd (C_replay_line buf len lines) (cb, w))"
      if l: "len \<le> int (length b)" "len < 2 ^ 31" "lines < 2 ^ 31 - 1"
    proof -
      obtain r b' where "cbuf_replay_line cb (Some b) len lines = Some (r, b')"
        using cbuf_replay_line_ok [OF ok b(2) l(1,2) b(3) l(3)] by blast
      then show ?thesis using b keeps_same [OF ok] by simp
    qed
    ultimately show ?thesis using that c b by (auto simp: room_for_def)
  qed
  have wl: "keeps cb (call wr rd (C_write_line buf) (cb, w))" if cl: "call_ok (C_write_line buf)"
  proof (cases buf)
    case None
    then show ?thesis using keeps_same [OF ok] by (simp add: cbuf_write_line_def)
  next
    case (Some s)
    with cl obtain n d cb' where "cbuf_write_line cb (Some s) = Some (n, d, cb')" "cbuf_ok cb'" "same_opts cb cb'"
      using cbuf_write_line_ok [OF ok, of s] by (auto simp: written_def split: if_splits)
    then show ?thesis using Some keeps_opts by simp
  qed
  show ?thesis using x d rw m wl c by auto
qed

lemma call_fd_keeps:
  assumes ok: "cbuf_ok cb" and c: "call_ok x" and wr: "write_ok wr sent ws" and rd: "read_ok rd took rs"
    and x: "x \<in> {C_peek_to_fd fd len, C_read_to_fd fd len, C_replay_to_fd fd len, C_write_from_fd fd len}"
  shows "keeps cb (call wr rd x (cb, w))"
proof (cases "0 \<le> fd \<and> -1 \<le> len")
  case False
  then show ?thesis using x keeps_same [OF ok]
    by (auto simp: cbuf_peek_to_fd_def cbuf_read_to_fd_def cbuf_replay_to_fd_def cbuf_write_from_fd_def)
next
  case True
  have p: "keeps cb (call wr rd (C_peek_to_fd fd len) (cb, w))"
    using cbuf_peek_to_fd_ok [OF ok wr, of fd len w] True keeps_same [OF ok] by auto
  have r: "keeps cb (call wr rd (C_read_to_fd fd len) (cb, w))"
    using cbuf_read_to_fd_ok [OF ok wr, of fd len w] True keeps_opts by auto
  have y: "keeps cb (call wr rd (C_replay_to_fd fd len) (cb, w))"
    using cbuf_replay_to_fd_ok [OF ok wr, of fd len w] True keeps_same [OF ok] by auto
  have g: "keeps cb (call wr rd (C_write_from_fd fd len) (cb, w))" if "len \<le> 2 ^ 30"
    using cbuf_write_from_fd_ok [OF ok rd, of fd len w] True that keeps_opts by (auto simp: written_def)
  show ?thesis using x p r y g c by auto
qed

lemma call_keeps:
  assumes ok: "cbuf_ok cb" and c: "call_ok x" and wr: "write_ok wr sent ws" and rd: "read_ok rd took rs"
  shows "keeps cb (call wr rd x (cb, w))"
proof (cases x)
  case (C_opt_get nm v)
  then show ?thesis using call_query_keeps [OF ok, where x = x and nm = nm and v = v] by simp
next
  case (C_opt_set nm m)
  then show ?thesis using call_query_keeps [OF ok, where x = x and nm = nm and m = m] by simp
next
  case (C_drop n)
  then show ?thesis using call_mem_keeps [OF ok c, where len = n] by simp
next
  case (C_peek b n)
  then show ?thesis using call_mem_keeps [OF ok c, where buf = b and len = n] by simp
next
  case (C_read b n)
  then show ?thesis using call_mem_keeps [OF ok c, where buf = b and len = n] by simp
next
  case (C_replay b n)
  then show ?thesis using call_mem_keeps [OF ok c, where buf = b and len = n] by simp
next
  case (C_rewind n)
  then show ?thesis using call_mem_keeps [OF ok c, where len = n] by simp
next
  case (C_write b n)
  then show ?thesis using call_mem_keeps [OF ok c, where buf = b and len = n] by simp
next
  case (C_drop_line n k)
  then show ?thesis using call_line_keeps [OF ok c, where len = n and lines = k] by simp
next
  case (C_peek_line b n k)
  then show ?thesis using call_line_keeps [OF ok c, where buf = b and len = n and lines = k] by simp
next
  case (C_read_line b n k)
  then show ?thesis using call_line_keeps [OF ok c, where buf = b and len = n and lines = k] by simp
next
  case (C_replay_line b n k)
  then show ?thesis using call_line_keeps [OF ok c, where buf = b and len = n and lines = k] by simp
next
  case (C_rewind_line n k)
  then show ?thesis using call_line_keeps [OF ok c, where len = n and lines = k] by simp
next
  case (C_write_line b)
  then show ?thesis using call_line_keeps [OF ok c, where buf = b] by simp
next
  case (C_peek_to_fd d n)
  then show ?thesis using call_fd_keeps [OF ok c wr rd, where fd = d and len = n] by simp
next
  case (C_read_to_fd d n)
  then show ?thesis using call_fd_keeps [OF ok c wr rd, where fd = d and len = n] by simp
next
  case (C_replay_to_fd d n)
  then show ?thesis using call_fd_keeps [OF ok c wr rd, where fd = d and len = n] by simp
next
  case (C_write_from_fd d n)
  then show ?thesis using call_fd_keeps [OF ok c wr rd, where fd = d and len = n] by simp
qed (use call_query_keeps [OF ok, where x = x] in simp_all)

text \<open>
  C37. No sequence of public operations, on memory, on lines or on file descriptors, fails an assertion of
  \<open>cbuf.c\<close>, loops forever, or touches a byte outside the buffer or outside the memory of the caller: every
  call returns, and the buffer that is left is valid, has the maximal size it was created with and can be
  destroyed. The system calls are assumed to return at most the count asked for and to be interrupted only
  finitely often.
\<close>

theorem cbuf_calls_return:
  assumes "write_ok wr sent ws" "read_ok rd took rs"
    and "0 < minsize" "minsize \<le> 2 ^ 30 - 2000" "maxsize \<le> 2 ^ 30 - 2000" and "list_all call_ok xs"
  shows "\<exists>cb rets cb' w'. cbuf_create minsize maxsize = Some (Some cb) \<and> run_c (call wr rd) xs (cb, w) = Some (rets, cb', w')
     \<and> cbuf_is_valid cb' = Some () \<and> cb_maxsize cb' = max minsize maxsize
     \<and> int (length (unread cb')) \<le> cb_maxsize cb' \<and> cbuf_destroy cb' = Some ()"
proof -
  obtain cb where cb: "cbuf_create minsize maxsize = Some (Some cb)" "cbuf_ok cb" "cb_maxsize cb = max minsize maxsize"
    using cbuf_create_ok [OF assms(3)] assms(4,5) by (auto simp: CB_LIMIT_def)
  let ?I = "\<lambda>(c, _). cbuf_ok c \<and> cb_maxsize c = max minsize maxsize"
  have "total_steps (call wr rd) ?I call_ok"
  proof
    fix st :: "cbuf \<times> 'a" and x assume I: "?I st" and x: "call_ok x"
    obtain c v where st: "st = (c, v)" by fastforce
    with I call_keeps [OF _ x assms(1,2), of c v] show "\<exists>r st'. call wr rd x st = Some (r, st') \<and> ?I st'"
      unfolding keeps_def by fastforce
  qed
  from total_steps.run_total [OF this, of "(cb, w)" xs] cb assms(6) obtain rets cb' w' where
    r: "run_c (call wr rd) xs (cb, w) = Some (rets, cb', w')" "cbuf_ok cb'" "cb_maxsize cb' = max minsize maxsize" by auto
  have "int (length (unread cb')) \<le> cb_maxsize cb'"
    using length_unread [OF r(2)] cbuf_okD(4) [OF r(2)] r(2) by (simp add: cbuf_ok_def)
  with cb(1) r show ?thesis by (auto simp: cbuf_destroy_def)
qed

theorem cbuf_calls_return_witness:
  "\<exists>cb rets cb' w'. cbuf_create 4 10 = Some (Some cb)
     \<and> run_c (call (\<lambda>bs w. (int (length bs), False, w @ bs)) (\<lambda>len w. (0, False, [], w)))
         [C_write_from_fd 0 (-1), C_write_line (Some [66, 67, 0]), C_read_line (Some [0, 0, 0, 0, 0]) 5 1, C_rewind (-1),
          C_read_to_fd 1 (-1), C_replay None 3, C_drop (-7)] (cb, []) = Some (rets, cb', w')
     \<and> cbuf_is_valid cb' = Some () \<and> cb_maxsize cb' = 10"
proof -
  let ?wr = "\<lambda>bs w :: u8 list. (int (length bs), False, w @ bs)"
  let ?rd = "\<lambda>(len :: int) (w :: u8 list). (0 :: int, False, [] :: u8 list, w)"
  have "write_ok ?wr id (\<lambda>_. 0)" "read_ok ?rd (\<lambda>_. []) (\<lambda>_. 0)" by (auto simp: write_ok_def read_ok_def)
  from cbuf_calls_return [OF this, of 4 10 "[C_write_from_fd 0 (-1), C_write_line (Some [66, 67, 0]),
      C_read_line (Some [0, 0, 0, 0, 0]) 5 1, C_rewind (-1), C_read_to_fd 1 (-1), C_replay None 3, C_drop (-7)]" "[]"]
  show ?thesis by (auto simp: room_for_def)
qed

subsection \<open>Lines and rewinding\<close>

text \<open>
  C38. A line that is written comes back as that line. When the unread bytes hold no newline and there is
  space for the line, \<open>cbuf_write_line\<close> drops nothing and reports the length of the line with its newline
  (added only when it is missing), and \<open>cbuf_read_line\<close> for one line then delivers the pending bytes and the
  line, terminated by \<open>NUL\<close>, and leaves no unread byte.
\<close>

theorem cbuf_line_roundtrip:
  assumes ok: "cbuf_ok cb" and q: "NL \<notin> set (unread cb)"
    and s: "0 \<in> set s" "int (length s) \<le> 2 ^ 30" "NL \<notin> set (butlast (line_of s))"
    and fit: "cb_used cb + int (length (line_of s)) \<le> cb_maxsize cb"
    and buf: "cb_used cb + int (length (line_of s)) < len" "len \<le> int (length buf)"
  shows "\<exists>cb1 cb2. cbuf_write_line cb (Some s) = Some (int (length (line_of s)), 0, cb1)
     \<and> cbuf_read_line cb1 (Some buf) len 1 = Some (cb_used cb + int (length (line_of s)),
         Some (unread cb @ line_of s @ [0] @ drop (length (unread cb) + length (line_of s) + 1) buf), cb2)
     \<and> unread cb2 = []"
proof -
  define ln where "ln = line_of s"
  have lu: "int (length (unread cb)) = cb_used cb" by (rule length_unread [OF ok])
  have ln: "ln \<noteq> []" "last ln = NL" by (auto simp: ln_def line_of_def Let_def)
  then have lnb: "ln = butlast ln @ [NL]" by (metis append_butlast_last_id)
  from cbuf_write_line_ok [OF ok s(1,2)] obtain cb1 where ro: "roomy cb cb1 (int (length ln))" and w:
    "if cb_overwrite cb = CBUF_NO_DROP \<and> int (length ln) > cb_size cb1 - cb_used cb \<or> cb_overwrite cb = CBUF_WRAP_ONCE \<and> int (length ln) > cb_size cb1
      then cbuf_write_line cb (Some s) = Some (-1, 0, cb1) \<and> written cb cb1 []
      else cbuf_write_line cb (Some s) = Some (int (length ln), max 0 (cb_used cb + int (length ln) - cb_size cb1), cb1) \<and> written cb cb1 ln"
    unfolding ln_def by blast
  have sz: "cb_used cb + int (length ln) \<le> cb_size cb1" using ro fit by (auto simp: roomy_def ln_def)
  then have w': "cbuf_write_line cb (Some s) = Some (int (length ln), 0, cb1)" "written cb cb1 ln"
    using w cbuf_okD(3) [OF ok] by (auto split: if_splits)
  then have ok1: "cbuf_ok cb1" and u1: "unread cb1 = unread cb @ ln"
    using sz lu by (auto simp: written_def le_nat_iff)
  have b: "0 \<le> len" "-1 \<le> (1 :: int)" using buf cbuf_okD(3) [OF ok] by auto
  obtain r nl cb2 where r: "cbuf_read_line cb1 (Some buf) len 1 = Some (r, Some (line_buf (unread cb1) buf len r), cb2)"
    "unread_line_spec (unread cb1) (len - 1) 1 r nl" "unread cb2 = drop (nat r) (unread cb1)"
    using cbuf_read_line_ok [OF ok1 b(1) buf(2) b(2)] by blast
  have cnt: "count_list (unread cb @ butlast ln) NL = 0"
    using q s(3) by (simp add: ln_def count_list_append count_notin)
  have u1': "unread cb1 = (unread cb @ butlast ln) @ [NL]" unfolding u1 by (subst lnb) simp
  have one: "count_list (unread cb1) NL = 1" using cnt by (simp add: u1')
  have re: "r = int (length (unread cb1))"
  proof -
    have rr: "0 \<le> r" "r \<le> int (length (unread cb1))" "count_list (take (nat r) (unread cb1)) NL = 1"
      using r(2) one by (auto simp: unread_line_spec_def)
    have "count_list (take (nat r) (unread cb1)) NL = 0" if "nat r \<le> length (unread cb @ butlast ln)"
      using that cnt set_take_subset [of "nat r" "unread cb @ butlast ln"] unfolding u1' count_list_0_iff by (auto simp: take_append)
    with rr show ?thesis unfolding u1' by fastforce
  qed
  then have "r = cb_used cb + int (length ln)" "nat r = length (unread cb) + length ln" "min r (len - 1) = r" "0 < r" "0 < len"
    using lu ln(1) buf cbuf_okD(3) [OF ok] by (auto simp: u1 ln_def neq_Nil_conv)
  then have "line_buf (unread cb1) buf len r = unread cb @ ln @ [0] @ drop (length (unread cb) + length ln + 1) buf"
    by (simp add: line_buf_def u1)
  with r(1,3) w'(1) re lu show ?thesis by (auto simp: u1 ln_def)
qed

theorem cbuf_line_roundtrip_witness:
  "\<exists>cb cb1 cb2. cbuf_create 2 8 = Some (Some cb) \<and> cbuf_write_line cb (Some [104, 105, 0]) = Some (3, 0, cb1)
     \<and> cbuf_read_line cb1 (Some [9, 9, 9, 9, 9]) 5 1 = Some (3, Some [104, 105, 10, 0, 9], cb2) \<and> unread cb2 = []"
proof -
  have "(0 :: int) < 2" "2 \<le> CB_LIMIT" "8 \<le> CB_LIMIT" by (simp_all add: CB_LIMIT_def)
  from cbuf_create_ok [OF this] obtain cb where cb: "cbuf_create 2 8 = Some (Some cb)" "cbuf_ok cb" "cb_maxsize cb = 8" "unread cb = []"
    by auto
  have u: "cb_used cb = 0" using length_unread [OF cb(2)] cb(4) by simp
  have l: "line_of [104, 105, 0] = [104, 105, 10]" by (simp add: line_of_def NL_def)
  from cbuf_line_roundtrip [OF cb(2), of "[104, 105, 0]" 5 "[9, 9, 9, 9, 9]"] show ?thesis
    using cb u by (auto simp: l NL_def)
qed

text \<open>
  C39. Bytes that were read can be had again. After \<open>cbuf_read\<close> delivered \<open>k\<close> bytes, \<open>cbuf_replay\<close> of \<open>k\<close> bytes
  delivers the same ones without changing the buffer, and \<open>cbuf_rewind\<close> by \<open>k\<close> brings back exactly the unread
  and the replayable bytes from before the read.
\<close>

theorem cbuf_rewind_roundtrip:
  assumes ok: "cbuf_ok cb" and len: "0 \<le> len" "len \<le> int (length buf)"
  shows "\<exists>k out cb1 cb2. cbuf_read cb (Some buf) len = Some (k, Some out, cb1) \<and> k = min len (cb_used cb)
     \<and> take (nat k) out = take (nat k) (unread cb)
     \<and> cbuf_replay cb1 (Some buf) k = Some (k, Some out)
     \<and> cbuf_rewind cb1 k = Some (k, cb2) \<and> unread cb2 = unread cb \<and> past cb2 = past cb"
proof -
  define k where "k = min len (cb_used cb)"
  have lu: "int (length (unread cb)) = cb_used cb" by (rule length_unread [OF ok])
  have k: "0 \<le> k" "k \<le> int (length buf)" "-1 \<le> k" "nat k \<le> length (unread cb)"
    using len cbuf_okD(3) [OF ok] lu by (auto simp: k_def)
  from cbuf_read_ok [OF ok len] obtain cb1 where r:
    "cbuf_read cb (Some buf) len = Some (k, Some (take (nat k) (unread cb) @ drop (nat k) buf), cb1)" "cbuf_ok cb1"
    "blog cb1 = blog cb" "unread cb1 = drop (nat k) (unread cb)" unfolding k_def by blast
  have p1: "past cb1 = past cb @ take (nat k) (unread cb)"
    using r(3,4) blog_split [OF ok] by (intro past_of_blog [OF r(2)]) simp
  have kp: "min k (int (length (past cb1))) = k" "lastn (nat k) (past cb1) = take (nat k) (unread cb)"
    using k by (auto simp: p1 lastn_def)
  from cbuf_replay_ok [OF r(2) k(1,2)] have rp: "cbuf_replay cb1 (Some buf) k = Some (k, Some (take (nat k) (unread cb) @ drop (nat k) buf))"
    unfolding kp by simp
  from cbuf_rewind_ok [OF r(2) k(3)] k(1) obtain cb2 where w: "cbuf_rewind cb1 k = Some (k, cb2)" "cbuf_ok cb2"
    "blog cb2 = blog cb1" "unread cb2 = take (nat k) (unread cb) @ drop (nat k) (unread cb)" unfolding kp r(4) by (auto simp: kp)
  have "past cb2 = past cb" using w(3,4) r(3) blog_split [OF ok] by (intro past_of_blog [OF w(2)]) simp
  with r(1) rp w k(4) show ?thesis unfolding k_def [symmetric]
    by (intro exI [of _ k] exI [of _ "take (nat k) (unread cb) @ drop (nat k) buf"] exI [of _ cb1] exI [of _ cb2]) simp
qed

theorem cbuf_rewind_roundtrip_witness:
  "\<exists>cb0 cb k out cb1 cb2. cbuf_create 2 8 = Some (Some cb0) \<and> cbuf_write cb0 (Some [1, 2, 3]) 3 = Some (3, 0, cb)
     \<and> cbuf_read cb (Some [9, 9]) 2 = Some (k, Some out, cb1) \<and> k = 2 \<and> take 2 out = [1, 2]
     \<and> cbuf_replay cb1 (Some [9, 9]) k = Some (k, Some out) \<and> cbuf_rewind cb1 k = Some (k, cb2) \<and> unread cb2 = [1, 2, 3]"
proof -
  have "(0 :: int) < 2" "2 \<le> CB_LIMIT" "8 \<le> CB_LIMIT" by (simp_all add: CB_LIMIT_def)
  from cbuf_create_ok [OF this] obtain cb0 where cb0: "cbuf_create 2 8 = Some (Some cb0)" "cbuf_ok cb0"
    "queue_of cb0 = \<lparr> q_cap = 8, q_mode = CBUF_WRAP_MANY, q_bytes = [] \<rparr>" by auto
  obtain r cb where w: "cb_step (Q_write [1, 2, 3]) cb0 = Some (r, cb)" "cbuf_ok cb" "q_step (Q_write [1, 2, 3]) (queue_of cb0) = (r, queue_of cb)"
    using write_step [OF cb0(2), of "[1, 2, 3]"] by auto
  have r: "r = (3, [], 0)" and q: "queue_of cb = \<lparr> q_cap = 8, q_mode = CBUF_WRAP_MANY, q_bytes = [1, 2, 3] \<rparr>"
    using w(3) by (auto simp: cb0(3) q_accept_def cbuf_consts)
  have u: "unread cb = [1, 2, 3]" "cb_used cb = 3" using q length_unread [OF w(2)] by (auto simp: queue_of_def)
  have "cbuf_write cb0 (Some [1, 2, 3]) 3 = Some (3, 0, cb)" using w(1) r by (auto split: bind_splits)
  with cbuf_rewind_roundtrip [OF w(2), of 2 "[9, 9]"] show ?thesis using cb0(1) u by fastforce
qed

end
