(* ===== verification/Step_Layout.thy ===== *)
theory Step_Layout
  imports Slurm_Prelude
begin

text \<open>
  src/common/slurm_step_layout.c: how the tasks of a job step are placed on its nodes. A layout holds for
  each node the number of its tasks (\<open>tasks\<close>, 16 bits wide) and their numbers (\<open>tids\<close>); a layout is computed from a
  request by the block, cyclic, plane or arbitrary distribution.

  Struct fields have their width of the C struct. The loop counters and task numbers are C's \<open>int\<close>; they
  count upwards from zero and are natural numbers here, with \<open>None\<close> for a sum that leaves the range of \<open>int\<close>. A
  null pointer to an array is the empty list, as \<open>xcalloc\<close> returns null for an empty array. The host list
  functions and the node table are parameters, in the record \<open>layout_env\<close>.
\<close>

subsection \<open>Data\<close>

datatype layout_rc = SLURM_SUCCESS | SLURM_ERROR

text \<open>The addresses of nodes that are not in DNS, for cloud nodes; an address is the bytes of its struct.\<close>

record slurm_node_alias_addrs =
  expiration :: int
  net_cred :: "string option"
  node_addrs :: "u8 list list"
  alias_node_cnt :: u32
  alias_node_list :: "string option"

record slurm_step_layout =
  cpt_compact_array :: "u16 list"
  cpt_compact_cnt :: u32
  cpt_compact_reps :: "u32 list"
  alias_addrs :: "slurm_node_alias_addrs option"
  node_cnt :: u32
  node_list :: "string option"
  plane_size :: u16
  start_protocol_ver :: u16
  tasks :: "u16 list"
  task_cnt :: u32
  task_dist :: u32
  tids :: "u32 list list"

record slurm_step_layout_req =
  req_node_list :: "string option"
  cpus_per_node :: "u16 list"
  cpu_count_reps :: "u32 list"
  num_hosts :: u32
  num_tasks :: u32
  cpus_per_task :: "u16 list option"
  cpus_task_reps :: "u32 list"
  req_task_dist :: u32
  req_plane_size :: u16

text \<open>What the code calls: the hosts of a host list expression in the order of its iterator, removal of duplicates, the position of a host or \<open>-1\<close>,
  the text of a list of hosts, the lookups of a node by name, and the configured \<open>select_type_param\<close>.\<close>

record 'n layout_env =
  hostlist_hosts :: "string option \<Rightarrow> string list"
  hostlist_uniq :: "string list \<Rightarrow> string list"
  hostlist_find :: "string list \<Rightarrow> string \<Rightarrow> int"
  hostlist_ranged_string :: "string list \<Rightarrow> string"
  find_node_record :: "string \<Rightarrow> 'n option"
  find_node_record_no_alias :: "string \<Rightarrow> 'n option"
  select_type_param :: u16

definition SLURM_DIST_ARBITRARY :: u32 where "SLURM_DIST_ARBITRARY = 3"
definition SLURM_DIST_PLANE :: u32 where "SLURM_DIST_PLANE = 4"
definition SLURM_DIST_NODECYCLIC :: u32 where "SLURM_DIST_NODECYCLIC = 1"
definition SLURM_DIST_STATE_BASE :: u32 where "SLURM_DIST_STATE_BASE = 0x00FFFF"
definition SLURM_DIST_NODEMASK :: u32 where "SLURM_DIST_NODEMASK = 0xF00F"
definition SLURM_DIST_PACK_NODES :: u32 where "SLURM_DIST_PACK_NODES = 0x800000"
definition SLURM_DIST_NO_PACK_NODES :: u32 where "SLURM_DIST_NO_PACK_NODES = 0x400000"
definition SELECT_PACK_NODES :: u16 where "SELECT_PACK_NODES = 0x200"
definition NO_VAL16 :: u16 where "NO_VAL16 = 0xfffe"

definition empty_layout :: slurm_step_layout where
  "empty_layout = \<lparr> cpt_compact_array = [], cpt_compact_cnt = 0, cpt_compact_reps = [], alias_addrs = None, node_cnt = 0, node_list = None,
     plane_size = 0, start_protocol_ver = 0, tasks = [], task_cnt = 0, task_dist = 0, tids = [] \<rparr>"

subsection \<open>Loops and counters\<close>

text \<open>An addition of two non-negative \<open>int\<close> values.\<close>

definition add_int :: "nat \<Rightarrow> nat \<Rightarrow> nat option" where
  "add_int a b = (if a + b < 2 ^ 31 then Some (a + b) else None)"

text \<open>\<^verbatim>\<open>for (; i < n && g(s); i++) s = f(i, s);\<close>\<close>

function for_while :: "('s \<Rightarrow> bool) \<Rightarrow> (nat \<Rightarrow> 's \<Rightarrow> 's option) \<Rightarrow> nat \<Rightarrow> nat \<Rightarrow> 's \<Rightarrow> 's option" where
  "for_while g f i n s = (if i < n \<and> g s then f i s \<bind> for_while g f (Suc i) n else Some s)"
  by pat_completeness auto
termination
  by (relation "measure (\<lambda>(g, f, i, n, s). n - i)") auto

declare for_while.simps [simp del]

text \<open>\<^verbatim>\<open>for (; g(s); j++) s = f(j, s);\<close>, which need not end.\<close>

partial_function (option) cycles :: "('s \<Rightarrow> bool) \<Rightarrow> (nat \<Rightarrow> 's \<Rightarrow> 's option) \<Rightarrow> nat \<Rightarrow> 's \<Rightarrow> 's option" where
  "cycles g f j s = (if g s then do { s' \<leftarrow> f j s; j' \<leftarrow> add_int j 1; cycles g f j' s' } else Some s)"

declare cycles.simps [code]

text \<open>\<^verbatim>\<open>step_layout->tasks[i]++; task_id++;\<close> on the counts and the number of tasks placed so far.\<close>

type_synonym placed = "u16 list \<times> nat"

definition add_task :: "nat \<Rightarrow> placed \<Rightarrow> placed option" where
  "add_task i q = do {
     a \<leftarrow> mem_get (fst q) i;
     ts \<leftarrow> mem_set (fst q) i (a + 1);
     t \<leftarrow> add_int (snd q) 1;
     Some (ts, t) }"

subsection \<open>The block distribution\<close>

definition pack_nodes :: "u16 \<Rightarrow> u32 \<Rightarrow> bool" where
  "pack_nodes select_params dist =
     (if dist AND SLURM_DIST_PACK_NODES \<noteq> 0 then True
      else if dist AND SLURM_DIST_NO_PACK_NODES \<noteq> 0 then False
      else select_params AND SELECT_PACK_NODES \<noteq> 0)"

definition pack_pass1 :: "u16 list \<Rightarrow> nat \<Rightarrow> nat \<Rightarrow> placed \<Rightarrow> placed option" where
  "pack_pass1 cpus n cnt = for_while (\<lambda>q. snd q < cnt) (\<lambda>i q. do {
     a \<leftarrow> mem_get (fst q) i;
     c \<leftarrow> mem_get cpus i;
     if a < c then add_task i q else Some q }) 0 n"

text \<open>The inner \<open>while\<close> of the second pass ends: each turn adds a task.\<close>

partial_function (option) fill_node :: "u16 \<Rightarrow> nat \<Rightarrow> nat \<Rightarrow> placed \<Rightarrow> placed option" where
  "fill_node c cnt i q = do {
     a \<leftarrow> mem_get (fst q) i;
     if a < c \<and> snd q < cnt then do { q' \<leftarrow> add_task i q; fill_node c cnt i q' } else Some q }"

declare fill_node.simps [code]

definition pack_pass2 :: "u16 list \<Rightarrow> nat \<Rightarrow> nat \<Rightarrow> placed \<Rightarrow> placed option" where
  "pack_pass2 cpus n cnt = for_while (\<lambda>q. snd q < cnt) (\<lambda>i q. do { c \<leftarrow> mem_get cpus i; fill_node c cnt i q }) 0 n"

definition pack_pass3 :: "nat \<Rightarrow> nat \<Rightarrow> placed \<Rightarrow> placed option" where
  "pack_pass3 n cnt = cycles (\<lambda>q. snd q < cnt) (\<lambda>j. for_while (\<lambda>q. snd q < cnt) add_task 0 n) 0"

text \<open>One turn of the outer loop without packing; the state has \<open>over_subscribe\<close> behind the counts.\<close>

definition block_node :: "u16 list \<Rightarrow> nat \<Rightarrow> bool \<Rightarrow> nat \<Rightarrow> placed \<times> bool \<Rightarrow> (placed \<times> bool) option" where
  "block_node cpus j over_subscribe i = (\<lambda>(q, space_remaining). do {
     c \<leftarrow> mem_get cpus i;
     if j < unat c \<or> over_subscribe
     then do { q \<leftarrow> add_task i q; Some (q, space_remaining \<or> j + 1 < unat c) }
     else Some (q, space_remaining) })"

definition block_cycle :: "u16 list \<Rightarrow> nat \<Rightarrow> nat \<Rightarrow> nat \<Rightarrow> placed \<times> bool \<Rightarrow> (placed \<times> bool) option" where
  "block_cycle cpus n cnt j s = do {
     (q, space_remaining) \<leftarrow> for_while (\<lambda>s. snd (fst s) < cnt) (block_node cpus j (snd s)) 0 n (fst s, False);
     Some (q, snd s \<or> \<not> space_remaining) }"

text \<open>\<open>Now distribute the tasks\<close>: the task numbers of one node, and of all nodes, in order.\<close>

definition number_node :: "nat \<Rightarrow> nat \<Rightarrow> (u32 list \<times> nat) option" where
  "number_node a task_id = for_upto (\<lambda>j (row, t). do {
     row \<leftarrow> mem_set row j (of_nat t);
     t \<leftarrow> add_int t 1;
     Some (row, t) }) 0 a (replicate a 0, task_id)"

definition number_tasks :: "nat \<Rightarrow> u16 list \<Rightarrow> u32 list list \<Rightarrow> (u32 list list \<times> nat) option" where
  "number_tasks n ts tds = for_upto (\<lambda>i (tds, t). do {
     a \<leftarrow> mem_get ts i;
     (row, t) \<leftarrow> number_node (unat a) t;
     tds \<leftarrow> mem_set tds i row;
     Some (tds, t) }) 0 n (tds, 0)"

text \<open>\<open>select_params\<close> is the value of the static variable at the call, which the first call sets from the configuration \<open>conf\<close>.\<close>

definition task_layout_block :: "u16 \<Rightarrow> u16 \<Rightarrow> slurm_step_layout \<Rightarrow> u16 list \<Rightarrow> (layout_rc \<times> slurm_step_layout) option" where
  "task_layout_block conf select_params step_layout cpus = (let n = unat (node_cnt step_layout); cnt = unat (task_cnt step_layout) in do {
     q \<leftarrow> (if pack_nodes (if select_params = NO_VAL16 then conf else select_params) (task_dist step_layout)
        then do {
          q \<leftarrow> pack_pass1 cpus n cnt (tasks step_layout, 0);
          q \<leftarrow> pack_pass2 cpus n cnt q;
          pack_pass3 n cnt q }
        else do {
          s \<leftarrow> cycles (\<lambda>s. snd (fst s) < cnt) (block_cycle cpus n cnt) 0 ((tasks step_layout, 0), False);
          Some (fst s) });
     (tds, t) \<leftarrow> number_tasks n (fst q) (tids step_layout);
     Some (SLURM_SUCCESS, step_layout\<lparr> tasks := fst q, tids := tds \<rparr>) })"

subsection \<open>The cyclic distribution\<close>

text \<open>\<open>xrealloc\<close> to a number of elements, new ones zeroed.\<close>

definition xrealloc :: "u32 list \<Rightarrow> nat \<Rightarrow> u32 list" where
  "xrealloc row m = take m (row @ replicate (m - length row) 0)"

type_synonym laid = "u32 list list \<times> u16 list \<times> nat"

definition put_task :: "nat \<Rightarrow> laid \<Rightarrow> laid option" where
  "put_task i = (\<lambda>(tds, ts, t). do {
     a \<leftarrow> mem_get ts i;
     row \<leftarrow> mem_get tds i;
     row \<leftarrow> mem_set (xrealloc row (unat a + 1)) (unat a) (of_nat t);
     tds \<leftarrow> mem_set tds i row;
     t \<leftarrow> add_int t 1;
     ts \<leftarrow> mem_set ts i (a + 1);
     Some (tds, ts, t) })"

text \<open>The bound of the second operand of the condition is computed only when the first operand does not decide it.\<close>

definition cyclic_node :: "u16 list \<Rightarrow> int \<Rightarrow> nat \<Rightarrow> bool \<Rightarrow> nat \<Rightarrow> laid \<times> bool \<Rightarrow> (laid \<times> bool) option" where
  "cyclic_node cpus max_over_subscribe j over_subscribe i = (\<lambda>(q, space_remaining). do {
     c \<leftarrow> mem_get cpus i;
     b \<leftarrow> (if j < unat c then Some True
           else if over_subscribe then do { m \<leftarrow> i32 (int (unat c) + max_over_subscribe); Some (int j < m) }
           else Some False);
     if b then do { q \<leftarrow> put_task i q; Some (q, space_remaining \<or> j + 1 < unat c) }
     else Some (q, space_remaining) })"

definition cyclic_cycle :: "u16 list \<Rightarrow> nat \<Rightarrow> nat \<Rightarrow> int \<Rightarrow> nat \<Rightarrow> laid \<times> bool \<Rightarrow> (laid \<times> bool) option" where
  "cyclic_cycle cpus n cnt max_over_subscribe j s = do {
     (q, space_remaining) \<leftarrow> for_while (\<lambda>s. snd (snd (fst s)) < cnt) (cyclic_node cpus max_over_subscribe j (snd s)) 0 n (fst s, False);
     Some (q, snd s \<or> \<not> space_remaining) }"

definition ROUNDUP :: "u32 \<Rightarrow> u32 \<Rightarrow> u32" where
  "ROUNDUP a b = (a + (b - 1)) div b"

definition task_layout_cyclic :: "slurm_step_layout \<Rightarrow> u16 list \<Rightarrow> (layout_rc \<times> slurm_step_layout) option" where
  "task_layout_cyclic step_layout cpus = (let n = unat (node_cnt step_layout); cnt = unat (task_cnt step_layout) in do {
     total_cpus \<leftarrow> for_upto (\<lambda>i s. do { c \<leftarrow> mem_get cpus i; add_int s (unat c) }) 0 n 0;
     let over_subscribe = total_cpus < cnt;
     let max_over_subscribe = (if over_subscribe
       then sint (ROUNDUP (task_cnt step_layout - of_nat total_cpus) (node_cnt step_layout)) else 0);
     s \<leftarrow> cycles (\<lambda>s. snd (snd (fst s)) < cnt) (cyclic_cycle cpus n cnt max_over_subscribe) 0
        ((tids step_layout, tasks step_layout, 0), over_subscribe);
     Some (SLURM_SUCCESS, step_layout\<lparr> tasks := fst (snd (fst s)), tids := fst (fst s) \<rparr>) })"

subsection \<open>The plane distribution\<close>

text \<open>\<open>cpus[i] - tasks[i]\<close> is an \<open>int\<close> and true whenever the two differ.\<close>

definition plane_node :: "u16 list \<Rightarrow> nat \<Rightarrow> bool \<Rightarrow> nat \<Rightarrow> placed \<times> bool \<Rightarrow> (placed \<times> bool) option" where
  "plane_node cpus i over_subscribe k = (\<lambda>(q, space_remaining). do {
     c \<leftarrow> mem_get cpus i;
     a \<leftarrow> mem_get (fst q) i;
     if int (unat c) - int (unat a) \<noteq> 0 \<or> over_subscribe
     then do {
       q \<leftarrow> add_task i q;
       a \<leftarrow> mem_get (fst q) i;
       Some (q, space_remaining \<or> int (unat c) - (int (unat a) + 1) \<ge> 0) }
     else Some (q, space_remaining) })"

definition plane_cycle :: "u16 list \<Rightarrow> nat \<Rightarrow> nat \<Rightarrow> nat \<Rightarrow> nat \<Rightarrow> placed \<times> bool \<Rightarrow> (placed \<times> bool) option" where
  "plane_cycle cpus n cnt ps j s = do {
     q \<leftarrow> (if j = 0 then for_while (\<lambda>q. snd q < cnt) add_task 0 n (fst s) else Some (fst s));
     (q, space_remaining) \<leftarrow> for_while (\<lambda>s. snd (fst s) < cnt)
        (\<lambda>i. for_while (\<lambda>s. snd (fst s) < cnt) (plane_node cpus i (snd s)) (if j = 0 then 1 else 0) ps) 0 n (q, False);
     Some (q, snd s \<or> \<not> space_remaining) }"

text \<open>A block of up to \<open>ps\<close> task numbers for one node: its row, its \<open>cur_task\<close> and the next number.\<close>

definition plane_block :: "nat \<Rightarrow> nat \<Rightarrow> nat \<Rightarrow> u32 list \<times> nat \<times> nat \<Rightarrow> (u32 list \<times> nat \<times> nat) option" where
  "plane_block ps cnt a = for_while (\<lambda>(row, c, t). c < a \<and> t < cnt) (\<lambda>k (row, c, t). do {
     row \<leftarrow> mem_set row c (of_nat t);
     t \<leftarrow> add_int t 1;
     Some (row, c + 1, t) }) 0 ps"

definition plane_number :: "nat \<Rightarrow> nat \<Rightarrow> nat \<Rightarrow> u16 list \<Rightarrow> nat \<Rightarrow> u32 list list \<times> nat list \<times> nat
    \<Rightarrow> (u32 list list \<times> nat list \<times> nat) option" where
  "plane_number ps n cnt ts j = for_while (\<lambda>(tds, cur, t). t < cnt) (\<lambda>i (tds, cur, t). do {
     a \<leftarrow> mem_get ts i;
     c \<leftarrow> mem_get cur i;
     row \<leftarrow> mem_get tds i;
     (row, c, t) \<leftarrow> plane_block ps cnt (unat a) (row, c, t);
     tds \<leftarrow> mem_set tds i row;
     cur \<leftarrow> mem_set cur i c;
     Some (tds, cur, t) }) 0 n"

definition task_layout_plane :: "slurm_step_layout \<Rightarrow> u16 list \<Rightarrow> (layout_rc \<times> slurm_step_layout) option" where
  "task_layout_plane step_layout cpus = (let n = unat (node_cnt step_layout); cnt = unat (task_cnt step_layout);
       ps = unat (plane_size step_layout) in
     if ps \<le> 0 then Some (SLURM_ERROR, step_layout)
     else if tasks step_layout = [] then Some (SLURM_ERROR, step_layout)
     else do {
       s \<leftarrow> cycles (\<lambda>s. snd (fst s) < cnt) (plane_cycle cpus n cnt ps) 0 ((tasks step_layout, 0), False);
       let ts = fst (fst s);
       tds \<leftarrow> for_upto (\<lambda>i tds. do { a \<leftarrow> mem_get ts i; mem_set tds i (replicate (unat a) 0) }) 0 n (tids step_layout);
       (tds, cur, t) \<leftarrow> cycles (\<lambda>(tds, cur, t). t < cnt) (plane_number ps n cnt ts) 0 (tds, replicate n 0, 0);
       Some (if t \<noteq> cnt then SLURM_ERROR else SLURM_SUCCESS, step_layout\<lparr> tasks := ts, tids := tds \<rparr>) })"

subsection \<open>The arbitrary distribution\<close>

text \<open>The tasks that the host file gives to one node, and their numbers; both loops stop early.\<close>

fun host_count :: "'n option \<Rightarrow> nat \<Rightarrow> 'n option list \<Rightarrow> u16 \<Rightarrow> nat \<Rightarrow> u16 \<times> nat" where
  "host_count host_ptr cnt [] a placed = (a, placed)"
| "host_count host_ptr cnt (p # ptrs) a placed =
     (let a' = (if host_ptr = p then a + 1 else a); placed' = (if host_ptr = p then placed + 1 else placed)
      in if cnt \<le> placed' then (a', placed') else host_count host_ptr cnt ptrs a' placed')"

fun host_ids :: "'n option \<Rightarrow> nat \<Rightarrow> 'n option list \<Rightarrow> nat \<Rightarrow> nat \<Rightarrow> u32 list \<Rightarrow> u32 list option" where
  "host_ids host_ptr a [] taskid j row = Some row"
| "host_ids host_ptr a (p # ptrs) taskid j row = do {
     (row, j) \<leftarrow> (if host_ptr = p then do { row \<leftarrow> mem_set row j (of_nat taskid); Some (row, j + 1) } else Some (row, j));
     if a \<le> j then Some row else host_ids host_ptr a ptrs (taskid + 1) j row }"

fun hostfile_loop :: "('n, 'z) layout_env_scheme \<Rightarrow> 'n option list \<Rightarrow> nat \<Rightarrow> string list \<Rightarrow> nat \<Rightarrow> nat \<Rightarrow> u16 list \<Rightarrow> u32 list list
    \<Rightarrow> (u16 list \<times> u32 list list \<times> nat) option" where
  "hostfile_loop env ptrs cnt [] i placed ts tds = Some (ts, tds, placed)"
| "hostfile_loop env ptrs cnt (host # hosts) i placed ts tds = (let host_ptr = find_node_record env host in do {
     ts \<leftarrow> mem_set ts i 0;
     let (a, placed) = host_count host_ptr cnt ptrs 0 placed;
     ts \<leftarrow> mem_set ts i a;
     (tds, i) \<leftarrow> (if a = 0 then Some (tds, i)
       else do { row \<leftarrow> host_ids host_ptr (unat a) ptrs 0 0 (replicate (unat a) 0); tds \<leftarrow> mem_set tds i row; Some (tds, i + 1) });
     if i > cnt then Some (ts, tds, placed) else hostfile_loop env ptrs cnt hosts i placed ts tds })"

definition task_layout_hostfile :: "('n, 'z) layout_env_scheme \<Rightarrow> slurm_step_layout \<Rightarrow> string option
    \<Rightarrow> (layout_rc \<times> slurm_step_layout) option" where
  "task_layout_hostfile env step_layout arbitrary_nodes =
     (if arbitrary_nodes = None then Some (SLURM_ERROR, step_layout)
      else let step_alloc_hosts = hostlist_hosts env arbitrary_nodes; cnt = unat (task_cnt step_layout) in
        if length step_alloc_hosts \<noteq> cnt then Some (SLURM_ERROR, step_layout)
        else do {
          let ptrs = map (find_node_record_no_alias env) step_alloc_hosts;
          (ts, tds, placed) \<leftarrow> hostfile_loop env ptrs cnt (hostlist_hosts env (node_list step_layout)) 0 0
             (tasks step_layout) (tids step_layout);
          Some (if placed \<noteq> cnt then SLURM_ERROR else SLURM_SUCCESS, step_layout\<lparr> tasks := ts, tids := tds \<rparr>) })"

subsection \<open>Creating a layout\<close>

text \<open>The walk over a run-length encoded array: after one more use of entry \<open>inx\<close> the next count and entry.\<close>

definition next_rep :: "u32 list \<Rightarrow> nat \<Rightarrow> nat \<Rightarrow> (nat \<times> nat) option" where
  "next_rep reps cnt inx = do {
     r \<leftarrow> mem_get reps inx;
     Some (if cnt + 1 \<ge> unat r then (0, inx + 1) else (cnt + 1, inx)) }"

text \<open>The CPUs, in units of a task's CPUs, of the node with the given entries; the product is stored in 16 bits.\<close>

definition node_cpus :: "u16 \<Rightarrow> u32 \<Rightarrow> u16 \<Rightarrow> u16 \<Rightarrow> u16 option" where
  "node_cpus psize dist cpn cpt =
     (if cpt = 0 then None
      else let c = (if cpn div cpt = 0 then 1 else cpn div cpt) in
        Some (if psize \<noteq> 0 \<and> psize \<noteq> NO_VAL16 \<and> dist AND SLURM_DIST_STATE_BASE \<noteq> SLURM_DIST_PLANE \<and> c > psize * cpt
              then psize * cpt else c))"

definition layout_cpus :: "slurm_step_layout_req \<Rightarrow> u16 list \<Rightarrow> nat \<Rightarrow> nat \<Rightarrow> u16 list option" where
  "layout_cpus req cpt n alloc = do {
     (cpus, ca, ia, cb, ib) \<leftarrow> for_upto (\<lambda>i (cpus, cpu_cnt, cpu_inx, cpu_task_cnt, cpu_task_inx). do {
        x \<leftarrow> mem_get (cpus_per_node req) cpu_inx;
        y \<leftarrow> mem_get cpt cpu_task_inx;
        c \<leftarrow> node_cpus (req_plane_size req) (req_task_dist req) x y;
        cpus \<leftarrow> mem_set cpus i c;
        (cpu_cnt, cpu_inx) \<leftarrow> next_rep (cpu_count_reps req) cpu_cnt cpu_inx;
        (cpu_task_cnt, cpu_task_inx) \<leftarrow> next_rep (cpus_task_reps req) cpu_task_cnt cpu_task_inx;
        Some (cpus, cpu_cnt, cpu_inx, cpu_task_cnt, cpu_task_inx) }) 0 n (replicate alloc 0, 0, 0, 0, 0);
     Some cpus }"

text \<open>The request after its CPUs per task are supplied or repaired.\<close>

definition default_cpt :: "slurm_step_layout_req \<Rightarrow> slurm_step_layout_req option" where
  "default_cpt req = (case cpus_per_task req of
     None \<Rightarrow> Some (req\<lparr> cpus_per_task := Some [1], cpus_task_reps := [num_hosts req] \<rparr>)
   | Some cpt \<Rightarrow> do {
       c \<leftarrow> mem_get cpt 0;
       if c < 1 \<or> c = NO_VAL16
       then do { reps \<leftarrow> mem_set (cpus_task_reps req) 0 (num_hosts req);
                 Some (req\<lparr> cpus_per_task := Some (cpt[0 := 1]), cpus_task_reps := reps \<rparr>) }
       else Some req })"

definition init_task_layout :: "('n, 'z) layout_env_scheme \<Rightarrow> u16 \<Rightarrow> slurm_step_layout_req \<Rightarrow> slurm_step_layout \<Rightarrow> string option
    \<Rightarrow> (layout_rc \<times> slurm_step_layout \<times> slurm_step_layout_req) option" where
  "init_task_layout env select_params req step_layout arbitrary_nodes =
     (if node_cnt step_layout = 0 then Some (SLURM_ERROR, step_layout, req)
      else if tasks step_layout \<noteq> [] then Some (SLURM_SUCCESS, step_layout, req)
      else do {
        req \<leftarrow> default_cpt req;
        let alloc = unat (node_cnt step_layout);
        let hosts = length (hostlist_hosts env (node_list step_layout));
        let step_layout = step_layout\<lparr> plane_size := req_plane_size req, tasks := replicate alloc 0, tids := replicate alloc [],
              node_cnt := (if alloc > hosts then of_nat hosts else node_cnt step_layout) \<rparr>;
        if node_cnt step_layout < 1 then Some (SLURM_ERROR, step_layout, req)
        else do {
          cpus \<leftarrow> layout_cpus req (the (cpus_per_task req)) (unat (node_cnt step_layout)) alloc;
          (rc, step_layout) \<leftarrow> (if task_dist step_layout AND SLURM_DIST_NODEMASK = SLURM_DIST_NODECYCLIC
             then task_layout_cyclic step_layout cpus
             else if task_dist step_layout AND SLURM_DIST_STATE_BASE = SLURM_DIST_ARBITRARY
             then task_layout_hostfile env step_layout arbitrary_nodes
             else if task_dist step_layout AND SLURM_DIST_STATE_BASE = SLURM_DIST_PLANE
             then task_layout_plane step_layout cpus
             else task_layout_block (select_type_param env) select_params step_layout cpus);
          Some (rc, step_layout, req) } })"

text \<open>Destroying a layout reads the pointer of every node's row.\<close>

definition slurm_step_layout_destroy :: "slurm_step_layout option \<Rightarrow> layout_rc option" where
  "slurm_step_layout_destroy step_layout = (case step_layout of
     None \<Rightarrow> Some SLURM_SUCCESS
   | Some l \<Rightarrow> do {
       for_upto (\<lambda>i u. do { row \<leftarrow> mem_get (tids l) i; Some u }) 0 (unat (node_cnt l)) ();
       Some SLURM_SUCCESS })"

definition slurm_step_layout_create :: "('n, 'z) layout_env_scheme \<Rightarrow> u16 \<Rightarrow> slurm_step_layout_req
    \<Rightarrow> (slurm_step_layout option \<times> slurm_step_layout_req) option" where
  "slurm_step_layout_create env select_params req = do {
     let arb = (req_task_dist req AND SLURM_DIST_STATE_BASE = SLURM_DIST_ARBITRARY);
     let hl = hostlist_uniq env (hostlist_hosts env (req_node_list req));
     let req = (if arb then req\<lparr> num_hosts := of_nat (length hl) \<rparr> else req);
     let step_layout = empty_layout\<lparr> task_dist := req_task_dist req,
           node_list := (if arb then Some (hostlist_ranged_string env hl) else req_node_list req),
           task_cnt := num_tasks req, node_cnt := num_hosts req \<rparr>;
     (rc, step_layout, req) \<leftarrow> init_task_layout env select_params req step_layout (if arb then req_node_list req else None);
     if rc \<noteq> SLURM_SUCCESS then do { slurm_step_layout_destroy (Some step_layout); Some (None, req) }
     else Some (Some step_layout, req) }"

subsection \<open>Other operations\<close>

text \<open>The rows of the fallback layout: the first \<open>m\<close> cells get the next numbers, ending when the last task has one.\<close>

fun fake_fill :: "u32 option \<Rightarrow> nat \<Rightarrow> nat \<Rightarrow> u32 list \<Rightarrow> u32 \<Rightarrow> u32 list \<times> u32 \<times> nat option" where
  "fake_fill limit j 0 row t = (row, t, None)"
| "fake_fill limit j (Suc m) row t = (let row' = row[j := t]; t' = t + 1 in
     if \<exists>l. limit = Some l \<and> t' \<ge> l then (row', t', Some (j + 1)) else fake_fill limit (j + 1) m row' t')"

definition fake_node :: "u16 list option \<Rightarrow> u32 list option \<Rightarrow> u32 \<Rightarrow> u32 \<Rightarrow> nat \<Rightarrow> nat \<times> nat \<times> u32
    \<Rightarrow> (u16 \<times> u32 list \<times> nat \<times> nat \<times> u32) option" where
  "fake_node cpn reps ncnt tcnt i = (\<lambda>(cpu_cnt, cpu_inx, t). (case (cpn, reps) of
     (Some cpn, Some reps) \<Rightarrow> do {
       a \<leftarrow> mem_get cpn cpu_inx;
       let (row, t, stop) = fake_fill None 0 (unat a) (replicate (unat a) 0) t;
       (cpu_cnt, cpu_inx) \<leftarrow> next_rep reps cpu_cnt cpu_inx;
       Some (a, row, cpu_cnt, cpu_inx, t) }
   | _ \<Rightarrow> (let c = ROUNDUP (tcnt - t) (ncnt - of_nat i) in
       if t \<ge> tcnt then Some (0, [], cpu_cnt, cpu_inx, t)
       else let (row, t, stop) = fake_fill (Some tcnt) 0 (unat c) (replicate (unat c) 0) t in
         Some (case stop of None \<Rightarrow> ucast c | Some m \<Rightarrow> of_nat m, row, cpu_cnt, cpu_inx, t))))"

definition fake_slurm_step_layout_create :: "string option \<Rightarrow> u16 list option \<Rightarrow> u32 list option \<Rightarrow> u32 \<Rightarrow> u32 \<Rightarrow> u16
    \<Rightarrow> slurm_step_layout option option" where
  "fake_slurm_step_layout_create tlist cpn reps ncnt tcnt protocol_version =
     (if ncnt = 0 \<or> tlist = None \<or> (cpn = None \<and> (tcnt = 0 \<or> tcnt = 0xfffffffe)) then Some None
      else do {
        (ts, tds, cpu_cnt, cpu_inx, t) \<leftarrow> for_upto (\<lambda>i (ts, tds, s). do {
           (a, row, s) \<leftarrow> fake_node cpn reps ncnt tcnt i s;
           ts \<leftarrow> mem_set ts i a;
           tds \<leftarrow> mem_set tds i row;
           Some (ts, tds, s) }) 0 (unat ncnt) (replicate (unat ncnt) 0, replicate (unat ncnt) [], 0, 0, 0);
        Some (Some (empty_layout\<lparr> node_list := tlist, node_cnt := ncnt, start_protocol_ver := protocol_version,
           tasks := ts, tids := tds, task_cnt := t \<rparr>)) })"

text \<open>\<open>memcpy\<close> of the first \<open>m\<close> elements of an array.\<close>

definition mem_prefix :: "'b list \<Rightarrow> nat \<Rightarrow> 'b list option" where
  "mem_prefix xs m = (if m \<le> length xs then Some (take m xs) else None)"

text \<open>\<open>xrecalloc\<close> to \<open>m\<close> elements, new ones zero; a request for none leaves the array alone.\<close>

definition xrecalloc :: "'b \<Rightarrow> 'b list \<Rightarrow> nat \<Rightarrow> 'b list" where
  "xrecalloc z xs m = (if m = 0 then xs else take m (xs @ replicate (m - length xs) z))"

text \<open>A string that is emptied and then appended to.\<close>

definition str_over :: "string option \<Rightarrow> string option \<Rightarrow> string option" where
  "str_over dest src = (case src of Some s \<Rightarrow> Some s | None \<Rightarrow> (if dest = None then None else Some []))"

definition slurm_copy_node_alias_addrs_members :: "slurm_node_alias_addrs \<Rightarrow> slurm_node_alias_addrs \<Rightarrow> slurm_node_alias_addrs option" where
  "slurm_copy_node_alias_addrs_members dest src = (let m = unat (alias_node_cnt src) in do {
     addrs \<leftarrow> mem_prefix (node_addrs src) m;
     Some (dest\<lparr> expiration := expiration src, alias_node_cnt := alias_node_cnt src, net_cred := str_over (net_cred dest) (net_cred src),
       node_addrs := addrs @ drop m (xrecalloc [] (node_addrs dest) m), alias_node_list := str_over (alias_node_list dest) (alias_node_list src) \<rparr>) })"

definition slurm_step_layout_copy :: "slurm_step_layout option \<Rightarrow> slurm_step_layout option option" where
  "slurm_step_layout_copy step_layout = (case step_layout of
     None \<Rightarrow> Some None
   | Some l \<Rightarrow> (let n = unat (node_cnt l); m = unat (cpt_compact_cnt l) in do {
       aa \<leftarrow> (case alias_addrs l of None \<Rightarrow> Some None
         | Some src \<Rightarrow> do { aa \<leftarrow> slurm_copy_node_alias_addrs_members
             \<lparr> expiration = 0, net_cred = None, node_addrs = [], alias_node_cnt = 0, alias_node_list = None \<rparr> src; Some (Some aa) });
       ts \<leftarrow> mem_prefix (tasks l) n;
       (ca, cr) \<leftarrow> (if m \<noteq> 0 then do { ca \<leftarrow> mem_prefix (cpt_compact_array l) m; cr \<leftarrow> mem_prefix (cpt_compact_reps l) m; Some (ca, cr) }
                    else Some ([], []));
       tds \<leftarrow> for_upto (\<lambda>i tds. do {
          a \<leftarrow> mem_get ts i;
          src \<leftarrow> mem_get (tids l) i;
          row \<leftarrow> mem_prefix src (unat a);
          mem_set tds i row }) 0 n (replicate n []);
       Some (Some (empty_layout\<lparr> alias_addrs := aa, node_list := node_list l, node_cnt := node_cnt l,
          start_protocol_ver := start_protocol_ver l, task_cnt := task_cnt l, task_dist := task_dist l, tasks := ts,
          cpt_compact_cnt := (if m \<noteq> 0 then cpt_compact_cnt l else 0), cpt_compact_array := ca, cpt_compact_reps := cr,
          tids := tds \<rparr>)) }))"

text \<open>One host of the second layout: the host list and the layout it is merged into.\<close>

definition merge_host :: "('n, 'z) layout_env_scheme \<Rightarrow> slurm_step_layout \<Rightarrow> nat \<Rightarrow> string \<Rightarrow> string list \<times> slurm_step_layout
    \<Rightarrow> (string list \<times> slurm_step_layout) option" where
  "merge_host env l2 new_pos host = (\<lambda>(hl, l1). do {
     let (hl, l1, pos) = (if hostlist_find env hl host = -1
       then (hl @ [host], l1\<lparr> node_cnt := node_cnt l1 + 1,
          tasks := xrecalloc 0 (tasks l1) (unat (node_cnt l1 + 1)), tids := xrecalloc [] (tids l1) (unat (node_cnt l1 + 1)) \<rparr>,
          unat (node_cnt l1))
       else (hl, l1, nat (hostlist_find env hl host)));
     a \<leftarrow> mem_get (tasks l1) pos;
     b \<leftarrow> mem_get (tasks l2) new_pos;
     ts \<leftarrow> mem_set (tasks l1) pos (a + b);
     row \<leftarrow> mem_get (tids l1) pos;
     src \<leftarrow> mem_get (tids l2) new_pos;
     row \<leftarrow> for_upto (\<lambda>i row. do { v \<leftarrow> mem_get src i; mem_set row (unat a + i) v }) 0 (unat b) (xrecalloc 0 row (unat (a + b)));
     tds \<leftarrow> mem_set (tids l1) pos row;
     Some (hl, l1\<lparr> tasks := ts, tids := tds \<rparr>) })"

fun merge_hosts :: "('n, 'z) layout_env_scheme \<Rightarrow> slurm_step_layout \<Rightarrow> nat \<Rightarrow> string list \<Rightarrow> string list \<times> slurm_step_layout
    \<Rightarrow> (string list \<times> slurm_step_layout) option" where
  "merge_hosts env l2 new_pos [] s = Some s"
| "merge_hosts env l2 new_pos (host # hosts) s = merge_host env l2 new_pos host s \<bind> merge_hosts env l2 (new_pos + 1) hosts"

definition slurm_step_layout_merge :: "('n, 'z) layout_env_scheme \<Rightarrow> slurm_step_layout \<Rightarrow> slurm_step_layout
    \<Rightarrow> slurm_step_layout option" where
  "slurm_step_layout_merge env l1 l2 = do {
     (hl, l1) \<leftarrow> merge_hosts env l2 0 (hostlist_hosts env (node_list l2)) (hostlist_hosts env (node_list l1), l1);
     Some (l1\<lparr> task_cnt := task_cnt l1 + task_cnt l2, node_list := Some (hostlist_ranged_string env hl) \<rparr>) }"

text \<open>The two loops of \<open>slurm_step_layout_host_id\<close>: the first row position with the task.\<close>

fun find_in_row :: "u32 list \<Rightarrow> nat \<Rightarrow> nat \<Rightarrow> u32 \<Rightarrow> bool option" where
  "find_in_row row j 0 taskid = Some False"
| "find_in_row row j (Suc m) taskid = do {
     v \<leftarrow> mem_get row j;
     if v = taskid then Some True else find_in_row row (j + 1) m taskid }"

fun find_row :: "slurm_step_layout \<Rightarrow> nat \<Rightarrow> nat \<Rightarrow> u32 \<Rightarrow> int option" where
  "find_row s i 0 taskid = Some (-1)"
| "find_row s i (Suc m) taskid = do {
     a \<leftarrow> mem_get (tasks s) i;
     row \<leftarrow> (if a = 0 then Some [] else mem_get (tids s) i);
     b \<leftarrow> find_in_row row 0 (unat a) taskid;
     if b then Some (int i) else find_row s (i + 1) m taskid }"

text \<open>The comparison of \<open>taskid\<close> with the number of tasks is unsigned.\<close>

definition slurm_step_layout_host_id :: "slurm_step_layout \<Rightarrow> int \<Rightarrow> int option" where
  "slurm_step_layout_host_id s taskid =
     (if tasks s = [] \<or> tids s = [] \<or> word_of_int taskid > task_cnt s - 1 then Some (-1)
      else find_row s 0 (unat (node_cnt s)) (word_of_int taskid))"

definition slurm_step_layout_host_name :: "('n, 'z) layout_env_scheme \<Rightarrow> slurm_step_layout \<Rightarrow> int \<Rightarrow> string option option" where
  "slurm_step_layout_host_name env s taskid = do {
     hostid \<leftarrow> slurm_step_layout_host_id s taskid;
     Some (let hosts = hostlist_hosts env (node_list s) in
       if hostid < 0 then None else if nat hostid < length hosts then Some (hosts ! nat hostid) else None) }"

definition layout_type_names :: "(u32 \<times> string) list" where
  "layout_type_names = [(0x0001, ''Cyclic''), (0x0002, ''Block''), (0x0003, ''arbitrary task distribution''), (0x0004, ''Plane''),
     (0x0011, ''CCyclic''), (0x0021, ''CBlock''), (0x0012, ''BCyclic''), (0x0022, ''BBlock''), (0x0031, ''CFCyclic''), (0x0032, ''BFCyclic''),
     (0x0111, ''CCyclicCyclic''), (0x0211, ''CCyclicBlock''), (0x0311, ''CCyclicFCyclic''), (0x0121, ''CBlockCyclic''),
     (0x0221, ''CBlockBlock''), (0x0321, ''CCyclicFCyclic''), (0x0131, ''CFCyclicCyclic''), (0x0231, ''CFCyclicBlock''),
     (0x0331, ''CFCyclicFCyclic''), (0x0112, ''BCyclicCyclic''), (0x0212, ''BCyclicBlock''), (0x0312, ''BCyclicFCyclic''),
     (0x0122, ''BBlockCyclic''), (0x0222, ''BBlockBlock''), (0x0322, ''BBlockFCyclic''), (0x0132, ''BFCyclicCyclic''),
     (0x0232, ''BFCyclicBlock''), (0x0332, ''BFCyclicFCyclic'')]"

definition slurm_step_layout_type_name :: "u32 \<Rightarrow> string" where
  "slurm_step_layout_type_name dist =
     (case map_of layout_type_names (dist AND SLURM_DIST_STATE_BASE) of None \<Rightarrow> ''Unknown'' | Some s \<Rightarrow> s)
     @ (if dist AND SLURM_DIST_PACK_NODES \<noteq> 0 then '',Pack'' else [])
     @ (if dist AND SLURM_DIST_NO_PACK_NODES \<noteq> 0 then '',NoPack'' else [])"

end
