(* ===== verification/Step_Layout_Count.thy ===== *)
theory Step_Layout_Count
  imports Step_Layout
begin

text \<open>
  The counting loops of the distributions: how many tasks each node gets. \<open>counts\<close> is the invariant all of them
  share, that the nodes' numbers add up to the number of tasks placed so far. Each loop is shown to return with every
  task placed, and no 16-bit count to wrap around, given that \<open>fits16\<close> holds: a bound on what
  the over-subscription rounds can add to a node's CPUs.
\<close>

declare split_paired_Ex [simp del] split_paired_All [simp del]

subsection \<open>Rules for the loops\<close>

lemma for_while_rule:
  assumes "lo \<le> hi" and "I lo s"
    and "\<And>i t. lo \<le> i \<Longrightarrow> i < hi \<Longrightarrow> g t \<Longrightarrow> I i t \<Longrightarrow> \<exists>t'. f i t = Some t' \<and> I (Suc i) t'"
  shows "\<exists>j t. for_while g f lo hi s = Some t \<and> lo \<le> j \<and> j \<le> hi \<and> I j t \<and> (g t \<longrightarrow> j = hi)"
  using assms
proof (induction g f lo hi s rule: for_while.induct)
  case (1 g f lo hi s)
  show ?case
  proof (cases "lo < hi \<and> g s")
    case True
    with "1.prems"(3) [of lo s] "1.prems"(2) obtain t where t: "f lo s = Some t" "I (Suc lo) t" by auto
    have "\<exists>j u. for_while g f (Suc lo) hi t = Some u \<and> Suc lo \<le> j \<and> j \<le> hi \<and> I j u \<and> (g u \<longrightarrow> j = hi)"
      using True t "1.prems"(3) by (intro "1.IH") auto
    then obtain j u where u: "for_while g f (Suc lo) hi t = Some u" "Suc lo \<le> j" "j \<le> hi" "I j u" "g u \<longrightarrow> j = hi" by blast
    have "for_while g f lo hi s = Some u" using True t u(1) by (subst for_while.simps) simp
    with u show ?thesis by (intro exI [of _ j] exI [of _ u]) simp
  next
    case False
    with "1.prems" show ?thesis by (subst for_while.simps) auto
  qed
qed

lemma cycles_rule:
  fixes m :: "'s \<Rightarrow> nat"
  assumes "I j s"
    and "\<And>j s. g s \<Longrightarrow> I j s \<Longrightarrow> j + 1 < 2 ^ 31 \<and> (\<exists>s'. f j s = Some s' \<and> I (j + 1) s' \<and> m s' < m s)"
  shows "\<exists>j' t. cycles g f j s = Some t \<and> I j' t \<and> \<not> g t"
  using assms(1)
proof (induction "m s" arbitrary: j s rule: less_induct)
  case less
  show ?case
  proof (cases "g s")
    case True
    with assms(2) [OF True less.prems] obtain s' where s': "j + 1 < 2 ^ 31" "f j s = Some s'" "I (j + 1) s'" "m s' < m s" by blast
    with less.hyps [of s' "j + 1"] True show ?thesis by (subst cycles.simps) (simp add: add_int_def)
  next
    case False
    with less.prems show ?thesis by (subst cycles.simps) auto
  qed
qed

subsection \<open>Counts\<close>

definition counts :: "nat \<Rightarrow> nat \<Rightarrow> nat \<Rightarrow> placed \<Rightarrow> bool" where
  "counts N n cnt q \<longleftrightarrow> length (fst q) = N \<and> (\<Sum>i<n. unat (fst q ! i)) = snd q \<and> snd q \<le> cnt"

text \<open>Every node's count is at most \<open>u i\<close>.\<close>

definition capped :: "nat \<Rightarrow> (nat \<Rightarrow> nat) \<Rightarrow> placed \<Rightarrow> bool" where
  "capped n u q \<longleftrightarrow> (\<forall>i<n. unat (fst q ! i) \<le> u i)"

text \<open>\<open>ps\<close> tasks per node and round on top of the CPUs.\<close>

definition fits16 :: "u16 list \<Rightarrow> nat \<Rightarrow> nat \<Rightarrow> nat \<Rightarrow> bool" where
  "fits16 cpus n cnt ps \<longleftrightarrow> (\<forall>i<n. unat (cpus ! i) + ps * (cnt div (n * ps) + 1) \<le> 65535)"

lemma cappedI: "(\<And>i. i < n \<Longrightarrow> unat (fst q ! i) \<le> u i) \<Longrightarrow> capped n u q"
  by (simp add: capped_def)

lemma capped_mono: "capped n u q \<Longrightarrow> (\<And>i. i < n \<Longrightarrow> u i \<le> v i) \<Longrightarrow> capped n v q"
  by (auto simp: capped_def intro: le_trans)

lemma fits16_room:
  assumes "fits16 cpus n cnt ps" and "i < n" and "0 < ps" and "r * (n * ps) \<le> cnt"
  shows "unat (cpus ! i) + (r + 1) * ps \<le> 65535"
proof -
  have "r \<le> cnt div (n * ps)"
    using assms by (simp add: less_eq_div_iff_mult_less_eq)
  then have "(r + 1) * ps \<le> ps * (cnt div (n * ps) + 1)" by simp
  moreover have "unat (cpus ! i) + ps * (cnt div (n * ps) + 1) \<le> 65535" using assms(1,2) by (simp add: fits16_def)
  ultimately show ?thesis by linarith
qed

lemma unat_Suc16: "unat (a::u16) < 65535 \<Longrightarrow> unat (a + 1) = unat a + 1"
  by (simp add: unat_word_ariths)

lemma sum_incr:
  fixes g h :: "nat \<Rightarrow> nat"
  assumes "i < n" "h i = g i + 1" "\<And>k. k < n \<Longrightarrow> k \<noteq> i \<Longrightarrow> h k = g k"
  shows "(\<Sum>k<n. h k) = (\<Sum>k<n. g k) + 1"
  using assms by (simp add: sum.remove [of "{..<n}" i])

text \<open>One more task on node \<open>i\<close>, whose count may grow.\<close>

lemma add_task_ok:
  assumes "counts N n cnt q" and "n \<le> N" "i < n" and "snd q < cnt" "cnt < 2 ^ 31"
    and "unat (fst q ! i) < 65535"
  shows "\<exists>q'. add_task i q = Some q' \<and> counts N n cnt q' \<and> snd q' = snd q + 1
     \<and> unat (fst q' ! i) = unat (fst q ! i) + 1 \<and> (\<forall>k. k \<noteq> i \<longrightarrow> fst q' ! k = fst q ! k)"
proof -
  obtain ts t where q: "q = (ts, t)" by force
  let ?ts = "ts[i := ts ! i + 1]"
  have len: "i < length ts" using assms q by (simp add: counts_def)
  have a: "unat (ts ! i + 1) = unat (ts ! i) + 1" using assms q by (intro unat_Suc16) auto
  have "add_task i q = Some (?ts, t + 1)"
    using len assms q by (simp add: add_task_def c_sem add_int_def)
  moreover have "(\<Sum>k<n. unat (?ts ! k)) = (\<Sum>k<n. unat (ts ! k)) + 1"
    using assms(3) len a by (intro sum_incr [of i]) auto
  ultimately show ?thesis using assms len a q by (auto simp: counts_def)
qed

lemma u16_bound: "unat (a::u16) \<le> 65535"
proof -
  have "unat a < 2 ^ LENGTH(16)" by (rule unsigned_less)
  then show ?thesis by simp
qed

subsection \<open>Packing nodes\<close>

lemma pack_pass1_ok:
  assumes "counts N n cnt q" "capped n (\<lambda>i. unat (cpus ! i)) q" and "n \<le> N" "n \<le> length cpus" "cnt < 2 ^ 31"
  shows "\<exists>q'. pack_pass1 cpus n cnt q = Some q' \<and> counts N n cnt q' \<and> capped n (\<lambda>i. unat (cpus ! i)) q'"
proof -
  let ?I = "\<lambda>i q. counts N n cnt q \<and> capped n (\<lambda>i. unat (cpus ! i)) q"
  let ?f = "\<lambda>i q. do { a \<leftarrow> mem_get (fst q) i; c \<leftarrow> mem_get cpus i; if a < c then add_task i q else Some q }"
  have step: "\<exists>t'. ?f i t = Some t' \<and> ?I (Suc i) t'" if i: "i < n" and g: "snd t < cnt" and inv: "?I i t" for i t
  proof (cases "fst t ! i < cpus ! i")
    case True
    then have lt: "unat (fst t ! i) < unat (cpus ! i)" by (simp add: word_less_nat_alt)
    with add_task_ok [of N n cnt t i] i g inv assms u16_bound [of "cpus ! i"]
    obtain t' where t': "add_task i t = Some t'" "counts N n cnt t'" "unat (fst t' ! i) = unat (fst t ! i) + 1"
      "\<forall>k. k \<noteq> i \<longrightarrow> fst t' ! k = fst t ! k" by auto
    have "capped n (\<lambda>i. unat (cpus ! i)) t'"
      using inv lt t' by (intro cappedI) (metis capped_def Suc_eq_plus1 Suc_leI)
    with t' i inv assms True show ?thesis by (simp add: c_sem counts_def)
  next
    case False
    with i inv assms show ?thesis by (simp add: c_sem counts_def)
  qed
  show ?thesis
    using for_while_rule [of 0 n ?I q "\<lambda>q. snd q < cnt" ?f] assms(1,2) step by (auto simp: pack_pass1_def)
qed

lemma fill_node_ok:
  assumes "counts N n cnt q" "capped n (\<lambda>i. unat (cpus ! i)) q" and "i < n" "n \<le> N" "cnt < 2 ^ 31"
  shows "\<exists>q'. fill_node (cpus ! i) cnt i q = Some q' \<and> counts N n cnt q' \<and> capped n (\<lambda>i. unat (cpus ! i)) q'"
  using assms(1,2)
proof (induction "cnt - snd q" arbitrary: q rule: less_induct)
  case less
  have len: "i < length (fst q)" using less.prems assms by (simp add: counts_def)
  show ?case
  proof (cases "fst q ! i < cpus ! i \<and> snd q < cnt")
    case True
    then have lt: "unat (fst q ! i) < unat (cpus ! i)" by (simp add: word_less_nat_alt)
    with add_task_ok [of N n cnt q i] True less.prems assms u16_bound [of "cpus ! i"]
    obtain q' where q': "add_task i q = Some q'" "counts N n cnt q'" "snd q' = snd q + 1" "unat (fst q' ! i) = unat (fst q ! i) + 1"
      "\<forall>k. k \<noteq> i \<longrightarrow> fst q' ! k = fst q ! k" by auto
    have "capped n (\<lambda>i. unat (cpus ! i)) q'"
      using less.prems lt q' by (intro cappedI) (metis capped_def Suc_eq_plus1 Suc_leI)
    with less.hyps [of q'] q' True have "\<exists>p. fill_node (cpus ! i) cnt i q' = Some p \<and> counts N n cnt p \<and> capped n (\<lambda>i. unat (cpus ! i)) p"
      by (metis Suc_eq_plus1 diff_less_mono2 lessI)
    with q' True len show ?thesis by (subst fill_node.simps) (simp add: c_sem)
  next
    case False
    then have "fill_node (cpus ! i) cnt i q = Some q" using len by (subst fill_node.simps) (auto simp: c_sem)
    with less.prems show ?thesis by blast
  qed
qed

lemma pack_pass2_ok:
  assumes "counts N n cnt q" "capped n (\<lambda>i. unat (cpus ! i)) q" and "n \<le> N" "n \<le> length cpus" "cnt < 2 ^ 31"
  shows "\<exists>q'. pack_pass2 cpus n cnt q = Some q' \<and> counts N n cnt q' \<and> capped n (\<lambda>i. unat (cpus ! i)) q'"
proof -
  let ?I = "\<lambda>i q. counts N n cnt q \<and> capped n (\<lambda>i. unat (cpus ! i)) q"
  have "\<exists>t'. (do { c \<leftarrow> mem_get cpus i; fill_node c cnt i t }) = Some t' \<and> ?I (Suc i) t'"
    if i: "i < n" and inv: "?I i t" for i t
    using fill_node_ok [of N n cnt t cpus i] i inv assms by (simp add: c_sem)
  with for_while_rule [of 0 n ?I q "\<lambda>q. snd q < cnt" "\<lambda>i q. do { c \<leftarrow> mem_get cpus i; fill_node c cnt i q }"] assms(1,2)
  show ?thesis by (auto simp: pack_pass2_def)
qed

text \<open>\<open>r\<close> full rounds that added \<open>ps\<close> tasks to each node.\<close>

definition rounds :: "u16 list \<Rightarrow> nat \<Rightarrow> nat \<Rightarrow> nat \<Rightarrow> placed \<Rightarrow> bool" where
  "rounds cpus n ps r q \<longleftrightarrow> capped n (\<lambda>i. unat (cpus ! i) + r * ps) q \<and> r * (n * ps) \<le> snd q"

text \<open>The middle of a round: the nodes before \<open>i\<close> are served, node \<open>i\<close> got \<open>k\<close> tasks.\<close>

definition serving :: "u16 list \<Rightarrow> nat \<Rightarrow> nat \<Rightarrow> nat \<Rightarrow> nat \<Rightarrow> nat \<Rightarrow> placed \<Rightarrow> bool" where
  "serving cpus n ps r i k q \<longleftrightarrow>
     capped n (\<lambda>m. unat (cpus ! m) + r * ps + (if m < i then ps else if m = i then k else 0)) q
     \<and> r * (n * ps) + i * ps + k \<le> snd q"

lemma serving_0: "rounds cpus n ps r q \<Longrightarrow> serving cpus n ps r 0 0 q"
  by (auto simp: rounds_def serving_def elim!: capped_mono)

lemma serving_next: "serving cpus n ps r i ps q \<Longrightarrow> serving cpus n ps r (Suc i) 0 q"
  by (auto simp: serving_def elim!: capped_mono)

lemma serving_end: "serving cpus n ps r n 0 q \<Longrightarrow> rounds cpus n ps (r + 1) q"
  by (auto simp: rounds_def serving_def algebra_simps elim!: capped_mono)

lemma serve_step:
  assumes "serving cpus n ps r i k q" "counts N n cnt q" and "i < n" "k < ps" "snd q < cnt" "n \<le> N" "cnt < 2 ^ 31"
    and "fits16 cpus n cnt ps"
  shows "\<exists>q'. add_task i q = Some q' \<and> counts N n cnt q' \<and> snd q' = snd q + 1 \<and> serving cpus n ps r i (Suc k) q'"
proof -
  have "r * (n * ps) \<le> cnt" using assms by (auto simp: serving_def)
  then have room: "unat (cpus ! i) + (r + 1) * ps \<le> 65535" using assms by (intro fits16_room) auto
  have "unat (fst q ! i) \<le> unat (cpus ! i) + r * ps + k" using assms by (auto simp: serving_def capped_def)
  with room assms(4) have "unat (fst q ! i) < 65535" by simp
  with add_task_ok [of N n cnt q i] assms obtain q' where q': "add_task i q = Some q'" "counts N n cnt q'" "snd q' = snd q + 1"
    "unat (fst q' ! i) = unat (fst q ! i) + 1" "\<forall>k. k \<noteq> i \<longrightarrow> fst q' ! k = fst q ! k" by auto
  have "serving cpus n ps r i (Suc k) q'"
    using assms(1) q'(3-5) unfolding serving_def capped_def by (auto split: if_splits)
  with q' show ?thesis by blast
qed

lemma round_ok:
  assumes "rounds cpus n 1 r q" "counts N n cnt q" and "n \<le> N" "cnt < 2 ^ 31" and "fits16 cpus n cnt 1"
  shows "\<exists>i q'. for_while (\<lambda>q. snd q < cnt) add_task 0 n q = Some q' \<and> counts N n cnt q' \<and> i \<le> n \<and> snd q + i \<le> snd q'
     \<and> (snd q' < cnt \<longrightarrow> i = n \<and> rounds cpus n 1 (r + 1) q')"
proof -
  let ?I = "\<lambda>i p. counts N n cnt p \<and> serving cpus n 1 r i 0 p \<and> snd q + i \<le> snd p"
  have step: "\<exists>p'. add_task i p = Some p' \<and> ?I (Suc i) p'" if "i < n" "snd p < cnt" "?I i p" for i p
    using serve_step [of cpus n 1 r i 0 p N cnt] serving_next [of cpus n 1 r i] that assms by fastforce
  have "?I 0 q" using assms serving_0 by auto
  with for_while_rule [of 0 n ?I q "\<lambda>q. snd q < cnt" add_task] step serving_end [of cpus n 1 r]
  show ?thesis by (metis le0)
qed

lemma pack_pass3_ok:
  assumes "counts N n cnt q" "capped n (\<lambda>i. unat (cpus ! i)) q" and "0 < n" "n \<le> N" "cnt + 1 < 2 ^ 31" and "fits16 cpus n cnt 1"
  shows "\<exists>q'. pack_pass3 n cnt q = Some q' \<and> counts N n cnt q' \<and> snd q' = cnt"
proof -
  let ?I = "\<lambda>j q. counts N n cnt q \<and> j \<le> snd q \<and> (snd q < cnt \<longrightarrow> (\<exists>r. rounds cpus n 1 r q))"
  let ?f = "\<lambda>j::nat. for_while (\<lambda>q. snd q < cnt) add_task 0 n"
  have step: "j + 1 < 2 ^ 31 \<and> (\<exists>p'. ?f j p = Some p' \<and> ?I (j + 1) p' \<and> cnt - snd p' < cnt - snd p)"
    if l: "snd p < cnt" "?I j p" for j p
  proof -
    from l obtain r where "rounds cpus n 1 r p" by blast
    from round_ok [OF this, of N cnt] l assms obtain i p' where p': "?f j p = Some p'" "counts N n cnt p'"
      "snd p + i \<le> snd p'" "snd p' < cnt \<longrightarrow> i = n \<and> rounds cpus n 1 (r + 1) p'" by auto
    have "snd p < snd p'" using p' l assms(3) by (cases "snd p' < cnt") auto
    with p' l assms(5) show ?thesis by auto
  qed
  have "rounds cpus n 1 0 q" using assms(2) by (simp add: rounds_def)
  then have "?I 0 q" using assms(1) by auto
  from cycles_rule [of ?I, OF this step] show ?thesis by (fastforce simp: pack_pass3_def counts_def)
qed

subsection \<open>Spreading over the nodes\<close>

text \<open>The state of the loops that go round the nodes until the CPUs are used up and then over-subscribe: \<open>u\<close> bounds
  the counts before.\<close>

definition spread :: "u16 list \<Rightarrow> nat \<Rightarrow> nat \<Rightarrow> nat \<Rightarrow> nat \<Rightarrow> (nat \<Rightarrow> nat) \<Rightarrow> nat \<Rightarrow> placed \<times> bool \<Rightarrow> bool" where
  "spread cpus N n cnt ps u j s \<longleftrightarrow> counts N n cnt (fst s) \<and> j \<le> snd (fst s) + (if snd s then 1 else 0)
     \<and> (snd (fst s) < cnt \<longrightarrow> (if snd s then \<exists>r. rounds cpus n ps r (fst s) else capped n u (fst s)))"

definition spread_left :: "nat \<Rightarrow> placed \<times> bool \<Rightarrow> nat" where
  "spread_left cnt s = 2 * (cnt - snd (fst s)) + (if snd s then 0 else 1)"

text \<open>The end of one turn: tasks were placed, or the last free CPU is taken and over-subscription starts.\<close>

lemma spread_next:
  assumes "counts N n cnt p'" "snd p \<le> snd p'" "j \<le> snd p + (if ov then 1 else 0)" "snd p < cnt"
    and "\<not> ov \<Longrightarrow> snd p' < cnt \<Longrightarrow> capped n u p'"
    and "ov \<Longrightarrow> snd p' < cnt \<Longrightarrow> \<exists>r. rounds cpus n ps r p'" and "ov \<Longrightarrow> snd p < snd p'"
    and "\<And>i. i < n \<Longrightarrow> u i \<le> unat (cpus ! i)" and "space \<Longrightarrow> snd p < snd p'"
  shows "spread cpus N n cnt ps u (j + 1) (p', ov \<or> \<not> space) \<and> spread_left cnt (p', ov \<or> \<not> space) < spread_left cnt (p, ov)"
proof -
  have "\<exists>r. rounds cpus n ps r p'" if l: "snd p' < cnt" "\<not> ov"
    using assms(5,8) l by (intro exI [of _ 0]) (auto simp: rounds_def elim!: capped_mono)
  moreover have "snd p < snd p' \<or> \<not> ov \<and> \<not> space" using assms(7,9) by auto
  ultimately show ?thesis using assms by (auto simp: spread_def spread_left_def)
qed

text \<open>The loops for which \<open>spread\<close> is an invariant place every task.\<close>

lemma spread_cycles:
  assumes "\<And>j s. j0 \<le> j \<Longrightarrow> snd (fst s) < cnt \<Longrightarrow> spread cpus N n cnt ps (u j) j s \<Longrightarrow>
      \<exists>s'. f j s = Some s' \<and> spread cpus N n cnt ps (u (j + 1)) (j + 1) s' \<and> spread_left cnt s' < spread_left cnt s"
    and "spread cpus N n cnt ps (u j0) j0 s" and "cnt + 1 < 2 ^ 31"
  shows "\<exists>s'. cycles (\<lambda>s. snd (fst s) < cnt) f j0 s = Some s' \<and> counts N n cnt (fst s') \<and> snd (fst s') = cnt"
proof -
  let ?I = "\<lambda>j s. j0 \<le> j \<and> spread cpus N n cnt ps (u j) j s"
  have step: "j + 1 < 2 ^ 31 \<and> (\<exists>t'. f j t = Some t' \<and> ?I (j + 1) t' \<and> spread_left cnt t' < spread_left cnt t)"
    if l: "snd (fst t) < cnt" "?I j t" for j t
    using l assms(1) [of j t] assms(3) by (auto simp: spread_def split: if_splits)
  have "?I j0 s" using assms(2) by simp
  then have "\<exists>j t. cycles (\<lambda>s. snd (fst s) < cnt) f j0 s = Some t \<and> ?I j t \<and> \<not> snd (fst t) < cnt"
    using step by (rule cycles_rule)
  then show ?thesis by (auto simp: spread_def counts_def)
qed

lemma block_turn_free:
  assumes "capped n (\<lambda>i. min j (unat (cpus ! i))) q" "counts N n cnt q" and "n \<le> N" "n \<le> length cpus" "cnt < 2 ^ 31"
  shows "\<exists>q' space. for_while (\<lambda>s. snd (fst s) < cnt) (block_node cpus j False) 0 n (q, False) = Some (q', space)
     \<and> counts N n cnt q' \<and> snd q \<le> snd q' \<and> (space \<longrightarrow> snd q < snd q')
     \<and> (snd q' < cnt \<longrightarrow> capped n (\<lambda>i. min (j + 1) (unat (cpus ! i))) q')"
proof -
  let ?u = "\<lambda>i k. min (if k < i then j + 1 else j) (unat (cpus ! k))"
  let ?I = "\<lambda>i s. counts N n cnt (fst s) \<and> capped n (?u i) (fst s) \<and> snd q \<le> snd (fst s) \<and> (snd s \<longrightarrow> snd q < snd (fst s))"
  have step: "\<exists>s'. block_node cpus j False i s = Some s' \<and> ?I (Suc i) s'"
    if i: "i < n" and g: "snd (fst s) < cnt" and inv: "?I i s" for i s
  proof (cases "j < unat (cpus ! i)")
    case True
    have le: "unat (fst (fst s) ! i) \<le> j" using inv i by (auto simp: capped_def)
    with add_task_ok [of N n cnt "fst s" i] True i g inv assms u16_bound [of "cpus ! i"]
    obtain q' where q': "add_task i (fst s) = Some q'" "counts N n cnt q'" "snd q' = snd (fst s) + 1"
      "unat (fst q' ! i) = unat (fst (fst s) ! i) + 1" "\<forall>k. k \<noteq> i \<longrightarrow> fst q' ! k = fst (fst s) ! k" by auto
    have "capped n (?u (Suc i)) q'"
    proof (rule cappedI)
      fix k assume k: "k < n"
      then have "unat (fst (fst s) ! k) \<le> ?u i k" using inv by (simp add: capped_def)
      with q'(4,5) le True show "unat (fst q' ! k) \<le> ?u (Suc i) k" by (cases "k = i") auto
    qed
    with q' True i inv assms show ?thesis by (auto simp: block_node_def c_sem split_beta)
  next
    case False
    then have "capped n (?u (Suc i)) (fst s)" using inv by (auto simp: capped_def less_Suc_eq split: if_splits)
    with False i inv assms show ?thesis by (auto simp: block_node_def c_sem split_beta)
  qed
  have "?I 0 (q, False)" using assms by (auto elim!: capped_mono)
  from for_while_rule [of 0 n ?I "(q, False)" "\<lambda>s. snd (fst s) < cnt" "block_node cpus j False", OF le0 this step]
  obtain i s' where s': "for_while (\<lambda>s. snd (fst s) < cnt) (block_node cpus j False) 0 n (q, False) = Some s'"
    "?I i s'" "snd (fst s') < cnt \<longrightarrow> i = n" by blast
  then have "capped n (\<lambda>i. min (j + 1) (unat (cpus ! i))) (fst s')" if "snd (fst s') < cnt"
    using that by (auto elim!: capped_mono)
  with s' show ?thesis by (intro exI [of _ "fst s'"] exI [of _ "snd s'"]) simp
qed

lemma block_turn_over:
  assumes "rounds cpus n 1 r q" "counts N n cnt q" "snd q < cnt" and "0 < n" "n \<le> N" "n \<le> length cpus" "cnt < 2 ^ 31" and "fits16 cpus n cnt 1"
  shows "\<exists>q' space. for_while (\<lambda>s. snd (fst s) < cnt) (block_node cpus j True) 0 n (q, False) = Some (q', space)
     \<and> counts N n cnt q' \<and> snd q < snd q' \<and> (snd q' < cnt \<longrightarrow> rounds cpus n 1 (r + 1) q')"
proof -
  let ?I = "\<lambda>i s. counts N n cnt (fst s) \<and> serving cpus n 1 r i 0 (fst s) \<and> snd q + i \<le> snd (fst s)"
  have step: "\<exists>s'. block_node cpus j True i s = Some s' \<and> ?I (Suc i) s'"
    if i: "i < n" and g: "snd (fst s) < cnt" and inv: "?I i s" for i s
  proof -
    from serve_step [of cpus n 1 r i 0 "fst s" N cnt] i g inv assms obtain q' where q': "add_task i (fst s) = Some q'"
      "counts N n cnt q'" "snd q' = snd (fst s) + 1" "serving cpus n 1 r i 1 q'" by auto
    with serving_next [of cpus n 1 r i q'] i inv assms show ?thesis by (auto simp: block_node_def c_sem split_beta)
  qed
  have "?I 0 (q, False)" using assms serving_0 by auto
  from for_while_rule [of 0 n ?I "(q, False)" "\<lambda>s. snd (fst s) < cnt" "block_node cpus j True", OF le0 this step]
  obtain i s' where s': "for_while (\<lambda>s. snd (fst s) < cnt) (block_node cpus j True) 0 n (q, False) = Some s'"
    "?I i s'" "snd (fst s') < cnt \<longrightarrow> i = n" by blast
  with serving_end [of cpus n 1 r "fst s'"] assms(3,4) show ?thesis
    by (intro exI [of _ "fst s'"] exI [of _ "snd s'"]) (cases "snd (fst s') < cnt"; simp)
qed

lemma block_cycle_ok:
  assumes "snd (fst s) < cnt" "spread cpus N n cnt 1 (\<lambda>i. min j (unat (cpus ! i))) j s"
    and "0 < n" "n \<le> N" "n \<le> length cpus" "cnt < 2 ^ 31" and "fits16 cpus n cnt 1"
  shows "\<exists>s'. block_cycle cpus n cnt j s = Some s' \<and> spread cpus N n cnt 1 (\<lambda>i. min (j + 1) (unat (cpus ! i))) (j + 1) s'
     \<and> spread_left cnt s' < spread_left cnt s"
proof -
  obtain q ov where s: "s = (q, ov)" by (rule prod.exhaust)
  have "\<exists>q' space. for_while (\<lambda>s. snd (fst s) < cnt) (block_node cpus j ov) 0 n (q, False) = Some (q', space)
     \<and> counts N n cnt q' \<and> snd q \<le> snd q' \<and> (ov \<or> space \<longrightarrow> snd q < snd q')
     \<and> (snd q' < cnt \<longrightarrow> (if ov then \<exists>r. rounds cpus n 1 r q' else capped n (\<lambda>i. min (j + 1) (unat (cpus ! i))) q'))"
  proof (cases ov)
    case True
    with assms s obtain r where "rounds cpus n 1 r q" "counts N n cnt q" by (auto simp: spread_def)
    from block_turn_over [OF this, of j] assms s True show ?thesis by fastforce
  next
    case False
    with assms s have "capped n (\<lambda>i. min j (unat (cpus ! i))) q" "counts N n cnt q" by (auto simp: spread_def)
    from block_turn_free [OF this] assms False show ?thesis by fastforce
  qed
  then obtain q' space where q': "for_while (\<lambda>s. snd (fst s) < cnt) (block_node cpus j ov) 0 n (q, False) = Some (q', space)"
    "counts N n cnt q'" "snd q \<le> snd q'" "ov \<or> space \<longrightarrow> snd q < snd q'"
    "snd q' < cnt \<longrightarrow> (if ov then \<exists>r. rounds cpus n 1 r q' else capped n (\<lambda>i. min (j + 1) (unat (cpus ! i))) q')" by blast
  have "spread cpus N n cnt 1 (\<lambda>i. min (j + 1) (unat (cpus ! i))) (j + 1) (q', ov \<or> \<not> space)
      \<and> spread_left cnt (q', ov \<or> \<not> space) < spread_left cnt (q, ov)"
    using q' assms(1,2) s by (intro spread_next) (auto simp: spread_def)
  with q'(1) s show ?thesis by (simp add: block_cycle_def)
qed

lemma block_counts_ok:
  assumes "counts N n cnt (ts, 0)" and "0 < n" "n \<le> N" "n \<le> length cpus" "cnt + 1 < 2 ^ 31" and "fits16 cpus n cnt 1"
  shows "\<exists>s'. cycles (\<lambda>s. snd (fst s) < cnt) (block_cycle cpus n cnt) 0 ((ts, 0), False) = Some s'
     \<and> counts N n cnt (fst s') \<and> snd (fst s') = cnt"
proof (rule spread_cycles [where cpus = cpus and ps = 1 and u = "\<lambda>j i. min j (unat (cpus ! i))"])
  have "\<forall>i<n. ts ! i = 0" using assms(1) by (auto simp: counts_def unat_eq_0)
  then show "spread cpus N n cnt 1 (\<lambda>i. min 0 (unat (cpus ! i))) 0 ((ts, 0), False)"
    using assms(1) by (simp add: spread_def capped_def)
qed (use block_cycle_ok assms in auto)

lemma pack_counts_ok:
  assumes "counts N n cnt (ts, 0)" and "0 < n" "n \<le> N" "n \<le> length cpus" "cnt + 1 < 2 ^ 31" and "fits16 cpus n cnt 1"
  shows "\<exists>q'. (do { q \<leftarrow> pack_pass1 cpus n cnt (ts, 0); q \<leftarrow> pack_pass2 cpus n cnt q; pack_pass3 n cnt q }) = Some q'
     \<and> counts N n cnt q' \<and> snd q' = cnt"
proof -
  have z: "capped n (\<lambda>i. unat (cpus ! i)) (ts, 0)" using assms(1) by (auto simp: counts_def capped_def)
  from pack_pass1_ok [OF assms(1) z] assms obtain q1 where q1: "pack_pass1 cpus n cnt (ts, 0) = Some q1" "counts N n cnt q1"
    "capped n (\<lambda>i. unat (cpus ! i)) q1" by auto
  from pack_pass2_ok [OF q1(2,3)] assms obtain q2 where q2: "pack_pass2 cpus n cnt q1 = Some q2" "counts N n cnt q2"
    "capped n (\<lambda>i. unat (cpus ! i)) q2" by auto
  from pack_pass3_ok [OF q2(2,3)] assms q1 q2 show ?thesis by simp
qed

subsection \<open>Planes\<close>

lemma plane_first_ok:
  assumes "counts N n cnt q" "snd q = 0" and "0 < cnt" "0 < n" "n \<le> N" "n \<le> length cpus" "cnt < 2 ^ 31" and "\<forall>i<n. 0 < cpus ! i"
  shows "\<exists>q'. for_while (\<lambda>q. snd q < cnt) add_task 0 n q = Some q' \<and> counts N n cnt q' \<and> 0 < snd q'
     \<and> capped n (\<lambda>i. unat (cpus ! i)) q'"
proof -
  let ?I = "\<lambda>i p. counts N n cnt p \<and> snd p = i \<and> capped n (\<lambda>k. if k < i then 1 else 0) p"
  have step: "\<exists>p'. add_task i p = Some p' \<and> ?I (Suc i) p'" if l: "i < n" "snd p < cnt" "?I i p" for i p
  proof -
    have z: "unat (fst p ! i) = 0" using l by (auto simp: capped_def)
    with add_task_ok [of N n cnt p i] l assms obtain p' where p': "add_task i p = Some p'" "counts N n cnt p'" "snd p' = snd p + 1"
      "unat (fst p' ! i) = 1" "\<forall>k. k \<noteq> i \<longrightarrow> fst p' ! k = fst p ! k" by auto
    have "capped n (\<lambda>k. if k < Suc i then 1 else 0) p'"
    proof (rule cappedI)
      fix k assume "k < n"
      with l have "unat (fst p ! k) \<le> (if k < i then 1 else 0)" by (simp add: capped_def)
      with p'(4,5) show "unat (fst p' ! k) \<le> (if k < Suc i then 1 else 0)" by (cases "k = i") auto
    qed
    with p' l show ?thesis by simp
  qed
  have "?I 0 q" using assms by (auto simp: counts_def capped_def)
  from for_while_rule [of 0 n ?I q "\<lambda>q. snd q < cnt" add_task, OF le0 this step]
  obtain i p where p: "for_while (\<lambda>q. snd q < cnt) add_task 0 n q = Some p" "?I i p" "snd p < cnt \<longrightarrow> i = n" by blast
  have "0 < snd p" using p(2,3) assms(3,4) by (cases "snd p < cnt") auto
  moreover have "capped n (\<lambda>i. unat (cpus ! i)) p"
  proof (rule capped_mono)
    fix k assume "k < n"
    then have "cpus ! k \<noteq> 0" using assms(8) by auto
    then show "(if k < i then 1 else 0) \<le> unat (cpus ! k)" by (simp add: Suc_le_eq unat_gt_0)
  qed (use p in simp)
  ultimately show ?thesis using p by blast
qed

text \<open>One node in one turn, and all nodes, while CPUs are free.\<close>

definition filling :: "u16 list \<Rightarrow> nat \<Rightarrow> nat \<Rightarrow> nat \<Rightarrow> placed \<Rightarrow> placed \<times> bool \<Rightarrow> bool" where
  "filling cpus N n cnt q s \<longleftrightarrow> counts N n cnt (fst s) \<and> capped n (\<lambda>i. unat (cpus ! i)) (fst s)
     \<and> snd q \<le> snd (fst s) \<and> (snd s \<longrightarrow> snd q < snd (fst s))"

lemma plane_node_free:
  assumes "filling cpus N n cnt q s" and "i < n" "snd (fst s) < cnt" "n \<le> N" "n \<le> length cpus" "cnt < 2 ^ 31"
  shows "\<exists>s'. plane_node cpus i False k s = Some s' \<and> filling cpus N n cnt q s'"
proof (cases "unat (cpus ! i) = unat (fst (fst s) ! i)")
  case True
  then have "cpus ! i = fst (fst s) ! i" by (simp add: word_unat_eq_iff)
  then have "plane_node cpus i False k s = Some s"
    using assms by (simp add: plane_node_def c_sem split_beta filling_def counts_def)
  with assms(1) show ?thesis by blast
next
  case False
  with assms(1,2) have lt: "unat (fst (fst s) ! i) < unat (cpus ! i)" by (auto simp: filling_def capped_def order_less_le)
  with add_task_ok [of N n cnt "fst s" i] assms u16_bound [of "cpus ! i"]
  obtain q' where q': "add_task i (fst s) = Some q'" "counts N n cnt q'" "snd q' = snd (fst s) + 1"
    "unat (fst q' ! i) = unat (fst (fst s) ! i) + 1" "\<forall>k. k \<noteq> i \<longrightarrow> fst q' ! k = fst (fst s) ! k" by (auto simp: filling_def)
  have "capped n (\<lambda>i. unat (cpus ! i)) q'"
    using assms(1) lt q' by (intro cappedI) (metis filling_def capped_def Suc_eq_plus1 Suc_leI)
  with q' False assms show ?thesis by (auto simp: plane_node_def c_sem split_beta filling_def counts_def)
qed

lemma plane_turn_free:
  assumes "counts N n cnt q" "capped n (\<lambda>i. unat (cpus ! i)) q" and "n \<le> N" "n \<le> length cpus" "cnt < 2 ^ 31" and "k0 \<le> ps"
  shows "\<exists>s'. for_while (\<lambda>s. snd (fst s) < cnt) (\<lambda>i. for_while (\<lambda>s. snd (fst s) < cnt) (plane_node cpus i False) k0 ps) 0 n (q, False)
     = Some s' \<and> filling cpus N n cnt q s'"
proof -
  let ?I = "\<lambda>i::nat. filling cpus N n cnt q"
  let ?g = "\<lambda>s::placed \<times> bool. snd (fst s) < cnt"
  have "\<exists>s'. for_while ?g (plane_node cpus i False) k0 ps s = Some s' \<and> ?I (Suc i) s'" if "i < n" "?I i s" for i s
    using for_while_rule [of k0 ps ?I s ?g "plane_node cpus i False"] plane_node_free [of cpus N n cnt q _ i] that assms by blast
  moreover have "?I 0 (q, False)" using assms by (simp add: filling_def)
  ultimately show ?thesis
    using for_while_rule [of 0 n ?I "(q, False)" ?g "\<lambda>i. for_while ?g (plane_node cpus i False) k0 ps"] by blast
qed

lemma plane_turn_over:
  assumes "rounds cpus n ps r q" "counts N n cnt q" "snd q < cnt" and "0 < n" "n \<le> N" "n \<le> length cpus" "cnt < 2 ^ 31"
    and "fits16 cpus n cnt ps" "0 < ps"
  shows "\<exists>q' space. for_while (\<lambda>s. snd (fst s) < cnt) (\<lambda>i. for_while (\<lambda>s. snd (fst s) < cnt) (plane_node cpus i True) 0 ps) 0 n (q, False)
     = Some (q', space) \<and> counts N n cnt q' \<and> snd q < snd q' \<and> (snd q' < cnt \<longrightarrow> rounds cpus n ps (r + 1) q')"
proof -
  let ?g = "\<lambda>s::placed \<times> bool. snd (fst s) < cnt"
  let ?K = "\<lambda>i k s. counts N n cnt (fst s) \<and> (?g s \<longrightarrow> serving cpus n ps r i k (fst s)) \<and> (?g s \<longrightarrow> snd q + i + k \<le> snd (fst s))"
  have node: "\<exists>s'. plane_node cpus i True k s = Some s' \<and> ?K i (Suc k) s'" if "k < ps" "?g s" "?K i k s" "i < n" for i k s
  proof -
    from serve_step [of cpus n ps r i k "fst s" N cnt] that assms obtain q' where q': "add_task i (fst s) = Some q'"
      "counts N n cnt q'" "snd q' = snd (fst s) + 1" "serving cpus n ps r i (Suc k) q'" by auto
    with that assms show ?thesis by (auto simp: plane_node_def c_sem split_beta counts_def)
  qed
  have step: "\<exists>s'. for_while ?g (plane_node cpus i True) 0 ps s = Some s' \<and> ?K (Suc i) 0 s'" if l: "i < n" "?g s" "?K i 0 s" for i s
  proof -
    from for_while_rule [of 0 ps "?K i" s ?g "plane_node cpus i True"] node l(3) l(1)
    obtain k s' where s': "for_while ?g (plane_node cpus i True) 0 ps s = Some s'" "?K i k s'" "?g s' \<longrightarrow> k = ps" by blast
    then have "?K (Suc i) 0 s'" using serving_next [of cpus n ps r i "fst s'"] assms(9) by auto
    with s'(1) show ?thesis by blast
  qed
  have "?K 0 0 (q, False)" using assms serving_0 by auto
  from for_while_rule [of 0 n "\<lambda>i. ?K i 0" "(q, False)" ?g "\<lambda>i. for_while ?g (plane_node cpus i True) 0 ps", OF le0 this step]
  obtain i s' where s': "for_while ?g (\<lambda>i. for_while ?g (plane_node cpus i True) 0 ps) 0 n (q, False) = Some s'"
    "?K i 0 s'" "?g s' \<longrightarrow> i = n" by blast
  with serving_end [of cpus n ps r "fst s'"] assms(3,4) show ?thesis
    by (intro exI [of _ "fst s'"] exI [of _ "snd s'"]) (cases "?g s'"; simp add: counts_def)
qed

lemma plane_cycle_ok:
  assumes "1 \<le> j" "snd (fst s) < cnt" "spread cpus N n cnt ps (\<lambda>i. unat (cpus ! i)) j s"
    and "0 < n" "n \<le> N" "n \<le> length cpus" "cnt < 2 ^ 31" and "fits16 cpus n cnt ps" "0 < ps"
  shows "\<exists>s'. plane_cycle cpus n cnt ps j s = Some s' \<and> spread cpus N n cnt ps (\<lambda>i. unat (cpus ! i)) (j + 1) s'
     \<and> spread_left cnt s' < spread_left cnt s"
proof -
  obtain q ov where s: "s = (q, ov)" by (rule prod.exhaust)
  let ?loop = "for_while (\<lambda>s. snd (fst s) < cnt) (\<lambda>i. for_while (\<lambda>s. snd (fst s) < cnt) (plane_node cpus i ov) 0 ps) 0 n (q, False)"
  have "\<exists>q' space. ?loop = Some (q', space)
     \<and> counts N n cnt q' \<and> snd q \<le> snd q' \<and> (ov \<or> space \<longrightarrow> snd q < snd q')
     \<and> (snd q' < cnt \<longrightarrow> (if ov then \<exists>r. rounds cpus n ps r q' else capped n (\<lambda>i. unat (cpus ! i)) q'))"
  proof (cases ov)
    case True
    with assms s obtain r where "rounds cpus n ps r q" "counts N n cnt q" by (auto simp: spread_def)
    from plane_turn_over [OF this] assms s True show ?thesis by fastforce
  next
    case False
    with assms s have "counts N n cnt q" "capped n (\<lambda>i. unat (cpus ! i)) q" by (auto simp: spread_def)
    from plane_turn_free [OF this, of 0 ps] assms False obtain s' where "?loop = Some s'" "filling cpus N n cnt q s'" by auto
    then show ?thesis using False by (intro exI [of _ "fst s'"] exI [of _ "snd s'"]) (simp add: filling_def)
  qed
  then obtain q' space where q': "?loop = Some (q', space)"
    "counts N n cnt q'" "snd q \<le> snd q'" "ov \<or> space \<longrightarrow> snd q < snd q'"
    "snd q' < cnt \<longrightarrow> (if ov then \<exists>r. rounds cpus n ps r q' else capped n (\<lambda>i. unat (cpus ! i)) q')" by blast
  have "spread cpus N n cnt ps (\<lambda>i. unat (cpus ! i)) (j + 1) (q', ov \<or> \<not> space)
      \<and> spread_left cnt (q', ov \<or> \<not> space) < spread_left cnt (q, ov)"
    using q' assms(2,3) s by (intro spread_next) (auto simp: spread_def)
  with q'(1) s assms(1) show ?thesis by (simp add: plane_cycle_def)
qed

text \<open>The first turn gives every node a task before the planes are filled.\<close>

lemma plane_cycle_first:
  assumes "counts N n cnt (ts, 0)" and "0 < cnt" "0 < n" "n \<le> N" "n \<le> length cpus" "cnt < 2 ^ 31" and "\<forall>i<n. 0 < cpus ! i" "0 < ps"
  shows "\<exists>s'. plane_cycle cpus n cnt ps 0 ((ts, 0), False) = Some s' \<and> spread cpus N n cnt ps (\<lambda>i. unat (cpus ! i)) 1 s'"
proof -
  from plane_first_ok [of N n cnt "(ts, 0)" cpus] assms obtain q where
    q: "for_while (\<lambda>q. snd q < cnt) add_task 0 n (ts, 0) = Some q" "counts N n cnt q" "0 < snd q" "capped n (\<lambda>i. unat (cpus ! i)) q" by auto
  from plane_turn_free [OF q(2,4), of 1 ps] assms obtain s' where
    s': "for_while (\<lambda>s. snd (fst s) < cnt) (\<lambda>i. for_while (\<lambda>s. snd (fst s) < cnt) (plane_node cpus i False) 1 ps) 0 n (q, False) = Some s'"
      "filling cpus N n cnt q s'" by auto
  have "rounds cpus n ps 0 (fst s')" using s'(2) by (simp add: rounds_def filling_def)
  then have "spread cpus N n cnt ps (\<lambda>i. unat (cpus ! i)) 1 (fst s', \<not> snd s')"
    using s'(2) q(3) by (auto simp: spread_def filling_def)
  with q(1) s'(1) show ?thesis by (simp add: plane_cycle_def split_beta)
qed

lemma plane_counts_ok:
  assumes "counts N n cnt (ts, 0)" and "0 < n" "n \<le> N" "n \<le> length cpus" "cnt + 1 < 2 ^ 31" and "\<forall>i<n. 0 < cpus ! i"
    and "fits16 cpus n cnt ps" "0 < ps"
  shows "\<exists>s'. cycles (\<lambda>s. snd (fst s) < cnt) (plane_cycle cpus n cnt ps) 0 ((ts, 0), False) = Some s'
     \<and> counts N n cnt (fst s') \<and> snd (fst s') = cnt"
proof (cases "cnt = 0")
  case True
  with assms(1) show ?thesis by (subst cycles.simps) simp
next
  case False
  from plane_cycle_first [OF assms(1), of cpus ps] False assms obtain s1 where
    s1: "plane_cycle cpus n cnt ps 0 ((ts, 0), False) = Some s1" "spread cpus N n cnt ps (\<lambda>i. unat (cpus ! i)) 1 s1" by auto
  have "\<exists>s'. cycles (\<lambda>s. snd (fst s) < cnt) (plane_cycle cpus n cnt ps) 1 s1 = Some s' \<and> counts N n cnt (fst s') \<and> snd (fst s') = cnt"
    by (rule spread_cycles [where u = "\<lambda>j i. unat (cpus ! i)"]) (use plane_cycle_ok assms s1 in auto)
  with s1(1) False show ?thesis by (subst cycles.simps) (simp add: add_int_def)
qed

end
