(* ===== verification/Step_Layout_Number.thy ===== *)
theory Step_Layout_Number
  imports Step_Layout_Count "HOL-Library.Multiset"
begin

text \<open>
  Which task numbers the nodes get. \<open>numbered\<close> says that the rows of the nodes hold every number once and in
  ascending order; the loops that hand out the numbers keep it: the numbering in order of the block
  distribution, the cyclic distribution, which counts and numbers at once, and the plane distribution.
\<close>

subsection \<open>Rows of task numbers\<close>

definition numbered :: "nat \<Rightarrow> (nat \<Rightarrow> nat list) \<Rightarrow> nat \<Rightarrow> bool" where
  "numbered n R t \<longleftrightarrow> (\<Sum>i<n. mset (R i)) = mset [0..<t] \<and> (\<forall>i<n. sorted_wrt (<) (R i))"

lemma numbered_0: "numbered n (\<lambda>i. []) 0"
  by (simp add: numbered_def)

lemma numbered_cong: "(\<And>i. i < n \<Longrightarrow> R i = S i) \<Longrightarrow> numbered n R t = numbered n S t"
  by (simp add: numbered_def)

lemma numbered_less:
  assumes "numbered n R t" "i < n" "x \<in> set (R i)"
  shows "x < t"
proof -
  have "mset (R i) \<subseteq># (\<Sum>i<n. mset (R i))" using assms(2) by (simp add: sum.remove [of "{..<n}" i])
  with assms have "x \<in># mset [0..<t]" by (metis numbered_def mset_subset_eqD set_mset_mset)
  then show ?thesis by simp
qed

lemma numbered_add:
  assumes "numbered n R t" "i < n" and "S i = R i @ [t]" "\<And>k. k < n \<Longrightarrow> k \<noteq> i \<Longrightarrow> S k = R k"
  shows "numbered n S (t + 1)"
proof -
  have "(\<Sum>k<n. mset (S k)) = mset (S i) + (\<Sum>k\<in>{..<n} - {i}. mset (S k))" using assms(2) by (simp add: sum.remove [of "{..<n}" i])
  also have "\<dots> = mset (R i) + (\<Sum>k\<in>{..<n} - {i}. mset (R k)) + {#t#}" using assms(3,4) by simp
  also have "\<dots> = mset [0..<t] + {#t#}" using assms(1,2) by (simp add: numbered_def sum.remove [of "{..<n}" i])
  finally have "(\<Sum>k<n. mset (S k)) = mset [0..<t + 1]" by simp
  moreover have "sorted_wrt (<) (S k)" if "k < n" for k
    using that assms numbered_less [OF assms(1,2)] by (cases "k = i") (auto simp: numbered_def sorted_wrt_append)
  ultimately show ?thesis by (simp add: numbered_def)
qed

lemma numbered_size: "numbered n R t \<Longrightarrow> (\<Sum>i<n. length (R i)) = t"
proof -
  assume "numbered n R t"
  then have "size (\<Sum>i<n. mset (R i)) = t" by (simp add: numbered_def)
  moreover have "size (\<Sum>i<n. mset (R i)) = (\<Sum>i<n. length (R i))" by (induction n) simp_all
  ultimately show ?thesis by simp
qed

lemma unat_nat32: "t < 2 ^ 31 \<Longrightarrow> unat (of_nat t :: u32) = t"
  by (simp add: unat_of_nat)

subsection \<open>Numbering in order\<close>

lemma number_node_ok:
  assumes "t + a < 2 ^ 31"
  shows "number_node a t = Some (map of_nat [t..<t + a], t + a)"
proof -
  let ?f = "\<lambda>j (row::u32 list, t). do { row \<leftarrow> mem_set row j (of_nat t); t \<leftarrow> add_int t 1; Some (row, t) }"
  let ?I = "\<lambda>j s. s = (map of_nat [t..<t + j] @ replicate (a - j) 0, t + j)"
  have "\<exists>s'. ?f j s = Some s' \<and> ?I (Suc j) s'" if l: "j < a" "?I j s" for j s
  proof -
    have rep: "replicate (a - j) (0::u32) = 0 # replicate (a - Suc j) 0" using l(1) by (metis Suc_diff_Suc replicate_Suc)
    have "(map of_nat [t..<t + j] @ 0 # replicate (a - Suc j) (0::u32))[j := of_nat (t + j)]
        = map of_nat [t..<t + j] @ of_nat (t + j) # replicate (a - Suc j) 0"
      by (metis diff_add_inverse length_map length_upt list_update_length)
    with l assms rep show ?thesis by (simp add: mem_set_def add_int_def)
  qed
  with for_upto_rule [of 0 a ?I "(replicate a 0, t)" ?f] show ?thesis by (auto simp: number_node_def)
qed

text \<open>The row of node \<open>i\<close> starts after the tasks of the nodes before it.\<close>

definition start :: "u16 list \<Rightarrow> nat \<Rightarrow> nat" where
  "start ts i = (\<Sum>k<i. unat (ts ! k))"

lemma start_Suc [simp]: "start ts (Suc i) = start ts i + unat (ts ! i)" "start ts 0 = 0"
  by (simp_all add: start_def)

lemma start_mono: "i \<le> j \<Longrightarrow> start ts i \<le> start ts j"
  by (auto simp: start_def intro: sum_mono2)

lemma number_tasks_ok:
  assumes "n \<le> length ts" "n \<le> length tds" and "start ts n < 2 ^ 31"
  shows "\<exists>tds'. number_tasks n ts tds = Some (tds', start ts n) \<and> length tds' = length tds
     \<and> (\<forall>i<n. tds' ! i = map of_nat [start ts i..<start ts (Suc i)])"
proof -
  let ?f = "\<lambda>i (tds, t). do { a \<leftarrow> mem_get ts i; (row, t) \<leftarrow> number_node (unat a) t; tds \<leftarrow> mem_set tds i row; Some (tds, t) }"
  let ?I = "\<lambda>i s. length (fst s) = length tds \<and> snd s = start ts i
     \<and> (\<forall>k<i. fst s ! k = map of_nat [start ts k..<start ts (Suc k)])"
  have "\<exists>s'. ?f i s = Some s' \<and> ?I (Suc i) s'" if l: "i < n" "?I i s" for i s
  proof -
    have "start ts (Suc i) < 2 ^ 31" using start_mono [of "Suc i" n ts] l(1) assms(3) by simp
    then have "number_node (unat (ts ! i)) (snd s) = Some (map of_nat [start ts i..<start ts (Suc i)], start ts (Suc i))"
      using number_node_ok [of "snd s" "unat (ts ! i)"] l(2) by simp
    with l assms show ?thesis by (auto simp: c_sem split_beta less_Suc_eq)
  qed
  with for_upto_rule [of 0 n ?I "(tds, 0)" ?f] show ?thesis by (auto simp: number_tasks_def)
qed

lemma start_numbered: "numbered n (\<lambda>i. [start ts i..<start ts (Suc i)]) (start ts n)"
proof -
  have "(\<Sum>i<n. mset [start ts i..<start ts (Suc i)]) = mset [0..<start ts n]"
  proof (induction n)
    case (Suc n)
    have "[0..<start ts (Suc n)] = [0..<start ts n] @ [start ts n..<start ts (Suc n)]"
      by (simp only: start_Suc upt_add_eq_append [OF le0])
    then have "mset [0..<start ts (Suc n)] = mset [0..<start ts n] + mset [start ts n..<start ts (Suc n)]" by (metis mset_append)
    with Suc show ?case by simp
  qed simp
  then show ?thesis by (simp add: numbered_def)
qed

subsection \<open>Cyclic numbering\<close>

definition laid_ok :: "nat \<Rightarrow> nat \<Rightarrow> nat \<Rightarrow> laid \<Rightarrow> bool" where
  "laid_ok N n cnt = (\<lambda>(tds, ts, t). length tds = N \<and> length ts = N \<and> t \<le> cnt \<and> (\<forall>i<n. length (tds ! i) = unat (ts ! i))
     \<and> numbered n (\<lambda>i. map unat (tds ! i)) t)"

lemma laid_ok_sum: "laid_ok N n cnt (tds, ts, t) \<Longrightarrow> (\<Sum>i<n. unat (ts ! i)) = t"
  using numbered_size [of n "\<lambda>i. map unat (tds ! i)" t] by (simp add: laid_ok_def)

lemma put_task_ok:
  assumes "laid_ok N n cnt (tds, ts, t)" and "n \<le> N" "i < n" and "t < cnt" "cnt < 2 ^ 31" and "unat (ts ! i) < 65535"
  shows "\<exists>tds' ts'. put_task i (tds, ts, t) = Some (tds', ts', t + 1) \<and> laid_ok N n cnt (tds', ts', t + 1)
     \<and> unat (ts' ! i) = unat (ts ! i) + 1 \<and> (\<forall>k. k \<noteq> i \<longrightarrow> ts' ! k = ts ! k)"
proof -
  let ?row = "tds ! i @ [of_nat t]" and ?ts = "ts[i := ts ! i + 1]"
  have ok: "length tds = N" "length ts = N" "\<forall>i<n. length (tds ! i) = unat (ts ! i)" "numbered n (\<lambda>i. map unat (tds ! i)) t"
    using assms(1) by (auto simp: laid_ok_def)
  have a: "unat (ts ! i + 1) = unat (ts ! i) + 1" using assms(6) by (rule unat_Suc16)
  have "xrealloc (tds ! i) (unat (ts ! i) + 1) = tds ! i @ [0]"
    using ok(3) assms(3) by (simp add: xrealloc_def)
  then have "(xrealloc (tds ! i) (unat (ts ! i) + 1))[unat (ts ! i) := of_nat t] = ?row"
    using ok(3) assms(3) by (metis list_update_length)
  then have "put_task i (tds, ts, t) = Some (tds[i := ?row], ?ts, t + 1)"
    using ok assms by (simp add: put_task_def c_sem add_int_def xrealloc_def)
  moreover have "numbered n (\<lambda>k. map unat (tds[i := ?row] ! k)) (t + 1)"
    using ok assms by (intro numbered_add [OF ok(4), of i]) (auto simp: unat_nat32 unat_of_nat)
  moreover have "\<forall>k<n. length (tds[i := ?row] ! k) = unat (?ts ! k)"
    using ok assms a by (auto simp: nth_list_update)
  ultimately show ?thesis using ok assms a
    by (intro exI [of _ "tds[i := ?row]"] exI [of _ ?ts]) (simp add: laid_ok_def)
qed

text \<open>A node is served in cycle \<open>j\<close> while \<open>j\<close> is below its CPUs plus the allowed over-subscription \<open>M\<close>.\<close>

definition cyc_inv :: "u16 list \<Rightarrow> nat \<Rightarrow> nat \<Rightarrow> nat \<Rightarrow> nat \<Rightarrow> nat \<Rightarrow> laid \<times> bool \<Rightarrow> bool" where
  "cyc_inv cpus M N n cnt j s \<longleftrightarrow> laid_ok N n cnt (fst s) \<and> j \<le> snd (snd (fst s)) \<and> (0 < M \<longrightarrow> snd s)
     \<and> (snd (snd (fst s)) < cnt \<longrightarrow> (\<forall>i<n. unat (fst (snd (fst s)) ! i) = min j (unat (cpus ! i) + M)))"

text \<open>Inside a cycle, before node \<open>i\<close>; \<open>t0\<close> tasks were placed before the cycle.\<close>

definition cyc_mid :: "u16 list \<Rightarrow> nat \<Rightarrow> nat \<Rightarrow> nat \<Rightarrow> nat \<Rightarrow> nat \<Rightarrow> nat \<Rightarrow> nat \<Rightarrow> laid \<times> bool \<Rightarrow> bool" where
  "cyc_mid cpus M N n cnt j t0 i s \<longleftrightarrow> laid_ok N n cnt (fst s)
     \<and> (\<forall>k<n. unat (fst (snd (fst s)) ! k) = min (if k < i then j + 1 else j) (unat (cpus ! k) + M))
     \<and> (t0 < snd (snd (fst s)) \<or> t0 = snd (snd (fst s)) \<and> (\<forall>k<i. unat (cpus ! k) + M \<le> j))"

lemma cyclic_node_ok:
  assumes "cyc_mid cpus M N n cnt j t0 i s" and "i < n" "snd (snd (fst s)) < cnt" and "0 < M \<longrightarrow> ov"
    and "n \<le> N" "n \<le> length cpus" "cnt < 2 ^ 31" and "\<forall>i<n. unat (cpus ! i) + M \<le> 65535"
  shows "\<exists>s'. cyclic_node cpus (int M) j ov i s = Some s' \<and> cyc_mid cpus M N n cnt j t0 (Suc i) s'"
proof -
  obtain tds ts t space where s: "s = ((tds, ts, t), space)" by (metis prod.exhaust)
  let ?c = "unat (cpus ! i)"
  have cap: "?c + M \<le> 65535" using assms by blast
  have "int (?c + M) < 2 ^ 31" by (rule order.strict_trans1 [OF of_nat_mono [OF cap]]) simp
  then have "i32 (int ?c + int M) = Some (int ?c + int M)" by (intro i32_in) simp_all
  moreover have "int j < uint (cpus ! i) + int M \<longleftrightarrow> j < ?c + M" using of_nat_less_iff [of j "?c + M", where 'a = int] by simp
  ultimately have cond: "cyclic_node cpus (int M) j ov i s =
      (if j < ?c + M then do { q \<leftarrow> put_task i (tds, ts, t); Some (q, space \<or> j + 1 < ?c) } else Some s)"
    using assms(2,4,6) s by (auto simp: cyclic_node_def c_sem)
  have mid: "laid_ok N n cnt (tds, ts, t)" "\<forall>k<n. unat (ts ! k) = min (if k < i then j + 1 else j) (unat (cpus ! k) + M)"
    "t0 < t \<or> t0 = t \<and> (\<forall>k<i. unat (cpus ! k) + M \<le> j)" using assms(1) s by (auto simp: cyc_mid_def)
  show ?thesis
  proof (cases "j < ?c + M")
    case True
    then have tsi: "unat (ts ! i) = j" using mid(2) assms(2) by auto
    with put_task_ok [OF mid(1), of i] True cap assms s obtain tds' ts' where
      p: "put_task i (tds, ts, t) = Some (tds', ts', t + 1)" "laid_ok N n cnt (tds', ts', t + 1)"
        "unat (ts' ! i) = j + 1" "\<forall>k. k \<noteq> i \<longrightarrow> ts' ! k = ts ! k" by auto
    have "\<forall>k<n. unat (ts' ! k) = min (if k < Suc i then j + 1 else j) (unat (cpus ! k) + M)"
    proof (intro allI impI)
      fix k assume "k < n"
      with mid(2) p(3,4) True show "unat (ts' ! k) = min (if k < Suc i then j + 1 else j) (unat (cpus ! k) + M)"
        by (cases "k = i") auto
    qed
    with p cond True mid(3) show ?thesis by (auto simp: cyc_mid_def)
  next
    case False
    have "\<forall>k<n. unat (ts ! k) = min (if k < Suc i then j + 1 else j) (unat (cpus ! k) + M)"
      using mid(2) False by (auto simp: less_Suc_eq)
    with cond False mid s show ?thesis by (auto simp: cyc_mid_def less_Suc_eq)
  qed
qed

lemma cyclic_cycle_ok:
  assumes "snd (snd (fst s)) < cnt" "cyc_inv cpus M N n cnt j s" and "n \<le> N" "n \<le> length cpus" "cnt < 2 ^ 31"
    and "\<forall>i<n. unat (cpus ! i) + M \<le> 65535" "cnt \<le> (\<Sum>i<n. unat (cpus ! i) + M)"
  shows "\<exists>s'. cyclic_cycle cpus n cnt (int M) j s = Some s' \<and> cyc_inv cpus M N n cnt (j + 1) s'
     \<and> cnt - snd (snd (fst s')) < cnt - snd (snd (fst s))"
proof -
  let ?g = "\<lambda>s::laid \<times> bool. snd (snd (fst s)) < cnt" and ?t0 = "snd (snd (fst s))"
  let ?I = "cyc_mid cpus M N n cnt j ?t0"
  have "?I 0 (fst s, False)" using assms(1,2) by (auto simp: cyc_inv_def cyc_mid_def)
  moreover have "\<exists>p'. cyclic_node cpus (int M) j (snd s) i p = Some p' \<and> ?I (Suc i) p'" if "i < n" "?g p" "?I i p" for i p
    using cyclic_node_ok [OF that(3,1,2)] assms by (auto simp: cyc_inv_def)
  ultimately obtain i p where p: "for_while ?g (cyclic_node cpus (int M) j (snd s)) 0 n (fst s, False) = Some p" "?I i p" "?g p \<longrightarrow> i = n"
    using for_while_rule [of 0 n ?I "(fst s, False)" ?g "cyclic_node cpus (int M) j (snd s)"] by blast
  obtain tds ts t space where pp: "p = ((tds, ts, t), space)" by (metis prod.exhaust)
  have lok: "laid_ok N n cnt (tds, ts, t)" using p(2) pp by (simp add: cyc_mid_def)
  have more: "?t0 < t"
  proof (rule ccontr)
    assume no: "\<not> ?t0 < t"
    then have "i = n" "\<forall>k<n. unat (cpus ! k) + M \<le> j" using p assms(1) pp by (auto simp: cyc_mid_def)
    then have "\<forall>k<n. unat (ts ! k) = unat (cpus ! k) + M" using p(2) pp by (auto simp: cyc_mid_def)
    then have "cnt \<le> t" using laid_ok_sum [OF lok] assms(7) by (simp add: sum.distrib)
    with no assms(1) show False by simp
  qed
  moreover have "t < cnt \<longrightarrow> (\<forall>k<n. unat (ts ! k) = min (j + 1) (unat (cpus ! k) + M))"
    using p(2,3) pp by (auto simp: cyc_mid_def)
  ultimately have "cyc_inv cpus M N n cnt (j + 1) ((tds, ts, t), snd s \<or> \<not> space)"
    using assms(2) lok by (auto simp: cyc_inv_def)
  with p(1) pp more assms(1) show ?thesis by (auto simp: cyclic_cycle_def)
qed

lemma cyclic_cycles_ok:
  assumes "laid_ok N n cnt (tds, ts, 0)" and "0 < M \<longrightarrow> ov" and "n \<le> N" "n \<le> length cpus" "cnt < 2 ^ 31"
    and "\<forall>i<n. unat (cpus ! i) + M \<le> 65535" "cnt \<le> (\<Sum>i<n. unat (cpus ! i) + M)"
  shows "\<exists>tds' ts' ov'. cycles (\<lambda>s. snd (snd (fst s)) < cnt) (cyclic_cycle cpus n cnt (int M)) 0 ((tds, ts, 0), ov) = Some ((tds', ts', cnt), ov')
     \<and> laid_ok N n cnt (tds', ts', cnt)"
proof -
  let ?I = "cyc_inv cpus M N n cnt"
  have "\<forall>i<n. unat (ts ! i) = 0" using laid_ok_sum [OF assms(1)] by simp
  then have "?I 0 ((tds, ts, 0), ov)" using assms(1,2) by (auto simp: cyc_inv_def)
  then have "\<exists>j s. cycles (\<lambda>s. snd (snd (fst s)) < cnt) (cyclic_cycle cpus n cnt (int M)) 0 ((tds, ts, 0), ov) = Some s
      \<and> ?I j s \<and> \<not> snd (snd (fst s)) < cnt"
  proof (rule cycles_rule [where m = "\<lambda>s. cnt - snd (snd (fst s))"])
    fix j s assume l: "snd (snd (fst s)) < cnt" "?I j s"
    then have "j + 1 < 2 ^ 31" using assms(5) by (auto simp: cyc_inv_def)
    with cyclic_cycle_ok [OF l] assms
    show "j + 1 < 2 ^ 31 \<and> (\<exists>s'. cyclic_cycle cpus n cnt (int M) j s = Some s' \<and> ?I (j + 1) s' \<and> cnt - snd (snd (fst s')) < cnt - snd (snd (fst s)))"
      by blast
  qed
  then obtain j tds' ts' t ov' where r: "cycles (\<lambda>s. snd (snd (fst s)) < cnt) (cyclic_cycle cpus n cnt (int M)) 0 ((tds, ts, 0), ov)
      = Some ((tds', ts', t), ov')" "?I j ((tds', ts', t), ov')" "\<not> t < cnt" by (metis fst_conv snd_conv prod.exhaust)
  then have "t = cnt" by (simp add: cyc_inv_def laid_ok_def)
  with r show ?thesis by (auto simp: cyc_inv_def)
qed

lemma total_cpus_ok:
  assumes "n \<le> length cpus" "(\<Sum>i<n. unat (cpus ! i)) < 2 ^ 31"
  shows "for_upto (\<lambda>i s. do { c \<leftarrow> mem_get cpus i; add_int s (unat c) }) 0 n 0 = Some (\<Sum>i<n. unat (cpus ! i))"
proof -
  let ?I = "\<lambda>i s. s = (\<Sum>k<i. unat (cpus ! k))" and ?f = "\<lambda>i s. do { c \<leftarrow> mem_get cpus i; add_int s (unat c) }"
  have "\<exists>s'. ?f i s = Some s' \<and> ?I (Suc i) s'" if "i < n" "?I i s" for i s
  proof -
    have "(\<Sum>k<Suc i. unat (cpus ! k)) \<le> (\<Sum>k<n. unat (cpus ! k))" using that(1) by (intro sum_mono2) auto
    with that assms show ?thesis by (simp add: c_sem add_int_def)
  qed
  with for_upto_rule [of 0 n ?I 0 ?f] show ?thesis by auto
qed

lemma ROUNDUP_ok:
  assumes "unat d < 2 ^ 31" "0 < unat n" "unat n < 2 ^ 31"
  shows "unat (ROUNDUP d n) = (unat d + unat n - 1) div unat n" "sint (ROUNDUP d n) = int ((unat d + unat n - 1) div unat n)"
proof -
  have "unat (n - 1) = unat n - 1" using assms by (simp add: unat_minus_one unat_gt_0)
  then have "unat (d + (n - 1)) = unat d + (unat n - 1)" using assms by (simp add: unat_add_lem [THEN iffD1])
  then show r: "unat (ROUNDUP d n) = (unat d + unat n - 1) div unat n" using assms by (simp add: ROUNDUP_def unat_div)
  have "(unat d + unat n - 1) div unat n < 2 ^ 31"
  proof -
    have "unat d + unat n - 1 < unat n * 2 ^ 31" using assms by (cases "unat n") auto
    then show ?thesis by (simp add: less_mult_imp_div_less mult.commute)
  qed
  then have "int (unat (ROUNDUP d n)) < int (2 ^ 31)" unfolding r by (simp only: of_nat_less_iff)
  moreover have "- 2147483648 \<le> uint (ROUNDUP d n)" by (rule order_trans [of _ 0]) simp_all
  ultimately have "sint (ROUNDUP d n) = int (unat (ROUNDUP d n))"
    by (simp add: sint_uint signed_take_bit_int_eq_self_iff)
  with r show "sint (ROUNDUP d n) = int ((unat d + unat n - 1) div unat n)" by simp
qed

subsection \<open>Plane numbering\<close>

text \<open>The first \<open>cur ! i\<close> cells of each row are numbered.\<close>

definition plane_inv :: "u16 list \<Rightarrow> nat \<Rightarrow> nat \<Rightarrow> nat \<Rightarrow> u32 list list \<times> nat list \<times> nat \<Rightarrow> bool" where
  "plane_inv ts N n cnt = (\<lambda>(tds, cur, t). length tds = N \<and> length cur = n \<and> t \<le> cnt
     \<and> (\<forall>i<n. length (tds ! i) = unat (ts ! i) \<and> cur ! i \<le> unat (ts ! i))
     \<and> numbered n (\<lambda>i. map unat (take (cur ! i) (tds ! i))) t)"

lemma plane_inv_sum: "plane_inv ts N n cnt (tds, cur, t) \<Longrightarrow> (\<Sum>i<n. cur ! i) = t"
  using numbered_size [of n "\<lambda>i. map unat (take (cur ! i) (tds ! i))" t] by (auto simp: plane_inv_def min_def intro!: sum.cong)

lemma plane_block_ok:
  assumes "plane_inv ts N n cnt (tds, cur, t)" and "i < n" "n \<le> N" "0 < ps" "cnt < 2 ^ 31" "t < cnt"
  shows "\<exists>row' c' t'. plane_block ps cnt (unat (ts ! i)) (tds ! i, cur ! i, t) = Some (row', c', t')
     \<and> plane_inv ts N n cnt (tds[i := row'], cur[i := c'], t') \<and> t \<le> t' \<and> (t = t' \<longrightarrow> c' = cur ! i \<and> cur ! i = unat (ts ! i))"
proof -
  let ?a = "unat (ts ! i)"
  let ?g = "\<lambda>(row::u32 list, c, t). c < ?a \<and> t < cnt"
  let ?f = "\<lambda>k::nat. \<lambda>(row, c, t). do { row \<leftarrow> mem_set row c (of_nat t); t \<leftarrow> add_int t 1; Some (row, c + 1, t) }"
  let ?I = "\<lambda>k (row, c, t'). plane_inv ts N n cnt (tds[i := row], cur[i := c], t') \<and> t + k = t' \<and> c = cur ! i + k"
  have step: "\<exists>s'. ?f k s = Some s' \<and> ?I (Suc k) s'" if l: "k < ps" "?g s" "?I k s" for k s
  proof -
    obtain row c u where s: "s = (row, c, u)" by (metis prod.exhaust)
    have inv: "plane_inv ts N n cnt (tds[i := row], cur[i := c], u)" and c: "c < ?a" "u < cnt" using l s by auto
    have len: "length tds = N" "length cur = n" using assms(1) by (auto simp: plane_inv_def)
    have row: "length row = ?a" using inv assms len by (auto simp: plane_inv_def dest: spec [of _ i])
    let ?R = "\<lambda>k. map unat (take (cur[i := c] ! k) (tds[i := row] ! k))"
    have nb: "numbered n ?R u" using inv by (simp add: plane_inv_def)
    have "numbered n (\<lambda>k. map unat (take (cur[i := c + 1] ! k) (tds[i := row[c := of_nat u]] ! k))) (u + 1)"
      using nb assms(2)
    proof (rule numbered_add)
      show "map unat (take (cur[i := c + 1] ! i) (tds[i := row[c := of_nat u]] ! i)) = ?R i @ [u]"
        using assms len row c by (simp add: take_Suc_conv_app_nth unat_of_nat)
    qed simp
    then have "plane_inv ts N n cnt (tds[i := row[c := of_nat u]], cur[i := c + 1], u + 1)"
      using inv c row len assms by (auto simp: plane_inv_def nth_list_update split: if_splits)
    with l s c row assms show ?thesis by (auto simp: mem_set_def add_int_def)
  qed
  have "?I 0 (tds ! i, cur ! i, t)" using assms(1) by simp
  from for_while_rule [of 0 ps ?I "(tds ! i, cur ! i, t)" ?g ?f, OF le0 this step]
  obtain k s where s: "plane_block ps cnt ?a (tds ! i, cur ! i, t) = Some s" "?I k s" "?g s \<longrightarrow> k = ps"
    unfolding plane_block_def by blast
  obtain row' c' t' where s': "s = (row', c', t')" by (metis prod.exhaust)
  have "cur ! i \<le> ?a" using assms(1,2) by (simp add: plane_inv_def)
  with s s' assms(4,6) show ?thesis by (intro exI [of _ row'] exI [of _ c'] exI [of _ t']) auto
qed

lemma plane_number_ok:
  assumes "plane_inv ts N n cnt (tds, cur, t)" "t < cnt" and "n \<le> N" "n \<le> length ts" "0 < ps" "cnt < 2 ^ 31" and "(\<Sum>i<n. unat (ts ! i)) = cnt"
  shows "\<exists>tds' cur' t'. plane_number ps n cnt ts j (tds, cur, t) = Some (tds', cur', t') \<and> plane_inv ts N n cnt (tds', cur', t') \<and> t < t'"
proof -
  let ?g = "\<lambda>(tds::u32 list list, cur::nat list, t). t < cnt"
  let ?f = "\<lambda>i (tds, cur, t). do { a \<leftarrow> mem_get ts i; c \<leftarrow> mem_get cur i; row \<leftarrow> mem_get tds i;
     (row, c, t) \<leftarrow> plane_block ps cnt (unat a) (row, c, t); tds \<leftarrow> mem_set tds i row; cur \<leftarrow> mem_set cur i c; Some (tds, cur, t) }"
  let ?I = "\<lambda>i (tds, cur, u). plane_inv ts N n cnt (tds, cur, u) \<and> t \<le> u \<and> (t = u \<longrightarrow> (\<forall>k<i. cur ! k = unat (ts ! k)))"
  have step: "\<exists>s'. ?f i s = Some s' \<and> ?I (Suc i) s'" if l: "i < n" "?g s" "?I i s" for i s
  proof -
    obtain tds1 cur1 u where s: "s = (tds1, cur1, u)" by (metis prod.exhaust)
    from plane_block_ok [of ts N n cnt tds1 cur1 u i ps] l s assms obtain row' c' t' where
      b: "plane_block ps cnt (unat (ts ! i)) (tds1 ! i, cur1 ! i, u) = Some (row', c', t')"
        "plane_inv ts N n cnt (tds1[i := row'], cur1[i := c'], t')" "u \<le> t'" "u = t' \<longrightarrow> c' = cur1 ! i \<and> cur1 ! i = unat (ts ! i)" by auto
    have len: "i < length tds1" "i < length cur1" using l s assms by (auto simp: plane_inv_def)
    then have "?f i s = Some (tds1[i := row'], cur1[i := c'], t')" using b(1) l s assms by (simp add: c_sem)
    with b l s len show ?thesis by (auto simp: less_Suc_eq nth_list_update)
  qed
  have "?I 0 (tds, cur, t)" using assms(1) by simp
  from for_while_rule [of 0 n ?I "(tds, cur, t)" ?g ?f, OF le0 this step]
  obtain i s where s: "plane_number ps n cnt ts j (tds, cur, t) = Some s" "?I i s" "?g s \<longrightarrow> i = n"
    unfolding plane_number_def by blast
  obtain tds' cur' t' where s': "s = (tds', cur', t')" by (metis prod.exhaust)
  have "t < t'"
  proof (rule ccontr)
    assume no: "\<not> t < t'"
    with s s' assms(2) have "\<forall>k<n. cur' ! k = unat (ts ! k)" "plane_inv ts N n cnt (tds', cur', t')" "t' < cnt" by auto
    with plane_inv_sum [of ts N n cnt tds' cur' t'] assms(7) show False by simp
  qed
  with s s' show ?thesis by auto
qed

lemma plane_cycles_ok:
  assumes "\<forall>i<n. length (tds ! i) = unat (ts ! i)" "length tds = N" and "n \<le> N" "n \<le> length ts" "0 < ps" "cnt < 2 ^ 31" and "(\<Sum>i<n. unat (ts ! i)) = cnt"
  shows "\<exists>tds' cur'. cycles (\<lambda>(tds, cur, t). t < cnt) (plane_number ps n cnt ts) 0 (tds, replicate n 0, 0) = Some (tds', cur', cnt)
     \<and> length tds' = N \<and> (\<forall>i<n. length (tds' ! i) = unat (ts ! i)) \<and> numbered n (\<lambda>i. map unat (tds' ! i)) cnt"
proof -
  let ?g = "\<lambda>(tds::u32 list list, cur::nat list, t). t < cnt"
  let ?I = "\<lambda>j s. plane_inv ts N n cnt s \<and> j \<le> snd (snd s)"
  have "numbered n (\<lambda>i. map unat (take (replicate n 0 ! i) (tds ! i))) 0 = numbered n (\<lambda>i. []) 0" by (rule numbered_cong) simp
  then have "?I 0 (tds, replicate n 0, 0)" using assms numbered_0 by (auto simp: plane_inv_def)
  then have "\<exists>j s. cycles ?g (plane_number ps n cnt ts) 0 (tds, replicate n 0, 0) = Some s \<and> ?I j s \<and> \<not> ?g s"
  proof (rule cycles_rule [where m = "\<lambda>s. cnt - snd (snd s)"])
    fix j s assume l: "?g s" "?I j s"
    obtain tds1 cur1 u where s: "s = (tds1, cur1, u)" by (metis prod.exhaust)
    with plane_number_ok [of ts N n cnt tds1 cur1 u ps j] l assms obtain tds' cur' t' where
      r: "plane_number ps n cnt ts j s = Some (tds', cur', t')" "plane_inv ts N n cnt (tds', cur', t')" "u < t'" by auto
    with l s assms(6) show "j + 1 < 2 ^ 31 \<and> (\<exists>s'. plane_number ps n cnt ts j s = Some s' \<and> ?I (j + 1) s' \<and> cnt - snd (snd s') < cnt - snd (snd s))"
      by auto
  qed
  then obtain j s where js: "cycles ?g (plane_number ps n cnt ts) 0 (tds, replicate n 0, 0) = Some s" "?I j s" "\<not> ?g s" by blast
  obtain tds' cur' t where "s = (tds', cur', t)" by (metis prod.exhaust)
  with js have r: "cycles ?g (plane_number ps n cnt ts) 0 (tds, replicate n 0, 0) = Some (tds', cur', t)"
    "plane_inv ts N n cnt (tds', cur', t)" "\<not> t < cnt" by simp_all
  then have t: "t = cnt" by (simp add: plane_inv_def)
  have "\<forall>i<n. cur' ! i = unat (ts ! i)"
  proof -
    have le: "\<And>i. i \<in> {..<n} \<Longrightarrow> cur' ! i \<le> unat (ts ! i)" using r(2) by (simp add: plane_inv_def)
    have "(\<Sum>i<n. cur' ! i) = (\<Sum>i<n. unat (ts ! i))" using plane_inv_sum [OF r(2)] t assms(7) by simp
    from sum_mono_inv [OF this le] show ?thesis by blast
  qed
  then have "numbered n (\<lambda>i. map unat (take (cur' ! i) (tds' ! i))) cnt = numbered n (\<lambda>i. map unat (tds' ! i)) cnt"
    using r(2) by (intro numbered_cong) (auto simp: plane_inv_def)
  with r t show ?thesis by (auto simp: plane_inv_def)
qed

end
