(* ===== verification/Step_Layout_Props.thy ===== *)
theory Step_Layout_Props
  imports Step_Layout_Number
begin

text \<open>
  The layouts that \<open>slurm_step_layout_create\<close> returns. \<open>layout_ok\<close> is the invariant of a complete layout: every task of the
  step is on exactly one node, and the counts agree with the rows. The block, cyclic and plane distributions
  are shown to produce one for every well-formed request, and \<open>slurm_step_layout_host_id\<close> to find the node of each task in it.
\<close>

subsection \<open>Complete layouts\<close>

definition layout_ok :: "slurm_step_layout \<Rightarrow> bool" where
  "layout_ok l \<longleftrightarrow> (let n = unat (node_cnt l) in
     n \<le> length (tasks l) \<and> n \<le> length (tids l)
     \<and> (\<forall>i<n. length (tids l ! i) = unat (tasks l ! i) \<and> sorted_wrt (<) (tids l ! i))
     \<and> mset (map unat (concat (take n (tids l)))) = mset [0..<unat (task_cnt l)])"

lemma mset_rows: "n \<le> length tds \<Longrightarrow> mset (map unat (concat (take n tds))) = (\<Sum>i<n. mset (map unat (tds ! i)))"
proof (induction n)
  case (Suc n)
  then have "take (Suc n) tds = take n tds @ [tds ! n]" by (simp add: take_Suc_conv_app_nth)
  with Suc show ?case by simp
qed simp

lemma numbered_layout:
  assumes "laid_ok N n cnt (tds, ts, cnt)" and "n \<le> N" "unat (node_cnt l) = n" "unat (task_cnt l) = cnt"
  shows "layout_ok (l\<lparr> tasks := ts, tids := tds \<rparr>)"
proof -
  have ok: "length tds = N" "length ts = N" "\<forall>i<n. length (tds ! i) = unat (ts ! i)" "numbered n (\<lambda>i. map unat (tds ! i)) cnt"
    using assms(1) by (auto simp: laid_ok_def)
  have "\<forall>i<n. sorted_wrt (<) (tds ! i)"
    using ok(4) by (auto simp: numbered_def sorted_wrt_map word_less_nat_alt elim!: sorted_wrt_mono_rel [rotated])
  with ok assms mset_rows [of n tds] show ?thesis by (simp add: layout_ok_def numbered_def)
qed

subsection \<open>The distributions\<close>

text \<open>The layout before any task is placed.\<close>

definition fresh :: "nat \<Rightarrow> slurm_step_layout \<Rightarrow> bool" where
  "fresh N l \<longleftrightarrow> tasks l = replicate N 0 \<and> tids l = replicate N [] \<and> 0 < unat (node_cnt l) \<and> unat (node_cnt l) \<le> N"

lemma fresh_counts: "fresh N l \<Longrightarrow> counts N (unat (node_cnt l)) cnt (tasks l, 0)"
  by (simp add: fresh_def counts_def)

lemma task_layout_block_ok:
  assumes "fresh N l" and "unat (node_cnt l) \<le> length cpus" "unat (task_cnt l) + 1 < 2 ^ 31"
    and "fits16 cpus (unat (node_cnt l)) (unat (task_cnt l)) 1"
  shows "\<exists>ts tds. task_layout_block conf sp l cpus = Some (SLURM_SUCCESS, l\<lparr> tasks := ts, tids := tds \<rparr>)
     \<and> layout_ok (l\<lparr> tasks := ts, tids := tds \<rparr>) \<and> map unat (concat (take (unat (node_cnt l)) tds)) = [0..<unat (task_cnt l)]"
proof -
  let ?n = "unat (node_cnt l)" and ?cnt = "unat (task_cnt l)"
  note fr = assms(1) [unfolded fresh_def]
  let ?sp = "if sp = NO_VAL16 then conf else sp"
  obtain q where q: "(if pack_nodes ?sp (task_dist l)
       then do { q \<leftarrow> pack_pass1 cpus ?n ?cnt (tasks l, 0); q \<leftarrow> pack_pass2 cpus ?n ?cnt q; pack_pass3 ?n ?cnt q }
       else do { s \<leftarrow> cycles (\<lambda>s. snd (fst s) < ?cnt) (block_cycle cpus ?n ?cnt) 0 ((tasks l, 0), False); Some (fst s) }) = Some q"
    "counts N ?n ?cnt q" "snd q = ?cnt"
    using pack_counts_ok [OF fresh_counts [OF assms(1)]] block_counts_ok [OF fresh_counts [OF assms(1)]] assms fr
    by (cases "pack_nodes ?sp (task_dist l)") fastforce+
  have st: "start (fst q) ?n = ?cnt" "length (fst q) = N" using q by (auto simp: counts_def start_def)
  from number_tasks_ok [of ?n "fst q" "tids l"] fr st assms obtain tds where
    tds: "number_tasks ?n (fst q) (tids l) = Some (tds, ?cnt)" "length tds = N"
      "\<forall>i<?n. tds ! i = map of_nat [start (fst q) i..<start (fst q) (Suc i)]" by auto
  have row: "map unat (tds ! i) = [start (fst q) i..<start (fst q) (Suc i)]" if "i < ?n" for i
  proof -
    have "start (fst q) (Suc i) < 2 ^ 31" using start_mono [of "Suc i" ?n "fst q"] that st assms(3) by simp
    with tds(3) that show ?thesis by (auto simp: unat_of_nat intro!: map_idI)
  qed
  have "numbered ?n (\<lambda>i. map unat (tds ! i)) ?cnt"
    using start_numbered [of ?n "fst q"] st row by (subst numbered_cong [OF row]) simp_all
  then have "laid_ok N ?n ?cnt (tds, fst q, ?cnt)" using tds st row by (auto simp: laid_ok_def dest: arg_cong [of _ _ length])
  then have "layout_ok (l\<lparr> tasks := fst q, tids := tds \<rparr>)" using fr by (intro numbered_layout) auto
  moreover have "map unat (concat (take m tds)) = [0..<start (fst q) m]" if "m \<le> ?n" for m
    using that
  proof (induction m)
    case (Suc m)
    then have "take (Suc m) tds = take m tds @ [tds ! m]" using tds(2) fr by (simp add: take_Suc_conv_app_nth)
    moreover have "[0..<start (fst q) (Suc m)] = [0..<start (fst q) m] @ [start (fst q) m..<start (fst q) (Suc m)]"
      by (simp only: start_Suc upt_add_eq_append [OF le0])
    ultimately show ?case using Suc row [of m] by simp
  qed simp
  ultimately show ?thesis using q tds st unfolding task_layout_block_def Let_def by (intro exI [of _ "fst q"] exI [of _ tds]) simp
qed

text \<open>The number of extra tasks per node is enough for all tasks and not more than one round above the average.\<close>

lemma over_subscription:
  fixes cnt tot n :: nat
  assumes "0 < n" "tot < cnt"
  defines "m \<equiv> (cnt - tot + n - 1) div n"
  shows "cnt \<le> tot + n * m" "m \<le> cnt div n + 1"
proof -
  have "cnt - tot \<le> n * m"
  proof -
    have "cnt - tot + n - 1 = n * m + (cnt - tot + n - 1) mod n" by (simp add: m_def)
    moreover have "(cnt - tot + n - 1) mod n \<le> n - 1" using assms(1) by (metis Suc_pred' less_Suc_eq_le mod_less_divisor)
    ultimately show ?thesis using assms(1) by linarith
  qed
  then show "cnt \<le> tot + n * m" using assms(2) by simp
  have "m \<le> (cnt + n) div n" unfolding m_def by (intro div_le_mono) simp
  then show "m \<le> cnt div n + 1" using assms(1) by (simp add: div_add_self2)
qed

lemma task_layout_cyclic_ok:
  assumes "fresh N l" and "unat (node_cnt l) \<le> length cpus" "unat (task_cnt l) + 1 < 2 ^ 31" "unat (node_cnt l) < 2 ^ 31"
    and "fits16 cpus (unat (node_cnt l)) (unat (task_cnt l)) 1" and "(\<Sum>i<unat (node_cnt l). unat (cpus ! i)) < 2 ^ 31"
  shows "\<exists>ts tds. task_layout_cyclic l cpus = Some (SLURM_SUCCESS, l\<lparr> tasks := ts, tids := tds \<rparr>)
     \<and> layout_ok (l\<lparr> tasks := ts, tids := tds \<rparr>)"
proof -
  let ?n = "unat (node_cnt l)" and ?cnt = "unat (task_cnt l)"
  let ?tot = "\<Sum>i<?n. unat (cpus ! i)" and ?ov = "(\<Sum>i<unat (node_cnt l). unat (cpus ! i)) < unat (task_cnt l)"
  define M where "M = (if ?ov then (?cnt - ?tot + ?n - 1) div ?n else 0)"
  note fr = assms(1) [unfolded fresh_def]
  have d: "unat (task_cnt l - of_nat ?tot) = ?cnt - ?tot" if ?ov
    using that assms(6) by (simp add: unat_sub word_le_nat_alt unat_of_nat del: of_nat_sum)
  have over: "(if ?ov then sint (ROUNDUP (task_cnt l - of_nat ?tot) (node_cnt l)) else 0) = int M"
    using ROUNDUP_ok(2) [of "task_cnt l - of_nat ?tot" "node_cnt l"] d assms(3,4) fr by (simp add: M_def del: of_nat_sum)
  have bound: "unat (cpus ! i) + M \<le> 65535" if "i < ?n" for i
  proof -
    have "M \<le> ?cnt div ?n + 1" using over_subscription(2) [of ?n ?tot ?cnt] fr by (simp add: M_def)
    moreover have "unat (cpus ! i) + (?cnt div ?n + 1) \<le> 65535" using assms(5) that by (simp add: fits16_def)
    ultimately show ?thesis by linarith
  qed
  have enough: "?cnt \<le> (\<Sum>i<?n. unat (cpus ! i) + M)"
    using over_subscription(1) [of ?n ?tot ?cnt] fr by (simp add: M_def sum.distrib)
  have "laid_ok N ?n ?cnt (tids l, tasks l, 0)"
    using fr numbered_0 numbered_cong [of ?n "\<lambda>i. map unat (tids l ! i)" "\<lambda>i. []"] by (auto simp: laid_ok_def)
  moreover have "0 < M \<longrightarrow> ?ov" by (simp add: M_def)
  moreover have "?n \<le> N" "?cnt < 2 ^ 31" using fr assms(3) by auto
  ultimately obtain tds ts ov' where
    r: "cycles (\<lambda>s. snd (snd (fst s)) < ?cnt) (cyclic_cycle cpus ?n ?cnt (int M)) 0 ((tids l, tasks l, 0), ?ov) = Some ((tds, ts, ?cnt), ov')"
      "laid_ok N ?n ?cnt (tds, ts, ?cnt)" using cyclic_cycles_ok [of N ?n ?cnt "tids l" "tasks l" M ?ov cpus] assms(2) bound enough by blast
  have "task_layout_cyclic l cpus = Some (SLURM_SUCCESS, l\<lparr> tasks := ts, tids := tds \<rparr>)"
    unfolding task_layout_cyclic_def Let_def total_cpus_ok [OF assms(2,6)] bind.bind_lunit over r(1) by simp
  moreover have "layout_ok (l\<lparr> tasks := ts, tids := tds \<rparr>)" using r(2) fr by (intro numbered_layout) auto
  ultimately show ?thesis by blast
qed

lemma alloc_rows_ok:
  assumes "n \<le> length ts" "n \<le> length tds"
  shows "\<exists>tds'. for_upto (\<lambda>i tds. do { a \<leftarrow> mem_get ts i; mem_set tds i (replicate (unat a) 0) }) 0 n tds = Some tds'
     \<and> length tds' = length tds \<and> (\<forall>i<n. tds' ! i = replicate (unat (ts ! i)) (0::u32))"
proof -
  let ?I = "\<lambda>i t. length t = length tds \<and> (\<forall>k<i. t ! k = replicate (unat (ts ! k)) (0::u32))"
  let ?f = "\<lambda>i tds. do { a \<leftarrow> mem_get ts i; mem_set tds i (replicate (unat a) 0) }"
  have "\<exists>t'. ?f i t = Some t' \<and> ?I (Suc i) t'" if "i < n" "?I i t" for i t
    using that assms by (auto simp: c_sem less_Suc_eq)
  with for_upto_rule [of 0 n ?I tds ?f] show ?thesis by auto
qed

lemma task_layout_plane_ok:
  assumes "fresh N l" and "unat (node_cnt l) \<le> length cpus" "unat (task_cnt l) + 1 < 2 ^ 31" and "plane_size l \<noteq> 0"
    and "fits16 cpus (unat (node_cnt l)) (unat (task_cnt l)) (unat (plane_size l))" and "\<forall>i<unat (node_cnt l). 0 < cpus ! i"
  shows "\<exists>ts tds. task_layout_plane l cpus = Some (SLURM_SUCCESS, l\<lparr> tasks := ts, tids := tds \<rparr>)
     \<and> layout_ok (l\<lparr> tasks := ts, tids := tds \<rparr>)"
proof -
  let ?n = "unat (node_cnt l)" and ?cnt = "unat (task_cnt l)" and ?ps = "unat (plane_size l)"
  note fr = assms(1) [unfolded fresh_def]
  have ps: "0 < ?ps" using assms(4) by (simp add: unat_gt_0)
  from plane_counts_ok [OF fresh_counts [OF assms(1)]] assms fr ps obtain s where
    s: "cycles (\<lambda>s. snd (fst s) < ?cnt) (plane_cycle cpus ?n ?cnt ?ps) 0 ((tasks l, 0), False) = Some s"
      "counts N ?n ?cnt (fst s)" "snd (fst s) = ?cnt" by blast
  let ?ts = "fst (fst s)"
  have ts: "length ?ts = N" "(\<Sum>i<?n. unat (?ts ! i)) = ?cnt" using s by (auto simp: counts_def)
  from alloc_rows_ok [of ?n ?ts "tids l"] ts fr obtain tds1 where
    tds1: "for_upto (\<lambda>i tds. do { a \<leftarrow> mem_get ?ts i; mem_set tds i (replicate (unat a) 0) }) 0 ?n (tids l) = Some tds1"
      "length tds1 = N" "\<forall>i<?n. length (tds1 ! i) = unat (?ts ! i)" by auto
  from plane_cycles_ok [OF tds1(3,2), of ?ps ?cnt] ts fr ps assms obtain tds cur where
    r: "cycles (\<lambda>(tds, cur, t). t < ?cnt) (plane_number ?ps ?n ?cnt ?ts) 0 (tds1, replicate ?n 0, 0) = Some (tds, cur, ?cnt)"
      "length tds = N" "\<forall>i<?n. length (tds ! i) = unat (?ts ! i)" "numbered ?n (\<lambda>i. map unat (tds ! i)) ?cnt" by auto
  have "laid_ok N ?n ?cnt (tds, ?ts, ?cnt)" using r ts by (simp add: laid_ok_def)
  then have "layout_ok (l\<lparr> tasks := ?ts, tids := tds \<rparr>)" using fr by (intro numbered_layout) auto
  moreover have "task_layout_plane l cpus = Some (SLURM_SUCCESS, l\<lparr> tasks := ?ts, tids := tds \<rparr>)"
    using s(1) tds1(1) r(1) ps fr by (simp add: task_layout_plane_def)
  ultimately show ?thesis by blast
qed

subsection \<open>Requests\<close>

text \<open>A run-length encoded array of the request reaches over \<open>n\<close> nodes; an entry for no node counts as one.\<close>

definition reps_total :: "u32 list \<Rightarrow> nat \<Rightarrow> nat" where
  "reps_total reps inx = (\<Sum>k<inx. max 1 (unat (reps ! k)))"

definition reps_cover :: "u32 list \<Rightarrow> nat \<Rightarrow> bool" where
  "reps_cover reps n \<longleftrightarrow> n \<le> reps_total reps (length reps)"

definition reps_at :: "u32 list \<Rightarrow> nat \<Rightarrow> nat \<Rightarrow> nat \<Rightarrow> bool" where
  "reps_at reps i cnt inx \<longleftrightarrow> reps_total reps inx + cnt = i \<and> inx \<le> length reps
     \<and> (if inx < length reps then cnt < max 1 (unat (reps ! inx)) else cnt = 0)"

lemma reps_at_0: "reps_at reps 0 0 0"
  by (simp add: reps_at_def reps_total_def less_max_iff_disj)

lemma reps_at_next:
  assumes "reps_at reps i cnt inx" "i < n" "reps_cover reps n"
  shows "inx < length reps \<and> (\<exists>cnt' inx'. next_rep reps cnt inx = Some (cnt', inx') \<and> reps_at reps (Suc i) cnt' inx')"
proof -
  have inx: "inx < length reps"
  proof (rule ccontr)
    assume "\<not> inx < length reps"
    with assms(1) have "reps_total reps (length reps) = i" by (auto simp: reps_at_def)
    with assms(2,3) show False by (simp add: reps_cover_def)
  qed
  let ?r = "unat (reps ! inx)"
  have cnt: "reps_total reps inx + cnt = i" "cnt < max 1 ?r" using assms(1) inx by (auto simp: reps_at_def)
  show ?thesis
  proof (cases "?r \<le> cnt + 1")
    case True
    then have "max 1 ?r = cnt + 1" using cnt(2) by linarith
    then have "reps_total reps (Suc inx) = Suc i" using cnt(1) by (simp add: reps_total_def)
    with True inx show ?thesis by (auto simp: next_rep_def c_sem reps_at_def)
  next
    case False
    with inx cnt show ?thesis by (auto simp: next_rep_def c_sem reps_at_def)
  qed
qed

lemma node_cpus_ok:
  assumes "cpt \<noteq> 0"
  shows "\<exists>c. node_cpus psize dist cpn cpt = Some c \<and> unat c \<le> max 1 (unat cpn)
     \<and> (dist AND SLURM_DIST_STATE_BASE = SLURM_DIST_PLANE \<longrightarrow> 0 < c)"
proof -
  define c where "c = (if cpn div cpt = 0 then 1 else cpn div cpt)"
  have le: "unat c \<le> max 1 (unat cpn)" by (auto simp: c_def unat_div le_max_iff_disj)
  have pos: "0 < c" by (auto simp: c_def word_gt_0)
  let ?P = "psize \<noteq> 0 \<and> psize \<noteq> NO_VAL16 \<and> dist AND SLURM_DIST_STATE_BASE \<noteq> SLURM_DIST_PLANE \<and> c > psize * cpt"
  have eq: "node_cpus psize dist cpn cpt = Some (if ?P then psize * cpt else c)"
    using assms by (simp add: node_cpus_def c_def Let_def)
  have "unat (psize * cpt) \<le> max 1 (unat cpn)" if ?P
    using that le unfolding word_less_nat_alt by linarith
  with eq le pos show ?thesis by (cases ?P) auto
qed

lemma layout_cpus_ok:
  assumes "reps_cover (cpu_count_reps req) n" "length (cpus_per_node req) = length (cpu_count_reps req)"
    and "reps_cover (cpus_task_reps req) n" "length cpt = length (cpus_task_reps req)" "\<forall>c\<in>set cpt. c \<noteq> 0" and "n \<le> m"
  shows "\<exists>cpus. layout_cpus req cpt n m = Some cpus \<and> length cpus = m
     \<and> (\<forall>i<n. (\<exists>x\<in>set (cpus_per_node req). unat (cpus ! i) \<le> max 1 (unat x))
          \<and> (req_task_dist req AND SLURM_DIST_STATE_BASE = SLURM_DIST_PLANE \<longrightarrow> 0 < cpus ! i))"
proof -
  let ?good = "\<lambda>c. (\<exists>x\<in>set (cpus_per_node req). unat c \<le> max 1 (unat x))
     \<and> (req_task_dist req AND SLURM_DIST_STATE_BASE = SLURM_DIST_PLANE \<longrightarrow> 0 < c)"
  let ?f = "\<lambda>i (cpus, ca, ia, cb, ib). do {
        x \<leftarrow> mem_get (cpus_per_node req) ia; y \<leftarrow> mem_get cpt ib;
        c \<leftarrow> node_cpus (req_plane_size req) (req_task_dist req) x y;
        cpus \<leftarrow> mem_set cpus i c;
        (ca, ia) \<leftarrow> next_rep (cpu_count_reps req) ca ia;
        (cb, ib) \<leftarrow> next_rep (cpus_task_reps req) cb ib;
        Some (cpus, ca, ia, cb, ib) }"
  let ?I = "\<lambda>i (cpus, ca, ia, cb, ib). length cpus = m \<and> (\<forall>k<i. ?good (cpus ! k)) \<and> reps_at (cpu_count_reps req) i ca ia
     \<and> reps_at (cpus_task_reps req) i cb ib"
  have step: "\<exists>s'. ?f i s = Some s' \<and> ?I (Suc i) s'" if l: "i < n" "?I i s" for i s
  proof -
    obtain cpus ca ia cb ib where s: "s = (cpus, ca, ia, cb, ib)" by (metis prod.exhaust)
    from reps_at_next [of "cpu_count_reps req" i ca ia n] l s assms obtain ca' ia' where
      a: "ia < length (cpu_count_reps req)" "next_rep (cpu_count_reps req) ca ia = Some (ca', ia')" "reps_at (cpu_count_reps req) (Suc i) ca' ia'" by auto
    from reps_at_next [of "cpus_task_reps req" i cb ib n] l s assms obtain cb' ib' where
      b: "ib < length (cpus_task_reps req)" "next_rep (cpus_task_reps req) cb ib = Some (cb', ib')" "reps_at (cpus_task_reps req) (Suc i) cb' ib'" by auto
    let ?x = "cpus_per_node req ! ia"
    have x: "?x \<in> set (cpus_per_node req)" using a(1) assms(2) by simp
    have "cpt ! ib \<noteq> 0" using b(1) assms(4,5) by simp
    then obtain c where c: "node_cpus (req_plane_size req) (req_task_dist req) ?x (cpt ! ib) = Some c" "unat c \<le> max 1 (unat ?x)"
      "req_task_dist req AND SLURM_DIST_STATE_BASE = SLURM_DIST_PLANE \<longrightarrow> 0 < c" using node_cpus_ok by blast
    then have good: "?good c" using x by blast
    have "?f i s = Some (cpus[i := c], ca', ia', cb', ib')" using s a b c(1) l assms by (simp add: c_sem)
    moreover have "\<forall>k<Suc i. ?good (cpus[i := c] ! k)" using good l s assms(6) by (auto simp: less_Suc_eq)
    ultimately show ?thesis using a(3) b(3) l s by simp
  qed
  have "?I 0 (replicate m 0, 0, 0, 0, 0)" by (simp add: reps_at_0)
  from for_upto_rule [of 0 n ?I "(replicate m 0, 0, 0, 0, 0)" ?f, OF le0 this step] obtain s where
    s: "for_upto ?f 0 n (replicate m 0, 0, 0, 0, 0) = Some s" "?I n s" by blast
  obtain cpus ca ia cb ib where "s = (cpus, ca, ia, cb, ib)" by (metis prod.exhaust)
  with s show ?thesis unfolding layout_cpus_def by simp
qed

text \<open>A request for \<open>n\<close> nodes: the arrays reach over the nodes, no task has zero CPUs (the first entry is
  repaired by the code), a plane has a size, and the numbers fit: the task numbers and the sum of the CPUs the type \<open>int\<close>,
  the CPUs of a node with the average number of tasks and one more plane the 16 bits of a count.\<close>

definition is_plane :: "slurm_step_layout_req \<Rightarrow> bool" where
  "is_plane req \<longleftrightarrow> req_task_dist req AND SLURM_DIST_STATE_BASE = SLURM_DIST_PLANE"

definition is_cyclic :: "slurm_step_layout_req \<Rightarrow> bool" where
  "is_cyclic req \<longleftrightarrow> req_task_dist req AND SLURM_DIST_NODEMASK = SLURM_DIST_NODECYCLIC"

definition cpt_ok :: "slurm_step_layout_req \<Rightarrow> nat \<Rightarrow> bool" where
  "cpt_ok req n \<longleftrightarrow> (case cpus_per_task req of None \<Rightarrow> True
     | Some cpt \<Rightarrow> cpt \<noteq> [] \<and> length cpt = length (cpus_task_reps req) \<and> reps_cover (cpus_task_reps req) n \<and> 0 \<notin> set (tl cpt))"

definition req_ok :: "slurm_step_layout_req \<Rightarrow> nat \<Rightarrow> bool" where
  "req_ok req n \<longleftrightarrow> 0 < n \<and> n \<le> unat (num_hosts req)
     \<and> reps_cover (cpu_count_reps req) n \<and> length (cpus_per_node req) = length (cpu_count_reps req) \<and> cpt_ok req n
     \<and> unat (num_tasks req) + 1 < 2 ^ 31 \<and> (is_plane req \<longrightarrow> req_plane_size req \<noteq> 0)
     \<and> (\<forall>c\<in>set (cpus_per_node req). n * max 1 (unat c) < 2 ^ 31
          \<and> max 1 (unat c) + unat (num_tasks req) div n + (if is_plane req then unat (req_plane_size req) else 1) \<le> 65535)"

lemma default_cpt_ok:
  assumes "cpt_ok req n" "n \<le> unat (num_hosts req)"
  shows "\<exists>cpt reps. default_cpt req = Some (req\<lparr> cpus_per_task := Some cpt, cpus_task_reps := reps \<rparr>)
     \<and> length cpt = length reps \<and> reps_cover reps n \<and> (\<forall>c\<in>set cpt. c \<noteq> 0)"
proof (cases "cpus_per_task req")
  case None
  have "reps_cover [num_hosts req] n" using assms(2) by (simp add: reps_cover_def reps_total_def)
  with None show ?thesis by (intro exI [of _ "[1]"] exI [of _ "[num_hosts req]"]) (simp add: default_cpt_def)
next
  case (Some cpt)
  with assms(1) have ok: "cpt \<noteq> []" "length cpt = length (cpus_task_reps req)" "reps_cover (cpus_task_reps req) n" "0 \<notin> set (tl cpt)"
    by (auto simp: cpt_ok_def)
  obtain c cs r rs where cs: "cpt = c # cs" "cpus_task_reps req = r # rs" using ok(1,2) by (metis length_0_conv list.exhaust)
  show ?thesis
  proof (cases "c < 1 \<or> c = NO_VAL16")
    case True
    have "reps_total (num_hosts req # rs) 1 \<le> reps_total (num_hosts req # rs) (length (num_hosts req # rs))"
      unfolding reps_total_def by (rule sum_mono2) auto
    then have "reps_cover (num_hosts req # rs) n" using assms(2) by (simp add: reps_cover_def reps_total_def)
    with True Some cs ok show ?thesis
      by (intro exI [of _ "1 # cs"] exI [of _ "num_hosts req # rs"]) (auto simp: default_cpt_def c_sem)
  next
    case False
    then have "c \<noteq> 0" by auto
    with False Some cs ok show ?thesis
      by (intro exI [of _ cpt] exI [of _ "cpus_task_reps req"]) (auto simp: default_cpt_def c_sem)
  qed
qed

lemma fits16I:
  assumes "0 < ps" "\<And>i. i < n \<Longrightarrow> unat (cpus ! i) + cnt div n + ps \<le> 65535"
  shows "fits16 cpus n cnt ps"
proof -
  have "ps * (cnt div (n * ps)) \<le> cnt div n" by (simp add: div_mult2_eq)
  then have "unat (cpus ! i) + ps * (cnt div (n * ps) + 1) \<le> 65535" if "i < n" for i using assms(2) [OF that] by simp
  then show ?thesis by (simp add: fits16_def)
qed

lemma sum_below:
  fixes u :: "nat \<Rightarrow> nat"
  assumes "0 < n" "\<And>i. i < n \<Longrightarrow> n * u i < m"
  shows "(\<Sum>i<n. u i) < m"
proof -
  have "n * (\<Sum>i<n. u i) = (\<Sum>i<n. n * u i)" by (rule sum_distrib_left)
  also have "\<dots> < (\<Sum>i<n. m)" using assms by (intro sum_strict_mono) auto
  finally show ?thesis by simp
qed

lemma cyclic_not_plane: "is_cyclic req \<Longrightarrow> \<not> is_plane req"
proof
  assume "is_cyclic req" "is_plane req"
  then have "req_task_dist req AND 0xF00F = 1" "req_task_dist req AND 0xFFFF = 4"
    unfolding is_cyclic_def is_plane_def SLURM_DIST_NODEMASK_def SLURM_DIST_NODECYCLIC_def SLURM_DIST_STATE_BASE_def SLURM_DIST_PLANE_def .
  moreover have "req_task_dist req AND 0xF00F = (req_task_dist req AND 0xFFFF) AND 0xF00F" by (simp add: and.assoc)
  ultimately have "(4::u32) AND 0xF00F = 1" by (simp only:)
  then show False by simp
qed

subsection \<open>Creating a layout\<close>

definition is_arbitrary :: "slurm_step_layout_req \<Rightarrow> bool" where
  "is_arbitrary req \<longleftrightarrow> req_task_dist req AND SLURM_DIST_STATE_BASE = SLURM_DIST_ARBITRARY"

text \<open>The choice of the distribution, on the CPUs that \<open>layout_cpus\<close> computed.\<close>

lemma distribute_ok:
  assumes "req_ok req n" "\<not> is_arbitrary req" and "fresh N l" "unat (node_cnt l) = n" "task_cnt l = num_tasks req"
    "task_dist l = req_task_dist req" "plane_size l = req_plane_size req" and "n \<le> length cpus"
    and "\<forall>i<n. (\<exists>x\<in>set (cpus_per_node req). unat (cpus ! i) \<le> max 1 (unat x)) \<and> (is_plane req \<longrightarrow> 0 < cpus ! i)"
  shows "\<exists>ts tds. (if task_dist l AND SLURM_DIST_NODEMASK = SLURM_DIST_NODECYCLIC then task_layout_cyclic l cpus
             else if task_dist l AND SLURM_DIST_STATE_BASE = SLURM_DIST_ARBITRARY then task_layout_hostfile env l arb
             else if task_dist l AND SLURM_DIST_STATE_BASE = SLURM_DIST_PLANE then task_layout_plane l cpus
             else task_layout_block (select_type_param env) sp l cpus) = Some (SLURM_SUCCESS, l\<lparr> tasks := ts, tids := tds \<rparr>)
     \<and> layout_ok (l\<lparr> tasks := ts, tids := tds \<rparr>)
     \<and> (\<not> is_cyclic req \<longrightarrow> \<not> is_plane req \<longrightarrow> map unat (concat (take n tds)) = [0..<unat (num_tasks req)])"
proof -
  note rq = assms(1) [unfolded req_ok_def]
  let ?cnt = "unat (num_tasks req)" and ?ps = "if is_plane req then unat (req_plane_size req) else 1"
  have fits: "unat (cpus ! i) + ?cnt div n + ?ps \<le> 65535" and small: "n * unat (cpus ! i) < 2 ^ 31" "n < 2 ^ 31" if i: "i < n" for i
  proof -
    from assms(9) i obtain x where x: "x \<in> set (cpus_per_node req)" "unat (cpus ! i) \<le> max 1 (unat x)" by blast
    then have b: "max 1 (unat x) + ?cnt div n + ?ps \<le> 65535" "n * max 1 (unat x) < 2 ^ 31" using rq by auto
    then show "unat (cpus ! i) + ?cnt div n + ?ps \<le> 65535" using x(2) by linarith
    show "n * unat (cpus ! i) < 2 ^ 31" using x(2) b(2) by (meson le_less_trans mult_le_mono2)
    have "n * 1 \<le> n * max 1 (unat x)" by (intro mult_le_mono2) simp
    then show "n < 2 ^ 31" using b(2) by linarith
  qed
  have "0 < ?ps" using rq by (auto simp: unat_gt_0)
  then have f16: "fits16 cpus n ?cnt ?ps" using fits by (intro fits16I) auto
  have total: "(\<Sum>i<n. unat (cpus ! i)) < 2 ^ 31" "n < 2 ^ 31" using rq small sum_below [of n "\<lambda>i. unat (cpus ! i)"] by blast+
  have cnt: "?cnt + 1 < 2 ^ 31" using rq by blast
  note dist = assms(6) is_cyclic_def [of req, symmetric] is_plane_def [of req, symmetric] is_arbitrary_def [of req, symmetric]
  consider (cyclic) "is_cyclic req" | (plane) "\<not> is_cyclic req" "is_plane req" | (block) "\<not> is_cyclic req" "\<not> is_plane req" by blast
  then show ?thesis
  proof cases
    case cyclic
    with f16 have "fits16 cpus n ?cnt 1" by (simp add: cyclic_not_plane)
    with task_layout_cyclic_ok [OF assms(3), of cpus] cyclic total cnt assms(4,5,8) show ?thesis unfolding dist by auto
  next
    case plane
    then have "fits16 cpus n ?cnt (unat (req_plane_size req))" "\<forall>i<n. 0 < cpus ! i" "req_plane_size req \<noteq> 0" using f16 assms(9) rq by auto
    with task_layout_plane_ok [OF assms(3), of cpus] plane cnt assms(2,4,5,7,8) show ?thesis unfolding dist by auto
  next
    case block
    with f16 have "fits16 cpus n ?cnt 1" by simp
    with task_layout_block_ok [OF assms(3), of cpus "select_type_param env" sp] block cnt assms(2,4,5,8) show ?thesis unfolding dist by auto
  qed
qed

lemma init_task_layout_run:
  assumes "node_cnt l0 \<noteq> 0" "tasks l0 = []" "default_cpt req = Some req'" "N = unat (node_cnt l0)"
    and "l0\<lparr> plane_size := req_plane_size req', tasks := replicate N 0, tids := replicate N [],
           node_cnt := (if N > length (hostlist_hosts env (node_list l0)) then of_nat (length (hostlist_hosts env (node_list l0))) else node_cnt l0) \<rparr> = l"
    and "\<not> node_cnt l < 1" "layout_cpus req' (the (cpus_per_task req')) (unat (node_cnt l)) N = Some cpus"
    and "(if task_dist l AND SLURM_DIST_NODEMASK = SLURM_DIST_NODECYCLIC then task_layout_cyclic l cpus
             else if task_dist l AND SLURM_DIST_STATE_BASE = SLURM_DIST_ARBITRARY then task_layout_hostfile env l arb
             else if task_dist l AND SLURM_DIST_STATE_BASE = SLURM_DIST_PLANE then task_layout_plane l cpus
             else task_layout_block (select_type_param env) sp l cpus) = Some (rc, l')"
  shows "init_task_layout env sp req l0 arb = Some (rc, l', req')"
  unfolding init_task_layout_def Let_def assms(3) bind.bind_lunit assms(4) [symmetric] assms(5,7,8) if_not_P [OF assms(1)] if_not_P [OF assms(6)]
  using assms(2) by simp

lemma slurm_step_layout_create_ok:
  assumes "n = min (unat (num_hosts req)) (length (hostlist_hosts env (req_node_list req)))" and "req_ok req n" "\<not> is_arbitrary req"
  shows "\<exists>l req'. slurm_step_layout_create env sp req = Some (Some l, req') \<and> layout_ok l \<and> unat (node_cnt l) = n
     \<and> task_cnt l = num_tasks req \<and> node_list l = req_node_list req
     \<and> (\<not> is_cyclic req \<longrightarrow> \<not> is_plane req \<longrightarrow> map unat (concat (take n (tids l))) = [0..<unat (num_tasks req)])"
proof -
  note rq = assms(2) [unfolded req_ok_def]
  let ?N = "unat (num_hosts req)" and ?hosts = "length (hostlist_hosts env (req_node_list req))"
  let ?l0 = "empty_layout\<lparr> task_dist := req_task_dist req, node_list := req_node_list req, task_cnt := num_tasks req, node_cnt := num_hosts req \<rparr>"
  let ?nc = "if ?N > ?hosts then of_nat ?hosts else num_hosts req"
  define l where "l = ?l0\<lparr> plane_size := req_plane_size req, tasks := replicate ?N 0, tids := replicate ?N [], node_cnt := ?nc \<rparr>"
  have "unat (of_nat ?hosts :: u32) = ?hosts" if "?N > ?hosts"
  proof -
    have "?hosts < 2 ^ LENGTH(32)" using that unsigned_less [of "num_hosts req"] by (rule less_trans)
    then show ?thesis by (simp add: unat_of_nat)
  qed
  then have nc: "unat ?nc = n" using assms(1) by simp
  then have l: "unat (node_cnt l) = n" "task_cnt l = num_tasks req" "task_dist l = req_task_dist req" "plane_size l = req_plane_size req"
    "node_list l = req_node_list req" by (simp_all add: l_def)
  have fr: "fresh ?N l" using rq nc by (simp add: fresh_def l_def)
  from default_cpt_ok rq obtain cpt reps where d: "default_cpt req = Some (req\<lparr> cpus_per_task := Some cpt, cpus_task_reps := reps \<rparr>)"
    "length cpt = length reps" "reps_cover reps n" "\<forall>c\<in>set cpt. c \<noteq> 0" by blast
  let ?req = "req\<lparr> cpus_per_task := Some cpt, cpus_task_reps := reps \<rparr>"
  from layout_cpus_ok [of ?req n cpt ?N] d rq obtain cpus where cpus: "layout_cpus ?req cpt n ?N = Some cpus" "length cpus = ?N"
    "\<forall>i<n. (\<exists>x\<in>set (cpus_per_node req). unat (cpus ! i) \<le> max 1 (unat x)) \<and> (is_plane req \<longrightarrow> 0 < cpus ! i)"
    by (auto simp: is_plane_def)
  have "n \<le> length cpus" using cpus(2) rq by simp
  with distribute_ok [OF assms(2,3) fr l(1-4), of cpus env None sp] cpus(3) obtain ts tds where
    r: "(if task_dist l AND SLURM_DIST_NODEMASK = SLURM_DIST_NODECYCLIC then task_layout_cyclic l cpus
             else if task_dist l AND SLURM_DIST_STATE_BASE = SLURM_DIST_ARBITRARY then task_layout_hostfile env l None
             else if task_dist l AND SLURM_DIST_STATE_BASE = SLURM_DIST_PLANE then task_layout_plane l cpus
             else task_layout_block (select_type_param env) sp l cpus) = Some (SLURM_SUCCESS, l\<lparr> tasks := ts, tids := tds \<rparr>)"
      "layout_ok (l\<lparr> tasks := ts, tids := tds \<rparr>)"
      "\<not> is_cyclic req \<longrightarrow> \<not> is_plane req \<longrightarrow> map unat (concat (take n tds)) = [0..<unat (num_tasks req)]" by blast
  have "num_hosts req \<noteq> 0" "\<not> node_cnt l < 1" using rq l(1) by (auto simp: word_less_nat_alt)
  then have "init_task_layout env sp req ?l0 None = Some (SLURM_SUCCESS, l\<lparr> tasks := ts, tids := tds \<rparr>, ?req)"
    using d(1) cpus(1) r(1) l(1) by (intro init_task_layout_run [where N = ?N and l = l and cpus = cpus]) (simp_all add: empty_layout_def l_def)
  then have "slurm_step_layout_create env sp req = Some (Some (l\<lparr> tasks := ts, tids := tds \<rparr>), ?req)"
    using assms(3) by (simp add: slurm_step_layout_create_def Let_def is_arbitrary_def)
  with r(2,3) l show ?thesis by (intro exI [of _ "l\<lparr> tasks := ts, tids := tds \<rparr>"] exI [of _ ?req]) simp
qed

subsection \<open>Finding the node of a task\<close>

lemma find_in_row_ok: "j + m \<le> length row \<Longrightarrow> find_in_row row j m v = Some (v \<in> set (take m (drop j row)))"
proof (induction m arbitrary: j)
  case (Suc m)
  then have "drop j row = row ! j # drop (Suc j) row" by (simp add: Cons_nth_drop_Suc)
  with Suc show ?case by (auto simp: c_sem)
qed simp

lemma find_row_ok:
  assumes "i + m \<le> length (tasks s)" "i + m \<le> length (tids s)" "\<forall>k<i + m. length (tids s ! k) = unat (tasks s ! k)"
    and "\<exists>k. i \<le> k \<and> k < i + m \<and> v \<in> set (tids s ! k)"
  shows "\<exists>k. find_row s i m v = Some (int k) \<and> k < i + m \<and> v \<in> set (tids s ! k)"
  using assms
proof (induction m arbitrary: i)
  case (Suc m)
  have "find_in_row (if tasks s ! i = 0 then [] else tids s ! i) 0 (unat (tasks s ! i)) v = Some (v \<in> set (tids s ! i))"
    using Suc.prems(3) by (auto simp: find_in_row_ok dest: spec [of _ i])
  then have eq: "find_row s i (Suc m) v = (if v \<in> set (tids s ! i) then Some (int i) else find_row s (i + 1) m v)"
    using Suc.prems(1,2) by (auto simp: c_sem split: if_splits)
  show ?case
  proof (cases "v \<in> set (tids s ! i)")
    case True
    then show ?thesis unfolding eq by (intro exI [of _ i]) simp
  next
    case False
    with Suc.prems(4) have "\<exists>k. i + 1 \<le> k \<and> k < i + 1 + m \<and> v \<in> set (tids s ! k)"
      by (metis Suc_eq_plus1 Suc_leI add.commute add_Suc_right le_eq_less_or_eq)
    with Suc.IH [of "i + 1"] Suc.prems False show ?thesis unfolding eq by auto
  qed
qed auto

lemma layout_host_id:
  assumes "layout_ok l" "t < unat (task_cnt l)" "unat (task_cnt l) < 2 ^ 31"
  shows "\<exists>i<unat (node_cnt l). slurm_step_layout_host_id l (int t) = Some (int i) \<and> of_nat t \<in> set (tids l ! i)"
proof -
  let ?n = "unat (node_cnt l)" and ?v = "of_nat t :: u32"
  have ok: "?n \<le> length (tasks l)" "?n \<le> length (tids l)" "\<forall>i<?n. length (tids l ! i) = unat (tasks l ! i)"
    "mset (map unat (concat (take ?n (tids l)))) = mset [0..<unat (task_cnt l)]"
    using assms(1) by (auto simp: layout_ok_def Let_def)
  have v: "unat ?v = t" using assms(2,3) by (intro unat_nat32) linarith
  have "t \<in> set (map unat (concat (take ?n (tids l))))" using ok(4) assms(2) by (metis atLeastLessThan_iff le0 mset_eq_setD set_upt)
  then obtain w where w: "w \<in> set (concat (take ?n (tids l)))" "unat w = t" by auto
  then have "w = ?v" using v by (simp add: word_unat_eq_iff)
  with w ok(2) obtain k where k: "k < ?n" "?v \<in> set (tids l ! k)" by (auto simp: in_set_conv_nth [of _ "take ?n (tids l)"])
  from find_row_ok [of 0 ?n l ?v] ok k obtain i where i: "find_row l 0 ?n ?v = Some (int i)" "i < ?n" "?v \<in> set (tids l ! i)" by auto
  have "tasks l \<noteq> []" "tids l \<noteq> []" using k(1) ok(1,2) by auto
  moreover have "\<not> ?v > task_cnt l - 1"
  proof -
    have "task_cnt l \<noteq> 0" using assms(2) by auto
    then have "unat (task_cnt l - 1) = unat (task_cnt l) - 1" by (rule unat_minus_one)
    then show ?thesis using v assms(2) by (simp add: word_less_nat_alt)
  qed
  ultimately show ?thesis using i by (auto simp: slurm_step_layout_host_id_def)
qed

subsection \<open>Properties\<close>

text \<open>C40. A block, cyclic or plane request that is well formed yields a layout: the loops end, no array is left and no count wraps
  around. In the layout every task number below the requested number occurs exactly once over all nodes, each node's numbers
  ascend and their count is the node's count; a block distribution numbers the nodes' tasks consecutively; and the
  node of every task is found.\<close>

theorem layout_places_every_task:
  assumes "n = min (unat (num_hosts req)) (length (hostlist_hosts env (req_node_list req)))" and "req_ok req n" "\<not> is_arbitrary req"
  shows "\<exists>l req'. slurm_step_layout_create env select_params req = Some (Some l, req')
     \<and> unat (node_cnt l) = n \<and> task_cnt l = num_tasks req \<and> layout_ok l
     \<and> (\<not> is_cyclic req \<and> \<not> is_plane req \<longrightarrow> map unat (concat (take n (tids l))) = [0..<unat (num_tasks req)])
     \<and> (\<forall>t<unat (num_tasks req). \<exists>i<n. slurm_step_layout_host_id l (int t) = Some (int i) \<and> of_nat t \<in> set (tids l ! i))"
proof -
  have "unat (num_tasks req) < 2 ^ 31" using assms(2) by (simp add: req_ok_def)
  with slurm_step_layout_create_ok [OF assms, of select_params] show ?thesis using layout_host_id by metis
qed

text \<open>Three nodes with 4, 1 and 1 CPUs.\<close>

definition example_env :: "nat layout_env" where
  "example_env = \<lparr> hostlist_hosts = (\<lambda>s. [''a'', ''b'', ''c'']), hostlist_uniq = id, hostlist_find = (\<lambda>hl s. -1), hostlist_ranged_string = concat,
     find_node_record = (\<lambda>s. None), find_node_record_no_alias = (\<lambda>s. None), select_type_param = 0 \<rparr>"

definition example_req :: "u32 \<Rightarrow> u16 \<Rightarrow> u32 \<Rightarrow> slurm_step_layout_req" where
  "example_req dist psize cnt = \<lparr> req_node_list = Some ''a,b,c'', cpus_per_node = [4, 1], cpu_count_reps = [1, 2], num_hosts = 3,
     num_tasks = cnt, cpus_per_task = None, cpus_task_reps = [], req_task_dist = dist, req_plane_size = psize \<rparr>"

lemmas example_layout = example_env_def example_req_def req_ok_def cpt_ok_def reps_cover_def reps_total_def is_plane_def is_cyclic_def
  is_arbitrary_def SLURM_DIST_STATE_BASE_def SLURM_DIST_PLANE_def SLURM_DIST_NODEMASK_def SLURM_DIST_NODECYCLIC_def SLURM_DIST_ARBITRARY_def

theorem layout_places_every_task_witness:
  "\<exists>l req'. slurm_step_layout_create example_env 0 (example_req 4 2 9) = Some (Some l, req')
     \<and> unat (node_cnt l) = 3 \<and> task_cnt l = 9 \<and> layout_ok l
     \<and> (\<forall>t<9. \<exists>i<3. slurm_step_layout_host_id l (int t) = Some (int i) \<and> of_nat t \<in> set (tids l ! i))"
proof -
  have "req_ok (example_req 4 2 9) 3" by (simp add: example_layout lessThan_nat_numeral lessThan_Suc)
  moreover have "\<not> is_arbitrary (example_req 4 2 9)" by (simp add: example_layout)
  moreover have "(3::nat) = min (unat (num_hosts (example_req 4 2 9))) (length (hostlist_hosts example_env (req_node_list (example_req 4 2 9))))"
    by (simp add: example_layout)
  moreover have "num_tasks (example_req 4 2 9) = 9" "unat (num_tasks (example_req 4 2 9)) = 9" by (simp_all add: example_req_def)
  ultimately show ?thesis using layout_places_every_task [of 3 "example_req 4 2 9" example_env 0] by auto
qed

subsection \<open>Copies\<close>

text \<open>Node addresses whose array has the length the struct says.\<close>

definition alias_ok :: "slurm_node_alias_addrs option \<Rightarrow> bool" where
  "alias_ok a \<longleftrightarrow> (case a of None \<Rightarrow> True | Some s \<Rightarrow> length (node_addrs s) = unat (alias_node_cnt s))"

lemma copy_rows:
  assumes "n \<le> length ts" "n \<le> length src" "\<forall>i<n. length (src ! i) = unat (ts ! i)"
  shows "for_upto (\<lambda>i tds. do { a \<leftarrow> mem_get (take n ts) i; r \<leftarrow> mem_get src i; row \<leftarrow> mem_prefix r (unat a); mem_set tds i row }) 0 n
     (replicate n []) = Some (take n src)"
proof -
  let ?f = "\<lambda>i tds. do { a \<leftarrow> mem_get (take n ts) i; r \<leftarrow> mem_get src i; row \<leftarrow> mem_prefix r (unat a); mem_set tds i row }"
  let ?I = "\<lambda>i t. length t = n \<and> (\<forall>k<i. t ! k = src ! k)"
  have "\<exists>t'. ?f i t = Some t' \<and> ?I (Suc i) t'" if "i < n" "?I i t" for i t
    using that assms by (auto simp: c_sem mem_prefix_def less_Suc_eq)
  with for_upto_rule [of 0 n ?I "replicate n []" ?f] obtain t where t: "for_upto ?f 0 n (replicate n []) = Some t" "?I n t" by auto
  then have "t = take n src" using assms(2) by (intro nth_equalityI) auto
  with t(1) show ?thesis by simp
qed

text \<open>A copy of a complete layout has the same nodes, tasks and addresses; its plane size is zero.\<close>

lemma slurm_step_layout_copy_ok:
  assumes "layout_ok l" "alias_ok (alias_addrs l)"
    and "length (cpt_compact_array l) = unat (cpt_compact_cnt l)" "length (cpt_compact_reps l) = unat (cpt_compact_cnt l)"
  shows "slurm_step_layout_copy (Some l) = Some (Some (l\<lparr> plane_size := 0, tasks := take (unat (node_cnt l)) (tasks l),
     tids := take (unat (node_cnt l)) (tids l) \<rparr>))"
proof -
  let ?n = "unat (node_cnt l)"
  have ok: "?n \<le> length (tasks l)" "?n \<le> length (tids l)" "\<forall>i<?n. length (tids l ! i) = unat (tasks l ! i)"
    using assms(1) by (auto simp: layout_ok_def Let_def)
  have al: "(case alias_addrs l of None \<Rightarrow> Some None
       | Some src \<Rightarrow> do { aa \<leftarrow> slurm_copy_node_alias_addrs_members
           \<lparr> expiration = 0, net_cred = None, node_addrs = [], alias_node_cnt = 0, alias_node_list = None \<rparr> src; Some (Some aa) })
     = Some (alias_addrs l)"
  proof (cases "alias_addrs l")
    case (Some a)
    with assms(2) show ?thesis
      by (cases a) (auto simp: slurm_copy_node_alias_addrs_members_def mem_prefix_def str_over_def xrecalloc_def alias_ok_def
          split: option.splits)
  qed simp
  have cpt: "cpt_compact_array l = [] \<and> cpt_compact_reps l = []" if "unat (cpt_compact_cnt l) = 0" using that assms(3,4) by simp
  have pre: "mem_prefix (tasks l) ?n = Some (take ?n (tasks l))" using ok(1) by (simp add: mem_prefix_def)
  show ?thesis
    unfolding slurm_step_layout_copy_def option.case Let_def al bind.bind_lunit pre copy_rows [OF ok]
    using cpt assms(3,4) by (cases l) (auto simp: mem_prefix_def empty_layout_def unat_eq_0)
qed

subsection \<open>Examples of the distributions\<close>

text \<open>With planes of one task the first turn fills no plane, so the second one over-subscribes: nodes with 4, 1 and 1 CPUs get two tasks
  each. With planes of two tasks they get 4, 1 and 1.\<close>

lemmas eval_plane = cycles.simps plane_cycle_def plane_node_def add_task_def for_while.simps mem_get_def mem_set_def add_int_def

lemma plane_of_one:
  "map_option fst (cycles (\<lambda>s. snd (fst s) < 6) (plane_cycle [4, 1, 1] 3 6 1) 0 (([0, 0, 0], 0), False)) = Some ([2, 2, 2], 6)"
  by (simp add: eval_plane)

lemma plane_of_two:
  "map_option fst (cycles (\<lambda>s. snd (fst s) < 6) (plane_cycle [4, 1, 1] 3 6 2) 0 (([0, 0, 0], 0), False)) = Some ([4, 1, 1], 6)"
  by (simp add: eval_plane)

text \<open>Sixteen tasks on nodes with 4, 2, 4 and 2 CPUs: the cyclic distribution over-subscribes the second and fourth node in the third turn,
  before the CPUs of the others are used.\<close>

lemma cyclic_over_subscribes_early:
  "map_option (\<lambda>s. fst (fst s)) (cycles (\<lambda>s. snd (snd (fst s)) < 16) (cyclic_cycle [4, 2, 4, 2] 4 16 1) 0
     (([[], [], [], []], [0, 0, 0, 0], 0), True))
   = Some [[0, 4, 8, 12, 14], [1, 5, 9], [2, 6, 10, 13, 15], [3, 7, 11]]"
  by (simp add: cycles.simps cyclic_cycle_def cyclic_node_def put_task_def xrealloc_def for_while.simps mem_get_def mem_set_def add_int_def i32_def)

text \<open>Two distributions have the same name.\<close>

lemma type_name_collision: "slurm_step_layout_type_name 0x0321 = slurm_step_layout_type_name 0x0311"
  by (simp add: slurm_step_layout_type_name_def layout_type_names_def SLURM_DIST_STATE_BASE_def SLURM_DIST_PACK_NODES_def SLURM_DIST_NO_PACK_NODES_def)

end
