(* ===== verification/Step_Layout_Hostfile.thy ===== *)
theory Step_Layout_Hostfile
  imports Step_Layout_Props
begin

text \<open>
  The arbitrary distribution of src/common/slurm_step_layout.c: line \<open>t\<close> of a host file names the host of task \<open>t\<close>. The
  loops of \<open>_task_layout_hostfile\<close> are shown to give every host the numbers of its lines, the layout to be complete, and
  \<open>slurm_step_layout_host_name\<close> to answer with the line of the file.
\<close>

subsection \<open>The lines of a host\<close>

definition lines_of :: "'a \<Rightarrow> nat \<Rightarrow> 'a list \<Rightarrow> nat list" where
  "lines_of p k ps = map fst (filter (\<lambda>x. snd x = p) (enumerate k ps))"

lemma lines_of_Nil [simp]: "lines_of p k [] = []"
  by (simp add: lines_of_def)

lemma lines_of_Cons [simp]: "lines_of p k (q # ps) = (if q = p then k # lines_of p (Suc k) ps else lines_of p (Suc k) ps)"
  by (simp add: lines_of_def)

lemma set_lines_of: "t \<in> set (lines_of p k ps) \<longleftrightarrow> k \<le> t \<and> t < k + length ps \<and> ps ! (t - k) = p"
proof (induction ps arbitrary: k)
  case (Cons q ps)
  then show ?case by (cases "t = k") (auto simp: nth_Cons' dest: Suc_leD)
qed simp

lemma set_lines_of_0 [simp]: "t \<in> set (lines_of p 0 ps) \<longleftrightarrow> t < length ps \<and> ps ! t = p"
  by (simp add: set_lines_of)

lemma sorted_lines_of: "sorted_wrt (<) (lines_of p k ps)"
  by (induction ps arbitrary: k) (auto simp: set_lines_of)

lemma distinct_lines_of: "distinct (lines_of p k ps)"
  using sorted_lines_of by (metis strict_sorted_iff)

lemma lines_of_empty: "lines_of p k ps = [] \<longleftrightarrow> p \<notin> set ps"
  by (induction ps arbitrary: k) auto

lemma lines_of_map: "\<forall>h'\<in>set xs. f h' = p \<longleftrightarrow> h' = h \<Longrightarrow> lines_of p k (map f xs) = lines_of h k xs"
  by (induction xs arbitrary: k) auto

lemma length_lines_of: "length (lines_of p k ps) = count_list ps p"
  by (induction ps arbitrary: k) auto

text \<open>The lines of all hosts are all lines.\<close>

lemma lines_of_all:
  assumes "distinct hl" "set hl = set xs"
  shows "mset (concat (map (\<lambda>h. lines_of h 0 xs) hl)) = mset [0..<length xs]"
proof -
  let ?L = "\<lambda>h. lines_of h 0 xs"
  have "inj_on ?L (set hl)"
  proof (rule inj_onI)
    fix h h' assume h: "h \<in> set hl" and eq: "?L h = ?L h'"
    from h assms(2) obtain t where "t < length xs" "xs ! t = h" by (auto simp: in_set_conv_nth)
    then have "t \<in> set (?L h')" unfolding eq [symmetric] by simp
    then show "h = h'" using \<open>xs ! t = h\<close> by simp
  qed
  then have "distinct (concat (map ?L hl))"
    using assms(1) by (intro distinct_concat) (auto simp: distinct_map distinct_lines_of)
  moreover have "set (concat (map ?L hl)) = set [0..<length xs]" using assms(2) by auto
  ultimately show ?thesis by (metis distinct_upt set_eq_iff_mset_eq_distinct)
qed

subsection \<open>The loops\<close>

lemma host_count_ok:
  assumes "placed + count_list ptrs p \<le> cnt"
  shows "host_count p cnt ptrs a placed = (a + of_nat (count_list ptrs p), placed + count_list ptrs p)"
  using assms
proof (induction ptrs arbitrary: a placed)
  case (Cons q ptrs)
  show ?case
  proof (cases "cnt \<le> (if p = q then placed + 1 else placed)")
    case True
    then have "count_list ptrs p = 0" using Cons.prems by (auto split: if_splits)
    with True Cons.prems show ?thesis by (auto simp: Let_def)
  next
    case False
    with Cons.prems show ?thesis using Cons.IH [of "placed + 1" "a + 1"] Cons.IH [of placed a] by (auto simp: Let_def)
  qed
qed simp

lemma host_ids_ok:
  assumes "j + count_list ptrs p = a" "length row = a"
  shows "host_ids p a ptrs t j row = Some (take j row @ map of_nat (lines_of p t ptrs))"
  using assms
proof (induction ptrs arbitrary: t j row)
  case (Cons q ptrs)
  have rest: "lines_of p k ptrs = []" if "count_list ptrs p = 0" for k using that by (simp add: lines_of_empty count_list_0_iff)
  show ?case
  proof (cases "p = q")
    case True
    then have j: "j < length row" "j + 1 + count_list ptrs p = a" using Cons.prems by auto
    then have *: "take (j + 1) (row[j := of_nat t]) = take j row @ [of_nat t]" by (simp add: take_Suc_conv_app_nth)
    have s: "mem_set row j (of_nat t) = Some (row[j := of_nat t])" using j by (simp add: c_sem)
    show ?thesis
    proof (cases "a \<le> j + 1")
      case True
      then have "count_list ptrs p = 0" "row[j := of_nat t] = take (j + 1) (row[j := of_nat t])" using j Cons.prems by auto
      with True s * \<open>p = q\<close> rest show ?thesis by simp
    next
      case False
      with s * \<open>p = q\<close> j Cons.prems Cons.IH [of "j + 1" "row[j := of_nat t]" "t + 1"] show ?thesis by simp
    qed
  next
    case False
    show ?thesis
    proof (cases "a \<le> j")
      case True
      with Cons.prems False rest show ?thesis by auto
    next
      case False
      with \<open>p \<noteq> q\<close> Cons.prems Cons.IH [of j row "t + 1"] show ?thesis by auto
    qed
  qed
qed simp

text \<open>The hosts get the next rows; each of them has a line, so no row is skipped.\<close>

lemma hostfile_loop_ok:
  assumes "\<forall>h\<in>set hs. find_node_record env h \<in> set ptrs \<and> count_list ptrs (find_node_record env h) < 2 ^ 16"
    and "placed + sum_list (map (\<lambda>h. count_list ptrs (find_node_record env h)) hs) \<le> cnt" and "i \<le> placed"
    and "i + length hs \<le> length ts" "length tds = length ts"
  shows "hostfile_loop env ptrs cnt hs i placed ts tds
    = Some (take i ts @ map (\<lambda>h. of_nat (count_list ptrs (find_node_record env h))) hs @ drop (i + length hs) ts,
        take i tds @ map (\<lambda>h. map of_nat (lines_of (find_node_record env h) 0 ptrs)) hs @ drop (i + length hs) tds,
        placed + sum_list (map (\<lambda>h. count_list ptrs (find_node_record env h)) hs))"
  using assms
proof (induction hs arbitrary: i placed ts tds)
  case (Cons h hs)
  let ?p = "find_node_record env h"
  let ?m = "count_list ptrs ?p" and ?row = "map of_nat (lines_of (find_node_record env h) 0 ptrs) :: u32 list"
  have m: "?m \<noteq> 0" "unat (of_nat ?m :: u16) = ?m" using Cons.prems(1) by (auto simp: count_list_0_iff unat_of_nat)
  then have m0: "(of_nat ?m :: u16) \<noteq> 0" by (metis unat_0)
  have c: "host_count ?p cnt ptrs 0 placed = (of_nat ?m, placed + ?m)" using Cons.prems(2) by (subst host_count_ok) auto
  have r: "host_ids ?p ?m ptrs 0 0 (replicate ?m 0) = Some ?row" by (subst host_ids_ok) auto
  have i: "i < length ts" "i < length tds" using Cons.prems by auto
  have "hostfile_loop env ptrs cnt (h # hs) i placed ts tds
      = hostfile_loop env ptrs cnt hs (i + 1) (placed + ?m) (ts[i := of_nat ?m]) (tds[i := ?row])"
    using i m m0 c r Cons.prems(2,3) by (simp add: c_sem Let_def)
  also have "\<dots> = Some (take (i + 1) (ts[i := of_nat ?m]) @ map (\<lambda>h. of_nat (count_list ptrs (find_node_record env h))) hs
          @ drop (i + 1 + length hs) (ts[i := of_nat ?m]),
        take (i + 1) (tds[i := ?row]) @ map (\<lambda>h. map of_nat (lines_of (find_node_record env h) 0 ptrs)) hs
          @ drop (i + 1 + length hs) (tds[i := ?row]),
        placed + ?m + sum_list (map (\<lambda>h. count_list ptrs (find_node_record env h)) hs))"
    using Cons.prems m(1) by (intro Cons.IH) auto
  finally show ?case using i by (simp add: take_Suc_conv_app_nth)
qed simp

subsection \<open>The layout\<close>

text \<open>What the host list functions and the node table have to provide for the host file \<open>xs\<close>: removal of duplicates keeps each host once, the text of
  that list denotes it again, and two lines name the same node exactly when they are equal.\<close>

definition hostfile_env :: "('n, 'z) layout_env_scheme \<Rightarrow> string list \<Rightarrow> bool" where
  "hostfile_env env xs \<longleftrightarrow> (let hl = hostlist_uniq env xs in distinct hl \<and> set hl = set xs
     \<and> hostlist_hosts env (Some (hostlist_ranged_string env hl)) = hl
     \<and> (\<forall>h\<in>set xs. \<forall>h'\<in>set xs. find_node_record env h = find_node_record_no_alias env h' \<longleftrightarrow> h = h'))"

lemma sum_count_list: "distinct hl \<Longrightarrow> set hl = set xs \<Longrightarrow> sum_list (map (count_list xs) hl) = length xs"
  by (simp add: sum_list_distinct_conv_sum_set sum_count_set)

lemma task_layout_hostfile_ok:
  assumes "hostfile_env env xs" "hl = hostlist_uniq env xs" and "hostlist_hosts env arb = xs" "arb \<noteq> None" "xs \<noteq> []" "length xs < 2 ^ 31"
    and "\<forall>h\<in>set xs. count_list xs h < 2 ^ 16" and "fresh N l" "unat (node_cnt l) = length hl" "unat (task_cnt l) = length xs"
    and "node_list l = Some (hostlist_ranged_string env hl)"
  shows "\<exists>ts tds. task_layout_hostfile env l arb = Some (SLURM_SUCCESS, l\<lparr> tasks := ts, tids := tds \<rparr>)
     \<and> layout_ok (l\<lparr> tasks := ts, tids := tds \<rparr>) \<and> (\<forall>i<length hl. tds ! i = map of_nat (lines_of (hl ! i) 0 xs))"
proof -
  note e = assms(1) [unfolded hostfile_env_def Let_def, folded assms(2)]
  let ?ptrs = "map (find_node_record_no_alias env) xs" and ?n = "length hl"
  have L: "lines_of (find_node_record env h) 0 ?ptrs = lines_of h 0 xs" "count_list ?ptrs (find_node_record env h) = count_list xs h" if "h \<in> set hl" for h
  proof -
    show eq: "lines_of (find_node_record env h) 0 ?ptrs = lines_of h 0 xs" using that e by (intro lines_of_map) metis
    show "count_list ?ptrs (find_node_record env h) = count_list xs h" by (metis eq length_lines_of)
  qed
  have sum: "sum_list (map (\<lambda>h. count_list ?ptrs (find_node_record env h)) hl) = length xs"
    using sum_count_list [of hl xs] e L(2) by (metis (no_types, lifting) map_cong)
  have n: "?n \<le> N" using assms(8,9) by (simp add: fresh_def)
  define ts where "ts = map (\<lambda>h. of_nat (count_list xs h) :: u16) hl @ drop ?n (tasks l)"
  define tds where "tds = map (\<lambda>h. map of_nat (lines_of h 0 xs) :: u32 list) hl @ drop ?n (tids l)"
  have "find_node_record env h \<in> set ?ptrs" if "h \<in> set hl" for h using that e by auto
  then have "hostfile_loop env ?ptrs (length xs) hl 0 0 (tasks l) (tids l) = Some (ts, tds, length xs)"
    using assms(7,8) e L sum n by (subst hostfile_loop_ok) (auto simp: fresh_def ts_def tds_def)
  then have run: "task_layout_hostfile env l arb = Some (SLURM_SUCCESS, l\<lparr> tasks := ts, tids := tds \<rparr>)"
    using assms(3,4,10,11) e by (simp add: task_layout_hostfile_def Let_def)
  have small: "unat (of_nat t :: u32) = t" if "t \<in> set (lines_of h 0 xs)" for t h using that assms(6) by (intro unat_nat32) auto
  have row: "length (tds ! i) = unat (ts ! i)" "sorted_wrt (<) (tds ! i)" if "i < ?n" for i
  proof -
    have "hl ! i \<in> set xs" using that e nth_mem by blast
    then show "length (tds ! i) = unat (ts ! i)"
      using that assms(7) by (simp add: tds_def ts_def nth_append length_lines_of unat_of_nat)
    show "sorted_wrt (<) (tds ! i)" using that sorted_lines_of [of "hl ! i" 0 xs] small
      by (auto simp: tds_def nth_append sorted_wrt_map word_less_nat_alt elim!: sorted_wrt_mono_rel [rotated])
  qed
  have "map (\<lambda>t. unat (of_nat t :: u32)) (lines_of h 0 xs) = lines_of h 0 xs" for h using small by (intro map_idI)
  then have "map unat (concat (take ?n tds)) = concat (map (\<lambda>h. lines_of h 0 xs) hl)"
    by (simp add: tds_def map_concat o_def)
  then have "mset (map unat (concat (take ?n tds))) = mset [0..<length xs]" using lines_of_all e by metis
  moreover have "?n \<le> length ts" "?n \<le> length tds" by (simp_all add: ts_def tds_def)
  ultimately have "layout_ok (l\<lparr> tasks := ts, tids := tds \<rparr>)" using row assms(9,10) by (simp add: layout_ok_def Let_def)
  with run show ?thesis by (intro exI [of _ ts] exI [of _ tds]) (simp add: tds_def nth_append)
qed

subsection \<open>Creating a layout from a host file\<close>

definition hostfile_req :: "slurm_step_layout_req \<Rightarrow> string list \<Rightarrow> nat \<Rightarrow> bool" where
  "hostfile_req req xs n \<longleftrightarrow> is_arbitrary req \<and> req_node_list req \<noteq> None \<and> xs \<noteq> [] \<and> length xs < 2 ^ 31 \<and> (\<forall>h\<in>set xs. count_list xs h < 2 ^ 16)
     \<and> reps_cover (cpu_count_reps req) n \<and> length (cpus_per_node req) = length (cpu_count_reps req) \<and> cpt_ok req n"

lemma arbitrary_not_cyclic: "d AND SLURM_DIST_STATE_BASE = SLURM_DIST_ARBITRARY \<Longrightarrow> d AND SLURM_DIST_NODEMASK \<noteq> SLURM_DIST_NODECYCLIC"
proof
  assume "d AND SLURM_DIST_STATE_BASE = SLURM_DIST_ARBITRARY" "d AND SLURM_DIST_NODEMASK = SLURM_DIST_NODECYCLIC"
  then have "d AND 0xFFFF = 3" "d AND 0xF00F = 1"
    unfolding SLURM_DIST_NODEMASK_def SLURM_DIST_NODECYCLIC_def SLURM_DIST_STATE_BASE_def SLURM_DIST_ARBITRARY_def .
  moreover have "d AND 0xF00F = (d AND 0xFFFF) AND 0xF00F" by (simp add: and.assoc)
  ultimately have "(3::u32) AND 0xF00F = 1" by (simp only:)
  then show False by simp
qed

lemma destroy_ok: "unat (node_cnt l) \<le> length (tids l) \<Longrightarrow> slurm_step_layout_destroy (Some l) = Some SLURM_SUCCESS"
proof -
  assume "unat (node_cnt l) \<le> length (tids l)"
  then have "\<exists>u. for_upto (\<lambda>i u. do { row \<leftarrow> mem_get (tids l) i; Some u }) 0 (unat (node_cnt l)) () = Some u \<and> True"
    by (intro for_upto_rule) (auto simp: c_sem)
  then show ?thesis by (auto simp: slurm_step_layout_destroy_def)
qed

lemma init_hostfile:
  assumes "hostfile_env env xs" "hl = hostlist_uniq env xs" "hostlist_hosts env (req_node_list req0) = xs" and "hostfile_req req0 xs (length hl)"
    and "req = req0\<lparr> num_hosts := of_nat (length hl) \<rparr>"
    and "l0 = empty_layout\<lparr> task_dist := req_task_dist req, node_list := Some (hostlist_ranged_string env hl), task_cnt := num_tasks req,
           node_cnt := num_hosts req \<rparr>"
  shows "\<exists>l req'. init_task_layout env sp req l0 (req_node_list req)
       = Some (if unat (num_tasks req) = length xs then SLURM_SUCCESS else SLURM_ERROR, l, req')
     \<and> unat (node_cnt l) = length hl \<and> length hl \<le> length (tids l) \<and> task_cnt l = num_tasks req \<and> node_list l = node_list l0
     \<and> (unat (num_tasks req) = length xs \<longrightarrow> layout_ok l \<and> (\<forall>i<length hl. tids l ! i = map of_nat (lines_of (hl ! i) 0 xs)))"
proof -
  note e = assms(1) [unfolded hostfile_env_def Let_def, folded assms(2)] and rq = assms(4) [unfolded hostfile_req_def]
  let ?n = "length hl"
  have "?n \<le> length xs" using e by (metis card_length distinct_card)
  then have n: "unat (of_nat ?n :: u32) = ?n" using rq by (intro unat_nat32) linarith
  have pos: "0 < ?n" using e rq by auto
  have "cpt_ok req ?n" using rq assms(5) by (auto simp: cpt_ok_def split: option.splits)
  moreover have "?n \<le> unat (num_hosts req)" using n assms(5) by simp
  ultimately obtain cpt reps where d: "default_cpt req = Some (req\<lparr> cpus_per_task := Some cpt, cpus_task_reps := reps \<rparr>)"
    "length cpt = length reps" "reps_cover reps ?n" "\<forall>c\<in>set cpt. c \<noteq> 0" using default_cpt_ok by blast
  let ?req = "req\<lparr> cpus_per_task := Some cpt, cpus_task_reps := reps \<rparr>"
  from layout_cpus_ok [of ?req ?n cpt ?n] d rq assms(5) obtain cpus where cpus: "layout_cpus ?req cpt ?n ?n = Some cpus" by auto
  define l where "l = l0\<lparr> plane_size := req_plane_size req, tasks := replicate ?n 0, tids := replicate ?n [] \<rparr>"
  have l: "unat (node_cnt l) = ?n" "task_cnt l = num_tasks req" "node_list l = Some (hostlist_ranged_string env hl)" "fresh ?n l"
    "task_dist l = req_task_dist req0" "node_list l = node_list l0" "length (tids l) = ?n"
    using n pos assms(5,6) by (simp_all add: l_def fresh_def)
  have run: "init_task_layout env sp req l0 (req_node_list req) = Some (rc, l', ?req)"
    if "task_layout_hostfile env l (req_node_list req) = Some (rc, l')" for rc l'
  proof (rule init_task_layout_run [where N = ?n and l = l and cpus = cpus])
    show "node_cnt l0 \<noteq> 0" using pos n assms(5,6) by auto
    have "task_dist l AND SLURM_DIST_STATE_BASE = SLURM_DIST_ARBITRARY" using rq l(5) by (simp add: is_arbitrary_def)
    with arbitrary_not_cyclic [OF this] that show "(if task_dist l AND SLURM_DIST_NODEMASK = SLURM_DIST_NODECYCLIC then task_layout_cyclic l cpus
       else if task_dist l AND SLURM_DIST_STATE_BASE = SLURM_DIST_ARBITRARY then task_layout_hostfile env l (req_node_list req)
       else if task_dist l AND SLURM_DIST_STATE_BASE = SLURM_DIST_PLANE then task_layout_plane l cpus
       else task_layout_block (select_type_param env) sp l cpus) = Some (rc, l')" by simp
  qed (use d cpus l pos n e assms(5,6) in \<open>simp_all add: empty_layout_def l_def word_less_nat_alt\<close>)
  have arb: "hostlist_hosts env (req_node_list req) = xs" "req_node_list req \<noteq> None" using assms(3,5) rq by simp_all
  show ?thesis
  proof (cases "unat (num_tasks req) = length xs")
    case True
    with task_layout_hostfile_ok [OF assms(1,2) arb, of ?n l] rq l obtain ts tds where
      r: "task_layout_hostfile env l (req_node_list req) = Some (SLURM_SUCCESS, l\<lparr> tasks := ts, tids := tds \<rparr>)"
        "layout_ok (l\<lparr> tasks := ts, tids := tds \<rparr>)" "\<forall>i<?n. tds ! i = map of_nat (lines_of (hl ! i) 0 xs)" by auto
    with run [OF r(1)] True l show ?thesis
      by (intro exI [of _ "l\<lparr> tasks := ts, tids := tds \<rparr>"] exI [of _ ?req]) (simp add: layout_ok_def Let_def)
  next
    case False
    then have "task_layout_hostfile env l (req_node_list req) = Some (SLURM_ERROR, l)"
      using arb l(2) by (simp add: task_layout_hostfile_def Let_def)
    from run [OF this] False l show ?thesis by auto
  qed
qed

text \<open>C2. A host file with as many lines as tasks yields a complete layout over its hosts, and task \<open>t\<close> is on the host of line \<open>t\<close>;
  a file with another number of lines is refused. Neither case leaves an array.\<close>

theorem hostfile_places_by_line:
  assumes "xs = hostlist_hosts env (req_node_list req)" "hostfile_env env xs" and "hostfile_req req xs (length (hostlist_uniq env xs))"
  shows "if unat (num_tasks req) = length xs
    then \<exists>l req'. slurm_step_layout_create env select_params req = Some (Some l, req') \<and> layout_ok l
      \<and> unat (node_cnt l) = card (set xs)
      \<and> (\<forall>t<length xs. slurm_step_layout_host_name env l (int t) = Some (Some (xs ! t)))
    else \<exists>req'. slurm_step_layout_create env select_params req = Some (None, req')"
proof -
  define hl where "hl = hostlist_uniq env xs"
  note e = assms(2) [unfolded hostfile_env_def Let_def, folded hl_def] and rq = assms(3) [unfolded hostfile_req_def]
  let ?req = "req\<lparr> num_hosts := of_nat (length hl) \<rparr>"
  let ?l0 = "empty_layout\<lparr> task_dist := req_task_dist ?req, node_list := Some (hostlist_ranged_string env hl), task_cnt := num_tasks ?req,
     node_cnt := num_hosts ?req \<rparr>"
  from init_hostfile [OF assms(2) hl_def assms(1) [symmetric] assms(3) [folded hl_def] refl refl, of select_params] obtain l req' where
    i: "init_task_layout env select_params ?req ?l0 (req_node_list ?req)
       = Some (if unat (num_tasks ?req) = length xs then SLURM_SUCCESS else SLURM_ERROR, l, req')"
    and l: "unat (node_cnt l) = length hl" "length hl \<le> length (tids l)" "task_cnt l = num_tasks ?req" "node_list l = node_list ?l0"
      "unat (num_tasks ?req) = length xs \<longrightarrow> layout_ok l \<and> (\<forall>i<length hl. tids l ! i = map of_nat (lines_of (hl ! i) 0 xs))" by blast
  have hosts: "hostlist_uniq env (hostlist_hosts env (req_node_list req)) = hl" using assms(1) by (simp add: hl_def)
  have c: "slurm_step_layout_create env select_params req = (if unat (num_tasks req) = length xs then Some (Some l, req') else Some (None, req'))"
    using i l(1,2) rq by (simp add: slurm_step_layout_create_def Let_def is_arbitrary_def hosts destroy_ok)
  show ?thesis
  proof (cases "unat (num_tasks req) = length xs")
    case True
    with l have ok: "layout_ok l" "\<forall>i<length hl. tids l ! i = map of_nat (lines_of (hl ! i) 0 xs)" by simp_all
    have "slurm_step_layout_host_name env l (int t) = Some (Some (xs ! t))" if t: "t < length xs" for t
    proof -
      have small: "unat (of_nat u :: u32) = u" if "u < length xs" for u using that rq by (intro unat_nat32) linarith
      from layout_host_id [OF ok(1), of t] t True l(1,3) rq obtain i where
        i: "i < length hl" "slurm_step_layout_host_id l (int t) = Some (int i)" "of_nat t \<in> set (tids l ! i)" by auto
      then obtain u where "u < length xs" "xs ! u = hl ! i" "(of_nat t :: u32) = of_nat u" using ok(2) by auto
      then have "hl ! i = xs ! t" using small t by metis
      with i e l(4) show ?thesis by (simp add: slurm_step_layout_host_name_def Let_def)
    qed
    moreover have "length hl = card (set xs)" using e by (metis distinct_card)
    ultimately show ?thesis using True c l(1) ok(1) by auto
  qed (use c in auto)
qed

text \<open>A host file with four lines for the hosts \<open>a\<close> and \<open>b\<close>.\<close>

definition hostfile_example_env :: "string layout_env" where
  "hostfile_example_env = \<lparr> hostlist_hosts = (\<lambda>s. if s = Some ''b,a,b,b'' then [''b'', ''a'', ''b'', ''b''] else [''a'', ''b'']),
     hostlist_uniq = (\<lambda>hl. [''a'', ''b'']), hostlist_find = (\<lambda>hl s. -1), hostlist_ranged_string = (\<lambda>hl. ''[a-b]''),
     find_node_record = Some, find_node_record_no_alias = Some, select_type_param = 0 \<rparr>"

theorem hostfile_places_by_line_witness:
  "\<exists>l req'. slurm_step_layout_create hostfile_example_env 0 ((example_req 3 0 4)\<lparr> req_node_list := Some ''b,a,b,b'' \<rparr>) = Some (Some l, req')
     \<and> layout_ok l \<and> unat (node_cnt l) = 2 \<and> slurm_step_layout_host_name hostfile_example_env l 1 = Some (Some ''a'')
     \<and> slurm_step_layout_host_name hostfile_example_env l 3 = Some (Some ''b'')"
proof -
  let ?xs = "[''b'', ''a'', ''b'', ''b'']" and ?req = "(example_req 3 0 4)\<lparr> req_node_list := Some ''b,a,b,b'' \<rparr>"
  have "hostlist_hosts hostfile_example_env (req_node_list ?req) = ?xs" by (simp add: hostfile_example_env_def)
  moreover have "hostfile_env hostfile_example_env ?xs" by (auto simp: hostfile_env_def hostfile_example_env_def)
  moreover have "hostfile_req ?req ?xs (length (hostlist_uniq hostfile_example_env ?xs))"
    by (simp add: hostfile_req_def hostfile_example_env_def example_layout lessThan_nat_numeral lessThan_Suc)
  moreover have "unat (num_tasks ?req) = length ?xs" by (simp add: example_req_def)
  moreover have "set ?xs = {''a'', ''b''}" by auto
  then have "card (set ?xs) = 2" by simp
  moreover have "length ?xs = 4" by simp
  ultimately obtain l req' where "slurm_step_layout_create hostfile_example_env 0 ?req = Some (Some l, req')" "layout_ok l" "unat (node_cnt l) = 2"
    "\<forall>t<4. slurm_step_layout_host_name hostfile_example_env l (int t) = Some (Some (?xs ! t))"
    using hostfile_places_by_line [of ?xs hostfile_example_env ?req 0] by (auto split: if_splits)
  then show ?thesis by (auto dest: spec [of _ 1] spec [of _ 3])
qed

end
