(* ===== verification/Step_Layout_Merge.thy ===== *)
theory Step_Layout_Merge
  imports Step_Layout_Props
begin

text \<open>
  Merging the step layouts of the components of a heterogeneous step, \<open>slurm_step_layout_merge\<close> of
  src/common/slurm_step_layout.c. A layout is seen as a function from host names to task numbers; merging
  concatenates the two functions host by host, so no task is lost or moved.
\<close>

subsection \<open>A layout by host\<close>

definition pos_of :: "'a \<Rightarrow> 'a list \<Rightarrow> nat" where
  "pos_of h hs = length (takeWhile (\<lambda>x. x \<noteq> h) hs)"

lemma pos_of_in: "h \<in> set hs \<Longrightarrow> pos_of h hs < length hs \<and> hs ! pos_of h hs = h"
  unfolding pos_of_def by (induction hs) auto

lemma pos_of_nth: "distinct hs \<Longrightarrow> i < length hs \<Longrightarrow> pos_of (hs ! i) hs = i"
  by (metis nth_eq_iff_index_eq nth_mem pos_of_in)

lemma pos_of_append: "pos_of h (hs @ gs) = (if h \<in> set hs then pos_of h hs else length hs + pos_of h gs)"
  unfolding pos_of_def by (induction hs) auto

lemma pos_of_Cons: "pos_of h (g # hs) = (if g = h then 0 else Suc (pos_of h hs))"
  by (simp add: pos_of_def)

definition tids_at :: "string list \<Rightarrow> slurm_step_layout \<Rightarrow> string \<Rightarrow> u32 list" where
  "tids_at hs l h = (if h \<in> set hs then tids l ! pos_of h hs else [])"

definition shaped :: "string list \<Rightarrow> slurm_step_layout \<Rightarrow> bool" where
  "shaped hs l \<longleftrightarrow> distinct hs \<and> unat (node_cnt l) = length hs \<and> length (tasks l) = length hs \<and> length (tids l) = length hs
     \<and> (\<forall>i<length hs. length (tids l ! i) = unat (tasks l ! i))"

lemma tids_at_nth: "shaped hs l \<Longrightarrow> i < length hs \<Longrightarrow> tids_at hs l (hs ! i) = tids l ! i"
  by (simp add: tids_at_def shaped_def pos_of_nth)

lemma tids_by_host: "shaped hs l \<Longrightarrow> tids l = map (tids_at hs l) hs"
  by (rule nth_equalityI) (simp_all add: tids_at_nth [symmetric] shaped_def tids_at_def pos_of_nth)

lemma mset_by_host: "shaped hs l \<Longrightarrow> mset (concat (tids l)) = (\<Sum>h\<in>set hs. mset (tids_at hs l h))"
  by (subst tids_by_host, assumption) (simp add: mset_concat o_def sum_list_distinct_conv_sum_set shaped_def)

lemma tids_at_update:
  assumes "shaped hs l" "pos < length hs"
  shows "tids_at hs (l\<lparr> tasks := ts, tids := (tids l)[pos := row] \<rparr>) h = (if h = hs ! pos then row else tids_at hs l h)"
proof (cases "h \<in> set hs")
  case True
  then have "pos_of h hs = pos \<longleftrightarrow> h = hs ! pos" using assms by (metis pos_of_in pos_of_nth shaped_def)
  with True assms pos_of_in [OF True] show ?thesis by (auto simp: tids_at_def shaped_def)
qed (use assms in \<open>auto simp: tids_at_def\<close>)

subsection \<open>One host\<close>

lemma xrecalloc_grow: "length xs \<le> m \<Longrightarrow> xrecalloc z xs m = xs @ replicate (m - length xs) z"
  by (cases "m = 0") (simp_all add: xrecalloc_def)

lemma append_row:
  assumes "length row = a" "length src = b"
  shows "for_upto (\<lambda>i row. do { v \<leftarrow> mem_get src i; mem_set row (a + i) v }) 0 b (xrecalloc 0 row (a + b)) = Some (row @ src)"
proof -
  let ?I = "\<lambda>i r. r = row @ take i src @ replicate (b - i) 0"
  have "\<exists>r'. (mem_get src i \<bind> mem_set r (a + i)) = Some r' \<and> ?I (Suc i) r'" if "i < b" "?I i r" for i r
  proof -
    have "(replicate (b - i) 0)[0 := src ! i] = src ! i # replicate (b - Suc i) 0"
      using that(1) by (metis Suc_diff_Suc replicate_Suc list_update_code(2))
    with that assms show ?thesis by (simp add: c_sem list_update_append take_Suc_conv_app_nth)
  qed
  with for_upto_rule [of 0 b ?I "xrecalloc 0 row (a + b)" "\<lambda>i row. mem_get src i \<bind> mem_set row (a + i)"] assms show ?thesis
    by (auto simp: xrecalloc_grow)
qed

text \<open>The position of a host as \<open>hostlist_find\<close> documents it.\<close>

definition find_law :: "('n, 'z) layout_env_scheme \<Rightarrow> bool" where
  "find_law env \<longleftrightarrow> (\<forall>hl h. hostlist_find env hl h = (if h \<in> set hl then int (pos_of h hl) else -1))"

text \<open>A new host gets an empty row at the end.\<close>

definition with_host :: "string list \<Rightarrow> slurm_step_layout \<Rightarrow> string \<Rightarrow> string list \<times> slurm_step_layout \<times> nat" where
  "with_host hl l host = (if host \<in> set hl then (hl, l, pos_of host hl)
     else (hl @ [host], l\<lparr> node_cnt := node_cnt l + 1, tasks := xrecalloc 0 (tasks l) (unat (node_cnt l + 1)),
         tids := xrecalloc [] (tids l) (unat (node_cnt l + 1)) \<rparr>, unat (node_cnt l)))"

lemma with_host_in: "host \<in> set hl \<Longrightarrow> with_host hl l host = (hl, l, pos_of host hl)"
  by (simp add: with_host_def)

lemma with_host_ok:
  assumes "shaped hl l" "length hl + 1 < 2 ^ 32" and "with_host hl l host = (hl', l', pos)"
  shows "shaped hl' l'" "pos < length hl'" "hl' ! pos = host" "tids_at hl' l' = tids_at hl l" "task_cnt l' = task_cnt l"
    "hl' = (if host \<in> set hl then hl else hl @ [host])"
proof -
  have "unat (node_cnt l + 1) = length hl + 1" if "shaped hl l"
    using that assms(2) by (simp add: shaped_def unat_plus_if_size word_size)
  then have new: "with_host hl l host = (hl @ [host], l\<lparr> node_cnt := node_cnt l + 1, tasks := tasks l @ [0], tids := tids l @ [[]] \<rparr>, length hl)"
    "unat (node_cnt l + 1) = length hl + 1" if "host \<notin> set hl"
    using that assms(1) by (auto simp: with_host_def shaped_def xrecalloc_grow)
  show "shaped hl' l'" "pos < length hl'" "hl' ! pos = host" "task_cnt l' = task_cnt l" "hl' = (if host \<in> set hl then hl else hl @ [host])"
    using assms(1,3) new pos_of_in [of host hl] by (cases "host \<in> set hl"; auto simp: shaped_def nth_append less_Suc_eq with_host_in)+
  have "tids_at (hl @ [host]) (l\<lparr> node_cnt := c, tasks := ts, tids := tids l @ [[]] \<rparr>) h = tids_at hl l h" if "host \<notin> set hl" for h c ts
    using assms(1) that pos_of_in [of h hl] by (auto simp: tids_at_def pos_of_append pos_of_Cons nth_append shaped_def)
  then show "tids_at hl' l' = tids_at hl l" using assms(3) new by (cases "host \<in> set hl") (auto simp: with_host_def)
qed

lemma merge_host_ok:
  assumes "find_law env" "shaped hl l1" "length hl + 1 < 2 ^ 32" and "k < length (tasks l2)" "k < length (tids l2)"
    "length (tids l2 ! k) = unat (tasks l2 ! k)" and "length (tids_at hl l1 host) + length (tids l2 ! k) < 2 ^ 16"
  shows "\<exists>hl' l'. merge_host env l2 k host (hl, l1) = Some (hl', l') \<and> shaped hl' l' \<and> hl' = (if host \<in> set hl then hl else hl @ [host])
     \<and> task_cnt l' = task_cnt l1 \<and> (\<forall>h. tids_at hl' l' h = tids_at hl l1 h @ (if h = host then tids l2 ! k else []))"
proof -
  obtain hl' l pos where w: "with_host hl l1 host = (hl', l, pos)" by (metis prod.exhaust)
  note ok = with_host_ok [OF assms(2,3) w]
  let ?a = "tasks l ! pos" and ?b = "tasks l2 ! k" and ?row = "tids l ! pos" and ?src = "tids l2 ! k"
  have s: "length (tasks l) = length hl'" "length (tids l) = length hl'" "length ?row = unat ?a" using ok(1,2) by (simp_all add: shaped_def)
  have "?row = tids_at hl l1 host" using tids_at_nth [OF ok(1,2)] ok(3,4) by simp
  then have ab: "unat (?a + ?b) = unat ?a + unat ?b" using assms(6,7) s(3) by (simp add: unat_plus_if_size word_size)
  define l' where "l' = l\<lparr> tasks := (tasks l)[pos := ?a + ?b], tids := (tids l)[pos := ?row @ ?src] \<rparr>"
  have "merge_host env l2 k host (hl, l1) = (let (hl, l1, pos) = with_host hl l1 host in do {
     a \<leftarrow> mem_get (tasks l1) pos; b \<leftarrow> mem_get (tasks l2) k; ts \<leftarrow> mem_set (tasks l1) pos (a + b); row \<leftarrow> mem_get (tids l1) pos;
     src \<leftarrow> mem_get (tids l2) k;
     row \<leftarrow> for_upto (\<lambda>i row. do { v \<leftarrow> mem_get src i; mem_set row (unat a + i) v }) 0 (unat b) (xrecalloc 0 row (unat (a + b)));
     tds \<leftarrow> mem_set (tids l1) pos row; Some (hl, l1\<lparr> tasks := ts, tids := tds \<rparr>) })"
    using assms(1) by (simp add: merge_host_def with_host_def find_law_def)
  also have "\<dots> = Some (hl', l')"
    unfolding w Let_def using s ok(2) assms(4-6) append_row [OF s(3) assms(6)] by (simp add: c_sem ab l'_def)
  finally have "merge_host env l2 k host (hl, l1) = Some (hl', l')" .
  moreover have "shaped hl' l'" using ok(1,2) ab assms(6) s(3) by (auto simp: shaped_def l'_def nth_list_update)
  moreover have "tids_at hl' l' h = tids_at hl l1 h @ (if h = host then ?src else [])" for h
    using tids_at_update [OF ok(1,2)] ok(3,4) tids_at_nth [OF ok(1,2)] by (auto simp: l'_def)
  ultimately show ?thesis using ok(5,6) by (auto simp: l'_def)
qed

subsection \<open>All hosts\<close>

lemma merge_hosts_ok:
  assumes "find_law env" "shaped hl l1" "length hl + length hs < 2 ^ 32" "distinct hs"
    and "k + length hs \<le> length (tasks l2)" "k + length hs \<le> length (tids l2)"
    and "\<forall>j<length hs. length (tids l2 ! (k + j)) = unat (tasks l2 ! (k + j))
       \<and> length (tids_at hl l1 (hs ! j)) + length (tids l2 ! (k + j)) < 2 ^ 16"
  shows "\<exists>hl' l'. merge_hosts env l2 k hs (hl, l1) = Some (hl', l') \<and> shaped hl' l' \<and> hl' = hl @ filter (\<lambda>h. h \<notin> set hl) hs
     \<and> task_cnt l' = task_cnt l1 \<and> (\<forall>h. tids_at hl' l' h = tids_at hl l1 h @ (if h \<in> set hs then tids l2 ! (k + pos_of h hs) else []))"
  using assms
proof (induction hs arbitrary: k hl l1)
  case (Cons host hs)
  from Cons.prems(7) have row: "length (tids l2 ! k) = unat (tasks l2 ! k)" "length (tids_at hl l1 host) + length (tids l2 ! k) < 2 ^ 16"
    by (auto dest: spec [of _ 0])
  with merge_host_ok [OF Cons.prems(1,2), of k l2 host] Cons.prems(3,5,6) obtain hl1 l where
    one: "merge_host env l2 k host (hl, l1) = Some (hl1, l)" "shaped hl1 l" "hl1 = (if host \<in> set hl then hl else hl @ [host])"
      "task_cnt l = task_cnt l1" "\<forall>h. tids_at hl1 l h = tids_at hl l1 h @ (if h = host then tids l2 ! k else [])" by auto
  have fresh: "hs ! j \<noteq> host" if "j < length hs" for j using that Cons.prems(4) nth_mem by fastforce
  have "\<exists>hl' l'. merge_hosts env l2 (k + 1) hs (hl1, l) = Some (hl', l') \<and> shaped hl' l' \<and> hl' = hl1 @ filter (\<lambda>h. h \<notin> set hl1) hs
     \<and> task_cnt l' = task_cnt l \<and> (\<forall>h. tids_at hl' l' h = tids_at hl1 l h @ (if h \<in> set hs then tids l2 ! (k + 1 + pos_of h hs) else []))"
  proof (rule Cons.IH [OF Cons.prems(1) one(2)])
    show "\<forall>j<length hs. length (tids l2 ! (k + 1 + j)) = unat (tasks l2 ! (k + 1 + j))
       \<and> length (tids_at hl1 l (hs ! j)) + length (tids l2 ! (k + 1 + j)) < 2 ^ 16"
      using Cons.prems(7) one(5) fresh by (auto dest: spec [of _ "Suc _"])
  qed (use Cons.prems(3-6) one(3) in auto)
  then obtain hl' l' where rest: "merge_hosts env l2 (k + 1) hs (hl1, l) = Some (hl', l')" "shaped hl' l'"
    "hl' = hl1 @ filter (\<lambda>h. h \<notin> set hl1) hs" "task_cnt l' = task_cnt l"
    "\<forall>h. tids_at hl' l' h = tids_at hl1 l h @ (if h \<in> set hs then tids l2 ! (k + 1 + pos_of h hs) else [])" by blast
  have "filter (\<lambda>h. h \<notin> set (hl @ [host])) hs = filter (\<lambda>h. h \<notin> set hl) hs"
    using Cons.prems(4) by (auto intro!: filter_cong)
  then have "hl' = hl @ filter (\<lambda>h. h \<notin> set hl) (host # hs)" using rest(3) one(3) by auto
  moreover have "tids_at hl' l' h = tids_at hl l1 h @ (if h \<in> set (host # hs) then tids l2 ! (k + pos_of h (host # hs)) else [])" for h
    using rest(5) one(5) Cons.prems(4) by (auto simp: pos_of_Cons)
  ultimately show ?case using one(1,4) rest(1,2,4) by auto
qed simp

text \<open>C8. Merging two layouts over hosts \<open>hs1\<close> and \<open>hs2\<close>, where no host's tasks exceed the 16 bits of their count, yields a layout over the hosts of
  the first followed by the new ones of the second. Each host has its tasks of the first layout followed by those of the second, so that
  together they are exactly the tasks of both.\<close>

theorem merge_keeps_every_task:
  assumes "find_law env" "hs1 = hostlist_hosts env (node_list l1)" "hs2 = hostlist_hosts env (node_list l2)" and "shaped hs1 l1" "shaped hs2 l2"
    and "length hs1 + length hs2 < 2 ^ 32" "\<forall>h\<in>set hs2. length (tids_at hs1 l1 h) + length (tids_at hs2 l2 h) < 2 ^ 16"
    and "hs = hs1 @ filter (\<lambda>h. h \<notin> set hs1) hs2"
  shows "\<exists>l. slurm_step_layout_merge env l1 l2 = Some l \<and> shaped hs l \<and> node_list l = Some (hostlist_ranged_string env hs)
     \<and> task_cnt l = task_cnt l1 + task_cnt l2
     \<and> (\<forall>h. tids_at hs l h = tids_at hs1 l1 h @ tids_at hs2 l2 h)
     \<and> mset (concat (tids l)) = mset (concat (tids l1)) + mset (concat (tids l2))"
proof -
  have s2: "distinct hs2" "length (tasks l2) = length hs2" "length (tids l2) = length hs2"
    "\<forall>i<length hs2. length (tids l2 ! i) = unat (tasks l2 ! i)" using assms(5) by (simp_all add: shaped_def)
  have "\<forall>j<length hs2. length (tids_at hs1 l1 (hs2 ! j)) + length (tids l2 ! j) < 2 ^ 16" using assms(7) tids_at_nth [OF assms(5)] by (metis nth_mem)
  with merge_hosts_ok [OF assms(1,4), of hs2 0 l2] s2 assms(6,8) obtain l where
    m: "merge_hosts env l2 0 hs2 (hs1, l1) = Some (hs, l)" "shaped hs l" "task_cnt l = task_cnt l1"
      "\<forall>h. tids_at hs l h = tids_at hs1 l1 h @ tids_at hs2 l2 h" by (auto simp: tids_at_def [of hs2])
  let ?l = "l\<lparr> task_cnt := task_cnt l1 + task_cnt l2, node_list := Some (hostlist_ranged_string env hs) \<rparr>"
  have same: "shaped hs ?l" "tids_at hs ?l = tids_at hs l" using m(2) by (auto simp: shaped_def tids_at_def)
  have "set hs = set hs1 \<union> set hs2" using assms(8) by auto
  moreover have "(\<Sum>h\<in>set hs1 \<union> set hs2. mset (tids_at hs' l' h)) = (\<Sum>h\<in>set hs'. mset (tids_at hs' l' h))"
    if "set hs' \<subseteq> set hs1 \<union> set hs2" for hs' l'
    using that by (intro sum.mono_neutral_right) (auto simp: tids_at_def)
  ultimately have "mset (concat (tids ?l)) = mset (concat (tids l1)) + mset (concat (tids l2))"
    unfolding mset_by_host [OF same(1)] mset_by_host [OF assms(4)] mset_by_host [OF assms(5)] same(2) using m(4) by (simp add: sum.distrib)
  moreover have "slurm_step_layout_merge env l1 l2 = Some ?l"
    using m(1,3) assms(2,3) by (simp add: slurm_step_layout_merge_def)
  ultimately show ?thesis using same m(4) by auto
qed

text \<open>Two components that share the host \<open>b\<close>.\<close>

definition merge_example_env :: "nat layout_env" where
  "merge_example_env = \<lparr> hostlist_hosts = (\<lambda>s. if s = Some ''a,b'' then [''a'', ''b''] else [''b'', ''c'']), hostlist_uniq = id,
     hostlist_find = (\<lambda>hl h. if h \<in> set hl then int (pos_of h hl) else -1), hostlist_ranged_string = concat,
     find_node_record = (\<lambda>s. None), find_node_record_no_alias = (\<lambda>s. None), select_type_param = 0 \<rparr>"

definition merge_example :: "string \<Rightarrow> u16 list \<Rightarrow> u32 list list \<Rightarrow> slurm_step_layout" where
  "merge_example hosts ts tds = empty_layout\<lparr> node_list := Some hosts, node_cnt := of_nat (length tds), tasks := ts, tids := tds \<rparr>"

theorem merge_keeps_every_task_witness:
  "\<exists>l. slurm_step_layout_merge merge_example_env (merge_example ''a,b'' [2, 1] [[0, 1], [2]]) (merge_example ''b,c'' [1, 2] [[3], [4, 5]]) = Some l
     \<and> tids_at [''a'', ''b'', ''c''] l ''b'' = [2, 3] \<and> mset (concat (tids l)) = mset [0, 1, 2, 3, 4, 5]"
proof -
  let ?l1 = "merge_example ''a,b'' [2, 1] [[0, 1], [2]]" and ?l2 = "merge_example ''b,c'' [1, 2] [[3], [4, 5]]"
  have "find_law merge_example_env" by (simp add: find_law_def merge_example_env_def)
  moreover have "hostlist_hosts merge_example_env (node_list ?l1) = [''a'', ''b'']" "hostlist_hosts merge_example_env (node_list ?l2) = [''b'', ''c'']"
    by (simp_all add: merge_example_env_def merge_example_def)
  moreover have "shaped [''a'', ''b''] ?l1" "shaped [''b'', ''c''] ?l2" by (auto simp: shaped_def merge_example_def less_Suc_eq)
  moreover have "\<forall>h\<in>set [''b'', ''c'']. length (tids_at [''a'', ''b''] ?l1 h) + length (tids_at [''b'', ''c''] ?l2 h) < 2 ^ 16"
    by (simp add: tids_at_def pos_of_def merge_example_def)
  moreover have "tids_at [''a'', ''b''] ?l1 ''b'' = [2]" "tids_at [''b'', ''c''] ?l2 ''b'' = [3]"
    by (simp_all add: tids_at_def pos_of_def merge_example_def)
  moreover have "concat (tids ?l1) = [0, 1, 2]" "concat (tids ?l2) = [3, 4, 5]" by (simp_all add: merge_example_def)
  ultimately show ?thesis
    using merge_keeps_every_task [of merge_example_env "[''a'', ''b'']" ?l1 "[''b'', ''c'']" ?l2 "[''a'', ''b'', ''c'']"] by auto
qed

end
