(* ===== verification/Step_Layout_Pack.thy ===== *)
theory Step_Layout_Pack
  imports Step_Layout_Props Pack_Msg
begin

text \<open>
  Step layouts on the wire: \<open>pack_slurm_step_layout\<close> and \<open>unpack_slurm_step_layout\<close> over the buffers of \<^theory_text>\<open>Pack_Buf\<close>. The
  functions of the credential plugin that sign and check the node addresses are parameters.
\<close>

subsection \<open>Operations\<close>

definition SLURM_MIN_PROTOCOL_VERSION :: u16 where
  "SLURM_MIN_PROTOCOL_VERSION = push_bit 8 (drop_bit 8 (push_bit 8 44) - 3)"

definition packnull :: "(nat \<Rightarrow> bool) \<Rightarrow> buf \<Rightarrow> buf option" where
  "packnull alloc b = do { xassert (buf_magic b = BUF_MAGIC); packmem alloc [] b }"

definition pack_slurm_step_layout :: "(slurm_node_alias_addrs \<Rightarrow> u16 \<Rightarrow> string option) \<Rightarrow> (nat \<Rightarrow> bool)
    \<Rightarrow> slurm_step_layout option \<Rightarrow> u16 \<Rightarrow> buf \<Rightarrow> buf option" where
  "pack_slurm_step_layout create_net_cred alloc step_layout protocol_version b =
     (if protocol_version \<ge> SLURM_MIN_PROTOCOL_VERSION then
        (case step_layout of
           None \<Rightarrow> pack16 alloc 0 b
         | Some l \<Rightarrow> do {
             b \<leftarrow> pack16 alloc 1 b;
             b \<leftarrow> packnull alloc b;
             b \<leftarrow> packstr alloc (node_list l) b;
             b \<leftarrow> pack32 alloc (node_cnt l) b;
             b \<leftarrow> pack16 alloc (start_protocol_ver l) b;
             b \<leftarrow> pack32 alloc (task_cnt l) b;
             b \<leftarrow> pack32 alloc (task_dist l) b;
             b \<leftarrow> for_upto (\<lambda>i b. do {
                row \<leftarrow> mem_get (tids l) i;
                a \<leftarrow> mem_get (tasks l) i;
                vs \<leftarrow> mem_prefix row (unat a);
                pack32_array alloc vs b }) 0 (unat (node_cnt l)) b;
             ca \<leftarrow> mem_prefix (cpt_compact_array l) (unat (cpt_compact_cnt l));
             b \<leftarrow> pack16_array alloc ca b;
             cr \<leftarrow> mem_prefix (cpt_compact_reps l) (unat (cpt_compact_cnt l));
             b \<leftarrow> pack32_array alloc cr b;
             case alias_addrs l of
               Some a \<Rightarrow> packstr alloc (create_net_cred a protocol_version) b
             | None \<Rightarrow> packnull alloc b })
      else Some b)"

text \<open>\<open>unpack_error\<close>, and an unpack macro that jumps there. The result is the return code, the value of \<open>*layout\<close>
  and the buffer.\<close>

type_synonym unpacked = "(layout_rc \<times> slurm_step_layout option \<times> buf) option"

definition unpack_error :: "slurm_step_layout option \<Rightarrow> buf \<Rightarrow> unpacked" where
  "unpack_error step_layout b = do { slurm_step_layout_destroy step_layout; Some (SLURM_ERROR, None, b) }"

definition safe :: "slurm_step_layout option \<Rightarrow> ('v option \<times> buf) option \<Rightarrow> ('v \<Rightarrow> buf \<Rightarrow> unpacked) \<Rightarrow> unpacked" where
  "safe step_layout u k = do { (r, b) \<leftarrow> u; case r of None \<Rightarrow> unpack_error step_layout b | Some v \<Rightarrow> k v b }"

fun unpack_rows :: "(nat \<Rightarrow> bool) \<Rightarrow> nat \<Rightarrow> nat \<Rightarrow> slurm_step_layout \<Rightarrow> buf \<Rightarrow> (bool \<times> slurm_step_layout \<times> buf) option" where
  "unpack_rows alloc 0 i l b = Some (True, l, b)"
| "unpack_rows alloc (Suc m) i l b = do {
     (r, b) \<leftarrow> unpack32_array alloc b;
     case r of
       None \<Rightarrow> Some (False, l, b)
     | Some vs \<Rightarrow> do {
         tds \<leftarrow> mem_set (tids l) i vs;
         ts \<leftarrow> mem_set (tasks l) i (of_nat (length vs));
         unpack_rows alloc m (i + 1) (l\<lparr> tids := tds, tasks := ts \<rparr>) b } }"

text \<open>The arrays at the end of the message and the addresses.\<close>

definition unpack_tail :: "(string \<Rightarrow> u16 \<Rightarrow> slurm_node_alias_addrs option) \<Rightarrow> bool \<Rightarrow> (nat \<Rightarrow> bool) \<Rightarrow> u16
    \<Rightarrow> slurm_step_layout \<Rightarrow> buf \<Rightarrow> unpacked" where
  "unpack_tail extract_net_cred dbd alloc protocol_version l b =
     safe (Some l) (unpack16_array alloc b) (\<lambda>ca b.
       let l = l\<lparr> cpt_compact_array := ca, cpt_compact_cnt := of_nat (length ca) \<rparr> in
     safe (Some l) (unpack32_array alloc b) (\<lambda>cr b.
       let l = l\<lparr> cpt_compact_reps := cr \<rparr> in do {
       xassert (of_nat (length cr) = cpt_compact_cnt l);
       safe (Some l) (safe_unpackstr dbd alloc b) (\<lambda>tmp_str b.
         case tmp_str of
           None \<Rightarrow> Some (SLURM_SUCCESS, Some l, b)
         | Some s \<Rightarrow> (case extract_net_cred s protocol_version of
               None \<Rightarrow> unpack_error (Some l) b
             | Some a \<Rightarrow> Some (SLURM_SUCCESS, Some (l\<lparr> alias_addrs := Some (a\<lparr> net_cred := Some s \<rparr>) \<rparr>), b))) }))"

definition unpack_nodes :: "(string \<Rightarrow> u16 \<Rightarrow> slurm_node_alias_addrs option) \<Rightarrow> bool \<Rightarrow> (nat \<Rightarrow> bool) \<Rightarrow> u16
    \<Rightarrow> slurm_step_layout \<Rightarrow> buf \<Rightarrow> unpacked" where
  "unpack_nodes extract_net_cred dbd alloc protocol_version l b = (let n = unat (node_cnt l) in
     if n \<noteq> 0 \<and> \<not> alloc (n * 4) then unpack_error (Some l) b
     else let l = l\<lparr> tasks := replicate n 0 \<rparr> in
     if n \<noteq> 0 \<and> \<not> alloc (n * 8) then unpack_error (Some l) b
     else do {
       (success, l, b) \<leftarrow> unpack_rows alloc n 0 (l\<lparr> tids := replicate n [] \<rparr>) b;
       if \<not> success then unpack_error (Some l) b else unpack_tail extract_net_cred dbd alloc protocol_version l b })"

definition unpack_slurm_step_layout :: "(string \<Rightarrow> u16 \<Rightarrow> slurm_node_alias_addrs option) \<Rightarrow> bool \<Rightarrow> (nat \<Rightarrow> bool)
    \<Rightarrow> slurm_step_layout option \<Rightarrow> u16 \<Rightarrow> buf \<Rightarrow> unpacked" where
  "unpack_slurm_step_layout extract_net_cred dbd alloc layout protocol_version b =
     (if protocol_version \<ge> SLURM_MIN_PROTOCOL_VERSION then
        safe None (unpack16 b) (\<lambda>tag b.
          if tag = 0 then Some (SLURM_SUCCESS, layout, b)
          else let l = empty_layout in
        safe (Some l) (safe_unpackstr dbd alloc b) (\<lambda>skipped b.
        safe (Some l) (safe_unpackstr dbd alloc b) (\<lambda>s b. let l = l\<lparr> node_list := s \<rparr> in
        safe (Some l) (unpack32 b) (\<lambda>v b. let l = l\<lparr> node_cnt := v \<rparr> in
        safe (Some l) (unpack16 b) (\<lambda>v b. let l = l\<lparr> start_protocol_ver := v \<rparr> in
        safe (Some l) (unpack32 b) (\<lambda>v b. let l = l\<lparr> task_cnt := v \<rparr> in
        safe (Some l) (unpack32 b) (\<lambda>v b. let l = l\<lparr> task_dist := v \<rparr> in
          unpack_nodes extract_net_cred dbd alloc protocol_version l b)))))))
      else unpack_error None b)"

subsection \<open>Reading what was written\<close>

lemma safe_read: "u = Some (Some v, b) \<Longrightarrow> safe l u k = k v b"
  by (simp add: safe_def)

text \<open>The buffer \<open>b\<close> is valid and continues with the bytes \<open>bs\<close>.\<close>

definition ahead :: "buf \<Rightarrow> u8 list \<Rightarrow> bool" where
  "ahead b bs \<longleftrightarrow> buf_ok b \<and> buf_rest b = bs"

lemma ahead_field:
  assumes "ahead b (field_enc f @ r)"
  shows "ahead (advance b (length (field_enc f))) r"
  using assms by (simp add: ahead_def)

lemma mapv_inj: "inj f \<Longrightarrow> mapv f u = Some (Some (f v), b) \<Longrightarrow> u = Some (Some v, b)"
  by (cases u) (auto simp: mapv_def map_prod_def inj_def split: prod.splits)

lemma read_ahead:
  assumes "ahead b (field_enc f @ r)" "field_good f" "\<forall>k. alloc k"
  shows "unpack_kind alloc (kind_of f) b = Some (Some f, advance b (length (field_enc f)))"
  using field_read [of b f alloc r] assms by (simp add: ahead_def)

lemmas read_u16 = read_ahead [of _ "F16 v" for v, unfolded kind_of.simps unpack_kind.simps, THEN mapv_inj [rotated]]
  and read_u32 = read_ahead [of _ "F32 v" for v, unfolded kind_of.simps unpack_kind.simps, THEN mapv_inj [rotated]]
  and read_str = read_ahead [of _ "FStr v" for v, unfolded kind_of.simps unpack_kind.simps, THEN mapv_inj [rotated]]
  and read_u16s = read_ahead [of _ "F16s v" for v, unfolded kind_of.simps unpack_kind.simps, THEN mapv_inj [rotated]]
  and read_u32s = read_ahead [of _ "F32s v" for v, unfolded kind_of.simps unpack_kind.simps, THEN mapv_inj [rotated]]

definition layout_fields :: "slurm_step_layout \<Rightarrow> string option \<Rightarrow> field list" where
  "layout_fields l net = [F16 1, FStr None, FStr (node_list l), F32 (node_cnt l), F16 (start_protocol_ver l), F32 (task_cnt l),
     F32 (task_dist l)] @ map F32s (take (unat (node_cnt l)) (tids l)) @ [F16s (cpt_compact_array l), F32s (cpt_compact_reps l), FStr net]"

abbreviation encs :: "field list \<Rightarrow> u8 list" where
  "encs fs \<equiv> concat (map field_enc fs)"

text \<open>A layout whose arrays have the lengths the struct says.\<close>

definition wire_ok :: "slurm_step_layout \<Rightarrow> bool" where
  "wire_ok l \<longleftrightarrow> layout_ok l \<and> length (cpt_compact_array l) = unat (cpt_compact_cnt l)
     \<and> length (cpt_compact_reps l) = unat (cpt_compact_cnt l) \<and> str_good (node_list l)"

lemma wire_okD:
  assumes "wire_ok l"
  shows "unat (node_cnt l) \<le> length (tasks l)" "unat (node_cnt l) \<le> length (tids l)"
    "\<And>i. i < unat (node_cnt l) \<Longrightarrow> length (tids l ! i) = unat (tasks l ! i)"
    "length (cpt_compact_array l) = unat (cpt_compact_cnt l)" "length (cpt_compact_reps l) = unat (cpt_compact_cnt l)" "str_good (node_list l)"
  using assms by (auto simp: wire_ok_def layout_ok_def Let_def)

lemma row_short:
  assumes "wire_ok l" "row \<in> set (take (unat (node_cnt l)) (tids l))"
  shows "length row < 2 ^ 16"
proof -
  from assms(2) obtain i where i: "i < unat (node_cnt l)" "row = tids l ! i" "i < length (tids l)"
    by (auto simp: in_set_conv_nth)
  have "unat (tasks l ! i) < 2 ^ LENGTH(16)" by (rule unsigned_less)
  with wire_okD(3) [OF assms(1) i(1)] i(2) show ?thesis by simp
qed

lemma u32_short: "unat (v::u32) < 2 ^ 32"
proof -
  have "unat v < 2 ^ LENGTH(32)" by (rule unsigned_less)
  then show ?thesis by simp
qed

lemma layout_fields_good:
  assumes "wire_ok l" "str_good net"
  shows "\<forall>f\<in>set (layout_fields l net). field_good f"
  using assms wire_okD [OF assms(1)] row_short [OF assms(1)] u32_short [of "cpt_compact_cnt l"]
  by (fastforce simp: layout_fields_def str_good_def)

subsubsection \<open>Packing\<close>

lemma packnull_alt: "packnull alloc b = packstr alloc None b"
  by (simp add: packnull_def packstr_def)

lemma pack_rows:
  assumes "wire_ok l" "i \<le> unat (node_cnt l)"
  shows "for_upto (\<lambda>i b. do { row \<leftarrow> mem_get (tids l) i; a \<leftarrow> mem_get (tasks l) i; vs \<leftarrow> mem_prefix row (unat a); pack32_array alloc vs b })
      i (unat (node_cnt l)) b = pack_each (pack_field alloc) (map F32s (drop i (take (unat (node_cnt l)) (tids l)))) b"
  using assms(2)
proof (induction "unat (node_cnt l) - i" arbitrary: i b)
  case 0
  then show ?case by simp
next
  case (Suc m)
  let ?n = "unat (node_cnt l)"
  have i: "i < ?n" using Suc by simp
  note w = wire_okD [OF assms(1)]
  have "drop i (take ?n (tids l)) = tids l ! i # drop (Suc i) (take ?n (tids l))"
    using i w(2) by (metis Cons_nth_drop_Suc length_take min.absorb2 nth_take)
  moreover have "mem_prefix (tids l ! i) (unat (tasks l ! i)) = Some (tids l ! i)" using w(3) [OF i] by (simp add: mem_prefix_def)
  moreover have "for_upto (\<lambda>i b. do { row \<leftarrow> mem_get (tids l) i; a \<leftarrow> mem_get (tasks l) i; vs \<leftarrow> mem_prefix row (unat a); pack32_array alloc vs b })
      (Suc i) ?n = pack_each (pack_field alloc) (map F32s (drop (Suc i) (take ?n (tids l))))"
    using i Suc.hyps by (intro ext) simp
  ultimately show ?case using i w(1,2) by (subst for_upto_step) (simp_all add: c_sem)
qed

lemma pack_each_append: "pack_each p (xs @ ys) b = pack_each p xs b \<bind> pack_each p ys"
proof (induction xs arbitrary: b)
  case (Cons x xs)
  then have "pack_each p (xs @ ys) = (\<lambda>b. pack_each p xs b \<bind> pack_each p ys)" by (intro ext)
  then show ?case by simp
qed simp

lemma pack_each_funs:
  "pack_each p [] = Some" "pack_each p (x # xs) = (\<lambda>b. p x b \<bind> pack_each p xs)"
  "pack_each p (xs @ ys) = (\<lambda>b. pack_each p xs b \<bind> pack_each p ys)"
  by (auto simp: pack_each_append)

lemma pack_layout_fields:
  assumes "wire_ok l" "SLURM_MIN_PROTOCOL_VERSION \<le> pv"
  shows "pack_slurm_step_layout cred alloc (Some l) pv b
     = pack_each (pack_field alloc) (layout_fields l (case alias_addrs l of None \<Rightarrow> None | Some a \<Rightarrow> cred a pv)) b"
proof -
  note w = wire_okD [OF assms(1)]
  have "mem_prefix (cpt_compact_array l) (unat (cpt_compact_cnt l)) = Some (cpt_compact_array l)"
    "mem_prefix (cpt_compact_reps l) (unat (cpt_compact_cnt l)) = Some (cpt_compact_reps l)" using w by (simp_all add: mem_prefix_def)
  with assms pack_rows [OF assms(1), of 0 alloc] show ?thesis
    by (auto simp: pack_slurm_step_layout_def layout_fields_def pack_each_funs packnull_alt split: option.splits)
qed

subsubsection \<open>Unpacking\<close>

lemma unpack_rows_ok:
  assumes "ahead b (encs (map F32s rows) @ r)" "\<forall>row\<in>set rows. length row < 2 ^ 16" "\<forall>k. alloc k"
    and "i + length rows = length (tids l)" "i + length rows = length (tasks l)"
  shows "unpack_rows alloc (length rows) i l b = Some (True,
     l\<lparr> tids := take i (tids l) @ rows, tasks := take i (tasks l) @ map (\<lambda>row. of_nat (length row)) rows \<rparr>,
     advance b (length (encs (map F32s rows))))"
  using assms(1,2,4,5)
proof (induction rows arbitrary: i l b)
  case Nil
  then show ?case by (simp add: advance_def)
next
  case (Cons row rows)
  let ?b = "advance b (length (field_enc (F32s row)))"
  let ?l = "l\<lparr> tids := (tids l)[i := row], tasks := (tasks l)[i := of_nat (length row)] \<rparr>"
  have a: "ahead b (field_enc (F32s row) @ encs (map F32s rows) @ r)" using Cons.prems(1) by simp
  have "unpack32_array alloc b = Some (Some row, ?b)"
    using read_u32s [OF a _ assms(3)] Cons.prems(2) by (simp add: inj_def)
  moreover have "unpack_rows alloc (length rows) (i + 1) ?l ?b = Some (True,
     ?l\<lparr> tids := take (i + 1) (tids ?l) @ rows, tasks := take (i + 1) (tasks ?l) @ map (\<lambda>row. of_nat (length row)) rows \<rparr>,
     advance ?b (length (encs (map F32s rows))))"
    using ahead_field [OF a] Cons.prems by (intro Cons.IH) simp_all
  moreover have "take (i + 1) ((tids l)[i := row]) = take i (tids l) @ [row]"
    "take (i + 1) ((tasks l)[i := of_nat (length row)]) = take i (tasks l) @ [of_nat (length row)]"
    using Cons.prems(3,4) by (simp_all add: take_Suc_conv_app_nth)
  moreover have "i < length (tids l)" "i < length (tasks l)" using Cons.prems(3,4) by auto
  ultimately show ?case by (simp add: c_sem add.assoc)
qed

definition got_alias :: "(string \<Rightarrow> u16 \<Rightarrow> slurm_node_alias_addrs option) \<Rightarrow> u16 \<Rightarrow> string option \<Rightarrow> slurm_node_alias_addrs option" where
  "got_alias ex pv net = (case net of None \<Rightarrow> None | Some s \<Rightarrow> map_option (\<lambda>a. a\<lparr> net_cred := Some s \<rparr>) (ex s pv))"

lemma unpack_tail_ok:
  assumes "ahead b (encs [F16s ca, F32s cr, FStr net] @ r)" "\<forall>k. alloc k" "length ca < 2 ^ 32" "length cr = length ca" "str_good net"
    and "\<forall>s. net = Some s \<longrightarrow> ex s pv \<noteq> None" "alias_addrs l = None"
  shows "unpack_tail ex False alloc pv l b = Some (SLURM_SUCCESS,
     Some (l\<lparr> cpt_compact_array := ca, cpt_compact_cnt := of_nat (length ca), cpt_compact_reps := cr, alias_addrs := got_alias ex pv net \<rparr>),
     advance b (length (encs [F16s ca, F32s cr, FStr net])))"
proof -
  let ?b1 = "advance b (length (field_enc (F16s ca)))"
  let ?b2 = "advance ?b1 (length (field_enc (F32s cr)))"
  have a0: "ahead b (field_enc (F16s ca) @ field_enc (F32s cr) @ field_enc (FStr net) @ r)" using assms(1) by simp
  note a1 = ahead_field [OF a0] and a2 = ahead_field [OF ahead_field [OF a0]]
  have r0: "unpack16_array alloc b = Some (Some ca, ?b1)" using read_u16s [OF a0 _ assms(2)] assms(3) by (simp add: inj_def)
  have r1: "unpack32_array alloc ?b1 = Some (Some cr, ?b2)" using read_u32s [OF a1 _ assms(2)] assms(3,4) by (simp add: inj_def)
  have r2: "safe_unpackstr False alloc ?b2 = Some (Some net, advance ?b2 (length (field_enc (FStr net))))"
    using read_str [OF a2 _ assms(2)] assms(5) by (simp add: inj_def)
  have adv: "advance ?b2 (length (field_enc (FStr net))) = advance b (length (encs [F16s ca, F32s cr, FStr net]))"
    by (simp add: add.assoc)
  show ?thesis
    unfolding unpack_tail_def safe_read [OF r0] Let_def safe_read [OF r1] safe_read [OF r2] adv
    using assms(4,6,7) by (auto simp: got_alias_def split: option.splits)
qed

lemma unpack_nodes_ok:
  assumes "ahead b (encs (map F32s rows @ [F16s ca, F32s cr, FStr net]) @ r)" "\<forall>k. alloc k" "\<forall>row\<in>set rows. length row < 2 ^ 16"
    and "length ca < 2 ^ 32" "length cr = length ca" "str_good net" "\<forall>s. net = Some s \<longrightarrow> ex s pv \<noteq> None" "alias_addrs l = None"
    and "unat (node_cnt l) = length rows"
  shows "unpack_nodes ex False alloc pv l b = Some (SLURM_SUCCESS,
     Some (l\<lparr> tasks := map (\<lambda>row. of_nat (length row)) rows, tids := rows, cpt_compact_array := ca, cpt_compact_cnt := of_nat (length ca),
       cpt_compact_reps := cr, alias_addrs := got_alias ex pv net \<rparr>),
     advance b (length (encs (map F32s rows @ [F16s ca, F32s cr, FStr net]))))"
proof -
  let ?l0 = "l\<lparr> tasks := replicate (length rows) 0, tids := replicate (length rows) [] \<rparr>"
  let ?l1 = "l\<lparr> tasks := map (\<lambda>row. of_nat (length row)) rows, tids := rows \<rparr>"
  let ?b1 = "advance b (length (encs (map F32s rows)))"
  have a0: "ahead b (encs (map F32s rows) @ encs [F16s ca, F32s cr, FStr net] @ r)" using assms(1) by simp
  have "unpack_rows alloc (length rows) 0 ?l0 b = Some (True, ?l1, ?b1)"
    using unpack_rows_ok [OF a0 assms(3,2), of 0 ?l0] by simp
  moreover have "ahead ?b1 (encs [F16s ca, F32s cr, FStr net] @ r)"
    using a0 by (simp add: ahead_def)
  from unpack_tail_ok [where ex = ex and pv = pv and l = ?l1, OF this assms(2,4,5,6,7)]
  have "unpack_tail ex False alloc pv ?l1 ?b1 = Some (SLURM_SUCCESS, Some (?l1\<lparr> cpt_compact_array := ca, cpt_compact_cnt := of_nat (length ca),
     cpt_compact_reps := cr, alias_addrs := got_alias ex pv net \<rparr>), advance ?b1 (length (encs [F16s ca, F32s cr, FStr net])))"
    using assms(8) by simp
  ultimately show ?thesis unfolding unpack_nodes_def Let_def assms(9) using assms(2) by (simp add: add.assoc)
qed

text \<open>What arrives: the first \<open>node_cnt\<close> rows and counts; the plane size is not sent.\<close>

definition arrived :: "(string \<Rightarrow> u16 \<Rightarrow> slurm_node_alias_addrs option) \<Rightarrow> u16 \<Rightarrow> string option \<Rightarrow> slurm_step_layout \<Rightarrow> slurm_step_layout" where
  "arrived ex pv net l = l\<lparr> plane_size := 0, tasks := take (unat (node_cnt l)) (tasks l), tids := take (unat (node_cnt l)) (tids l),
     alias_addrs := got_alias ex pv net \<rparr>"

lemma unpack_layout_ok:
  assumes "wire_ok l" "SLURM_MIN_PROTOCOL_VERSION \<le> pv" "ahead b (encs (layout_fields l net) @ r)" "\<forall>k. alloc k" "str_good net"
    and "\<forall>s. net = Some s \<longrightarrow> ex s pv \<noteq> None"
  shows "unpack_slurm_step_layout ex False alloc layout pv b
     = Some (SLURM_SUCCESS, Some (arrived ex pv net l), advance b (length (encs (layout_fields l net))))"
proof -
  let ?rows = "take (unat (node_cnt l)) (tids l)" and ?n = "unat (node_cnt l)"
  note w = wire_okD [OF assms(1)]
  let ?tail = "encs (map F32s ?rows @ [F16s (cpt_compact_array l), F32s (cpt_compact_reps l), FStr net]) @ r"
  have a0: "ahead b (field_enc (F16 1) @ field_enc (FStr None) @ field_enc (FStr (node_list l)) @ field_enc (F32 (node_cnt l))
      @ field_enc (F16 (start_protocol_ver l)) @ field_enc (F32 (task_cnt l)) @ field_enc (F32 (task_dist l)) @ ?tail)"
    using assms(3) by (simp add: layout_fields_def)
  note a1 = ahead_field [OF a0] note a2 = ahead_field [OF a1] note a3 = ahead_field [OF a2] note a4 = ahead_field [OF a3]
  note a5 = ahead_field [OF a4] note a6 = ahead_field [OF a5] note a7 = ahead_field [OF a6]
  have inj: "inj F16" "inj F32" "inj FStr" by (simp_all add: inj_def)
  note r0 = read_u16 [OF a0 _ assms(4) inj(1), unfolded field_good.simps, OF TrueI] and r1 = read_str [OF a1 _ assms(4) inj(3), unfolded field_good.simps]
    and r2 = read_str [OF a2 _ assms(4) inj(3), unfolded field_good.simps, OF w(6)] and r3 = read_u32 [OF a3 _ assms(4) inj(2), unfolded field_good.simps, OF TrueI]
    and r4 = read_u16 [OF a4 _ assms(4) inj(1), unfolded field_good.simps, OF TrueI] and r5 = read_u32 [OF a5 _ assms(4) inj(2), unfolded field_good.simps, OF TrueI]
    and r6 = read_u32 [OF a6 _ assms(4) inj(2), unfolded field_good.simps, OF TrueI]
  have nil: "str_good None" by (simp add: str_good_def)
  have ts: "map (\<lambda>row. of_nat (length row)) ?rows = take ?n (tasks l)"
    using w(1-3) by (intro nth_equalityI) simp_all
  have rows: "\<forall>row\<in>set ?rows. length row < 2 ^ 16" using row_short [OF assms(1)] by blast
  let ?l = "empty_layout\<lparr> node_list := node_list l, node_cnt := node_cnt l, start_protocol_ver := start_protocol_ver l,
      task_cnt := task_cnt l, task_dist := task_dist l \<rparr>"
  have la: "alias_addrs ?l = None" "unat (node_cnt ?l) = length ?rows" using w(2) by (simp_all add: empty_layout_def)
  have lens: "length (cpt_compact_array l) < 2 ^ 32" "length (cpt_compact_reps l) = length (cpt_compact_array l)"
    using w(4,5) u32_short [of "cpt_compact_cnt l"] by simp_all
  note nodes = unpack_nodes_ok [where ex = ex and pv = pv, OF a7 assms(4) rows lens assms(5,6) la]
  show ?thesis
    unfolding unpack_slurm_step_layout_def if_P [OF assms(2)]
    by (simp only: Let_def safe_read [OF r0] one_neq_zero if_False safe_read [OF r1 [OF nil]] safe_read [OF r2] safe_read [OF r3]
        safe_read [OF r4] safe_read [OF r5] safe_read [OF r6] nodes)
      (simp add: ts arrived_def empty_layout_def layout_fields_def w(4) add.assoc)
qed

subsection \<open>Properties\<close>

lemma arrived_find_row:
  assumes "i + m \<le> unat (node_cnt l)"
  shows "find_row (arrived ex pv net l) i m v = find_row l i m v"
  using assms
proof (induction m arbitrary: i)
  case (Suc m)
  have "mem_get (tasks (arrived ex pv net l)) i = mem_get (tasks l) i" "mem_get (tids (arrived ex pv net l)) i = mem_get (tids l) i"
    using Suc.prems by (simp_all add: arrived_def mem_get_def)
  with Suc show ?case by (simp cong: if_cong)
qed simp

lemma arrived_host_id:
  assumes "unat (node_cnt l) \<le> length (tasks l)" "unat (node_cnt l) \<le> length (tids l)"
  shows "slurm_step_layout_host_id (arrived ex pv net l) t = slurm_step_layout_host_id l t"
  using arrived_find_row [of 0 "unat (node_cnt l)" l] by (auto simp: slurm_step_layout_host_id_def arrived_def)

lemma arrived_ok: "layout_ok l \<Longrightarrow> layout_ok (arrived ex pv net l)"
  by (simp add: layout_ok_def arrived_def Let_def)

text \<open>C16. A complete layout that is packed and unpacked arrives with the same nodes, tasks and CPUs per task, its node addresses
  carry the credential they were sent with, and every task is found on the same node as before. The plane size is not sent.\<close>

theorem layout_wire_roundtrip:
  assumes "buf_ok b" "processed b = 0" "SLURM_MIN_PROTOCOL_VERSION \<le> pv" and "wire_ok l"
    and "net = (case alias_addrs l of None \<Rightarrow> None | Some a \<Rightarrow> create_net_cred a pv)"
    and "\<forall>a. alias_addrs l = Some a \<longrightarrow> (\<exists>s. create_net_cred a pv = Some s \<and> str_good (Some s) \<and> extract_net_cred s pv = Some a)"
    and "growable alloc b (length (encs (layout_fields l net)))"
  shows "\<exists>b1 l'. pack_slurm_step_layout create_net_cred alloc (Some l) pv b = Some b1
     \<and> unpack_slurm_step_layout extract_net_cred False alloc layout pv (b1\<lparr> processed := 0 \<rparr>) = Some (SLURM_SUCCESS, Some l', b1)
     \<and> l' = l\<lparr> plane_size := 0, tasks := take (unat (node_cnt l)) (tasks l), tids := take (unat (node_cnt l)) (tids l),
          alias_addrs := map_option (\<lambda>a. a\<lparr> net_cred := create_net_cred a pv \<rparr>) (alias_addrs l) \<rparr>
     \<and> layout_ok l' \<and> (\<forall>t. slurm_step_layout_host_id l' t = slurm_step_layout_host_id l t)"
proof -
  have net: "str_good net" "\<forall>s. net = Some s \<longrightarrow> extract_net_cred s pv \<noteq> None"
    and got: "got_alias extract_net_cred pv net = map_option (\<lambda>a. a\<lparr> net_cred := create_net_cred a pv \<rparr>) (alias_addrs l)"
    using assms(5,6) by (auto simp: str_good_def got_alias_def split: option.splits)
  let ?fs = "layout_fields l net"
  obtain b1 where b1: "pack_each (pack_field alloc) ?fs b = Some b1" "appended b (encs ?fs) b1"
    using fields_write [OF assms(1) layout_fields_good [OF assms(4) net(1)] assms(7)] by blast
  have d: "take (processed b1) (head b1) = encs ?fs" "processed b1 = length (encs ?fs)" "buf_ok b1"
    using b1(2) assms(2) by (auto simp: appended_def buf_data_def)
  let ?b = "b1\<lparr> processed := 0 \<rparr>"
  have "ahead ?b (encs ?fs @ drop (processed b1) (head b1))"
    using d append_take_drop_id [of "processed b1" "head b1"] by (simp add: ahead_def buf_ok_def buf_rest_def)
  from unpack_layout_ok [where ex = extract_net_cred and alloc = alloc and layout = layout, OF assms(4,3) this _ net] assms(7)
  have "unpack_slurm_step_layout extract_net_cred False alloc layout pv ?b
      = Some (SLURM_SUCCESS, Some (arrived extract_net_cred pv net l), advance ?b (processed b1))" by (simp add: growable_def d(2))
  moreover have "advance ?b (processed b1) = b1" by (simp add: advance_def)
  moreover have "pack_slurm_step_layout create_net_cred alloc (Some l) pv b = Some b1"
    using pack_layout_fields [OF assms(4,3), of create_net_cred alloc b] b1(1) assms(5) by simp
  moreover have "layout_ok l" using assms(4) by (simp add: wire_ok_def)
  moreover have "arrived extract_net_cred pv net l = l\<lparr> plane_size := 0, tasks := take (unat (node_cnt l)) (tasks l),
      tids := take (unat (node_cnt l)) (tids l), alias_addrs := map_option (\<lambda>a. a\<lparr> net_cred := create_net_cred a pv \<rparr>) (alias_addrs l) \<rparr>"
    by (simp add: arrived_def got)
  ultimately show ?thesis using arrived_ok arrived_host_id [OF wire_okD(1,2) [OF assms(4)]] by metis
qed

text \<open>C17. A message that ends after the number of nodes crashes its reader: the error path destroys the half-built layout, which has a
  number of nodes and no rows, and follows the null pointer.\<close>

theorem layout_unpack_crash:
  assumes "buf_ok b" "SLURM_MIN_PROTOCOL_VERSION \<le> pv" "\<forall>k. alloc k" "str_good nodes" "n \<noteq> 0"
    and "buf_rest b = encs [F16 1, FStr None, FStr nodes, F32 n] @ r" "length r < 2"
  shows "unpack_slurm_step_layout extract_net_cred False alloc layout pv b = None"
proof -
  have a0: "ahead b (field_enc (F16 1) @ field_enc (FStr None) @ field_enc (FStr nodes) @ field_enc (F32 n) @ r)"
    using assms(1,6) by (simp add: ahead_def)
  note a1 = ahead_field [OF a0] note a2 = ahead_field [OF a1] note a3 = ahead_field [OF a2] note a4 = ahead_field [OF a3]
  have inj: "inj F16" "inj F32" "inj FStr" by (simp_all add: inj_def)
  have nil: "str_good None" by (simp add: str_good_def)
  note r0 = read_u16 [OF a0 _ assms(3) inj(1), unfolded field_good.simps, OF TrueI]
    and r1 = read_str [OF a1 _ assms(3) inj(3), unfolded field_good.simps, OF nil]
    and r2 = read_str [OF a2 _ assms(3) inj(3), unfolded field_good.simps, OF assms(4)]
    and r3 = read_u32 [OF a3 _ assms(3) inj(2), unfolded field_good.simps, OF TrueI]
  have short: "unpack16 b' = Some (None, b')" if "ahead b' r" for b'
    using that assms(7) by (simp add: ahead_def unpack16_def unpack_bytes_ok)
  have "unpack_error (Some l) b' = None" if "tids l = []" "node_cnt l = n" for l b'
  proof -
    have "0 < unat n" using assms(5) by (simp add: unat_gt_0)
    with that show ?thesis by (simp add: unpack_error_def slurm_step_layout_destroy_def for_upto_step mem_get_def)
  qed
  then show ?thesis
    unfolding unpack_slurm_step_layout_def if_P [OF assms(2)]
    by (simp only: Let_def safe_read [OF r0] one_neq_zero if_False safe_read [OF r1] safe_read [OF r2] safe_read [OF r3])
      (simp add: safe_def short [OF a4, simplified] empty_layout_def)
qed

lemma buf_example_rest: "buf_rest (buf_example bs) = bs"
  by (simp add: buf_rest_def buf_example_def)

theorem layout_unpack_crash_witness:
  "unpack_slurm_step_layout (\<lambda>s v. None) False (\<lambda>_. True) None SLURM_MIN_PROTOCOL_VERSION
     (buf_example (encs [F16 1, FStr None, FStr (Some ''a''), F32 2])) = None"
proof (rule layout_unpack_crash [where r = "[]" and nodes = "Some ''a''" and n = 2])
  show "buf_ok (buf_example (encs [F16 1, FStr None, FStr (Some ''a''), F32 2]))"
    by (rule buf_example_ok) (simp add: mem_enc_def mem_of_def str_bytes_def)
qed (simp_all add: buf_example_rest str_good_def buf_consts)

text \<open>Two nodes, with the tasks 0 and 2 on the first.\<close>

definition example_alias :: slurm_node_alias_addrs where
  "example_alias = \<lparr> expiration = 5, net_cred = None, node_addrs = [[1, 2]], alias_node_cnt = 1, alias_node_list = Some ''a'' \<rparr>"

definition example_sent :: slurm_step_layout where
  "example_sent = \<lparr> cpt_compact_array = [1], cpt_compact_cnt = 1, cpt_compact_reps = [2], alias_addrs = Some example_alias, node_cnt = 2,
     node_list = Some ''a,b'', plane_size = 0, start_protocol_ver = 11264, tasks = [2, 1], task_cnt = 3, task_dist = 1, tids = [[0, 2], [1]] \<rparr>"

lemma example_sent_ok: "wire_ok example_sent"
proof -
  have "mset [0..<3] = {#0, 1, 2::nat#}" by (simp add: upt_rec add_mset_commute)
  then have "mset (map unat [0, 2, 1::u32]) = mset [0..<3]" by (simp add: add_mset_commute)
  moreover have "(\<forall>i<2. P i) \<longleftrightarrow> P 0 \<and> P 1" for P :: "nat \<Rightarrow> bool" by (auto simp: less_2_cases_iff)
  ultimately show ?thesis
    by (simp add: wire_ok_def layout_ok_def example_sent_def str_good_def buf_consts Let_def)
qed

theorem layout_wire_roundtrip_witness:
  "\<exists>b1 l'. pack_slurm_step_layout (\<lambda>a v. Some ''k'') (\<lambda>_. True) (Some example_sent) SLURM_MIN_PROTOCOL_VERSION (buf_example []) = Some b1
     \<and> unpack_slurm_step_layout (\<lambda>s v. Some example_alias) False (\<lambda>_. True) None SLURM_MIN_PROTOCOL_VERSION (b1\<lparr> processed := 0 \<rparr>)
         = Some (SLURM_SUCCESS, Some l', b1)
     \<and> layout_ok l' \<and> (\<forall>t. slurm_step_layout_host_id l' t = slurm_step_layout_host_id example_sent t)"
proof -
  have net: "Some ''k'' = (case alias_addrs example_sent of None \<Rightarrow> None | Some a \<Rightarrow> (\<lambda>a v. Some ''k'') a SLURM_MIN_PROTOCOL_VERSION)"
    by (simp add: example_sent_def)
  have cred: "\<forall>a. alias_addrs example_sent = Some a \<longrightarrow> (\<exists>s. (\<lambda>a v. Some ''k'') a SLURM_MIN_PROTOCOL_VERSION = Some s
      \<and> str_good (Some s) \<and> (\<lambda>s v. Some example_alias) s SLURM_MIN_PROTOCOL_VERSION = Some a)"
    by (simp add: example_sent_def str_good_def buf_consts)
  have room: "growable (\<lambda>_. True) (buf_example []) (length (encs (layout_fields example_sent (Some ''k''))))"
    by (simp add: growable_def buf_example_def layout_fields_def example_sent_def mem_enc_def mem_of_def str_bytes_def buf_consts)
  have "processed (buf_example []) = 0" by (simp add: buf_example_def)
  from layout_wire_roundtrip [OF buf_example_ok this order_refl example_sent_ok net cred room, of None] show ?thesis by auto
qed

end
