(* ===== verification/Spec2Isabelle.thy ===== *)
theory Spec2Isabelle
  imports Bitstring_Props Pack_Msg Xlist_Props Slurmctld_Locks Rate_Limit Reverse_Tree Port_Mgr Core_Array Cbuf_Props
    Step_Layout_Hostfile Step_Layout_Merge Step_Layout_Pack
begin

text \<open>
  \<^bold>\<open>Verification of core components of the Slurm workload manager\<close>

  The repository wraps the sources of Slurm (iso-workspace/slurm-src, written in C). A controller
  (slurmctld) keeps the tables of jobs, nodes and partitions; a daemon on every node (slurmd) starts one
  slurmstepd per job step; client commands and daemons exchange packed messages. Nearly all of that code
  stands on a small set of components under src/common and src/slurmctld. This development models those
  from the bottom up. File names below are relative to iso-workspace/slurm-src/src.

  \<^bold>\<open>How the C code is modelled.\<close>
  A struct is a record, an enumeration a datatype or its integer values, a fixed-width unsigned integer a
  \<^typ>\<open>'a word\<close>, a C \<open>int\<close> an \<^typ>\<open>int\<close> or \<^typ>\<open>nat\<close>. Its results are checked (with \<open>i32\<close> or a bound) in the parsers of the bit strings,
  the reverse tree, the circular buffers and the step layouts; the indices of bit strings are below \<open>2 ^ 30\<close> by their validity. The
  counts of lists and of core arrays and the sum \<open>seed + n\<close> of \<open>bit_noc\<close> are unbounded: they differ from the code
  for \<open>2 ^ 31\<close> elements only, and not in the result of \<open>bit_noc\<close>. Code
  that can stop the process is in the option monad: \<open>None\<close> is a failed assertion (the development build is
  modelled), a call of \<open>fatal\<close>, an access outside the memory a pointer owns, or undefined arithmetic.
  Error codes and null results are ordinary values. So \<open>f x = Some r\<close> says that \<open>f\<close> returns, that no
  assertion fails and that no byte outside the objects is touched. Counted loops use the combinators of
  \<open>Slurm_Prelude\<close> with their invariant rules; loops whose end depends on the data are
  \<open>partial_function (option)\<close>, and the lemmas about them show that they return. No fuel is used.
  Operations that hold one lock from their first to their last access are single steps; where threads
  interleave (the controller locks) the steps are a relation.

  \<^bold>\<open>The components.\<close>
  \<^item> Bit strings, common/bitstring.c: \<open>Bitstring\<close> (allocation, single bits, ranges, word-wise algebra),
    \<open>Hweight\<close> and \<open>Bitstring_Count\<close> (population counts, n-th set bit, picking), \<open>Bitstring_Search\<close> (first,
    last and run searches, rotation), \<open>Bitstring_Fmt\<close> (range text and hexadecimal masks). \<open>Bitmap_Spec\<close> states
    the contract of a bitmap as the locale \<open>bitmap_set\<close> over sets of positions and interprets it on the
    model; \<open>Bitstring_Props\<close> holds C1, C3 to C7 and C9 to C12.
  \<^item> Message buffers, common/pack.c and pack.h: \<open>Pack_Buf\<close> (buffers, growth, all pack and unpack
    primitives), \<open>Pack_Msg\<close> (messages as sequences of fields, C13 to C15). It uses the hexadecimal masks of
    the bit strings for bitmaps on the wire.
  \<^item> Linked lists, common/list.c: \<open>Xlist\<close> (nodes, pages and iterators in an explicit store), \<open>Xlist_Rep\<close>
    (the representation of a list of data by the store), \<open>Xlist_Ops\<close> (one lemma per operation),
    \<open>Xlist_Props\<close> (C18 to C24).
  \<^item> Controller locks, slurmctld/locks.c: \<open>Slurmctld_Locks\<close>, threads as a step relation, C25 and C26.
  \<^item> Rate limiting of requests, slurmctld/rate_limit.c: \<open>Rate_Limit\<close>, C27 and C28. It parses its parameters
    with the substring searches of common/xstring.c in \<open>Xstring\<close>.
  \<^item> The tree along which node daemons report, common/reverse_tree.c: \<open>Reverse_Tree\<close>, C29 and C30.
  \<^item> Reserved ports of job steps, common/port_mgr.c: \<open>Port_Mgr\<close>, C31 to C33, a client of the bit strings.
  \<^item> The node table, common/node_conf.c: \<open>Node_Conf\<close> (walks over the nodes, offsets of their cores), and core
    arrays, common/core_array.c: \<open>Core_Array\<close>, C34 and C35, clients of the bit strings and of each other.
  \<^item> Circular buffers for task output and logs, common/cbuf.c: \<open>Cbuf\<close> (all functions), \<open>Cbuf_Ring\<close> (what the
    ring stores: window, log and unread bytes, the state invariant, growth), \<open>Cbuf_Io\<close> (the copying loops for
    any sink or source, locales \<open>byte_sink\<close> and \<open>byte_source\<close>, interpreted on memory and shown for file
    descriptors), \<open>Cbuf_Lines\<close> (line searches), \<open>Cbuf_Ops\<close> (one contract per public function),
    \<open>Cbuf_Props\<close> (locales \<open>total_steps\<close> and \<open>simulation\<close>, C36 to C39).
  \<^item> The placement of a step's tasks on its nodes, common/slurm_step_layout.c: \<open>Step_Layout\<close> (the block,
    packed, cyclic, plane and hostfile distributions, creation, copying, merging and queries),
    \<open>Step_Layout_Count\<close> (the loops that count the tasks of each node), \<open>Step_Layout_Number\<close> (the loops that
    number them), \<open>Step_Layout_Props\<close> (creation as a whole, C40), \<open>Step_Layout_Hostfile\<close> (the arbitrary
    distribution, C2), \<open>Step_Layout_Merge\<close> (C8), \<open>Step_Layout_Pack\<close> (its messages, written
    with the primitives of the message buffers, C16 and C17).

  \<^bold>\<open>What the theorems show.\<close>
  \<^item> Bit strings: the word-wise operations compute the set operations, counts are cardinalities, searches
    return extremal positions, picking and rotation move what they say, text and masks parse back to the
    same set, parsing text with numbers in range is memory safe and beyond the range is not (C10), and the search for
    set runs sees those that end by size - n only (C12).
  \<^item> Messages: any sequence of fields of eleven kinds survives packing and unpacking, and so do bitmaps; unpacking arbitrary
    bytes stays in the buffer unless a bitmap or a long double meets one of two hazards, which are shown to abort (C14);
    growth keeps the data within the size limit; a value that no longer fits is dropped silently
    (\<open>pack_drops_silently\<close>).
  \<^item> Lists: every reachable list is well formed and all operations return; queue order, iteration, bulk
    operations, sorting and destruction behave as on lists of data.
  \<^item> Locks: confirmed levels exclude conflicting ones; the fixed order of acquisition excludes deadlock.
  \<^item> Rate limiter: a bound on the requests a user passes, and independence of the users' buckets.
  \<^item> Reverse tree: ranks agree on who is whose parent, and the counts of descendants add up.
  \<^item> Ports: no two steps share a port on a node, allocation succeeds exactly when it can, and releasing
    leaves exactly the ports behind whose position is a gap of the table (C33).
  \<^item> Cores: core arrays and system-wide bitmaps convert into each other without loss; the operations on
    core arrays are the operations on sets of cores.
  \<^item> Circular buffers: they refine a bounded byte queue with three overflow policies, every sequence of
    operations returns and keeps the buffer valid, lines and rewound bytes come back unchanged.
  \<^item> Step layouts: the block, cyclic and plane distributions give every task number to exactly one node, with
    as many numbers per node as the counts say (C40); a host file places task \<open>t\<close> on the host of its line \<open>t\<close>
    (C2); merging two layouts keeps every task on its host (C8); a layout is received as it was sent (C16), but a
    truncated message makes the receiver read through pointers it never set (C17); planes of one task, the
    over-subscription of the cyclic distribution and the names of two distributions are noted there as lemmas.

  \<^bold>\<open>Parameters and bounds.\<close>
  Code outside the repository is an argument with named hypotheses on its documented behaviour: \<open>qsort\<close> for
  \<open>list_sort\<close>, \<open>mmap\<close> for mapped buffers, the conversion of floating-point values to their bit images, the
  clock of the rate limiter, the \<open>read\<close> and \<open>write\<close> system calls of the circular buffers (a count of at most
  what was asked for, finitely many interruptions). The text form of host lists (common/hostlist.c) is a
  parameter of the port manager; the host lists, the node lookup and the selection parameters are fields of
  the record \<open>layout_env\<close> of the step layouts (C2 assumes that removing duplicates keeps each host once, that the
  text of a host list denotes the list again and that node lookups tell the hosts apart; C8 that
  \<open>hostlist_find\<close> returns the position of a host). Memory allocation yields fresh memory. Sizes are bounded where the C
  code's \<open>int\<close> arithmetic is: circular buffers of at most \<open>2 ^ 30 - 2000\<close> bytes with requests of at most
  \<open>2 ^ 30\<close>, which keeps every sum of two indices below \<open>2 ^ 31\<close>; bit strings up to the size that
  \<open>bit_alloc\<close> accepts; message buffers below 4 GB as the code requires.

  \<^bold>\<open>Not modelled.\<close>
  The controller's job, node, partition and reservation managers, request dispatch, the node daemon and
  step daemon, the plugins and interfaces, the database daemon, the client commands and the API: they
  depend on the whole configuration, on the operating system or on plugins loaded at run time. Of the
  shared library, the host lists, the configuration and option parsers, the time and cron expressions, the
  association cache, the data trees, the connection manager, the event loop and logging are left out; the
  per-message functions of slurm_protocol_pack.c are sequences of the primitives of \<open>Pack_Buf\<close>. Of
  common/xstring.c only the searches, of common/node_conf.c only the walks and core offsets are modelled.
  Text written to logs, thread creation and mutex initialisation are omitted throughout.
\<close>

end
